(* ===== verification/Prelude.thy ===== *)
theory Prelude imports Main "HOL-Library.Word" begin

text \<open>
  Shared ground of the development: the machine types of the C++ code, the ways in which
  an operation can fail, the sequencing of fallible operations, and the generic facts on
  lists, on lists of equally long blocks and on words that several components use.

  Sizes and offsets (\<^verbatim>\<open>size_t\<close>, \<^verbatim>\<open>uint64_t\<close> counters) are natural numbers wherever the code
  only adds to them; a subtraction that can go below zero is \<open>size_sub\<close>, which wraps
  at 64 bits as the C++ operator does.
\<close>

unbundle bit_operations_syntax

section \<open>Types and automation\<close>

type_synonym byte = "8 word"
type_synonym u16 = "16 word"
type_synonym u32 = "32 word"
type_synonym u64 = "64 word"

text \<open>
  \<open>spec_simps\<close> holds the facts that describe an operation by its effect on the abstract
  view of its component; \<open>inv_intros\<close> holds the preservation lemmas of the invariants.
\<close>

named_theorems spec_simps "effect of the operations on the abstract state"
named_theorems inv_intros "preservation of the component invariants"

section \<open>Faults and fallible operations\<close>

text \<open>
  The ways in which an operation of the code does not return: a C++ exception that it throws
  (\<open>OutOfRange\<close>, \<open>InvalidArgument\<close>, \<open>LogicError\<close>), a failed \<^verbatim>\<open>SEAICE_ASSERT\<close>, and the
  undefined behaviours the models make visible: the dereference of a null pointer or of an end
  iterator, the division by zero, an access outside an object or to an indeterminate value, the
  overflow of signed arithmetic or of a shift, a recursion that exceeds the stack, and a function that ends
  without the value it promises.
\<close>

datatype fault =
    OutOfRange
  | InvalidArgument
  | LogicError
  | AssertFail
  | NullDeref
  | DivByZero
  | OutOfBounds
  | IntOverflow
  | StackOverflow
  | NoReturn

text \<open>The faults that a \<^verbatim>\<open>catch\<close> clause can handle.\<close>

primrec is_exception :: "fault \<Rightarrow> bool" where
  "is_exception OutOfRange = True"
| "is_exception InvalidArgument = True"
| "is_exception LogicError = True"
| "is_exception AssertFail = False"
| "is_exception NullDeref = False"
| "is_exception DivByZero = False"
| "is_exception OutOfBounds = False"
| "is_exception IntOverflow = False"
| "is_exception StackOverflow = False"
| "is_exception NoReturn = False"

definition rbind :: "fault + 'a \<Rightarrow> ('a \<Rightarrow> fault + 'b) \<Rightarrow> fault + 'b" where
  "rbind m f = (case m of Inl e \<Rightarrow> Inl e | Inr x \<Rightarrow> f x)"

lemma rbind_Inl [simp]: "rbind (Inl e) f = Inl e"
  by (simp add: rbind_def)

lemma rbind_Inr [simp]: "rbind (Inr x) f = f x"
  by (simp add: rbind_def)

lemma rbind_eq_Inr: "rbind m f = Inr y \<longleftrightarrow> (\<exists>x. m = Inr x \<and> f x = Inr y)"
  by (cases m) auto

lemma rbind_assoc: "rbind (rbind m f) g = rbind m (\<lambda>x. rbind (f x) g)"
  by (cases m) auto

lemma rbind_assoc_pair: "rbind m (\<lambda>(c, s). rbind (f c s) g) = rbind (rbind m (\<lambda>(c, s). f c s)) g"
  by (cases m) auto

text \<open>Unsigned 64-bit subtraction of two sizes.\<close>

definition size_sub :: "nat \<Rightarrow> nat \<Rightarrow> nat" where
  "size_sub a b = (if b \<le> a then a - b else a + 2 ^ 64 - b)"

lemma size_sub_le [simp]: "b \<le> a \<Longrightarrow> size_sub a b = a - b"
  by (simp add: size_sub_def)

text \<open>Times are 64-bit counts of milliseconds; their sum wraps.\<close>

definition ts_add :: "nat \<Rightarrow> nat \<Rightarrow> nat" where
  "ts_add a b = (a + b) mod 2 ^ 64"

section \<open>Overwriting a segment of a list\<close>

text \<open>The effect of \<^verbatim>\<open>memcpy(p + off, bs, n)\<close> on the memory \<open>xs\<close> at \<open>p\<close>.\<close>

definition overwrite :: "nat \<Rightarrow> 'a list \<Rightarrow> 'a list \<Rightarrow> 'a list" where
  "overwrite off bs xs = take off xs @ bs @ drop (off + length bs) xs"

lemma overwrite_Nil [simp]: "overwrite off [] xs = xs"
  by (simp add: overwrite_def)

lemma length_overwrite [simp]:
  "off + length bs \<le> length xs \<Longrightarrow> length (overwrite off bs xs) = length xs"
  by (simp add: overwrite_def)

lemma overwrite_append_right:
  assumes "length xs \<le> off"
  shows "overwrite off bs (xs @ ys) = xs @ overwrite (off - length xs) bs ys"
  using assms by (simp add: overwrite_def)

lemma overwrite_append_left:
  assumes "off + length bs \<le> length xs"
  shows "overwrite off bs (xs @ ys) = overwrite off bs xs @ ys"
  using assms by (simp add: overwrite_def)

lemma overwrite_overwrite_adjacent:
  assumes "off + length as + length bs \<le> length xs"
  shows "overwrite (off + length as) bs (overwrite off as xs) = overwrite off (as @ bs) xs"
  using assms by (simp add: overwrite_def ac_simps)

lemma take_overwrite:
  assumes "off \<le> length xs"
  shows "take (off + length bs) (overwrite off bs xs) = take off xs @ bs"
  using assms by (simp add: overwrite_def)

section \<open>Lists of equally long blocks\<close>

definition blocks :: "nat \<Rightarrow> 'a list list \<Rightarrow> bool" where
  "blocks n xss \<longleftrightarrow> (\<forall>xs \<in> set xss. length xs = n)"

lemma blocks_Nil [simp]: "blocks n []"
  by (simp add: blocks_def)

lemma blocks_Cons [simp]: "blocks n (xs # xss) \<longleftrightarrow> length xs = n \<and> blocks n xss"
  by (simp add: blocks_def)

lemma blocks_append [simp]: "blocks n (xss @ yss) \<longleftrightarrow> blocks n xss \<and> blocks n yss"
  by (auto simp: blocks_def)

lemma blocks_replicate [simp]: "length xs = n \<Longrightarrow> blocks n (replicate k xs)"
  by (simp add: blocks_def)

lemma blocks_nth [simp]: "blocks n xss \<Longrightarrow> i < length xss \<Longrightarrow> length (xss ! i) = n"
  by (simp add: blocks_def)

lemma blocks_update:
  "blocks n xss \<Longrightarrow> length ys = n \<Longrightarrow> blocks n (xss[i := ys])"
  unfolding blocks_def using set_update_subset_insert by fastforce

lemma length_concat_blocks: "blocks n xss \<Longrightarrow> length (concat xss) = n * length xss"
  by (induction xss) auto

lemma concat_update_blocks:
  assumes "blocks n xss" and "i < length xss" and "off + length bs \<le> n"
  shows "concat (xss[i := overwrite off bs (xss ! i)]) = overwrite (i * n + off) bs (concat xss)"
  using assms
proof (induction xss arbitrary: i)
  case Nil
  then show ?case by simp
next
  case (Cons xs xss)
  show ?case
  proof (cases i)
    case 0
    with Cons.prems show ?thesis by (simp add: overwrite_append_left)
  next
    case (Suc j)
    with Cons show ?thesis by (simp add: overwrite_append_right add.assoc)
  qed
qed

lemma take_drop_concat_blocks:
  assumes "blocks n xss" and "i < length xss" and "off + k \<le> n"
  shows "take k (drop off (xss ! i)) = take k (drop (i * n + off) (concat xss))"
  using assms
proof (induction xss arbitrary: i)
  case Nil
  then show ?case by simp
next
  case (Cons xs xss)
  show ?case
  proof (cases i)
    case 0
    with Cons.prems show ?thesis by simp
  next
    case (Suc j)
    with Cons show ?thesis by (simp add: add.assoc)
  qed
qed

text \<open>The block of the last element of a segment that stays inside block \<open>i\<close>.\<close>

lemma div_in_block:
  fixes i n r k :: nat
  assumes "0 < k" and "r + k \<le> n"
  shows "(i * n + r + k - 1) div n = i"
proof -
  have "i * n + r + k - 1 = i * n + (r + k - 1)" using assms by simp
  moreover have "r + k - 1 < n" using assms by simp
  ultimately show ?thesis by simp
qed

text \<open>Rounding up to whole blocks.\<close>

lemma le_round_up_blocks:
  fixes a n :: nat
  assumes "0 < n"
  shows "a \<le> (a div n + (if a mod n \<noteq> 0 then 1 else 0)) * n"
    and "(a div n + (if a mod n \<noteq> 0 then 1 else 0)) * n < a + n"
proof -
  obtain q r where qr: "a = q * n + r" "r < n" "a div n = q" "a mod n = r"
    using assms by (metis div_mult_mod_eq mod_less_divisor)
  show "a \<le> (a div n + (if a mod n \<noteq> 0 then 1 else 0)) * n"
    and "(a div n + (if a mod n \<noteq> 0 then 1 else 0)) * n < a + n"
    unfolding qr(3,4) using qr(1,2) assms by auto
qed

lemma find_SomeD: "find P xs = Some x \<Longrightarrow> x \<in> set xs \<and> P x"
  by (induction xs) (auto split: if_splits)

section \<open>Words\<close>

lemma word_not_minus: "NOT x = - x - (1 :: 'a::len word)"
  by (simp add: not_eq_complement)

lemma xor_minus_one: "x XOR (- 1) = NOT (x :: 'a::len word)"
  by (simp add: word_not_minus)

end
