(* ===== verification/Endian.thy ===== *)
theory Endian imports Prelude begin

text \<open>
  Byte order (\<^verbatim>\<open>seaice/endian.h\<close>): the image of a machine word in the memory of the host,
  the \<^verbatim>\<open>byteswap\<close> templates and the two conditional swaps. The host is the little-endian one
  (\<^verbatim>\<open>BYTE_ORDER\<close> is \<^verbatim>\<open>LITTLE_ENDIAN\<close> on the platforms the build files name), so
  \<open>SEAICE_BYTE_ORDER\<close> is \<open>SEAICE_LITTLE_ENDIAN\<close>. The lemmas show that the memory image
  determines the word, that a swap reverses it and that swapping twice is the identity.
\<close>

definition SEAICE_LITTLE_ENDIAN :: nat where "SEAICE_LITTLE_ENDIAN = 1"

definition SEAICE_BIG_ENDIAN :: nat where "SEAICE_BIG_ENDIAN = 2"

definition SEAICE_BYTE_ORDER :: nat where "SEAICE_BYTE_ORDER = SEAICE_LITTLE_ENDIAN"

lemmas endian_defs = SEAICE_LITTLE_ENDIAN_def SEAICE_BIG_ENDIAN_def SEAICE_BYTE_ORDER_def

section \<open>The memory image of a word\<close>

text \<open>
  \<open>le_bytes w\<close> is what \<^verbatim>\<open>memcpy(dst, &w, sizeof(w))\<close> copies on the host; \<open>le_word bs\<close> is
  the value read back from such bytes.
\<close>

definition le_bytes :: "'a::len word \<Rightarrow> byte list" where
  "le_bytes w = map (\<lambda>i. ucast (drop_bit (8 * i) w)) [0..<LENGTH('a) div 8]"

fun le_word :: "byte list \<Rightarrow> 'a::len word" where
  "le_word [] = 0"
| "le_word (b # bs) = ucast b OR push_bit 8 (le_word bs)"

lemma length_le_bytes [simp]: "length (le_bytes (w :: 'a::len word)) = LENGTH('a) div 8"
  by (simp add: le_bytes_def)

lemma bit_le_word:
  "bit (le_word bs :: 'a::len word) n \<longleftrightarrow>
     n < LENGTH('a) \<and> n div 8 < length bs \<and> bit (bs ! (n div 8)) (n mod 8)"
proof (induction bs arbitrary: n)
  case Nil
  then show ?case by simp
next
  case (Cons b bs)
  show ?case
  proof (cases "n < 8")
    case True
    then show ?thesis
      by (auto simp: bit_or_iff bit_ucast_iff bit_push_bit_iff)
  next
    case False
    then obtain m where m: "n = m + 8"
      by (metis add.commute le_Suc_ex not_less)
    have "\<not> bit b n"
      using False bit_imp_le_length by fastforce
    moreover have "n div 8 = Suc (m div 8)" and "n mod 8 = m mod 8"
      using m by simp_all
    ultimately show ?thesis
      using m by (auto simp: bit_or_iff bit_ucast_iff bit_push_bit_iff Cons.IH)
  qed
qed

lemma le_word_le_bytes:
  assumes "LENGTH('a) mod 8 = 0"
  shows "le_word (le_bytes (w :: 'a::len word)) = w"
proof (rule bit_word_eqI)
  fix n
  assume n: "n < LENGTH('a)"
  with assms have "n div 8 < LENGTH('a) div 8"
    by (metis div_less_iff_less_mult dvd_mult_div_cancel mod_eq_0_iff_dvd mult.commute zero_less_numeral)
  with n show "bit (le_word (le_bytes w) :: 'a word) n \<longleftrightarrow> bit w n"
    by (simp add: bit_le_word le_bytes_def bit_ucast_iff bit_drop_bit_eq)
qed

lemma le_bytes_le_word:
  assumes "length bs = LENGTH('a) div 8"
  shows "le_bytes (le_word bs :: 'a::len word) = bs"
proof (rule nth_equalityI)
  show "length (le_bytes (le_word bs :: 'a word)) = length bs"
    by (simp add: assms)
next
  fix i
  assume "i < length (le_bytes (le_word bs :: 'a word))"
  then have i: "i < LENGTH('a) div 8" by simp
  show "le_bytes (le_word bs :: 'a word) ! i = bs ! i"
  proof (rule bit_word_eqI)
    fix n
    assume n: "n < LENGTH(8)"
    with i have "8 * i + n < LENGTH('a)" by simp
    with n i show "bit (le_bytes (le_word bs :: 'a word) ! i) n \<longleftrightarrow> bit (bs ! i) n"
      by (simp add: le_bytes_def bit_ucast_iff bit_drop_bit_eq bit_le_word assms)
  qed
qed

section \<open>Byte swaps\<close>

text \<open>
  \<^verbatim>\<open>bswap_16\<close>, \<^verbatim>\<open>bswap_32\<close> and \<^verbatim>\<open>bswap_64\<close> reverse the bytes of their argument; the three
  \<^verbatim>\<open>byteswap\<close> templates select one of them by the size of the type.
\<close>

definition byteswap :: "'a::len word \<Rightarrow> 'a word" where
  "byteswap value = le_word (rev (le_bytes value))"

definition byteswapOnLittleEndian :: "'a::len word \<Rightarrow> 'a word" where
  "byteswapOnLittleEndian t =
     (if SEAICE_BYTE_ORDER = SEAICE_BIG_ENDIAN then t else byteswap t)"

definition byteswapOnBigEndian :: "'a::len word \<Rightarrow> 'a word" where
  "byteswapOnBigEndian t =
     (if SEAICE_BYTE_ORDER = SEAICE_BIG_ENDIAN then byteswap t else t)"

lemma le_bytes_byteswap [simp]: "le_bytes (byteswap w) = rev (le_bytes w)"
  by (simp add: byteswap_def le_bytes_le_word)

lemma byteswap_byteswap:
  "LENGTH('a) mod 8 = 0 \<Longrightarrow> byteswap (byteswap (w :: 'a::len word)) = w"
  by (simp add: byteswap_def [of "byteswap w"] le_word_le_bytes)

lemma byteswap_le_word_rev:
  "LENGTH('a) mod 8 = 0 \<Longrightarrow> byteswap (le_word (rev (le_bytes (w :: 'a::len word)))) = w"
  using byteswap_byteswap [of w] by (simp add: byteswap_def [of w])

lemma byteswapOnLittleEndian_swaps [simp]: "byteswapOnLittleEndian t = byteswap t"
  by (simp add: byteswapOnLittleEndian_def endian_defs)

lemma byteswapOnBigEndian_id [simp]: "byteswapOnBigEndian t = t"
  by (simp add: byteswapOnBigEndian_def endian_defs)

text \<open>A swapped word lies in memory in network order: its most significant byte comes first.\<close>

lemma le_bytes_swapped_nth:
  assumes "i < LENGTH('a) div 8"
  shows "le_bytes (byteswap w) ! i = ucast (drop_bit (8 * (LENGTH('a) div 8 - 1 - i)) (w :: 'a::len word))"
  using assms by (simp add: rev_nth) (simp add: le_bytes_def)

end
