(* ===== verification/ByteArray.thy ===== *)
theory ByteArray imports Endian begin

text \<open>
  The serialisation buffer \<^verbatim>\<open>ByteArray\<close> (\<^verbatim>\<open>seaice/bytearray.h\<close>, \<^verbatim>\<open>bytearray.cpp\<close>): a chain of
  equally large nodes with a cursor. The chain is the list \<open>m_nodes\<close> of the nodes' memories,
  a node pointer is an index into it, and the index \<open>length m_nodes\<close> is \<^verbatim>\<open>nullptr\<close>. Memory of
  a new node is indeterminate; \<open>junk\<close> stands for whatever it holds. Dereferencing the null
  pointer, dividing by a zero base sz and reading outside a node are faults of the model.
  The invariant \<open>ba_inv\<close> relates the cursor, the position, the size and the capacity; under
  it a buffer is the byte list \<open>ba_data\<close>, reads take a prefix of \<open>ba_unread\<close> and writes at the
  end append.
\<close>

section \<open>State\<close>

record bytearray =
  m_baseSize :: nat
  m_pos :: nat
  m_cap :: nat
  m_size :: nat
  m_endian :: nat
  m_nodes :: "byte list list"
  m_cur :: nat
  junk :: byte

definition new_ByteArray :: "nat \<Rightarrow> byte \<Rightarrow> bytearray" where
  "new_ByteArray baseSize g =
     \<lparr>m_baseSize = baseSize, m_pos = 0, m_cap = baseSize, m_size = 0,
      m_endian = SEAICE_BIG_ENDIAN, m_nodes = [replicate baseSize g], m_cur = 0, junk = g\<rparr>"

definition getCapacity :: "bytearray \<Rightarrow> nat" where
  "getCapacity b = size_sub (m_cap b) (m_pos b)"

definition getReadSize :: "bytearray \<Rightarrow> nat" where
  "getReadSize b = size_sub (m_size b) (m_pos b)"

definition isLittleEndian :: "bytearray \<Rightarrow> bool" where
  "isLittleEndian b = (m_endian b = SEAICE_LITTLE_ENDIAN)"

definition setIsLittleEndian :: "bool \<Rightarrow> bytearray \<Rightarrow> bytearray" where
  "setIsLittleEndian val b =
     b\<lparr>m_endian := (if val then SEAICE_LITTLE_ENDIAN else SEAICE_BIG_ENDIAN)\<rparr>"

section \<open>The raw operations\<close>

text \<open>Following \<open>next\<close> from a node \<open>count\<close> times.\<close>

fun node_walk :: "byte list list \<Rightarrow> nat \<Rightarrow> nat \<Rightarrow> fault + nat" where
  "node_walk ns cur 0 = Inr cur"
| "node_walk ns cur (Suc count) =
     (if cur < length ns then node_walk ns (Suc cur) count else Inl NullDeref)"

definition nodes_needed :: "nat \<Rightarrow> nat \<Rightarrow> nat" where
  "nodes_needed addSize base = addSize div base + (if addSize mod base \<noteq> 0 then 1 else 0)"

definition addCapacity :: "nat \<Rightarrow> bytearray \<Rightarrow> fault + bytearray" where
  "addCapacity sz b =
     (let cap = getCapacity b in
      if sz \<le> cap then Inr b
      else if m_baseSize b = 0 then Inl DivByZero
      else if m_cur b \<ge> length (m_nodes b) then Inl NullDeref
      else
        let addSize = sz - cap;
            count = nodes_needed addSize (m_baseSize b);
            first = length (m_nodes b);
            b' = b\<lparr>m_nodes := m_nodes b @ replicate count (replicate (m_baseSize b) (junk b)),
                   m_cap := m_cap b + count * m_baseSize b\<rparr>
        in Inr (if cap = 0 then b'\<lparr>m_cur := first\<rparr> else b'))"

function write_loop :: "nat \<Rightarrow> byte list \<Rightarrow> bytearray \<Rightarrow> fault + bytearray" where
  "write_loop nPos buf b =
     (if buf = [] then Inr b
      else if m_cur b \<ge> length (m_nodes b) then Inl NullDeref
      else
        let node = m_nodes b ! m_cur b;
            nCap = size_sub (length node) nPos in
        if nCap > length buf then
          Inr (b\<lparr>m_nodes := (m_nodes b)[m_cur b := overwrite nPos buf node],
                 m_pos := m_pos b + length buf, m_size := m_size b + length buf\<rparr>)
        else
          let rest = drop nCap buf;
              b' = b\<lparr>m_nodes := (m_nodes b)[m_cur b := overwrite nPos (take nCap buf) node],
                     m_pos := m_pos b + nCap, m_size := m_size b + nCap\<rparr> in
          if rest = [] then Inr b'
          else if Suc (m_cur b) \<ge> length (m_nodes b) then Inl AssertFail
          else write_loop 0 rest (b'\<lparr>m_cur := Suc (m_cur b)\<rparr>))"
  by pat_completeness auto
termination
  by (relation "measure (\<lambda>(nPos, buf, b). length (m_nodes b) - m_cur b)") auto

declare write_loop.simps [simp del]

lemma write_loop_Nil [simp]: "write_loop nPos [] b = Inr b"
  by (simp add: write_loop.simps)

definition write_bytes :: "byte list \<Rightarrow> bytearray \<Rightarrow> fault + bytearray" where
  "write_bytes buf b =
     rbind (addCapacity (length buf) b) (\<lambda>b.
       if m_baseSize b = 0 then Inl DivByZero
       else write_loop (m_pos b mod m_baseSize b) buf b)"

function read_loop :: "nat \<Rightarrow> nat \<Rightarrow> bytearray \<Rightarrow> fault + (byte list \<times> bytearray)" where
  "read_loop nPos sz b =
     (if sz = 0 then Inr ([], b)
      else if m_cur b \<ge> length (m_nodes b) then Inl NullDeref
      else
        let node = m_nodes b ! m_cur b;
            nCap = size_sub (length node) nPos in
        if nCap > sz then
          Inr (take sz (drop nPos node), b\<lparr>m_pos := m_pos b + sz\<rparr>)
        else
          rbind (read_loop 0 (sz - nCap)
                   (b\<lparr>m_pos := m_pos b + nCap, m_cur := Suc (m_cur b)\<rparr>))
            (\<lambda>(bs, b'). Inr (take nCap (drop nPos node) @ bs, b')))"
  by pat_completeness auto
termination
  by (relation "measure (\<lambda>(nPos, sz, b). length (m_nodes b) - m_cur b)") auto

declare read_loop.simps [simp del]

lemma read_loop_0 [simp]: "read_loop nPos 0 b = Inr ([], b)"
  by (simp add: read_loop.simps)

definition read_bytes :: "nat \<Rightarrow> bytearray \<Rightarrow> fault + (byte list \<times> bytearray)" where
  "read_bytes sz b =
     (if getReadSize b < sz then Inl OutOfRange
      else if m_baseSize b = 0 then Inl DivByZero
      else read_loop (m_pos b mod m_baseSize b) sz b)"

text \<open>The \<^verbatim>\<open>const\<close> overload of \<^verbatim>\<open>read\<close>, which starts at a given position and moves nothing.\<close>

function read_at_loop :: "byte list list \<Rightarrow> nat \<Rightarrow> nat \<Rightarrow> nat \<Rightarrow> fault + byte list" where
  "read_at_loop ns cur nPos sz =
     (if sz = 0 then Inr []
      else if cur \<ge> length ns then Inl NullDeref
      else
        let node = ns ! cur; nCap = size_sub (length node) nPos in
        if nCap > sz then Inr (take sz (drop nPos node))
        else rbind (read_at_loop ns (Suc cur) 0 (sz - nCap))
               (\<lambda>bs. Inr (take nCap (drop nPos node) @ bs)))"
  by pat_completeness auto
termination
  by (relation "measure (\<lambda>(ns, cur, nPos, sz). length ns - cur)") auto

declare read_at_loop.simps [simp del]

lemma read_at_loop_0 [simp]: "read_at_loop ns cur nPos 0 = Inr []"
  by (simp add: read_at_loop.simps)

definition read_at :: "nat \<Rightarrow> nat \<Rightarrow> bytearray \<Rightarrow> fault + byte list" where
  "read_at sz pos b =
     (if size_sub (m_size b) pos < sz then Inl OutOfRange
      else if m_baseSize b = 0 then Inl DivByZero
      else rbind (node_walk (m_nodes b) 0 (pos div m_baseSize b))
             (\<lambda>cur. read_at_loop (m_nodes b) cur (pos mod m_baseSize b) sz))"

definition setPos :: "nat \<Rightarrow> bytearray \<Rightarrow> fault + bytearray" where
  "setPos v b =
     (if v > m_cap b then Inl OutOfRange
      else
        let b' = (if v > m_size b then b\<lparr>m_size := v\<rparr> else b) in
        if m_baseSize b = 0 then Inl DivByZero
        else rbind (node_walk (m_nodes b) 0 (v div m_baseSize b))
               (\<lambda>cur. Inr (b'\<lparr>m_pos := v, m_cur := cur\<rparr>)))"

definition setSize :: "nat \<Rightarrow> bytearray \<Rightarrow> bytearray" where
  "setSize sz b = (if sz > m_cap b \<or> m_pos b > sz then b else b\<lparr>m_size := sz\<rparr>)"

definition clear :: "bytearray \<Rightarrow> bytearray" where
  "clear b = b\<lparr>m_pos := 0, m_size := 0, m_cap := m_baseSize b,
               m_nodes := take 1 (m_nodes b), m_cur := 0\<rparr>"

definition toString :: "bytearray \<Rightarrow> fault + byte list" where
  "toString b =
     (let n = getReadSize b in if n = 0 then Inr [] else read_at n (m_pos b) b)"

section \<open>Invariant and abstract view\<close>

text \<open>
  The cursor points to the node of the position, except that it stays on a full last node
  after a write has filled it.
\<close>

definition ba_inv :: "bytearray \<Rightarrow> bool" where
  "ba_inv b \<longleftrightarrow>
     0 < m_baseSize b \<and> m_nodes b \<noteq> [] \<and> blocks (m_baseSize b) (m_nodes b) \<and>
     m_cap b = m_baseSize b * length (m_nodes b) \<and>
     m_pos b \<le> m_size b \<and> m_size b \<le> m_cap b \<and>
     (m_cur b = m_pos b div m_baseSize b \<or>
      m_pos b = m_cap b \<and> Suc (m_cur b) = length (m_nodes b))"

definition ba_data :: "bytearray \<Rightarrow> byte list" where
  "ba_data b = take (m_size b) (concat (m_nodes b))"

definition ba_unread :: "bytearray \<Rightarrow> byte list" where
  "ba_unread b = drop (m_pos b) (ba_data b)"

text \<open>
  The state in which a buffer is filled: the position is at the end, \<open>m_cur\<close> is a node, and
  there is at most one node's worth of room, so that the cursor never has a fresh node ahead of
  a full one.
\<close>

definition ba_append_mode :: "bytearray \<Rightarrow> bool" where
  "ba_append_mode b \<longleftrightarrow> ba_inv b \<and> m_pos b = m_size b \<and> m_cur b < length (m_nodes b) \<and>
     m_cap b \<le> m_pos b + m_baseSize b"

lemma ba_append_mode_inv [inv_intros]: "ba_append_mode b \<Longrightarrow> ba_inv b"
  by (simp add: ba_append_mode_def)

text \<open>The parts of the invariant, one fact each, for the proofs that need only some of them.\<close>

lemma ba_invD:
  assumes "ba_inv b"
  shows ba_inv_base: "0 < m_baseSize b" and ba_inv_nonempty: "m_nodes b \<noteq> []"
    and ba_inv_blocks: "blocks (m_baseSize b) (m_nodes b)"
    and ba_inv_cap: "m_cap b = m_baseSize b * length (m_nodes b)"
    and ba_inv_pos: "m_pos b \<le> m_size b" and ba_inv_size: "m_size b \<le> m_cap b"
    and ba_inv_cur: "m_cur b = m_pos b div m_baseSize b \<or>
      m_pos b = m_cap b \<and> Suc (m_cur b) = length (m_nodes b)"
  using assms unfolding ba_inv_def by blast+

lemma ba_inv_length_concat: "ba_inv b \<Longrightarrow> length (concat (m_nodes b)) = m_cap b"
  using ba_invD(3,4) [of b] by (simp add: length_concat_blocks)

lemma length_ba_data: "ba_inv b \<Longrightarrow> length (ba_data b) = m_size b"
  using ba_inv_length_concat [of b] ba_invD(6) [of b] by (simp add: ba_data_def)

lemma length_ba_unread: "ba_inv b \<Longrightarrow> length (ba_unread b) = getReadSize b"
  using length_ba_data [of b] ba_invD(5) [of b] by (simp add: ba_unread_def getReadSize_def)

lemma new_ByteArray_append_mode [inv_intros]:
  "0 < n \<Longrightarrow> ba_append_mode (new_ByteArray n g)"
  by (simp add: new_ByteArray_def ba_append_mode_def ba_inv_def)

lemma new_ByteArray_data [simp]: "ba_data (new_ByteArray n g) = []"
  by (simp add: new_ByteArray_def ba_data_def)

lemma new_ByteArray_fields [simp]:
  "m_baseSize (new_ByteArray n g) = n" "m_endian (new_ByteArray n g) = SEAICE_BIG_ENDIAN"
  by (simp_all add: new_ByteArray_def)

lemma node_walk_eq:
  "cur + count \<le> length ns \<Longrightarrow> node_walk ns cur count = Inr (cur + count)"
  by (induction count arbitrary: cur) auto

lemma setIsLittleEndian_inv [inv_intros]: "ba_inv b \<Longrightarrow> ba_inv (setIsLittleEndian v b)"
  unfolding ba_inv_def setIsLittleEndian_def by simp argo

lemma isLittleEndian_set [simp]: "isLittleEndian (setIsLittleEndian v b) = v"
  by (simp add: isLittleEndian_def setIsLittleEndian_def endian_defs)

section \<open>Writing\<close>

text \<open>
  \<open>write_loop\<close> overwrites the segment that starts at offset \<open>nPos\<close> of the current node,
  across node borders, and leaves everything else alone.
\<close>

lemma write_loop_spec:
  assumes "blocks n (m_nodes b)" and "0 < n" and "nPos < n"
    and "m_cur b * n + nPos + length buf \<le> n * length (m_nodes b)"
    and "m_cur b < length (m_nodes b)"
  shows "\<exists>ns. write_loop nPos buf b =
           Inr (b\<lparr>m_nodes := ns, m_pos := m_pos b + length buf, m_size := m_size b + length buf,
                  m_cur := (if buf = [] then m_cur b
                            else (m_cur b * n + nPos + length buf - 1) div n)\<rparr>) \<and>
         concat ns = overwrite (m_cur b * n + nPos) buf (concat (m_nodes b)) \<and>
         blocks n ns \<and> length ns = length (m_nodes b)"
  using assms
proof (induction "length (m_nodes b) - m_cur b" arbitrary: nPos buf b rule: less_induct)
  case less
  let ?node = "m_nodes b ! m_cur b"
  have len: "length ?node = n" using less.prems by simp
  show ?case
  proof (cases "buf = []")
    case True
    then show ?thesis
      by (intro exI [of _ "m_nodes b"]) (simp add: less.prems)
  next
    case False
    note notnull = less.prems(5)
    show ?thesis
    proof (cases "n - nPos > length buf")
      case True
      have "(m_cur b * n + nPos + length buf - 1) div n = m_cur b"
        using True False by (intro div_in_block) auto
      moreover have "blocks n ((m_nodes b)[m_cur b := overwrite nPos buf ?node])"
        using less.prems True len by (simp add: blocks_update)
      ultimately show ?thesis
        using True False notnull less.prems len
        by (intro exI [of _ "(m_nodes b)[m_cur b := overwrite nPos buf ?node]"])
          (simp add: write_loop.simps [of nPos buf b] concat_update_blocks)
    next
      case False2: False
      define k where "k = n - nPos"
      define ns where "ns = (m_nodes b)[m_cur b := overwrite nPos (take k buf) ?node]"
      have k: "k \<le> length buf" "0 < k" "nPos + k = n" "size_sub (length ?node) nPos = k"
        using False2 less.prems len by (simp_all add: k_def)
      have ns: "blocks n ns" "length ns = length (m_nodes b)"
        "concat ns = overwrite (m_cur b * n + nPos) (take k buf) (concat (m_nodes b))"
        using less.prems k len by (simp_all add: ns_def blocks_update concat_update_blocks)
      show ?thesis
      proof (cases "drop k buf = []")
        case True
        then have "length buf = k" using k by simp
        moreover from this have "(m_cur b * n + nPos + length buf - 1) div n = m_cur b"
          using k by (intro div_in_block) auto
        ultimately show ?thesis
          using k notnull False ns ns_def
          by (intro exI [of _ ns]) (simp add: write_loop.simps [of nPos buf b] Let_def)
      next
        case rest: False
        let ?b = "b\<lparr>m_nodes := ns, m_pos := m_pos b + k, m_size := m_size b + k,
                     m_cur := Suc (m_cur b)\<rparr>"
        have step: "Suc (m_cur b) * n = m_cur b * n + nPos + k" using k by simp
        have room: "Suc (m_cur b) * n + length (drop k buf) \<le> n * length (m_nodes b)"
          using less.prems(4) k step by simp
        then have "Suc (m_cur b) * n < n * length (m_nodes b)"
          using rest by simp
        then have suc: "Suc (m_cur b) < length (m_nodes b)"
          by (metis mult.commute mult_less_cancel1)
        have eq: "write_loop nPos buf b = write_loop 0 (drop k buf) ?b"
          using False notnull suc rest k False2 len
          by (simp add: write_loop.simps [of nPos buf b] Let_def ns_def k_def)
        have "length (m_nodes ?b) - m_cur ?b < length (m_nodes b) - m_cur b"
          using ns notnull by simp
        note IH = less.hyps [OF this, of 0 "drop k buf"]
        then obtain ns' where ns': "write_loop 0 (drop k buf) ?b =
           Inr (?b\<lparr>m_nodes := ns', m_pos := m_pos ?b + length (drop k buf),
                   m_size := m_size ?b + length (drop k buf),
                   m_cur := (m_cur ?b * n + 0 + length (drop k buf) - 1) div n\<rparr>)"
          "concat ns' = overwrite (m_cur ?b * n) (drop k buf) (concat ns)"
          "blocks n ns'" "length ns' = length ns"
          using IH rest ns room suc less.prems(2) by (auto simp: algebra_simps)
        have off: "m_cur ?b * n = m_cur b * n + nPos + k" using step by simp
        have "concat ns' = overwrite (m_cur b * n + nPos) (take k buf @ drop k buf) (concat (m_nodes b))"
          unfolding ns'(2) ns(3) off
          using overwrite_overwrite_adjacent
            [of "m_cur b * n + nPos" "take k buf" "drop k buf" "concat (m_nodes b)"]
            k(1) less.prems(1,4) by (simp add: length_concat_blocks)
        moreover have "Suc (m_cur b) * n + length (drop k buf) = m_cur b * n + nPos + length buf"
          using step k by simp
        ultimately show ?thesis
          using False k ns' ns(2) unfolding eq by (intro exI [of _ ns']) simp
      qed
    qed
  qed
qed

text \<open>Growing the chain: the new nodes follow the old ones and there is room for \<open>k\<close> more bytes.\<close>

lemma addCapacity_spec:
  assumes inv: "ba_inv b" and cur: "m_cur b < length (m_nodes b)"
  shows "\<exists>c cur'. addCapacity k b =
           Inr (b\<lparr>m_nodes := m_nodes b @ replicate c (replicate (m_baseSize b) (junk b)),
                  m_cap := m_cap b + c * m_baseSize b, m_cur := cur'\<rparr>) \<and>
         m_pos b + k \<le> m_cap b + c * m_baseSize b \<and>
         (c = 0 \<or> m_cap b + c * m_baseSize b < m_pos b + k + m_baseSize b) \<and>
         cur' < length (m_nodes b) + c \<and>
         (if k = 0 then c = 0 \<and> cur' = m_cur b else cur' = m_pos b div m_baseSize b)"
proof -
  note b = ba_invD [OF inv]
  let ?n = "m_baseSize b"
  have cap: "getCapacity b = m_cap b - m_pos b"
    using b(5,6) by (simp add: getCapacity_def)
  show ?thesis
  proof (cases "k \<le> m_cap b - m_pos b")
    case True
    moreover from this have "k = 0 \<or> m_cur b = m_pos b div ?n"
      using b(7) by auto
    ultimately show ?thesis
      using cap cur b(5,6) by (intro exI [of _ 0] exI [of _ "m_cur b"]) (auto simp: addCapacity_def)
  next
    case False
    define a where "a = k - (m_cap b - m_pos b)"
    define c where "c = nodes_needed a ?n"
    have a: "0 < a" "m_pos b + k = m_cap b + a" using False b(5,6) unfolding a_def by linarith+
    have lo: "a \<le> c * ?n"
      unfolding c_def nodes_needed_def by (rule le_round_up_blocks(1) [OF b(1)])
    have hi: "c * ?n < a + ?n"
      unfolding c_def nodes_needed_def by (rule le_round_up_blocks(2) [OF b(1)])
    have c: "0 < c" using a(1) lo by (cases c) auto
    have full: "m_pos b div ?n = length (m_nodes b)" if "m_cap b - m_pos b = 0"
    proof -
      have "m_pos b = m_cap b" using that b(5,6) by linarith
      then show ?thesis using b(1,4) by simp
    qed
    have at: "m_cur b = m_pos b div ?n" if "m_cap b - m_pos b \<noteq> 0"
      using b(7) that by auto
    have "addCapacity k b =
        Inr (b\<lparr>m_nodes := m_nodes b @ replicate c (replicate ?n (junk b)),
               m_cap := m_cap b + c * ?n, m_cur := m_pos b div ?n\<rparr>)"
      using False cap cur b(1) full at
      by (cases "m_cap b - m_pos b = 0") (simp_all add: addCapacity_def Let_def c_def a_def)
    moreover have "m_pos b div ?n < length (m_nodes b) + c"
      using full at cur c by (cases "m_cap b - m_pos b = 0") auto
    ultimately show ?thesis
      using a lo hi False by (intro exI [of _ c] exI [of _ "m_pos b div ?n"]) auto
  qed
qed

text \<open>
  A write at any position overwrites the bytes from there on. The size grows by the length of
  the data wherever the position is.
\<close>

lemma write_bytes_spec:
  assumes inv: "ba_inv b" and cur: "m_cur b < length (m_nodes b)"
  shows "\<exists>b' g. write_bytes buf b = Inr b' \<and>
     m_baseSize b' = m_baseSize b \<and> m_endian b' = m_endian b \<and>
     m_pos b' = m_pos b + length buf \<and> m_size b' = m_size b + length buf \<and>
     m_pos b' \<le> m_cap b' \<and> m_cap b' = m_baseSize b * length (m_nodes b') \<and>
     (m_cap b' = m_cap b \<or> m_cap b' < m_pos b' + m_baseSize b) \<and>
     blocks (m_baseSize b) (m_nodes b') \<and>
     concat (m_nodes b') = overwrite (m_pos b) buf (concat (m_nodes b) @ g) \<and>
     m_cur b' < length (m_nodes b') \<and>
     (m_cur b' = m_pos b' div m_baseSize b \<or>
      buf \<noteq> [] \<and> m_pos b' mod m_baseSize b = 0 \<and> Suc (m_cur b') = m_pos b' div m_baseSize b \<or>
      buf = [] \<and> m_pos b = m_cap b \<and> m_pos b' = m_cap b' \<and> Suc (m_cur b') = length (m_nodes b'))"
proof -
  note b = ba_invD [OF inv]
  let ?n = "m_baseSize b"
  obtain c cur' where grow: "addCapacity (length buf) b =
      Inr (b\<lparr>m_nodes := m_nodes b @ replicate c (replicate ?n (junk b)),
             m_cap := m_cap b + c * ?n, m_cur := cur'\<rparr>)"
    and room: "m_pos b + length buf \<le> m_cap b + c * ?n"
    and tight: "c = 0 \<or> m_cap b + c * ?n < m_pos b + length buf + ?n"
    and cur': "cur' < length (m_nodes b) + c"
    and at: "if length buf = 0 then c = 0 \<and> cur' = m_cur b else cur' = m_pos b div ?n"
    using addCapacity_spec [OF inv cur, of "length buf"] by blast
  let ?b = "b\<lparr>m_nodes := m_nodes b @ replicate c (replicate ?n (junk b)),
             m_cap := m_cap b + c * ?n, m_cur := cur'\<rparr>"
  show ?thesis
  proof (cases "buf = []")
    case True
    then have "write_bytes buf b = Inr b" using grow at b(1) by (simp add: write_bytes_def)
    then show ?thesis
      using True b cur by (intro exI [of _ b] exI [of _ "[]"]) auto
  next
    case False
    then have div: "cur' * ?n + m_pos b mod ?n = m_pos b" using at by simp
    have "\<exists>ns. write_loop (m_pos b mod ?n) buf ?b =
           Inr (?b\<lparr>m_nodes := ns, m_pos := m_pos ?b + length buf, m_size := m_size ?b + length buf,
                  m_cur := (if buf = [] then m_cur ?b
                            else (m_cur ?b * ?n + m_pos b mod ?n + length buf - 1) div ?n)\<rparr>) \<and>
         concat ns = overwrite (m_cur ?b * ?n + m_pos b mod ?n) buf (concat (m_nodes ?b)) \<and>
         blocks ?n ns \<and> length ns = length (m_nodes ?b)"
      using b room cur' div by (intro write_loop_spec) (auto simp: algebra_simps)
    then obtain ns where ns: "write_bytes buf b =
           Inr (?b\<lparr>m_nodes := ns, m_pos := m_pos b + length buf, m_size := m_size b + length buf,
                  m_cur := (m_pos b + length buf - 1) div ?n\<rparr>)"
        "concat ns = overwrite (m_pos b) buf (concat (m_nodes ?b))"
        "blocks ?n ns" "length ns = length (m_nodes b) + c"
      using grow b(1) False div by (auto simp: write_bytes_def)
    let ?p = "m_pos b + length buf"
    have p: "0 < ?p" using False by simp
    have "?n * length ns = m_cap b + c * ?n" using ns(4) b(4) by (simp add: algebra_simps)
    then have "?p - 1 < length ns * ?n" using room p by (simp only: mult.commute [of ?n])
    then have "(?p - 1) div ?n < length ns" by (rule less_mult_imp_div_less)
    moreover have "(?p - 1) div ?n = ?p div ?n \<or> ?p mod ?n = 0 \<and> Suc ((?p - 1) div ?n) = ?p div ?n"
    proof -
      obtain q where "?p = Suc q" using p by (cases ?p) auto
      then show ?thesis by (cases "Suc q mod ?n = 0") (auto simp: div_Suc)
    qed
    ultimately show ?thesis
      using ns room tight b(1,4) False
      by (intro exI [of _ "?b\<lparr>m_nodes := ns, m_pos := ?p, m_size := m_size b + length buf,
            m_cur := (?p - 1) div ?n\<rparr>"]
          exI [of _ "concat (replicate c (replicate ?n (junk b)))"])
        (auto simp: algebra_simps)
  qed
qed

text \<open>In append mode a write appends to the contents and the buffer stays in append mode.\<close>

theorem write_bytes_append:
  assumes "ba_append_mode b"
  shows "\<exists>b'. write_bytes buf b = Inr b' \<and> ba_append_mode b' \<and>
           ba_data b' = ba_data b @ buf \<and>
           m_baseSize b' = m_baseSize b \<and> m_endian b' = m_endian b"
proof -
  have inv: "ba_inv b" and pos: "m_pos b = m_size b" and cur: "m_cur b < length (m_nodes b)"
    and cap: "m_cap b \<le> m_pos b + m_baseSize b"
    using assms by (auto simp: ba_append_mode_def)
  let ?n = "m_baseSize b"
  obtain b' g where w: "write_bytes buf b = Inr b'"
    and same: "m_baseSize b' = ?n" "m_endian b' = m_endian b"
    and pos': "m_pos b' = m_pos b + length buf" "m_size b' = m_size b + length buf"
    and cap': "m_pos b' \<le> m_cap b'" "m_cap b' = ?n * length (m_nodes b')"
    and tight: "m_cap b' = m_cap b \<or> m_cap b' < m_pos b' + ?n"
    and blk: "blocks ?n (m_nodes b')"
    and cont: "concat (m_nodes b') = overwrite (m_pos b) buf (concat (m_nodes b) @ g)"
    and cur': "m_cur b' < length (m_nodes b')"
    and at: "m_cur b' = m_pos b' div ?n \<or>
      buf \<noteq> [] \<and> m_pos b' mod ?n = 0 \<and> Suc (m_cur b') = m_pos b' div ?n \<or>
      buf = [] \<and> m_pos b = m_cap b \<and> m_pos b' = m_cap b' \<and> Suc (m_cur b') = length (m_nodes b')"
    using write_bytes_spec [OF inv cur, of buf] by metis
  note b = ba_invD [OF inv]
  have "m_size b \<le> length (concat (m_nodes b))"
    using b(6) ba_inv_length_concat [OF inv] by simp
  then have "ba_data b' = ba_data b @ buf"
    using take_overwrite [of "m_pos b" "concat (m_nodes b) @ g" buf] pos pos'
    by (simp add: ba_data_def cont)
  moreover have full: "m_pos b' = m_cap b' \<and> Suc (m_cur b') = length (m_nodes b')"
    if h: "buf \<noteq> []" "m_pos b' mod ?n = 0" "Suc (m_cur b') = m_pos b' div ?n"
  proof -
    obtain q where q: "m_pos b' = ?n * q" using h(2) by (metis mod_0_imp_dvd dvdE)
    have "m_cap b' < m_pos b' + ?n" using tight cap pos' h(1) by (cases buf) auto
    then have "?n * length (m_nodes b') < ?n * Suc q" using cap' q by simp
    then have "length (m_nodes b') < Suc q" using mult_less_cancel1 by blast
    then have "length (m_nodes b') \<le> q" by simp
    moreover have "q \<le> length (m_nodes b')" using cap' q b(1) by simp
    ultimately show ?thesis using q cap' h(3) b(1) by simp
  qed
  moreover have "ba_append_mode b'"
    unfolding ba_append_mode_def ba_inv_def
    using same pos' cap' tight blk cur' at full pos cap b(1) by auto
  ultimately show ?thesis using w same by blast
qed

section \<open>Reading and positioning\<close>

lemma read_loop_spec:
  assumes "blocks n (m_nodes b)" and "0 < n" and "nPos < n"
    and "m_cur b * n + nPos + k \<le> n * length (m_nodes b)"
  shows "read_loop nPos k b =
    Inr (take k (drop (m_cur b * n + nPos) (concat (m_nodes b))),
         b\<lparr>m_pos := m_pos b + k, m_cur := (m_cur b * n + nPos + k) div n\<rparr>)"
  using assms
proof (induction "length (m_nodes b) - m_cur b" arbitrary: nPos k b rule: less_induct)
  case less
  let ?node = "m_nodes b ! m_cur b"
  let ?off = "m_cur b * n + nPos"
  show ?case
  proof (cases "k = 0")
    case True
    then show ?thesis using less.prems by simp
  next
    case False
    then have "m_cur b * n < length (m_nodes b) * n"
      using less.prems(4) by (simp only: mult.commute [of n])
    then have notnull: "m_cur b < length (m_nodes b)" by simp
    then have len: "length ?node = n" using less.prems by simp
    show ?thesis
    proof (cases "n - nPos > k")
      case True
      have "(?off + k) div n = m_cur b"
        using True less.prems(2) by (simp add: add.assoc)
      moreover have "take k (drop nPos ?node) = take k (drop ?off (concat (m_nodes b)))"
        using less.prems(1) notnull True by (intro take_drop_concat_blocks) auto
      ultimately show ?thesis
        using True False notnull less.prems len by (simp add: read_loop.simps [of nPos k b])
    next
      case False2: False
      define c where "c = n - nPos"
      have c: "c \<le> k" "0 < c" "nPos + c = n" "size_sub (length ?node) nPos = c"
        using False2 less.prems len by (simp_all add: c_def)
      let ?b = "b\<lparr>m_pos := m_pos b + c, m_cur := Suc (m_cur b)\<rparr>"
      have step: "Suc (m_cur b) * n = ?off + c" using c by simp
      have "length (m_nodes ?b) - m_cur ?b < length (m_nodes b) - m_cur b"
        using notnull by simp
      note hyp = less.hyps [OF this, of 0 "k - c"]
      have stop: "Suc (m_cur b) * n + (k - c) = ?off + k" using step c(1) by linarith
      with less.prems(4) have room: "Suc (m_cur b) * n + (k - c) \<le> n * length (m_nodes b)"
        by linarith
      have "read_loop 0 (k - c) ?b =
          Inr (take (k - c) (drop (Suc (m_cur b) * n) (concat (m_nodes b))),
               ?b\<lparr>m_pos := m_pos b + c + (k - c), m_cur := (Suc (m_cur b) * n + (k - c)) div n\<rparr>)"
        using hyp less.prems(1,2) room by (simp del: mult_Suc)
      note IH = this [unfolded stop, unfolded step]
      have "take c (drop nPos ?node) = take c (drop ?off (concat (m_nodes b)))"
        using less.prems(1) notnull c by (intro take_drop_concat_blocks) auto
      moreover have "take k (drop ?off (concat (m_nodes b))) =
          take c (drop ?off (concat (m_nodes b))) @
          take (k - c) (drop (?off + c) (concat (m_nodes b)))"
        using take_add [of c "k - c" "drop ?off (concat (m_nodes b))"] c(1)
        by (simp add: add.commute)
      ultimately show ?thesis
        using False notnull c(1,4) IH
        by (simp add: read_loop.simps [of nPos k b] Let_def)
    qed
  qed
qed

text \<open>The state after \<open>k\<close> bytes have been read.\<close>

definition ba_advance :: "nat \<Rightarrow> bytearray \<Rightarrow> bytearray" where
  "ba_advance k b =
     b\<lparr>m_pos := m_pos b + k,
       m_cur := (if k = 0 then m_cur b else (m_pos b + k) div m_baseSize b)\<rparr>"

lemma ba_advance_fields [simp]:
  "m_baseSize (ba_advance k b) = m_baseSize b" "m_endian (ba_advance k b) = m_endian b"
  "m_size (ba_advance k b) = m_size b" "m_pos (ba_advance k b) = m_pos b + k"
  "ba_data (ba_advance k b) = ba_data b"
  by (simp_all add: ba_advance_def ba_data_def)

lemma ba_unread_advance [simp]: "ba_unread (ba_advance k b) = drop k (ba_unread b)"
  by (simp add: ba_unread_def add.commute)

lemma ba_advance_inv [inv_intros]:
  assumes "ba_inv b" and "k \<le> length (ba_unread b)"
  shows "ba_inv (ba_advance k b)"
  using assms length_ba_unread [OF assms(1)] ba_invD(5) [OF assms(1)]
  unfolding ba_inv_def ba_advance_def by (auto simp: getReadSize_def)

text \<open>
  A read returns exactly the next bytes and moves behind them, or raises \<open>out_of_range\<close> when
  there are not enough of them.
\<close>

theorem read_bytes_spec:
  assumes inv: "ba_inv b"
  shows "read_bytes k b =
    (if k \<le> length (ba_unread b) then Inr (take k (ba_unread b), ba_advance k b)
     else Inl OutOfRange)"
proof -
  note b = ba_invD [OF inv]
  let ?n = "m_baseSize b"
  show ?thesis
  proof (cases "k = 0 \<or> length (ba_unread b) < k")
    case True
    then show ?thesis
      using b(1) by (auto simp: read_bytes_def length_ba_unread [OF inv] ba_advance_def)
  next
    case False
    then have k: "k \<le> m_size b - m_pos b" "0 < k"
      using b(5) by (auto simp: length_ba_unread [OF inv] getReadSize_def)
    then have "m_pos b < m_cap b" using b(5,6) by linarith
    then have cur: "m_cur b * ?n + m_pos b mod ?n = m_pos b" using b(7) by simp
    have "take k (drop (m_pos b) (concat (m_nodes b))) = take k (ba_unread b)"
      using k by (simp add: ba_unread_def ba_data_def drop_take)
    then have "read_loop (m_pos b mod ?n) k b = Inr (take k (ba_unread b), ba_advance k b)"
      using read_loop_spec [OF b(3,1), of "m_pos b mod ?n" k] b k cur
      by (simp add: ba_advance_def)
    then show ?thesis
      using k b(1,5) by (simp add: read_bytes_def length_ba_unread [OF inv] getReadSize_def)
  qed
qed

text \<open>Positioning inside the written bytes, and its effect on what is left to read.\<close>

lemma setPos_spec:
  assumes inv: "ba_inv b" and v: "v \<le> m_cap b"
  shows "setPos v b = Inr (b\<lparr>m_size := max v (m_size b), m_pos := v, m_cur := v div m_baseSize b\<rparr>)"
proof -
  note b = ba_invD [OF inv]
  have "v div m_baseSize b \<le> length (m_nodes b)"
    using v b(1,4) by (metis div_le_mono nonzero_mult_div_cancel_left not_gr_zero)
  then have "node_walk (m_nodes b) 0 (v div m_baseSize b) = Inr (v div m_baseSize b)"
    using node_walk_eq [of 0 "v div m_baseSize b" "m_nodes b"] by simp
  then show ?thesis
    using v b(1) by (simp add: setPos_def Let_def max_def)
qed

lemma setPos_within:
  assumes inv: "ba_inv b" and v: "v \<le> m_size b"
  shows "\<exists>b'. setPos v b = Inr b' \<and> ba_inv b' \<and> ba_data b' = ba_data b \<and>
           ba_unread b' = drop v (ba_data b) \<and> m_pos b' = v \<and>
           m_baseSize b' = m_baseSize b \<and> m_endian b' = m_endian b"
proof -
  note b = ba_invD [OF inv]
  let ?b = "b\<lparr>m_pos := v, m_cur := v div m_baseSize b\<rparr>"
  have "setPos v b = Inr ?b"
    using setPos_spec [OF inv, of v] v b(6) by (simp add: max_absorb2)
  moreover have "ba_inv ?b" using b v unfolding ba_inv_def by simp
  ultimately show ?thesis by (simp add: ba_unread_def ba_data_def)
qed

lemma setPos_out_of_range: "m_cap b < v \<Longrightarrow> setPos v b = Inl OutOfRange"
  by (simp add: setPos_def)

lemma setSize_inv [inv_intros]: "ba_inv b \<Longrightarrow> ba_inv (setSize k b)"
  unfolding ba_inv_def setSize_def by simp argo

lemma clear_append_mode [inv_intros]: "ba_inv b \<Longrightarrow> ba_append_mode (clear b)"
  by (cases "m_nodes b") (auto simp: ba_append_mode_def ba_inv_def clear_def)

lemma clear_data [simp]: "ba_data (clear b) = []"
  by (simp add: ba_data_def clear_def)

section \<open>Reading in place\<close>

text \<open>The \<^verbatim>\<open>const\<close> read walks the nodes as the other one does.\<close>

lemma read_at_loop_eq:
  "read_at_loop (m_nodes b) (m_cur b) nPos k = rbind (read_loop nPos k b) (\<lambda>(bs, _). Inr bs)"
proof (induction "length (m_nodes b) - m_cur b" arbitrary: nPos k b rule: less_induct)
  case less
  show ?case
  proof (cases "k = 0 \<or> length (m_nodes b) \<le> m_cur b")
    case True
    then show ?thesis
      by (auto simp: read_at_loop.simps [of _ _ nPos k] read_loop.simps [of nPos k])
  next
    case False
    let ?c = "size_sub (length (m_nodes b ! m_cur b)) nPos"
    let ?b = "b\<lparr>m_pos := m_pos b + ?c, m_cur := Suc (m_cur b)\<rparr>"
    have "length (m_nodes ?b) - m_cur ?b < length (m_nodes b) - m_cur b" using False by auto
    from less.hyps [OF this, of 0 "k - ?c"]
    have "read_at_loop (m_nodes b) (Suc (m_cur b)) 0 (k - ?c) =
        rbind (read_loop 0 (k - ?c) ?b) (\<lambda>(bs, _). Inr bs)"
      by simp
    with False show ?thesis
      by (simp add: read_at_loop.simps [of _ _ nPos k] read_loop.simps [of nPos k] rbind_assoc
          Let_def case_prod_beta)
  qed
qed

lemma read_at_spec:
  assumes inv: "ba_inv b" and pos: "pos \<le> m_size b"
  shows "read_at k pos b =
    (if k \<le> m_size b - pos then Inr (take k (drop pos (ba_data b))) else Inl OutOfRange)"
proof (cases "k \<le> m_size b - pos")
  case False
  then show ?thesis using pos by (simp add: read_at_def)
next
  case True
  note b = ba_invD [OF inv]
  let ?n = "m_baseSize b"
  let ?b = "b\<lparr>m_cur := pos div ?n\<rparr>"
  have "pos \<le> ?n * length (m_nodes b)" using pos b(4,6) by simp
  then have "pos div ?n \<le> length (m_nodes b)"
    using b(1) by (metis div_le_mono nonzero_mult_div_cancel_left not_gr_zero)
  then have walk: "node_walk (m_nodes b) 0 (pos div ?n) = Inr (pos div ?n)"
    using node_walk_eq [of 0 "pos div ?n" "m_nodes b"] by simp
  have k: "k + pos \<le> m_size b" using True pos by simp
  then have room: "pos div ?n * ?n + pos mod ?n + k \<le> ?n * length (m_nodes b)"
    using b(4,6) by (simp add: add.commute)
  have "read_loop (pos mod ?n) k ?b =
      Inr (take k (drop pos (concat (m_nodes b))), ?b\<lparr>m_pos := m_pos b + k, m_cur := (pos + k) div ?n\<rparr>)"
    using read_loop_spec [of ?n ?b "pos mod ?n" k] b(1,3) room by simp
  then have "read_at_loop (m_nodes b) (pos div ?n) (pos mod ?n) k = Inr (take k (drop pos (concat (m_nodes b))))"
    using read_at_loop_eq [of ?b "pos mod ?n" k] by simp
  moreover have "take k (drop pos (concat (m_nodes b))) = take k (drop pos (ba_data b))"
    using k by (simp add: ba_data_def drop_take)
  ultimately show ?thesis using True pos b(1) walk by (simp add: read_at_def)
qed

lemma toString_spec: "ba_inv b \<Longrightarrow> toString b = Inr (ba_unread b)"
  using read_at_spec [of b "m_pos b" "getReadSize b"] ba_invD(5) [of b] length_ba_unread [of b]
    length_ba_data [of b]
  by (auto simp: toString_def Let_def ba_unread_def getReadSize_def)

end
