(* ===== verification/ByteArrayCodec.thy ===== *)
theory ByteArrayCodec imports ByteArray begin

text \<open>
  The typed reads and writes of \<^verbatim>\<open>ByteArray\<close> (\<^verbatim>\<open>seaice/bytearray.cpp\<close>, \<^verbatim>\<open>writeFint8\<close> to
  \<^verbatim>\<open>readStringVint\<close>): fixed-size integers in the buffer's byte order, base-128 varints, zigzag
  coding and length-prefixed strings. Signed and unsigned integers of one width are the same
  words; a \<^verbatim>\<open>std::string\<close> is its list of bytes. The locale \<open>ba_codec\<close> states the contract a
  write and the matching read share; every pair that keeps it is an interpretation.
\<close>

section \<open>Fixed-size integers\<close>

definition ordered :: "bytearray \<Rightarrow> 'a::len word \<Rightarrow> 'a word" where
  "ordered b value = (if m_endian b \<noteq> SEAICE_BYTE_ORDER then byteswap value else value)"

definition writeFint8 :: "byte \<Rightarrow> bytearray \<Rightarrow> fault + bytearray" where
  "writeFint8 value b = write_bytes (le_bytes value) b"

definition writeFuint8 :: "byte \<Rightarrow> bytearray \<Rightarrow> fault + bytearray" where
  "writeFuint8 value b = write_bytes (le_bytes value) b"

definition writeFint16 :: "u16 \<Rightarrow> bytearray \<Rightarrow> fault + bytearray" where
  "writeFint16 value b = write_bytes (le_bytes (ordered b value)) b"

definition writeFuint16 :: "u16 \<Rightarrow> bytearray \<Rightarrow> fault + bytearray" where
  "writeFuint16 value b = write_bytes (le_bytes (ordered b value)) b"

definition writeFint32 :: "u32 \<Rightarrow> bytearray \<Rightarrow> fault + bytearray" where
  "writeFint32 value b = write_bytes (le_bytes (ordered b value)) b"

definition writeFuint32 :: "u32 \<Rightarrow> bytearray \<Rightarrow> fault + bytearray" where
  "writeFuint32 value b = write_bytes (le_bytes (ordered b value)) b"

definition writeFint64 :: "u64 \<Rightarrow> bytearray \<Rightarrow> fault + bytearray" where
  "writeFint64 value b = write_bytes (le_bytes (ordered b value)) b"

definition writeFuint64 :: "u64 \<Rightarrow> bytearray \<Rightarrow> fault + bytearray" where
  "writeFuint64 value b = write_bytes (le_bytes (ordered b value)) b"

definition readFint8 :: "bytearray \<Rightarrow> fault + (byte \<times> bytearray)" where
  "readFint8 b = rbind (read_bytes 1 b) (\<lambda>(bs, b'). Inr (le_word bs, b'))"

definition readFuint8 :: "bytearray \<Rightarrow> fault + (byte \<times> bytearray)" where
  "readFuint8 b = rbind (read_bytes 1 b) (\<lambda>(bs, b'). Inr (le_word bs, b'))"

text \<open>The macro \<^verbatim>\<open>XX(type)\<close> that the wider reads expand.\<close>

definition read_XX :: "bytearray \<Rightarrow> fault + ('a::len word \<times> bytearray)" where
  "read_XX b =
     rbind (read_bytes (LENGTH('a) div 8) b) (\<lambda>(bs, b').
       let value = le_word bs in
       if m_endian b' = SEAICE_BYTE_ORDER then Inr (value, b') else Inr (byteswap value, b'))"

definition readFint16 :: "bytearray \<Rightarrow> fault + (u16 \<times> bytearray)" where
  "readFint16 b = read_XX b"

definition readFuint16 :: "bytearray \<Rightarrow> fault + (u16 \<times> bytearray)" where
  "readFuint16 b = read_XX b"

definition readFint32 :: "bytearray \<Rightarrow> fault + (u32 \<times> bytearray)" where
  "readFint32 b = read_XX b"

definition readFuint32 :: "bytearray \<Rightarrow> fault + (u32 \<times> bytearray)" where
  "readFuint32 b = read_XX b"

definition readFint64 :: "bytearray \<Rightarrow> fault + (u64 \<times> bytearray)" where
  "readFint64 b = read_XX b"

definition readFuint64 :: "bytearray \<Rightarrow> fault + (u64 \<times> bytearray)" where
  "readFuint64 b = read_XX b"

section \<open>Zigzag and varints\<close>

definition EncodeZigzag32 :: "u32 \<Rightarrow> u32" where
  "EncodeZigzag32 value = (if sint value < 0 then (- value) * 2 - 1 else value * 2)"

definition EncodeZigzag64 :: "u64 \<Rightarrow> u64" where
  "EncodeZigzag64 value = (if sint value < 0 then (- value) * 2 - 1 else value * 2)"

definition DecodeZigzag32 :: "u32 \<Rightarrow> u32" where
  "DecodeZigzag32 value = drop_bit 1 value XOR - (value AND 1)"

definition DecodeZigzag64 :: "u64 \<Rightarrow> u64" where
  "DecodeZigzag64 value = drop_bit 1 value XOR - (value AND 1)"

text \<open>The loop of \<^verbatim>\<open>writeUint32\<close> and \<^verbatim>\<open>writeUint64\<close>: the bytes collected in \<^verbatim>\<open>tmp\<close>.\<close>

function varint_bytes :: "u32 \<Rightarrow> byte list" where
  "varint_bytes value =
     (if value \<ge> 0x80 then ucast ((value AND 0x7F) OR 0x80) # varint_bytes (drop_bit 7 value)
      else [ucast value])"
  by pat_completeness auto
termination
proof (relation "measure unat")
  fix v :: u32
  assume "0x80 \<le> v"
  then have "128 \<le> unat v" by (simp add: word_le_nat_alt)
  then show "(drop_bit 7 v, v) \<in> measure unat"
    by (simp add: drop_bit_eq_div unat_div)
qed simp

declare varint_bytes.simps [simp del]

definition writeUint32 :: "u32 \<Rightarrow> bytearray \<Rightarrow> fault + bytearray" where
  "writeUint32 value b = write_bytes (varint_bytes value) b"

definition writeInt32 :: "u32 \<Rightarrow> bytearray \<Rightarrow> fault + bytearray" where
  "writeInt32 value b = writeUint32 (EncodeZigzag32 value) b"

text \<open>The parameters of \<^verbatim>\<open>writeUint64\<close> and \<^verbatim>\<open>writeInt64\<close> are 32 bits wide.\<close>

definition writeUint64 :: "u32 \<Rightarrow> bytearray \<Rightarrow> fault + bytearray" where
  "writeUint64 value b = write_bytes (varint_bytes value) b"

definition writeInt64 :: "u32 \<Rightarrow> bytearray \<Rightarrow> fault + bytearray" where
  "writeInt64 value b = writeUint64 (ucast (EncodeZigzag64 (scast value))) b"

function read_varint :: "nat \<Rightarrow> 'a::len word \<Rightarrow> bytearray \<Rightarrow> fault + ('a word \<times> bytearray)" where
  "read_varint i value b =
     (if i < LENGTH('a) then
        rbind (readFuint8 b) (\<lambda>(tmp, b').
          let value' = value OR push_bit i (ucast (tmp AND 0x7F)) in
          if tmp < 0x80 then Inr (value', b') else read_varint (i + 7) value' b')
      else Inr (value, b))"
  by pat_completeness auto
termination
  by (relation "measure (\<lambda>(i, value :: 'a word, b). LENGTH('a) - i)") auto

declare read_varint.simps [simp del]

definition readUint32 :: "bytearray \<Rightarrow> fault + (u32 \<times> bytearray)" where
  "readUint32 b = read_varint 0 0 b"

definition readUint64 :: "bytearray \<Rightarrow> fault + (u64 \<times> bytearray)" where
  "readUint64 b = read_varint 0 0 b"

definition readInt32 :: "bytearray \<Rightarrow> fault + (u32 \<times> bytearray)" where
  "readInt32 b = rbind (readUint32 b) (\<lambda>(v, b'). Inr (DecodeZigzag32 v, b'))"

definition readInt64 :: "bytearray \<Rightarrow> fault + (u64 \<times> bytearray)" where
  "readInt64 b = rbind (readUint64 b) (\<lambda>(v, b'). Inr (DecodeZigzag64 v, b'))"

section \<open>Floating point values\<close>

text \<open>A \<^verbatim>\<open>float\<close> or \<^verbatim>\<open>double\<close> is its bit pattern, which is all that \<^verbatim>\<open>memcpy\<close> moves.\<close>

definition writeFloat :: "u32 \<Rightarrow> bytearray \<Rightarrow> fault + bytearray" where
  "writeFloat bits b = writeFint32 bits b"

definition writeDouble :: "u64 \<Rightarrow> bytearray \<Rightarrow> fault + bytearray" where
  "writeDouble bits b = writeFuint64 bits b"

definition readFloat :: "bytearray \<Rightarrow> fault + (u32 \<times> bytearray)" where
  "readFloat b = readUint32 b"

definition readDouble :: "bytearray \<Rightarrow> fault + (u64 \<times> bytearray)" where
  "readDouble b = readUint64 b"

section \<open>Strings\<close>

definition writeStringF16 :: "byte list \<Rightarrow> bytearray \<Rightarrow> fault + bytearray" where
  "writeStringF16 value b = rbind (writeFuint16 (of_nat (length value)) b) (write_bytes value)"

definition writeStringF32 :: "byte list \<Rightarrow> bytearray \<Rightarrow> fault + bytearray" where
  "writeStringF32 value b = rbind (writeFuint32 (of_nat (length value)) b) (write_bytes value)"

definition writeStringF64 :: "byte list \<Rightarrow> bytearray \<Rightarrow> fault + bytearray" where
  "writeStringF64 value b = rbind (writeFuint64 (of_nat (length value)) b) (write_bytes value)"

definition writeStringVint :: "byte list \<Rightarrow> bytearray \<Rightarrow> fault + bytearray" where
  "writeStringVint value b = rbind (writeUint64 (of_nat (length value)) b) (write_bytes value)"

definition writeStringWithoutLength :: "byte list \<Rightarrow> bytearray \<Rightarrow> fault + bytearray" where
  "writeStringWithoutLength value b = write_bytes value b"

definition readStringF16 :: "bytearray \<Rightarrow> fault + (byte list \<times> bytearray)" where
  "readStringF16 b = rbind (readFuint16 b) (\<lambda>(n, b'). read_bytes (unat n) b')"

definition readStringF32 :: "bytearray \<Rightarrow> fault + (byte list \<times> bytearray)" where
  "readStringF32 b = rbind (readFuint32 b) (\<lambda>(n, b'). read_bytes (unat n) b')"

definition readStringF64 :: "bytearray \<Rightarrow> fault + (byte list \<times> bytearray)" where
  "readStringF64 b = rbind (readFuint64 b) (\<lambda>(n, b'). read_bytes (unat n) b')"

definition readStringVint :: "bytearray \<Rightarrow> fault + (byte list \<times> bytearray)" where
  "readStringVint b = rbind (readUint64 b) (\<lambda>(n, b'). read_bytes (unat n) b')"

section \<open>Zigzag is a bijection\<close>

lemma bit_drop_push_1:
  "bit (drop_bit 1 (push_bit 1 (x :: 'a::len word))) n \<longleftrightarrow> Suc n < LENGTH('a) \<and> bit x n"
  unfolding bit_drop_bit_eq comp_def bit_push_bit_iff by (auto simp: bit_imp_le_length)

lemma drop_bit_push_bit_1:
  assumes "0 \<le> sint (x :: 'a::len word)"
  shows "drop_bit 1 (push_bit 1 x) = x"
proof (rule bit_word_eqI)
  fix n
  assume n: "n < LENGTH('a)"
  show "bit (drop_bit 1 (push_bit 1 x)) n \<longleftrightarrow> bit x n"
  proof (cases "Suc n = LENGTH('a)")
    case True
    then have "\<not> bit x n" using assms bit_last_iff [of x] by (metis diff_Suc_1 not_less One_nat_def)
    then show ?thesis unfolding bit_drop_push_1 by simp
  next
    case False
    with n show ?thesis unfolding bit_drop_push_1 by simp
  qed
qed

lemma push_bit_1_and_1: "push_bit 1 x AND 1 = (0 :: 'a::len word)"
proof (rule bit_word_eqI)
  fix n
  show "bit (push_bit 1 x AND 1) n \<longleftrightarrow> bit (0 :: 'a word) n"
    unfolding bit_and_iff bit_push_bit_iff bit_1_iff by auto
qed

text \<open>The two halves of the code, for a word of any width.\<close>

lemma zigzag_nonneg:
  assumes "0 \<le> sint (v :: 'a::len word)"
  shows "drop_bit 1 (v * 2) XOR - (v * 2 AND 1) = v"
proof -
  have "v * 2 = push_bit 1 v" by (simp add: push_bit_eq_mult)
  then show ?thesis
    using drop_bit_push_bit_1 [OF assms] push_bit_1_and_1 [of v] by simp
qed

lemma zigzag_neg:
  assumes "sint (v :: 'a::len word) < 0" and "1 < LENGTH('a)"
  shows "drop_bit 1 ((- v) * 2 - 1) XOR - (((- v) * 2 - 1) AND 1) = v"
proof -
  let ?u = "NOT v"
  have u: "0 \<le> sint ?u"
    using assms(1) bit_last_iff [of v] bit_last_iff [of ?u] by (simp add: bit_not_iff)
  have disj: "push_bit 1 ?u AND 1 = 0" by (rule push_bit_1_and_1)
  have "(- v) * 2 - 1 = push_bit 1 ?u + 1"
    by (simp add: push_bit_eq_mult word_not_minus algebra_simps)
  also have "\<dots> = push_bit 1 ?u OR 1"
    using disj by (simp add: disjunctive_add_eq_or)
  finally have eq: "(- v) * 2 - 1 = push_bit 1 ?u OR 1" .
  have "drop_bit 1 (push_bit 1 ?u OR 1) = ?u"
    using drop_bit_push_bit_1 [OF u] by (simp add: drop_bit_or)
  moreover have "(push_bit 1 ?u OR 1) AND 1 = 1"
    using disj by (simp add: bit.conj_disj_distrib2)
  ultimately show ?thesis
    unfolding eq by (simp add: xor_minus_one)
qed

lemma DecodeZigzag32_Encode [simp]: "DecodeZigzag32 (EncodeZigzag32 v) = v"
  using zigzag_nonneg [of v] zigzag_neg [of v]
  by (simp add: DecodeZigzag32_def EncodeZigzag32_def)

lemma DecodeZigzag64_Encode [simp]: "DecodeZigzag64 (EncodeZigzag64 v) = v"
  using zigzag_nonneg [of v] zigzag_neg [of v]
  by (simp add: DecodeZigzag64_def EncodeZigzag64_def)

section \<open>Varint bytes\<close>

lemma and_0x7F: "x AND 0x7F = take_bit 7 (x :: 'a::len word)"
  by (simp add: take_bit_eq_mask mask_eq_exp_minus_1)

lemma varint_last_byte:
  assumes "v < (0x80 :: u32)"
  shows "(ucast v :: byte) < 0x80" and "ucast ((ucast v :: byte) AND 0x7F) = (ucast v :: 'a::len word)"
proof -
  have v: "unat v < 128" using assms by (simp add: word_less_nat_alt)
  then have u: "unat (ucast v :: byte) = unat v"
    by (simp add: unsigned_ucast_eq take_bit_nat_eq_self)
  show "(ucast v :: byte) < 0x80" using u v by (simp add: word_less_nat_alt)
  have "unat (take_bit 7 v) = unat v"
    using v by (simp add: unsigned_take_bit_eq take_bit_nat_eq_self)
  then have "take_bit 7 v = v" by (simp only: word_unat_eq_iff)
  then have bits: "bit v n \<longleftrightarrow> n < 7 \<and> bit v n" for n
    using bit_take_bit_iff [of 7 v n] by simp
  show "ucast ((ucast v :: byte) AND 0x7F) = (ucast v :: 'a::len word)"
  proof (rule bit_word_eqI)
    fix n
    show "bit (ucast ((ucast v :: byte) AND 0x7F) :: 'a word) n \<longleftrightarrow> bit (ucast v :: 'a word) n"
      unfolding and_0x7F bit_ucast_iff bit_take_bit_iff using bits [of n] by auto
  qed
qed

lemma bit_0x80: "bit (0x80 :: 'a::len word) n \<longleftrightarrow> n = 7 \<and> 7 < LENGTH('a)"
proof -
  have "(0x80 :: 'a word) = push_bit 7 1" by simp
  then show ?thesis by (simp only: bit_push_bit_iff bit_1_iff) auto
qed

lemma varint_more_byte:
  "\<not> (ucast ((v AND 0x7F) OR 0x80 :: u32) :: byte) < 0x80"
  "ucast ((ucast ((v AND 0x7F) OR 0x80 :: u32) :: byte) AND 0x7F) = (ucast (take_bit 7 v) :: 'a::len word)"
proof -
  let ?b = "ucast ((v AND 0x7F) OR 0x80 :: u32) :: byte"
  have b7: "bit ?b 7" by (simp add: bit_ucast_iff bit_or_iff bit_0x80)
  have "?b AND 0x80 = 0x80"
  proof (rule bit_word_eqI)
    fix n
    show "bit (?b AND 0x80) n \<longleftrightarrow> bit (0x80 :: byte) n"
      unfolding bit_and_iff [of ?b] bit_0x80 using b7 by blast
  qed
  moreover have "?b AND 0x80 \<le> ?b" by (rule word_and_le2)
  ultimately have "0x80 \<le> ?b" by (simp only:)
  then show "\<not> ?b < 0x80" by simp
  show "ucast (?b AND 0x7F) = (ucast (take_bit 7 v) :: 'a::len word)"
  proof (rule bit_word_eqI)
    fix n
    show "bit (ucast (?b AND 0x7F) :: 'a word) n \<longleftrightarrow> bit (ucast (take_bit 7 v) :: 'a word) n"
      unfolding and_0x7F bit_ucast_iff bit_take_bit_iff bit_or_iff bit_0x80 by auto
  qed
qed

lemma varint_bytes_last: "v < 0x80 \<Longrightarrow> varint_bytes v = [ucast v]"
  by (subst varint_bytes.simps) (simp add: not_le [symmetric])

lemma varint_bytes_more:
  "\<not> v < 0x80 \<Longrightarrow>
     varint_bytes v = ucast ((v AND 0x7F) OR 0x80) # varint_bytes (drop_bit 7 v)"
  by (subst varint_bytes.simps) (simp add: not_less)

lemma varint_bytes_nonempty [simp]: "varint_bytes v \<noteq> []"
  by (cases "v < 0x80") (simp_all add: varint_bytes_last varint_bytes_more)

lemma unat_drop_7: "unat (drop_bit 7 v) = unat v div 128"
  unfolding unat_drop_bit_eq by (simp add: drop_bit_eq_div)

text \<open>Five bytes hold any 32-bit value: the array \<^verbatim>\<open>tmp\<close> of \<^verbatim>\<open>writeUint32\<close> never overflows.\<close>

lemma varint_bytes_bound:
  "unat v < 2 ^ (7 * Suc k) \<Longrightarrow> length (varint_bytes v) \<le> Suc k"
proof (induction k arbitrary: v)
  case 0
  then have "v < 0x80" by (simp add: word_less_nat_alt)
  then show ?case by (simp add: varint_bytes_last)
next
  case (Suc k)
  show ?case
  proof (cases "v < 0x80")
    case True
    then show ?thesis by (simp add: varint_bytes_last)
  next
    case False
    have "unat v < 2 ^ (7 * Suc k) * 128" using Suc.prems by (simp add: power_add)
    then have "unat (drop_bit 7 v) < 2 ^ (7 * Suc k)"
      unfolding unat_drop_7 by (simp add: less_mult_imp_div_less)
    then show ?thesis using Suc.IH False by (simp add: varint_bytes_more)
  qed
qed

lemma length_varint_bytes: "length (varint_bytes v) \<le> 5"
  using varint_bytes_bound [of v 4] unsigned_less [of v, where ?'a = nat] by simp

section \<open>Reading back\<close>

lemma ba_advance_0 [simp]: "ba_advance 0 b = b"
  by (simp add: ba_advance_def)

lemma ba_advance_advance [simp]: "ba_advance m (ba_advance n b) = ba_advance (n + m) b"
  by (simp add: ba_advance_def add.assoc)

text \<open>A read of the bytes at the front of the unread part.\<close>

lemma read_bytes_front:
  assumes "ba_inv b" and "ba_unread b = bs @ rest"
  shows "read_bytes (length bs) b = Inr (bs, ba_advance (length bs) b)"
  using assms by (simp add: read_bytes_spec)

lemma readFuint8_front:
  assumes "ba_inv b" and "ba_unread b = x # rest"
  shows "readFuint8 b = Inr (x, ba_advance 1 b)"
  using read_bytes_front [of b "[x]" rest] assms by (simp add: readFuint8_def)

lemma varint_join:
  "push_bit i (ucast (take_bit 7 v)) OR push_bit (i + 7) (ucast (drop_bit 7 v)) =
     (push_bit i (ucast v) :: 'a::len word)"
proof (rule bit_word_eqI)
  fix n
  have "i \<le> n \<and> \<not> n - i < 7 \<longleftrightarrow> i + 7 \<le> n" by auto
  moreover have "i + 7 \<le> n \<Longrightarrow> 7 + (n - (i + 7)) = n - i" by simp
  ultimately show "bit (push_bit i (ucast (take_bit 7 v)) OR push_bit (i + 7) (ucast (drop_bit 7 v)) :: 'a word) n
      \<longleftrightarrow> bit (push_bit i (ucast v) :: 'a word) n"
    unfolding bit_or_iff bit_push_bit_iff bit_ucast_iff bit_take_bit_iff bit_drop_bit_eq comp_def
    by auto
qed

lemma read_varint_spec:
  assumes "ba_inv b" and "ba_unread b = varint_bytes v @ rest"
    and "i < LENGTH('a)" and "unat v * 2 ^ i < 2 ^ LENGTH('a::len)"
  shows "read_varint i acc b =
    Inr (acc OR push_bit i (ucast v) :: 'a word, ba_advance (length (varint_bytes v)) b)"
  using assms
proof (induction "unat v" arbitrary: i acc b v rule: less_induct)
  case less
  show ?case
  proof (cases "v < 0x80")
    case True
    then have "readFuint8 b = Inr (ucast v, ba_advance 1 b)"
      using less.prems by (intro readFuint8_front) (simp_all add: varint_bytes_last)
    then show ?thesis
      using less.prems(3) True varint_last_byte(1) [OF True] varint_last_byte(2) [OF True, where ?'a = 'a]
      by (simp add: read_varint.simps [of i acc b] varint_bytes_last)
  next
    case False
    let ?x = "ucast ((v AND 0x7F) OR 0x80) :: byte" and ?v = "drop_bit 7 v"
    have r: "readFuint8 b = Inr (?x, ba_advance 1 b)"
      using less.prems False by (intro readFuint8_front) (simp_all add: varint_bytes_more)
    have v: "128 \<le> unat v" using False by (simp add: not_less word_le_nat_alt)
    have uv: "unat ?v = unat v div 128" by (rule unat_drop_7)
    have "(2 :: nat) ^ (i + 7) = 128 * 2 ^ i" by (simp add: power_add)
    also have "\<dots> \<le> unat v * 2 ^ i" using v by simp
    also note less.prems(4)
    finally have i: "i + 7 < LENGTH('a)" by simp
    have "unat ?v * 2 ^ (i + 7) = (unat v div 128 * 128) * 2 ^ i"
      by (simp add: uv power_add)
    also have "\<dots> \<le> unat v * 2 ^ i" by (intro mult_le_mono1) (simp add: div_times_less_eq_dividend)
    finally have fits: "unat ?v * 2 ^ (i + 7) < 2 ^ LENGTH('a)" using less.prems(4) by simp
    have inv: "ba_inv (ba_advance 1 b)"
      using less.prems False by (intro ba_advance_inv) (simp_all add: varint_bytes_more)
    have rest: "ba_unread (ba_advance 1 b) = varint_bytes ?v @ rest"
      using less.prems(2) False by (simp add: varint_bytes_more)
    have "unat ?v < unat v" using v uv by simp
    note IH = less.hyps [OF this inv rest i fits]
    show ?thesis
      using less.prems(3) r IH varint_more_byte(1) [of v] varint_more_byte(2) [of v, where ?'a = 'a]
        varint_join [of i v, where ?'a = 'a] False
      by (simp add: read_varint.simps [of i acc b] varint_bytes_more or.assoc)
  qed
qed

section \<open>The contract of a write and its read\<close>

text \<open>\<open>b'\<close> is \<open>b\<close> with the bytes \<open>bs\<close> appended, again ready to be filled.\<close>

definition ba_appended :: "bytearray \<Rightarrow> byte list \<Rightarrow> bytearray \<Rightarrow> bool" where
  "ba_appended b bs b' \<longleftrightarrow> ba_append_mode b' \<and> ba_data b' = ba_data b @ bs \<and>
     m_baseSize b' = m_baseSize b \<and> m_endian b' = m_endian b"

lemma write_bytes_appended:
  "ba_append_mode b \<Longrightarrow> \<exists>b'. write_bytes bs b = Inr b' \<and> ba_appended b bs b'"
  using write_bytes_append [of b bs] by (auto simp: ba_appended_def)

lemma ba_appended_trans:
  "ba_appended a xs b \<Longrightarrow> ba_appended b ys c \<Longrightarrow> ba_appended a (xs @ ys) c"
  by (simp add: ba_appended_def)

lemma ba_appended_refl: "ba_append_mode b \<Longrightarrow> ba_appended b [] b"
  by (simp add: ba_appended_def)

lemma ba_appended_mode: "ba_appended a xs b \<Longrightarrow> ba_append_mode b"
  by (simp add: ba_appended_def)

lemma rbind_appended:
  assumes "\<exists>b'. m = Inr b' \<and> ba_appended b xs b'"
    and "\<And>b'. ba_appended b xs b' \<Longrightarrow> \<exists>c. f b' = Inr c \<and> ba_appended b' ys c"
  shows "\<exists>c. rbind m f = Inr c \<and> ba_appended b (xs @ ys) c"
  using assms ba_appended_trans by fastforce

text \<open>Going back to where the appended bytes begin.\<close>

lemma ba_appended_rewind:
  assumes "ba_append_mode b" and "ba_appended b bs b'"
  shows "\<exists>b''. setPos (m_size b) b' = Inr b'' \<and> ba_inv b'' \<and> ba_unread b'' = bs \<and>
           ba_data b'' = ba_data b @ bs \<and> m_endian b'' = m_endian b"
proof -
  have inv: "ba_inv b" "ba_inv b'"
    using assms by (auto simp: ba_appended_def ba_append_mode_def)
  have "length (ba_data b') = length (ba_data b) + length bs"
    using assms(2) by (simp add: ba_appended_def)
  then have "m_size b \<le> m_size b'" using inv length_ba_data by fastforce
  from setPos_within [OF inv(2) this] show ?thesis
    using assms(2) length_ba_data [OF inv(1)] by (auto simp: ba_appended_def)
qed

primrec put_all :: "('v \<Rightarrow> bytearray \<Rightarrow> fault + bytearray) \<Rightarrow> 'v list \<Rightarrow> bytearray \<Rightarrow> fault + bytearray" where
  "put_all put [] b = Inr b"
| "put_all put (v # vs) b = rbind (put v b) (put_all put vs)"

primrec get_all :: "(bytearray \<Rightarrow> fault + ('v \<times> bytearray)) \<Rightarrow> nat \<Rightarrow> bytearray \<Rightarrow> fault + ('v list \<times> bytearray)" where
  "get_all get 0 b = Inr ([], b)"
| "get_all get (Suc n) b =
     rbind (get b) (\<lambda>(v, b'). rbind (get_all get n b') (\<lambda>(vs, b''). Inr (v # vs, b'')))"

text \<open>
  A write \<open>put\<close> and a read \<open>get\<close> form a codec when, for the values that are \<open>ok\<close>, the write
  appends \<open>enc\<close> of the value in the buffer's byte order and the read consumes it.
\<close>

locale ba_codec =
  fixes put :: "'v \<Rightarrow> bytearray \<Rightarrow> fault + bytearray"
    and get :: "bytearray \<Rightarrow> fault + ('v \<times> bytearray)"
    and enc :: "nat \<Rightarrow> 'v \<Rightarrow> byte list"
    and ok :: "'v \<Rightarrow> bool"
  assumes put_appends: "ba_append_mode b \<Longrightarrow> ok v \<Longrightarrow>
      \<exists>b'. put v b = Inr b' \<and> ba_appended b (enc (m_endian b) v) b'"
    and get_reads: "ba_inv b \<Longrightarrow> ok v \<Longrightarrow> ba_unread b = enc (m_endian b) v @ rest \<Longrightarrow>
      get b = Inr (v, ba_advance (length (enc (m_endian b) v)) b)"
begin

definition enc_all :: "nat \<Rightarrow> 'v list \<Rightarrow> byte list" where
  "enc_all e vs = concat (map (enc e) vs)"

lemma enc_all_simps [simp]: "enc_all e [] = []" "enc_all e (v # vs) = enc e v @ enc_all e vs"
  by (simp_all add: enc_all_def)

lemma put_all_appends:
  assumes "ba_append_mode b" and "\<forall>v \<in> set vs. ok v"
  shows "\<exists>b'. put_all put vs b = Inr b' \<and> ba_appended b (enc_all (m_endian b) vs) b'"
  using assms
proof (induction vs arbitrary: b)
  case Nil
  then show ?case by (simp add: ba_appended_refl)
next
  case (Cons v vs)
  show ?case
    unfolding put_all.simps enc_all_simps
  proof (rule rbind_appended)
    show "\<exists>b'. put v b = Inr b' \<and> ba_appended b (enc (m_endian b) v) b'"
      using Cons.prems by (intro put_appends) auto
    fix b' assume "ba_appended b (enc (m_endian b) v) b'"
    then show "\<exists>c. put_all put vs b' = Inr c \<and> ba_appended b' (enc_all (m_endian b) vs) c"
      using Cons.IH [of b'] Cons.prems(2) by (simp add: ba_appended_def)
  qed
qed

lemma get_all_reads:
  assumes "ba_inv b" and "\<forall>v \<in> set vs. ok v" and "ba_unread b = enc_all (m_endian b) vs @ rest"
  shows "get_all get (length vs) b = Inr (vs, ba_advance (length (enc_all (m_endian b) vs)) b)"
  using assms
proof (induction vs arbitrary: b)
  case Nil
  then show ?case by simp
next
  case (Cons v vs)
  let ?k = "length (enc (m_endian b) v)"
  have "get b = Inr (v, ba_advance ?k b)"
    using Cons.prems get_reads [of b v "enc_all (m_endian b) vs @ rest"] by simp
  moreover have "ba_inv (ba_advance ?k b)"
    using Cons.prems by (intro ba_advance_inv) auto
  ultimately show ?case
    using Cons.IH [of "ba_advance ?k b"] Cons.prems by simp
qed

text \<open>Any sequence of writes, read back from where it began, gives the values again and ends behind them.\<close>

lemma sequence_roundtrip:
  assumes "ba_append_mode b" and "\<forall>v \<in> set vs. ok v"
  shows "\<exists>b1 b2 b3. put_all put vs b = Inr b1 \<and> setPos (m_size b) b1 = Inr b2 \<and>
           get_all get (length vs) b2 = Inr (vs, b3) \<and> ba_unread b3 = [] \<and>
           ba_data b3 = ba_data b @ enc_all (m_endian b) vs"
proof -
  let ?e = "enc_all (m_endian b) vs"
  obtain b1 where b1: "put_all put vs b = Inr b1" "ba_appended b ?e b1"
    using put_all_appends [OF assms] by blast
  obtain b2 where b2: "setPos (m_size b) b1 = Inr b2" "ba_inv b2" "ba_unread b2 = ?e"
      "ba_data b2 = ba_data b @ ?e" "m_endian b2 = m_endian b"
    using ba_appended_rewind [OF assms(1) b1(2)] by blast
  have "get_all get (length vs) b2 = Inr (vs, ba_advance (length ?e) b2)"
    using get_all_reads [OF b2(2) assms(2), of "[]"] b2(3,5) by simp
  then show ?thesis using b1(1) b2 by auto
qed

end

section \<open>The codecs of the code\<close>

text \<open>The bytes of a fixed-size integer: least significant first, or reversed.\<close>

definition fixed_enc :: "nat \<Rightarrow> 'a::len word \<Rightarrow> byte list" where
  "fixed_enc e w = (if e \<noteq> SEAICE_BYTE_ORDER then rev (le_bytes w) else le_bytes w)"

lemma length_fixed_enc [simp]: "length (fixed_enc e (w :: 'a::len word)) = LENGTH('a) div 8"
  by (simp add: fixed_enc_def)

lemma le_bytes_ordered [simp]: "le_bytes (ordered b w) = fixed_enc (m_endian b) w"
  by (simp add: ordered_def fixed_enc_def)

lemma read_XX_front:
  assumes "LENGTH('a) mod 8 = 0" and "ba_inv b"
    and "ba_unread b = fixed_enc (m_endian b) (w :: 'a::len word) @ rest"
  shows "read_XX b = Inr (w, ba_advance (length (fixed_enc (m_endian b) w)) b)"
proof -
  have "byteswap (le_word (rev (le_bytes w))) = w"
    by (rule byteswap_le_word_rev [OF assms(1)])
  then show ?thesis
    using read_bytes_front [OF assms(2,3)] le_word_le_bytes [OF assms(1), of w]
    by (cases "m_endian b = SEAICE_BYTE_ORDER") (simp_all add: read_XX_def fixed_enc_def)
qed

lemma fixed_codec:
  fixes put :: "'a::len word \<Rightarrow> bytearray \<Rightarrow> fault + bytearray"
  assumes "LENGTH('a) mod 8 = 0" and "\<And>v b. put v b = write_bytes (le_bytes (ordered b v)) b"
    and "\<And>b. get b = read_XX b"
  shows "ba_codec put get fixed_enc (\<lambda>_. True)"
proof (unfold_locales)
  show "\<exists>b'. put v b = Inr b' \<and> ba_appended b (fixed_enc (m_endian b) v) b'"
    if "ba_append_mode b" for b v
    using that by (simp add: assms(2) write_bytes_appended)
  show "get b = Inr (v, ba_advance (length (fixed_enc (m_endian b) v)) b)"
    if "ba_inv b" "ba_unread b = fixed_enc (m_endian b) v @ rest" for b v rest
    using that by (simp add: assms(3) read_XX_front [OF assms(1)])
qed

interpretation fint8: ba_codec writeFint8 readFint8 "\<lambda>_ v. [v]" "\<lambda>_. True"
proof (unfold_locales)
  show "\<exists>b'. writeFint8 v b = Inr b' \<and> ba_appended b [v] b'" if "ba_append_mode b" for b v
    using write_bytes_appended [OF that, of "[v]"] by (simp add: writeFint8_def le_bytes_def)
  show "readFint8 b = Inr (v, ba_advance (length [v]) b)"
    if "ba_inv b" "ba_unread b = [v] @ rest" for b v rest
    using readFuint8_front [of b v rest] that by (simp add: readFint8_def readFuint8_def)
qed

interpretation fuint8: ba_codec writeFuint8 readFuint8 "\<lambda>_ v. [v]" "\<lambda>_. True"
proof (unfold_locales)
  show "\<exists>b'. writeFuint8 v b = Inr b' \<and> ba_appended b [v] b'" if "ba_append_mode b" for b v
    using write_bytes_appended [OF that, of "[v]"] by (simp add: writeFuint8_def le_bytes_def)
  show "readFuint8 b = Inr (v, ba_advance (length [v]) b)"
    if "ba_inv b" "ba_unread b = [v] @ rest" for b v rest
    using readFuint8_front [of b v rest] that by simp
qed

interpretation fint16: ba_codec writeFint16 readFint16 fixed_enc "\<lambda>_. True"
  by (rule fixed_codec) (simp_all add: writeFint16_def readFint16_def)

interpretation fuint16: ba_codec writeFuint16 readFuint16 fixed_enc "\<lambda>_. True"
  by (rule fixed_codec) (simp_all add: writeFuint16_def readFuint16_def)

interpretation fint32: ba_codec writeFint32 readFint32 fixed_enc "\<lambda>_. True"
  by (rule fixed_codec) (simp_all add: writeFint32_def readFint32_def)

interpretation fuint32: ba_codec writeFuint32 readFuint32 fixed_enc "\<lambda>_. True"
  by (rule fixed_codec) (simp_all add: writeFuint32_def readFuint32_def)

interpretation fint64: ba_codec writeFint64 readFint64 fixed_enc "\<lambda>_. True"
  by (rule fixed_codec) (simp_all add: writeFint64_def readFint64_def)

interpretation fuint64: ba_codec writeFuint64 readFuint64 fixed_enc "\<lambda>_. True"
  by (rule fixed_codec) (simp_all add: writeFuint64_def readFuint64_def)

interpretation uint32: ba_codec writeUint32 readUint32 "\<lambda>_. varint_bytes" "\<lambda>_. True"
proof (unfold_locales)
  show "\<exists>b'. writeUint32 v b = Inr b' \<and> ba_appended b (varint_bytes v) b'"
    if "ba_append_mode b" for b v
    using that by (simp add: writeUint32_def write_bytes_appended)
  show "readUint32 b = Inr (v, ba_advance (length (varint_bytes v)) b)"
    if "ba_inv b" "ba_unread b = varint_bytes v @ rest" for b v rest
    using read_varint_spec [OF that, where ?'a = 32 and i = 0 and acc = 0] unsigned_less [of v, where ?'a = nat]
    by (simp add: readUint32_def)
qed

interpretation int32: ba_codec writeInt32 readInt32 "\<lambda>_ v. varint_bytes (EncodeZigzag32 v)" "\<lambda>_. True"
proof (unfold_locales)
  show "\<exists>b'. writeInt32 v b = Inr b' \<and> ba_appended b (varint_bytes (EncodeZigzag32 v)) b'"
    if "ba_append_mode b" for b v
    using uint32.put_appends [OF that] by (simp add: writeInt32_def)
  show "readInt32 b = Inr (v, ba_advance (length (varint_bytes (EncodeZigzag32 v))) b)"
    if "ba_inv b" "ba_unread b = varint_bytes (EncodeZigzag32 v) @ rest" for b v rest
    using uint32.get_reads [OF that(1) _ that(2)] by (simp add: readInt32_def)
qed

text \<open>
  The 64-bit varints: the writes take the low 32 bits of their argument, so the values that
  survive are those of 32 bits.
\<close>

lemma readUint64_front:
  assumes "ba_inv b" and "ba_unread b = varint_bytes v @ rest"
  shows "readUint64 b = Inr (ucast v, ba_advance (length (varint_bytes v)) b)"
proof -
  have "unat v < 2 ^ 32" using unsigned_less [of v, where ?'a = nat] by simp
  then show ?thesis
    using read_varint_spec [OF assms, where ?'a = 64 and i = 0 and acc = 0]
    by (simp add: readUint64_def)
qed

interpretation uint64: ba_codec "\<lambda>v. writeUint64 (ucast v)" readUint64
  "\<lambda>_ v. varint_bytes (ucast v)" "\<lambda>v. v < 2 ^ 32"
proof (unfold_locales)
  show "\<exists>b'. writeUint64 (ucast v) b = Inr b' \<and> ba_appended b (varint_bytes (ucast v)) b'"
    if "ba_append_mode b" for b and v :: u64
    using that by (simp add: writeUint64_def write_bytes_appended)
  show "readUint64 b = Inr (v, ba_advance (length (varint_bytes (ucast v))) b)"
    if "ba_inv b" "v < 2 ^ 32" "ba_unread b = varint_bytes (ucast v) @ rest" for b v rest
  proof -
    have "unat (ucast (ucast v :: u32) :: u64) = unat v"
      using that(2)
      by (simp add: unsigned_ucast_eq unsigned_take_bit_eq take_bit_nat_eq_self word_less_nat_alt)
    then have "ucast (ucast v :: u32) = v" by (simp only: word_unat_eq_iff)
    then show ?thesis using readUint64_front [OF that(1,3)] by simp
  qed
qed

lemma EncodeZigzag64_fits: "uint (EncodeZigzag64 (scast (w :: u32))) < 2 ^ 32"
proof -
  let ?v = "scast w :: u64"
  have range: "- (2 ^ 31) \<le> sint w" "sint w < 2 ^ 31"
    using sint_greater_eq [of w] sint_less [of w] by simp_all
  obtain k where k: "sint w = k" by simp
  have v: "?v = word_of_int k" using k by auto
  have sv: "sint ?v = k"
    using range k by (simp add: signed_scast_eq signed_take_bit_int_eq_self)
  have "EncodeZigzag64 ?v = word_of_int (if k < 0 then - k * 2 - 1 else k * 2)"
    unfolding EncodeZigzag64_def sv unfolding v by simp
  moreover have "uint (word_of_int j :: u64) = j" if "0 \<le> j" "j < 2 ^ 32" for j
    using that by (simp add: uint_word_of_int)
  ultimately show ?thesis using range k by auto
qed

interpretation int64: ba_codec "\<lambda>v. writeInt64 (ucast v)" readInt64
  "\<lambda>_ v. varint_bytes (ucast (EncodeZigzag64 v))" "\<lambda>v. scast (ucast v :: u32) = v"
proof (unfold_locales)
  show "\<exists>b'. writeInt64 (ucast v) b = Inr b' \<and>
      ba_appended b (varint_bytes (ucast (EncodeZigzag64 v))) b'"
    if "ba_append_mode b" "scast (ucast v :: u32) = v" for b and v :: u64
    using that by (simp add: writeInt64_def writeUint64_def write_bytes_appended)
  show "readInt64 b = Inr (v, ba_advance (length (varint_bytes (ucast (EncodeZigzag64 v)))) b)"
    if "ba_inv b" "scast (ucast v :: u32) = v"
      "ba_unread b = varint_bytes (ucast (EncodeZigzag64 v)) @ rest" for b v rest
  proof -
    have "EncodeZigzag64 v < 2 ^ 32"
      using EncodeZigzag64_fits [of "ucast v"] that(2) by (simp add: word_less_def)
    then show ?thesis
      using uint64.get_reads [OF that(1) _ that(3)] by (simp add: readInt64_def)
  qed
qed

subsection \<open>Length-prefixed strings\<close>

text \<open>
  Any integer codec gives a string codec: the length, written and read with it, and then the
  bytes. \<open>pre\<close> narrows the length to the prefix's type.
\<close>

locale ba_length_codec = ba_codec put get enc ok
  for put :: "'n::len word \<Rightarrow> bytearray \<Rightarrow> fault + bytearray" and get and enc and ok
begin

definition put_string :: "byte list \<Rightarrow> bytearray \<Rightarrow> fault + bytearray" where
  "put_string s b = rbind (put (of_nat (length s)) b) (write_bytes s)"

definition get_string :: "bytearray \<Rightarrow> fault + (byte list \<times> bytearray)" where
  "get_string b = rbind (get b) (\<lambda>(n, b'). read_bytes (unat n) b')"

definition enc_string :: "nat \<Rightarrow> byte list \<Rightarrow> byte list" where
  "enc_string e s = enc e (of_nat (length s)) @ s"

definition ok_string :: "byte list \<Rightarrow> bool" where
  "ok_string s \<longleftrightarrow> length s < 2 ^ LENGTH('n) \<and> ok (of_nat (length s))"

lemma put_string_appends:
  assumes "ba_append_mode b" and "ok_string s"
  shows "\<exists>b'. put_string s b = Inr b' \<and> ba_appended b (enc_string (m_endian b) s) b'"
  unfolding put_string_def enc_string_def
proof (rule rbind_appended)
  show "\<exists>b'. put (of_nat (length s)) b = Inr b' \<and>
      ba_appended b (enc (m_endian b) (of_nat (length s))) b'"
    using assms by (intro put_appends) (auto simp: ok_string_def)
  fix b' assume "ba_appended b (enc (m_endian b) (of_nat (length s))) b'"
  then show "\<exists>c. write_bytes s b' = Inr c \<and> ba_appended b' s c"
    using write_bytes_appended ba_appended_mode by blast
qed

lemma get_string_reads:
  assumes "ba_inv b" and "ok_string s" and "ba_unread b = enc_string (m_endian b) s @ rest"
  shows "get_string b = Inr (s, ba_advance (length (enc_string (m_endian b) s)) b)"
proof -
  let ?n = "of_nat (length s) :: 'n word"
  let ?k = "length (enc (m_endian b) ?n)"
  have "get b = Inr (?n, ba_advance ?k b)"
    using assms by (intro get_reads) (auto simp: ok_string_def enc_string_def)
  moreover have "unat ?n = length s"
    using assms(2) by (simp add: ok_string_def unat_of_nat)
  moreover have "read_bytes (length s) (ba_advance ?k b) = Inr (s, ba_advance (length s) (ba_advance ?k b))"
    using assms by (intro read_bytes_front [where rest = rest] ba_advance_inv) (auto simp: enc_string_def)
  ultimately show ?thesis by (simp add: get_string_def enc_string_def)
qed

end

sublocale ba_length_codec \<subseteq> string: ba_codec put_string get_string enc_string ok_string
  by unfold_locales (simp_all add: put_string_appends get_string_reads)

interpretation lf16: ba_length_codec writeFuint16 readFuint16 fixed_enc "\<lambda>_. True"
  by unfold_locales

interpretation lf32: ba_length_codec writeFuint32 readFuint32 fixed_enc "\<lambda>_. True"
  by unfold_locales

interpretation lf64: ba_length_codec writeFuint64 readFuint64 fixed_enc "\<lambda>_. True"
  by unfold_locales

interpretation lvint: ba_length_codec "\<lambda>v. writeUint64 (ucast v)" readUint64
  "\<lambda>_ v. varint_bytes (ucast v)" "\<lambda>v. v < 2 ^ 32"
  by unfold_locales

lemma ucast_of_nat_u32 [simp]: "ucast (of_nat n :: u64) = (of_nat n :: u32)"
  unfolding word_unat_eq_iff unsigned_ucast_eq unat_of_nat
  by (simp add: take_bit_eq_mod mod_mod_cancel)

lemma string_codecs [simp]:
  "lf16.put_string = writeStringF16" "lf16.get_string = readStringF16"
  "lf32.put_string = writeStringF32" "lf32.get_string = readStringF32"
  "lf64.put_string = writeStringF64" "lf64.get_string = readStringF64"
  "lvint.put_string = writeStringVint" "lvint.get_string = readStringVint"
  by (auto simp: fun_eq_iff lf16.put_string_def lf16.get_string_def writeStringF16_def readStringF16_def
      lf32.put_string_def lf32.get_string_def writeStringF32_def readStringF32_def
      lf64.put_string_def lf64.get_string_def writeStringF64_def readStringF64_def
      lvint.put_string_def lvint.get_string_def writeStringVint_def readStringVint_def)

section \<open>Properties of the buffer\<close>

lemma put_all_write_bytes:
  assumes "ba_append_mode b"
  shows "\<exists>b'. put_all write_bytes chunks b = Inr b' \<and> ba_appended b (concat chunks) b'"
  using assms
proof (induction chunks arbitrary: b)
  case Nil
  then show ?case by (simp add: ba_appended_refl)
next
  case (Cons c cs)
  then show ?case
    unfolding put_all.simps concat.simps
    by (intro rbind_appended write_bytes_appended) (auto intro: Cons.IH dest: ba_appended_mode)
qed

text \<open>
  C1. However the bytes are cut into calls of \<^verbatim>\<open>write\<close> and whatever the node size, a buffer filled
  from a fresh \<^verbatim>\<open>ByteArray\<close> and rewound with \<^verbatim>\<open>setPosition(0)\<close> gives back exactly the bytes
  written, in order: no call faults although the chain of nodes grows on the way.
\<close>

theorem bytearray_chunks_roundtrip:
  assumes "0 < baseSize"
  shows "\<exists>b1 b2 b3. put_all write_bytes chunks (new_ByteArray baseSize g) = Inr b1 \<and>
           getReadSize b1 = 0 \<and> m_size b1 = length (concat chunks) \<and>
           setPos 0 b1 = Inr b2 \<and> toString b2 = Inr (concat chunks) \<and>
           read_bytes (length (concat chunks)) b2 = Inr (concat chunks, b3) \<and> getReadSize b3 = 0"
proof -
  let ?b = "new_ByteArray baseSize g"
  have mode: "ba_append_mode ?b" using assms by (rule new_ByteArray_append_mode)
  obtain b1 where b1: "put_all write_bytes chunks ?b = Inr b1" "ba_appended ?b (concat chunks) b1"
    using put_all_write_bytes [OF mode] by blast
  have inv1: "ba_inv b1" "m_pos b1 = m_size b1" "ba_data b1 = concat chunks"
    using b1(2) by (auto simp: ba_appended_def ba_append_mode_def)
  have "m_size ?b = 0" by (simp add: new_ByteArray_def)
  with ba_appended_rewind [OF mode b1(2)]
  obtain b2 where b2: "setPos 0 b1 = Inr b2" "ba_inv b2" "ba_unread b2 = concat chunks" by auto
  let ?b3 = "ba_advance (length (concat chunks)) b2"
  have "read_bytes (length (concat chunks)) b2 = Inr (concat chunks, ?b3)"
    using read_bytes_front [OF b2(2), of "concat chunks" "[]"] b2(3) by simp
  moreover have "getReadSize ?b3 = 0"
    using length_ba_unread [of ?b3] ba_advance_inv [OF b2(2)] b2(3) by simp
  moreover have "getReadSize b1 = 0" using inv1(2) by (simp add: getReadSize_def)
  moreover have "m_size b1 = length (concat chunks)" using length_ba_data [OF inv1(1)] inv1(3) by simp
  ultimately show ?thesis using b1(1) b2(1) toString_spec [OF b2(2)] b2(3) by auto
qed

theorem bytearray_chunks_roundtrip_witness:
  "\<exists>b1 b2 b3. put_all write_bytes [[1, 2, 3], [4, 5]] (new_ByteArray 2 0) = Inr b1 \<and>
     setPos 0 b1 = Inr b2 \<and> read_bytes 5 b2 = Inr ([1, 2, 3, 4, 5], b3)"
  using bytearray_chunks_roundtrip [of 2 "[[1, 2, 3], [4, 5]]" 0]
  by (auto simp: eval_nat_numeral)

text \<open>
  C37. Under the invariant \<^verbatim>\<open>read\<close> is total: it returns the next \<open>k\<close> bytes and leaves the invariant,
  the stored bytes and the size alone, or, when fewer than \<open>k\<close> are left, it throws
  \<^verbatim>\<open>std::out_of_range\<close> and nothing is consumed. No other fault happens.
\<close>

theorem bytearray_read_total:
  assumes "ba_inv b"
  shows "if k \<le> length (ba_unread b)
         then \<exists>b'. read_bytes k b = Inr (take k (ba_unread b), b') \<and> ba_inv b' \<and>
                ba_unread b' = drop k (ba_unread b) \<and> ba_data b' = ba_data b \<and> m_size b' = m_size b
         else read_bytes k b = Inl OutOfRange"
  using read_bytes_spec [OF assms] ba_advance_inv [OF assms] by auto

theorem bytearray_read_total_witness:
  "read_bytes 2 (new_ByteArray 4 0) = Inl OutOfRange"
  using bytearray_read_total [of "new_ByteArray 4 0" 2]
    ba_append_mode_inv [OF new_ByteArray_append_mode [of 4 0]]
  by (simp add: ba_unread_def)

text \<open>
  Fixed-size integers of every width, in either byte order: a sequence of them written to a
  buffer that is being filled and read back from where it began is the same sequence, the
  buffer is then empty, and in the default big-endian order the image of a value is its bytes
  most significant first.
\<close>

theorem fixed_integers_roundtrip:
  assumes "ba_append_mode b"
  shows "(\<exists>b1 b2 b3. put_all writeFint16 (xs :: u16 list) b = Inr b1 \<and> setPos (m_size b) b1 = Inr b2 \<and>
            get_all readFint16 (length xs) b2 = Inr (xs, b3) \<and> ba_unread b3 = []) \<and>
         (\<exists>b1 b2 b3. put_all writeFuint32 (ys :: u32 list) b = Inr b1 \<and> setPos (m_size b) b1 = Inr b2 \<and>
            get_all readFuint32 (length ys) b2 = Inr (ys, b3) \<and> ba_unread b3 = []) \<and>
         (\<exists>b1 b2 b3. put_all writeFint64 (zs :: u64 list) b = Inr b1 \<and> setPos (m_size b) b1 = Inr b2 \<and>
            get_all readFint64 (length zs) b2 = Inr (zs, b3) \<and> ba_unread b3 = []) \<and>
         (\<exists>b1. writeFuint32 w b = Inr b1 \<and> ba_data b1 = ba_data b @
            (let bs = [ucast (drop_bit 24 w), ucast (drop_bit 16 w), ucast (drop_bit 8 w), ucast w]
             in if isLittleEndian b then rev bs else bs))"
proof (intro conjI)
  show "\<exists>b1 b2 b3. put_all writeFint16 (xs :: u16 list) b = Inr b1 \<and> setPos (m_size b) b1 = Inr b2 \<and>
           get_all readFint16 (length xs) b2 = Inr (xs, b3) \<and> ba_unread b3 = []"
    using fint16.sequence_roundtrip [OF assms, of xs] by fastforce
  show "\<exists>b1 b2 b3. put_all writeFuint32 (ys :: u32 list) b = Inr b1 \<and> setPos (m_size b) b1 = Inr b2 \<and>
           get_all readFuint32 (length ys) b2 = Inr (ys, b3) \<and> ba_unread b3 = []"
    using fuint32.sequence_roundtrip [OF assms, of ys] by fastforce
  show "\<exists>b1 b2 b3. put_all writeFint64 (zs :: u64 list) b = Inr b1 \<and> setPos (m_size b) b1 = Inr b2 \<and>
           get_all readFint64 (length zs) b2 = Inr (zs, b3) \<and> ba_unread b3 = []"
    using fint64.sequence_roundtrip [OF assms, of zs] by fastforce
  have "fixed_enc (m_endian b) w =
      (let bs = [ucast (drop_bit 24 w), ucast (drop_bit 16 w), ucast (drop_bit 8 w), ucast w]
       in if isLittleEndian b then rev bs else bs)"
    by (simp add: fixed_enc_def isLittleEndian_def SEAICE_BYTE_ORDER_def le_bytes_def upt_conv_Cons)
  then show "\<exists>b1. writeFuint32 w b = Inr b1 \<and> ba_data b1 = ba_data b @
            (let bs = [ucast (drop_bit 24 w), ucast (drop_bit 16 w), ucast (drop_bit 8 w), ucast w]
             in if isLittleEndian b then rev bs else bs)"
    using fuint32.put_appends [OF assms, of w] by (auto simp: ba_appended_def)
qed

theorem fixed_integers_roundtrip_witness:
  "\<exists>b1. writeFuint32 0x01020304 (new_ByteArray 3 0) = Inr b1 \<and> ba_data b1 = [1, 2, 3, 4]"
proof -
  have "ba_append_mode (new_ByteArray 3 0)" by (rule new_ByteArray_append_mode) simp
  from fixed_integers_roundtrip [OF this, of "[]" "[]" "[]" "0x01020304"] show ?thesis
    by (elim conjE exE) (auto simp: isLittleEndian_def endian_defs)
qed

text \<open>
  Varints: any sequence of 32-bit values, unsigned or zigzag-coded signed, reads back as
  written, and no value takes more than five bytes, the size of the array \<^verbatim>\<open>writeUint32\<close> builds it in.
\<close>

theorem varint32_roundtrip:
  assumes "ba_append_mode b"
  shows "(\<exists>b1 b2 b3. put_all writeUint32 vs b = Inr b1 \<and> setPos (m_size b) b1 = Inr b2 \<and>
            get_all readUint32 (length vs) b2 = Inr (vs, b3) \<and> ba_unread b3 = [] \<and>
            m_size b1 \<le> m_size b + 5 * length vs) \<and>
         (\<exists>b1 b2 b3. put_all writeInt32 vs b = Inr b1 \<and> setPos (m_size b) b1 = Inr b2 \<and>
            get_all readInt32 (length vs) b2 = Inr (vs, b3) \<and> ba_unread b3 = [] \<and>
            m_size b1 \<le> m_size b + 5 * length vs)"
proof -
  have bound: "m_size b1 \<le> m_size b + 5 * length vs"
    if h: "ba_appended b (concat (map (\<lambda>v. varint_bytes (f v)) vs)) b1" for f b1
  proof -
    have "m_size b1 = m_size b + length (concat (map (\<lambda>v. varint_bytes (f v)) vs))"
      using h assms length_ba_data [of b1] length_ba_data [of b]
      by (simp add: ba_appended_def ba_append_mode_inv)
    moreover have "length (concat (map (\<lambda>v. varint_bytes (f v)) vs)) \<le> 5 * length vs"
      by (induction vs) (auto simp: length_varint_bytes intro: add_mono)
    ultimately show ?thesis by simp
  qed
  show ?thesis
    using uint32.sequence_roundtrip [OF assms, of vs] uint32.put_all_appends [OF assms, of vs]
      int32.sequence_roundtrip [OF assms, of vs] int32.put_all_appends [OF assms, of vs]
      bound [of "\<lambda>v. v"] bound [of EncodeZigzag32]
    by (fastforce simp: uint32.enc_all_def int32.enc_all_def)
qed

theorem varint32_roundtrip_witness:
  "\<exists>b1 b2 b3. put_all writeInt32 [- 1, 300] (new_ByteArray 2 0) = Inr b1 \<and> setPos 0 b1 = Inr b2 \<and>
     get_all readInt32 2 b2 = Inr ([- 1, 300], b3)"
proof -
  have "ba_append_mode (new_ByteArray 2 0)" by (rule new_ByteArray_append_mode) simp
  from varint32_roundtrip [OF this, of "[- 1, 300]"] show ?thesis
    by (auto simp: new_ByteArray_def eval_nat_numeral)
qed

text \<open>
  Length-prefixed strings: with each of the four prefixes, a string that is short enough for
  the prefix comes back unchanged, whatever its bytes are, and the buffer is read to its end.
\<close>

theorem strings_roundtrip:
  assumes "ba_append_mode b" and "length s < 2 ^ 16"
  shows "\<forall>(put, get) \<in> {(writeStringF16, readStringF16), (writeStringF32, readStringF32),
             (writeStringF64, readStringF64), (writeStringVint, readStringVint)}.
           \<exists>b1 b2 b3. put s b = Inr b1 \<and> setPos (m_size b) b1 = Inr b2 \<and>
             get b2 = Inr (s, b3) \<and> ba_unread b3 = []"
proof -
  have small: "length s < 2 ^ 32" "length s < 2 ^ 64" using assms(2) by simp_all
  have "unat (of_nat (length s) :: u64) = length s" using assms(2) by (simp add: unat_of_nat)
  then have v: "(of_nat (length s) :: u64) < 2 ^ 32"
    using small(1) by (simp add: word_less_nat_alt)
  have ok: "lf16.ok_string s" "lf32.ok_string s" "lf64.ok_string s" "lvint.ok_string s"
    unfolding lf16.ok_string_def lf32.ok_string_def lf64.ok_string_def lvint.ok_string_def
    using assms(2) v by simp_all
  note rt = lf16.string.sequence_roundtrip [OF assms(1), of "[s]"]
    lf32.string.sequence_roundtrip [OF assms(1), of "[s]"]
    lf64.string.sequence_roundtrip [OF assms(1), of "[s]"]
    lvint.string.sequence_roundtrip [OF assms(1), of "[s]"]
  from rt ok show ?thesis by (fastforce simp: rbind_eq_Inr)
qed

theorem strings_roundtrip_witness:
  "\<exists>b1 b2 b3. writeStringVint [104, 105] (new_ByteArray 2 0) = Inr b1 \<and> setPos 0 b1 = Inr b2 \<and>
     readStringVint b2 = Inr ([104, 105], b3)"
proof -
  have "ba_append_mode (new_ByteArray 2 0)" by (rule new_ByteArray_append_mode) simp
  from strings_roundtrip [OF this, of "[104, 105]"] show ?thesis
    by (auto simp: new_ByteArray_def)
qed

text \<open>
  The 64-bit varints carry 32 bits: \<^verbatim>\<open>writeUint64\<close> takes a \<^verbatim>\<open>uint32_t\<close>, so the caller's value is
  cut to its low 32 bits before it is written, and \<^verbatim>\<open>readUint64\<close> returns the value exactly when
  it was below 2^32; \<^verbatim>\<open>writeInt64\<close> and \<^verbatim>\<open>readInt64\<close> agree on the values of an \<^verbatim>\<open>int32_t\<close>.
\<close>

theorem varint64_keeps_32_bits:
  assumes "ba_append_mode b"
  shows "(\<exists>b1 b2 b3 v'. writeUint64 (ucast (v :: u64)) b = Inr b1 \<and> setPos (m_size b) b1 = Inr b2 \<and>
            readUint64 b2 = Inr (v', b3) \<and> v' = take_bit 32 v \<and> (v' = v \<longleftrightarrow> v < 2 ^ 32)) \<and>
         (\<exists>b1 b2 b3. writeInt64 w b = Inr b1 \<and> setPos (m_size b) b1 = Inr b2 \<and>
            readInt64 b2 = Inr (scast w, b3) \<and> ba_unread b3 = [])"
proof
  obtain b1 where b1: "writeUint64 (ucast v) b = Inr b1" "ba_appended b (varint_bytes (ucast v)) b1"
    using assms write_bytes_appended by (auto simp: writeUint64_def)
  obtain b2 where b2: "setPos (m_size b) b1 = Inr b2" "ba_inv b2" "ba_unread b2 = varint_bytes (ucast v)"
    using ba_appended_rewind [OF assms b1(2)] by blast
  have eq: "ucast (ucast v :: u32) = take_bit 32 v"
    by (rule bit_word_eqI) (auto simp: bit_ucast_iff bit_take_bit_iff)
  have "take_bit 32 v = v \<longleftrightarrow> v < 2 ^ 32"
    unfolding word_unat_eq_iff unsigned_take_bit_eq
    by (simp add: take_bit_nat_eq_self_iff word_less_nat_alt)
  then show "\<exists>b1 b2 b3 v'. writeUint64 (ucast v) b = Inr b1 \<and> setPos (m_size b) b1 = Inr b2 \<and>
            readUint64 b2 = Inr (v', b3) \<and> v' = take_bit 32 v \<and> (v' = v \<longleftrightarrow> v < 2 ^ 32)"
    using b1(1) b2(1) readUint64_front [OF b2(2), of "ucast v" "[]"] b2(3) eq by simp
next
  have "ucast (scast w :: u64) = w"
    by (rule bit_word_eqI) (simp add: bit_ucast_iff bit_signed_iff)
  with int64.sequence_roundtrip [OF assms, of "[scast w]"]
  show "\<exists>b1 b2 b3. writeInt64 w b = Inr b1 \<and> setPos (m_size b) b1 = Inr b2 \<and>
            readInt64 b2 = Inr (scast w, b3) \<and> ba_unread b3 = []"
    by (fastforce simp: rbind_eq_Inr)
qed

theorem varint64_keeps_32_bits_witness:
  "\<exists>b1 b2 b3. writeUint64 (ucast (0x100000001 :: u64)) (new_ByteArray 8 0) = Inr b1 \<and>
     setPos 0 b1 = Inr b2 \<and> readUint64 b2 = Inr (1, b3)"
proof -
  have "ba_append_mode (new_ByteArray 8 0)" by (rule new_ByteArray_append_mode) simp
  from varint64_keeps_32_bits [OF this, of "0x100000001" 0] show ?thesis
    by (auto simp: new_ByteArray_def)
qed

text \<open>
  \<^verbatim>\<open>readFloat\<close> does not read what \<^verbatim>\<open>writeFloat\<close> writes: the value is written as four fixed
  bytes and read as a varint. For 1.0 (bits 0x3F800000) in a fresh buffer the read returns the bits
  0x3F after one byte and leaves three bytes behind; 0.0 is the one of the two that survives as a value.
\<close>

theorem float_read_mismatch:
  "(\<exists>b1 b2 b3. writeFloat 0x3F800000 (new_ByteArray 16 0) = Inr b1 \<and> setPos 0 b1 = Inr b2 \<and>
      readFloat b2 = Inr (0x3F, b3) \<and> ba_unread b3 = [0x80, 0, 0]) \<and>
   (\<exists>b1 b2 b3. writeFloat 0 (new_ByteArray 16 0) = Inr b1 \<and> setPos 0 b1 = Inr b2 \<and>
      readFloat b2 = Inr (0, b3) \<and> ba_unread b3 = [0, 0, 0])"
proof -
  have mode: "ba_append_mode (new_ByteArray 16 0)" by (rule new_ByteArray_append_mode) simp
  have "\<exists>b1 b2 b3. writeFloat w (new_ByteArray 16 0) = Inr b1 \<and> setPos 0 b1 = Inr b2 \<and>
      readFloat b2 = Inr (ucast x, b3) \<and> ba_unread b3 = bs"
    if x: "x < 0x80" and w: "fixed_enc SEAICE_BIG_ENDIAN w = ucast x # bs" for w :: u32 and x :: u32 and bs
  proof -
    obtain b1 where b1: "writeFloat w (new_ByteArray 16 0) = Inr b1"
        "ba_appended (new_ByteArray 16 0) (ucast x # bs) b1"
      using fint32.put_appends [OF mode, of w] w by (auto simp: writeFloat_def)
    have "m_size (new_ByteArray 16 0) = 0" by (simp add: new_ByteArray_def)
    with ba_appended_rewind [OF mode b1(2)]
    obtain b2 where b2: "setPos 0 b1 = Inr b2" "ba_inv b2" "ba_unread b2 = ucast x # bs" by auto
    have "readFloat b2 = Inr (x, ba_advance 1 b2)"
      using uint32.get_reads [OF b2(2), of x bs] b2(3) x by (simp add: readFloat_def varint_bytes_last)
    then show ?thesis using b1(1) b2 by simp
  qed
  from this [of "0x3F" "0x3F800000" "[0x80, 0, 0]"] this [of 0 0 "[0, 0, 0]"] show ?thesis
    by (simp add: fixed_enc_def endian_defs le_bytes_def upt_conv_Cons)
qed

end
