(* ===== verification/ByteArrayViews.thy ===== *)
theory ByteArrayViews imports ByteArrayCodec begin

text \<open>
  The views of a \<^verbatim>\<open>ByteArray\<close> for scatter/gather input and output and its file transfer
  (\<^verbatim>\<open>seaice/bytearray.cpp\<close>, \<^verbatim>\<open>writeToFile\<close> to \<^verbatim>\<open>getWriteBuffers\<close>). An \<^verbatim>\<open>iovec\<close> is a node index, an
  offset in the node and a length; \<open>iov_gather\<close> and \<open>iov_scatter\<close> are what \<^verbatim>\<open>writev\<close> reads from
  such a vector and what \<^verbatim>\<open>readv\<close> stores through it. A file is its list of bytes and a flag
  that says whether it could be opened.
\<close>

section \<open>Vectors of buffers\<close>

type_synonym iovec = "nat \<times> nat \<times> nat"

function iov_loop :: "byte list list \<Rightarrow> nat \<Rightarrow> nat \<Rightarrow> nat \<Rightarrow> fault + iovec list" where
  "iov_loop ns cur nPos len =
     (if len = 0 then Inr []
      else if cur \<ge> length ns then Inl NullDeref
      else
        let nCap = size_sub (length (ns ! cur)) nPos in
        if nCap > len then Inr [(cur, nPos, len)]
        else rbind (iov_loop ns (Suc cur) 0 (len - nCap)) (\<lambda>iovs. Inr ((cur, nPos, nCap) # iovs)))"
  by pat_completeness auto
termination
  by (relation "measure (\<lambda>(ns, cur, nPos, len). length ns - cur)") auto

declare iov_loop.simps [simp del]

lemma iov_loop_0 [simp]: "iov_loop ns cur nPos 0 = Inr []"
  by (simp add: iov_loop.simps)

definition getReadBuffers :: "iovec list \<Rightarrow> nat \<Rightarrow> bytearray \<Rightarrow> fault + (nat \<times> iovec list)" where
  "getReadBuffers buffers len b =
     (let len = (if len > getReadSize b then getReadSize b else len) in
      if len = 0 then Inr (0, buffers)
      else if m_baseSize b = 0 then Inl DivByZero
      else rbind (iov_loop (m_nodes b) (m_cur b) (m_pos b mod m_baseSize b) len)
             (\<lambda>iovs. Inr (length (buffers @ iovs), buffers @ iovs)))"

definition getReadBuffersAt :: "iovec list \<Rightarrow> nat \<Rightarrow> nat \<Rightarrow> bytearray \<Rightarrow> fault + (nat \<times> iovec list)" where
  "getReadBuffersAt buffers len pos b =
     (let read_size = size_sub (m_cap b) pos;
          len = (if len > read_size then read_size else len) in
      if len = 0 then Inr (0, buffers)
      else if m_baseSize b = 0 then Inl DivByZero
      else rbind (node_walk (m_nodes b) 0 (pos div m_baseSize b)) (\<lambda>cur.
             rbind (iov_loop (m_nodes b) cur (pos mod m_baseSize b) len)
               (\<lambda>iovs. Inr (length (buffers @ iovs), buffers @ iovs))))"

definition getWriteBuffers :: "iovec list \<Rightarrow> nat \<Rightarrow> bytearray \<Rightarrow> fault + (nat \<times> iovec list \<times> bytearray)" where
  "getWriteBuffers buffers len b =
     (if len = 0 then Inr (0, buffers, b)
      else rbind (addCapacity len b) (\<lambda>b.
        if m_baseSize b = 0 then Inl DivByZero
        else rbind (iov_loop (m_nodes b) (m_cur b) (m_pos b mod m_baseSize b) len)
               (\<lambda>iovs. Inr (length (buffers @ iovs), buffers @ iovs, b))))"

primrec iov_gather :: "byte list list \<Rightarrow> iovec list \<Rightarrow> byte list" where
  "iov_gather ns [] = []"
| "iov_gather ns (v # vs) =
     (case v of (i, off, len) \<Rightarrow> take len (drop off (ns ! i)) @ iov_gather ns vs)"

fun iov_scatter :: "iovec list \<Rightarrow> byte list \<Rightarrow> byte list list \<Rightarrow> byte list list" where
  "iov_scatter [] bs ns = ns"
| "iov_scatter ((i, off, len) # vs) bs ns =
     iov_scatter vs (drop len bs) (ns[i := overwrite off (take len bs) (ns ! i)])"

section \<open>Files and text\<close>

function writeToFile_loop :: "bytearray \<Rightarrow> nat \<Rightarrow> nat \<Rightarrow> nat \<Rightarrow> fault + byte list" where
  "writeToFile_loop b read_size pos tmp =
     (if read_size = 0 then Inr []
      else if m_baseSize b = 0 then Inl DivByZero
      else
        let nPos = pos mod m_baseSize b;
            len = size_sub (if read_size > m_baseSize b then m_baseSize b else read_size) nPos in
        if tmp \<ge> length (m_nodes b) then Inl NullDeref
        else if nPos + len > length (m_nodes b ! tmp) then Inl OutOfBounds
        else rbind (writeToFile_loop b (read_size - len) (pos + len) (Suc tmp))
               (\<lambda>bs. Inr (take len (drop nPos (m_nodes b ! tmp)) @ bs)))"
  by pat_completeness auto
termination
  by (relation "measure (\<lambda>(b, read_size, pos, tmp). length (m_nodes b) - tmp)") auto

declare writeToFile_loop.simps [simp del]

lemma writeToFile_loop_0 [simp]: "writeToFile_loop b 0 pos tmp = Inr []"
  by (simp add: writeToFile_loop.simps)

text \<open>The result and the bytes of the truncated file; \<open>None\<close> when it could not be opened.\<close>

definition writeToFile :: "bool \<Rightarrow> bytearray \<Rightarrow> fault + (bool \<times> byte list option)" where
  "writeToFile opened b =
     (if \<not> opened then Inr (False, None)
      else rbind (writeToFile_loop b (getReadSize b) (m_pos b) (m_cur b)) (\<lambda>bs. Inr (True, Some bs)))"

text \<open>\<^verbatim>\<open>ifs.eof()\<close> is set by the read that asks for more bytes than the file has left.\<close>

function readFromFile_loop :: "byte list \<Rightarrow> bytearray \<Rightarrow> fault + bytearray" where
  "readFromFile_loop contents b =
     (if m_baseSize b = 0 then Inl DivByZero
      else
        let buff = take (m_baseSize b) contents in
        rbind (write_bytes buff b) (\<lambda>b'.
          if length buff < m_baseSize b then Inr b'
          else readFromFile_loop (drop (m_baseSize b) contents) b'))"
  by pat_completeness auto
termination
  by (relation "measure (\<lambda>(contents, b). length contents)") auto

declare readFromFile_loop.simps [simp del]

definition readFromFile :: "byte list option \<Rightarrow> bytearray \<Rightarrow> fault + (bool \<times> bytearray)" where
  "readFromFile file b =
     (case file of
        None \<Rightarrow> Inr (False, b)
      | Some contents \<Rightarrow> rbind (readFromFile_loop contents b) (\<lambda>b'. Inr (True, b')))"

definition hex_digits :: string where "hex_digits = ''0123456789abcdef''"

definition hex_byte :: "byte \<Rightarrow> string" where
  "hex_byte x = [hex_digits ! (unat x div 16), hex_digits ! (unat x mod 16)]"

definition toHexString :: "bytearray \<Rightarrow> fault + string" where
  "toHexString b =
     rbind (toString b) (\<lambda>str. Inr (concat (map (\<lambda>i.
       (if i > 0 \<and> i mod 32 = 0 then [CHR 0x0A] else []) @ hex_byte (str ! i) @ '' '') [0..<length str])))"

section \<open>What the vectors denote\<close>

lemma iov_loop_gather:
  "read_at_loop ns cur nPos len = rbind (iov_loop ns cur nPos len) (\<lambda>iovs. Inr (iov_gather ns iovs))"
proof (induction "length ns - cur" arbitrary: cur nPos len rule: less_induct)
  case less
  show ?case
  proof (cases "len = 0 \<or> length ns \<le> cur")
    case True
    then show ?thesis
      by (auto simp: read_at_loop.simps [of ns cur nPos len] iov_loop.simps [of ns cur nPos len])
  next
    case False
    then have "length ns - Suc cur < length ns - cur" by auto
    from less.hyps [OF this, of 0 "len - size_sub (length (ns ! cur)) nPos"] False
    show ?thesis
      by (simp add: read_at_loop.simps [of ns cur nPos len] iov_loop.simps [of ns cur nPos len]
          rbind_assoc Let_def)
  qed
qed

text \<open>The vector covers \<open>len\<close> bytes from the position on, each piece inside its node, in order.\<close>

lemma iov_loop_spec:
  assumes "blocks n ns" and "0 < n" and "nPos < n" and "cur * n + nPos + len \<le> n * length ns"
  shows "\<exists>iovs. iov_loop ns cur nPos len = Inr iovs \<and>
           (\<forall>(i, off, l) \<in> set iovs. i < length ns \<and> off + l \<le> n) \<and>
           sum_list (map (\<lambda>(i, off, l). l) iovs) = len \<and>
           (\<forall>bs ms. length bs \<le> len \<longrightarrow> blocks n ms \<longrightarrow> length ms = length ns \<longrightarrow>
              blocks n (iov_scatter iovs bs ms) \<and> length (iov_scatter iovs bs ms) = length ns \<and>
              concat (iov_scatter iovs bs ms) = overwrite (cur * n + nPos) bs (concat ms))"
  using assms
proof (induction "length ns - cur" arbitrary: cur nPos len rule: less_induct)
  case less
  show ?case
  proof (cases "len = 0")
    case True
    then show ?thesis by simp
  next
    case False
    then have "cur * n < length ns * n"
      using less.prems(4) by (simp only: mult.commute [of n])
    then have cur: "cur < length ns" by simp
    define c where "c = n - nPos"
    have c: "0 < c" "nPos + c = n" "size_sub (length (ns ! cur)) nPos = c"
      using less.prems cur by (simp_all add: c_def)
    show ?thesis
    proof (cases "c > len")
      case True
      then have "iov_loop ns cur nPos len = Inr [(cur, nPos, len)]"
        using False cur c by (simp add: iov_loop.simps [of ns cur nPos len])
      then show ?thesis
        using True c cur less.prems(2)
        by (auto simp: blocks_update concat_update_blocks)
    next
      case long: False
      have step: "Suc cur * n = cur * n + nPos + c" using c by simp
      have room: "Suc cur * n + 0 + (len - c) \<le> n * length ns"
        using step long less.prems(4) by linarith
      have "length ns - Suc cur < length ns - cur" using cur by simp
      from less.hyps [OF this less.prems(1,2), of 0 "len - c"] room less.prems(2)
      obtain iovs where iovs: "iov_loop ns (Suc cur) 0 (len - c) = Inr iovs"
        "\<forall>(i, off, l) \<in> set iovs. i < length ns \<and> off + l \<le> n"
        "sum_list (map (\<lambda>(i, off, l). l) iovs) = len - c"
        and scatter: "\<And>bs ms. length bs \<le> len - c \<Longrightarrow> blocks n ms \<Longrightarrow> length ms = length ns \<Longrightarrow>
              blocks n (iov_scatter iovs bs ms) \<and> length (iov_scatter iovs bs ms) = length ns \<and>
              concat (iov_scatter iovs bs ms) = overwrite (Suc cur * n) bs (concat ms)"
        by auto
      have "iov_loop ns cur nPos len = Inr ((cur, nPos, c) # iovs)"
        using False cur c long iovs(1) by (simp add: iov_loop.simps [of ns cur nPos len])
      moreover have "blocks n (iov_scatter ((cur, nPos, c) # iovs) bs ms) \<and>
          length (iov_scatter ((cur, nPos, c) # iovs) bs ms) = length ns \<and>
          concat (iov_scatter ((cur, nPos, c) # iovs) bs ms) = overwrite (cur * n + nPos) bs (concat ms)"
        if h: "length bs \<le> len" "blocks n ms" "length ms = length ns" for bs ms
      proof -
        let ?m = "ms[cur := overwrite nPos (take c bs) (ms ! cur)]"
        have len: "length (ms ! cur) = n" using h cur by simp
        have m: "blocks n ?m" "length ?m = length ns"
          "concat ?m = overwrite (cur * n + nPos) (take c bs) (concat ms)"
          using h cur c len by (simp_all add: blocks_update concat_update_blocks)
        have "concat (iov_scatter iovs (drop c bs) ?m) = overwrite (Suc cur * n) (drop c bs) (concat ?m)"
          using scatter [of "drop c bs" ?m] h m(1,2) by auto
        also have "\<dots> = overwrite (cur * n + nPos) bs (concat ms)"
        proof (cases "length bs \<le> c")
          case True
          then show ?thesis using m(3) by simp
        next
          case False
          have "length (concat ms) = n * length ns" using h by (simp add: length_concat_blocks)
          then have "cur * n + nPos + length (take c bs) + length (drop c bs) \<le> length (concat ms)"
            using False h(1) less.prems(4) by simp
          from overwrite_overwrite_adjacent [OF this] False show ?thesis
            unfolding m(3) step by (simp add: min_def)
        qed
        finally show ?thesis using scatter [of "drop c bs" ?m] h(1) m by simp
      qed
      ultimately show ?thesis
        using iovs(2,3) cur c(2) long by auto
    qed
  qed
qed

text \<open>The cursor designates the position wherever bytes are left to read or room was made to write.\<close>

lemma cursor_at_pos:
  assumes "ba_inv b" and "m_pos b < m_cap b"
  shows "m_cur b * m_baseSize b + m_pos b mod m_baseSize b = m_pos b"
  using ba_inv_cur [OF assms(1)] assms(2) by auto

lemma cursor_valid:
  assumes "ba_inv b" and "m_pos b < m_cap b"
  shows "m_cur b < length (m_nodes b)"
proof -
  have "m_cur b * m_baseSize b \<le> m_pos b" using cursor_at_pos [OF assms] by linarith
  also have "\<dots> < length (m_nodes b) * m_baseSize b"
    using assms(2) ba_inv_cap [OF assms(1)] by (simp add: mult.commute)
  finally show ?thesis by simp
qed

lemma getReadBuffers_spec:
  assumes inv: "ba_inv b" and left: "ba_unread b \<noteq> []" and "0 < len"
  shows "\<exists>iovs. getReadBuffers buffers len b = Inr (length (buffers @ iovs), buffers @ iovs) \<and>
           iov_gather (m_nodes b) iovs = take len (ba_unread b) \<and>
           (\<forall>(i, off, l) \<in> set iovs. i < length (m_nodes b) \<and> off + l \<le> m_baseSize b)"
proof -
  note b = ba_invD [OF inv]
  let ?n = "m_baseSize b" and ?r = "getReadSize b" and ?off = "m_pos b mod m_baseSize b"
  define k where "k = (if len > ?r then ?r else len)"
  have r: "length (ba_unread b) = ?r" "?r = m_size b - m_pos b"
    using length_ba_unread [OF inv] b(5) by (simp_all add: getReadSize_def)
  have "0 < length (ba_unread b)" using left by simp
  then have lt: "m_pos b < m_size b" using r by simp
  then have pos: "m_pos b < m_cap b" using b(6) by simp
  have k: "0 < k" "k \<le> m_size b - m_pos b" using lt r assms(3) by (auto simp: k_def)
  note at = cursor_at_pos [OF inv pos]
  have room: "m_cur b * ?n + ?off + k \<le> ?n * length (m_nodes b)"
    unfolding at using k(2) b(4,5,6) by linarith
  obtain iovs where iovs: "iov_loop (m_nodes b) (m_cur b) ?off k = Inr iovs"
      "\<forall>(i, off, l) \<in> set iovs. i < length (m_nodes b) \<and> off + l \<le> ?n"
    using iov_loop_spec [OF b(3,1) _ room] b(1) by auto
  have "read_loop ?off k b = Inr (take k (drop (m_pos b) (concat (m_nodes b))), ba_advance k b)"
    using read_loop_spec [OF b(3,1) _ room] b(1) k(1) by (simp add: at ba_advance_def)
  then have "iov_gather (m_nodes b) iovs = take k (drop (m_pos b) (concat (m_nodes b)))"
    using iov_loop_gather [of "m_nodes b" "m_cur b" ?off k] read_at_loop_eq [of b ?off k] iovs(1) by simp
  also have "\<dots> = take k (ba_unread b)"
    using k by (simp add: ba_unread_def ba_data_def drop_take)
  also have "\<dots> = take len (ba_unread b)" using r(1) by (auto simp: k_def)
  finally show ?thesis
    using iovs k(1) b(1) by (auto simp: getReadBuffers_def k_def [symmetric] Let_def)
qed

text \<open>Room for \<open>len\<close> bytes, filled through the vector and then taken over with \<^verbatim>\<open>setPos\<close>.\<close>

lemma getWriteBuffers_spec:
  assumes inv: "ba_inv b" and pos: "m_pos b = m_size b" and cur: "m_cur b < length (m_nodes b)"
    and len: "0 < len"
  shows "\<exists>iovs b1. getWriteBuffers buffers len b = Inr (length (buffers @ iovs), buffers @ iovs, b1) \<and>
           sum_list (map (\<lambda>(i, off, l). l) iovs) = len \<and>
           (\<forall>(i, off, l) \<in> set iovs. i < length (m_nodes b1) \<and> off + l \<le> m_baseSize b1) \<and>
           ba_inv b1 \<and> ba_data b1 = ba_data b \<and> m_pos b1 = m_pos b \<and> m_pos b + len \<le> m_cap b1 \<and>
           (\<forall>bs. length bs \<le> len \<longrightarrow>
              (\<exists>b2. setPos (m_pos b + length bs) (b1\<lparr>m_nodes := iov_scatter iovs bs (m_nodes b1)\<rparr>) = Inr b2 \<and>
                    ba_inv b2 \<and> ba_data b2 = ba_data b @ bs \<and> m_pos b2 = m_size b2 \<and> m_cap b2 = m_cap b1))"
proof -
  note b = ba_invD [OF inv]
  let ?n = "m_baseSize b" and ?off = "m_pos b mod m_baseSize b"
  obtain c where add: "addCapacity len b =
        Inr (b\<lparr>m_nodes := m_nodes b @ replicate c (replicate ?n (junk b)),
               m_cap := m_cap b + c * ?n, m_cur := m_pos b div ?n\<rparr>)"
      and fits: "m_pos b + len \<le> m_cap b + c * ?n"
    using addCapacity_spec [OF inv cur, of len] len by auto
  define b1 where "b1 = b\<lparr>m_nodes := m_nodes b @ replicate c (replicate ?n (junk b)),
               m_cap := m_cap b + c * ?n, m_cur := m_pos b div ?n\<rparr>"
  have b1: "m_baseSize b1 = ?n" "m_pos b1 = m_pos b" "m_size b1 = m_size b"
      "m_cur b1 = m_pos b div ?n" "m_cap b1 = ?n * length (m_nodes b1)" "m_pos b + len \<le> m_cap b1"
    using b(4) fits by (simp_all add: b1_def algebra_simps)
  have blk: "blocks ?n (m_nodes b1)" using b(3) by (simp add: b1_def)
  have inv1: "ba_inv b1"
    using b b1 blk b(6) unfolding ba_inv_def by (simp add: b1_def)
  have data1: "ba_data b1 = ba_data b"
    using b(6) ba_inv_length_concat [OF inv] by (simp add: ba_data_def b1_def)
  have at: "m_pos b div ?n * ?n + ?off = m_pos b" by simp
  have room: "m_pos b div ?n * ?n + ?off + len \<le> ?n * length (m_nodes b1)"
    unfolding at using b1(5,6) by simp
  have off: "?off < ?n" using b(1) by simp
  obtain iovs where iovs: "iov_loop (m_nodes b1) (m_pos b div ?n) ?off len = Inr iovs"
      "\<forall>(i, off, l) \<in> set iovs. i < length (m_nodes b1) \<and> off + l \<le> ?n"
      "sum_list (map (\<lambda>(i, off, l). l) iovs) = len"
      and scatter: "\<And>bs. length bs \<le> len \<Longrightarrow>
        blocks ?n (iov_scatter iovs bs (m_nodes b1)) \<and>
        length (iov_scatter iovs bs (m_nodes b1)) = length (m_nodes b1) \<and>
        concat (iov_scatter iovs bs (m_nodes b1)) = overwrite (m_pos b) bs (concat (m_nodes b1))"
    using iov_loop_spec [OF blk b(1) off room] unfolding at using blk by blast
  have get: "getWriteBuffers buffers len b = Inr (length (buffers @ iovs), buffers @ iovs, b1)"
    using add len b(1) iovs(1) by (simp add: getWriteBuffers_def b1_def [symmetric] b1)
  have fill: "\<exists>b2. setPos (m_pos b + length bs) (b1\<lparr>m_nodes := iov_scatter iovs bs (m_nodes b1)\<rparr>) = Inr b2 \<and>
         ba_inv b2 \<and> ba_data b2 = ba_data b @ bs \<and> m_pos b2 = m_size b2 \<and> m_cap b2 = m_cap b1"
    if h: "length bs \<le> len" for bs
  proof -
    let ?ns = "iov_scatter iovs bs (m_nodes b1)"
    let ?b = "b1\<lparr>m_nodes := ?ns\<rparr>" and ?p = "m_pos b + length bs"
    note sc = scatter [OF h]
    have inv2: "ba_inv ?b"
      using inv1 sc b1(1) unfolding ba_inv_def by auto
    have cap: "?p \<le> m_cap ?b" using h b1(6) by simp
    let ?b2 = "?b\<lparr>m_size := ?p, m_pos := ?p, m_cur := ?p div ?n\<rparr>"
    have "setPos ?p ?b = Inr ?b2"
      using setPos_spec [OF inv2 cap] pos b1 by simp
    moreover have "ba_inv ?b2"
      using inv2 cap b1(1) unfolding ba_inv_def by simp
    moreover have "ba_data ?b2 = ba_data b @ bs"
    proof -
      have "m_pos b \<le> length (concat (m_nodes b1))"
        using ba_inv_length_concat [OF inv1] b1(6) by simp
      from take_overwrite [OF this, of bs] show ?thesis
        using sc data1 b1(3) pos by (simp add: ba_data_def)
    qed
    ultimately show ?thesis by auto
  qed
  show ?thesis using get iovs(2,3) inv1 data1 b1 fill by auto
qed

section \<open>Files\<close>

lemma writeToFile_loop_spec:
  assumes "blocks (m_baseSize b) (m_nodes b)" and "0 < m_baseSize b"
    and "tmp * m_baseSize b + rs \<le> m_baseSize b * length (m_nodes b)"
  shows "writeToFile_loop b rs (tmp * m_baseSize b) tmp =
    Inr (take rs (drop (tmp * m_baseSize b) (concat (m_nodes b))))"
  using assms(3)
proof (induction rs arbitrary: tmp rule: less_induct)
  case (less rs)
  let ?n = "m_baseSize b"
  show ?case
  proof (cases "rs = 0")
    case True
    then show ?thesis by simp
  next
    case False
    then have "tmp * ?n < length (m_nodes b) * ?n"
      using less.prems by (simp only: mult.commute [of ?n])
    then have tmp: "tmp < length (m_nodes b)" by simp
    define l where "l = min rs ?n"
    have l: "0 < l" "l \<le> ?n" "l \<le> rs" using False assms(2) by (auto simp: l_def)
    have first: "take l (m_nodes b ! tmp) = take l (drop (tmp * ?n) (concat (m_nodes b)))"
      using take_drop_concat_blocks [OF assms(1) tmp, of 0 l] l(2) by simp
    have tail: "writeToFile_loop b (rs - l) (tmp * ?n + l) (Suc tmp) =
        Inr (take (rs - l) (drop (tmp * ?n + l) (concat (m_nodes b))))"
    proof (cases "rs \<le> ?n")
      case True
      then show ?thesis by (simp add: l_def)
    next
      case False
      then have "l = ?n" by (simp add: l_def)
      then show ?thesis
        using less.IH [of "rs - l" "Suc tmp"] less.prems l by (simp add: add.commute)
    qed
    have "take rs (drop (tmp * ?n) (concat (m_nodes b))) =
        take l (drop (tmp * ?n) (concat (m_nodes b))) @ take (rs - l) (drop (tmp * ?n + l) (concat (m_nodes b)))"
      using take_add [of l "rs - l" "drop (tmp * ?n) (concat (m_nodes b))"] l(3) by (simp add: add.commute)
    moreover have "writeToFile_loop b rs (tmp * ?n) tmp =
        rbind (writeToFile_loop b (rs - l) (tmp * ?n + l) (Suc tmp)) (\<lambda>bs. Inr (take l (m_nodes b ! tmp) @ bs))"
      using False assms tmp l(2)
      by (subst writeToFile_loop.simps) (simp add: Let_def l_def min_def not_le)
    ultimately show ?thesis using tail first by simp
  qed
qed

lemma writeToFile_spec:
  assumes inv: "ba_inv b" and "m_pos b mod m_baseSize b = 0"
  shows "writeToFile True b = Inr (True, Some (ba_unread b))"
proof (cases "getReadSize b = 0")
  case True
  then show ?thesis using length_ba_unread [OF inv] by (simp add: writeToFile_def)
next
  case False
  note b = ba_invD [OF inv]
  have r: "getReadSize b = m_size b - m_pos b" using b(5) by (simp add: getReadSize_def)
  have "m_pos b < m_cap b" using False r b(6) by simp
  from cursor_at_pos [OF inv this] assms(2) have at: "m_cur b * m_baseSize b = m_pos b" by simp
  have "m_cur b * m_baseSize b + (m_size b - m_pos b) \<le> m_baseSize b * length (m_nodes b)"
    unfolding at using b(4,5,6) by simp
  from writeToFile_loop_spec [OF b(3,1) this]
  have "writeToFile_loop b (getReadSize b) (m_pos b) (m_cur b) =
      Inr (take (m_size b - m_pos b) (drop (m_pos b) (concat (m_nodes b))))"
    by (simp add: at r)
  then show ?thesis
    by (simp add: writeToFile_def ba_unread_def ba_data_def drop_take)
qed

lemma readFromFile_loop_spec:
  assumes "ba_append_mode b"
  shows "\<exists>b'. readFromFile_loop contents b = Inr b' \<and> ba_appended b contents b'"
  using assms
proof (induction "length contents" arbitrary: contents b rule: less_induct)
  case less
  let ?n = "m_baseSize b"
  have n: "0 < ?n" using ba_inv_base less.prems ba_append_mode_inv by blast
  obtain b1 where b1: "write_bytes (take ?n contents) b = Inr b1" "ba_appended b (take ?n contents) b1"
    using write_bytes_appended [OF less.prems] by blast
  show ?case
  proof (cases "length contents < ?n")
    case True
    then show ?thesis using b1 n by (subst readFromFile_loop.simps) simp
  next
    case False
    then have "length (drop ?n contents) < length contents" using n by simp
    from less.hyps [OF this ba_appended_mode [OF b1(2)]]
    obtain b2 where b2: "readFromFile_loop (drop ?n contents) b1 = Inr b2"
        "ba_appended b1 (drop ?n contents) b2" by blast
    have "ba_appended b contents b2" using ba_appended_trans [OF b1(2) b2(2)] by simp
    moreover have "readFromFile_loop contents b = Inr b2"
      using False b1(1) b2(1) n by (subst readFromFile_loop.simps) simp
    ultimately show ?thesis by blast
  qed
qed

section \<open>Properties of the views\<close>

text \<open>
  \<^verbatim>\<open>getReadBuffers\<close> exposes exactly the next bytes: the vector it appends gathers the first
  \<open>len\<close> unread bytes (all of them when fewer are left), every entry lies inside its node, the result
  is the new number of entries, and the buffer itself is not moved.
\<close>

theorem getReadBuffers_gathers:
  assumes "ba_inv b"
  shows "if len = 0 \<or> ba_unread b = [] then getReadBuffers buffers len b = Inr (0, buffers)
         else \<exists>iovs. getReadBuffers buffers len b = Inr (length (buffers @ iovs), buffers @ iovs) \<and>
                iov_gather (m_nodes b) iovs = take len (ba_unread b) \<and>
                (\<forall>(i, off, l) \<in> set iovs. i < length (m_nodes b) \<and> off + l \<le> m_baseSize b)"
proof (cases "len = 0 \<or> ba_unread b = []")
  case True
  then have "getReadBuffers buffers len b = Inr (0, buffers)"
    using length_ba_unread [OF assms] by (auto simp: getReadBuffers_def)
  with True show ?thesis by simp
next
  case False
  then show ?thesis using getReadBuffers_spec [OF assms, of len buffers] by auto
qed

theorem getReadBuffers_gathers_witness:
  "getReadBuffers [(0, 0, 1)] 5 (new_ByteArray 4 0) = Inr (0, [(0, 0, 1)])"
  using getReadBuffers_gathers [of "new_ByteArray 4 0" 5 "[(0, 0, 1)]"]
    ba_append_mode_inv [OF new_ByteArray_append_mode [of 4 0]]
  by (simp add: ba_unread_def)

text \<open>
  Scatter input: \<^verbatim>\<open>getWriteBuffers(len)\<close> on a buffer that is being filled makes room for \<open>len\<close>
  bytes without changing its contents; when the system then stores any \<open>k \<le> len\<close> bytes through the
  vector and the caller moves the position by \<open>k\<close>, the buffer holds the old bytes followed by the
  \<open>k\<close> new ones.
\<close>

theorem getWriteBuffers_scatter:
  assumes "ba_append_mode b" and "length bs \<le> len" and "0 < len"
  shows "\<exists>iovs b1 b2. getWriteBuffers [] len b = Inr (length iovs, iovs, b1) \<and>
           sum_list (map (\<lambda>(i, off, l). l) iovs) = len \<and> ba_data b1 = ba_data b \<and>
           (\<forall>(i, off, l) \<in> set iovs. i < length (m_nodes b1) \<and> off + l \<le> m_baseSize b1) \<and>
           setPos (m_pos b1 + length bs) (b1\<lparr>m_nodes := iov_scatter iovs bs (m_nodes b1)\<rparr>) = Inr b2 \<and>
           ba_inv b2 \<and> ba_data b2 = ba_data b @ bs"
proof -
  obtain iovs b1 where get: "getWriteBuffers [] len b = Inr (length iovs, iovs, b1)"
      "sum_list (map (\<lambda>(i, off, l). l) iovs) = len" "ba_data b1 = ba_data b" "m_pos b1 = m_pos b"
      "\<forall>(i, off, l) \<in> set iovs. i < length (m_nodes b1) \<and> off + l \<le> m_baseSize b1"
      and fill: "\<forall>bs. length bs \<le> len \<longrightarrow>
              (\<exists>b2. setPos (m_pos b + length bs) (b1\<lparr>m_nodes := iov_scatter iovs bs (m_nodes b1)\<rparr>) = Inr b2 \<and>
                    ba_inv b2 \<and> ba_data b2 = ba_data b @ bs \<and> m_pos b2 = m_size b2 \<and> m_cap b2 = m_cap b1)"
    using getWriteBuffers_spec [of b len "[]"] assms by (auto simp: ba_append_mode_def)
  from fill assms(2) get show ?thesis by auto
qed

theorem getWriteBuffers_scatter_witness:
  "\<exists>iovs b1 b2. getWriteBuffers [] 3 (new_ByteArray 2 0) = Inr (length iovs, iovs, b1) \<and>
     setPos (m_pos b1 + 2) (b1\<lparr>m_nodes := iov_scatter iovs [7, 8] (m_nodes b1)\<rparr>) = Inr b2 \<and>
     ba_data b2 = [7, 8]"
proof -
  have "ba_append_mode (new_ByteArray 2 0)" by (rule new_ByteArray_append_mode) simp
  from getWriteBuffers_scatter [OF this, of "[7, 8]" 3] show ?thesis
    by (auto simp: eval_nat_numeral)
qed

text \<open>
  File transfer: from a position at the start of a node \<^verbatim>\<open>writeToFile\<close> puts the unread bytes
  into the file, and \<^verbatim>\<open>readFromFile\<close> on a fresh buffer with nodes of any size takes them all up
  again.
\<close>

theorem file_roundtrip:
  assumes "ba_inv b" and "m_pos b mod m_baseSize b = 0" and "0 < n"
  shows "\<exists>b'. writeToFile True b = Inr (True, Some (ba_unread b)) \<and>
           readFromFile (Some (ba_unread b)) (new_ByteArray n g) = Inr (True, b') \<and>
           ba_append_mode b' \<and> ba_data b' = ba_unread b"
  using writeToFile_spec [OF assms(1,2)]
    readFromFile_loop_spec [OF new_ByteArray_append_mode [OF assms(3), of g], of "ba_unread b"]
  by (auto simp: readFromFile_def ba_appended_def)

theorem file_roundtrip_witness:
  "\<exists>b'. writeToFile True \<lparr>m_baseSize = 2, m_pos = 0, m_cap = 4, m_size = 3, m_endian = 1,
            m_nodes = [[1, 2], [3, 0]], m_cur = 0, junk = 0\<rparr> = Inr (True, Some [1, 2, 3]) \<and>
     readFromFile (Some [1, 2, 3]) (new_ByteArray 3 0) = Inr (True, b') \<and> ba_data b' = [1, 2, 3]"
proof -
  let ?b = "\<lparr>m_baseSize = 2, m_pos = 0, m_cap = 4, m_size = 3, m_endian = 1,
            m_nodes = [[1, 2], [3, 0]], m_cur = 0, junk = 0\<rparr> :: bytearray"
  have "ba_inv ?b" by (simp add: ba_inv_def)
  moreover have "ba_unread ?b = [1, 2, 3]" by (simp add: ba_unread_def ba_data_def)
  ultimately show ?thesis using file_roundtrip [of ?b 3 0] by auto
qed

text \<open>
  From a position inside a node \<^verbatim>\<open>writeToFile\<close> goes wrong, because it subtracts the node offset
  from the number of bytes left. With the bytes 1, 2, 3, 4 in one node of four and the position at
  1, \<^verbatim>\<open>toString\<close> returns 2, 3, 4 and \<^verbatim>\<open>writeToFile\<close> runs off the end of the chain into the null
  pointer.
\<close>

theorem writeToFile_unaligned_fault:
  "\<exists>b1 b2. write_bytes [1, 2, 3, 4] (new_ByteArray 4 0) = Inr b1 \<and> setPos 1 b1 = Inr b2 \<and>
     toString b2 = Inr [2, 3, 4] \<and> writeToFile True b2 = Inl NullDeref"
proof -
  let ?b = "\<lambda>p. \<lparr>m_baseSize = 4, m_pos = p, m_cap = 4, m_size = 4, m_endian = SEAICE_BIG_ENDIAN,
              m_nodes = [[1, 2, 3, 4]], m_cur = 0, junk = 0\<rparr> :: bytearray"
  have inv: "ba_inv (?b p)" if "p < 4" for p using that by (simp add: ba_inv_def)
  have "write_bytes [1, 2, 3, 4] (new_ByteArray 4 0) = Inr (?b 4)"
    by (simp add: write_bytes_def addCapacity_def getCapacity_def new_ByteArray_def
        write_loop.simps overwrite_def)
  moreover have "setPos 1 (?b 4) = Inr (?b 1)" by (simp add: setPos_def)
  moreover have "toString (?b 1) = Inr [2, 3, 4]"
    using toString_spec [OF inv [of 1]] by (simp add: ba_unread_def ba_data_def)
  moreover have "writeToFile_loop (?b 1) 3 1 0 = Inl NullDeref"
    by (subst writeToFile_loop.simps, simp, subst writeToFile_loop.simps, simp)
  then have "writeToFile True (?b 1) = Inl NullDeref" by (simp add: writeToFile_def getReadSize_def)
  ultimately show ?thesis by blast
qed

end
