(* ===== verification/StreamIO.thy ===== *)
theory StreamIO imports ByteArrayViews begin

text \<open>
  Streams (\<^verbatim>\<open>seaice/stream.cpp\<close>, \<^verbatim>\<open>seaice/socketstream.cpp\<close>): the loops that transfer a fixed
  amount with calls that may transfer less, and the stream over a socket. The socket is a
  parameter, the record \<open>sock_ops\<close> of its calls on a state of any type: \<open>op_recv n s\<close> returns the
  result of \<^verbatim>\<open>recv\<close> for \<open>n\<close> bytes, the bytes it stored and the next state, \<open>op_send bs s\<close> the
  result of \<^verbatim>\<open>send\<close> and the next state. \<open>sock_contract\<close> is what the calls promise: bytes arrive in
  order, a call transfers at most what it was asked for and at least one byte while it can, and
  0 is returned at the end of the peer's data.
\<close>

section \<open>The socket\<close>

record 's sock_ops =
  op_connected :: "'s \<Rightarrow> bool"
  op_recv :: "nat \<Rightarrow> 's \<Rightarrow> int \<times> byte list \<times> 's"
  op_send :: "byte list \<Rightarrow> 's \<Rightarrow> int \<times> 's"
  op_close :: "'s \<Rightarrow> 's"

definition sock_contract :: "'s sock_ops \<Rightarrow> ('s \<Rightarrow> byte list) \<Rightarrow> ('s \<Rightarrow> byte list) \<Rightarrow> bool" where
  "sock_contract ops inc out \<longleftrightarrow>
     (\<forall>n s rt bs s'. op_recv ops n s = (rt, bs, s') \<longrightarrow> op_connected ops s \<longrightarrow>
        0 \<le> rt \<and> rt \<le> int n \<and> length bs = nat rt \<and> inc s = bs @ inc s' \<and> out s' = out s \<and>
        op_connected ops s' \<and> (0 < n \<longrightarrow> inc s \<noteq> [] \<longrightarrow> 0 < rt)) \<and>
     (\<forall>bs s rt s'. op_send ops bs s = (rt, s') \<longrightarrow> op_connected ops s \<longrightarrow>
        0 \<le> rt \<and> rt \<le> int (length bs) \<and> out s' = out s @ take (nat rt) bs \<and> inc s' = inc s \<and>
        op_connected ops s' \<and> (bs \<noteq> [] \<longrightarrow> 0 < rt))"

section \<open>Fixed-size transfers\<close>

text \<open>
  Reading into memory: \<open>rd\<close> is the virtual \<^verbatim>\<open>read\<close>; the result, the bytes stored and the stream.
  A call that claims more than it was asked for has overrun the buffer.
\<close>

function readFixSize_loop :: "(nat \<Rightarrow> 's \<Rightarrow> int \<times> byte list \<times> 's) \<Rightarrow> nat \<Rightarrow> nat \<Rightarrow> 's \<Rightarrow> fault + (int \<times> byte list \<times> 's)" where
  "readFixSize_loop rd amount left s =
     (if left = 0 then Inr (int amount, [], s)
      else case rd left s of (len, bs, s') \<Rightarrow>
        if len \<le> 0 then Inr (len, [], s')
        else if nat len > left then Inl OutOfBounds
        else rbind (readFixSize_loop rd amount (left - nat len) s')
               (\<lambda>(rt, bs', s''). Inr (rt, bs @ bs', s'')))"
  by pat_completeness auto
termination
  by (relation "measure (\<lambda>(rd, amount, left, s). left)") auto

declare readFixSize_loop.simps [simp del]

definition readFixSize :: "(nat \<Rightarrow> 's \<Rightarrow> int \<times> byte list \<times> 's) \<Rightarrow> nat \<Rightarrow> 's \<Rightarrow> fault + (int \<times> byte list \<times> 's)" where
  "readFixSize rd amount s = readFixSize_loop rd amount amount s"

function readFixSize_ba_loop ::
  "(nat \<Rightarrow> bytearray \<Rightarrow> 's \<Rightarrow> fault + (int \<times> bytearray \<times> 's)) \<Rightarrow> nat \<Rightarrow> nat \<Rightarrow> bytearray \<Rightarrow> 's \<Rightarrow>
     fault + (int \<times> bytearray \<times> 's)" where
  "readFixSize_ba_loop rd amount left b s =
     (if left = 0 then Inr (int amount, b, s)
      else case rd left b s of
        Inl e \<Rightarrow> Inl e
      | Inr (len, b', s') \<Rightarrow>
          if len \<le> 0 then Inr (len, b', s')
          else if nat len > left then Inl OutOfBounds
          else readFixSize_ba_loop rd amount (left - nat len) b' s')"
  by pat_completeness auto
termination
  by (relation "measure (\<lambda>(rd, amount, left, b, s). left)") auto

declare readFixSize_ba_loop.simps [simp del]

definition readFixSize_ba ::
  "(nat \<Rightarrow> bytearray \<Rightarrow> 's \<Rightarrow> fault + (int \<times> bytearray \<times> 's)) \<Rightarrow> nat \<Rightarrow> bytearray \<Rightarrow> 's \<Rightarrow>
     fault + (int \<times> bytearray \<times> 's)" where
  "readFixSize_ba rd amount b s = readFixSize_ba_loop rd amount amount b s"

text \<open>Writing; \<^verbatim>\<open>left\<close> is a signed integer here.\<close>

function writeFixSize_loop :: "(byte list \<Rightarrow> 's \<Rightarrow> int \<times> 's) \<Rightarrow> byte list \<Rightarrow> int \<Rightarrow> nat \<Rightarrow> 's \<Rightarrow> int \<times> 's" where
  "writeFixSize_loop wr buffer left offset s =
     (if left > 0 then
        (case wr (take (nat left) (drop offset buffer)) s of (len, s') \<Rightarrow>
           if len \<le> 0 then (len, s')
           else writeFixSize_loop wr buffer (left - len) (offset + nat len) s')
      else (int (length buffer), s))"
  by pat_completeness auto
termination
  by (relation "measure (\<lambda>(wr, buffer, left, offset, s). nat left)") auto

declare writeFixSize_loop.simps [simp del]

definition writeFixSize :: "(byte list \<Rightarrow> 's \<Rightarrow> int \<times> 's) \<Rightarrow> byte list \<Rightarrow> 's \<Rightarrow> int \<times> 's" where
  "writeFixSize wr buffer s = writeFixSize_loop wr buffer (int (length buffer)) 0 s"

function writeFixSize_ba_loop ::
  "(nat \<Rightarrow> bytearray \<Rightarrow> 's \<Rightarrow> fault + (int \<times> bytearray \<times> 's)) \<Rightarrow> nat \<Rightarrow> int \<Rightarrow> bytearray \<Rightarrow> 's \<Rightarrow>
     fault + (int \<times> bytearray \<times> 's)" where
  "writeFixSize_ba_loop wr amount left b s =
     (if left > 0 then
        (case wr (nat left) b s of
           Inl e \<Rightarrow> Inl e
         | Inr (len, b', s') \<Rightarrow>
             if len \<le> 0 then Inr (len, b', s')
             else writeFixSize_ba_loop wr amount (left - len) b' s')
      else Inr (int amount, b, s))"
  by pat_completeness auto
termination
  by (relation "measure (\<lambda>(wr, amount, left, b, s). nat left)") auto

declare writeFixSize_ba_loop.simps [simp del]

definition writeFixSize_ba ::
  "(nat \<Rightarrow> bytearray \<Rightarrow> 's \<Rightarrow> fault + (int \<times> bytearray \<times> 's)) \<Rightarrow> nat \<Rightarrow> bytearray \<Rightarrow> 's \<Rightarrow>
     fault + (int \<times> bytearray \<times> 's)" where
  "writeFixSize_ba wr amount b s = writeFixSize_ba_loop wr amount (int amount) b s"

section \<open>The stream over a socket\<close>

definition SocketStream_isConnected :: "'s sock_ops \<Rightarrow> 's \<Rightarrow> bool" where
  "SocketStream_isConnected ops s = op_connected ops s"

definition SocketStream_read :: "'s sock_ops \<Rightarrow> nat \<Rightarrow> 's \<Rightarrow> int \<times> byte list \<times> 's" where
  "SocketStream_read ops n s =
     (if \<not> SocketStream_isConnected ops s then (- 1, [], s) else op_recv ops n s)"

definition SocketStream_read_ba :: "'s sock_ops \<Rightarrow> nat \<Rightarrow> bytearray \<Rightarrow> 's \<Rightarrow> fault + (int \<times> bytearray \<times> 's)" where
  "SocketStream_read_ba ops n b s =
     (if \<not> SocketStream_isConnected ops s then Inr (- 1, b, s)
      else rbind (getWriteBuffers [] n b) (\<lambda>(_, buffers, b1).
        case op_recv ops (sum_list (map (\<lambda>(i, off, l). l) buffers)) s of (rt, bs, s') \<Rightarrow>
          let b2 = b1\<lparr>m_nodes := iov_scatter buffers bs (m_nodes b1)\<rparr> in
          if rt > 0 then rbind (setPos (m_pos b2 + nat rt) b2) (\<lambda>b3. Inr (rt, b3, s'))
          else Inr (rt, b2, s')))"

definition SocketStream_write :: "'s sock_ops \<Rightarrow> byte list \<Rightarrow> 's \<Rightarrow> int \<times> 's" where
  "SocketStream_write ops buffer s =
     (if \<not> SocketStream_isConnected ops s then (- 1, s) else op_send ops buffer s)"

definition SocketStream_close :: "'s sock_ops \<Rightarrow> 's \<Rightarrow> 's" where
  "SocketStream_close ops s = op_close ops s"

definition SocketStream_write_ba :: "'s sock_ops \<Rightarrow> nat \<Rightarrow> bytearray \<Rightarrow> 's \<Rightarrow> fault + (int \<times> bytearray \<times> 's)" where
  "SocketStream_write_ba ops n b s =
     (if \<not> SocketStream_isConnected ops s then Inr (- 1, b, s)
      else rbind (getReadBuffers [] n b) (\<lambda>(_, buffers).
        case op_send ops (iov_gather (m_nodes b) buffers) s of (rt, s') \<Rightarrow>
          if rt > 0 then rbind (setPos (m_pos b + nat rt) b) (\<lambda>b'. Inr (rt, b', s'))
          else Inr (rt, b, s')))"

section \<open>What a socket delivers\<close>

lemma sock_recvD:
  assumes "sock_contract ops inc out" and "op_connected ops s" and "op_recv ops n s = (rt, bs, s')"
  shows "0 \<le> rt" "rt \<le> int n" "length bs = nat rt" "inc s = bs @ inc s'" "out s' = out s"
    "op_connected ops s'" "0 < n \<Longrightarrow> inc s \<noteq> [] \<Longrightarrow> 0 < rt"
proof -
  from assms have "0 \<le> rt \<and> rt \<le> int n \<and> length bs = nat rt \<and> inc s = bs @ inc s' \<and> out s' = out s \<and>
        op_connected ops s' \<and> (0 < n \<longrightarrow> inc s \<noteq> [] \<longrightarrow> 0 < rt)"
    unfolding sock_contract_def by blast
  then show "0 \<le> rt" "rt \<le> int n" "length bs = nat rt" "inc s = bs @ inc s'" "out s' = out s"
    "op_connected ops s'" "0 < n \<Longrightarrow> inc s \<noteq> [] \<Longrightarrow> 0 < rt" by blast+
qed

lemma sock_sendD:
  assumes "sock_contract ops inc out" and "op_connected ops s" and "op_send ops bs s = (rt, s')"
  shows "0 \<le> rt" "rt \<le> int (length bs)" "out s' = out s @ take (nat rt) bs" "inc s' = inc s"
    "op_connected ops s'" "bs \<noteq> [] \<Longrightarrow> 0 < rt"
proof -
  from assms have "0 \<le> rt \<and> rt \<le> int (length bs) \<and> out s' = out s @ take (nat rt) bs \<and> inc s' = inc s \<and>
        op_connected ops s' \<and> (bs \<noteq> [] \<longrightarrow> 0 < rt)"
    unfolding sock_contract_def by blast
  then show "0 \<le> rt" "rt \<le> int (length bs)" "out s' = out s @ take (nat rt) bs" "inc s' = inc s"
    "op_connected ops s'" "bs \<noteq> [] \<Longrightarrow> 0 < rt" by blast+
qed

lemma readFixSize_loop_spec:
  assumes c: "sock_contract ops inc out" and conn: "op_connected ops s"
  shows "\<exists>s'. readFixSize_loop (SocketStream_read ops) n left s =
             Inr (if left \<le> length (inc s) then int n else 0, take left (inc s), s') \<and>
           inc s' = drop left (inc s) \<and> out s' = out s \<and> op_connected ops s'"
  using conn
proof (induction left arbitrary: s rule: less_induct)
  case (less left)
  show ?case
  proof (cases "left = 0")
    case True
    then show ?thesis using less.prems by (simp add: readFixSize_loop.simps [of _ _ 0])
  next
    case False
    obtain rt bs s1 where r: "op_recv ops left s = (rt, bs, s1)" by (metis prod_cases3)
    note d = sock_recvD [OF c less.prems(1) r]
    have rd: "SocketStream_read ops left s = (rt, bs, s1)"
      using r less.prems by (simp add: SocketStream_read_def SocketStream_isConnected_def)
    have inc1: "inc s1 = drop (nat rt) (inc s)" "bs = take (nat rt) (inc s)" using d(3,4) by auto
    have le: "nat rt \<le> length (inc s)" using d(3,4) by simp
    show ?thesis
    proof (cases "0 < rt")
      case True
      then have k: "0 < nat rt" "nat rt \<le> left" using d(2) by auto
      then have "left - nat rt < left" by simp
      from less.IH [OF this d(6)]
      obtain s2 where s2: "readFixSize_loop (SocketStream_read ops) n (left - nat rt) s1 =
            Inr (if left - nat rt \<le> length (inc s1) then int n else 0, take (left - nat rt) (inc s1), s2)"
          "inc s2 = drop (left - nat rt) (inc s1)" "out s2 = out s1" "op_connected ops s2" by auto
      have "take left (inc s) = bs @ take (left - nat rt) (inc s1)"
        using take_add [of "nat rt" "left - nat rt" "inc s"] k inc1 by simp
      moreover have "left - nat rt \<le> length (inc s1) \<longleftrightarrow> left \<le> length (inc s)"
        using inc1(1) le k(2) by auto
      moreover have "readFixSize_loop (SocketStream_read ops) n left s =
          Inr (if left - nat rt \<le> length (inc s1) then int n else 0, bs @ take (left - nat rt) (inc s1), s2)"
        using False rd True k s2(1) by (auto simp: readFixSize_loop.simps [of _ n left])
      ultimately show ?thesis using s2 d(5) inc1(1) k by auto
    next
      case zero: False
      then have "inc s = []" using d(7) False by blast
      with zero d(1,5,6) rd False inc1(1) show ?thesis
        by (simp add: readFixSize_loop.simps [of _ n left])
    qed
  qed
qed

text \<open>One read into a buffer.\<close>

lemma SocketStream_read_ba_spec:
  assumes c: "sock_contract ops inc out" and conn: "op_connected ops s"
    and b: "ba_inv b" "m_pos b = m_size b" "m_cur b < length (m_nodes b)" and n: "0 < n"
  shows "\<exists>rt b' s'. SocketStream_read_ba ops n b s = Inr (rt, b', s') \<and> 0 \<le> rt \<and> nat rt \<le> n \<and>
           (inc s \<noteq> [] \<longrightarrow> 0 < rt) \<and> (rt \<le> 0 \<longrightarrow> ba_data b' = ba_data b \<and> ba_inv b') \<and>
           (0 < rt \<longrightarrow> ba_inv b' \<and> m_pos b' = m_size b' \<and> m_pos b' + (n - nat rt) \<le> m_cap b' \<and>
              ba_data b' = ba_data b @ take (nat rt) (inc s)) \<and>
           inc s' = drop (nat rt) (inc s) \<and> nat rt \<le> length (inc s) \<and> out s' = out s \<and> op_connected ops s'"
proof -
  obtain iovs b1 where get: "getWriteBuffers [] n b = Inr (length iovs, iovs, b1)"
      "sum_list (map (\<lambda>(i, off, l). l) iovs) = n" "ba_inv b1" "ba_data b1 = ba_data b"
      "m_pos b1 = m_pos b" "m_pos b + n \<le> m_cap b1"
      and fill: "\<And>bs. length bs \<le> n \<Longrightarrow>
              \<exists>b2. setPos (m_pos b + length bs) (b1\<lparr>m_nodes := iov_scatter iovs bs (m_nodes b1)\<rparr>) = Inr b2 \<and>
                    ba_inv b2 \<and> ba_data b2 = ba_data b @ bs \<and> m_pos b2 = m_size b2 \<and> m_cap b2 = m_cap b1"
    using getWriteBuffers_spec [OF b n, of "[]"] by auto
  obtain rt bs s1 where r: "op_recv ops n s = (rt, bs, s1)" by (metis prod_cases3)
  note d = sock_recvD [OF c conn r]
  have inc1: "inc s1 = drop (nat rt) (inc s)" "bs = take (nat rt) (inc s)" "nat rt \<le> length (inc s)"
    using d(3,4) by auto
  show ?thesis
  proof (cases "0 < rt")
    case True
    have "length bs \<le> n" using d(2,3) by simp
    from fill [OF this] obtain b2 where b2:
      "setPos (m_pos b + nat rt) (b1\<lparr>m_nodes := iov_scatter iovs bs (m_nodes b1)\<rparr>) = Inr b2"
      "ba_inv b2" "ba_data b2 = ba_data b @ bs" "m_pos b2 = m_size b2" "m_cap b2 = m_cap b1"
      using d(3) by auto
    have "m_pos b2 = m_pos b + nat rt"
      using b2(3,4) length_ba_data [OF b2(2)] length_ba_data [OF b(1)] b(2) d(3) by simp
    then show ?thesis
      using True conn get(1,2,5,6) r b2 d(1,2,5,6) inc1 \<open>length bs \<le> n\<close> d(3)
      by (simp add: SocketStream_read_ba_def SocketStream_isConnected_def)
  next
    case False
    then have bs: "bs = []" "rt = 0" using d(1,3) by auto
    have [simp]: "iov_scatter iovs [] ns = ns" for ns
      by (induction iovs "[] :: byte list" ns rule: iov_scatter.induct) auto
    from False n show ?thesis
      using conn get r d(5,6,7) inc1(1) bs
      by (auto simp: SocketStream_read_ba_def SocketStream_isConnected_def)
  qed
qed

lemma readFixSize_ba_loop_spec:
  assumes c: "sock_contract ops inc out" and "op_connected ops s"
    and "ba_inv b" "m_pos b = m_size b" "left = 0 \<or> m_cur b < length (m_nodes b)"
  shows "\<exists>b' s'. readFixSize_ba_loop (SocketStream_read_ba ops) n left b s =
             Inr (if left \<le> length (inc s) then int n else 0, b', s') \<and> ba_inv b' \<and>
           ba_data b' = ba_data b @ take left (inc s) \<and>
           inc s' = drop left (inc s) \<and> out s' = out s \<and> op_connected ops s'"
  using assms(2-)
proof (induction left arbitrary: b s rule: less_induct)
  case (less left)
  show ?case
  proof (cases "left = 0")
    case True
    then show ?thesis using less.prems by (simp add: readFixSize_ba_loop.simps [of _ _ 0])
  next
    case False
    then obtain rt b1 s1 where r: "SocketStream_read_ba ops left b s = Inr (rt, b1, s1)"
      and rt: "0 \<le> rt" "nat rt \<le> left" "inc s \<noteq> [] \<Longrightarrow> 0 < rt"
      and zero: "rt \<le> 0 \<Longrightarrow> ba_data b1 = ba_data b \<and> ba_inv b1"
      and pos: "0 < rt \<Longrightarrow> ba_inv b1 \<and> m_pos b1 = m_size b1 \<and> m_pos b1 + (left - nat rt) \<le> m_cap b1 \<and>
              ba_data b1 = ba_data b @ take (nat rt) (inc s)"
      and s1: "inc s1 = drop (nat rt) (inc s)" "nat rt \<le> length (inc s)" "out s1 = out s" "op_connected ops s1"
      using SocketStream_read_ba_spec [OF c less.prems(1,2,3), of left] less.prems(4) by auto
    show ?thesis
    proof (cases "0 < rt")
      case True
      note p = pos [OF True]
      have cur: "left - nat rt = 0 \<or> m_cur b1 < length (m_nodes b1)"
        using p cursor_valid [of b1] by (cases "left - nat rt = 0") auto
      have "left - nat rt < left" using True False by simp
      from less.IH [OF this s1(4) _ _ cur] p
      obtain b2 s2 where "readFixSize_ba_loop (SocketStream_read_ba ops) n (left - nat rt) b1 s1 =
             Inr (if left - nat rt \<le> length (inc s1) then int n else 0, b2, s2)" "ba_inv b2"
           "ba_data b2 = ba_data b1 @ take (left - nat rt) (inc s1)"
           "inc s2 = drop (left - nat rt) (inc s1)" "out s2 = out s1" "op_connected ops s2" by auto
      moreover have "take left (inc s) = take (nat rt) (inc s) @ take (left - nat rt) (inc s1)"
        using take_add [of "nat rt" "left - nat rt" "inc s"] rt(2) s1(1) by simp
      moreover have "left - nat rt \<le> length (inc s1) \<longleftrightarrow> left \<le> length (inc s)"
        using s1(1,2) rt(2) by auto
      ultimately show ?thesis
        using False True r p rt(2) s1 by (subst readFixSize_ba_loop.simps) simp
    next
      case zero': False
      then have "inc s = []" using rt(3) by blast
      with zero' False zero r rt(1) s1 show ?thesis
        by (subst readFixSize_ba_loop.simps) simp
    qed
  qed
qed

lemma writeFixSize_loop_spec:
  assumes c: "sock_contract ops inc out" and "op_connected ops s"
    and "left = length buffer - offset" and "offset \<le> length buffer"
  shows "\<exists>s'. writeFixSize_loop (SocketStream_write ops) buffer (int left) offset s =
             (int (length buffer), s') \<and>
           out s' = out s @ drop offset buffer \<and> inc s' = inc s \<and> op_connected ops s'"
  using assms(2-)
proof (induction left arbitrary: offset s rule: less_induct)
  case (less left)
  show ?case
  proof (cases "left = 0")
    case True
    then show ?thesis using less.prems by (simp add: writeFixSize_loop.simps [of _ _ 0])
  next
    case False
    let ?bs = "drop offset buffer"
    obtain rt s1 where r: "op_send ops ?bs s = (rt, s1)" by fastforce
    note d = sock_sendD [OF c less.prems(1) r]
    have rt: "0 < rt" "nat rt \<le> left" using d(2,6) False less.prems(2) by auto
    have "left - nat rt < left" "left - nat rt = length buffer - (offset + nat rt)"
      "offset + nat rt \<le> length buffer"
      using rt less.prems(2) False by auto
    from less.IH [OF this(1) d(5) this(2,3)]
    obtain s2 where s2: "writeFixSize_loop (SocketStream_write ops) buffer (int (left - nat rt)) (offset + nat rt) s1 =
             (int (length buffer), s2)"
        "out s2 = out s1 @ drop (offset + nat rt) buffer" "inc s2 = inc s1" "op_connected ops s2" by blast
    have left: "int left - rt = int (left - nat rt)" using rt by simp
    have w: "SocketStream_write ops (take (nat (int left)) ?bs) s = (rt, s1)"
      using r less.prems(1,2) by (simp add: SocketStream_write_def SocketStream_isConnected_def)
    have pos: "(0 < int left) = True" "(rt \<le> 0) = False" using False rt(1) by simp_all
    have "writeFixSize_loop (SocketStream_write ops) buffer (int left) offset s =
        writeFixSize_loop (SocketStream_write ops) buffer (int (left - nat rt)) (offset + nat rt) s1"
      by (subst writeFixSize_loop.simps) (simp only: w left prod.case pos if_True if_False)
    moreover have "take (nat rt) ?bs @ drop (offset + nat rt) buffer = ?bs"
      using append_take_drop_id [of "nat rt" ?bs] by (simp add: add.commute)
    ultimately show ?thesis
      using s2 d(3,4) by simp
  qed
qed

lemma SocketStream_write_ba_spec:
  assumes c: "sock_contract ops inc out" and conn: "op_connected ops s" and b: "ba_inv b" and n: "0 < n"
  shows "\<exists>rt b' s'. SocketStream_write_ba ops n b s = Inr (rt, b', s') \<and> 0 \<le> rt \<and>
           nat rt \<le> n \<and> nat rt \<le> length (ba_unread b) \<and> (ba_unread b \<noteq> [] \<longrightarrow> 0 < rt) \<and>
           ba_inv b' \<and> ba_data b' = ba_data b \<and> ba_unread b' = drop (nat rt) (ba_unread b) \<and>
           out s' = out s @ take (nat rt) (ba_unread b) \<and> inc s' = inc s \<and> op_connected ops s'"
proof -
  obtain k buffers where get: "getReadBuffers [] n b = Inr (k, buffers)"
      "iov_gather (m_nodes b) buffers = take n (ba_unread b)"
  proof (cases "ba_unread b = []")
    case True
    then have "getReadSize b = 0" using length_ba_unread [OF b] by simp
    then have "getReadBuffers [] n b = Inr (0, [])" by (simp add: getReadBuffers_def)
    with that True show ?thesis by simp
  next
    case False
    with that getReadBuffers_spec [OF b False n, of "[]"] show ?thesis by auto
  qed
  obtain rt s1 where r: "op_send ops (take n (ba_unread b)) s = (rt, s1)" by fastforce
  note d = sock_sendD [OF c conn r]
  have rt: "nat rt \<le> n" "nat rt \<le> length (ba_unread b)" "take (nat rt) (take n (ba_unread b)) = take (nat rt) (ba_unread b)"
    using d(2) by auto
  have prog: "ba_unread b \<noteq> [] \<longrightarrow> 0 < rt" using d(6) n by (cases "ba_unread b") auto
  show ?thesis
  proof (cases "0 < rt")
    case True
    have "m_pos b + nat rt \<le> m_size b"
      using rt(2) length_ba_unread [OF b] ba_inv_pos [OF b] by (simp add: getReadSize_def)
    from setPos_within [OF b this] obtain b' where "setPos (m_pos b + nat rt) b = Inr b'"
        "ba_inv b'" "ba_data b' = ba_data b" "ba_unread b' = drop (nat rt) (ba_unread b)"
      by (auto simp: ba_unread_def add.commute)
    then show ?thesis
      using True get r d(1,3,4,5) rt prog conn
      by (simp add: SocketStream_write_ba_def SocketStream_isConnected_def)
  next
    case False
    then show ?thesis
      using get r d(1,3,4,5) rt prog conn b
      by (simp add: SocketStream_write_ba_def SocketStream_isConnected_def)
  qed
qed

lemma writeFixSize_ba_loop_spec:
  assumes c: "sock_contract ops inc out" and "op_connected ops s" and "ba_inv b"
  shows "\<exists>b' s'. writeFixSize_ba_loop (SocketStream_write_ba ops) n (int left) b s =
             Inr (if left \<le> length (ba_unread b) then int n else 0, b', s') \<and> ba_inv b' \<and>
           ba_data b' = ba_data b \<and> ba_unread b' = drop left (ba_unread b) \<and>
           out s' = out s @ take left (ba_unread b) \<and> inc s' = inc s \<and> op_connected ops s'"
  using assms(2-)
proof (induction left arbitrary: b s rule: less_induct)
  case (less left)
  show ?case
  proof (cases "left = 0")
    case True
    then show ?thesis using less.prems by (simp add: writeFixSize_ba_loop.simps [of _ _ 0])
  next
    case False
    then obtain rt b1 s1 where r: "SocketStream_write_ba ops left b s = Inr (rt, b1, s1)"
      and rt: "0 \<le> rt" "nat rt \<le> left" "nat rt \<le> length (ba_unread b)" "ba_unread b \<noteq> [] \<longrightarrow> 0 < rt"
      and b1: "ba_inv b1" "ba_data b1 = ba_data b" "ba_unread b1 = drop (nat rt) (ba_unread b)"
      and s1: "out s1 = out s @ take (nat rt) (ba_unread b)" "inc s1 = inc s" "op_connected ops s1"
      using SocketStream_write_ba_spec [OF c less.prems, of left] by auto
    show ?thesis
    proof (cases "0 < rt")
      case True
      have "left - nat rt < left" using True False by simp
      from less.IH [OF this s1(3) b1(1)]
      obtain b2 s2 where "writeFixSize_ba_loop (SocketStream_write_ba ops) n (int (left - nat rt)) b1 s1 =
             Inr (if left - nat rt \<le> length (ba_unread b1) then int n else 0, b2, s2)" "ba_inv b2"
           "ba_data b2 = ba_data b1" "ba_unread b2 = drop (left - nat rt) (ba_unread b1)"
           "out s2 = out s1 @ take (left - nat rt) (ba_unread b1)" "inc s2 = inc s1" "op_connected ops s2"
        by auto
      moreover have "take left (ba_unread b) = take (nat rt) (ba_unread b) @ take (left - nat rt) (ba_unread b1)"
        using take_add [of "nat rt" "left - nat rt" "ba_unread b"] rt(2) b1(3) by simp
      moreover have "left - nat rt \<le> length (ba_unread b1) \<longleftrightarrow> left \<le> length (ba_unread b)"
        using b1(3) rt(2,3) by auto
      moreover have left: "int left - rt = int (left - nat rt)" "nat (int left) = left"
        using rt(2) True by simp_all
      moreover have pos: "(0 < int left) = True" "(rt \<le> 0) = False" using False True by simp_all
      have "writeFixSize_ba_loop (SocketStream_write_ba ops) n (int left) b s =
          writeFixSize_ba_loop (SocketStream_write_ba ops) n (int (left - nat rt)) b1 s1"
        by (subst writeFixSize_ba_loop.simps) (simp only: r left sum.case prod.case pos if_True if_False)
      ultimately show ?thesis
        using b1(2,3) rt(2) s1 by simp
    next
      case zero: False
      then have "ba_unread b = []" using rt(4) by blast
      with zero False r rt(1) s1 b1 show ?thesis
        by (simp add: writeFixSize_ba_loop.simps [of _ n "int left"])
    qed
  qed
qed

text \<open>The four transfers, as their callers use them.\<close>

lemma readFixSize_spec:
  assumes "sock_contract ops inc out" and "op_connected ops s"
  shows "\<exists>s'. readFixSize (SocketStream_read ops) n s =
             Inr (if n \<le> length (inc s) then int n else 0, take n (inc s), s') \<and>
           inc s' = drop n (inc s) \<and> out s' = out s \<and> op_connected ops s'"
  using readFixSize_loop_spec [OF assms] unfolding readFixSize_def .

lemma writeFixSize_spec:
  assumes "sock_contract ops inc out" and "op_connected ops s"
  shows "\<exists>s'. writeFixSize (SocketStream_write ops) buffer s = (int (length buffer), s') \<and>
           out s' = out s @ buffer \<and> inc s' = inc s \<and> op_connected ops s'"
  using writeFixSize_loop_spec [OF assms, of "length buffer" buffer 0] by (simp add: writeFixSize_def)

section \<open>Properties\<close>

text \<open>A peer that delivers and accepts at most \<open>3\<close> bytes per call, for the concrete instances.\<close>

definition peer :: "(byte list \<times> byte list) sock_ops" where
  "peer = \<lparr>op_connected = (\<lambda>_. True),
           op_recv = (\<lambda>n (i, ob). let k = min 3 (min n (length i)) in (int k, take k i, (drop k i, ob))),
           op_send = (\<lambda>bs (i, ob). let k = min 3 (length bs) in (int k, (i, ob @ take k bs))),
           op_close = (\<lambda>s. s)\<rparr>"

lemma peer_contract: "sock_contract peer fst snd"
  by (auto simp: sock_contract_def peer_def Let_def min_def split: if_splits)

text \<open>
  \<^verbatim>\<open>readFixSize\<close> into a buffer over a socket that delivers the peer's bytes in pieces of any size:
  the call always returns; when the peer sends at least the amount asked for, the result is the
  amount and exactly these bytes were appended, the rest staying in the socket; when the peer closes
  early, the result is 0 and what came is in the buffer.
\<close>

theorem readFixSize_ba_delivers:
  assumes "sock_contract ops inc out" and "op_connected ops s" and "ba_append_mode b"
  shows "\<exists>b' s'. readFixSize_ba (SocketStream_read_ba ops) n b s =
             Inr (if n \<le> length (inc s) then int n else 0, b', s') \<and> ba_inv b' \<and>
           ba_data b' = ba_data b @ take n (inc s) \<and> inc s' = drop n (inc s) \<and> op_connected ops s'"
  using readFixSize_ba_loop_spec [OF assms(1,2), of b n n] assms(3)
  unfolding readFixSize_ba_def ba_append_mode_def by blast

theorem readFixSize_ba_delivers_witness:
  "\<exists>b' s'. readFixSize_ba (SocketStream_read_ba peer) 5 (new_ByteArray 2 0) ([1, 2, 3, 4, 5, 6], []) =
             Inr (5, b', s') \<and> ba_data b' = [1, 2, 3, 4, 5] \<and> fst s' = [6]"
proof -
  have "ba_append_mode (new_ByteArray 2 0)" by (rule new_ByteArray_append_mode) simp
  moreover have "op_connected peer ([1, 2, 3, 4, 5, 6], [])" by (simp add: peer_def)
  ultimately show ?thesis
    using readFixSize_ba_delivers [OF peer_contract, of "([1, 2, 3, 4, 5, 6], [])" "new_ByteArray 2 0" 5]
    by (auto simp: eval_nat_numeral)
qed

text \<open>
  \<^verbatim>\<open>writeFixSize\<close> over a socket that accepts any positive number of bytes per call hands over
  every byte once and in order: from memory it sends the whole block, from a buffer the next \<open>n\<close>
  unread bytes, moves the buffer behind them and returns \<open>n\<close>; asked for more than the buffer has,
  it sends all of it and returns 0.
\<close>

theorem writeFixSize_delivers:
  assumes "sock_contract ops inc out" and "op_connected ops s"
  shows "(\<exists>s'. writeFixSize (SocketStream_write ops) buffer s = (int (length buffer), s') \<and>
            out s' = out s @ buffer \<and> inc s' = inc s) \<and>
         (ba_inv b \<longrightarrow> (\<exists>b' s'. writeFixSize_ba (SocketStream_write_ba ops) n b s =
             Inr (if n \<le> length (ba_unread b) then int n else 0, b', s') \<and> ba_inv b' \<and>
           ba_data b' = ba_data b \<and> ba_unread b' = drop n (ba_unread b) \<and>
           out s' = out s @ take n (ba_unread b) \<and> inc s' = inc s))"
  using writeFixSize_loop_spec [OF assms, of "length buffer" buffer 0]
    writeFixSize_ba_loop_spec [OF assms, of b n n]
  unfolding writeFixSize_def writeFixSize_ba_def by auto

theorem writeFixSize_delivers_witness:
  "\<exists>s'. writeFixSize (SocketStream_write peer) [1, 2, 3, 4, 5] ([], [9]) = (5, s') \<and>
     snd s' = [9, 1, 2, 3, 4, 5]"
proof -
  have "op_connected peer ([], [9])" by (simp add: peer_def)
  from writeFixSize_delivers [OF peer_contract this, of "[1, 2, 3, 4, 5]"] show ?thesis by auto
qed

end
