(* ===== verification/ZlibStream.thy ===== *)
theory ZlibStream imports ByteArrayViews begin

text \<open>
  The compression stream (\<^verbatim>\<open>seaice/zlib_stream.cpp\<close>). The library zlib is a parameter: \<open>f zs
  input avail finish\<close> stands for one call of \<^verbatim>\<open>deflate\<close> or \<^verbatim>\<open>inflate\<close> on the state \<open>zs\<close> with \<open>input\<close>
  at \<^verbatim>\<open>next_in\<close>, \<open>avail\<close> bytes of room and the flush flag \<^verbatim>\<open>Z_FINISH\<close> or \<^verbatim>\<open>Z_NO_FLUSH\<close>; it returns the
  code, the bytes put out, the input left over and the next state. The stream collects the output in
  buffers of \<open>m_buffSize\<close> bytes. The loop that repeats the call while the room was used up may run for
  ever if the library keeps producing output, so it is a partial function.
\<close>

record 'z zlib_stream =
  z_encode :: bool
  z_buffSize :: nat
  z_zs :: 'z
  z_buffs :: "byte list list"

type_synonym 'z zcall = "'z \<Rightarrow> byte list \<Rightarrow> nat \<Rightarrow> bool \<Rightarrow> int \<times> byte list \<times> byte list \<times> 'z"

definition Z_OK :: int where "Z_OK = 0"

definition Z_STREAM_ERROR :: int where "Z_STREAM_ERROR = - 2"

datatype ztype = ZLIB | DEFLATE | GZIP

text \<open>\<^verbatim>\<open>init\<close>: the window bits handed to the library say which container is used.\<close>

definition z_window_bits :: "ztype \<Rightarrow> int \<Rightarrow> int" where
  "z_window_bits type window_bits =
     (case type of DEFLATE \<Rightarrow> - window_bits | GZIP \<Rightarrow> window_bits + 16 | ZLIB \<Rightarrow> window_bits)"

definition z_init :: "(int \<Rightarrow> int \<times> 'z) \<Rightarrow> bool \<Rightarrow> nat \<Rightarrow> ztype \<Rightarrow> int \<Rightarrow> int \<Rightarrow> int \<Rightarrow>
    fault + 'z zlib_stream option" where
  "z_init initz enc buff_size type level window_bits memlevel =
     (if \<not> ((0 \<le> level \<and> level \<le> 9) \<or> level = - 1) then Inl AssertFail
      else if \<not> (8 \<le> window_bits \<and> window_bits \<le> 15) then Inl AssertFail
      else if \<not> (0 \<le> memlevel \<and> memlevel \<le> 9) then Inl AssertFail
      else case initz (z_window_bits type window_bits) of (rt, zs) \<Rightarrow>
        if rt = Z_OK then Inr (Some \<lparr>z_encode = enc, z_buffSize = buff_size, z_zs = zs, z_buffs = []\<rparr>)
        else Inr None)"

definition CreateGzip :: "(int \<Rightarrow> int \<times> 'z) \<Rightarrow> bool \<Rightarrow> nat \<Rightarrow> fault + 'z zlib_stream option" where
  "CreateGzip initz enc buff_size = z_init initz enc buff_size GZIP (- 1) 15 8"

definition CreateZlib :: "(int \<Rightarrow> int \<times> 'z) \<Rightarrow> bool \<Rightarrow> nat \<Rightarrow> fault + 'z zlib_stream option" where
  "CreateZlib initz enc buff_size = z_init initz enc buff_size ZLIB (- 1) 15 8"

definition CreateDeflate :: "(int \<Rightarrow> int \<times> 'z) \<Rightarrow> bool \<Rightarrow> nat \<Rightarrow> fault + 'z zlib_stream option" where
  "CreateDeflate initz enc buff_size = z_init initz enc buff_size DEFLATE (- 1) 15 8"

text \<open>The buffer the next call fills: the last one while it has room, a new one otherwise.\<close>

definition z_room :: "'z zlib_stream \<Rightarrow> byte list list" where
  "z_room st =
     (if z_buffs st \<noteq> [] \<and> length (last (z_buffs st)) \<noteq> z_buffSize st then z_buffs st
      else z_buffs st @ [[]])"

partial_function (option) z_loop ::
  "'z zcall \<Rightarrow> bool \<Rightarrow> byte list \<Rightarrow> 'z zlib_stream \<Rightarrow> (int \<times> 'z zlib_stream) option" where
  "z_loop f finish input st =
     (let bufs = z_room st;
          avail = z_buffSize st - length (last bufs) in
      case f (z_zs st) input avail finish of (ret, out, rest, zs') \<Rightarrow>
        if ret = Z_STREAM_ERROR then Some (ret, st\<lparr>z_buffs := bufs, z_zs := zs'\<rparr>)
        else
          let st' = st\<lparr>z_buffs := butlast bufs @ [last bufs @ out], z_zs := zs'\<rparr> in
          if length out = avail then z_loop f finish rest st' else Some (ret, st'))"

declare z_loop.simps [code]

fun z_code :: "'z zcall \<Rightarrow> byte list list \<Rightarrow> bool \<Rightarrow> 'z zlib_stream \<Rightarrow> (int \<times> 'z zlib_stream) option" where
  "z_code f [] finish st = Some (Z_OK, st)"
| "z_code f (v # vs) finish st =
     (case z_loop f (finish \<and> vs = []) v st of
        None \<Rightarrow> None
      | Some (ret, st') \<Rightarrow>
          if ret = Z_STREAM_ERROR then Some (ret, st') else z_code f vs finish st')"

text \<open>
  \<^verbatim>\<open>encode\<close> and \<^verbatim>\<open>decode\<close> are the same code around \<^verbatim>\<open>deflate\<close> and \<^verbatim>\<open>inflate\<close>; the direction of
  the stream selects one of the two library functions \<open>lib\<close>.
\<close>

definition z_call :: "'z zcall \<times> 'z zcall \<Rightarrow> bool \<Rightarrow> 'z zcall" where
  "z_call lib enc = (if enc then fst lib else snd lib)"

definition ZlibStream_write :: "'z zcall \<times> 'z zcall \<Rightarrow> byte list \<Rightarrow> 'z zlib_stream \<Rightarrow>
    (int \<times> 'z zlib_stream) option" where
  "ZlibStream_write lib buffer st = z_code (z_call lib (z_encode st)) [buffer] False st"

definition ZlibStream_write_ba :: "'z zcall \<times> 'z zcall \<Rightarrow> bytearray \<Rightarrow> nat \<Rightarrow> 'z zlib_stream \<Rightarrow>
    fault + (int \<times> 'z zlib_stream) option" where
  "ZlibStream_write_ba lib b n st =
     rbind (getReadBuffers [] n b) (\<lambda>(_, buffers).
       Inr (z_code (z_call lib (z_encode st)) (map (\<lambda>v. iov_gather (m_nodes b) [v]) buffers) False st))"

definition ZlibStream_flush :: "'z zcall \<times> 'z zcall \<Rightarrow> 'z zlib_stream \<Rightarrow> (int \<times> 'z zlib_stream) option" where
  "ZlibStream_flush lib st = z_code (z_call lib (z_encode st)) [[]] True st"

definition ZlibStream_read :: "nat \<Rightarrow> fault + byte list" where
  "ZlibStream_read n = Inl LogicError"

definition ZlibStream_getResult :: "'z zlib_stream \<Rightarrow> byte list" where
  "ZlibStream_getResult st = concat (z_buffs st)"

definition ZlibStream_getByteArray :: "'z zlib_stream \<Rightarrow> fault + bytearray" where
  "ZlibStream_getByteArray st =
     rbind (put_all write_bytes (z_buffs st) (new_ByteArray 4096 0)) (setPos 0)"

section \<open>The buffers\<close>

text \<open>No buffer is longer than the buffer size and every one but the last is full.\<close>

definition z_inv :: "'z zlib_stream \<Rightarrow> bool" where
  "z_inv st \<longleftrightarrow> 0 < z_buffSize st \<and> (\<forall>v \<in> set (butlast (z_buffs st)). length v = z_buffSize st) \<and>
     (z_buffs st \<noteq> [] \<longrightarrow> length (last (z_buffs st)) \<le> z_buffSize st)"

text \<open>A library call never uses more room than it is given.\<close>

definition zcall_ok :: "'z zcall \<Rightarrow> bool" where
  "zcall_ok f \<longleftrightarrow> (\<forall>zs input avail finish ret out rest zs'.
     f zs input avail finish = (ret, out, rest, zs') \<longrightarrow> length out \<le> avail)"

lemma z_room_inv:
  assumes "z_inv st"
  shows "\<forall>v \<in> set (butlast (z_room st)). length v = z_buffSize st"
    and "length (last (z_room st)) < z_buffSize st" and "z_room st \<noteq> []"
    and "concat (z_room st) = concat (z_buffs st)"
proof -
  show "z_room st \<noteq> []" "concat (z_room st) = concat (z_buffs st)"
    by (auto simp: z_room_def)
  show "length (last (z_room st)) < z_buffSize st"
    using assms by (auto simp: z_room_def z_inv_def)
  show "\<forall>v \<in> set (butlast (z_room st)). length v = z_buffSize st"
  proof (cases "z_buffs st" rule: rev_cases)
    case Nil
    then show ?thesis by (simp add: z_room_def)
  next
    case (snoc ys y)
    then show ?thesis using assms by (auto simp: z_room_def z_inv_def butlast_append split: if_splits)
  qed
qed

lemma concat_butlast_last: "xs \<noteq> [] \<Longrightarrow> concat (butlast xs @ [last xs @ ys]) = concat xs @ ys"
  by (cases xs rule: rev_cases) auto

definition z_extends :: "'z zcall \<Rightarrow> 'z zlib_stream \<Rightarrow> int \<times> 'z zlib_stream \<Rightarrow> bool" where
  "z_extends f st r \<longleftrightarrow> (zcall_ok f \<longrightarrow> z_inv st \<longrightarrow>
     z_inv (snd r) \<and> z_buffSize (snd r) = z_buffSize st \<and>
     (\<exists>out. concat (z_buffs (snd r)) = concat (z_buffs st) @ out))"

lemma z_loop_extends:
  assumes "z_loop f finish input st = Some r"
  shows "z_extends f st r"
proof (rule z_loop.raw_induct [where P = "\<lambda>f finish input st r. z_extends f st r", OF _ assms])
  fix rec and f :: "'z zcall" and finish input st r
  assume hyp: "\<And>f finish input st r. rec f finish input st = Some r \<Longrightarrow> z_extends f st r"
    and body: "(let bufs = z_room st; avail = z_buffSize st - length (last bufs) in
      case f (z_zs st) input avail finish of (ret, out, rest, zs') \<Rightarrow>
        if ret = Z_STREAM_ERROR then Some (ret, st\<lparr>z_buffs := bufs, z_zs := zs'\<rparr>)
        else let st' = st\<lparr>z_buffs := butlast bufs @ [last bufs @ out], z_zs := zs'\<rparr> in
          if length out = avail then rec f finish rest st' else Some (ret, st')) = Some r"
  show "z_extends f st r"
    unfolding z_extends_def
  proof (intro impI)
    assume f: "zcall_ok f" and inv: "z_inv st"
    note room = z_room_inv [OF inv]
    let ?avail = "z_buffSize st - length (last (z_room st))"
    obtain ret out rest zs' where c: "f (z_zs st) input ?avail finish = (ret, out, rest, zs')"
      by (metis prod_cases4)
    have out: "length out \<le> ?avail" using f c unfolding zcall_ok_def by blast
    let ?st = "st\<lparr>z_buffs := butlast (z_room st) @ [last (z_room st) @ out], z_zs := zs'\<rparr>"
    have inv': "z_inv ?st" using inv room out by (auto simp: z_inv_def)
    have cat: "concat (z_buffs ?st) = concat (z_buffs st) @ out"
      using concat_butlast_last [OF room(3), of out] room(4) by simp
    have err: "z_inv (st\<lparr>z_buffs := z_room st, z_zs := zs'\<rparr>)"
      using inv room by (auto simp: z_inv_def)
    show "z_inv (snd r) \<and> z_buffSize (snd r) = z_buffSize st \<and>
       (\<exists>out. concat (z_buffs (snd r)) = concat (z_buffs st) @ out)"
    proof (cases "ret \<noteq> Z_STREAM_ERROR \<and> length out = ?avail")
      case True
      then have "rec f finish rest ?st = Some r" using body c by (simp add: Let_def)
      from hyp [OF this] f inv' obtain o2 where o2: "z_inv (snd r)" "z_buffSize (snd r) = z_buffSize st"
          "concat (z_buffs (snd r)) = concat (z_buffs ?st) @ o2"
        unfolding z_extends_def by auto
      then have "concat (z_buffs (snd r)) = concat (z_buffs st) @ (out @ o2)"
        by (simp only: cat append_assoc)
      with o2 show ?thesis by blast
    next
      case False
      then have "snd r = st\<lparr>z_buffs := z_room st, z_zs := zs'\<rparr> \<or> snd r = ?st"
        using body c by (auto simp: Let_def split: if_splits)
      then show ?thesis
      proof
        assume "snd r = st\<lparr>z_buffs := z_room st, z_zs := zs'\<rparr>"
        with err room(4) show ?thesis by simp
      next
        assume r: "snd r = ?st"
        have "\<exists>o'. concat (z_buffs ?st) = concat (z_buffs st) @ o'" using cat by blast
        with inv' show ?thesis unfolding r by simp
      qed
    qed
  qed
qed

lemma z_loop_inv:
  assumes "z_loop f finish input st = Some (ret, st')" and "zcall_ok f" and "z_inv st"
  shows "z_inv st'" "z_buffSize st' = z_buffSize st" "\<exists>out. concat (z_buffs st') = concat (z_buffs st) @ out"
  using z_loop_extends [OF assms(1)] assms(2,3) by (auto simp: z_extends_def)

lemma z_code_inv:
  assumes "z_code f vs finish st = Some (ret, st')" and "zcall_ok f" and "z_inv st"
  shows "z_inv st' \<and> z_buffSize st' = z_buffSize st \<and> (\<exists>out. concat (z_buffs st') = concat (z_buffs st) @ out)"
  using assms
proof (induction vs arbitrary: st)
  case Nil
  then show ?case by simp
next
  case (Cons v vs)
  then obtain r1 st1 where 1: "z_loop f (finish \<and> vs = []) v st = Some (r1, st1)"
    by (auto split: option.splits prod.splits)
  note inv = z_loop_inv [OF 1 Cons.prems(2,3)]
  show ?case
  proof (cases "r1 = Z_STREAM_ERROR")
    case True
    then show ?thesis using Cons.prems(1) 1 inv by simp
  next
    case False
    then have "z_code f vs finish st1 = Some (ret, st')" using Cons.prems(1) 1 by simp
    from Cons.IH [OF this Cons.prems(2) inv(1)] inv(2,3) show ?thesis by auto
  qed
qed

text \<open>The direction of a stream never changes.\<close>

lemma z_loop_encode:
  assumes "z_loop f finish input st = Some r"
  shows "z_encode (snd r) = z_encode st"
proof (rule z_loop.raw_induct [where P = "\<lambda>f finish input st r. z_encode (snd r) = z_encode st", OF _ assms])
  fix rec and f :: "'z zcall" and finish input st r
  assume hyp: "\<And>f finish input st r. rec f finish input st = Some r \<Longrightarrow> z_encode (snd r) = z_encode st"
    and body: "(let bufs = z_room st; avail = z_buffSize st - length (last bufs) in
      case f (z_zs st) input avail finish of (ret, out, rest, zs') \<Rightarrow>
        if ret = Z_STREAM_ERROR then Some (ret, st\<lparr>z_buffs := bufs, z_zs := zs'\<rparr>)
        else let st' = st\<lparr>z_buffs := butlast bufs @ [last bufs @ out], z_zs := zs'\<rparr> in
          if length out = avail then rec f finish rest st' else Some (ret, st')) = Some r"
  then show "z_encode (snd r) = z_encode st"
    by (auto simp: Let_def split: prod.splits if_splits dest: hyp)
qed

lemma z_code_encode: "z_code f vs finish st = Some (ret, st') \<Longrightarrow> z_encode st' = z_encode st"
  by (induction vs arbitrary: st) (auto split: option.splits prod.splits if_splits dest: z_loop_encode)

text \<open>
  The compression stream loses nothing of what the library puts out: a sequence of \<^verbatim>\<open>write\<close> and
  a \<^verbatim>\<open>flush\<close>, when the library's calls come to an end, keep every output buffer within the buffer
  size and all but the last full, only ever extend the result, and \<^verbatim>\<open>getByteArray\<close> is a buffer at
  position 0 whose unread bytes are exactly \<^verbatim>\<open>getResult\<close>.
\<close>

theorem zlib_stream_collects:
  assumes "zcall_ok (fst lib)" and "zcall_ok (snd lib)" and "z_inv st"
    and "ZlibStream_write lib input st = Some (rt, st1)" and "ZlibStream_flush lib st1 = Some (rt', st2)"
  shows "z_inv st2 \<and> (\<exists>out. ZlibStream_getResult st2 = ZlibStream_getResult st1 @ out) \<and>
         (\<exists>b. ZlibStream_getByteArray st2 = Inr b \<and> ba_inv b \<and> m_pos b = 0 \<and>
              ba_unread b = ZlibStream_getResult st2)"
proof -
  have f: "zcall_ok (z_call lib enc)" for enc using assms(1,2) by (simp add: z_call_def)
  have 1: "z_inv st1"
    using z_code_inv [OF _ f assms(3)] assms(4) unfolding ZlibStream_write_def by blast
  have 2: "z_inv st2" "\<exists>out. ZlibStream_getResult st2 = ZlibStream_getResult st1 @ out"
    using z_code_inv [OF _ f 1] assms(5)
    unfolding ZlibStream_flush_def ZlibStream_getResult_def by blast+
  let ?b = "new_ByteArray 4096 0"
  have mode: "ba_append_mode ?b" by (rule new_ByteArray_append_mode) simp
  obtain b1 where b1: "put_all write_bytes (z_buffs st2) ?b = Inr b1" "ba_appended ?b (concat (z_buffs st2)) b1"
    using put_all_write_bytes [OF mode] by blast
  have "ba_inv b1" "ba_data b1 = concat (z_buffs st2)"
    using b1(2) by (auto simp: ba_appended_def ba_append_mode_def)
  with setPos_within [of b1 0] obtain b2 where
    "setPos 0 b1 = Inr b2" "ba_inv b2" "ba_unread b2 = concat (z_buffs st2)" "m_pos b2 = 0" by auto
  then have "\<exists>b. ZlibStream_getByteArray st2 = Inr b \<and> ba_inv b \<and> m_pos b = 0 \<and>
              ba_unread b = ZlibStream_getResult st2"
    using b1(1) by (simp add: ZlibStream_getByteArray_def ZlibStream_getResult_def)
  with 2 show ?thesis by blast
qed

text \<open>A library that stores its input: it puts out what fits and keeps the rest.\<close>

definition stored :: "unit zcall" where
  "stored zs input avail finish = (Z_OK, take avail input, drop avail input, ())"

theorem zlib_stream_collects_witness:
  "\<exists>b. ZlibStream_getByteArray
     \<lparr>z_encode = True, z_buffSize = 2, z_zs = (), z_buffs = [[1, 2], [3]]\<rparr> = Inr b \<and>
     m_pos b = 0 \<and> ba_unread b = [1, 2, 3]"
proof -
  let ?st = "\<lambda>bs. \<lparr>z_encode = True, z_buffSize = 2, z_zs = (), z_buffs = bs\<rparr> :: unit zlib_stream"
  have "ZlibStream_write (stored, stored) [1, 2, 3] (?st []) = Some (Z_OK, ?st [[1, 2], [3]])"
    by (simp add: ZlibStream_write_def z_call_def z_loop.simps z_room_def stored_def Z_OK_def Z_STREAM_ERROR_def)
  moreover have "ZlibStream_flush (stored, stored) (?st [[1, 2], [3]]) = Some (Z_OK, ?st [[1, 2], [3]])"
    by (simp add: ZlibStream_flush_def z_call_def z_loop.simps z_room_def stored_def Z_OK_def Z_STREAM_ERROR_def)
  moreover have "zcall_ok stored" by (simp add: zcall_ok_def stored_def)
  moreover have "z_inv (?st [])" by (simp add: z_inv_def)
  ultimately have "\<exists>b. ZlibStream_getByteArray (?st [[1, 2], [3]]) = Inr b \<and> ba_inv b \<and> m_pos b = 0 \<and>
      ba_unread b = ZlibStream_getResult (?st [[1, 2], [3]])"
    using zlib_stream_collects [of "(stored, stored)"] by auto
  then show ?thesis by (auto simp: ZlibStream_getResult_def)
qed

end
