(* ===== verification/RockProtocol.thy ===== *)
theory RockProtocol imports StreamIO ZlibStream begin

text \<open>
  The message protocol (\<^verbatim>\<open>seaice/protocol.cpp\<close>, \<^verbatim>\<open>seaice/rock/rock_protocol.cpp\<close>): the three kinds of
  messages, their serialisation into a \<^verbatim>\<open>ByteArray\<close>, the frame header and the decoder that moves
  messages over a stream. The socket, zlib and the two configuration values are parameters in the
  record \<open>rock_env\<close>.
\<close>

section \<open>Messages\<close>

datatype message =
    RockRequest (msg_sn: u32) (msg_cmd: u32) (msg_body: "byte list")
  | RockResponse (msg_sn: u32) (msg_cmd: u32) (msg_result: u32) (msg_resultStr: "byte list") (msg_body: "byte list")
  | RockNotify (msg_notify: u32) (msg_body: "byte list")

definition REQUEST :: byte where "REQUEST = 1"

definition RESPONSE :: byte where "RESPONSE = 2"

definition NOTIFY :: byte where "NOTIFY = 3"

lemmas message_types = REQUEST_def RESPONSE_def NOTIFY_def

primrec getType :: "message \<Rightarrow> byte" where
  "getType (RockRequest sn cmd body) = REQUEST"
| "getType (RockResponse sn cmd result resultStr body) = RESPONSE"
| "getType (RockNotify notify body) = NOTIFY"

primrec getName :: "message \<Rightarrow> string" where
  "getName (RockRequest sn cmd body) = ''RockRequest''"
| "getName (RockResponse sn cmd result resultStr body) = ''RockResponse''"
| "getName (RockNotify notify body) = ''RockNotify''"

definition Request_serialize :: "byte \<Rightarrow> u32 \<Rightarrow> u32 \<Rightarrow> bytearray \<Rightarrow> fault + bytearray" where
  "Request_serialize type sn cmd ba =
     rbind (writeFuint8 type ba) (\<lambda>ba. rbind (writeUint32 sn ba) (writeUint32 cmd))"

definition Request_parse :: "bytearray \<Rightarrow> fault + ((u32 \<times> u32) \<times> bytearray)" where
  "Request_parse ba =
     rbind (readUint32 ba) (\<lambda>(sn, ba). rbind (readUint32 ba) (\<lambda>(cmd, ba). Inr ((sn, cmd), ba)))"

definition Response_serialize :: "byte \<Rightarrow> u32 \<Rightarrow> u32 \<Rightarrow> u32 \<Rightarrow> byte list \<Rightarrow> bytearray \<Rightarrow> fault + bytearray" where
  "Response_serialize type sn cmd result resultStr ba =
     rbind (writeFuint8 type ba) (\<lambda>ba. rbind (writeUint32 sn ba) (\<lambda>ba.
     rbind (writeUint32 cmd ba) (\<lambda>ba. rbind (writeUint32 result ba) (writeStringVint resultStr))))"

definition Response_parse :: "bytearray \<Rightarrow> fault + ((u32 \<times> u32 \<times> u32 \<times> byte list) \<times> bytearray)" where
  "Response_parse ba =
     rbind (readUint32 ba) (\<lambda>(sn, ba). rbind (readUint32 ba) (\<lambda>(cmd, ba).
     rbind (readUint32 ba) (\<lambda>(result, ba). rbind (readStringVint ba) (\<lambda>(resultStr, ba).
       Inr ((sn, cmd, result, resultStr), ba)))))"

definition Notify_serialize :: "byte \<Rightarrow> u32 \<Rightarrow> bytearray \<Rightarrow> fault + bytearray" where
  "Notify_serialize type notify ba = rbind (writeFuint8 type ba) (writeUint32 notify)"

definition Notify_parse :: "bytearray \<Rightarrow> fault + (u32 \<times> bytearray)" where
  "Notify_parse ba = readUint32 ba"

definition RockBody_serialize :: "byte list \<Rightarrow> bytearray \<Rightarrow> fault + bytearray" where
  "RockBody_serialize body ba = writeStringVint body ba"

definition RockBody_parse :: "bytearray \<Rightarrow> fault + (byte list \<times> bytearray)" where
  "RockBody_parse ba = readStringVint ba"

text \<open>\<^verbatim>\<open>try { .. } catch(...) { } return false\<close>: \<open>None\<close> is the result \<^verbatim>\<open>false\<close>.\<close>

definition try_or_false :: "fault + 'a \<Rightarrow> fault + 'a option" where
  "try_or_false m = (case m of Inr x \<Rightarrow> Inr (Some x)
                             | Inl e \<Rightarrow> if is_exception e then Inr None else Inl e)"

primrec serializeToByteArray :: "message \<Rightarrow> bytearray \<Rightarrow> fault + bytearray option" where
  "serializeToByteArray (RockRequest sn cmd body) ba =
     try_or_false (rbind (Request_serialize REQUEST sn cmd ba) (RockBody_serialize body))"
| "serializeToByteArray (RockResponse sn cmd result resultStr body) ba =
     try_or_false (rbind (Response_serialize RESPONSE sn cmd result resultStr ba) (RockBody_serialize body))"
| "serializeToByteArray (RockNotify notify body) ba =
     try_or_false (rbind (Notify_serialize NOTIFY notify ba) (RockBody_serialize body))"

definition RockRequest_parse :: "bytearray \<Rightarrow> fault + message option" where
  "RockRequest_parse ba = try_or_false
     (rbind (Request_parse ba) (\<lambda>((sn, cmd), ba).
      rbind (RockBody_parse ba) (\<lambda>(body, ba). Inr (RockRequest sn cmd body))))"

definition RockResponse_parse :: "bytearray \<Rightarrow> fault + message option" where
  "RockResponse_parse ba = try_or_false
     (rbind (Response_parse ba) (\<lambda>((sn, cmd, result, resultStr), ba).
      rbind (RockBody_parse ba) (\<lambda>(body, ba). Inr (RockResponse sn cmd result resultStr body))))"

definition RockNotify_parse :: "bytearray \<Rightarrow> fault + message option" where
  "RockNotify_parse ba = try_or_false
     (rbind (Notify_parse ba) (\<lambda>(notify, ba).
      rbind (RockBody_parse ba) (\<lambda>(body, ba). Inr (RockNotify notify body))))"

definition toByteArray :: "message \<Rightarrow> fault + bytearray option" where
  "toByteArray msg = serializeToByteArray msg (new_ByteArray 4096 0)"

section \<open>The frame header\<close>

record rock_header =
  h_magic :: "byte list"
  h_version :: byte
  h_flag :: byte
  h_length :: u32

definition RockMsgHeader :: rock_header where
  "RockMsgHeader = \<lparr>h_magic = [0xab, 0xcd], h_version = 1, h_flag = 0, h_length = 0\<rparr>"

text \<open>The header as it lies in memory, and the header read into that memory.\<close>

definition header_bytes :: "rock_header \<Rightarrow> byte list" where
  "header_bytes h = h_magic h @ [h_version h, h_flag h] @ le_bytes (h_length h)"

definition header_of :: "byte list \<Rightarrow> rock_header" where
  "header_of bs = \<lparr>h_magic = take 2 bs, h_version = bs ! 2, h_flag = bs ! 3,
                   h_length = le_word (take 4 (drop 4 bs))\<rparr>"

definition s_rock_magic :: "byte list" where "s_rock_magic = [0xab, 0xcd]"

definition isRockMessageHeaderValid :: "u32 \<Rightarrow> rock_header \<Rightarrow> bool \<times> rock_header" where
  "isRockMessageHeaderValid max_length header =
     (if h_magic header \<noteq> s_rock_magic then (False, header)
      else if h_version header \<noteq> 1 then (False, header)
      else
        let header' = header\<lparr>h_length := byteswapOnLittleEndian (h_length header)\<rparr> in
        if h_length header' \<ge> max_length then (False, header') else (True, header'))"

section \<open>The decoder\<close>

record ('s, 'z) rock_env =
  r_sock :: "'s sock_ops"
  r_max_length :: u32
  r_min_length :: u32
  r_deflateInit :: "int \<Rightarrow> int \<times> 'z"
  r_deflate :: "'z zcall"
  r_inflateInit :: "int \<Rightarrow> int \<times> 'z"
  r_inflate :: "'z zcall"

definition rock_zlib :: "('s, 'z) rock_env \<Rightarrow> 'z zcall \<times> 'z zcall" where
  "rock_zlib env = (r_deflate env, r_inflate env)"

text \<open>
  A buffer sent through a fresh gzip stream; \<open>finish_error\<close> says whether a failing \<^verbatim>\<open>flush\<close> ends
  it. \<open>None\<close> is a call of the library that does not come to an end, \<open>Some (Inr None)\<close> an error
  code.
\<close>

definition through_gzip ::
  "(int \<Rightarrow> int \<times> 'z) \<Rightarrow> 'z zcall \<times> 'z zcall \<Rightarrow> bool \<Rightarrow> bool \<Rightarrow> bytearray \<Rightarrow>
    (fault + bytearray option) option" where
  "through_gzip initz lib enc finish_error ba =
     (case CreateGzip initz enc 4096 of
        Inl e \<Rightarrow> Some (Inl e)
      | Inr None \<Rightarrow> Some (Inl NullDeref)
      | Inr (Some st) \<Rightarrow>
          (case ZlibStream_write_ba lib ba (m_size ba) st of
             Inl e \<Rightarrow> Some (Inl e)
           | Inr None \<Rightarrow> None
           | Inr (Some (rt, st1)) \<Rightarrow>
               if rt \<noteq> Z_OK then Some (Inr None)
               else case ZlibStream_flush lib st1 of
                 None \<Rightarrow> None
               | Some (rt', st2) \<Rightarrow>
                   if rt' \<noteq> Z_OK \<and> finish_error then Some (Inr None)
                   else Some (rbind (ZlibStream_getByteArray st2) (\<lambda>b. Inr (Some b)))))"

text \<open>The switch over the type byte.\<close>

definition parse_message :: "bytearray \<Rightarrow> fault + message option" where
  "parse_message ba =
     rbind (readFuint8 ba) (\<lambda>(type, ba).
       if type = REQUEST then RockRequest_parse ba
       else if type = RESPONSE then RockResponse_parse ba
       else if type = NOTIFY then RockNotify_parse ba
       else Inr None)"

text \<open>The \<^verbatim>\<open>try\<close> block around the decoder, at the stream state \<open>s\<close>.\<close>

definition try_or_null :: "'s \<Rightarrow> fault + 'a option \<Rightarrow> fault + ('a option \<times> 's)" where
  "try_or_null s m = (case m of Inr x \<Rightarrow> Inr (x, s)
                              | Inl e \<Rightarrow> if is_exception e then Inr (None, s) else Inl e)"

definition parseFrom :: "('s, 'z) rock_env \<Rightarrow> 's \<Rightarrow> (fault + (message option \<times> 's)) option" where
  "parseFrom env s =
     (case readFixSize (SocketStream_read (r_sock env)) 8 s of
        Inl e \<Rightarrow> Some (Inl e)
      | Inr (rt, bs, s1) \<Rightarrow>
          if rt \<le> 0 then Some (Inr (None, s1))
          else
            (case isRockMessageHeaderValid (r_max_length env) (header_of bs) of (valid, header) \<Rightarrow>
              if \<not> valid then Some (Inr (None, s1))
              else
                (case readFixSize_ba (SocketStream_read_ba (r_sock env)) (unat (h_length header))
                        (new_ByteArray 4096 0) s1 of
                   Inl e \<Rightarrow> Some (try_or_null s1 (Inl e))
                 | Inr (rt, ba, s2) \<Rightarrow>
                     if rt \<le> 0 then Some (Inr (None, s2))
                     else
                       (case setPos 0 ba of
                          Inl e \<Rightarrow> Some (try_or_null s2 (Inl e))
                        | Inr ba \<Rightarrow>
                            if h_flag header AND 1 \<noteq> 0 \<and> h_length header \<ge> r_min_length env
                            then (case through_gzip (r_inflateInit env) (rock_zlib env) False True ba of
                                    None \<Rightarrow> None
                                  | Some (Inl e) \<Rightarrow> Some (try_or_null s2 (Inl e))
                                  | Some (Inr None) \<Rightarrow> Some (Inr (None, s2))
                                  | Some (Inr (Some ba)) \<Rightarrow> Some (try_or_null s2 (parse_message ba)))
                            else Some (try_or_null s2 (parse_message ba))))))"

text \<open>The tail of \<^verbatim>\<open>serializeTo\<close>: header, then body.\<close>

definition send_frame :: "('s, 'z) rock_env \<Rightarrow> rock_header \<Rightarrow> bytearray \<Rightarrow> 's \<Rightarrow> fault + (int \<times> 's)" where
  "send_frame env header ba s =
     (let header' = header\<lparr>h_length := byteswapOnLittleEndian (h_length header)\<rparr> in
      case writeFixSize (SocketStream_write (r_sock env)) (header_bytes header') s of (rt, s1) \<Rightarrow>
        if rt \<le> 0 then Inr (- 3, s1)
        else rbind (writeFixSize_ba (SocketStream_write_ba (r_sock env)) (getReadSize ba) ba s1)
               (\<lambda>(rt, ba', s2). if rt \<le> 0 then Inr (- 4, s2) else Inr (8 + int (m_size ba'), s2)))"

definition serializeTo :: "('s, 'z) rock_env \<Rightarrow> message \<Rightarrow> 's \<Rightarrow> (fault + (int \<times> 's)) option" where
  "serializeTo env msg s =
     (case toByteArray msg of
        Inl e \<Rightarrow> Some (Inl e)
      | Inr None \<Rightarrow> Some (Inl NullDeref)
      | Inr (Some ba) \<Rightarrow>
          (case setPos 0 ba of
             Inl e \<Rightarrow> Some (Inl e)
           | Inr ba \<Rightarrow>
               let header = RockMsgHeader\<lparr>h_length := of_nat (m_size ba)\<rparr> in
               if h_length header \<ge> r_min_length env
               then (case through_gzip (r_deflateInit env) (rock_zlib env) True False ba of
                       None \<Rightarrow> None
                     | Some (Inl e) \<Rightarrow> Some (Inl e)
                     | Some (Inr None) \<Rightarrow> Some (Inr (- 1, s))
                     | Some (Inr (Some ba)) \<Rightarrow>
                         Some (send_frame env (header\<lparr>h_flag := h_flag header OR 1,
                                                      h_length := of_nat (m_size ba)\<rparr>) ba s))
               else Some (send_frame env header ba s)))"

section \<open>The wire format\<close>

definition str_enc :: "byte list \<Rightarrow> byte list" where
  "str_enc s = varint_bytes (of_nat (length s)) @ s"

primrec msg_enc :: "message \<Rightarrow> byte list" where
  "msg_enc (RockRequest sn cmd body) = [1] @ varint_bytes sn @ varint_bytes cmd @ str_enc body"
| "msg_enc (RockResponse sn cmd result resultStr body) =
     [2] @ varint_bytes sn @ varint_bytes cmd @ varint_bytes result @ str_enc resultStr @ str_enc body"
| "msg_enc (RockNotify notify body) = [3] @ varint_bytes notify @ str_enc body"

text \<open>Messages whose strings have a length that their 32-bit prefix can hold.\<close>

primrec msg_ok :: "message \<Rightarrow> bool" where
  "msg_ok (RockRequest sn cmd body) \<longleftrightarrow> length body < 2 ^ 32"
| "msg_ok (RockResponse sn cmd result resultStr body) \<longleftrightarrow> length resultStr < 2 ^ 32 \<and> length body < 2 ^ 32"
| "msg_ok (RockNotify notify body) \<longleftrightarrow> length body < 2 ^ 32"

text \<open>The writes and reads in the form in which they chain.\<close>

lemma put_u8: "ba_append_mode b \<Longrightarrow> \<exists>b'. writeFuint8 v b = Inr b' \<and> ba_appended b [v] b'"
  using fuint8.put_appends by simp

lemma put_u32: "ba_append_mode b \<Longrightarrow> \<exists>b'. writeUint32 v b = Inr b' \<and> ba_appended b (varint_bytes v) b'"
  using uint32.put_appends by simp

lemma vint_string_ok: "length s < 2 ^ 32 \<Longrightarrow> lvint.ok_string s"
  unfolding lvint.ok_string_def by (simp add: word_less_nat_alt unat_of_nat)

lemma put_str:
  assumes "ba_append_mode b" and "length s < 2 ^ 32"
  shows "\<exists>b'. writeStringVint s b = Inr b' \<and> ba_appended b (str_enc s) b'"
  using lvint.string.put_appends [OF assms(1) vint_string_ok [OF assms(2)]]
  by (simp add: lvint.enc_string_def str_enc_def)

lemma get_u8:
  assumes "ba_inv b" and "ba_unread b = v # rest"
  shows "\<exists>b'. readFuint8 b = Inr (v, b') \<and> ba_inv b' \<and> ba_unread b' = rest"
  using readFuint8_front [OF assms] assms by (auto intro!: ba_advance_inv)

lemma get_u32:
  assumes "ba_inv b" and "ba_unread b = varint_bytes v @ rest"
  shows "\<exists>b'. readUint32 b = Inr (v, b') \<and> ba_inv b' \<and> ba_unread b' = rest"
  using uint32.get_reads [OF assms(1) _ assms(2)] assms by (auto intro!: ba_advance_inv)

lemma get_str:
  assumes "ba_inv b" and "length s < 2 ^ 32" and "ba_unread b = str_enc s @ rest"
  shows "\<exists>b'. readStringVint b = Inr (s, b') \<and> ba_inv b' \<and> ba_unread b' = rest"
proof -
  have "ba_unread b = lvint.enc_string (m_endian b) s @ rest"
    using assms(3) by (simp add: lvint.enc_string_def str_enc_def)
  from lvint.string.get_reads [OF assms(1) vint_string_ok [OF assms(2)] this] assms(1) this
  show ?thesis by (auto intro!: ba_advance_inv)
qed

lemmas msg_puts = put_u8 put_u32 put_str ba_appended_mode

lemma toByteArray_spec:
  assumes "msg_ok msg"
  shows "\<exists>b. toByteArray msg = Inr (Some b) \<and> ba_append_mode b \<and> ba_data b = msg_enc msg"
proof -
  let ?b = "new_ByteArray 4096 0"
  have mode: "ba_append_mode ?b" by (rule new_ByteArray_append_mode) simp
  have "\<exists>b. serializeToByteArray msg ?b = Inr (Some b) \<and> ba_appended ?b (msg_enc msg) b"
  proof (cases msg)
    case (RockRequest sn cmd body)
    have "\<exists>b. rbind (Request_serialize REQUEST sn cmd ?b) (RockBody_serialize body) = Inr b \<and>
        ba_appended ?b (([1] @ (varint_bytes sn @ varint_bytes cmd)) @ str_enc body) b"
      unfolding Request_serialize_def RockBody_serialize_def REQUEST_def
      using assms RockRequest mode by (intro rbind_appended) (auto intro!: msg_puts rbind_appended)
    then show ?thesis using RockRequest by (auto simp: try_or_false_def)
  next
    case (RockResponse sn cmd result resultStr body)
    have "\<exists>b. rbind (Response_serialize RESPONSE sn cmd result resultStr ?b) (RockBody_serialize body) = Inr b \<and>
        ba_appended ?b (([2] @ (varint_bytes sn @ (varint_bytes cmd @ (varint_bytes result @ str_enc resultStr)))) @ str_enc body) b"
      unfolding Response_serialize_def RockBody_serialize_def RESPONSE_def
      using assms RockResponse mode by (intro rbind_appended) (auto intro!: msg_puts rbind_appended)
    then show ?thesis using RockResponse by (auto simp: try_or_false_def)
  next
    case (RockNotify notify body)
    have "\<exists>b. rbind (Notify_serialize NOTIFY notify ?b) (RockBody_serialize body) = Inr b \<and>
        ba_appended ?b (([3] @ varint_bytes notify) @ str_enc body) b"
      unfolding Notify_serialize_def RockBody_serialize_def NOTIFY_def
      using assms RockNotify mode by (intro rbind_appended) (auto intro!: msg_puts rbind_appended)
    then show ?thesis using RockNotify by (auto simp: try_or_false_def)
  qed
  then show ?thesis by (auto simp: toByteArray_def ba_appended_def)
qed

lemma parse_message_spec:
  assumes "ba_inv b" and "msg_ok msg" and "ba_unread b = msg_enc msg @ rest"
  shows "parse_message b = Inr (Some msg)"
proof (cases msg)
  case (RockRequest sn cmd body)
  then have "ba_unread b = 1 # varint_bytes sn @ varint_bytes cmd @ str_enc body @ rest"
    using assms(3) by simp
  from get_u8 [OF assms(1) this] obtain b1 where b1: "readFuint8 b = Inr (1, b1)" "ba_inv b1"
    "ba_unread b1 = varint_bytes sn @ varint_bytes cmd @ str_enc body @ rest" by blast
  from get_u32 [OF b1(2,3)] obtain b2 where b2: "readUint32 b1 = Inr (sn, b2)" "ba_inv b2"
    "ba_unread b2 = varint_bytes cmd @ str_enc body @ rest" by blast
  from get_u32 [OF b2(2,3)] obtain b3 where b3: "readUint32 b2 = Inr (cmd, b3)" "ba_inv b3"
    "ba_unread b3 = str_enc body @ rest" by blast
  from get_str [OF b3(2) _ b3(3)] assms(2) RockRequest
  obtain b4 where "readStringVint b3 = Inr (body, b4)" by auto
  with b1(1) b2(1) b3(1) show ?thesis
    by (simp add: parse_message_def message_types RockRequest_parse_def Request_parse_def
        RockBody_parse_def try_or_false_def RockRequest)
next
  case (RockResponse sn cmd result resultStr body)
  then have "ba_unread b = 2 # varint_bytes sn @ varint_bytes cmd @ varint_bytes result @
      str_enc resultStr @ str_enc body @ rest"
    using assms(3) by simp
  from get_u8 [OF assms(1) this] obtain b1 where b1: "readFuint8 b = Inr (2, b1)" "ba_inv b1"
    "ba_unread b1 = varint_bytes sn @ varint_bytes cmd @ varint_bytes result @
      str_enc resultStr @ str_enc body @ rest" by blast
  from get_u32 [OF b1(2,3)] obtain b2 where b2: "readUint32 b1 = Inr (sn, b2)" "ba_inv b2"
    "ba_unread b2 = varint_bytes cmd @ varint_bytes result @ str_enc resultStr @ str_enc body @ rest" by blast
  from get_u32 [OF b2(2,3)] obtain b3 where b3: "readUint32 b2 = Inr (cmd, b3)" "ba_inv b3"
    "ba_unread b3 = varint_bytes result @ str_enc resultStr @ str_enc body @ rest" by blast
  from get_u32 [OF b3(2,3)] obtain b4 where b4: "readUint32 b3 = Inr (result, b4)" "ba_inv b4"
    "ba_unread b4 = str_enc resultStr @ str_enc body @ rest" by blast
  from get_str [OF b4(2) _ b4(3)] assms(2) RockResponse
  obtain b5 where b5: "readStringVint b4 = Inr (resultStr, b5)" "ba_inv b5"
    "ba_unread b5 = str_enc body @ rest" by auto
  from get_str [OF b5(2) _ b5(3)] assms(2) RockResponse
  obtain b6 where "readStringVint b5 = Inr (body, b6)" by auto
  with b1(1) b2(1) b3(1) b4(1) b5(1) show ?thesis
    by (simp add: parse_message_def message_types RockResponse_parse_def Response_parse_def
        RockBody_parse_def try_or_false_def RockResponse)
next
  case (RockNotify notify body)
  then have "ba_unread b = 3 # varint_bytes notify @ str_enc body @ rest"
    using assms(3) by simp
  from get_u8 [OF assms(1) this] obtain b1 where b1: "readFuint8 b = Inr (3, b1)" "ba_inv b1"
    "ba_unread b1 = varint_bytes notify @ str_enc body @ rest" by blast
  from get_u32 [OF b1(2,3)] obtain b2 where b2: "readUint32 b1 = Inr (notify, b2)" "ba_inv b2"
    "ba_unread b2 = str_enc body @ rest" by blast
  from get_str [OF b2(2) _ b2(3)] assms(2) RockNotify
  obtain b3 where "readStringVint b2 = Inr (body, b3)" by auto
  with b1(1) b2(1) show ?thesis
    by (simp add: parse_message_def message_types RockNotify_parse_def Notify_parse_def
        RockBody_parse_def try_or_false_def RockNotify)
qed

section \<open>Frames\<close>

text \<open>
  A run of the library over an input cut into pieces, as the gzip stream makes it: the pieces,
  then an empty one with \<^verbatim>\<open>Z_FINISH\<close>.
\<close>

definition zlib_run :: "'z zcall \<Rightarrow> bool \<Rightarrow> 'z \<Rightarrow> byte list list \<Rightarrow> byte list option" where
  "zlib_run f enc zs pieces =
     (case z_code f pieces False \<lparr>z_encode = enc, z_buffSize = 4096, z_zs = zs, z_buffs = []\<rparr> of
        None \<Rightarrow> None
      | Some (rt, st1) \<Rightarrow>
          if rt \<noteq> Z_OK then None
          else case z_code f [[]] True st1 of
            None \<Rightarrow> None
          | Some (rt', st2) \<Rightarrow> if rt' \<noteq> Z_OK then None else Some (concat (z_buffs st2)))"

text \<open>
  What zlib documents: initialisation succeeds, the compressed form \<open>gz d\<close> of \<open>d\<close> does not depend
  on how \<open>d\<close> is cut, and inflating it, however cut, gives \<open>d\<close> back.
\<close>

definition zlib_contract :: "('s, 'z) rock_env \<Rightarrow> (byte list \<Rightarrow> byte list) \<Rightarrow> bool" where
  "zlib_contract env gz \<longleftrightarrow>
     (\<exists>zs. r_deflateInit env 31 = (Z_OK, zs) \<and>
        (\<forall>pieces. zlib_run (r_deflate env) True zs pieces = Some (gz (concat pieces)))) \<and>
     (\<exists>zs. r_inflateInit env 31 = (Z_OK, zs) \<and>
        (\<forall>d pieces. concat pieces = gz d \<longrightarrow> zlib_run (r_inflate env) False zs pieces = Some d))"

lemma concat_iov_gather: "concat (map (\<lambda>v. iov_gather ns [v]) iovs) = iov_gather ns iovs"
  by (induction iovs) auto

lemma through_gzip_spec:
  assumes init: "initz 31 = (Z_OK, zs)" and b: "ba_inv b" "m_pos b = 0"
    and run: "\<forall>pieces. concat pieces = ba_data b \<longrightarrow> zlib_run (z_call lib enc) enc zs pieces = Some out"
  shows "\<exists>b'. through_gzip initz lib enc fin b = Some (Inr (Some b')) \<and> ba_inv b' \<and> m_pos b' = 0 \<and>
           ba_data b' = out"
proof -
  have unread: "ba_unread b = ba_data b" using b(2) by (simp add: ba_unread_def)
  obtain k bufs where get: "getReadBuffers [] (m_size b) b = Inr (k, bufs)"
      "iov_gather (m_nodes b) bufs = ba_data b"
  proof (cases "ba_unread b = []")
    case True
    then have "getReadSize b = 0" using length_ba_unread [OF b(1)] by simp
    then have "getReadBuffers [] (m_size b) b = Inr (0, [])" by (simp add: getReadBuffers_def)
    with that True unread show ?thesis by simp
  next
    case False
    then have "0 < m_size b" using unread length_ba_data [OF b(1)] by (cases "ba_data b") auto
    with that getReadBuffers_spec [OF b(1) False, of "m_size b" "[]"] unread length_ba_data [OF b(1)]
    show ?thesis by auto
  qed
  let ?st = "\<lparr>z_encode = enc, z_buffSize = 4096, z_zs = zs, z_buffs = []\<rparr>"
  let ?pieces = "map (\<lambda>v. iov_gather (m_nodes b) [v]) bufs"
  have cat: "concat ?pieces = ba_data b" using get(2) by (simp only: concat_iov_gather)
  have "zlib_run (z_call lib enc) enc zs ?pieces = Some out" using run cat by blast
  then obtain st1 st2 where st: "z_code (z_call lib enc) ?pieces False ?st = Some (Z_OK, st1)"
      "z_code (z_call lib enc) [[]] True st1 = Some (Z_OK, st2)" "concat (z_buffs st2) = out"
    unfolding zlib_run_def by (auto split: option.splits prod.splits if_splits)
  have enc: "z_encode st1 = enc" using z_code_encode [OF st(1)] by simp
  have mode: "ba_append_mode (new_ByteArray 4096 0)" by (rule new_ByteArray_append_mode) simp
  obtain b1 where b1: "put_all write_bytes (z_buffs st2) (new_ByteArray 4096 0) = Inr b1"
      "ba_appended (new_ByteArray 4096 0) (concat (z_buffs st2)) b1"
    using put_all_write_bytes [OF mode] by blast
  have inv1: "ba_inv b1" "ba_data b1 = out"
    using b1(2) st(3) by (auto simp: ba_appended_def ba_append_mode_def)
  from setPos_within [OF inv1(1), of 0] obtain b2 where b2: "setPos 0 b1 = Inr b2" "ba_inv b2"
      "ba_data b2 = out" "m_pos b2 = 0"
    using inv1(2) by auto
  have "through_gzip initz lib enc fin b = Some (Inr (Some b2))"
    using init get(1) st(1,2) b1(1) b2(1) enc
    by (simp add: through_gzip_def CreateGzip_def z_init_def z_window_bits_def ZlibStream_write_ba_def
        ZlibStream_flush_def ZlibStream_getByteArray_def del: z_code.simps)
  with b2 show ?thesis by blast
qed

lemma send_frame_spec:
  assumes c: "sock_contract (r_sock env) inc out" and conn: "op_connected (r_sock env) s"
    and b: "ba_inv b" "m_pos b = 0" "ba_data b = payload" "payload \<noteq> []" and h: "length (h_magic header) = 2"
  shows "\<exists>s'. send_frame env header b s = Inr (8 + int (length payload), s') \<and> inc s' = inc s \<and>
           op_connected (r_sock env) s' \<and>
           out s' = out s @ header_bytes (header\<lparr>h_length := byteswap (h_length header)\<rparr>) @ payload"
proof -
  let ?h = "header\<lparr>h_length := byteswap (h_length header)\<rparr>"
  let ?hb = "header_bytes ?h"
  have len: "length ?hb = 8" using h by (simp add: header_bytes_def)
  obtain s1 where s1: "writeFixSize (SocketStream_write (r_sock env)) ?hb s = (8, s1)"
      "out s1 = out s @ ?hb" "inc s1 = inc s" "op_connected (r_sock env) s1"
    using writeFixSize_loop_spec [OF c conn, of "length ?hb" ?hb 0] len by (auto simp: writeFixSize_def)
  have unread: "ba_unread b = payload" "getReadSize b = length payload"
    using b length_ba_unread [OF b(1)] by (simp_all add: ba_unread_def)
  obtain b2 s2 where s2: "writeFixSize_ba (SocketStream_write_ba (r_sock env)) (length payload) b s1 =
        Inr (int (length payload), b2, s2)" "ba_inv b2" "ba_data b2 = payload"
      "out s2 = out s1 @ payload" "inc s2 = inc s1" "op_connected (r_sock env) s2"
    using writeFixSize_ba_loop_spec [OF c s1(4) b(1), of "length payload" "length payload"] unread b(3)
    by (auto simp: writeFixSize_ba_def)
  have "m_size b2 = length payload" using length_ba_data [OF s2(2)] s2(3) by simp
  then show ?thesis
    using s1 s2 unread(2) b(4) by (simp add: send_frame_def Let_def)
qed

text \<open>What is sent for a message: compressed when its encoding has at least the minimal length.\<close>

definition is_zipped :: "('s, 'z) rock_env \<Rightarrow> message \<Rightarrow> bool" where
  "is_zipped env msg \<longleftrightarrow> unat (r_min_length env) \<le> length (msg_enc msg)"

definition payload :: "('s, 'z) rock_env \<Rightarrow> (byte list \<Rightarrow> byte list) \<Rightarrow> message \<Rightarrow> byte list" where
  "payload env gz msg = (if is_zipped env msg then gz (msg_enc msg) else msg_enc msg)"

definition frame :: "('s, 'z) rock_env \<Rightarrow> (byte list \<Rightarrow> byte list) \<Rightarrow> message \<Rightarrow> byte list" where
  "frame env gz msg =
     [0xab, 0xcd, 1, if is_zipped env msg then 1 else 0] @
     rev (le_bytes (of_nat (length (payload env gz msg)) :: u32)) @ payload env gz msg"

lemma msg_enc_nonempty [simp]: "msg_enc msg \<noteq> []"
  by (cases msg) auto

lemma serializeTo_spec:
  assumes c: "sock_contract (r_sock env) inc out" and conn: "op_connected (r_sock env) s"
    and z: "zlib_contract env gz" and ok: "msg_ok msg" and len: "length (msg_enc msg) < 2 ^ 32"
    and ne: "payload env gz msg \<noteq> []"
  shows "\<exists>s'. serializeTo env msg s = Some (Inr (8 + int (length (payload env gz msg)), s')) \<and>
           inc s' = inc s \<and> op_connected (r_sock env) s' \<and> out s' = out s @ frame env gz msg"
proof -
  let ?enc = "msg_enc msg"
  obtain b where b: "toByteArray msg = Inr (Some b)" "ba_append_mode b" "ba_data b = ?enc"
    using toByteArray_spec [OF ok] by blast
  from setPos_within [OF ba_append_mode_inv [OF b(2)], of 0] obtain b0 where b0: "setPos 0 b = Inr b0"
      "ba_inv b0" "ba_data b0 = ?enc" "m_pos b0 = 0"
    using b(3) by auto
  have size: "m_size b0 = length ?enc" using length_ba_data [OF b0(2)] b0(3) by simp
  let ?h = "RockMsgHeader\<lparr>h_length := of_nat (m_size b0)\<rparr>"
  have zip: "r_min_length env \<le> (of_nat (m_size b0) :: u32) \<longleftrightarrow> is_zipped env msg"
    using len size by (simp add: is_zipped_def word_le_nat_alt unat_of_nat)
  show ?thesis
  proof (cases "is_zipped env msg")
    case False
    then have p: "payload env gz msg = ?enc" by (simp add: payload_def)
    have "length (h_magic ?h) = 2" by (simp add: RockMsgHeader_def)
    from send_frame_spec [OF c conn b0(2,4,3) msg_enc_nonempty this] False b b0(1) zip p size
    show ?thesis by (auto simp: serializeTo_def frame_def header_bytes_def RockMsgHeader_def Let_def)
  next
    case True
    then have p: "payload env gz msg = gz ?enc" by (simp add: payload_def)
    obtain zs where zs: "r_deflateInit env 31 = (Z_OK, zs)"
        "\<And>pieces. zlib_run (r_deflate env) True zs pieces = Some (gz (concat pieces))"
      using z unfolding zlib_contract_def by blast
    have "\<forall>pieces. concat pieces = ba_data b0 \<longrightarrow>
        zlib_run (z_call (rock_zlib env) True) True zs pieces = Some (gz ?enc)"
      by (simp add: zs(2) b0(3) z_call_def rock_zlib_def)
    from through_gzip_spec [of "r_deflateInit env", OF zs(1) b0(2,4) this, of False] obtain b1 where
      b1: "through_gzip (r_deflateInit env) (rock_zlib env) True False b0 = Some (Inr (Some b1))"
        "ba_inv b1" "m_pos b1 = 0" "ba_data b1 = gz ?enc" by blast
    have size1: "m_size b1 = length (gz ?enc)" using length_ba_data [OF b1(2)] b1(4) by simp
    let ?h1 = "?h\<lparr>h_flag := h_flag ?h OR 1, h_length := of_nat (m_size b1)\<rparr>"
    have "length (h_magic ?h1) = 2" by (simp add: RockMsgHeader_def)
    from send_frame_spec [OF c conn b1(2,3,4) _ this] True ne p b b0(1) zip b1(1) size1
    show ?thesis by (auto simp: serializeTo_def frame_def header_bytes_def RockMsgHeader_def Let_def)
  qed
qed

text \<open>
  The decoder on a well-formed frame: it reads exactly the frame and hands the body, decompressed or
  not, to \<open>parse_message\<close>. It decompresses only what is itself at least the minimal length.
\<close>

lemma parseFrom_frame:
  assumes c: "sock_contract (r_sock env) inc out" and conn: "op_connected (r_sock env) s"
    and z: "zlib_contract env gz"
    and inc: "inc s = frame env gz msg @ rest"
    and ne: "payload env gz msg \<noteq> []" and max: "length (payload env gz msg) < unat (r_max_length env)"
  shows "\<exists>b s'. parseFrom env s = Some (try_or_null s' (parse_message b)) \<and> inc s' = rest \<and>
           ba_inv b \<and> ba_unread b =
             (if is_zipped env msg \<and> unat (r_min_length env) \<le> length (payload env gz msg)
              then msg_enc msg else payload env gz msg)"
proof -
  let ?p = "payload env gz msg"
  let ?len = "of_nat (length ?p) :: u32"
  let ?flag = "if is_zipped env msg then 1 else 0 :: byte"
  have "length ?p < 2 ^ 32" using max unsigned_less [of "r_max_length env", where ?'a = nat] by simp
  then have ulen: "unat ?len = length ?p" by (simp add: unat_of_nat)
  let ?hb = "[0xab, 0xcd, 1, ?flag] @ rev (le_bytes ?len)"
  have hb: "length ?hb = 8" by simp
  have f: "inc s = ?hb @ ?p @ rest" using inc by (simp add: frame_def)
  obtain s1 where s1: "readFixSize (SocketStream_read (r_sock env)) 8 s = Inr (8, ?hb, s1)"
      "inc s1 = ?p @ rest" "op_connected (r_sock env) s1"
    using readFixSize_loop_spec [OF c conn, of 8 8] unfolding readFixSize_def f by auto
  have "byteswap (le_word (rev (le_bytes ?len)) :: u32) = ?len"
    by (rule byteswap_le_word_rev) simp
  then have hdr: "isRockMessageHeaderValid (r_max_length env) (header_of ?hb) =
      (True, \<lparr>h_magic = [0xab, 0xcd], h_version = 1, h_flag = ?flag, h_length = ?len\<rparr>)"
    using max ulen
    by (simp add: isRockMessageHeaderValid_def header_of_def s_rock_magic_def Let_def not_le word_less_nat_alt)
  let ?b = "new_ByteArray 4096 0"
  have mode: "ba_append_mode ?b" by (rule new_ByteArray_append_mode) simp
  obtain b2 s2 where s2: "readFixSize_ba (SocketStream_read_ba (r_sock env)) (length ?p) ?b s1 =
        Inr (int (length ?p), b2, s2)" "ba_inv b2" "ba_data b2 = ?p" "inc s2 = rest"
    using readFixSize_ba_loop_spec [OF c s1(3), of ?b "length ?p" "length ?p"] mode s1(2)
    unfolding readFixSize_ba_def ba_append_mode_def by auto
  from setPos_within [OF s2(2), of 0] obtain b3 where b3: "setPos 0 b2 = Inr b3" "ba_inv b3"
      "ba_data b3 = ?p" "m_pos b3 = 0"
    using s2(3) by auto
  note pre = s1(1) hdr s2(1) b3(1) ulen
  show ?thesis
  proof (cases "is_zipped env msg \<and> unat (r_min_length env) \<le> length ?p")
    case False
    then have "parseFrom env s = Some (try_or_null s2 (parse_message b3))"
      using pre ne ulen by (auto simp: parseFrom_def word_le_nat_alt)
    moreover have "ba_unread b3 = ?p" using b3 by (simp add: ba_unread_def)
    ultimately show ?thesis using False s2(4) b3(2) by auto
  next
    case True
    obtain zs where zs: "r_inflateInit env 31 = (Z_OK, zs)"
        "\<And>d pieces. concat pieces = gz d \<Longrightarrow> zlib_run (r_inflate env) False zs pieces = Some d"
      using z unfolding zlib_contract_def by blast
    have "\<forall>pieces. concat pieces = ba_data b3 \<longrightarrow>
        zlib_run (z_call (rock_zlib env) False) False zs pieces = Some (msg_enc msg)"
      using True by (simp add: zs(2) b3(3) payload_def z_call_def rock_zlib_def)
    from through_gzip_spec [of "r_inflateInit env", OF zs(1) b3(2,4) this, of True] obtain b4 where
      b4: "through_gzip (r_inflateInit env) (rock_zlib env) False True b3 = Some (Inr (Some b4))"
        "ba_inv b4" "m_pos b4 = 0" "ba_data b4 = msg_enc msg" by blast
    have "parseFrom env s = Some (try_or_null s2 (parse_message b4))"
      using pre ne True b4(1) by (auto simp: parseFrom_def word_le_nat_alt)
    moreover have "ba_unread b4 = msg_enc msg" using b4 by (simp add: ba_unread_def)
    ultimately show ?thesis using True s2(4) b4(2) by auto
  qed
qed

section \<open>Arbitrary input\<close>

text \<open>A read of untrusted bytes either fails with the exception or leaves a sound buffer.\<close>

definition sound_read :: "fault + ('a \<times> bytearray) \<Rightarrow> bool" where
  "sound_read m \<longleftrightarrow> m = Inl OutOfRange \<or> (\<exists>v b. m = Inr (v, b) \<and> ba_inv b)"

lemma sound_read_rbind:
  assumes "sound_read m" and "\<And>v b. ba_inv b \<Longrightarrow> sound_read (f (v, b))"
  shows "sound_read (rbind m f)"
proof (cases m)
  case (Inl e)
  with assms(1) show ?thesis by (simp add: sound_read_def)
next
  case (Inr r)
  with assms(1) obtain v b where "r = (v, b)" "ba_inv b" by (auto simp: sound_read_def)
  with assms(2) Inr show ?thesis by simp
qed

lemma sound_read_Inr [simp]: "ba_inv b \<Longrightarrow> sound_read (Inr (v, b))"
  by (simp add: sound_read_def)

lemma sound_read_bytes [simp]: "ba_inv b \<Longrightarrow> sound_read (read_bytes k b)"
  by (auto simp: sound_read_def read_bytes_spec intro: ba_advance_inv)

lemma sound_readFuint8 [simp]: "ba_inv b \<Longrightarrow> sound_read (readFuint8 b)"
  unfolding readFuint8_def by (rule sound_read_rbind) auto

lemma sound_read_varint: "ba_inv b \<Longrightarrow> sound_read (read_varint i acc b :: fault + ('a::len word \<times> bytearray))"
proof (induction "LENGTH('a) - i" arbitrary: i acc b rule: less_induct)
  case less
  show ?case
  proof (cases "i < LENGTH('a)")
    case False
    then show ?thesis using less.prems by (simp add: read_varint.simps [of i])
  next
    case True
    then have "LENGTH('a) - (i + 7) < LENGTH('a) - i" by simp
    note IH = less.hyps [OF this]
    show ?thesis
      using True less.prems IH
      by (subst read_varint.simps) (auto intro!: sound_read_rbind simp: Let_def)
  qed
qed

lemma sound_readUint32 [simp]: "ba_inv b \<Longrightarrow> sound_read (readUint32 b)"
  by (simp add: readUint32_def sound_read_varint)

lemma sound_readStringVint [simp]: "ba_inv b \<Longrightarrow> sound_read (readStringVint b)"
  unfolding readStringVint_def readUint64_def
  by (rule sound_read_rbind) (auto simp: sound_read_varint)

lemma sound_parts [simp]:
  assumes "ba_inv b"
  shows "sound_read (Request_parse b)" "sound_read (Response_parse b)" "sound_read (Notify_parse b)"
    "sound_read (RockBody_parse b)"
  unfolding Request_parse_def Response_parse_def Notify_parse_def RockBody_parse_def
  using assms by (auto intro!: sound_read_rbind)

lemma sound_try:
  assumes "ba_inv b" and "sound_read (p b)" and "\<And>v. \<exists>f. k v = (\<lambda>b. rbind (RockBody_parse b) (\<lambda>(body, ba). Inr (f body)))"
  shows "\<exists>m. try_or_false (rbind (p b) (\<lambda>(v, b). k v b)) = Inr m"
proof (cases "p b")
  case (Inl e)
  with assms(2) show ?thesis by (auto simp: sound_read_def try_or_false_def)
next
  case (Inr r)
  then obtain v b' where r: "p b = Inr (v, b')" "ba_inv b'" using assms(2) by (auto simp: sound_read_def)
  obtain f where f: "k v = (\<lambda>b. rbind (RockBody_parse b) (\<lambda>(body, ba). Inr (f body)))" using assms(3) by blast
  have "sound_read (RockBody_parse b')" using r(2) by simp
  then show ?thesis by (auto simp: r(1) f sound_read_def try_or_false_def)
qed

lemma parse_message_total:
  assumes "ba_inv b"
  shows "\<exists>m. parse_message b = Inr m \<or> parse_message b = Inl OutOfRange"
proof (cases "readFuint8 b")
  case (Inl e)
  then show ?thesis using sound_readFuint8 [OF assms] by (auto simp: sound_read_def parse_message_def)
next
  case (Inr r)
  then obtain t b1 where r: "readFuint8 b = Inr (t, b1)" "ba_inv b1"
    using sound_readFuint8 [OF assms] by (auto simp: sound_read_def)
  have 1: "\<exists>m. RockRequest_parse b1 = Inr m"
    using sound_try [OF r(2), of Request_parse "\<lambda>(sn, cmd) ba. rbind (RockBody_parse ba) (\<lambda>(body, ba). Inr (RockRequest sn cmd body))"]
      r(2) by (auto simp: RockRequest_parse_def case_prod_unfold)
  have 2: "\<exists>m. RockResponse_parse b1 = Inr m"
    using sound_try [OF r(2), of Response_parse "\<lambda>(sn, cmd, result, resultStr) ba.
        rbind (RockBody_parse ba) (\<lambda>(body, ba). Inr (RockResponse sn cmd result resultStr body))"]
      r(2) by (auto simp: RockResponse_parse_def case_prod_unfold)
  have 3: "\<exists>m. RockNotify_parse b1 = Inr m"
    using sound_try [OF r(2), of Notify_parse "\<lambda>notify ba.
        rbind (RockBody_parse ba) (\<lambda>(body, ba). Inr (RockNotify notify body))"]
      r(2) by (auto simp: RockNotify_parse_def)
  show ?thesis using r(1) 1 2 3 by (auto simp: parse_message_def)
qed

lemma through_gzip_total:
  assumes init: "initz 31 = (Z_OK, zs)" and f: "zcall_ok (z_call lib enc)"
    and ends: "\<And>pieces fin st. z_inv st \<Longrightarrow> z_code (z_call lib enc) pieces fin st \<noteq> None"
    and b: "ba_inv b" "m_pos b = 0"
  shows "\<exists>r. through_gzip initz lib enc fin b = Some (Inr r) \<and> (\<forall>b'. r = Some b' \<longrightarrow> ba_inv b')"
proof -
  have get: "\<exists>k bufs. getReadBuffers [] (m_size b) b = Inr (k, bufs)"
  proof (cases "ba_unread b = [] \<or> m_size b = 0")
    case True
    then have "getReadBuffers [] (m_size b) b = Inr (0, [])"
      using length_ba_unread [OF b(1)] by (auto simp: getReadBuffers_def)
    then show ?thesis by blast
  next
    case False
    then have "ba_unread b \<noteq> []" "0 < m_size b" by auto
    from getReadBuffers_spec [OF b(1) this, of "[]"] show ?thesis by blast
  qed
  have bytes: "\<exists>b'. ZlibStream_getByteArray st = Inr b' \<and> ba_inv b'" for st :: "'a zlib_stream"
  proof -
    have mode: "ba_append_mode (new_ByteArray 4096 0)" by (rule new_ByteArray_append_mode) simp
    obtain b1 where b1: "put_all write_bytes (z_buffs st) (new_ByteArray 4096 0) = Inr b1"
        "ba_appended (new_ByteArray 4096 0) (concat (z_buffs st)) b1"
      using put_all_write_bytes [OF mode] by blast
    then have "ba_inv b1" by (auto simp: ba_appended_def ba_append_mode_def)
    from setPos_within [OF this, of 0] b1(1) show ?thesis
      by (auto simp: ZlibStream_getByteArray_def)
  qed
  obtain k bufs where g: "getReadBuffers [] (m_size b) b = Inr (k, bufs)" using get by blast
  let ?st = "\<lparr>z_encode = enc, z_buffSize = 4096, z_zs = zs, z_buffs = []\<rparr>"
  have inv0: "z_inv ?st" by (simp add: z_inv_def)
  from ends [OF this] obtain rt st1 where
    1: "z_code (z_call lib enc) (map (\<lambda>v. iov_gather (m_nodes b) [v]) bufs) False ?st = Some (rt, st1)" by fastforce
  from z_code_inv [OF 1 f inv0] have "z_inv st1" by blast
  from ends [OF this] obtain rt' st2 where 2: "z_code (z_call lib enc) [[]] True st1 = Some (rt', st2)" by fastforce
  have enc: "z_encode st1 = enc" using z_code_encode [OF 1] by simp
  obtain b' where "ZlibStream_getByteArray st2 = Inr b'" "ba_inv b'" using bytes by blast
  with init g 1 2 enc show ?thesis
    by (auto simp: through_gzip_def CreateGzip_def z_init_def z_window_bits_def ZlibStream_write_ba_def
        ZlibStream_flush_def simp del: z_code.simps)
qed

section \<open>A concrete library\<close>

text \<open>
  For the concrete instances: a library that collects its input, and after \<^verbatim>\<open>Z_FINISH\<close> puts out the
  image of all of it under \<open>g\<close>, as the room allows. It meets the contract with any \<open>gz\<close> and its inverse.
\<close>

definition batch :: "(byte list \<Rightarrow> byte list) \<Rightarrow> (byte list \<times> byte list option) zcall" where
  "batch g zs input avail finish =
     (case zs of (coll, pending) \<Rightarrow>
        if finish then
          let p = (case pending of None \<Rightarrow> g (coll @ input) | Some p \<Rightarrow> p) in
          (Z_OK, take avail p, [], (coll, Some (drop avail p)))
        else (Z_OK, [], [], (coll @ input, pending)))"

lemma Z_OK_not_error [simp]: "Z_OK \<noteq> Z_STREAM_ERROR"
  by (simp add: Z_OK_def Z_STREAM_ERROR_def)

lemma batch_collect:
  assumes "z_inv st" and "z_zs st = (coll, pending)"
  shows "\<exists>st'. z_loop (batch g) False input st = Some (Z_OK, st') \<and> z_inv st' \<and>
           z_zs st' = (coll @ input, pending) \<and> concat (z_buffs st') = concat (z_buffs st)"
proof -
  note room = z_room_inv [OF assms(1)]
  let ?st = "st\<lparr>z_buffs := butlast (z_room st) @ [last (z_room st)], z_zs := (coll @ input, pending)\<rparr>"
  have "z_loop (batch g) False input st = Some (Z_OK, ?st)"
    using assms(2) room(2) by (subst z_loop.simps) (auto simp: batch_def Let_def)
  moreover have "z_buffs ?st = z_room st" using room(3) by simp
  moreover have "z_inv ?st" using assms(1) room by (auto simp: z_inv_def)
  ultimately show ?thesis using room(4) by auto
qed

lemma batch_emit:
  assumes "z_inv st" and "z_zs st = (coll, pending)" and "(case pending of None \<Rightarrow> g (coll @ input) | Some p \<Rightarrow> p) = p"
  shows "\<exists>st'. z_loop (batch g) True input st = Some (Z_OK, st') \<and> concat (z_buffs st') = concat (z_buffs st) @ p"
  using assms
proof (induction "length p" arbitrary: st coll pending input p rule: less_induct)
  case less
  note room = z_room_inv [OF less.prems(1)]
  let ?avail = "z_buffSize st - length (last (z_room st))"
  let ?st = "st\<lparr>z_buffs := butlast (z_room st) @ [last (z_room st) @ take ?avail p],
                z_zs := (coll, Some (drop ?avail p))\<rparr>"
  have cat: "concat (z_buffs ?st) = concat (z_buffs st) @ take ?avail p"
    using concat_butlast_last [OF room(3)] room(4) by simp
  have step: "z_loop (batch g) True input st =
      (if length (take ?avail p) = ?avail then z_loop (batch g) True [] ?st else Some (Z_OK, ?st))"
    using less.prems(2,3) by (subst z_loop.simps) (simp add: batch_def Let_def)
  show ?case
  proof (cases "length p < ?avail")
    case True
    then show ?thesis using step cat by auto
  next
    case False
    then have shorter: "length (drop ?avail p) < length p" using room(2) by simp
    have inv: "z_inv ?st" using less.prems(1) room by (auto simp: z_inv_def)
    have zs: "z_zs ?st = (coll, Some (drop ?avail p))" by simp
    have pend: "(case Some (drop ?avail p) of None \<Rightarrow> g (coll @ []) | Some p \<Rightarrow> p) = drop ?avail p" by simp
    from less.hyps [OF shorter inv zs pend]
    obtain st' where "z_loop (batch g) True [] ?st = Some (Z_OK, st')"
        "concat (z_buffs st') = concat (z_buffs ?st) @ drop ?avail p" by blast
    moreover have "length (take ?avail p) = ?avail" using False by simp
    moreover have "concat (z_buffs ?st) @ drop ?avail p = concat (z_buffs st) @ p"
      unfolding cat by simp
    ultimately show ?thesis using step by auto
  qed
qed

lemma batch_code:
  assumes "z_inv st" and "z_zs st = (coll, None)"
  shows "\<exists>st'. z_code (batch g) pieces False st = Some (Z_OK, st') \<and> z_inv st' \<and>
           z_zs st' = (coll @ concat pieces, None) \<and> concat (z_buffs st') = concat (z_buffs st)"
  using assms
proof (induction pieces arbitrary: st coll)
  case Nil
  then show ?case by simp
next
  case (Cons v vs)
  obtain st1 where 1: "z_loop (batch g) False v st = Some (Z_OK, st1)" "z_inv st1"
      "z_zs st1 = (coll @ v, None)" "concat (z_buffs st1) = concat (z_buffs st)"
    using batch_collect [OF Cons.prems] by blast
  from Cons.IH [OF 1(2,3)] 1(1,4) show ?case by simp
qed

lemma batch_run: "zlib_run (batch g) enc ([], None) pieces = Some (g (concat pieces))"
proof -
  let ?st = "\<lparr>z_encode = enc, z_buffSize = 4096, z_zs = ([], None), z_buffs = []\<rparr> ::
    (byte list \<times> byte list option) zlib_stream"
  have "z_inv ?st" by (simp add: z_inv_def)
  from batch_code [OF this, of "[]" g pieces] obtain st1 where
    1: "z_code (batch g) pieces False ?st = Some (Z_OK, st1)" "z_inv st1"
       "z_zs st1 = (concat pieces, None)" "concat (z_buffs st1) = []" by auto
  obtain st2 where 2: "z_loop (batch g) True [] st1 = Some (Z_OK, st2)" "concat (z_buffs st2) = g (concat pieces)"
    using batch_emit [OF 1(2,3), of g "[]" "g (concat pieces)"] 1(4) by auto
  from 1(1) 2 show ?thesis by (simp add: zlib_run_def)
qed

lemma batch_ok: "zcall_ok (batch g)"
  by (auto simp: zcall_ok_def batch_def Let_def split: prod.splits if_splits)

lemma batch_total:
  assumes "z_inv st"
  shows "z_code (batch g) pieces fin st \<noteq> None"
  using assms
proof (induction pieces arbitrary: st)
  case Nil
  then show ?case by simp
next
  case (Cons v vs)
  obtain coll pending where zs: "z_zs st = (coll, pending)" by fastforce
  obtain rt st1 where 1: "z_loop (batch g) (fin \<and> vs = []) v st = Some (rt, st1)"
    using batch_collect [OF Cons.prems zs, of g v] batch_emit [OF Cons.prems zs refl, of g v]
    by (cases "fin \<and> vs = []") auto
  with z_loop_inv(1) [OF 1 batch_ok Cons.prems] Cons.IH show ?case by simp
qed

text \<open>A container with the magic byte of gzip that shrinks one block of 8 bytes, and its inverse.\<close>

definition toy_gz :: "byte list \<Rightarrow> byte list" where
  "toy_gz d = (if d = [3, 7, 5, 0, 0, 0, 0, 0] then [0x1f, 0] else 0x1f # 1 # d)"

definition toy_ungz :: "byte list \<Rightarrow> byte list" where
  "toy_ungz z = (if z = [0x1f, 0] then [3, 7, 5, 0, 0, 0, 0, 0] else drop 2 z)"

definition toy_env :: "u32 \<Rightarrow> (byte list \<times> byte list, byte list \<times> byte list option) rock_env" where
  "toy_env min_length =
     \<lparr>r_sock = peer, r_max_length = 0x4000000, r_min_length = min_length,
      r_deflateInit = (\<lambda>_. (Z_OK, ([], None))), r_deflate = batch toy_gz,
      r_inflateInit = (\<lambda>_. (Z_OK, ([], None))), r_inflate = batch toy_ungz\<rparr>"

lemma toy_contract: "zlib_contract (toy_env m) toy_gz"
proof -
  have "toy_ungz (toy_gz d) = d" for d by (simp add: toy_ungz_def toy_gz_def)
  then show ?thesis by (simp add: zlib_contract_def toy_env_def batch_run)
qed

section \<open>Properties\<close>



text \<open>
  C20. The decoder is total on hostile input: whatever bytes the peer sends, and wherever it stops,
  \<^verbatim>\<open>parseFrom\<close> returns a message or null; no read leaves the buffer, no null pointer is
  dereferenced and every exception is caught. (The library's inflate calls are assumed to come to an end.)
\<close>

theorem rock_parse_total:
  assumes "sock_contract (r_sock env) inc out" and "op_connected (r_sock env) s"
    and "fst (r_inflateInit env 31) = Z_OK" and "zcall_ok (r_inflate env)"
    and "\<forall>pieces fin st. z_inv st \<longrightarrow> z_code (r_inflate env) pieces fin st \<noteq> None"
  shows "\<exists>m s'. parseFrom env s = Some (Inr (m, s'))"
proof -
  obtain zs where zs: "r_inflateInit env 31 = (Z_OK, zs)" using assms(3) by (metis prod.collapse)
  obtain s1 where s1: "readFixSize (SocketStream_read (r_sock env)) 8 s =
      Inr (if 8 \<le> length (inc s) then 8 else 0, take 8 (inc s), s1)" "op_connected (r_sock env) s1"
    using readFixSize_loop_spec [OF assms(1,2), of 8 8] by (auto simp: readFixSize_def)
  obtain valid header where h:
    "isRockMessageHeaderValid (r_max_length env) (header_of (take 8 (inc s))) = (valid, header)"
    by fastforce
  show ?thesis
  proof (cases "8 \<le> length (inc s) \<and> valid")
    case False
    then show ?thesis using s1 h by (auto simp: parseFrom_def)
  next
    case True
    let ?n = "unat (h_length header)"
    have mode: "ba_append_mode (new_ByteArray 4096 0)" by (rule new_ByteArray_append_mode) simp
    obtain b2 s2 where s2: "readFixSize_ba (SocketStream_read_ba (r_sock env)) ?n (new_ByteArray 4096 0) s1 =
          Inr (if ?n \<le> length (inc s1) then int ?n else 0, b2, s2)" "ba_inv b2"
      using readFixSize_ba_loop_spec [OF assms(1) s1(2), of "new_ByteArray 4096 0" ?n ?n] mode
      unfolding readFixSize_ba_def ba_append_mode_def by auto
    from setPos_within [OF s2(2), of 0] obtain b3 where b3: "setPos 0 b2 = Inr b3" "ba_inv b3" "m_pos b3 = 0"
      by auto
    have msg: "\<exists>m s'. Some (try_or_null s2 (parse_message b)) = Some (Inr (m, s'))" if "ba_inv b" for b
      using parse_message_total [OF that] by (auto simp: try_or_null_def)
    obtain r where r: "through_gzip (r_inflateInit env) (rock_zlib env) False True b3 = Some (Inr r)"
        "\<forall>b'. r = Some b' \<longrightarrow> ba_inv b'"
    proof -
      have call: "z_call (rock_zlib env) False = r_inflate env" by (simp add: z_call_def rock_zlib_def)
      have "\<exists>r. through_gzip (r_inflateInit env) (rock_zlib env) False True b3 = Some (Inr r) \<and>
          (\<forall>b'. r = Some b' \<longrightarrow> ba_inv b')"
        by (rule through_gzip_total [of "r_inflateInit env", OF zs _ _ b3(2,3)])
          (use assms(4,5) in \<open>auto simp only: call\<close>)
      then show ?thesis using that by blast
    qed
    have "\<exists>m s'. (case r of None \<Rightarrow> Some (Inr (None, s2))
                  | Some ba \<Rightarrow> Some (try_or_null s2 (parse_message ba))) = Some (Inr (m, s'))"
      using r(2) msg by (cases r) auto
    with True s1(1) h s2(1) b3(1) r(1) msg [OF b3(2)] show ?thesis
      by (cases r) (auto simp: parseFrom_def)
  qed
qed

theorem rock_parse_total_witness:
  "\<exists>m s'. parseFrom (toy_env 4096) ([0xab, 0xcd, 1, 0, 0, 0, 0, 2, 9], []) = Some (Inr (m, s'))"
proof -
  have sock: "sock_contract (r_sock (toy_env 4096)) fst snd" by (simp add: toy_env_def peer_contract)
  have conn: "op_connected (r_sock (toy_env 4096)) x" for x by (simp add: toy_env_def peer_def)
  show ?thesis
    by (rule rock_parse_total [OF sock conn]) (simp_all add: toy_env_def batch_ok batch_total)
qed

text \<open>
  A message whose compressed form is shorter than the minimal length is lost: \<^verbatim>\<open>serializeTo\<close>
  compresses it and marks the frame, but \<^verbatim>\<open>parseFrom\<close> decompresses only payloads of at least the
  minimal length, takes the first byte of the compressed data (0x1f in every gzip stream) for the
  message type and returns null. Both calls report nothing to the sender.
\<close>

theorem rock_small_compressed_lost:
  assumes "sock_contract (r_sock env) inc out" and "zlib_contract env gz" and "msg_ok msg"
    and "length (msg_enc msg) < 2 ^ 32" and "is_zipped env msg"
    and "gz (msg_enc msg) = 0x1f # z" and "length (gz (msg_enc msg)) < unat (r_min_length env)"
    and "length (gz (msg_enc msg)) < unat (r_max_length env)"
    and "op_connected (r_sock env) s"
  shows "\<exists>s' w. serializeTo env msg s = Some (Inr (int (length w), s')) \<and> out s' = out s @ w \<and>
           (\<forall>r rest. op_connected (r_sock env) r \<longrightarrow> inc r = w @ rest \<longrightarrow>
              (\<exists>r'. parseFrom env r = Some (Inr (None, r')) \<and> inc r' = rest))"
proof -
  have p: "payload env gz msg = gz (msg_enc msg)" using assms(5) by (simp add: payload_def)
  then have ne: "payload env gz msg \<noteq> []" using assms(6) by simp
  have max: "length (payload env gz msg) < unat (r_max_length env)" using assms(8) p by simp
  obtain s' where s': "serializeTo env msg s = Some (Inr (8 + int (length (payload env gz msg)), s'))"
      "out s' = out s @ frame env gz msg"
    using serializeTo_spec [OF assms(1,9,2,3,4) ne] by blast
  have len: "int (length (frame env gz msg)) = 8 + int (length (payload env gz msg))"
    by (simp add: frame_def)
  have "\<exists>r'. parseFrom env r = Some (Inr (None, r')) \<and> inc r' = rest"
    if r: "op_connected (r_sock env) r" and h: "inc r = frame env gz msg @ rest" for r rest
  proof -
    obtain b r' where b: "parseFrom env r = Some (try_or_null r' (parse_message b))" "inc r' = rest"
        "ba_inv b" "ba_unread b = 0x1f # z"
      using parseFrom_frame [OF assms(1) r assms(2) h ne max] assms(6,7) p by auto
    obtain b1 where "readFuint8 b = Inr (0x1f, b1)" using get_u8 [OF b(3,4)] by blast
    then have "parse_message b = Inr None" by (simp add: parse_message_def message_types)
    then show ?thesis using b(1,2) by (simp add: try_or_null_def)
  qed
  with s' len show ?thesis by (intro exI [of _ s'] exI [of _ "frame env gz msg"]) auto
qed

theorem rock_small_compressed_lost_witness:
  "\<exists>s' w r'. serializeTo (toy_env 8) (RockNotify 7 [0, 0, 0, 0, 0]) ([], []) = Some (Inr (int (length w), s')) \<and>
     snd s' = w \<and> parseFrom (toy_env 8) (w, []) = Some (Inr (None, r'))"
proof -
  let ?m = "RockNotify 7 [0, 0, 0, 0, 0]" and ?env = "toy_env 8"
  have enc: "msg_enc ?m = [3, 7, 5, 0, 0, 0, 0, 0]"
    by (simp add: str_enc_def varint_bytes_last)
  have gz: "toy_gz (msg_enc ?m) = [0x1f, 0]" unfolding enc by (simp add: toy_gz_def)
  have zip: "is_zipped ?env ?m" unfolding is_zipped_def enc by (simp add: toy_env_def)
  have sock: "sock_contract (r_sock ?env) fst snd" by (simp add: toy_env_def peer_contract)
  have conn: "op_connected (r_sock ?env) x" for x by (simp add: toy_env_def peer_def)
  have m: "msg_ok ?m" by simp
  have l: "length (msg_enc ?m) < 2 ^ 32" unfolding enc by simp
  have lt: "length (toy_gz (msg_enc ?m)) < unat (r_min_length ?env)"
    "length (toy_gz (msg_enc ?m)) < unat (r_max_length ?env)"
    unfolding gz by (simp_all add: toy_env_def)
  obtain s' w where
    "serializeTo ?env ?m ([], []) = Some (Inr (int (length w), s'))" "snd s' = w"
    and parse: "\<forall>r rest. op_connected (r_sock ?env) r \<longrightarrow> fst r = w @ rest \<longrightarrow>
              (\<exists>r'. parseFrom ?env r = Some (Inr (None, r')) \<and> fst r' = rest)"
    using rock_small_compressed_lost [OF sock toy_contract m l zip gz lt conn, of "([], [])"]
    by auto
  moreover obtain r' where "parseFrom ?env (w, []) = Some (Inr (None, r'))"
    using parse conn [of "(w, [])"] by (metis append_Nil2 fst_conv)
  ultimately show ?thesis by blast
qed

end
