(* ===== verification/WebSocket.thy ===== *)
theory WebSocket imports StreamIO begin

text \<open>
  The websocket frames (\<^verbatim>\<open>seaice/http/ws_session.cpp\<close>): the packed header, the reception of a
  message from its frames, the sending of a frame and the ping and pong frames. The header's bit
  fields are laid out from the least significant bit of each byte, as the compiler does on the
  little-endian host. The random mask is a parameter of the sender. Reception loops until a final
  frame or an error, so it is a partial function; it is proved to come to an end on every finite
  input.
\<close>

section \<open>The frame header\<close>

record ws_head =
  ws_opcode :: "4 word"
  ws_fin :: bool
  ws_rsv1 :: bool
  ws_rsv2 :: bool
  ws_rsv3 :: bool
  ws_payload_len :: "7 word"
  ws_mask :: bool

definition CONTINUE :: "4 word" where "CONTINUE = 0"

definition TEXT_FRAME :: "4 word" where "TEXT_FRAME = 1"

definition BIN_FRAME :: "4 word" where "BIN_FRAME = 2"

definition CLOSE :: "4 word" where "CLOSE = 8"

definition PING :: "4 word" where "PING = 9"

definition PONG :: "4 word" where "PONG = 10"

lemmas ws_opcodes = CONTINUE_def TEXT_FRAME_def BIN_FRAME_def CLOSE_def PING_def PONG_def

definition flag :: "bool \<Rightarrow> nat \<Rightarrow> byte" where
  "flag c i = (if c then push_bit i 1 else 0)"

text \<open>The two bytes of the packed structure, and the structure filled from two bytes.\<close>

definition ws_head_bytes :: "ws_head \<Rightarrow> byte list" where
  "ws_head_bytes h =
     [ucast (ws_opcode h) OR flag (ws_fin h) 4 OR flag (ws_rsv1 h) 5 OR flag (ws_rsv2 h) 6 OR flag (ws_rsv3 h) 7,
      ucast (ws_payload_len h) OR flag (ws_mask h) 7]"

definition ws_head_of :: "byte list \<Rightarrow> ws_head" where
  "ws_head_of bs =
     \<lparr>ws_opcode = ucast (bs ! 0), ws_fin = bit (bs ! 0) 4, ws_rsv1 = bit (bs ! 0) 5,
      ws_rsv2 = bit (bs ! 0) 6, ws_rsv3 = bit (bs ! 0) 7,
      ws_payload_len = ucast (bs ! 1), ws_mask = bit (bs ! 1) 7\<rparr>"

definition ws_head0 :: ws_head where
  "ws_head0 = \<lparr>ws_opcode = 0, ws_fin = False, ws_rsv1 = False, ws_rsv2 = False, ws_rsv3 = False,
               ws_payload_len = 0, ws_mask = False\<rparr>"

record ws_message =
  wm_opcode :: int
  wm_data :: "byte list"

section \<open>Control frames\<close>

definition WSSendPing :: "'s sock_ops \<Rightarrow> 's \<Rightarrow> int \<times> 's" where
  "WSSendPing ops s =
     writeFixSize (SocketStream_write ops) (ws_head_bytes (ws_head0\<lparr>ws_fin := True, ws_opcode := 0xA\<rparr>)) s"

definition WSSendPong :: "'s sock_ops \<Rightarrow> 's \<Rightarrow> int \<times> 's" where
  "WSSendPong ops s =
     writeFixSize (SocketStream_write ops) (ws_head_bytes (ws_head0\<lparr>ws_fin := True, ws_opcode := 0xA\<rparr>)) s"

section \<open>Receiving\<close>

definition ws_xor :: "byte list \<Rightarrow> byte list \<Rightarrow> byte list" where
  "ws_xor key data = map (\<lambda>i. data ! i XOR key ! (i mod 4)) [0..<length data]"

text \<open>
  The length field: \<open>None\<close> when the read fails.
\<close>

definition ws_recv_len :: "'s sock_ops \<Rightarrow> ws_head \<Rightarrow> 's \<Rightarrow> fault + (nat option \<times> 's)" where
  "ws_recv_len ops head s =
     (if ws_payload_len head = 126 then
        rbind (readFixSize (SocketStream_read ops) 2 s) (\<lambda>(rt, bs, s).
          if rt \<le> 0 then Inr (None, s)
          else Inr (Some (unat (byteswapOnLittleEndian (le_word bs :: u16))), s))
      else if ws_payload_len head = 127 then
        rbind (readFixSize (SocketStream_read ops) 8 s) (\<lambda>(rt, bs, s).
          if rt \<le> 0 then Inr (None, s)
          else Inr (Some (unat (byteswapOnLittleEndian (le_word bs :: u64))), s))
      else Inr (Some (unat (ws_payload_len head)), s))"

text \<open>A data frame behind its header: the data so far extended by the frame, \<open>None\<close> for a \<^verbatim>\<open>break\<close>.\<close>

definition ws_recv_frame :: "'s sock_ops \<Rightarrow> u32 \<Rightarrow> bool \<Rightarrow> ws_head \<Rightarrow> byte list \<Rightarrow> 's \<Rightarrow>
    fault + (byte list option \<times> 's)" where
  "ws_recv_frame ops max_size client head data s =
     (if \<not> ws_mask head \<and> \<not> client then Inr (None, s)
      else rbind (ws_recv_len ops head s) (\<lambda>(dataLen, s).
        case dataLen of
          None \<Rightarrow> Inr (None, s)
        | Some dataLen \<Rightarrow>
            if dataLen > unat max_size then Inr (None, s)
            else rbind (if ws_mask head then readFixSize (SocketStream_read ops) 4 s
                        else Inr (1, replicate 4 0, s)) (\<lambda>(rt, key, s).
              if rt \<le> 0 then Inr (None, s)
              else rbind (readFixSize (SocketStream_read ops) dataLen s) (\<lambda>(rt, bs, s).
                if rt \<le> 0 then Inr (None, s)
                else Inr (Some (data @ (if ws_mask head then ws_xor key bs else bs)), s)))))"

partial_function (option) WSRecv_loop ::
  "'s sock_ops \<Rightarrow> u32 \<Rightarrow> bool \<Rightarrow> byte list \<Rightarrow> int \<Rightarrow> 's \<Rightarrow> (fault + (ws_message option \<times> 's)) option" where
  "WSRecv_loop ops max_size client data opcode s =
     (case readFixSize (SocketStream_read ops) 2 s of
        Inl e \<Rightarrow> Some (Inl e)
      | Inr (rt, bs, s1) \<Rightarrow>
          if rt \<le> 0 then Some (Inr (None, SocketStream_close ops s1))
          else
            let head = ws_head_of bs in
            if ws_opcode head = PING then
              (case WSSendPong ops s1 of (rt, s2) \<Rightarrow>
                 if rt \<le> 0 then Some (Inr (None, SocketStream_close ops s2))
                 else WSRecv_loop ops max_size client data opcode s2)
            else if ws_opcode head = PONG then WSRecv_loop ops max_size client data opcode s1
            else if ws_opcode head = CONTINUE \<or> ws_opcode head = TEXT_FRAME \<or> ws_opcode head = BIN_FRAME then
              (case ws_recv_frame ops max_size client head data s1 of
                 Inl e \<Rightarrow> Some (Inl e)
               | Inr (None, s2) \<Rightarrow> Some (Inr (None, SocketStream_close ops s2))
               | Inr (Some data', s2) \<Rightarrow>
                   let opcode' = (if opcode = 0 \<and> ws_opcode head \<noteq> CONTINUE
                                  then uint (ws_opcode head) else opcode) in
                   if ws_fin head then Some (Inr (Some \<lparr>wm_opcode = opcode', wm_data = data'\<rparr>, s2))
                   else WSRecv_loop ops max_size client data' opcode' s2)
            else WSRecv_loop ops max_size client data opcode s1)"

declare WSRecv_loop.simps [code]

definition WSRecvMessage :: "'s sock_ops \<Rightarrow> u32 \<Rightarrow> bool \<Rightarrow> 's \<Rightarrow> (fault + (ws_message option \<times> 's)) option" where
  "WSRecvMessage ops max_size client s = WSRecv_loop ops max_size client [] 0 s"

section \<open>Sending\<close>

definition ws_payload_field :: "nat \<Rightarrow> 7 word" where
  "ws_payload_field dataLen = (if dataLen < 126 then of_nat dataLen else if dataLen \<le> 65535 then 126 else 127)"

text \<open>
  The message is masked in place, so the caller's message is part of the result.
\<close>

definition WSSendMessage :: "'s sock_ops \<Rightarrow> u32 \<Rightarrow> ws_message \<Rightarrow> bool \<Rightarrow> bool \<Rightarrow> 's \<Rightarrow> int \<times> ws_message \<times> 's" where
  "WSSendMessage ops rand message isClient fin s =
     (let wr = writeFixSize (SocketStream_write ops);
          dataLen = length (wm_data message);
          head = ws_head0\<lparr>ws_fin := fin, ws_opcode := word_of_int (wm_opcode message),
                          ws_mask := isClient, ws_payload_len := ws_payload_field dataLen\<rparr> in
      case wr (ws_head_bytes head) s of (rt, s) \<Rightarrow>
        if rt \<le> 0 then (- 1, message, s)
        else
          case (if ws_payload_len head = 126 then
                  wr (le_bytes (byteswapOnLittleEndian (of_nat dataLen :: u16))) s
                else if ws_payload_len head = 127 then
                  wr (le_bytes (byteswapOnLittleEndian (of_nat dataLen :: u64))) s
                else (rt, s)) of (rt, s) \<Rightarrow>
            if rt \<le> 0 then (- 1, message, s)
            else
              let key = le_bytes rand;
                  message' = (if isClient then message\<lparr>wm_data := ws_xor key (wm_data message)\<rparr> else message) in
              case (if isClient then wr key s else (rt, s)) of (rt, s) \<Rightarrow>
                if rt \<le> 0 then (- 1, message', s)
                else
                  case wr (wm_data message') s of (rt, s) \<Rightarrow>
                    if rt \<le> 0 then (- 1, message', s)
                    else (int dataLen + 2, message', s))"

section \<open>The wire format\<close>

lemma bit_flag [simp]: "bit (flag c i) n \<longleftrightarrow> c \<and> n = i \<and> i < 8"
proof -
  have "bit (push_bit i (1 :: byte)) n \<longleftrightarrow> n = i \<and> i < 8"
    unfolding bit_push_bit_iff bit_1_iff by auto
  then show ?thesis by (simp only: flag_def if_split_asm split: if_splits) simp
qed

lemma ws_head_of_bytes: "ws_head_of (ws_head_bytes h @ rest) = h"
proof -
  have 1: "ucast (ucast w OR v) = w" if "\<forall>n<4. \<not> bit v n" for w :: "4 word" and v :: byte
    using that by (intro bit_word_eqI) (auto simp: bit_ucast_iff bit_or_iff)
  have 2: "ucast (ucast w OR v) = w" if "\<forall>n<7. \<not> bit v n" for w :: "7 word" and v :: byte
    using that by (intro bit_word_eqI) (auto simp: bit_ucast_iff bit_or_iff)
  have small: "\<not> bit w 4" "\<not> bit w 5" "\<not> bit w 6" "\<not> bit w 7" for w :: "4 word"
    by (auto dest: bit_imp_le_length)
  have small': "\<not> bit w 7" for w :: "7 word" by (auto dest: bit_imp_le_length)
  show ?thesis
    by (cases h) (simp add: ws_head_of_def ws_head_bytes_def or.assoc 1 2 bit_or_iff bit_ucast_iff small small')
qed

lemma length_ws_head_bytes [simp]: "length (ws_head_bytes h) = 2"
  by (simp add: ws_head_bytes_def)

lemma length_ws_xor [simp]: "length (ws_xor key data) = length data"
  by (simp add: ws_xor_def)

lemma ws_xor_nth [simp]: "i < length data \<Longrightarrow> ws_xor key data ! i = data ! i XOR key ! (i mod 4)"
  by (simp add: ws_xor_def)

lemma ws_xor_ws_xor [simp]: "ws_xor key (ws_xor key data) = data"
  by (rule nth_equalityI) (simp_all add: xor.assoc)

definition ws_len_field :: "nat \<Rightarrow> byte list" where
  "ws_len_field n = (if n < 126 then [] else if n \<le> 65535 then rev (le_bytes (of_nat n :: u16))
                     else rev (le_bytes (of_nat n :: u64)))"

definition ws_frame_head :: "bool \<Rightarrow> bool \<Rightarrow> int \<Rightarrow> nat \<Rightarrow> ws_head" where
  "ws_frame_head isClient fin opcode n =
     ws_head0\<lparr>ws_fin := fin, ws_opcode := word_of_int opcode, ws_mask := isClient,
              ws_payload_len := ws_payload_field n\<rparr>"

definition ws_body :: "bool \<Rightarrow> u32 \<Rightarrow> byte list \<Rightarrow> byte list" where
  "ws_body isClient rand data =
     (if isClient then le_bytes rand @ ws_xor (le_bytes rand) data else data)"

definition ws_frame :: "bool \<Rightarrow> u32 \<Rightarrow> bool \<Rightarrow> int \<Rightarrow> byte list \<Rightarrow> byte list" where
  "ws_frame isClient rand fin opcode data =
     ws_head_bytes (ws_frame_head isClient fin opcode (length data)) @
     ws_len_field (length data) @ ws_body isClient rand data"

lemma ws_payload_field_iff:
  "ws_payload_field n = 126 \<longleftrightarrow> 126 \<le> n \<and> n \<le> 65535" "ws_payload_field n = 127 \<longleftrightarrow> 65535 < n"
  "n < 126 \<Longrightarrow> unat (ws_payload_field n) = n"
proof -
  have small: "unat (of_nat n :: 7 word) = n" if "n < 126" using that by (simp add: unat_of_nat)
  have "(of_nat n :: 7 word) \<noteq> 126 \<and> (of_nat n :: 7 word) \<noteq> 127" if h: "n < 126"
    using small [OF h] h by auto
  then show "ws_payload_field n = 126 \<longleftrightarrow> 126 \<le> n \<and> n \<le> 65535" "ws_payload_field n = 127 \<longleftrightarrow> 65535 < n"
    by (auto simp: ws_payload_field_def)
  show "n < 126 \<Longrightarrow> unat (ws_payload_field n) = n" using small by (simp add: ws_payload_field_def)
qed

lemma WSSendMessage_spec:
  assumes c: "sock_contract ops inc out" and conn: "op_connected ops s" and ne: "wm_data m \<noteq> []"
  shows "\<exists>m' s'. WSSendMessage ops rand m isClient fin s = (int (length (wm_data m)) + 2, m', s') \<and>
           out s' = out s @ ws_frame isClient rand fin (wm_opcode m) (wm_data m) \<and> inc s' = inc s \<and>
           op_connected ops s'"
proof -
  let ?wr = "writeFixSize (SocketStream_write ops)" and ?n = "length (wm_data m)"
  let ?h = "ws_frame_head isClient fin (wm_opcode m) ?n"
  obtain s1 where s1: "?wr (ws_head_bytes ?h) s = (2, s1)" "out s1 = out s @ ws_head_bytes ?h"
      "inc s1 = inc s" "op_connected ops s1"
    using writeFixSize_spec [OF c conn, of "ws_head_bytes ?h"] by auto
  let ?len = "if ws_payload_len ?h = 126 then ?wr (le_bytes (byteswapOnLittleEndian (of_nat ?n :: u16))) s1
        else if ws_payload_len ?h = 127 then ?wr (le_bytes (byteswapOnLittleEndian (of_nat ?n :: u64))) s1
        else (2, s1)"
  have len: "ws_payload_len ?h = ws_payload_field ?n" by (simp add: ws_frame_head_def)
  have "\<exists>rt2 s2. ?len = (rt2, s2) \<and> 0 < rt2 \<and> out s2 = out s1 @ ws_len_field ?n \<and> inc s2 = inc s1 \<and>
      op_connected ops s2"
  proof (cases "?n < 126")
    case True
    then show ?thesis using s1(4) by (simp add: len ws_payload_field_iff(1,2) ws_len_field_def)
  next
    case False
    then show ?thesis
      using writeFixSize_spec [OF c s1(4), of "rev (le_bytes (of_nat ?n :: u16))"]
        writeFixSize_spec [OF c s1(4), of "rev (le_bytes (of_nat ?n :: u64))"]
      by (cases "?n \<le> 65535") (auto simp: len ws_payload_field_iff(1,2) ws_len_field_def)
  qed
  then obtain rt2 s2 where s2: "?len = (rt2, s2)" "0 < rt2" "out s2 = out s1 @ ws_len_field ?n"
      "inc s2 = inc s1" "op_connected ops s2" by blast
  obtain rt3 s3 where s3: "(if isClient then ?wr (le_bytes rand) s2 else (rt2, s2)) = (rt3, s3)" "0 < rt3"
      "out s3 = out s2 @ (if isClient then le_bytes rand else [])" "inc s3 = inc s2" "op_connected ops s3"
    using writeFixSize_spec [OF c s2(5), of "le_bytes rand"] s2(2,5) by (cases isClient) auto
  let ?m = "if isClient then m\<lparr>wm_data := ws_xor (le_bytes rand) (wm_data m)\<rparr> else m"
  obtain s4 where s4: "?wr (wm_data ?m) s3 = (int ?n, s4)" "out s4 = out s3 @ wm_data ?m" "inc s4 = inc s3"
      "op_connected ops s4"
    using writeFixSize_spec [OF c s3(5), of "wm_data ?m"] by auto
  have "WSSendMessage ops rand m isClient fin s = (int ?n + 2, ?m, s4)"
    unfolding WSSendMessage_def Let_def ws_frame_head_def [symmetric]
    using s1(1) s2(1,2) s3(1,2) s4(1) ne by (simp add: ws_frame_head_def)
  moreover have "out s4 = out s @ ws_frame isClient rand fin (wm_opcode m) (wm_data m)"
    using s1(2) s2(3) s3(3) s4(2) by (simp add: ws_frame_def ws_body_def)
  ultimately show ?thesis using s1(3) s2(4) s3(4) s4(3,4) by simp
qed

lemma ws_recv_len_spec:
  assumes c: "sock_contract ops inc out" and conn: "op_connected ops s" and n: "n < 2 ^ 64"
    and h: "ws_payload_len head = ws_payload_field n" and inc: "inc s = ws_len_field n @ rest"
  shows "\<exists>s'. ws_recv_len ops head s = Inr (Some n, s') \<and> inc s' = rest \<and> op_connected ops s'"
proof (cases "n < 126")
  case True
  then show ?thesis
    using inc conn by (simp add: ws_recv_len_def h ws_payload_field_iff ws_len_field_def)
next
  case False
  show ?thesis
  proof (cases "n \<le> 65535")
    case True
    then have "unat (of_nat n :: u16) = n" by (simp add: unat_of_nat)
    with False True inc readFixSize_spec [OF c conn, of 2] byteswap_le_word_rev [where ?'a = 16] show ?thesis
      by (auto simp: ws_recv_len_def h ws_payload_field_iff(1,2) ws_len_field_def)
  next
    case big: False
    have "unat (of_nat n :: u64) = n" using n by (simp add: unat_of_nat)
    with big inc readFixSize_spec [OF c conn, of 8] byteswap_le_word_rev [where ?'a = 64] show ?thesis
      by (auto simp: ws_recv_len_def h ws_payload_field_iff(1,2) ws_len_field_def)
  qed
qed

lemma ws_recv_frame_spec:
  assumes c: "sock_contract ops inc out" and conn: "op_connected ops s"
    and d: "d \<noteq> []" "length d \<le> unat max_size" and who: "isClient \<or> client"
    and inc: "inc s = ws_len_field (length d) @ ws_body isClient rand d @ rest"
  shows "\<exists>s'. ws_recv_frame ops max_size client (ws_frame_head isClient fin opcode (length d)) data s =
           Inr (Some (data @ d), s') \<and> inc s' = rest \<and> op_connected ops s'"
proof -
  let ?h = "ws_frame_head isClient fin opcode (length d)"
  have "length d < 2 ^ 64" using d(2) unsigned_less [of max_size, where ?'a = nat] by simp
  from ws_recv_len_spec [OF c conn this, of ?h] inc obtain s1 where s1:
    "ws_recv_len ops ?h s = Inr (Some (length d), s1)" "inc s1 = ws_body isClient rand d @ rest" "op_connected ops s1"
    by (auto simp: ws_frame_head_def)
  show ?thesis
  proof (cases isClient)
    case True
    obtain s2 where s2: "readFixSize (SocketStream_read ops) 4 s1 = Inr (4, le_bytes rand, s2)"
        "inc s2 = ws_xor (le_bytes rand) d @ rest" "op_connected ops s2"
      using readFixSize_spec [OF c s1(3), of 4] s1(2) True by (auto simp: ws_body_def)
    obtain s3 where s3: "readFixSize (SocketStream_read ops) (length d) s2 =
          Inr (int (length d), ws_xor (le_bytes rand) d, s3)" "inc s3 = rest" "op_connected ops s3"
      using readFixSize_spec [OF c s2(3), of "length d"] s2(2) by auto
    show ?thesis
      using True d s1(1) s2(1) s3 by (simp add: ws_recv_frame_def ws_frame_head_def)
  next
    case False
    obtain s3 where s3: "readFixSize (SocketStream_read ops) (length d) s1 = Inr (int (length d), d, s3)"
        "inc s3 = rest" "op_connected ops s3"
      using readFixSize_spec [OF c s1(3), of "length d"] s1(2) False by (auto simp: ws_body_def)
    show ?thesis
      using False who d s1(1) s3 by (simp add: ws_recv_frame_def ws_frame_head_def ws_head0_def)
  qed
qed

text \<open>A message in fragments: the first frame carries the opcode, the last one the fin flag.\<close>

fun ws_stream :: "bool \<Rightarrow> int \<Rightarrow> (u32 \<times> byte list) list \<Rightarrow> byte list" where
  "ws_stream isClient opcode [] = []"
| "ws_stream isClient opcode ((rand, d) # fs) =
     ws_frame isClient rand (fs = []) opcode d @ ws_stream isClient 0 fs"

lemma ws_frame_read_head:
  assumes c: "sock_contract ops inc out" and conn: "op_connected ops s"
    and inc: "inc s = ws_frame isClient rand fin opcode d @ rest"
  shows "\<exists>s1 bs. readFixSize (SocketStream_read ops) 2 s = Inr (2, bs, s1) \<and>
           ws_head_of bs = ws_frame_head isClient fin opcode (length d) \<and> op_connected ops s1 \<and>
           inc s1 = ws_len_field (length d) @ ws_body isClient rand d @ rest"
proof -
  let ?h = "ws_frame_head isClient fin opcode (length d)"
  have "inc s = ws_head_bytes ?h @ ws_len_field (length d) @ ws_body isClient rand d @ rest"
    using inc by (simp add: ws_frame_def)
  with readFixSize_spec [OF c conn, of 2] ws_head_of_bytes [of ?h "[]"] show ?thesis by auto
qed

lemma data_opcode:
  assumes "opcode \<in> {0, 1, 2 :: int}"
  shows "(word_of_int opcode :: 4 word) = CONTINUE \<or> (word_of_int opcode :: 4 word) = TEXT_FRAME \<or>
           (word_of_int opcode :: 4 word) = BIN_FRAME"
    and "(word_of_int opcode :: 4 word) \<noteq> PING" and "(word_of_int opcode :: 4 word) \<noteq> PONG"
    and "uint (word_of_int opcode :: 4 word) = opcode" and "(word_of_int opcode :: 4 word) = CONTINUE \<longleftrightarrow> opcode = 0"
  using assms by (auto simp: ws_opcodes)

lemma WSRecv_loop_spec:
  assumes c: "sock_contract ops inc out" and who: "isClient \<or> client"
    and "fs \<noteq> []" and "\<forall>(rand, d) \<in> set fs. d \<noteq> [] \<and> length d \<le> unat max_size" and "opcode \<in> {0, 1, 2}"
    and "op_connected ops s" and "inc s = ws_stream isClient opcode fs @ rest"
  shows "\<exists>s'. WSRecv_loop ops max_size client data o1 s =
      Some (Inr (Some \<lparr>wm_opcode = (if o1 = 0 then opcode else o1), wm_data = data @ concat (map snd fs)\<rparr>, s')) \<and>
      inc s' = rest"
  using assms(3-)
proof (induction fs arbitrary: opcode o1 data s)
  case Nil
  then show ?case by simp
next
  case (Cons f fs)
  obtain rand d where f: "f = (rand, d)" by fastforce
  let ?h = "ws_frame_head isClient (fs = []) opcode (length d)"
  let ?o = "if o1 = 0 then opcode else o1"
  have inc: "inc s = ws_frame isClient rand (fs = []) opcode d @ (ws_stream isClient 0 fs @ rest)"
    using Cons.prems(5) f by simp
  from ws_frame_read_head [OF c Cons.prems(4) inc] obtain s1 bs where
    s1: "readFixSize (SocketStream_read ops) 2 s = Inr (2, bs, s1)" "ws_head_of bs = ?h" "op_connected ops s1"
      "inc s1 = ws_len_field (length d) @ ws_body isClient rand d @ (ws_stream isClient 0 fs @ rest)" by blast
  have d: "d \<noteq> []" "length d \<le> unat max_size" using Cons.prems(2) f by auto
  from ws_recv_frame_spec [OF c s1(3) d who s1(4)] obtain s2 where
    s2: "ws_recv_frame ops max_size client ?h data s1 = Inr (Some (data @ d), s2)"
      "inc s2 = ws_stream isClient 0 fs @ rest" "op_connected ops s2" by blast
  note op = data_opcode [OF Cons.prems(3)]
  have head: "ws_opcode ?h = word_of_int opcode" "ws_fin ?h = (fs = [])"
    by (simp_all add: ws_frame_head_def)
  have step: "WSRecv_loop ops max_size client data o1 s =
      (if fs = [] then Some (Inr (Some \<lparr>wm_opcode = ?o, wm_data = data @ d\<rparr>, s2))
       else WSRecv_loop ops max_size client (data @ d) ?o s2)"
    using s1(1,2) s2(1) head op by (subst WSRecv_loop.simps) (auto simp: Let_def)
  show ?case
  proof (cases "fs = []")
    case True
    then show ?thesis using step s2(2) f by simp
  next
    case False
    have "\<forall>(rand, d) \<in> set fs. d \<noteq> [] \<and> length d \<le> unat max_size" using Cons.prems(2) by simp
    from Cons.IH [OF False this _ s2(3,2), of "data @ d" ?o] step False f show ?thesis by auto
  qed
qed

text \<open>The calls that send a message in fragments, each with the fin flag of its place.\<close>

fun ws_send_all :: "'s sock_ops \<Rightarrow> bool \<Rightarrow> int \<Rightarrow> (u32 \<times> byte list) list \<Rightarrow> 's \<Rightarrow> int list \<times> 's" where
  "ws_send_all ops isClient opcode [] s = ([], s)"
| "ws_send_all ops isClient opcode ((rand, d) # fs) s =
     (case WSSendMessage ops rand \<lparr>wm_opcode = opcode, wm_data = d\<rparr> isClient (fs = []) s of (rt, _, s) \<Rightarrow>
      case ws_send_all ops isClient 0 fs s of (rts, s) \<Rightarrow> (rt # rts, s))"

lemma ws_send_all_spec:
  assumes c: "sock_contract ops inc out" and "op_connected ops s" and "\<forall>(rand, d) \<in> set fs. d \<noteq> []"
  shows "\<exists>s'. ws_send_all ops isClient opcode fs s = (map (\<lambda>(rand, d). int (length d) + 2) fs, s') \<and>
           out s' = out s @ ws_stream isClient opcode fs \<and> inc s' = inc s"
  using assms(2-)
proof (induction fs arbitrary: opcode s)
  case Nil
  then show ?case by simp
next
  case (Cons f fs)
  obtain rand d where f: "f = (rand, d)" by fastforce
  with Cons.prems(2) have "wm_data \<lparr>wm_opcode = opcode, wm_data = d\<rparr> \<noteq> []" by simp
  from WSSendMessage_spec [OF c Cons.prems(1) this, of rand isClient "fs = []"] obtain m' s1 where
    s1: "WSSendMessage ops rand \<lparr>wm_opcode = opcode, wm_data = d\<rparr> isClient (fs = []) s = (int (length d) + 2, m', s1)"
      "out s1 = out s @ ws_frame isClient rand (fs = []) opcode d" "inc s1 = inc s" "op_connected ops s1" by auto
  from Cons.IH [OF s1(4), of 0] Cons.prems(2) s1 f show ?case by auto
qed

section \<open>Termination\<close>

lemma ws_recv_len_total:
  assumes c: "sock_contract ops inc out" and conn: "op_connected ops s"
  shows "\<exists>r s'. ws_recv_len ops head s = Inr (r, s') \<and> length (inc s') \<le> length (inc s) \<and> op_connected ops s'"
  using readFixSize_spec [OF c conn, of 2] readFixSize_spec [OF c conn, of 8] conn
  by (auto simp: ws_recv_len_def)

lemma ws_recv_frame_total:
  assumes c: "sock_contract ops inc out" and conn: "op_connected ops s"
  shows "\<exists>r s'. ws_recv_frame ops max_size client head data s = Inr (r, s') \<and>
           length (inc s') \<le> length (inc s) \<and> op_connected ops s'"
proof -
  obtain r1 s1 where s1: "ws_recv_len ops head s = Inr (r1, s1)" "length (inc s1) \<le> length (inc s)"
      "op_connected ops s1"
    using ws_recv_len_total [OF c conn] by blast
  obtain rt2 key s2 where s2: "(if ws_mask head then readFixSize (SocketStream_read ops) 4 s1
        else Inr (1, replicate 4 0, s1)) = Inr (rt2, key, s2)" "length (inc s2) \<le> length (inc s)" "op_connected ops s2"
    using readFixSize_spec [OF c s1(3), of 4] s1(2,3) by (cases "ws_mask head") auto
  obtain rt3 bs s3 where s3: "readFixSize (SocketStream_read ops) (the r1) s2 = Inr (rt3, bs, s3)"
      "length (inc s3) \<le> length (inc s)" "op_connected ops s3"
    using readFixSize_spec [OF c s2(3), of "the r1"] s2(2) by auto
  show ?thesis
  proof (cases r1)
    case None
    then show ?thesis using s1 conn by (auto simp: ws_recv_frame_def)
  next
    case (Some n)
    then show ?thesis
      unfolding ws_recv_frame_def using s1 s2 s3 conn by auto
  qed
qed

text \<open>What a reception does to the stream: it is closed, or a message was there and took at least one byte.\<close>

definition recv_progress :: "'s sock_ops \<Rightarrow> ('s \<Rightarrow> byte list) \<Rightarrow> 's \<Rightarrow> 'a option \<Rightarrow> 's \<Rightarrow> bool" where
  "recv_progress ops inc s m s' =
     (case m of
        None \<Rightarrow> \<exists>s1. s' = SocketStream_close ops s1
      | Some _ \<Rightarrow> op_connected ops s' \<and> length (inc s') < length (inc s))"

lemma recv_progress_earlier: "recv_progress ops inc s1 m s' \<Longrightarrow> length (inc s1) < length (inc s) \<Longrightarrow> recv_progress ops inc s m s'"
  by (auto simp: recv_progress_def split: option.splits)

lemma WSRecv_loop_total:
  assumes c: "sock_contract ops inc out" and "op_connected ops s"
  shows "\<exists>m s'. WSRecv_loop ops max_size client data o1 s = Some (Inr (m, s')) \<and> recv_progress ops inc s m s'"
  using assms(2)
proof (induction "length (inc s)" arbitrary: s data o1 rule: less_induct)
  case less
  obtain s1 where s1: "readFixSize (SocketStream_read ops) 2 s =
      Inr (if 2 \<le> length (inc s) then 2 else 0, take 2 (inc s), s1)" "inc s1 = drop 2 (inc s)" "op_connected ops s1"
    using readFixSize_spec [OF c less.prems, of 2] by auto
  show ?case
  proof (cases "2 \<le> length (inc s)")
    case False
    then show ?thesis using s1 by (subst WSRecv_loop.simps) (auto simp: recv_progress_def)
  next
    case True
    let ?h = "ws_head_of (take 2 (inc s))"
    have rd: "readFixSize (SocketStream_read ops) 2 s = Inr (2, take 2 (inc s), s1)" using s1(1) True by simp
    have again: "\<exists>m s'. WSRecv_loop ops max_size client d o2 s2 = Some (Inr (m, s')) \<and> recv_progress ops inc s m s'"
      if "length (inc s2) \<le> length (inc s1)" "op_connected ops s2" for d o2 s2
    proof -
      have "length (inc s2) < length (inc s)" using that s1(2) True by simp
      from less.hyps [OF this that(2), of d o2] this show ?thesis by (auto intro: recv_progress_earlier)
    qed
    consider (ping) "ws_opcode ?h = PING" | (frame) "ws_opcode ?h \<noteq> PING" "ws_opcode ?h \<noteq> PONG"
        "ws_opcode ?h = CONTINUE \<or> ws_opcode ?h = TEXT_FRAME \<or> ws_opcode ?h = BIN_FRAME"
      | (other) "ws_opcode ?h \<noteq> PING"
        "ws_opcode ?h = PONG \<or> \<not> (ws_opcode ?h = CONTINUE \<or> ws_opcode ?h = TEXT_FRAME \<or> ws_opcode ?h = BIN_FRAME)"
      by blast
    then show ?thesis
    proof cases
      case ping
      obtain s2 where "WSSendPong ops s1 = (2, s2)" "inc s2 = inc s1" "op_connected ops s2"
        using writeFixSize_spec [OF c s1(3)] unfolding WSSendPong_def by (metis length_ws_head_bytes of_nat_numeral)
      with again [of s2 data o1] rd ping show ?thesis by (subst WSRecv_loop.simps) (simp add: Let_def)
    next
      case other
      from again [of s1 data o1] s1(3)
      have "\<exists>m s'. WSRecv_loop ops max_size client data o1 s1 = Some (Inr (m, s')) \<and> recv_progress ops inc s m s'" by simp
      with rd other show ?thesis by (subst WSRecv_loop.simps) (auto simp: Let_def)
    next
      case frame
      obtain r s2 where r: "ws_recv_frame ops max_size client ?h data s1 = Inr (r, s2)"
          "length (inc s2) \<le> length (inc s1)" "op_connected ops s2"
        using ws_recv_frame_total [OF c s1(3)] by blast
      let ?o = "if o1 = 0 \<and> ws_opcode ?h \<noteq> CONTINUE then uint (ws_opcode ?h) else o1"
      have "WSRecv_loop ops max_size client data o1 s =
          (case r of None \<Rightarrow> Some (Inr (None, SocketStream_close ops s2))
           | Some d \<Rightarrow> if ws_fin ?h then Some (Inr (Some \<lparr>wm_opcode = ?o, wm_data = d\<rparr>, s2))
                       else WSRecv_loop ops max_size client d ?o s2)"
        using rd frame r(1) by (subst WSRecv_loop.simps) (simp add: Let_def split: option.split)
      moreover have "recv_progress ops inc s None (SocketStream_close ops s2)" "recv_progress ops inc s (Some x) s2" for x
        using r(2,3) s1(2) True by (auto simp: recv_progress_def)
      ultimately show ?thesis using again [OF r(2,3)] by (cases r) auto
    qed
  qed
qed

section \<open>Properties\<close>





text \<open>
  The header does not have the bit order of RFC 6455: the first byte 0x81 of an unfragmented text
  frame is read as a text frame without the fin flag (the flag is bit 4 here, bit 7 there), so the
  receiver waits for a continuation; and the frame of \<^verbatim>\<open>WSSendPing\<close> is the one of \<^verbatim>\<open>WSSendPong\<close>.
\<close>

theorem ws_header_not_rfc6455:
  "ws_opcode (ws_head_of [0x81, n]) = TEXT_FRAME \<and> \<not> ws_fin (ws_head_of [0x81, n]) \<and>
   ws_rsv3 (ws_head_of [0x81, n]) \<and>
   ws_head_bytes (ws_head0\<lparr>ws_fin := True, ws_opcode := TEXT_FRAME\<rparr>) = [0x11, 0] \<and>
   WSSendPing ops s = WSSendPong ops s"
  by (simp add: ws_head_of_def ws_head_bytes_def ws_head0_def ws_opcodes flag_def WSSendPing_def WSSendPong_def
      bit_numeral_rec)

end
