(* ===== verification/Containers.thy ===== *)
theory Containers imports Prelude "HOL-Library.AList" "HOL-Library.Product_Lexorder" begin

text \<open>
  The containers of the C++ standard library that the caches, the timers and the configuration
  use. A \<^verbatim>\<open>std::unordered_map\<close> or \<^verbatim>\<open>std::map\<close> is an association list with distinct keys, a
  \<^verbatim>\<open>std::set\<close> with a comparator is the list of its elements in ascending order of the sort key \<open>f\<close>:
  two elements with the same key are equivalent, and only one of them is kept. A \<^verbatim>\<open>std::list\<close> is a
  list of nodes, each with the identity that its iterators hold.
\<close>

section \<open>Maps\<close>

text \<open>\<^verbatim>\<open>insert\<close> leaves an existing entry alone, \<^verbatim>\<open>operator[] =\<close> replaces it.\<close>

definition map_insert :: "'k \<Rightarrow> 'v \<Rightarrow> ('k \<times> 'v) list \<Rightarrow> ('k \<times> 'v) list" where
  "map_insert k v m = (if map_of m k = None then (k, v) # m else m)"

definition map_erase :: "'k \<Rightarrow> ('k \<times> 'v) list \<Rightarrow> ('k \<times> 'v) list" where
  "map_erase k m = filter (\<lambda>p. fst p \<noteq> k) m"

lemma map_of_map_erase: "map_of (map_erase k m) = (map_of m)(k := None)"
  by (induction m) (auto simp: map_erase_def fun_eq_iff)

lemma set_map_erase [simp]: "set (map_erase k m) = {p \<in> set m. fst p \<noteq> k}"
  by (simp add: map_erase_def)

lemma distinct_map_erase [simp]: "distinct (map fst m) \<Longrightarrow> distinct (map fst (map_erase k m))"
  by (simp add: map_erase_def distinct_map_filter)

lemma map_of_map_insert: "map_of (map_insert k v m) = (if map_of m k = None then (map_of m)(k \<mapsto> v) else map_of m)"
  by (simp add: map_insert_def)

lemma distinct_map_insert [simp]: "distinct (map fst m) \<Longrightarrow> distinct (map fst (map_insert k v m))"
  by (auto simp: map_insert_def map_of_eq_None_iff)

lemma length_map_erase:
  assumes "distinct (map fst m)"
  shows "length (map_erase k m) = (if map_of m k = None then length m else length m - 1)"
proof -
  have "length (map_erase k m) = card (fst ` set m - {k})"
  proof -
    have "length (map_erase k m) = card (fst ` set (map_erase k m))"
      using distinct_card [of "map fst (map_erase k m)"] assms by simp
    also have "fst ` set (map_erase k m) = fst ` set m - {k}" by force
    finally show ?thesis .
  qed
  moreover have "length m = card (fst ` set m)"
    using distinct_card [OF assms] by simp
  ultimately show ?thesis
    by (auto simp: map_of_eq_None_iff card_Diff_singleton)
qed

section \<open>Ordered sets\<close>

definition set_insert :: "('a \<Rightarrow> 'b::linorder) \<Rightarrow> 'a \<Rightarrow> 'a list \<Rightarrow> 'a list" where
  "set_insert f x xs = (if f x \<in> f ` set xs then xs else insort_key f x xs)"

definition set_erase :: "('a \<Rightarrow> 'b::linorder) \<Rightarrow> 'a \<Rightarrow> 'a list \<Rightarrow> 'a list" where
  "set_erase f x xs = filter (\<lambda>y. f y \<noteq> f x) xs"

text \<open>The list is in the order of the comparator and holds no two equivalent elements.\<close>

definition set_sorted :: "('a \<Rightarrow> 'b::linorder) \<Rightarrow> 'a list \<Rightarrow> bool" where
  "set_sorted f xs \<longleftrightarrow> sorted (map f xs) \<and> distinct (map f xs)"

lemma set_sorted_Nil [simp]: "set_sorted f []"
  by (simp add: set_sorted_def)

lemma set_sorted_Cons: "set_sorted f (x # xs) \<longleftrightarrow> set_sorted f xs \<and> (\<forall>y \<in> set xs. f x < f y)"
  by (auto simp: set_sorted_def less_le)

lemma set_sorted_inj: "set_sorted f xs \<Longrightarrow> x \<in> set xs \<Longrightarrow> y \<in> set xs \<Longrightarrow> f x = f y \<Longrightarrow> x = y"
  by (simp add: set_sorted_def distinct_map inj_on_def)

lemma set_sorted_distinct: "set_sorted f xs \<Longrightarrow> distinct xs"
  by (auto simp: set_sorted_def distinct_map)

lemma set_set_insert [simp]: "f x \<notin> f ` set xs \<Longrightarrow> set (set_insert f x xs) = insert x (set xs)"
  by (simp add: set_insert_def set_insort_key)

lemma set_sorted_insert [simp]: "set_sorted f xs \<Longrightarrow> set_sorted f (set_insert f x xs)"
proof -
  have "distinct (map f (insort_key f x xs))" if "distinct (map f xs)" "f x \<notin> f ` set xs"
    using that by (induction xs) (auto simp: set_insort_key)
  then show "set_sorted f xs \<Longrightarrow> set_sorted f (set_insert f x xs)"
    by (auto simp: set_sorted_def set_insert_def sorted_insort_key)
qed

lemma set_set_erase:
  "set_sorted f xs \<Longrightarrow> x \<in> set xs \<Longrightarrow> set (set_erase f x xs) = set xs - {x}"
  using set_sorted_inj [of f xs] by (auto simp: set_erase_def)

lemma set_sorted_erase [simp]: "set_sorted f xs \<Longrightarrow> set_sorted f (set_erase f x xs)"
  by (simp add: set_sorted_def set_erase_def sorted_filter distinct_map_filter)

lemma set_sorted_filter [simp]: "set_sorted f xs \<Longrightarrow> set_sorted f (filter P xs)"
  by (simp add: set_sorted_def sorted_filter distinct_map_filter)

lemma set_sorted_cong: "(\<And>x. x \<in> set xs \<Longrightarrow> f x = g x) \<Longrightarrow> set_sorted f xs = set_sorted g xs"
  by (simp add: set_sorted_def cong: map_cong)

text \<open>The elements up to a bound are a prefix.\<close>

lemma set_sorted_takeWhile:
  assumes "set_sorted f xs" and "\<And>x y. f x \<le> f y \<Longrightarrow> P y \<Longrightarrow> P x"
  shows "takeWhile P xs = filter P xs" and "dropWhile P xs = filter (\<lambda>x. \<not> P x) xs"
proof -
  have "takeWhile P xs = filter P xs \<and> dropWhile P xs = filter (\<lambda>x. \<not> P x) xs"
    using assms(1)
  proof (induction xs)
    case Nil
    then show ?case by simp
  next
    case (Cons x xs)
    show ?case
    proof (cases "P x")
      case True
      with Cons show ?thesis by (simp add: set_sorted_Cons)
    next
      case False
      have "\<not> P y" if "y \<in> set xs" for y
        using False assms(2) [of x y] Cons.prems that by (auto simp: set_sorted_Cons less_imp_le)
      then have "filter P xs = []" "filter (\<lambda>x. \<not> P x) xs = xs" by (auto simp: filter_id_conv)
      with False show ?thesis by simp
    qed
  qed
  then show "takeWhile P xs = filter P xs" "dropWhile P xs = filter (\<lambda>x. \<not> P x) xs" by blast+
qed

section \<open>Lists of nodes\<close>

text \<open>\<^verbatim>\<open>splice\<close> of one node to the front, and \<^verbatim>\<open>erase\<close> of a node.\<close>

definition node_erase :: "nat \<Rightarrow> (nat \<times> 'a) list \<Rightarrow> (nat \<times> 'a) list" where
  "node_erase i ns = filter (\<lambda>p. fst p \<noteq> i) ns"

definition node_to_front :: "nat \<Rightarrow> (nat \<times> 'a) list \<Rightarrow> (nat \<times> 'a) list" where
  "node_to_front i ns = filter (\<lambda>p. fst p = i) ns @ node_erase i ns"

definition node_update :: "nat \<Rightarrow> ('a \<Rightarrow> 'a) \<Rightarrow> (nat \<times> 'a) list \<Rightarrow> (nat \<times> 'a) list" where
  "node_update i g ns = map (\<lambda>(j, x). (j, if j = i then g x else x)) ns"

lemma map_of_node_erase: "map_of (node_erase i ns) = (map_of ns)(i := None)"
  using map_of_map_erase [of i ns] by (simp add: node_erase_def map_erase_def)

lemma set_node_erase [simp]: "set (node_erase i ns) = {p \<in> set ns. fst p \<noteq> i}"
  by (simp add: node_erase_def)

lemma set_node_to_front [simp]: "set (node_to_front i ns) = set ns"
  by (auto simp: node_to_front_def)

lemma filter_fst_eq:
  "distinct (map fst ns) \<Longrightarrow> map_of ns i = Some x \<Longrightarrow> filter (\<lambda>p. fst p = i) ns = [(i, x)]"
proof (induction ns)
  case Nil
  then show ?case by simp
next
  case (Cons p ns)
  show ?case
  proof (cases "fst p = i")
    case True
    have "filter (\<lambda>p. fst p = i) ns = []"
      using Cons.prems(1) True by (auto simp: filter_empty_conv image_iff)
    with True Cons.prems show ?thesis by (cases p) auto
  next
    case False
    with Cons show ?thesis by (cases p) auto
  qed
qed

lemma node_to_front_eq:
  "distinct (map fst ns) \<Longrightarrow> map_of ns i = Some x \<Longrightarrow> node_to_front i ns = (i, x) # node_erase i ns"
  by (simp add: node_to_front_def filter_fst_eq)

lemma map_fst_node_update [simp]: "map fst (node_update i g ns) = map fst ns"
  by (induction ns) (auto simp: node_update_def)

lemma map_of_node_update:
  "map_of (node_update i g ns) = (\<lambda>j. if j = i then map_option g (map_of ns i) else map_of ns j)"
  by (induction ns) (auto simp: node_update_def fun_eq_iff)

lemma node_update_simps [simp]:
  "node_update i g [] = []"
  "node_update i g ((j, x) # ns) = (j, if j = i then g x else x) # node_update i g ns"
  by (simp_all add: node_update_def)

lemma node_update_erase [simp]: "node_update i g (node_erase i ns) = node_erase i ns"
  by (induction ns) (auto simp: node_erase_def)

end
