(* ===== verification/Text.thy ===== *)
theory Text imports Prelude begin

text \<open>
  Numbers and punctuation in text, as the streams of C++ write them, and readers for what they write. The readers belong
  to no component: they are the other end of the round trips that the components state of their text forms.
\<close>

section \<open>Numbers\<close>

text \<open>Unsigned decimal output.\<close>

fun dec :: "nat \<Rightarrow> string" where
  "dec n = (if n < 10 then [char_of (48 + n)] else dec (n div 10) @ [char_of (48 + n mod 10)])"

declare dec.simps [simp del]

text \<open>\<^verbatim>\<open>tolower\<close> in the C locale, on character codes.\<close>

definition lower :: "nat \<Rightarrow> nat" where
  "lower n = (if 65 \<le> n \<and> n \<le> 90 then n + 32 else n)"

definition str_lower :: "string \<Rightarrow> string" where
  "str_lower s = map (\<lambda>c. char_of (lower (of_char c))) s"

text \<open>Hexadecimal output, in lower case.\<close>

definition hex_char :: "nat \<Rightarrow> char" where
  "hex_char d = char_of (if d < 10 then 48 + d else 87 + d)"

fun hexd :: "nat \<Rightarrow> string" where
  "hexd n = (if n < 16 then [hex_char n] else hexd (n div 16) @ [hex_char (n mod 16)])"

declare hexd.simps [simp del]

lemma dec_digits: "set (dec n) \<subseteq> set ''0123456789''" and dec_nonempty: "dec n \<noteq> []"
proof (induction n rule: dec.induct)
  case (1 n)
  have digit: "char_of (48 + d) \<in> set ''0123456789''" if "d < 10" for d :: nat
  proof -
    have "\<forall>d \<in> set [0..<10]. char_of (48 + d) \<in> set ''0123456789''" by code_simp
    with that show ?thesis by simp
  qed
  {
    case 1
    then show ?case using digit [of n] digit [of "n mod 10"] "1.IH"(1) by (subst dec.simps) auto
  next
    case 2
    then show ?case by (subst dec.simps) auto
  }
qed

text \<open>The value of a digit in a base up to 16, and of a non-empty text of digits.\<close>

definition digit_val :: "nat \<Rightarrow> char \<Rightarrow> nat option" where
  "digit_val base c =
     (let n = of_char c; v = (if 48 \<le> n \<and> n \<le> 57 then n - 48 else if 97 \<le> n \<and> n \<le> 102 then n - 87 else base) in
      if v < base then Some v else None)"

fun read_digits :: "nat \<Rightarrow> nat \<Rightarrow> string \<Rightarrow> nat option" where
  "read_digits base n [] = Some n"
| "read_digits base n (c # cs) = (case digit_val base c of None \<Rightarrow> None | Some d \<Rightarrow> read_digits base (n * base + d) cs)"

definition read_num :: "nat \<Rightarrow> string \<Rightarrow> nat option" where
  "read_num base s = (if s = [] then None else read_digits base 0 s)"

lemma read_digits_append:
  "read_digits base n (s @ t) = Option.bind (read_digits base n s) (\<lambda>m. read_digits base m t)"
  by (induction base n s rule: read_digits.induct) (auto split: option.split)

lemma digit_val_dec: "d < 10 \<Longrightarrow> digit_val 10 (char_of (48 + d)) = Some d"
  by (simp add: digit_val_def Let_def of_char_of)

lemma digit_val_hex: "d < 16 \<Longrightarrow> digit_val 16 (hex_char d) = Some d"
  by (auto simp: digit_val_def hex_char_def Let_def of_char_of)

lemma read_dec [simp]: "read_num 10 (dec n) = Some n"
proof -
  have "read_digits 10 0 (dec n) = Some n"
  proof (induction n rule: dec.induct)
    case (1 n)
    then show ?case
      by (subst dec.simps) (auto simp: digit_val_dec read_digits_append)
  qed
  then show ?thesis using dec_nonempty [of n] by (simp add: read_num_def)
qed

lemma hexd_nonempty: "hexd n \<noteq> []"
  by (subst hexd.simps) simp

lemma read_hexd [simp]: "read_num 16 (hexd n) = Some n"
proof -
  have "read_digits 16 0 (hexd n) = Some n"
  proof (induction n rule: hexd.induct)
    case (1 n)
    then show ?case
      by (subst hexd.simps) (auto simp: digit_val_hex read_digits_append)
  qed
  then show ?thesis using hexd_nonempty [of n] by (simp add: read_num_def)
qed

lemma hexd_digits: "set (hexd n) \<subseteq> set ''0123456789abcdef''"
proof (induction n rule: hexd.induct)
  case (1 n)
  have "\<forall>d \<in> set [0..<16]. hex_char d \<in> set ''0123456789abcdef''" by code_simp
  then have "hex_char d \<in> set ''0123456789abcdef''" if "d < 16" for d using that by simp
  from this [of n] this [of "n mod 16"] "1.IH" show ?case by (subst hexd.simps) auto
qed

lemma length_hexd: "n < 16 ^ Suc k \<Longrightarrow> length (hexd n) \<le> Suc k"
proof (induction k arbitrary: n)
  case 0
  then show ?case by (subst hexd.simps) simp
next
  case (Suc k)
  then have "n div 16 < 16 ^ Suc k" by (simp add: less_mult_imp_div_less mult.commute)
  from Suc.IH [OF this] show ?case by (subst hexd.simps) simp
qed

section \<open>Separators\<close>

lemma takeWhile_prefix: "(\<And>x. x \<in> set as \<Longrightarrow> P x) \<Longrightarrow> \<not> P b \<Longrightarrow> takeWhile P (as @ b # bs) = as"
  by (induction as) auto

text \<open>The pieces of a text between the occurrences of a separator, and its inverse.\<close>

fun pieces :: "'a \<Rightarrow> 'a list \<Rightarrow> 'a list list" where
  "pieces c [] = [[]]"
| "pieces c (x # xs) =
     (if x = c then [] # pieces c xs
      else case pieces c xs of [] \<Rightarrow> [[x]] | p # ps \<Rightarrow> (x # p) # ps)"

fun joined :: "'a list \<Rightarrow> 'a list list \<Rightarrow> 'a list" where
  "joined sep [] = []"
| "joined sep [p] = p"
| "joined sep (p # ps) = p @ sep @ joined sep ps"

lemma joined_Cons: "ps \<noteq> [] \<Longrightarrow> joined sep (p # ps) = p @ sep @ joined sep ps"
  by (cases ps) simp_all

lemma set_joined: "set (joined sep ps) \<subseteq> set sep \<union> (\<Union>p \<in> set ps. set p)"
  by (induction sep ps rule: joined.induct) auto

lemma pieces_nonempty: "pieces c xs \<noteq> []"
  by (induction c xs rule: pieces.induct) (auto split: list.split)

lemma pieces_append: "c \<notin> set p \<Longrightarrow> pieces c (p @ c # xs) = p # pieces c xs"
  by (induction p) auto

lemma pieces_single: "c \<notin> set p \<Longrightarrow> pieces c p = [p]"
  by (induction p) auto

lemma pieces_joined: "ps \<noteq> [] \<Longrightarrow> list_all (\<lambda>p. c \<notin> set p) ps \<Longrightarrow> pieces c (joined [c] ps) = ps"
  by (induction "[c]" ps rule: joined.induct) (auto simp: pieces_single pieces_append)

text \<open>The text before and behind the first occurrence of a character.\<close>

definition cut_at :: "'a \<Rightarrow> 'a list \<Rightarrow> ('a list \<times> 'a list) option" where
  "cut_at c xs = (if c \<in> set xs then Some (takeWhile (\<lambda>x. x \<noteq> c) xs, tl (dropWhile (\<lambda>x. x \<noteq> c) xs)) else None)"

lemma cut_at_append: "c \<notin> set p \<Longrightarrow> cut_at c (p @ c # xs) = Some (p, xs)"
  by (induction p) (auto simp: cut_at_def)

end
