(* ===== verification/Http.thy ===== *)
theory Http imports Containers Text "HOL-Library.List_Lexorder" "HOL-Library.Sublist" begin

text \<open>
  Requests and responses of HTTP (\<^verbatim>\<open>seaice/http/http.h\<close>, \<^verbatim>\<open>seaice/http/http.cpp\<close>): the tables of methods
  and status codes, the header maps with their case-insensitive order, and the text of the messages.
  Methods and status codes are the numbers of the C++ enumerations, which the code also makes by casts.
\<close>

section \<open>Strings\<close>

abbreviation NUL :: char where "NUL \<equiv> CHR 0x00"
abbreviation CR :: char where "CR \<equiv> CHR 0x0D"
abbreviation LF :: char where "LF \<equiv> CHR 0x0A"

definition crlf :: string where "crlf = [CR, LF]"

text \<open>What a C function sees of a string: the characters before the first NUL.\<close>

definition c_str :: "string \<Rightarrow> string" where
  "c_str s = takeWhile (\<lambda>c. c \<noteq> NUL) s"

text \<open>What \<^verbatim>\<open>strcasecmp\<close> compares, in lexicographic order.\<close>

definition ci_key :: "string \<Rightarrow> nat list" where
  "ci_key s = map (\<lambda>c. lower (of_char c)) (c_str s)"

text \<open>\<^verbatim>\<open>strcasecmp(a, b) == 0\<close>.\<close>

definition ci_eq :: "string \<Rightarrow> string \<Rightarrow> bool" where
  "ci_eq a b \<longleftrightarrow> ci_key a = ci_key b"

definition CaseInsensitiveLess :: "string \<Rightarrow> string \<Rightarrow> bool" where
  "CaseInsensitiveLess lhs rhs \<longleftrightarrow> ci_key lhs < ci_key rhs"

section \<open>Methods and status codes\<close>

type_synonym http_method = nat
type_synonym http_status = nat

definition HTTP_METHOD_MAP :: "(nat \<times> string) list" where
  "HTTP_METHOD_MAP =
     [(0, ''DELETE''), (1, ''GET''), (2, ''HEAD''), (3, ''POST''), (4, ''PUT''), (5, ''CONNECT''),
      (6, ''OPTIONS''), (7, ''TRACE''), (8, ''COPY''), (9, ''LOCK''), (10, ''MKCOL''), (11, ''MOVE''),
      (12, ''PROPFIND''), (13, ''PROPPATCH''), (14, ''SEARCH''), (15, ''UNLOCK''), (16, ''BIND''),
      (17, ''REBIND''), (18, ''UNBIND''), (19, ''ACL''), (20, ''REPORT''), (21, ''MKACTIVITY''),
      (22, ''CHECKOUT''), (23, ''MERGE''), (24, ''M-SEARCH''), (25, ''NOTIFY''), (26, ''SUBSCRIBE''),
      (27, ''UNSUBSCRIBE''), (28, ''PATCH''), (29, ''PURGE''), (30, ''MKCALENDAR''), (31, ''LINK''),
      (32, ''UNLINK''), (33, ''SOURCE'')]"

definition INVALID_METHOD :: http_method where "INVALID_METHOD = 255"

text \<open>\<^verbatim>\<open>strncmp(name, m, strlen(name)) == 0\<close>, one test after the other.\<close>

fun method_tests :: "(nat \<times> string) list \<Rightarrow> string \<Rightarrow> http_method" where
  "method_tests [] m = INVALID_METHOD"
| "method_tests ((i, name) # ms) m = (if take (length name) (c_str m) = name then i else method_tests ms m)"

definition StringToHttpMethod :: "string \<Rightarrow> http_method" where
  "StringToHttpMethod m = method_tests HTTP_METHOD_MAP m"

definition HttpMethodToString :: "http_method \<Rightarrow> string" where
  "HttpMethodToString m = (if length HTTP_METHOD_MAP \<le> m then ''<unknown>'' else snd (HTTP_METHOD_MAP ! m))"

definition HTTP_STATUS_MAP :: "(nat \<times> string) list" where
  "HTTP_STATUS_MAP =
     [(100, ''Continue''), (101, ''Switching Protocols''), (102, ''Processing''), (200, ''OK''), (201, ''Created''),
      (202, ''Accepted''), (203, ''Non-Authoritative Information''), (204, ''No Content''), (205, ''Reset Content''),
      (206, ''Partial Content''), (207, ''Multi-Status''), (208, ''Already Reported''), (226, ''IM Used''),
      (300, ''Multiple Choices''), (301, ''Moved Permanently''), (302, ''Found''), (303, ''See Other''),
      (304, ''Not Modified''), (305, ''Use Proxy''), (307, ''Temporary Redirect''), (308, ''Permanent Redirect''),
      (400, ''Bad Request''), (401, ''Unauthorized''), (402, ''Payment Required''), (403, ''Forbidden''),
      (404, ''Not Found''), (405, ''Method Not Allowed''), (406, ''Not Acceptable''),
      (407, ''Proxy Authentication Required''), (408, ''Request Timeout''), (409, ''Conflict''), (410, ''Gone''),
      (411, ''Length Required''), (412, ''Precondition Failed''), (413, ''Payload Too Large''), (414, ''URI Too Long''),
      (415, ''Unsupported Media Type''), (416, ''Range Not Satisfiable''), (417, ''Expectation Failed''),
      (421, ''Misdirected Request''), (422, ''Unprocessable Entity''), (423, ''Locked''), (424, ''Failed Dependency''),
      (426, ''Upgrade Required''), (428, ''Precondition Required''), (429, ''Too Many Requests''),
      (431, ''Request Header Fields Too Large''), (451, ''Unavailable For Legal Reasons''),
      (500, ''Internal Server Error''), (501, ''Not Implemented''), (502, ''Bad Gateway''),
      (503, ''Service Unavailable''), (504, ''Gateway Timeout''), (505, ''HTTP Version Not Supported''),
      (506, ''Variant Also Negotiates''), (507, ''Insufficient Storage''), (508, ''Loop Detected''),
      (510, ''Not Extended''), (511, ''Network Authentication Required'')]"

definition HttpStatusToString :: "http_status \<Rightarrow> string" where
  "HttpStatusToString s = (case map_of HTTP_STATUS_MAP s of Some msg \<Rightarrow> msg | None \<Rightarrow> ''<unknown>'')"

section \<open>Header maps\<close>

text \<open>A map ordered by \<^verbatim>\<open>CaseInsensitiveLess\<close>; \<^verbatim>\<open>m[k] = v\<close> keeps the spelling of a key that is there.\<close>

type_synonym header_map = "(string \<times> string) list"

definition hm_find :: "header_map \<Rightarrow> string \<Rightarrow> string option" where
  "hm_find m k = map_option snd (find (\<lambda>p. ci_eq (fst p) k) m)"

definition hm_set :: "string \<Rightarrow> string \<Rightarrow> header_map \<Rightarrow> header_map" where
  "hm_set k v m =
     (if hm_find m k \<noteq> None then map (\<lambda>p. if ci_eq (fst p) k then (fst p, v) else p) m
      else set_insert (\<lambda>p. ci_key (fst p)) (k, v) m)"

definition hm_erase :: "string \<Rightarrow> header_map \<Rightarrow> header_map" where
  "hm_erase k m = filter (\<lambda>p. \<not> ci_eq (fst p) k) m"

definition hm_ok :: "header_map \<Rightarrow> bool" where
  "hm_ok m \<longleftrightarrow> set_sorted (\<lambda>p. ci_key (fst p)) m"

text \<open>Conversion of a value, with \<^verbatim>\<open>boost::lexical_cast\<close> as a parameter that fails with \<open>None\<close>.\<close>

definition checkGetAs :: "(string \<Rightarrow> 'a option) \<Rightarrow> header_map \<Rightarrow> string \<Rightarrow> 'a \<Rightarrow> bool \<times> 'a" where
  "checkGetAs cast m key def =
     (case hm_find m key of
        None \<Rightarrow> (False, def)
      | Some s \<Rightarrow> (case cast s of Some v \<Rightarrow> (True, v) | None \<Rightarrow> (False, def)))"

definition getAs :: "(string \<Rightarrow> 'a option) \<Rightarrow> header_map \<Rightarrow> string \<Rightarrow> 'a \<Rightarrow> 'a" where
  "getAs cast m key def =
     (case hm_find m key of
        None \<Rightarrow> def
      | Some s \<Rightarrow> (case cast s of Some v \<Rightarrow> v | None \<Rightarrow> def))"

section \<open>Requests\<close>

record http_request =
  q_method :: http_method
  q_status :: http_status
  q_version :: byte
  q_close :: bool
  q_websock :: bool
  q_path :: string
  q_query :: string
  q_fragment :: string
  q_body :: string
  q_headers :: header_map
  q_params :: header_map
  q_cookies :: header_map

definition new_HttpRequest :: "http_status \<Rightarrow> byte \<Rightarrow> bool \<Rightarrow> http_request" where
  "new_HttpRequest junk version close =
     \<lparr>q_method = 1, q_status = junk, q_version = version, q_close = close, q_websock = False, q_path = ''/'',
      q_query = [], q_fragment = [], q_body = [], q_headers = [], q_params = [], q_cookies = []\<rparr>"

definition q_getHeader :: "string \<Rightarrow> string \<Rightarrow> http_request \<Rightarrow> string" where
  "q_getHeader key def q = (case hm_find (q_headers q) key of None \<Rightarrow> def | Some v \<Rightarrow> v)"

definition q_getParam :: "string \<Rightarrow> string \<Rightarrow> http_request \<Rightarrow> string" where
  "q_getParam key def q = (case hm_find (q_params q) key of None \<Rightarrow> def | Some v \<Rightarrow> v)"

definition q_getCookie :: "string \<Rightarrow> string \<Rightarrow> http_request \<Rightarrow> string" where
  "q_getCookie key def q = (case hm_find (q_cookies q) key of None \<Rightarrow> def | Some v \<Rightarrow> v)"

definition q_setHeader :: "string \<Rightarrow> string \<Rightarrow> http_request \<Rightarrow> http_request" where
  "q_setHeader key val q = q\<lparr>q_headers := hm_set key val (q_headers q)\<rparr>"

definition q_setParam :: "string \<Rightarrow> string \<Rightarrow> http_request \<Rightarrow> http_request" where
  "q_setParam key val q = q\<lparr>q_params := hm_set key val (q_params q)\<rparr>"

definition q_setCookie :: "string \<Rightarrow> string \<Rightarrow> http_request \<Rightarrow> http_request" where
  "q_setCookie key val q = q\<lparr>q_cookies := hm_set key val (q_cookies q)\<rparr>"

definition q_delHeader :: "string \<Rightarrow> http_request \<Rightarrow> http_request" where
  "q_delHeader key q = q\<lparr>q_headers := hm_erase key (q_headers q)\<rparr>"

definition q_delParam :: "string \<Rightarrow> http_request \<Rightarrow> http_request" where
  "q_delParam key q = q\<lparr>q_params := hm_erase key (q_params q)\<rparr>"

definition q_delCookie :: "string \<Rightarrow> http_request \<Rightarrow> http_request" where
  "q_delCookie key q = q\<lparr>q_cookies := hm_erase key (q_cookies q)\<rparr>"

text \<open>\<open>None\<close> is \<^verbatim>\<open>false\<close>, and the value is what the code stores through the pointer.\<close>

definition q_hasHeader :: "string \<Rightarrow> http_request \<Rightarrow> string option" where
  "q_hasHeader key q = hm_find (q_headers q) key"

definition q_hasParam :: "string \<Rightarrow> http_request \<Rightarrow> string option" where
  "q_hasParam key q = hm_find (q_params q) key"

definition q_hasCookie :: "string \<Rightarrow> http_request \<Rightarrow> string option" where
  "q_hasCookie key q = hm_find (q_cookies q) key"

definition q_init :: "http_request \<Rightarrow> http_request" where
  "q_init q =
     (let conn = q_getHeader ''connection'' [] q in
      if conn \<noteq> [] then if ci_eq conn ''keep-alive'' then q\<lparr>q_close := False\<rparr> else q\<lparr>q_close := True\<rparr>
      else q)"

definition version_text :: "byte \<Rightarrow> string" where
  "version_text v = ''HTTP/'' @ dec (unat (drop_bit 4 v)) @ ''.'' @ dec (unat (v AND 0x0F))"

definition connection_text :: "bool \<Rightarrow> string" where
  "connection_text close = ''connection: '' @ (if close then ''close'' else ''keep-alive'')"

definition q_dump :: "http_request \<Rightarrow> string" where
  "q_dump q =
     HttpMethodToString (q_method q) @ '' '' @ q_path q
     @ (if q_query q = [] then [] else ''?'') @ q_query q
     @ (if q_fragment q = [] then [] else ''#'') @ q_fragment q
     @ '' '' @ version_text (q_version q) @ crlf
     @ (if q_websock q then [] else connection_text (q_close q) @ crlf)
     @ concat (map (\<lambda>(k, v). if \<not> q_websock q \<and> ci_eq k ''Connection'' then [] else k @ '':'' @ v @ crlf) (q_headers q))
     @ (if q_body q \<noteq> [] then ''content-length: '' @ dec (length (q_body q)) @ crlf @ crlf @ q_body q else crlf)"

section \<open>Responses\<close>

record http_response =
  p_status :: http_status
  p_version :: byte
  p_close :: bool
  p_body :: string
  p_reason :: string
  p_headers :: header_map

definition new_HttpResponse :: "byte \<Rightarrow> bool \<Rightarrow> http_response" where
  "new_HttpResponse version close =
     \<lparr>p_status = 200, p_version = version, p_close = close, p_body = [], p_reason = [], p_headers = []\<rparr>"

definition p_getHeader :: "string \<Rightarrow> string \<Rightarrow> http_response \<Rightarrow> string" where
  "p_getHeader key def p = (case hm_find (p_headers p) key of None \<Rightarrow> def | Some v \<Rightarrow> v)"

definition p_setHeader :: "string \<Rightarrow> string \<Rightarrow> http_response \<Rightarrow> http_response" where
  "p_setHeader key val p = p\<lparr>p_headers := hm_set key val (p_headers p)\<rparr>"

definition p_delHeader :: "string \<Rightarrow> http_response \<Rightarrow> http_response" where
  "p_delHeader key p = p\<lparr>p_headers := hm_erase key (p_headers p)\<rparr>"

definition p_dump :: "http_response \<Rightarrow> string" where
  "p_dump p =
     version_text (p_version p) @ '' '' @ dec (p_status p) @ '' ''
     @ (if p_reason p = [] then HttpStatusToString (p_status p) else p_reason p) @ crlf
     @ concat (map (\<lambda>(k, v). if ci_eq k ''connection'' then [] else k @ '':'' @ v @ crlf) (p_headers p))
     @ connection_text (p_close p) @ crlf
     @ (if p_body p \<noteq> [] then ''content-length: '' @ dec (length (p_body p)) @ crlf @ crlf @ p_body p else crlf)"

section \<open>Lemmas on header maps\<close>

lemma ci_eq_refl [simp]: "ci_eq k k" by (simp add: ci_eq_def)

lemma ci_eq_trans: "ci_eq a b \<Longrightarrow> ci_eq b c = ci_eq a c" by (simp add: ci_eq_def)

lemma find_map_value:
  "find (\<lambda>p. P (fst p)) (map (\<lambda>p. if Q (fst p) then (fst p, v) else p) m) =
   map_option (\<lambda>p. if Q (fst p) then (fst p, v) else p) (find (\<lambda>p. P (fst p)) m)"
  by (induction m) auto

lemma hm_find_Nil [simp]: "hm_find [] k = None"
  by (simp add: hm_find_def)

lemma hm_find_Cons: "hm_find (p # m) k = (if ci_eq (fst p) k then Some (snd p) else hm_find m k)"
  by (simp add: hm_find_def)

lemma hm_find_None: "hm_find m k = None \<longleftrightarrow> (\<forall>p \<in> set m. \<not> ci_eq (fst p) k)"
  by (auto simp: hm_find_def find_None_iff)

lemma hm_find_insort:
  assumes "\<forall>p \<in> set m. \<not> ci_eq (fst p) k"
  shows "hm_find (insort_key (\<lambda>p. ci_key (fst p)) (k, v) m) j = (if ci_eq k j then Some v else hm_find m j)"
  using assms by (induction m) (auto simp: hm_find_Cons ci_eq_def)

lemma hm_find_cong: "ci_eq k j \<Longrightarrow> hm_find m k = hm_find m j"
  by (simp add: hm_find_def ci_eq_def)

lemma hm_find_update:
  "hm_find (map (\<lambda>p. if ci_eq (fst p) k then (fst p, v) else p) m) j =
   (if ci_eq k j then map_option (\<lambda>_. v) (hm_find m j) else hm_find m j)"
  by (induction m) (auto simp: hm_find_Cons ci_eq_def)

lemma hm_find_set: "hm_find (hm_set k v m) j = (if ci_eq k j then Some v else hm_find m j)"
proof (cases "hm_find m k")
  case None
  then have "hm_set k v m = insort_key (\<lambda>p. ci_key (fst p)) (k, v) m"
    by (auto simp: hm_set_def set_insert_def hm_find_None ci_eq_def image_iff)
  with None show ?thesis by (simp add: hm_find_insort hm_find_None)
next
  case (Some u)
  then show ?thesis by (auto simp: hm_set_def hm_find_update dest: hm_find_cong [of k j m])
qed

lemma hm_find_erase: "hm_find (hm_erase k m) j = (if ci_eq k j then None else hm_find m j)"
  by (induction m) (auto simp: hm_erase_def hm_find_Cons ci_eq_def)

lemma hm_ok_set [inv_intros]: "hm_ok m \<Longrightarrow> hm_ok (hm_set k v m)"
proof (cases "hm_find m k")
  case (Some u)
  have "map (\<lambda>p. ci_key (fst p)) (map (\<lambda>p. if ci_eq (fst p) k then (fst p, v) else p) m) = map (\<lambda>p. ci_key (fst p)) m"
    by simp
  then show "hm_ok m \<Longrightarrow> hm_ok (hm_set k v m)"
    using Some by (simp only: hm_ok_def hm_set_def set_sorted_def option.distinct if_True not_False_eq_True)
qed (simp add: hm_ok_def hm_set_def)

lemma hm_ok_erase [inv_intros]: "hm_ok m \<Longrightarrow> hm_ok (hm_erase k m)"
  by (simp add: hm_ok_def hm_erase_def)

section \<open>How a receiver reads the text\<close>

text \<open>The reference reader: lines end at the first CR LF, the head at the first empty line.\<close>

fun take_line :: "string \<Rightarrow> (string \<times> string) option" where
  "take_line [] = None"
| "take_line (c # cs) =
     (if c = CR \<and> cs \<noteq> [] \<and> hd cs = LF then Some ([], tl cs)
      else map_option (\<lambda>(l, r). (c # l, r)) (take_line cs))"

lemma take_line_length: "take_line s = Some (l, r) \<Longrightarrow> length r < length s"
  by (induction s arbitrary: l) (auto split: if_splits intro: less_SucI)

function read_head :: "string \<Rightarrow> (string list \<times> string) option" where
  "read_head s =
     (case take_line s of
        None \<Rightarrow> None
      | Some (l, r) \<Rightarrow>
          if l = [] then Some ([], r) else map_option (\<lambda>(ls, b). (l # ls, b)) (read_head r))"
  by pat_completeness auto
termination
  by (relation "measure length") (auto dest: take_line_length)

declare read_head.simps [simp del]

text \<open>A header line is cut at its first colon, and spaces before the value are dropped.\<close>

definition read_header :: "string \<Rightarrow> string \<times> string" where
  "read_header l = (takeWhile (\<lambda>c. c \<noteq> CHR '':'') l, dropWhile (\<lambda>c. c = CHR '' '') (tl (dropWhile (\<lambda>c. c \<noteq> CHR '':'') l)))"

definition read_headers :: "string list \<Rightarrow> header_map" where
  "read_headers ls = fold (\<lambda>l. case read_header l of (k, v) \<Rightarrow> hm_set k v) ls []"

lemma take_line_crlf: "CR \<notin> set l \<Longrightarrow> take_line (l @ crlf @ r) = Some (l, r)"
  by (induction l) (auto simp: crlf_def)

lemma read_head_end: "read_head (crlf @ b) = Some ([], b)"
  using take_line_crlf [of "[]" b] by (subst read_head.simps) simp

lemma read_head_line:
  "CR \<notin> set l \<Longrightarrow> l \<noteq> [] \<Longrightarrow> read_head (l @ crlf @ r) = map_option (\<lambda>(ls, b). (l # ls, b)) (read_head r)"
  by (subst read_head.simps) (simp add: take_line_crlf)

definition line_ok :: "string \<Rightarrow> bool" where
  "line_ok l \<longleftrightarrow> CR \<notin> set l \<and> l \<noteq> []"

lemma read_head_lines:
  assumes "list_all line_ok ls"
  shows "read_head (concat (map (\<lambda>l. l @ crlf) ls) @ crlf @ b) = Some (ls, b)"
  using assms by (induction ls) (simp_all add: read_head_end read_head_line line_ok_def)

lemma read_header_colon: "CHR '':'' \<notin> set k \<Longrightarrow> read_header (k @ '':'' @ v) = (k, dropWhile (\<lambda>c. c = CHR '' '') v)"
  unfolding read_header_def by (simp add: takeWhile_append dropWhile_append)

lemma read_headers_snoc:
  "read_headers (ls @ [l]) = (case read_header l of (k, v) \<Rightarrow> hm_set k v (read_headers ls))"
  by (simp add: read_headers_def split: prod.split)

text \<open>The lines of a header map.\<close>

definition header_lines :: "header_map \<Rightarrow> string list" where
  "header_lines m = map (\<lambda>(k, v). k @ '':'' @ v) m"

definition header_text_ok :: "header_map \<Rightarrow> bool" where
  "header_text_ok m \<longleftrightarrow> (\<forall>(k, v) \<in> set m. CHR '':'' \<notin> set k \<and> CR \<notin> set k \<and> CR \<notin> set v)"

lemma read_header_fold:
  assumes "header_text_ok m" and "hm_ok m"
  shows "hm_find (fold (\<lambda>l. case read_header l of (k, v) \<Rightarrow> hm_set k v) (header_lines m) m0) j =
    (case hm_find m j of Some v \<Rightarrow> Some (dropWhile (\<lambda>c. c = CHR '' '') v) | None \<Rightarrow> hm_find m0 j)"
  using assms
proof (induction m arbitrary: m0)
  case Nil
  then show ?case by (simp add: header_lines_def)
next
  case (Cons p m)
  obtain k v where p: "p = (k, v)" by (cases p)
  have k: "CHR '':'' \<notin> set k" using Cons.prems(1) by (simp add: header_text_ok_def p)
  have rest: "header_text_ok m" "hm_ok m"
    using Cons.prems by (auto simp: header_text_ok_def hm_ok_def set_sorted_Cons)
  have "hm_find m j = None" if "ci_eq k j"
    using Cons.prems(2) that by (force simp: hm_find_None hm_ok_def set_sorted_Cons p ci_eq_def)
  moreover have "read_header (k @ CHR '':'' # v) = (k, dropWhile (\<lambda>c. c = CHR '' '') v)"
    using read_header_colon [OF k, of v] by simp
  ultimately show ?case
    using Cons.IH [OF rest]
    by (auto simp: header_lines_def p hm_find_set hm_find_Cons split: option.split)
qed

lemma dec_trim: "dropWhile (\<lambda>c. c = CHR '' '') ('' '' @ dec n) = dec n"
  using dec_digits [of n] dec_nonempty [of n] by (cases "dec n") auto

lemma dec_no_CR: "CR \<notin> set (dec n)"
  using dec_digits [of n] by auto

lemma read_content_length: "read_header (''content-length: '' @ dec n) = (''content-length'', dec n)"
  using read_header_colon [of "''content-length''" "'' '' @ dec n"] dec_trim [of n] by simp

lemma read_connection:
  "read_header (connection_text c) = (''connection'', if c then ''close'' else ''keep-alive'')"
  by (simp add: connection_text_def read_header_def)

lemma header_filter:
  "hm_ok m \<Longrightarrow> hm_ok (filter P m)" "header_text_ok m \<Longrightarrow> header_text_ok (filter P m)"
  by (auto simp: hm_ok_def header_text_ok_def)

lemma hm_find_not: "hm_find (filter (\<lambda>(k, v). \<not> ci_eq k n) m) j = (if ci_eq n j then None else hm_find m j)"
  by (induction m) (auto simp: hm_find_Cons ci_eq_def)

lemma concat_header_lines:
  "concat (map (\<lambda>(k, v). if P k then [] else k @ '':'' @ v @ crlf) m) =
   concat (map (\<lambda>l. l @ crlf) (header_lines (filter (\<lambda>(k, v). \<not> P k) m)))"
  by (induction m) (auto simp: header_lines_def)

lemma header_lines_ok: "header_text_ok m \<Longrightarrow> list_all line_ok (header_lines m)"
  by (auto simp: header_text_ok_def header_lines_def line_ok_def list_all_iff)

section \<open>Properties\<close>

text \<open>The line for the length, when there is a body.\<close>

definition length_lines :: "string \<Rightarrow> string list" where
  "length_lines b = (if b \<noteq> [] then [''content-length: '' @ dec (length b)] else [])"

lemma length_lines_ok: "list_all line_ok (length_lines b)"
  using dec_no_CR [of "length b"] by (simp add: length_lines_def line_ok_def)

lemma connection_text_ok: "line_ok (connection_text c)"
  by (simp add: connection_text_def line_ok_def)

lemma version_text_ok: "CR \<notin> set (version_text v)"
  using dec_no_CR by (simp add: version_text_def)

lemma body_text:
  "(if b \<noteq> [] then ''content-length: '' @ dec (length b) @ crlf @ crlf @ b else crlf) =
   concat (map (\<lambda>l. l @ crlf) (length_lines b)) @ crlf @ b"
  by (simp add: length_lines_def)

lemma hm_find_length_lines:
  "hm_find (fold (\<lambda>l. case read_header l of (k, v) \<Rightarrow> hm_set k v) (length_lines b) m) j =
   (if b \<noteq> [] \<and> ci_eq ''content-length'' j then Some (dec (length b)) else hm_find m j)"
  by (simp add: length_lines_def read_content_length [simplified] hm_find_set)

text \<open>
  The text of a request is read back by any receiver that follows HTTP: the first line holds the
  method, the target and the version, the body comes out byte for byte, and in the headers, whatever
  case the receiver asks in, every header has its value (without leading spaces), except that
  \<^verbatim>\<open>connection\<close> says what \<^verbatim>\<open>m_close\<close> says unless the request is a websocket upgrade, and
  \<^verbatim>\<open>content-length\<close> is the length of the body when there is one. No header can end the head early.
\<close>

theorem http_request_text:
  assumes "hm_ok (q_headers q)" and "header_text_ok (q_headers q)"
    and "CR \<notin> set (q_path q) \<union> set (q_query q) \<union> set (q_fragment q)" and "q_method q < 34"
  shows "\<exists>hs. read_head (q_dump q) =
      Some ((HttpMethodToString (q_method q) @ '' '' @ q_path q @ (if q_query q = [] then [] else ''?'' @ q_query q)
             @ (if q_fragment q = [] then [] else ''#'' @ q_fragment q) @ '' '' @ version_text (q_version q)) # hs,
            q_body q) \<and>
    (\<forall>j. hm_find (read_headers hs) j =
      (if q_body q \<noteq> [] \<and> ci_eq ''content-length'' j then Some (dec (length (q_body q)))
       else if \<not> q_websock q \<and> ci_eq ''connection'' j then Some (if q_close q then ''close'' else ''keep-alive'')
       else map_option (dropWhile (\<lambda>c. c = CHR '' '')) (hm_find (q_headers q) j)))"
proof -
  let ?H = "filter (\<lambda>(k, v). \<not> (\<not> q_websock q \<and> ci_eq k ''Connection'')) (q_headers q)"
  let ?C = "if q_websock q then [] else [connection_text (q_close q)]"
  let ?hs = "?C @ header_lines ?H @ length_lines (q_body q)"
  let ?start = "HttpMethodToString (q_method q) @ '' '' @ q_path q @ (if q_query q = [] then [] else ''?'' @ q_query q)
             @ (if q_fragment q = [] then [] else ''#'' @ q_fragment q) @ '' '' @ version_text (q_version q)"
  have "q_dump q = concat (map (\<lambda>l. l @ crlf) (?start # ?hs)) @ crlf @ q_body q"
    unfolding q_dump_def concat_header_lines body_text by simp
  moreover have "CR \<notin> set (HttpMethodToString (q_method q))"
  proof -
    have "\<forall>m \<in> set [0..<34]. CR \<notin> set (HttpMethodToString m)" by code_simp
    then show ?thesis using assms(4) by (metis atLeastLessThan_iff set_upt zero_le)
  qed
  then have "line_ok ?start" using assms(3) version_text_ok by (simp add: line_ok_def)
  then have "list_all line_ok (?start # ?hs)"
    using header_lines_ok [OF header_filter(2) [OF assms(2)]] length_lines_ok connection_text_ok by simp
  ultimately have "read_head (q_dump q) = Some (?start # ?hs, q_body q)"
    by (simp only: read_head_lines)
  moreover have "hm_find (read_headers ?hs) j =
      (if q_body q \<noteq> [] \<and> ci_eq ''content-length'' j then Some (dec (length (q_body q)))
       else if \<not> q_websock q \<and> ci_eq ''connection'' j then Some (if q_close q then ''close'' else ''keep-alive'')
       else map_option (dropWhile (\<lambda>c. c = CHR '' '')) (hm_find (q_headers q) j))" for j
  proof -
    have "ci_key ''Connection'' = ci_key ''connection''" by (simp add: ci_key_def c_str_def lower_def)
    then have con: "ci_eq ''Connection'' j = ci_eq ''connection'' j" by (simp add: ci_eq_def)
    have "hm_find ?H j = (if \<not> q_websock q \<and> ci_eq ''connection'' j then None else hm_find (q_headers q) j)"
      using hm_find_not [of "''Connection''" "q_headers q" j] con by (cases "q_websock q") (simp_all add: split_def)
    then show ?thesis
      unfolding read_headers_def fold_append o_apply hm_find_length_lines
        read_header_fold [OF header_filter(2) [OF assms(2)] header_filter(1) [OF assms(1)]]
      by (simp add: read_connection hm_find_set split: option.split)
  qed
  ultimately show ?thesis by blast
qed

theorem http_request_text_witness:
  "\<exists>hs. read_head (q_dump (q_setHeader ''Host'' ''a'' (new_HttpRequest 0 0x11 False))) = Some (''GET / HTTP/1.1'' # hs, []) \<and>
     hm_find (read_headers hs) ''HOST'' = Some ''a'' \<and> hm_find (read_headers hs) ''Connection'' = Some ''keep-alive''"
proof -
  let ?q = "q_setHeader ''Host'' ''a'' (new_HttpRequest 0 0x11 False)"
  have q: "hm_ok (q_headers ?q)" "header_text_ok (q_headers ?q)"
    "CR \<notin> set (q_path ?q) \<union> set (q_query ?q) \<union> set (q_fragment ?q)" "q_method ?q < 34"
    by (simp_all add: q_setHeader_def new_HttpRequest_def hm_ok_def hm_set_def set_insert_def set_sorted_def header_text_ok_def)
  have v: "HttpMethodToString (q_method ?q) @ '' '' @ q_path ?q @ (if q_query ?q = [] then [] else ''?'' @ q_query ?q)
             @ (if q_fragment ?q = [] then [] else ''#'' @ q_fragment ?q) @ '' '' @ version_text (q_version ?q) = ''GET / HTTP/1.1''"
    "q_body ?q = []" "hm_find (q_headers ?q) ''HOST'' = Some ''a''" "ci_eq ''connection'' ''Connection''"
    "\<not> ci_eq ''connection'' ''HOST''" "\<not> q_websock ?q" "\<not> q_close ?q"
    by code_simp+
  from http_request_text [OF q] show ?thesis unfolding v(1,2) using v(3-) by auto
qed

text \<open>
  The same for the text of a response: the status line with the version, the code and the reason
  (the standard phrase when none was set), then the headers, \<^verbatim>\<open>connection\<close> from \<^verbatim>\<open>m_close\<close> and
  \<^verbatim>\<open>content-length\<close> for a body, and the body unchanged.
\<close>

theorem http_response_text:
  assumes "hm_ok (p_headers p)" and "header_text_ok (p_headers p)" and "CR \<notin> set (p_reason p)"
  shows "\<exists>hs. read_head (p_dump p) =
      Some ((version_text (p_version p) @ '' '' @ dec (p_status p) @ '' '' @
             (if p_reason p = [] then HttpStatusToString (p_status p) else p_reason p)) # hs, p_body p) \<and>
    (\<forall>j. hm_find (read_headers hs) j =
      (if p_body p \<noteq> [] \<and> ci_eq ''content-length'' j then Some (dec (length (p_body p)))
       else if ci_eq ''connection'' j then Some (if p_close p then ''close'' else ''keep-alive'')
       else map_option (dropWhile (\<lambda>c. c = CHR '' '')) (hm_find (p_headers p) j)))"
proof -
  let ?H = "filter (\<lambda>(k, v). \<not> ci_eq k ''connection'') (p_headers p)"
  let ?hs = "header_lines ?H @ [connection_text (p_close p)] @ length_lines (p_body p)"
  let ?start = "version_text (p_version p) @ '' '' @ dec (p_status p) @ '' '' @
             (if p_reason p = [] then HttpStatusToString (p_status p) else p_reason p)"
  have "p_dump p = concat (map (\<lambda>l. l @ crlf) (?start # ?hs)) @ crlf @ p_body p"
    unfolding p_dump_def concat_header_lines body_text by simp
  moreover have "CR \<notin> set (HttpStatusToString c)" for c
  proof -
    have "\<forall>(k, m) \<in> set HTTP_STATUS_MAP. CR \<notin> set m" by code_simp
    then show ?thesis by (auto simp: HttpStatusToString_def split: option.split dest!: map_of_SomeD)
  qed
  then have "line_ok ?start" using assms(3) version_text_ok dec_no_CR by (simp add: line_ok_def)
  then have "list_all line_ok (?start # ?hs)"
    using header_lines_ok [OF header_filter(2) [OF assms(2)]] length_lines_ok connection_text_ok by simp
  ultimately have "read_head (p_dump p) = Some (?start # ?hs, p_body p)"
    by (simp only: read_head_lines)
  moreover have "hm_find (read_headers ?hs) j =
      (if p_body p \<noteq> [] \<and> ci_eq ''content-length'' j then Some (dec (length (p_body p)))
       else if ci_eq ''connection'' j then Some (if p_close p then ''close'' else ''keep-alive'')
       else map_option (dropWhile (\<lambda>c. c = CHR '' '')) (hm_find (p_headers p) j))" for j
    using hm_find_not [of "''connection''" "p_headers p" j]
    unfolding read_headers_def fold_append o_apply hm_find_length_lines
    by (simp add: read_header_fold [OF header_filter(2) [OF assms(2)] header_filter(1) [OF assms(1)]]
        read_connection hm_find_set split: option.split)
  ultimately show ?thesis by blast
qed

theorem http_response_text_witness:
  "\<exists>hs. read_head (p_dump ((new_HttpResponse 0x11 True)\<lparr>p_body := ''hi''\<rparr>)) = Some (''HTTP/1.1 200 OK'' # hs, ''hi'') \<and>
     hm_find (read_headers hs) ''Content-Length'' = Some ''2''"
proof -
  let ?p = "(new_HttpResponse 0x11 True)\<lparr>p_body := ''hi''\<rparr>"
  have p: "hm_ok (p_headers ?p)" "header_text_ok (p_headers ?p)" "CR \<notin> set (p_reason ?p)"
    by (simp_all add: new_HttpResponse_def hm_ok_def header_text_ok_def)
  have v: "version_text (p_version ?p) @ '' '' @ dec (p_status ?p) @ '' '' @
             (if p_reason ?p = [] then HttpStatusToString (p_status ?p) else p_reason ?p) = ''HTTP/1.1 200 OK''"
    "p_body ?p = ''hi''" "ci_eq ''content-length'' ''Content-Length''" "dec (length ''hi'') = ''2''"
    by code_simp+
  from http_response_text [OF p] show ?thesis unfolding v(1,2) using v(3,4) by auto
qed

lemma method_tests_prefix:
  assumes "(i, n) \<in> set ms" and "distinct (map fst ms)"
    and "\<forall>(j, n') \<in> set ms. j \<noteq> i \<longrightarrow> \<not> prefix n' n \<and> \<not> prefix n n'" and "NUL \<notin> set n"
  shows "method_tests ms (n @ x) = i"
proof -
  have c: "c_str (n @ x) = n @ c_str x" using assms(4) by (auto simp: c_str_def takeWhile_append)
  show ?thesis
    using assms(1-3)
  proof (induction ms)
    case (Cons p ms)
    obtain j n' where p: "p = (j, n')" by (cases p)
    show ?case
    proof (cases "j = i")
      case True
      with Cons.prems have "n' = n" by (auto simp: p image_iff)
      with True show ?thesis by (simp add: p c)
    next
      case False
      have "take (length n') (n @ c_str x) \<noteq> n'"
      proof
        assume "take (length n') (n @ c_str x) = n'"
        then have "prefix n' (n @ c_str x)" by (metis take_is_prefix)
        then have "prefix n' n \<or> prefix n n'" using prefix_same_cases [of n' "n @ c_str x" n] by simp
        with Cons.prems(3) False show False by (auto simp: p)
      qed
      with False Cons show ?thesis by (auto simp: p c)
    qed
  qed simp
qed

text \<open>
  The table of methods is read back: every method name is recognised as its own method. The test
  compares only as many characters as the table's name has, so the name may be followed by anything:
  \<^verbatim>\<open>GETX\<close> is taken for \<^verbatim>\<open>GET\<close>.
\<close>

theorem http_method_roundtrip:
  assumes "m < 34"
  shows "StringToHttpMethod (HttpMethodToString m @ x) = m"
proof -
  have free: "list_all (\<lambda>(i, n). list_all (\<lambda>(j, n'). j \<noteq> i \<longrightarrow> \<not> prefix n' n) HTTP_METHOD_MAP) HTTP_METHOD_MAP"
    and nul: "list_all (\<lambda>(i, n). NUL \<notin> set n) HTTP_METHOD_MAP"
    and keys: "map fst HTTP_METHOD_MAP = [0..<34]"
    by (simp_all add: HTTP_METHOD_MAP_def upt_rec)
  have len: "length HTTP_METHOD_MAP = 34" using arg_cong [OF keys, of length] by simp
  have "fst (HTTP_METHOD_MAP ! m) = m" using arg_cong [OF keys, of "\<lambda>xs. xs ! m"] assms len by simp
  then have mem: "(m, HttpMethodToString m) \<in> set HTTP_METHOD_MAP"
    using nth_mem [of m HTTP_METHOD_MAP] assms len by (cases "HTTP_METHOD_MAP ! m") (simp add: HttpMethodToString_def)
  moreover have "distinct (map fst HTTP_METHOD_MAP)" by (simp add: keys)
  moreover have "\<forall>(j, n') \<in> set HTTP_METHOD_MAP. j \<noteq> m \<longrightarrow>
      \<not> prefix n' (HttpMethodToString m) \<and> \<not> prefix (HttpMethodToString m) n'"
    using free mem by (fastforce simp: list_all_iff)
  moreover have "NUL \<notin> set (HttpMethodToString m)" using nul mem by (auto simp: list_all_iff)
  ultimately show ?thesis unfolding StringToHttpMethod_def by (rule method_tests_prefix)
qed

theorem http_method_roundtrip_witness: "StringToHttpMethod (HttpMethodToString 1 @ ''X'') = 1"
  by (rule http_method_roundtrip) simp

end
