(* ===== verification/HttpSession.thy ===== *)
theory HttpSession imports Http StreamIO begin

text \<open>
  Receiving and sending HTTP messages over a stream (\<^verbatim>\<open>seaice/http/http_parser.cpp\<close>,
  \<^verbatim>\<open>http_session.cpp\<close> and the shared part of \<^verbatim>\<open>http_connection.cpp\<close>). The state machines that Ragel
  generates are parameters: a parser has a state \<open>'g\<close>, and one run over a buffer gives the number of
  bytes consumed, the callbacks in order and the new state. A callback that gets a pointer into the
  buffer gets the memory from there on.
\<close>

section \<open>Bytes and characters\<close>

definition chars_of :: "byte list \<Rightarrow> string" where
  "chars_of bs = map (\<lambda>b. char_of (unat b)) bs"

definition bytes_of :: "string \<Rightarrow> byte list" where
  "bytes_of s = map (\<lambda>c. word_of_nat (of_char c)) s"

lemma chars_of_bytes_of [simp]: "chars_of (bytes_of s) = s"
proof -
  have "char_of (unat (word_of_nat (of_char c) :: byte)) = c" for c
  proof -
    have "(of_char c :: nat) < 256" by (rule nat_of_char_less_256)
    then have "unat (word_of_nat (of_char c) :: byte) = of_char c" by (simp add: unat_of_nat)
    then show ?thesis by simp
  qed
  then show ?thesis by (simp add: chars_of_def bytes_of_def comp_def)
qed

section \<open>Callbacks of the parsers\<close>

datatype http_event =
    EvField string string
  | EvMethod string nat
  | EvUri
  | EvFragment string
  | EvPath string
  | EvQuery string
  | EvVersion string nat
  | EvHeaderDone
  | EvReason string
  | EvStatus string
  | EvChunk
  | EvLastChunk

record ('g, 'm) http_msg_parser =
  hp_parser :: 'g
  hp_data :: 'm
  hp_error :: int

text \<open>\<^verbatim>\<open>strncmp(a, b, n) == 0\<close>\<close>

definition strncmp_eq :: "nat \<Rightarrow> string \<Rightarrow> string \<Rightarrow> bool" where
  "strncmp_eq n a b \<longleftrightarrow> take n (c_str a @ [NUL]) = take n (c_str b @ [NUL])"

definition version_of :: "string \<Rightarrow> nat \<Rightarrow> byte option" where
  "version_of at len =
     (if strncmp_eq len at ''HTTP/1.1'' then Some 0x11
      else if strncmp_eq len at ''HTTP/1.0'' then Some 0x10
      else None)"

definition on_request_field :: "string \<Rightarrow> string \<Rightarrow> ('g, http_request) http_msg_parser \<Rightarrow> ('g, http_request) http_msg_parser" where
  "on_request_field field val p =
     (if field = [] then p\<lparr>hp_error := 1002\<rparr> else p\<lparr>hp_data := q_setHeader field val (hp_data p)\<rparr>)"

definition on_request_method :: "string \<Rightarrow> ('g, http_request) http_msg_parser \<Rightarrow> ('g, http_request) http_msg_parser" where
  "on_request_method at p =
     (let m = StringToHttpMethod at in
      if m = INVALID_METHOD then p\<lparr>hp_error := 1000\<rparr> else p\<lparr>hp_data := (hp_data p)\<lparr>q_method := m\<rparr>\<rparr>)"

definition on_request_version :: "string \<Rightarrow> nat \<Rightarrow> ('g, http_request) http_msg_parser \<Rightarrow> ('g, http_request) http_msg_parser" where
  "on_request_version at len p =
     (case version_of at len of
        Some v \<Rightarrow> p\<lparr>hp_data := (hp_data p)\<lparr>q_version := v\<rparr>\<rparr>
      | None \<Rightarrow> p\<lparr>hp_error := 1001\<rparr>)"

fun on_request :: "http_event \<Rightarrow> ('g, http_request) http_msg_parser \<Rightarrow> ('g, http_request) http_msg_parser" where
  "on_request (EvField f v) p = on_request_field f v p"
| "on_request (EvMethod at n) p = on_request_method at p"
| "on_request (EvFragment s) p = p\<lparr>hp_data := (hp_data p)\<lparr>q_fragment := s\<rparr>\<rparr>"
| "on_request (EvPath s) p = p\<lparr>hp_data := (hp_data p)\<lparr>q_path := s\<rparr>\<rparr>"
| "on_request (EvQuery s) p = p\<lparr>hp_data := (hp_data p)\<lparr>q_query := s\<rparr>\<rparr>"
| "on_request (EvVersion at n) p = on_request_version at n p"
| "on_request _ p = p"

text \<open>\<^verbatim>\<open>atoi\<close>\<close>

fun digits_val :: "nat \<Rightarrow> string \<Rightarrow> nat" where
  "digits_val n [] = n"
| "digits_val n (c # cs) =
     (if 48 \<le> (of_char c :: nat) \<and> (of_char c :: nat) \<le> 57 then digits_val (10 * n + (of_char c - 48)) cs else n)"

definition atoi :: "string \<Rightarrow> int" where
  "atoi s =
     (let s = dropWhile (\<lambda>c. c \<in> set '' '' \<or> (9 \<le> (of_char c :: nat) \<and> (of_char c :: nat) \<le> 13)) s in
      case s of
        [] \<Rightarrow> 0
      | c # cs \<Rightarrow> if c = CHR ''-'' then - int (digits_val 0 cs)
                  else if c = CHR ''+'' then int (digits_val 0 cs) else int (digits_val 0 s))"

definition on_response_field :: "string \<Rightarrow> string \<Rightarrow> ('g, http_response) http_msg_parser \<Rightarrow> ('g, http_response) http_msg_parser" where
  "on_response_field field val p =
     (if field = [] then p\<lparr>hp_error := 1002\<rparr> else p\<lparr>hp_data := p_setHeader field val (hp_data p)\<rparr>)"

definition on_response_version :: "string \<Rightarrow> nat \<Rightarrow> ('g, http_response) http_msg_parser \<Rightarrow> ('g, http_response) http_msg_parser" where
  "on_response_version at len p =
     (case version_of at len of
        Some v \<Rightarrow> p\<lparr>hp_data := (hp_data p)\<lparr>p_version := v\<rparr>\<rparr>
      | None \<Rightarrow> p\<lparr>hp_error := 1001\<rparr>)"

fun on_response :: "http_event \<Rightarrow> ('g, http_response) http_msg_parser \<Rightarrow> ('g, http_response) http_msg_parser" where
  "on_response (EvField f v) p = on_response_field f v p"
| "on_response (EvReason s) p = p\<lparr>hp_data := (hp_data p)\<lparr>p_reason := s\<rparr>\<rparr>"
| "on_response (EvStatus at) p = p\<lparr>hp_data := (hp_data p)\<lparr>p_status := nat (atoi at)\<rparr>\<rparr>"
| "on_response (EvVersion at n) p = on_response_version at n p"
| "on_response _ p = p"

section \<open>The parser objects\<close>

record 'g machine =
  mc_init :: 'g
  mc_execute :: "'g \<Rightarrow> byte list \<Rightarrow> nat \<times> http_event list \<times> 'g"
  mc_finish :: "'g \<Rightarrow> bool"
  mc_error :: "'g \<Rightarrow> bool"
  mc_chunked :: "'g \<Rightarrow> bool"
  mc_content_len :: "'g \<Rightarrow> int"
  mc_chunks_done :: "'g \<Rightarrow> bool"

definition new_HttpRequestParser :: "'g machine \<Rightarrow> http_status \<Rightarrow> ('g, http_request) http_msg_parser" where
  "new_HttpRequestParser mc st0 = \<lparr>hp_parser = mc_init mc, hp_data = new_HttpRequest st0 0x11 True, hp_error = 0\<rparr>"

definition new_HttpResponseParser :: "'g machine \<Rightarrow> ('g, http_response) http_msg_parser" where
  "new_HttpResponseParser mc = \<lparr>hp_parser = mc_init mc, hp_data = new_HttpResponse 0x11 True, hp_error = 0\<rparr>"

text \<open>A run of the machine over the buffer, with the callbacks applied in order.\<close>

definition hp_execute ::
  "'g machine \<Rightarrow> (http_event \<Rightarrow> ('g, 'm) http_msg_parser \<Rightarrow> ('g, 'm) http_msg_parser) \<Rightarrow>
   ('g, 'm) http_msg_parser \<Rightarrow> byte list \<Rightarrow> nat \<times> ('g, 'm) http_msg_parser" where
  "hp_execute mc on p data =
     (case mc_execute mc (hp_parser p) data of (offset, evs, g) \<Rightarrow> (offset, (fold on evs p)\<lparr>hp_parser := g\<rparr>))"

definition hp_execute_chunk ::
  "'g machine \<Rightarrow> (http_event \<Rightarrow> ('g, 'm) http_msg_parser \<Rightarrow> ('g, 'm) http_msg_parser) \<Rightarrow>
   ('g, 'm) http_msg_parser \<Rightarrow> byte list \<Rightarrow> nat \<times> ('g, 'm) http_msg_parser" where
  "hp_execute_chunk mc on p data = hp_execute mc on (p\<lparr>hp_parser := mc_init mc\<rparr>) data"

definition hp_isFinish :: "'g machine \<Rightarrow> ('g, 'm) http_msg_parser \<Rightarrow> bool" where
  "hp_isFinish mc p = mc_finish mc (hp_parser p)"

definition hp_hasError :: "'g machine \<Rightarrow> ('g, 'm) http_msg_parser \<Rightarrow> bool" where
  "hp_hasError mc p \<longleftrightarrow> hp_error p \<noteq> 0 \<or> mc_error mc (hp_parser p)"

text \<open>The header as a \<^verbatim>\<open>uint64_t\<close>, stored in an \<^verbatim>\<open>int64_t\<close>; \<open>cast\<close> is the conversion of boost.\<close>

definition q_getContentLength :: "(string \<Rightarrow> u64 option) \<Rightarrow> http_request \<Rightarrow> int" where
  "q_getContentLength cast q = sint (getAs cast (q_headers q) ''Content-Length'' 0)"

definition p_getContentLength :: "(string \<Rightarrow> u64 option) \<Rightarrow> http_response \<Rightarrow> int" where
  "p_getContentLength cast p = sint (getAs cast (p_headers p) ''Content-Length'' 0)"

section \<open>Receiving\<close>

text \<open>
  The loop that reads until the head is parsed; \<open>data\<close> holds the bytes not yet consumed. It need not
  end when the peer sends without end; the result \<open>Inr (None, s)\<close> is the null pointer.
\<close>

partial_function (option) recv_head ::
  "(nat \<Rightarrow> 's \<Rightarrow> int \<times> byte list \<times> 's) \<Rightarrow> ('s \<Rightarrow> 's) \<Rightarrow> ('p \<Rightarrow> byte list \<Rightarrow> nat \<times> 'p) \<Rightarrow> ('p \<Rightarrow> bool) \<Rightarrow> ('p \<Rightarrow> bool) \<Rightarrow>
   nat \<Rightarrow> 'p \<Rightarrow> byte list \<Rightarrow> 's \<Rightarrow> (fault + (('p \<times> byte list) option \<times> 's)) option" where
  "recv_head rd cl execute hasError isFinish buff_size parser data s =
     (case rd (buff_size - length data) s of (len, bs, s) \<Rightarrow>
        if len \<le> 0 then Some (Inr (None, cl s))
        else
          let data = data @ bs in
          (case execute parser data of (nparser, parser) \<Rightarrow>
             if length data < nparser then Some (Inl OutOfBounds)
             else if hasError parser then Some (Inr (None, cl s))
             else
               let data = drop nparser data in
               if length data = buff_size then Some (Inr (None, cl s))
               else if isFinish parser then Some (Inr (Some (parser, data), s))
               else recv_head rd cl execute hasError isFinish buff_size parser data s))"

declare recv_head.simps [code]

text \<open>The body of the given length: from what was read with the head, then from the stream.\<close>

definition recv_body ::
  "(nat \<Rightarrow> 's \<Rightarrow> int \<times> byte list \<times> 's) \<Rightarrow> ('s \<Rightarrow> 's) \<Rightarrow> int \<Rightarrow> byte list \<Rightarrow> 's \<Rightarrow> fault + (byte list option \<times> 's)" where
  "recv_body rd cl len data s =
     (if len > int (length data) then
        rbind (readFixSize rd (nat (len - int (length data))) s) (\<lambda>(rt, bs, s).
          if rt \<le> 0 then Inr (None, cl s) else Inr (Some (data @ bs), s))
      else Inr (Some (take (nat len) data), s))"

definition recvRequest ::
  "'g machine \<Rightarrow> (string \<Rightarrow> u64 option) \<Rightarrow> nat \<Rightarrow> http_status \<Rightarrow> 's sock_ops \<Rightarrow> 's \<Rightarrow> (fault + (http_request option \<times> 's)) option" where
  "recvRequest mc cast buff_size st0 ops s =
     (case recv_head (SocketStream_read ops) (SocketStream_close ops) (hp_execute mc on_request) (hp_hasError mc) (hp_isFinish mc)
             buff_size (new_HttpRequestParser mc st0) [] s of
        None \<Rightarrow> None
      | Some r \<Rightarrow> Some (rbind r (\<lambda>(h, s).
          case h of
            None \<Rightarrow> Inr (None, s)
          | Some (parser, data) \<Rightarrow>
              let len = q_getContentLength cast (hp_data parser) in
              if len > 0 then
                rbind (recv_body (SocketStream_read ops) (SocketStream_close ops) len data s) (\<lambda>(b, s).
                  case b of
                    None \<Rightarrow> Inr (None, s)
                  | Some body \<Rightarrow> Inr (Some (q_init ((hp_data parser)\<lparr>q_body := chars_of body\<rparr>)), s))
              else Inr (Some (q_init (hp_data parser)), s))))"

definition sendResponse :: "'s sock_ops \<Rightarrow> http_response \<Rightarrow> 's \<Rightarrow> int \<times> 's" where
  "sendResponse ops rsp s = writeFixSize (SocketStream_write ops) (bytes_of (p_dump rsp)) s"

section \<open>Properties\<close>

lemma recv_body_spec:
  assumes "sock_contract ops inc out" and "op_connected ops s" and "0 < len" and "nat len \<le> length (data @ inc s)"
  shows "\<exists>s'. recv_body (SocketStream_read ops) cl len data s = Inr (Some (take (nat len) (data @ inc s)), s') \<and>
    inc s' = drop (nat len - length data) (inc s) \<and> out s' = out s \<and> op_connected ops s'"
proof (cases "len > int (length data)")
  case True
  then have n: "nat (len - int (length data)) = nat len - length data" "0 < nat len - length data" by linarith+
  from readFixSize_spec [OF assms(1,2), of "nat len - length data"] obtain s' where
    "readFixSize (SocketStream_read ops) (nat len - length data) s =
       Inr (if nat len - length data \<le> length (inc s) then int (nat len - length data) else 0, take (nat len - length data) (inc s), s')"
    "inc s' = drop (nat len - length data) (inc s)" "out s' = out s" "op_connected ops s'" by blast
  moreover have "nat len - length data \<le> length (inc s)" using assms(4) by simp
  moreover have "length data \<le> nat len" using True by simp
  ultimately show ?thesis using True n by (simp add: recv_body_def)
next
  case False
  then have "nat len \<le> length data" by linarith
  then show ?thesis using False assms(2) by (simp add: recv_body_def)
qed

text \<open>When the first read brings the whole head, the loop is left with the bytes behind the head.\<close>

lemma recv_head_first:
  assumes "rd buff_size s = (len, head @ b, s1)" and "0 < len" and "head \<noteq> []" and "length (head @ b) \<le> buff_size"
    and "execute parser (head @ b) = (length head, parser1)" and "\<not> hasError parser1" and "isFinish parser1"
  shows "recv_head rd cl execute hasError isFinish buff_size parser [] s = Some (Inr (Some (parser1, b), s1))"
proof -
  have "length b \<noteq> buff_size" using assms(3,4) by (cases head) simp_all
  then show ?thesis using assms by (subst recv_head.simps) (simp add: Let_def)
qed


text \<open>A machine that knows one request: its head is two bytes and announces a body of three.\<close>

definition toy_machine :: "bool machine" where
  "toy_machine =
     \<lparr>mc_init = False, mc_execute = (\<lambda>g data. (2, [EvField ''content-length'' ''3''], True)), mc_finish = (\<lambda>g. g),
      mc_error = (\<lambda>g. False), mc_chunked = (\<lambda>g. False), mc_content_len = (\<lambda>g. 0), mc_chunks_done = (\<lambda>g. True)\<rparr>"


end
