(* ===== verification/HttpConnection.thy ===== *)
theory HttpConnection imports HttpSession begin

text \<open>
  The HTTP client (\<^verbatim>\<open>seaice/http/http_connection.h\<close>, \<^verbatim>\<open>http_connection.cpp\<close>): sending a request and
  receiving a response, with or without chunks, building a request from a URI and headers, and the
  pool of connections. A URI is given by the parts that its accessors return.
\<close>

section \<open>Sending and receiving\<close>

definition sendRequest :: "'s sock_ops \<Rightarrow> http_request \<Rightarrow> 's \<Rightarrow> int \<times> 's" where
  "sendRequest ops req s = writeFixSize (SocketStream_write ops) (bytes_of (q_dump req)) s"

text \<open>The loop that reads until the size of the next chunk is parsed.\<close>

partial_function (option) recv_chunk_size ::
  "(nat \<Rightarrow> 's \<Rightarrow> int \<times> byte list \<times> 's) \<Rightarrow> ('s \<Rightarrow> 's) \<Rightarrow> ('p \<Rightarrow> byte list \<Rightarrow> nat \<times> 'p) \<Rightarrow> ('p \<Rightarrow> bool) \<Rightarrow> ('p \<Rightarrow> bool) \<Rightarrow>
   nat \<Rightarrow> bool \<Rightarrow> 'p \<Rightarrow> byte list \<Rightarrow> 's \<Rightarrow> (fault + (('p \<times> byte list) option \<times> 's)) option" where
  "recv_chunk_size rd cl execute hasError isFinish buff_size first parser data s =
     (case (if \<not> first \<or> data = []
            then (case rd (buff_size - length data) s of (rt, bs, s) \<Rightarrow> (0 < rt, data @ bs, s))
            else (True, data, s)) of (ok, data, s) \<Rightarrow>
        if \<not> ok then Some (Inr (None, cl s))
        else (case execute parser data of (nparser, parser) \<Rightarrow>
          if length data < nparser then Some (Inl OutOfBounds)
          else if hasError parser then Some (Inr (None, cl s))
          else
            let data = drop nparser data in
            if length data = buff_size then Some (Inr (None, cl s))
            else if isFinish parser then Some (Inr (Some (parser, data), s))
            else recv_chunk_size rd cl execute hasError isFinish buff_size False parser data s))"

declare recv_chunk_size.simps [code]

text \<open>The rest of a chunk, in pieces of at most the size of the buffer.\<close>

function read_left ::
  "(nat \<Rightarrow> 's \<Rightarrow> int \<times> byte list \<times> 's) \<Rightarrow> ('s \<Rightarrow> 's) \<Rightarrow> nat \<Rightarrow> nat \<Rightarrow> byte list \<Rightarrow> 's \<Rightarrow> fault + (byte list option \<times> 's)" where
  "read_left rd cl buff_size left body s =
     (if left > 0 then
        (case rd (min left buff_size) s of (rt, bs, s) \<Rightarrow>
           if rt \<le> 0 then Inr (None, cl s)
           else if nat rt > min left buff_size then Inl OutOfBounds
           else read_left rd cl buff_size (left - nat rt) (body @ bs) s)
      else Inr (Some body, s))"
  by pat_completeness auto
termination
  by (relation "measure (\<lambda>(rd, cl, buff_size, left, body, s). left)") auto

declare read_left.simps [simp del]

text \<open>The loop over the chunks, with the condition of the code: it goes on after the last chunk only.\<close>

partial_function (option) recv_chunks ::
  "'g machine \<Rightarrow> (nat \<Rightarrow> 's \<Rightarrow> int \<times> byte list \<times> 's) \<Rightarrow> ('s \<Rightarrow> 's) \<Rightarrow> nat \<Rightarrow> ('g, http_response) http_msg_parser \<Rightarrow>
   byte list \<Rightarrow> byte list \<Rightarrow> 's \<Rightarrow> (fault + ((('g, http_response) http_msg_parser \<times> byte list) option \<times> 's)) option" where
  "recv_chunks mc rd cl buff_size parser data body s =
     Option.bind (recv_chunk_size rd cl (hp_execute_chunk mc on_response) (hp_hasError mc) (hp_isFinish mc) buff_size True parser data s)
       (\<lambda>r. case r of
          Inl e \<Rightarrow> Some (Inl e)
        | Inr (None, s) \<Rightarrow> Some (Inr (None, s))
        | Inr (Some (parser, data), s) \<Rightarrow>
            let c = mc_content_len mc (hp_parser parser) in
            if c + 2 \<le> int (length data) then
              if c + 2 < 0 then Some (Inl LogicError)
              else
                let body = body @ take (nat (c + 2)) data; data = drop (nat (c + 2)) data in
                if mc_chunks_done mc (hp_parser parser) then recv_chunks mc rd cl buff_size parser data body s
                else Some (Inr (Some (parser, body), s))
            else
              (case read_left rd cl buff_size (nat (c - int (length data) + 2)) (body @ data) s of
                 Inl e \<Rightarrow> Some (Inl e)
               | Inr (None, s) \<Rightarrow> Some (Inr (None, s))
               | Inr (Some body, s) \<Rightarrow>
                   if length body < 2 then Some (Inl LogicError)
                   else
                     let body = take (length body - 2) body in
                     if mc_chunks_done mc (hp_parser parser) then recv_chunks mc rd cl buff_size parser [] body s
                     else Some (Inr (Some (parser, body), s))))"

declare recv_chunks.simps [code]

definition recvResponse ::
  "'g machine \<Rightarrow> (string \<Rightarrow> u64 option) \<Rightarrow> nat \<Rightarrow> 's sock_ops \<Rightarrow> 's \<Rightarrow> (fault + (http_response option \<times> 's)) option" where
  "recvResponse mc cast buff_size ops s =
     Option.bind (recv_head (SocketStream_read ops) (SocketStream_close ops) (hp_execute mc on_response) (hp_hasError mc) (hp_isFinish mc)
             buff_size (new_HttpResponseParser mc) [] s)
       (\<lambda>r. case r of
          Inl e \<Rightarrow> Some (Inl e)
        | Inr (None, s) \<Rightarrow> Some (Inr (None, s))
        | Inr (Some (parser, data), s) \<Rightarrow>
            if mc_chunked mc (hp_parser parser) then
              Option.bind (recv_chunks mc (SocketStream_read ops) (SocketStream_close ops) buff_size parser data [] s)
                (\<lambda>r. Some (rbind r (\<lambda>(h, s). Inr (case h of None \<Rightarrow> None | Some (parser, body) \<Rightarrow> Some (hp_data parser), s))))
            else
              let len = p_getContentLength cast (hp_data parser) in
              if len > 0 then
                Some (rbind (recv_body (SocketStream_read ops) (SocketStream_close ops) len data s) (\<lambda>(b, s).
                  Inr (case b of None \<Rightarrow> None | Some body \<Rightarrow> Some ((hp_data parser)\<lparr>p_body := chars_of body\<rparr>), s)))
              else Some (Inr (Some (hp_data parser), s)))"

section \<open>Requests of the client\<close>

record uri_parts =
  u_path :: string
  u_query :: string
  u_fragment :: string
  u_host :: string

text \<open>The loop over the caller's headers; \<open>has_host\<close> is set by the first one that is not empty.\<close>

fun set_headers :: "(string \<times> string) list \<Rightarrow> bool \<Rightarrow> http_request \<Rightarrow> bool \<times> http_request" where
  "set_headers [] has_host req = (has_host, req)"
| "set_headers ((k, v) # hs) has_host req =
     (if ci_eq k ''connection'' then
        set_headers hs has_host (if ci_eq v ''keep-alive'' then req\<lparr>q_close := False\<rparr> else req)
      else
        set_headers hs (if \<not> has_host \<and> ci_eq k ''host'' then v \<noteq> [] else has_host) (q_setHeader k v req))"

definition build_request :: "http_status \<Rightarrow> http_method \<Rightarrow> uri_parts \<Rightarrow> (string \<times> string) list \<Rightarrow> string \<Rightarrow> http_request" where
  "build_request st0 meth uri headers body =
     (let req = (new_HttpRequest st0 0x11 True)\<lparr>q_method := meth, q_path := u_path uri, q_query := u_query uri,
                  q_fragment := u_fragment uri\<rparr>;
          (has_host, req) = set_headers headers False req;
          req = (if \<not> has_host then q_setHeader ''Host'' (u_host uri) req else req)
      in req\<lparr>q_body := body\<rparr>)"

text \<open>The pool puts the text of the target into the path and keeps the connection open.\<close>

definition uri_target :: "uri_parts \<Rightarrow> string" where
  "uri_target uri =
     u_path uri @ (if u_query uri = [] then [] else ''?'') @ u_query uri
     @ (if u_fragment uri = [] then [] else ''#'') @ u_fragment uri"

definition pool_request ::
  "http_status \<Rightarrow> string \<Rightarrow> string \<Rightarrow> http_method \<Rightarrow> string \<Rightarrow> (string \<times> string) list \<Rightarrow> string \<Rightarrow> http_request" where
  "pool_request st0 host vhost meth url headers body =
     (let req = (new_HttpRequest st0 0x11 True)\<lparr>q_method := meth, q_path := url, q_close := False\<rparr>;
          (has_host, req) = set_headers headers False req;
          req = (if \<not> has_host then q_setHeader ''Host'' (if vhost = [] then host else vhost) req else req)
      in req\<lparr>q_body := body\<rparr>)"

section \<open>The pool\<close>

text \<open>Connections are objects at addresses; whether one is connected is up to its socket.\<close>

record conn =
  cn_createTime :: nat
  cn_request :: nat

record conn_pool =
  cp_maxSize :: nat
  cp_maxAliveTime :: nat
  cp_maxRequest :: nat
  cp_conns :: "nat list"
  cp_total :: "32 word"
  cp_heap :: "nat \<Rightarrow> conn option"

definition new_HttpConnectionPool :: "nat \<Rightarrow> nat \<Rightarrow> nat \<Rightarrow> conn_pool" where
  "new_HttpConnectionPool max_size max_alive_time max_request =
     \<lparr>cp_maxSize = max_size, cp_maxAliveTime = max_alive_time, cp_maxRequest = max_request, cp_conns = [],
      cp_total = 0, cp_heap = Map.empty\<rparr>"

text \<open>The loop over the idle connections: the one to use, the ones to delete and the rest.\<close>

fun pop_conns :: "nat \<Rightarrow> (nat \<Rightarrow> bool) \<Rightarrow> nat \<Rightarrow> (nat \<Rightarrow> conn option) \<Rightarrow> nat list \<Rightarrow> nat option \<times> nat list \<times> nat list" where
  "pop_conns now_ms connected alive h [] = (None, [], [])"
| "pop_conns now_ms connected alive h (c # cs) =
     (if \<not> connected c \<or> cn_createTime (the (h c)) + alive > now_ms then
        (case pop_conns now_ms connected alive h cs of (p, bad, rest) \<Rightarrow> (p, c # bad, rest))
      else (Some c, [], cs))"

text \<open>\<open>fresh\<close> is the address of a new connection, or \<open>None\<close> when the lookup or the connect fails.\<close>

definition getConnection :: "nat \<Rightarrow> (nat \<Rightarrow> bool) \<Rightarrow> nat option \<Rightarrow> conn_pool \<Rightarrow> nat option \<times> conn_pool" where
  "getConnection now_ms connected fresh p =
     (case pop_conns now_ms connected (cp_maxAliveTime p) (cp_heap p) (cp_conns p) of (ptr, bad, rest) \<Rightarrow>
        let p = p\<lparr>cp_conns := rest, cp_heap := (cp_heap p) |` (- set bad), cp_total := cp_total p - word_of_nat (length bad)\<rparr> in
        case ptr of
          Some c \<Rightarrow> (Some c, p)
        | None \<Rightarrow>
            (case fresh of
               None \<Rightarrow> (None, p)
             | Some c \<Rightarrow> (Some c, p\<lparr>cp_heap := (cp_heap p)(c \<mapsto> \<lparr>cn_createTime = 0, cn_request = 0\<rparr>), cp_total := cp_total p + 1\<rparr>)))"

definition ReleasePtr :: "nat \<Rightarrow> bool \<Rightarrow> nat \<Rightarrow> conn_pool \<Rightarrow> fault + conn_pool" where
  "ReleasePtr now_ms connected c p =
     (case cp_heap p c of
        None \<Rightarrow> Inl OutOfBounds
      | Some cn \<Rightarrow>
          let cn = cn\<lparr>cn_request := Suc (cn_request cn)\<rparr> in
          if \<not> connected \<or> cn_createTime cn + cp_maxAliveTime p \<ge> now_ms \<or> cn_request cn \<ge> cp_maxRequest p
          then Inr (p\<lparr>cp_heap := (cp_heap p)(c := None), cp_total := cp_total p - 1\<rparr>)
          else Inr (p\<lparr>cp_heap := (cp_heap p)(c \<mapsto> cn), cp_conns := cp_conns p @ [c]\<rparr>))"

section \<open>Invariants of the loops\<close>

text \<open>What every run of the parser keeps, the result of a loop has.\<close>

definition keeps :: "('p \<Rightarrow> bool) \<Rightarrow> ('p \<Rightarrow> byte list \<Rightarrow> nat \<times> 'p) \<Rightarrow> 'p \<Rightarrow> fault + (('p \<times> 'd) option \<times> 's) \<Rightarrow> bool" where
  "keeps I execute p r \<longleftrightarrow> (\<forall>p d. I p \<longrightarrow> I (snd (execute p d))) \<longrightarrow> I p \<longrightarrow>
     (case r of Inr (Some (p', d), s) \<Rightarrow> I p' | _ \<Rightarrow> True)"

lemma recv_head_keeps:
  assumes "recv_head rd cl execute hasError isFinish buff_size parser data s = Some r"
  shows "keeps I execute parser r"
proof (rule recv_head.raw_induct [where P = "\<lambda>rd cl ex he fi bz p d s r. keeps I ex p r", OF _ assms], goal_cases)
  case (1 rec rd cl ex he fi bz p d s r)
  obtain len bs s1 where rd: "rd (bz - length d) s = (len, bs, s1)" by (metis prod_cases3)
  obtain n p1 where ex: "ex p (d @ bs) = (n, p1)" by (metis surj_pair)
  have "I p1" if "\<forall>p d. I p \<longrightarrow> I (snd (ex p d))" "I p" using that ex by (metis snd_conv)
  with 1(2) rd ex 1(1) [of rd cl ex he fi bz p1 "drop n (d @ bs)" s1 r] show ?case
    by (auto simp: Let_def keeps_def split: if_splits)
qed

lemma recv_chunk_size_keeps:
  assumes "recv_chunk_size rd cl execute hasError isFinish buff_size first parser data s = Some r"
  shows "keeps I execute parser r"
proof (rule recv_chunk_size.raw_induct [where P = "\<lambda>rd cl ex he fi bz b p d s r. keeps I ex p r", OF _ assms], goal_cases)
  case (1 rec rd cl ex he fi bz b p d s r)
  obtain ok d1 s1 where rd: "(if \<not> b \<or> d = []
            then (case rd (bz - length d) s of (rt, bs, s) \<Rightarrow> (0 < rt, d @ bs, s))
            else (True, d, s)) = (ok, d1, s1)" by (metis prod_cases3)
  obtain n p1 where ex: "ex p d1 = (n, p1)" by (metis surj_pair)
  have "I p1" if "\<forall>p d. I p \<longrightarrow> I (snd (ex p d))" "I p" using that ex by (metis snd_conv)
  with 1(2) ex 1(1) [of rd cl ex he fi bz False p1 "drop n d1" s1 r] show ?case
    unfolding rd by (auto simp: Let_def keeps_def split: if_splits)
qed

text \<open>No callback of the response parser touches the body.\<close>

lemma on_response_body: "p_body (hp_data (on_response e p)) = p_body (hp_data p)"
  by (cases e) (auto simp: on_response_field_def on_response_version_def p_setHeader_def split: option.split)

lemma fold_on_response_body: "p_body (hp_data (fold on_response es p)) = p_body (hp_data p)"
  by (induction es arbitrary: p) (simp_all add: on_response_body)

lemma execute_body:
  "p_body (hp_data (snd (hp_execute mc on_response p d))) = p_body (hp_data p)"
  "p_body (hp_data (snd (hp_execute_chunk mc on_response p d))) = p_body (hp_data p)"
  by (simp_all add: hp_execute_chunk_def hp_execute_def fold_on_response_body split: prod.split)

abbreviation no_body :: "('g, http_response) http_msg_parser \<Rightarrow> bool" where
  "no_body p \<equiv> p_body (hp_data p) = []"

lemma recv_chunks_no_body:
  assumes "recv_chunks mc rd cl buff_size parser data body s = Some r" and "no_body parser"
  shows "case r of Inr (Some (p', b), s') \<Rightarrow> no_body p' | _ \<Rightarrow> True"
proof -
  have "no_body parser \<longrightarrow> (case r of Inr (Some (p', b), s') \<Rightarrow> no_body p' | _ \<Rightarrow> True)"
  proof (rule recv_chunks.raw_induct [where P = "\<lambda>mc rd cl bz p d body s r.
      no_body p \<longrightarrow> (case r of Inr (Some (p', b), s') \<Rightarrow> no_body p' | _ \<Rightarrow> True)", OF _ assms(1)], goal_cases)
    case (1 rec mc rd cl bz p d body s r)
    show ?case
    proof
      assume p: "no_body p"
      from 1(2) obtain h where h: "recv_chunk_size rd cl (hp_execute_chunk mc on_response) (hp_hasError mc)
          (hp_isFinish mc) bz True p d s = Some h" by (auto simp: bind_eq_Some_conv)
      have "keeps no_body (hp_execute_chunk mc on_response) p h" by (rule recv_chunk_size_keeps [OF h])
      then have p1: "no_body p1" if "h = Inr (Some (p1, d1), s1)" for p1 d1 s1
        using that p by (simp add: keeps_def execute_body)
      show "case r of Inr (Some (p', b), s') \<Rightarrow> no_body p' | _ \<Rightarrow> True"
      proof (cases h)
        case (Inl e)
        with 1(2) h show ?thesis by auto
      next
        case (Inr hs)
        obtain ho s1 where hs: "hs = (ho, s1)" by (cases hs)
        show ?thesis
        proof (cases ho)
          case None
          with 1(2) h Inr hs show ?thesis by auto
        next
          case (Some pd)
          obtain p1' d1 where pd: "pd = (p1', d1)" by (cases pd)
          have nb: "no_body p1'" using p1 Inr hs Some pd by simp
          note hyp = 1(1) [rule_format, OF _ nb]
          from 1(2) h Inr hs Some pd nb show ?thesis
            by (auto simp: Let_def split: if_splits sum.splits option.splits prod.splits dest!: hyp)
        qed
      qed
    qed
  qed
  with assms(2) show ?thesis by blast
qed

section \<open>Properties\<close>

text \<open>
  The client reads a response with its whole body when it comes with \<^verbatim>\<open>Content-Length\<close>: the first
  read brings the head with any part of what follows, the generated parser consumes exactly the head, and
  the body is the announced number of bytes, read from the socket in pieces of any size. A response that
  comes in chunks loses its body: the chunks are read, one only, because the condition of the loop is
  inverted, and the text collected from them is dropped; the caller gets an empty body.
\<close>

theorem recvResponse_body:
  assumes "sock_contract ops inc out" and "op_connected ops s"
    and "op_recv ops buff_size s = (rt, head @ b, s1)" and "head \<noteq> []"
    and "hp_execute mc on_response (new_HttpResponseParser mc) (head @ b) = (length head, parser)"
    and "\<not> hp_hasError mc parser" and "hp_isFinish mc parser"
    and "len = p_getContentLength cast (hp_data parser)"
  shows "(\<not> mc_chunked mc (hp_parser parser) \<and> 0 < len \<and> nat len \<le> length (b @ inc s1) \<longrightarrow>
      (\<exists>s'. recvResponse mc cast buff_size ops s =
          Some (Inr (Some ((hp_data parser)\<lparr>p_body := chars_of (take (nat len) (b @ inc s1))\<rparr>), s')) \<and>
        inc s' = drop (nat len - length b) (inc s1) \<and> out s' = out s)) \<and>
    (mc_chunked mc (hp_parser parser) \<longrightarrow>
      (\<forall>rsp s'. recvResponse mc cast buff_size ops s = Some (Inr (Some rsp, s')) \<longrightarrow> p_body rsp = []))"
proof -
  note r = sock_recvD [OF assms(1-3)]
  have len: "length (head @ b) \<le> buff_size" "0 < rt" using r(2,3) assms(4) by (cases head; simp)+
  have rd: "SocketStream_read ops buff_size s = (rt, head @ b, s1)"
    using assms(2,3) by (simp add: SocketStream_read_def SocketStream_isConnected_def)
  have head: "recv_head (SocketStream_read ops) (SocketStream_close ops) (hp_execute mc on_response) (hp_hasError mc)
      (hp_isFinish mc) buff_size (new_HttpResponseParser mc) [] s = Some (Inr (Some (parser, b), s1))"
    by (rule recv_head_first [where head = head and len = rt]) (use rd len assms(4-7) in simp_all)
  have "no_body parser"
    using arg_cong [OF assms(5), of "\<lambda>x. p_body (hp_data (snd x))"]
    by (simp add: execute_body new_HttpResponseParser_def new_HttpResponse_def)
  then have "p_body rsp = []" if "mc_chunked mc (hp_parser parser)" "recvResponse mc cast buff_size ops s = Some (Inr (Some rsp, s'))"
    for rsp s'
    using that head recv_chunks_no_body [of mc "SocketStream_read ops" "SocketStream_close ops" buff_size parser b "[]" s1]
    by (fastforce simp: recvResponse_def bind_eq_Some_conv rbind_eq_Inr split: option.splits prod.splits)
  moreover
  {
    assume h: "\<not> mc_chunked mc (hp_parser parser)" "0 < len" "nat len \<le> length (b @ inc s1)"
    from recv_body_spec [OF assms(1) r(6) h(2,3), of "SocketStream_close ops"] obtain s' where
      "recv_body (SocketStream_read ops) (SocketStream_close ops) len b s1 = Inr (Some (take (nat len) (b @ inc s1)), s')"
      "inc s' = drop (nat len - length b) (inc s1)" "out s' = out s1" by blast
    then have "\<exists>s'. recvResponse mc cast buff_size ops s =
          Some (Inr (Some ((hp_data parser)\<lparr>p_body := chars_of (take (nat len) (b @ inc s1))\<rparr>), s')) \<and>
        inc s' = drop (nat len - length b) (inc s1) \<and> out s' = out s"
      using head h r(5) by (simp add: recvResponse_def assms(8) [symmetric] Let_def)
  }
  ultimately show ?thesis by blast
qed

theorem recvResponse_body_witness:
  "\<exists>p s'. recvResponse toy_machine (\<lambda>v. if v = ''3'' then Some 3 else None) 100 peer ([72, 10, 97, 98, 99, 1], []) =
      Some (Inr (Some p, s')) \<and> p_body p = ''abc'' \<and> fst s' = [1]"
proof -
  let ?p = "snd (hp_execute toy_machine on_response (new_HttpResponseParser toy_machine) ([72, 10] @ [97]))"
  have ci: "ci_eq ''content-length'' ''Content-Length''" by code_simp
  have len: "3 = p_getContentLength (\<lambda>v. if v = ''3'' then Some 3 else None) (hp_data ?p)"
    by (simp add: hp_execute_def toy_machine_def new_HttpResponseParser_def on_response_field_def p_setHeader_def
        p_getContentLength_def getAs_def hm_find_set ci)
  have "op_recv peer 100 ([72, 10, 97, 98, 99, 1], []) = (3, [72, 10] @ [97], ([98, 99, 1], []))"
    by (simp add: peer_def Let_def min_def)
  moreover have "hp_execute toy_machine on_response (new_HttpResponseParser toy_machine) ([72, 10] @ [97]) = (length [72 :: byte, 10], ?p)"
    by (simp add: hp_execute_def toy_machine_def)
  moreover have "\<not> hp_hasError toy_machine ?p" "hp_isFinish toy_machine ?p"
    by (simp_all add: hp_hasError_def hp_isFinish_def hp_execute_def toy_machine_def new_HttpResponseParser_def on_response_field_def)
  moreover have "op_connected peer ([72, 10, 97, 98, 99, 1], [])" by (simp add: peer_def)
  moreover have "\<not> mc_chunked toy_machine (hp_parser ?p)" by (simp add: toy_machine_def)
  ultimately obtain s' where
    "recvResponse toy_machine (\<lambda>v. if v = ''3'' then Some 3 else None) 100 peer ([72, 10, 97, 98, 99, 1], []) =
       Some (Inr (Some ((hp_data ?p)\<lparr>p_body := chars_of (take 3 ([97] @ fst ([98, 99, 1] :: byte list, [] :: byte list)))\<rparr>), s'))"
    "fst s' = drop 2 [98, 99, 1]"
    using recvResponse_body [OF peer_contract _ _ _ _ _ _ len, of "([72, 10, 97, 98, 99, 1], [])" 100 3 "[72, 10]" "[97]"
        "([98, 99, 1], [])"] by auto
  moreover have "char_of (97 :: nat) = CHR ''a''" "char_of (98 :: nat) = CHR ''b''" "char_of (99 :: nat) = CHR ''c''" by code_simp+
  then have "chars_of [97, 98, 99] = ''abc''" by (simp add: chars_of_def)
  ultimately show ?thesis by auto
qed

text \<open>The headers of a request, for callers' headers that differ in more than case.\<close>

lemma set_headers_spec:
  assumes "distinct (map (\<lambda>p. ci_key (fst p)) hs)" and "set_headers hs hh req = (hh', req')"
  shows "hm_find (q_headers req') j =
      (if ci_eq ''connection'' j then hm_find (q_headers req) j
       else case hm_find hs j of Some v \<Rightarrow> Some v | None \<Rightarrow> hm_find (q_headers req) j) \<and>
    hh' = (hh \<or> (\<exists>v. hm_find hs ''host'' = Some v \<and> v \<noteq> []))"
  using assms
proof (induction hs arbitrary: hh req)
  case Nil
  then show ?case by simp
next
  case (Cons p hs)
  obtain k v where p: "p = (k, v)" by (cases p)
  have dist: "distinct (map (\<lambda>p. ci_key (fst p)) hs)" using Cons.prems(1) by simp
  have none: "hm_find hs i = None" if "ci_eq k i" for i
    using Cons.prems(1) that by (auto simp: p hm_find_None ci_eq_def image_iff)
  have nothost: "\<not> ci_eq ''connection'' ''host''" by code_simp
  show ?case
  proof (cases "ci_eq k ''connection''")
    case True
    with Cons.prems(2) have "set_headers hs hh (if ci_eq v ''keep-alive'' then req\<lparr>q_close := False\<rparr> else req) = (hh', req')"
      by (simp add: p)
    from Cons.IH [OF dist this] True nothost show ?thesis
      by (cases "hm_find hs j") (auto simp: p hm_find_Cons ci_eq_def split: if_splits)
  next
    case False
    with Cons.prems(2) have "set_headers hs (if \<not> hh \<and> ci_eq k ''host'' then v \<noteq> [] else hh) (q_setHeader k v req) = (hh', req')"
      by (simp add: p)
    from Cons.IH [OF dist this] False none [of j] none [of "''host''"] show ?thesis
      by (auto simp: p hm_find_Cons q_setHeader_def hm_find_set ci_eq_def split: if_splits option.splits)
  qed
qed

lemma set_headers_fields:
  "set_headers hs hh req = (hh', req') \<Longrightarrow> q_method req' = q_method req \<and> q_path req' = q_path req \<and>
     q_query req' = q_query req \<and> q_fragment req' = q_fragment req \<and> q_websock req' = q_websock req"
  by (induction hs hh req rule: set_headers.induct) (auto simp: q_setHeader_def split: if_splits)

text \<open>
  A request of the client: every header of the caller is in it, in any case it is asked for, except
  \<^verbatim>\<open>connection\<close>, which never is (the close flag stands for it); a \<^verbatim>\<open>Host\<close> is always there, the caller's
  when it is not empty and the host of the URI otherwise; method, target and body are those given. A
  request of a pool differs in the host it falls back to and in its target, which is the whole text.
\<close>

theorem client_request_headers:
  assumes "distinct (map (\<lambda>p. ci_key (fst p)) headers)"
  shows "let q = build_request st0 meth uri headers body in
    (\<forall>j. hm_find (q_headers q) j =
      (if ci_eq ''connection'' j then None
       else if ci_eq ''host'' j \<and> hm_find headers j \<in> {None, Some []} then Some (u_host uri)
       else hm_find headers j)) \<and>
    q_method q = meth \<and> q_path q = u_path uri \<and> q_query q = u_query uri \<and> q_body q = body \<and> \<not> q_websock q \<and>
    (\<forall>j. \<not> ci_eq ''host'' j \<longrightarrow>
      hm_find (q_headers (pool_request st0 h vh meth (uri_target uri) headers body)) j = hm_find (q_headers q) j)"
proof -
  let ?r = "(new_HttpRequest st0 0x11 True)\<lparr>q_method := meth, q_path := u_path uri, q_query := u_query uri, q_fragment := u_fragment uri\<rparr>"
  let ?r' = "(new_HttpRequest st0 0x11 True)\<lparr>q_method := meth, q_path := uri_target uri, q_close := False\<rparr>"
  obtain hh q where q: "set_headers headers False ?r = (hh, q)" by fastforce
  obtain hh' q' where q': "set_headers headers False ?r' = (hh', q')" by fastforce
  note s = set_headers_spec [OF assms q] set_headers_spec [OF assms q']
  have ci: "ci_key ''Host'' = ci_key ''host''" "\<not> ci_eq ''connection'' ''host''" by code_simp+
  have hh: "hh \<longleftrightarrow> (\<exists>v. hm_find headers ''host'' = Some v \<and> v \<noteq> [])" "hh' \<longleftrightarrow> hh" using s by auto
  have f: "hm_find (q_headers q) j = (if ci_eq ''connection'' j then None else hm_find headers j)"
    "hm_find (q_headers q') j = (if ci_eq ''connection'' j then None else hm_find headers j)" for j
    using s [of j] by (auto simp: new_HttpRequest_def split: option.splits)
  have hosts: "hm_find headers j = hm_find headers ''host''" "\<not> ci_eq ''connection'' j" if "ci_eq ''host'' j" for j
    using that ci hm_find_cong [of "''host''" j headers] by (auto simp: ci_eq_def)
  have "hm_find (q_headers (if \<not> hh then q_setHeader ''Host'' (u_host uri) q else q)) j =
      (if ci_eq ''connection'' j then None
       else if ci_eq ''host'' j \<and> hm_find headers j \<in> {None, Some []} then Some (u_host uri)
       else hm_find headers j)" for j
    using hosts [of j] f(1) [of j] hh ci
    by (cases "hm_find headers ''host''") (auto simp: q_setHeader_def hm_find_set ci_eq_def)
  moreover have "hm_find (q_headers (if \<not> hh' then q_setHeader ''Host'' (if vh = [] then h else vh) q' else q')) j =
      hm_find (q_headers (if \<not> hh then q_setHeader ''Host'' (u_host uri) q else q)) j" if "\<not> ci_eq ''host'' j" for j
    using that f [of j] hh(2) ci by (auto simp: q_setHeader_def hm_find_set ci_eq_def)
  ultimately show ?thesis
    using set_headers_fields [OF q] q q' by (auto simp: build_request_def pool_request_def Let_def q_setHeader_def new_HttpRequest_def)
qed

theorem client_request_headers_witness:
  "hm_find (q_headers (build_request 0 1 \<lparr>u_path = ''/'', u_query = [], u_fragment = [], u_host = ''a.org''\<rparr>
     [(''Accept'', ''*''), (''Connection'', ''close'')] [])) ''HOST'' = Some ''a.org''"
proof -
  have "distinct (map (\<lambda>p. ci_key (fst p)) [(''Accept'', ''*''), (''Connection'', ''close'')])"
    "ci_eq ''host'' ''HOST''" "\<not> ci_eq ''connection'' ''HOST''"
    "hm_find [(''Accept'', ''*''), (''Connection'', ''close'')] ''HOST'' = None" by code_simp+
  then show ?thesis
    using client_request_headers [of "[(''Accept'', ''*''), (''Connection'', ''close'')]" 0 1
        "\<lparr>u_path = ''/'', u_query = [], u_fragment = [], u_host = ''a.org''\<rparr>" "[]" "[]" "[]"]
    by (auto simp: Let_def)
qed

text \<open>
  The runs of a pool: \<open>out\<close> is the list of the connections handed out. Clock, sockets and lookups are up
  to the environment; a new connection has an address of its own.
\<close>

inductive pool_run :: "nat \<Rightarrow> nat \<Rightarrow> nat \<Rightarrow> conn_pool \<Rightarrow> nat list \<Rightarrow> bool" for max_size alive max_request where
  start: "pool_run max_size alive max_request (new_HttpConnectionPool max_size alive max_request) []"
| get: "pool_run max_size alive max_request p out \<Longrightarrow> (\<forall>c. fresh = Some c \<longrightarrow> cp_heap p c = None) \<Longrightarrow>
     getConnection now_ms connected fresh p = (ptr, p') \<Longrightarrow>
     pool_run max_size alive max_request p' (case ptr of None \<Rightarrow> out | Some c \<Rightarrow> c # out)"
| release: "pool_run max_size alive max_request p out \<Longrightarrow> c \<in> set out \<Longrightarrow>
     ReleasePtr now_ms up c p = Inr p' \<Longrightarrow> pool_run max_size alive max_request p' (remove1 c out)"

definition pool_inv :: "conn_pool \<Rightarrow> nat list \<Rightarrow> bool" where
  "pool_inv p out \<longleftrightarrow>
     distinct (cp_conns p @ out) \<and> dom (cp_heap p) = set (cp_conns p) \<union> set out \<and>
     cp_total p = word_of_nat (length (cp_conns p) + length out) \<and>
     (\<forall>c cn. cp_heap p c = Some cn \<longrightarrow> cn_createTime cn = 0) \<and>
     (\<forall>c \<in> set (cp_conns p). cn_request (the (cp_heap p c)) < cp_maxRequest p)"

lemma pop_conns_split:
  "pop_conns now_ms connected alive h cs = (ptr, bad, rest) \<Longrightarrow>
   cs = bad @ (case ptr of None \<Rightarrow> [] | Some c \<Rightarrow> [c]) @ rest \<and> (ptr = None \<longrightarrow> rest = [])"
  by (induction cs arbitrary: bad) (auto split: if_splits prod.splits)

lemma drop_bad_inv:
  assumes inv: "pool_inv p out" and cs: "cp_conns p = bad @ hit @ rest"
  shows "pool_inv (p\<lparr>cp_conns := rest, cp_heap := (cp_heap p) |` (- set bad), cp_total := cp_total p - word_of_nat (length bad)\<rparr>) (hit @ out)"
    (is "pool_inv ?p _")
proof -
  have dist: "distinct (bad @ hit @ rest @ out)" and dom: "dom (cp_heap p) = set (bad @ hit @ rest @ out)"
    using inv by (auto simp: pool_inv_def cs)
  have "dom (cp_heap ?p) = set rest \<union> set (hit @ out)"
    using dist by (simp add: dom) blast
  moreover have "distinct (cp_conns ?p @ (hit @ out))" using dist by auto
  moreover have "cp_total ?p = word_of_nat (length (cp_conns ?p) + length (hit @ out))"
    using inv by (simp add: pool_inv_def cs)
  moreover have "\<forall>c cn. cp_heap ?p c = Some cn \<longrightarrow> cn_createTime cn = 0"
    using inv by (auto simp: pool_inv_def restrict_map_def)
  moreover have "\<forall>c \<in> set (cp_conns ?p). cn_request (the (cp_heap ?p c)) < cp_maxRequest ?p"
    using inv dist by (auto simp: pool_inv_def cs restrict_map_def)
  ultimately show ?thesis by (simp add: pool_inv_def)
qed

lemma new_conn_inv:
  assumes "pool_inv p out" and "c \<notin> dom (cp_heap p)"
  shows "pool_inv (p\<lparr>cp_heap := (cp_heap p)(c \<mapsto> \<lparr>cn_createTime = 0, cn_request = 0\<rparr>), cp_total := cp_total p + 1\<rparr>) (c # out)"
  using assms by (auto simp: pool_inv_def ac_simps)

lemma getConnection_inv:
  assumes inv: "pool_inv p out" and fresh: "\<forall>c. fresh = Some c \<longrightarrow> cp_heap p c = None"
    and get: "getConnection now_ms connected fresh p = (ptr, p')"
  shows "pool_inv p' (case ptr of None \<Rightarrow> out | Some c \<Rightarrow> c # out)"
proof -
  obtain q bad rest where pop: "pop_conns now_ms connected (cp_maxAliveTime p) (cp_heap p) (cp_conns p) = (q, bad, rest)"
    by (metis prod_cases3)
  let ?p = "p\<lparr>cp_conns := rest, cp_heap := (cp_heap p) |` (- set bad), cp_total := cp_total p - word_of_nat (length bad)\<rparr>"
  have cs: "cp_conns p = bad @ (case q of None \<Rightarrow> [] | Some c \<Rightarrow> [c]) @ rest" using pop_conns_split [OF pop] by blast
  from drop_bad_inv [OF inv cs] have inv1: "pool_inv ?p ((case q of None \<Rightarrow> [] | Some c \<Rightarrow> [c]) @ out)" .
  show ?thesis
  proof (cases q)
    case (Some c)
    then show ?thesis using get pop inv1 by (auto simp: getConnection_def Let_def)
  next
    case q: None
    show ?thesis
    proof (cases fresh)
      case None
      then show ?thesis using q get pop inv1 by (auto simp: getConnection_def Let_def)
    next
      case (Some c)
      have "c \<notin> dom (cp_heap ?p)" using fresh Some by (auto simp: restrict_map_def split: if_splits)
      from new_conn_inv [OF _ this, of out] show ?thesis
        using q Some get pop inv1 by (auto simp: getConnection_def Let_def)
    qed
  qed
qed

lemma ReleasePtr_inv:
  assumes inv: "pool_inv p out" and c: "c \<in> set out"
  shows "\<exists>p'. ReleasePtr now_ms up c p = Inr p' \<and> pool_inv p' (remove1 c out)"
proof -
  have "c \<in> dom (cp_heap p)" using inv c by (simp add: pool_inv_def)
  then obtain cn where cn: "cp_heap p c = Some cn" by blast
  have len: "length out = Suc (length (remove1 c out))" using c by (simp add: length_remove1) (metis Suc_pred length_pos_if_in_set)
  have set: "set (remove1 c out) = set out - {c}" using inv by (simp add: pool_inv_def)
  have tot: "cp_total p = word_of_nat (length (cp_conns p) + length (remove1 c out)) + 1"
    using inv len by (simp add: pool_inv_def)
  have c': "c \<notin> set (cp_conns p)" using inv c by (auto simp: pool_inv_def)
  show ?thesis
  proof (cases "\<not> up \<or> cn_createTime cn + cp_maxAliveTime p \<ge> now_ms \<or> Suc (cn_request cn) \<ge> cp_maxRequest p")
    case True
    then have "ReleasePtr now_ms up c p = Inr (p\<lparr>cp_heap := (cp_heap p)(c := None), cp_total := cp_total p - 1\<rparr>)"
      using cn by (auto simp: ReleasePtr_def Let_def)
    moreover have "pool_inv (p\<lparr>cp_heap := (cp_heap p)(c := None), cp_total := cp_total p - 1\<rparr>) (remove1 c out)"
      using inv c' tot set by (auto simp: pool_inv_def)
    ultimately show ?thesis by blast
  next
    case False
    let ?cn = "cn\<lparr>cn_request := Suc (cn_request cn)\<rparr>"
    have "ReleasePtr now_ms up c p = Inr (p\<lparr>cp_heap := (cp_heap p)(c \<mapsto> ?cn), cp_conns := cp_conns p @ [c]\<rparr>)"
      using cn False by (auto simp: ReleasePtr_def Let_def)
    moreover have "pool_inv (p\<lparr>cp_heap := (cp_heap p)(c \<mapsto> ?cn), cp_conns := cp_conns p @ [c]\<rparr>) (remove1 c out)"
      using inv c' c set cn False by (auto simp: pool_inv_def len)
    ultimately show ?thesis by blast
  qed
qed

lemma pool_run_inv: "pool_run ms al mr p out \<Longrightarrow> pool_inv p out"
proof (induction rule: pool_run.induct)
  case start
  show ?case by (simp add: pool_inv_def new_HttpConnectionPool_def)
next
  case (get p out fresh now_ms connected ptr p')
  then show ?case by (intro getConnection_inv) auto
next
  case (release p out c now_ms up p')
  then show ?case using ReleasePtr_inv [of p out c now_ms up] by auto
qed

text \<open>
  C26. In every run of a connection pool the connections waiting in it and the ones handed out are all
  different and are exactly the live ones, the counter of the pool is their number, a waiting connection
  has served fewer requests than allowed, giving one back never touches a deleted object, and no
  connection carries its time of creation: the times stay 0, so the limit on the age never applies to
  a clock beyond \<^verbatim>\<open>m_maxAliveTime\<close> and the first waiting connection that is still connected is reused.
\<close>

theorem connection_pool_invariant:
  assumes "pool_run max_size alive max_request p out"
  shows "distinct (cp_conns p @ out) \<and> dom (cp_heap p) = set (cp_conns p) \<union> set out \<and>
    cp_total p = word_of_nat (length (cp_conns p) + length out) \<and>
    (\<forall>c \<in> set (cp_conns p). cn_request (the (cp_heap p c)) < cp_maxRequest p) \<and>
    (\<forall>c \<in> set out. \<exists>p'. ReleasePtr now_ms up c p = Inr p') \<and>
    (\<forall>c cs. cp_conns p = c # cs \<and> connected c \<and> cp_maxAliveTime p \<le> now_ms \<longrightarrow>
      fst (getConnection now_ms connected fresh p) = Some c)"
proof -
  have inv: "pool_inv p out" by (rule pool_run_inv [OF assms])
  have "fst (getConnection now_ms connected fresh p) = Some c"
    if "cp_conns p = c # cs" "connected c" "cp_maxAliveTime p \<le> now_ms" for c cs
  proof -
    have "c \<in> dom (cp_heap p)" using inv that(1) by (simp add: pool_inv_def)
    then obtain cn where "cp_heap p c = Some cn" by blast
    then have "cn_createTime (the (cp_heap p c)) = 0" using inv by (simp add: pool_inv_def)
    with that show ?thesis by (simp add: getConnection_def Let_def)
  qed
  with inv ReleasePtr_inv [OF inv] show ?thesis unfolding pool_inv_def by blast
qed

theorem connection_pool_invariant_witness:
  "\<exists>p out. pool_run 1 100 5 p out \<and> out = [8, 7] \<and> cp_total p = 2 \<and> cp_maxSize p = 1"
proof -
  let ?p0 = "new_HttpConnectionPool 1 100 5"
  obtain p1 where p1: "getConnection 500 (\<lambda>_. True) (Some 7) ?p0 = (Some 7, p1)" "cp_heap p1 8 = None" "cp_conns p1 = []" "cp_maxSize p1 = 1"
    by (auto simp: getConnection_def new_HttpConnectionPool_def Let_def)
  have r1: "pool_run 1 100 5 p1 [7]"
    using pool_run.get [OF pool_run.start, of "Some 7" 1 100 5 500 "\<lambda>_. True" "Some 7" p1] p1(1)
    by (simp add: new_HttpConnectionPool_def)
  obtain p2 where p2: "getConnection 500 (\<lambda>_. True) (Some 8) p1 = (Some 8, p2)" "cp_conns p2 = []" "cp_maxSize p2 = 1"
    using p1(3,4) by (auto simp: getConnection_def Let_def)
  have r2: "pool_run 1 100 5 p2 [8, 7]"
    using pool_run.get [OF r1, of "Some 8" 500 "\<lambda>_. True" "Some 8" p2] p1(2) p2(1) by simp
  from connection_pool_invariant [OF r2] have "cp_total p2 = 2" using p2(2) by simp
  with r2 p2(3) show ?thesis by blast
qed

end
