(* ===== verification/Servlet.thy ===== *)
theory Servlet imports Http begin

text \<open>
  Servlets and their dispatcher (\<^verbatim>\<open>seaice/http/servlet.h\<close>, \<^verbatim>\<open>servlet.cpp\<close>, \<^verbatim>\<open>ws_servlet.h\<close>,
  \<^verbatim>\<open>ws_servlet.cpp\<close>). A handler changes the request, the response and the session (type \<open>'s\<close>) that it is
  given; \<open>fnm p u\<close> is \<^verbatim>\<open>fnmatch(p, u, 0) == 0\<close>.
\<close>

type_synonym 's handler = "http_request \<Rightarrow> http_response \<Rightarrow> 's \<Rightarrow> int \<times> http_request \<times> http_response \<times> 's"
type_synonym 's ws_callback = "http_request \<Rightarrow> 's \<Rightarrow> http_request \<times> 's"

text \<open>A servlet of the framework, or one of the application with its name and handler.\<close>

datatype ('m, 's) servlet =
    FunctionServlet "'s handler"
  | NotFoundServlet string string
  | WSFunctionServlet "('m \<Rightarrow> 's ws_callback) option" "'s ws_callback option" "'s ws_callback option"
  | UserServlet string "'s handler"

definition new_NotFoundServlet :: "string \<Rightarrow> ('m, 's) servlet" where
  "new_NotFoundServlet name =
     NotFoundServlet name
       (''<html><head><title>404 Not Found'' @
        ''</title></head><body><center><h1>404 Not Found</h1></center>'' @
        ''<hr><center>'' @ name @ ''</center></body></html>'')"

definition NotFoundServlet_handle :: "string \<Rightarrow> 's handler" where
  "NotFoundServlet_handle content q p s =
     (0, q, (p_setHeader ''Content-Type'' ''text/html'' (p\<lparr>p_status := 404\<rparr>))\<lparr>p_body := content\<rparr>, s)"

text \<open>The virtual \<^verbatim>\<open>handle\<close>; a websocket servlet leaves HTTP requests alone.\<close>

primrec servlet_handle :: "('m, 's) servlet \<Rightarrow> 's handler" where
  "servlet_handle (FunctionServlet cb) q p s = cb q p s"
| "servlet_handle (NotFoundServlet name content) q p s = NotFoundServlet_handle content q p s"
| "servlet_handle (WSFunctionServlet h cn cl) q p s = (0, q, p, s)"
| "servlet_handle (UserServlet name f) q p s = f q p s"

definition WS_onConnect :: "'s ws_callback option \<Rightarrow> 's ws_callback" where
  "WS_onConnect cb q s = (case cb of Some f \<Rightarrow> f q s | None \<Rightarrow> (q, s))"

definition WS_handle :: "('m \<Rightarrow> 's ws_callback) option \<Rightarrow> 'm \<Rightarrow> 's ws_callback" where
  "WS_handle cb msg q s = (case cb of Some f \<Rightarrow> f msg q s | None \<Rightarrow> (q, s))"

definition WS_onClose :: "'s ws_callback option \<Rightarrow> 's ws_callback" where
  "WS_onClose cb q s = (case cb of Some f \<Rightarrow> f q s | None \<Rightarrow> (q, s))"

section \<open>The dispatcher\<close>

record ('m, 's) dispatch =
  d_default :: "('m, 's) servlet option"
  d_datas :: "(string \<times> ('m, 's) servlet) list"
  d_globs :: "(string \<times> ('m, 's) servlet) list"

definition new_ServletDispatch :: "('m, 's) dispatch" where
  "new_ServletDispatch = \<lparr>d_default = Some (new_NotFoundServlet ''seaice/1.0''), d_datas = [], d_globs = []\<rparr>"

definition addServlet :: "string \<Rightarrow> ('m, 's) servlet \<Rightarrow> ('m, 's) dispatch \<Rightarrow> ('m, 's) dispatch" where
  "addServlet uri slt d = d\<lparr>d_datas := AList.update uri slt (d_datas d)\<rparr>"

definition addServlet_cb :: "string \<Rightarrow> 's handler \<Rightarrow> ('m, 's) dispatch \<Rightarrow> ('m, 's) dispatch" where
  "addServlet_cb uri cb d = d\<lparr>d_datas := AList.update uri (FunctionServlet cb) (d_datas d)\<rparr>"

definition addGlobServlet :: "string \<Rightarrow> ('m, 's) servlet \<Rightarrow> ('m, 's) dispatch \<Rightarrow> ('m, 's) dispatch" where
  "addGlobServlet uri slt d =
     (let d = (if \<exists>p \<in> set (d_globs d). fst p = uri then d\<lparr>d_datas := map_erase uri (d_datas d)\<rparr> else d) in
      d\<lparr>d_globs := d_globs d @ [(uri, slt)]\<rparr>)"

definition addGlobServlet_cb :: "string \<Rightarrow> 's handler \<Rightarrow> ('m, 's) dispatch \<Rightarrow> ('m, 's) dispatch" where
  "addGlobServlet_cb uri cb d = addGlobServlet uri (FunctionServlet cb) d"

definition delServlet :: "string \<Rightarrow> ('m, 's) dispatch \<Rightarrow> ('m, 's) dispatch" where
  "delServlet name d = d\<lparr>d_datas := map_erase name (d_datas d)\<rparr>"

text \<open>Only the first glob of that name is removed.\<close>

fun erase_first :: "string \<Rightarrow> (string \<times> 'a) list \<Rightarrow> (string \<times> 'a) list" where
  "erase_first name [] = []"
| "erase_first name ((k, v) # gs) = (if k = name then gs else (k, v) # erase_first name gs)"

definition delGlobServlet :: "string \<Rightarrow> ('m, 's) dispatch \<Rightarrow> ('m, 's) dispatch" where
  "delGlobServlet name d = d\<lparr>d_globs := erase_first name (d_globs d)\<rparr>"

definition setDefault :: "('m, 's) servlet option \<Rightarrow> ('m, 's) dispatch \<Rightarrow> ('m, 's) dispatch" where
  "setDefault v d = d\<lparr>d_default := v\<rparr>"

definition getServlet :: "string \<Rightarrow> ('m, 's) dispatch \<Rightarrow> ('m, 's) servlet option" where
  "getServlet uri d = map_of (d_datas d) uri"

fun glob_find :: "(string \<Rightarrow> bool) \<Rightarrow> (string \<times> 'a) list \<Rightarrow> 'a option" where
  "glob_find P [] = None"
| "glob_find P ((k, v) # gs) = (if P k then Some v else glob_find P gs)"

definition getGlobServlet :: "string \<Rightarrow> ('m, 's) dispatch \<Rightarrow> ('m, 's) servlet option" where
  "getGlobServlet uri d = glob_find (\<lambda>k. k = uri) (d_globs d)"

definition getMatchServlet :: "(string \<Rightarrow> string \<Rightarrow> bool) \<Rightarrow> string \<Rightarrow> ('m, 's) dispatch \<Rightarrow> ('m, 's) servlet option" where
  "getMatchServlet fnm uri d =
     (case map_of (d_datas d) uri of
        Some slt \<Rightarrow> Some slt
      | None \<Rightarrow>
          (case glob_find (\<lambda>k. fnm (c_str k) (c_str uri)) (d_globs d) of
             Some slt \<Rightarrow> Some slt
           | None \<Rightarrow> d_default d))"

definition dispatch_handle :: "(string \<Rightarrow> string \<Rightarrow> bool) \<Rightarrow> ('m, 's) dispatch \<Rightarrow> 's handler" where
  "dispatch_handle fnm d q p s =
     (case getMatchServlet fnm (q_path q) d of
        Some slt \<Rightarrow> (case servlet_handle slt q p s of (_, q, p, s) \<Rightarrow> (0, q, p, s))
      | None \<Rightarrow> (0, q, p, s))"

text \<open>The dispatcher of websockets: a match that is no websocket servlet counts as none.\<close>

definition ws_addServlet ::
  "string \<Rightarrow> ('m \<Rightarrow> 's ws_callback) option \<Rightarrow> 's ws_callback option \<Rightarrow> 's ws_callback option \<Rightarrow>
   ('m, 's) dispatch \<Rightarrow> ('m, 's) dispatch" where
  "ws_addServlet uri h cn cl d = addServlet uri (WSFunctionServlet h cn cl) d"

definition ws_addGlobServlet ::
  "string \<Rightarrow> ('m \<Rightarrow> 's ws_callback) option \<Rightarrow> 's ws_callback option \<Rightarrow> 's ws_callback option \<Rightarrow>
   ('m, 's) dispatch \<Rightarrow> ('m, 's) dispatch" where
  "ws_addGlobServlet uri h cn cl d = addGlobServlet uri (WSFunctionServlet h cn cl) d"

definition ws_getServlet :: "(string \<Rightarrow> string \<Rightarrow> bool) \<Rightarrow> string \<Rightarrow> ('m, 's) dispatch \<Rightarrow> ('m, 's) servlet option" where
  "ws_getServlet fnm uri d =
     (case getMatchServlet fnm uri d of
        Some (WSFunctionServlet h cn cl) \<Rightarrow> Some (WSFunctionServlet h cn cl)
      | _ \<Rightarrow> None)"

section \<open>Properties\<close>

lemma glob_find_append: "glob_find P (gs @ hs) = (case glob_find P gs of Some v \<Rightarrow> Some v | None \<Rightarrow> glob_find P hs)"
  by (induction gs) auto

lemma glob_find_None: "glob_find P gs = None \<longleftrightarrow> (\<forall>p \<in> set gs. \<not> P (fst p))"
  by (induction gs) (auto split: if_splits)

text \<open>
  C25. Routing. A servlet added under a path serves exactly that path and no other route changes;
  deleting the path gives it back to the globs. A glob with a new pattern takes over exactly the paths
  it matches that had neither a servlet of their own nor an earlier matching glob. But a second glob
  with a pattern already there is never reached: the first one still wins every path, and adding it
  removes the servlet registered for the pattern's text as a path.
\<close>

theorem servlet_routing:
  "getMatchServlet fnm u (addServlet uri slt d) = (if u = uri then Some slt else getMatchServlet fnm u d) \<and>
   getMatchServlet fnm u (delServlet uri d) =
     (if u = uri then getMatchServlet fnm u (d\<lparr>d_datas := []\<rparr>) else getMatchServlet fnm u d) \<and>
   (getGlobServlet uri d = None \<longrightarrow>
     getMatchServlet fnm u (addGlobServlet uri slt d) =
       (if getServlet u d = None \<and> glob_find (\<lambda>k. fnm (c_str k) (c_str u)) (d_globs d) = None \<and> fnm (c_str uri) (c_str u)
        then Some slt else getMatchServlet fnm u d)) \<and>
   (getGlobServlet uri d \<noteq> None \<longrightarrow>
     getMatchServlet fnm u (addGlobServlet uri slt d) = getMatchServlet fnm u (delServlet uri d))"
proof (intro conjI impI)
  show "getMatchServlet fnm u (addServlet uri slt d) = (if u = uri then Some slt else getMatchServlet fnm u d)"
    by (simp add: getMatchServlet_def addServlet_def update_conv' split: option.split)
  show "getMatchServlet fnm u (delServlet uri d) =
     (if u = uri then getMatchServlet fnm u (d\<lparr>d_datas := []\<rparr>) else getMatchServlet fnm u d)"
    by (simp add: getMatchServlet_def delServlet_def map_of_map_erase split: option.split)
next
  assume "getGlobServlet uri d = None"
  then have "\<not> (\<exists>p \<in> set (d_globs d). fst p = uri)" by (simp add: getGlobServlet_def glob_find_None)
  then show "getMatchServlet fnm u (addGlobServlet uri slt d) =
       (if getServlet u d = None \<and> glob_find (\<lambda>k. fnm (c_str k) (c_str u)) (d_globs d) = None \<and> fnm (c_str uri) (c_str u)
        then Some slt else getMatchServlet fnm u d)"
    by (simp add: addGlobServlet_def getMatchServlet_def getServlet_def glob_find_append split: option.split)
next
  assume "getGlobServlet uri d \<noteq> None"
  then have h: "\<exists>p \<in> set (d_globs d). fst p = uri" by (simp add: getGlobServlet_def glob_find_None)
  then have "fnm (c_str uri) (c_str u) \<Longrightarrow> glob_find (\<lambda>k. fnm (c_str k) (c_str u)) (d_globs d) \<noteq> None"
    by (auto simp: glob_find_None)
  with h show "getMatchServlet fnm u (addGlobServlet uri slt d) = getMatchServlet fnm u (delServlet uri d)"
    by (auto simp: addGlobServlet_def delServlet_def getMatchServlet_def glob_find_append split: option.split)
qed

theorem servlet_routing_witness:
  "getMatchServlet (\<lambda>p u. True) ''/a'' (addGlobServlet ''/*'' (UserServlet ''b'' (\<lambda>q p s. (0, q, p, s)))
     (addGlobServlet ''/*'' (UserServlet ''a'' (\<lambda>q p s. (1, q, p, s))) new_ServletDispatch)) = Some (UserServlet ''a'' (\<lambda>q p s. (1, q, p, s)))"
proof -
  let ?d = "addGlobServlet ''/*'' (UserServlet ''a'' (\<lambda>q p s. (1, q, p, s))) new_ServletDispatch"
  have "getGlobServlet ''/*'' ?d \<noteq> None" by (simp add: addGlobServlet_def new_ServletDispatch_def getGlobServlet_def)
  then show ?thesis
    using servlet_routing [of "\<lambda>p u. True" "''/a''" "''/*''" "UserServlet ''b'' (\<lambda>q p s. (0, q, p, s))" ?d]
    by (simp add: addGlobServlet_def new_ServletDispatch_def getMatchServlet_def delServlet_def map_erase_def)
qed

text \<open>
  A request for a path that no route covers gets the standard answer: the status 404, the content
  type HTML and the page of the server, with the session and the request untouched and the result 0.
\<close>

theorem unrouted_request_404:
  assumes "getServlet (q_path q) d = None" and "\<forall>g \<in> set (d_globs d). \<not> fnm (c_str (fst g)) (c_str (q_path q))"
    and "d_default d = Some (new_NotFoundServlet name)"
  shows "\<exists>p'. dispatch_handle fnm d q p s = (0, q, p', s) \<and> p_status p' = 404 \<and>
     p_getHeader ''content-type'' [] p' = ''text/html'' \<and> (\<exists>pre post. p_body p' = pre @ name @ post) \<and>
     p_close p' = p_close p \<and> p_version p' = p_version p"
proof -
  have "ci_eq ''Content-Type'' ''content-type''" by code_simp
  then have h: "hm_find (hm_set ''Content-Type'' ''text/html'' m) ''content-type'' = Some ''text/html''" for m
    by (simp add: hm_find_set)
  have match: "getMatchServlet fnm (q_path q) d = Some (new_NotFoundServlet name)"
    using assms by (simp add: getMatchServlet_def getServlet_def glob_find_None [THEN iffD2])
  let ?c = "''<html><head><title>404 Not Found'' @
        ''</title></head><body><center><h1>404 Not Found</h1></center>'' @
        ''<hr><center>'' @ name @ ''</center></body></html>''"
  let ?p = "(p_setHeader ''Content-Type'' ''text/html'' (p\<lparr>p_status := 404\<rparr>))\<lparr>p_body := ?c\<rparr>"
  have "dispatch_handle fnm d q p s = (0, q, ?p, s)"
    by (simp add: dispatch_handle_def match new_NotFoundServlet_def NotFoundServlet_handle_def)
  moreover have "p_body ?p = (''<html><head><title>404 Not Found'' @
        ''</title></head><body><center><h1>404 Not Found</h1></center>'' @
        ''<hr><center>'') @ name @ ''</center></body></html>''" by simp
  then have "\<exists>pre post. p_body ?p = pre @ name @ post" by blast
  moreover have "p_getHeader ''content-type'' [] ?p = ''text/html''"
    using h by (simp add: p_getHeader_def p_setHeader_def)
  ultimately show ?thesis by (intro exI [of _ ?p]) (simp add: p_setHeader_def)
qed

theorem unrouted_request_404_witness:
  "\<exists>p'. dispatch_handle (\<lambda>_ _. False) (new_ServletDispatch :: (unit, unit) dispatch) (new_HttpRequest 0 0x11 True)
      (new_HttpResponse 0x11 True) () = (0, new_HttpRequest 0 0x11 True, p', ()) \<and> p_status p' = 404"
  using unrouted_request_404 [of "new_HttpRequest 0 0x11 True" "new_ServletDispatch :: (unit, unit) dispatch" "\<lambda>_ _. False"
      "''seaice/1.0''" "new_HttpResponse 0x11 True" "()"]
  by (auto simp: new_ServletDispatch_def getServlet_def)

end
