(* ===== verification/WebServer.thy ===== *)
theory WebServer imports HttpConnection Servlet WebSocket begin

text \<open>
  The servers' side of a connection (\<^verbatim>\<open>seaice/http/http_server.cpp\<close>, \<^verbatim>\<open>ws_server.cpp\<close>, \<^verbatim>\<open>WSSession::handleShake\<close> in
  \<^verbatim>\<open>ws_session.cpp\<close>): the loop that answers HTTP requests, the websocket handshake and the loop that hands messages to a servlet.
  The generated parser, the conversions of header values and the socket are the parameters of the theories below; the loops also
  return what they did, the answered requests or the handled messages in order.
\<close>

section \<open>The HTTP server\<close>

text \<open>The answer to a request, before it is sent. The dispatcher may be a null pointer.\<close>

definition answer ::
  "(string \<Rightarrow> string \<Rightarrow> bool) \<Rightarrow> ('m, 's) dispatch option \<Rightarrow> bool \<Rightarrow> http_request \<Rightarrow> 's \<Rightarrow> fault + (http_request \<times> http_response \<times> 's)" where
  "answer fnm dispatch keepalive req s =
     (case dispatch of
        None \<Rightarrow> Inl NullDeref
      | Some d \<Rightarrow>
          (case dispatch_handle fnm d req (new_HttpResponse (q_version req) (q_close req \<or> \<not> keepalive)) s of
             (_, req, rsp, s) \<Rightarrow> Inr (req, rsp, s)))"

partial_function (option) http_handleClient ::
  "'g machine \<Rightarrow> (string \<Rightarrow> u64 option) \<Rightarrow> nat \<Rightarrow> http_status \<Rightarrow> 's sock_ops \<Rightarrow> (string \<Rightarrow> string \<Rightarrow> bool) \<Rightarrow> ('m, 's) dispatch option \<Rightarrow> bool \<Rightarrow>
   (http_request \<times> http_response) list \<Rightarrow> 's \<Rightarrow> (fault + ((http_request \<times> http_response) list \<times> 's)) option" where
  "http_handleClient mc cast buff_size st0 ops fnm dispatch keepalive acc s =
     (case recvRequest mc cast buff_size st0 ops s of
        None \<Rightarrow> None
      | Some (Inl e) \<Rightarrow> Some (Inl e)
      | Some (Inr (None, s)) \<Rightarrow> Some (Inr (acc, SocketStream_close ops s))
      | Some (Inr (Some req, s)) \<Rightarrow>
          (case answer fnm dispatch keepalive req s of
             Inl e \<Rightarrow> Some (Inl e)
           | Inr (req, rsp, s) \<Rightarrow>
               (case sendResponse ops rsp s of (_, s) \<Rightarrow>
                  if keepalive then http_handleClient mc cast buff_size st0 ops fnm dispatch keepalive (acc @ [(req, rsp)]) s
                  else Some (Inr (acc @ [(req, rsp)], SocketStream_close ops s)))))"

declare http_handleClient.simps [code]

section \<open>The websocket handshake\<close>

text \<open>The tests of \<open>handleShake\<close>; \<open>cast\<close> converts the version to an \<^verbatim>\<open>int\<close>, which is 0 when that fails.\<close>

definition handshake_ok :: "(string \<Rightarrow> int option) \<Rightarrow> http_request \<Rightarrow> bool" where
  "handshake_ok icast req \<longleftrightarrow>
     ci_eq (q_getHeader ''Connection'' [] req) ''Upgrade'' \<and>
     ci_eq (q_getHeader ''Upgrade'' [] req) ''websocket'' \<and>
     getAs icast (q_headers req) ''Sec-WebSocket-Version'' 0 = 13"

definition handshake_response :: "http_request \<Rightarrow> http_response" where
  "handshake_response req =
     (let rsp = (new_HttpResponse (q_version req) (q_close req))\<lparr>p_status := 101, p_reason := ''Web socket protocol handleShake''\<rparr>;
          rsp = p_setHeader ''Connection'' ''Upgrade'' rsp;
          rsp = p_setHeader ''Upgrade'' ''websocket'' rsp
      in p_setHeader ''Sec-WebSocket-Accept'' ''xx'' rsp)"

text \<open>A failed reception is only logged: the tests then go through the null pointer.\<close>

definition handleShake ::
  "'g machine \<Rightarrow> (string \<Rightarrow> u64 option) \<Rightarrow> (string \<Rightarrow> int option) \<Rightarrow> nat \<Rightarrow> http_status \<Rightarrow> 's sock_ops \<Rightarrow> 's \<Rightarrow>
   (fault + (http_request option \<times> 's)) option" where
  "handleShake mc cast icast buff_size st0 ops s =
     (case recvRequest mc cast buff_size st0 ops s of
        None \<Rightarrow> None
      | Some (Inl e) \<Rightarrow> Some (Inl e)
      | Some (Inr (None, s)) \<Rightarrow> Some (Inl NullDeref)
      | Some (Inr (Some req, s)) \<Rightarrow>
          if \<not> handshake_ok icast req then Some (Inr (None, s))
          else
            (let req = req\<lparr>q_websock := True\<rparr> in
             case sendResponse ops (handshake_response req) s of (_, s) \<Rightarrow> Some (Inr (Some req, s))))"

section \<open>The websocket server\<close>

text \<open>The inner loop: every message is handled until none comes.\<close>

partial_function (option) ws_serve ::
  "'s sock_ops \<Rightarrow> u32 \<Rightarrow> (ws_message \<Rightarrow> 's ws_callback) option \<Rightarrow> ws_message list \<Rightarrow> http_request \<Rightarrow> 's \<Rightarrow>
   (fault + (ws_message list \<times> http_request \<times> 's)) option" where
  "ws_serve ops max_size h msgs req s =
     (case WSRecvMessage ops max_size False s of
        None \<Rightarrow> None
      | Some (Inl e) \<Rightarrow> Some (Inl e)
      | Some (Inr (None, s)) \<Rightarrow> Some (Inr (msgs, req, s))
      | Some (Inr (Some m, s)) \<Rightarrow> (case WS_handle h m req s of (req, s) \<Rightarrow> ws_serve ops max_size h (msgs @ [m]) req s))"

declare ws_serve.simps [code]

definition ws_handleClient ::
  "'g machine \<Rightarrow> (string \<Rightarrow> u64 option) \<Rightarrow> (string \<Rightarrow> int option) \<Rightarrow> nat \<Rightarrow> http_status \<Rightarrow> 's sock_ops \<Rightarrow> u32 \<Rightarrow>
   (string \<Rightarrow> string \<Rightarrow> bool) \<Rightarrow> (ws_message, 's) dispatch option \<Rightarrow> 's \<Rightarrow> (fault + (ws_message list \<times> 's)) option" where
  "ws_handleClient mc cast icast buff_size st0 ops max_size fnm dispatch s =
     (case handleShake mc cast icast buff_size st0 ops s of
        None \<Rightarrow> None
      | Some (Inl e) \<Rightarrow> Some (Inl e)
      | Some (Inr (None, s)) \<Rightarrow> Some (Inr ([], SocketStream_close ops s))
      | Some (Inr (Some req, s)) \<Rightarrow>
          (case Option.bind dispatch (ws_getServlet fnm (q_path req)) of
             Some (WSFunctionServlet h cn cl) \<Rightarrow>
               (case WS_onConnect cn req s of (req, s) \<Rightarrow>
                  (case ws_serve ops max_size h [] req s of
                     None \<Rightarrow> None
                   | Some (Inl e) \<Rightarrow> Some (Inl e)
                   | Some (Inr (msgs, _, s)) \<Rightarrow> Some (Inr (msgs, SocketStream_close ops s))))
           | _ \<Rightarrow> Some (Inr ([], SocketStream_close ops s))))"

section \<open>Reception over a socket\<close>

text \<open>A generated parser never claims to have consumed more than it was given.\<close>

definition machine_within :: "'g machine \<Rightarrow> bool" where
  "machine_within mc \<longleftrightarrow> (\<forall>g d. fst (mc_execute mc g d) \<le> length d)"

lemma hp_execute_within: "machine_within mc \<Longrightarrow> \<forall>p d. fst (hp_execute mc on p d) \<le> length d"
  by (simp add: machine_within_def hp_execute_def case_prod_beta)

text \<open>
  The outcome of a reception: nothing was sent; a request was there and took at least one byte, or the stream was closed.
\<close>

definition received :: "'s sock_ops \<Rightarrow> ('s \<Rightarrow> byte list) \<Rightarrow> ('s \<Rightarrow> byte list) \<Rightarrow> 's \<Rightarrow> 'a option \<times> 's \<Rightarrow> bool" where
  "received ops inc out s r =
     (case r of
        (None, s') \<Rightarrow> \<exists>s1. s' = op_close ops s1 \<and> op_connected ops s1 \<and> out s1 = out s
      | (Some q, s') \<Rightarrow> op_connected ops s' \<and> out s' = out s \<and> length (inc s') < length (inc s))"

lemma recv_head_total:
  assumes c: "sock_contract ops inc out" and ex: "\<forall>p d. fst (execute p d) \<le> length d" and "op_connected ops s"
  shows "\<exists>r. recv_head (SocketStream_read ops) (SocketStream_close ops) execute hasError isFinish n parser data s = Some (Inr r) \<and>
    received ops inc out s r"
  using assms(3)
proof (induction "length (inc s)" arbitrary: s parser data rule: less_induct)
  case less
  obtain rt bs s1 where r: "op_recv ops (n - length data) s = (rt, bs, s1)" by (metis prod_cases3)
  note d = sock_recvD [OF c less.prems r]
  have rd: "SocketStream_read ops (n - length data) s = (rt, bs, s1)"
    using r less.prems by (simp add: SocketStream_read_def SocketStream_isConnected_def)
  show ?case
  proof (cases "rt \<le> 0")
    case True
    then show ?thesis using rd d by (subst recv_head.simps) (auto simp: received_def SocketStream_close_def)
  next
    case False
    then have less1: "length (inc s1) < length (inc s)" using d(3,4) by auto
    obtain k p' where e: "execute parser (data @ bs) = (k, p')" by (cases "execute parser (data @ bs)")
    have k: "k \<le> length (data @ bs)" using ex [rule_format, of parser "data @ bs"] e by simp
    have step: "recv_head (SocketStream_read ops) (SocketStream_close ops) execute hasError isFinish n parser data s =
        (if hasError p' then Some (Inr (None, op_close ops s1))
         else if length (drop k (data @ bs)) = n then Some (Inr (None, op_close ops s1))
         else if isFinish p' then Some (Inr (Some (p', drop k (data @ bs)), s1))
         else recv_head (SocketStream_read ops) (SocketStream_close ops) execute hasError isFinish n p' (drop k (data @ bs)) s1)"
      using False rd e k by (subst recv_head.simps) (simp add: Let_def SocketStream_close_def del: length_drop drop_append)
    obtain r' where r': "recv_head (SocketStream_read ops) (SocketStream_close ops) execute hasError isFinish n p' (drop k (data @ bs)) s1 = Some (Inr r')"
      "received ops inc out s1 r'" using less.hyps [OF less1 d(6)] by blast
    then have "received ops inc out s r'" using less1 d(5) by (auto simp: received_def split: prod.splits option.splits)
    moreover have "received ops inc out s (None, op_close ops s1)" "received ops inc out s (Some x, s1)" for x
      using d(5,6) less1 by (auto simp: received_def)
    ultimately show ?thesis unfolding step r'(1) by (cases r') (auto simp del: length_drop drop_append)
  qed
qed

lemma recv_body_total:
  assumes "sock_contract ops inc out" and "op_connected ops s"
  shows "\<exists>b s'. recv_body (SocketStream_read ops) (SocketStream_close ops) len data s = Inr (b, s') \<and>
    (case b of None \<Rightarrow> \<exists>s1. s' = op_close ops s1 \<and> op_connected ops s1 \<and> out s1 = out s
     | Some _ \<Rightarrow> op_connected ops s' \<and> out s' = out s \<and> length (inc s') \<le> length (inc s))"
proof (cases "len > int (length data)")
  case True
  obtain s' where "readFixSize (SocketStream_read ops) (nat (len - int (length data))) s =
      Inr (if nat (len - int (length data)) \<le> length (inc s) then int (nat (len - int (length data))) else 0,
        take (nat (len - int (length data))) (inc s), s')"
    "inc s' = drop (nat (len - int (length data))) (inc s)" "out s' = out s" "op_connected ops s'"
    using readFixSize_spec [OF assms] by blast
  note rd = this
  have body: "recv_body (SocketStream_read ops) (SocketStream_close ops) len data s =
      (let k = nat (len - int (length data)) in
       if k \<le> length (inc s) then Inr (Some (data @ take k (inc s)), s') else Inr (None, op_close ops s'))"
    using True rd(1) by (simp only: recv_body_def SocketStream_close_def Let_def if_True rbind_Inr) simp
  show ?thesis
  proof (cases "nat (len - int (length data)) \<le> length (inc s)")
    case True
    then show ?thesis using rd(2-4) by (simp add: body Let_def)
  next
    case False
    then show ?thesis using rd(3,4) by (auto simp: body Let_def)
  qed
next
  case False
  then have "recv_body (SocketStream_read ops) (SocketStream_close ops) len data s = Inr (Some (take (nat len) data), s)"
    by (simp only: recv_body_def if_False)
  then show ?thesis using assms(2) by simp
qed

lemma recvRequest_total:
  assumes "sock_contract ops inc out" and "machine_within mc" and "op_connected ops s"
  shows "\<exists>r. recvRequest mc cast n st0 ops s = Some (Inr r) \<and> received ops inc out s r"
proof -
  obtain r where r: "recv_head (SocketStream_read ops) (SocketStream_close ops) (hp_execute mc on_request) (hp_hasError mc) (hp_isFinish mc)
      n (new_HttpRequestParser mc st0) [] s = Some (Inr r)" "received ops inc out s r"
    using recv_head_total [OF assms(1) hp_execute_within [OF assms(2)] assms(3)] by blast
  obtain h s1 where "r = (h, s1)" by (cases r)
  note h = r [unfolded this]
  show ?thesis
  proof (cases h)
    case None
    then show ?thesis using h by (simp add: recvRequest_def received_def)
  next
    case (Some pd)
    obtain parser data where pd: "pd = (parser, data)" by (cases pd)
    have s1: "op_connected ops s1" "out s1 = out s" "length (inc s1) < length (inc s)" using h(2) Some by (auto simp: received_def)
    obtain b s2 where b: "recv_body (SocketStream_read ops) (SocketStream_close ops) (q_getContentLength cast (hp_data parser)) data s1 = Inr (b, s2)"
      "case b of None \<Rightarrow> \<exists>s3. s2 = op_close ops s3 \<and> op_connected ops s3 \<and> out s3 = out s1
       | Some _ \<Rightarrow> op_connected ops s2 \<and> out s2 = out s1 \<and> length (inc s2) \<le> length (inc s1)"
      using recv_body_total [OF assms(1) s1(1)] by blast
    show ?thesis using h(1) Some pd b s1
      by (cases b) (auto simp: recvRequest_def received_def Let_def)
  qed
qed

section \<open>What the HTTP server serves\<close>

text \<open>A list of requests with their answers, received and sent one after the other between two states of the connection.\<close>

fun serves ::
  "'g machine \<Rightarrow> (string \<Rightarrow> u64 option) \<Rightarrow> nat \<Rightarrow> http_status \<Rightarrow> 's sock_ops \<Rightarrow> (string \<Rightarrow> string \<Rightarrow> bool) \<Rightarrow> ('m, 's) dispatch \<Rightarrow> bool \<Rightarrow>
   (http_request \<times> http_response) list \<Rightarrow> 's \<Rightarrow> 's \<Rightarrow> bool" where
  "serves mc cast n st0 ops fnm d keepalive [] s s' \<longleftrightarrow> s = s'"
| "serves mc cast n st0 ops fnm d keepalive ((q, p) # qps) s s' \<longleftrightarrow>
     (\<exists>q0 s1 rt s2. recvRequest mc cast n st0 ops s = Some (Inr (Some q0, s1)) \<and>
        dispatch_handle fnm d q0 (new_HttpResponse (q_version q0) (q_close q0 \<or> \<not> keepalive)) s1 = (0, q, p, s1) \<and>
        sendResponse ops p s1 = (rt, s2) \<and> serves mc cast n st0 ops fnm d keepalive qps s2 s')"

lemma http_handleClient_serves:
  assumes c: "sock_contract ops inc out" and m: "machine_within mc"
    and quiet: "\<forall>q p s. \<exists>q' p'. dispatch_handle fnm d q p s = (0, q', p', s)" and "op_connected ops s"
  shows "\<exists>new s1 s2. http_handleClient mc cast n st0 ops fnm (Some d) keepalive acc s = Some (Inr (acc @ new, SocketStream_close ops s2)) \<and>
    serves mc cast n st0 ops fnm d keepalive new s s1 \<and>
    out s1 = out s @ concat (map (\<lambda>(q, p). bytes_of (p_dump p)) new) \<and>
    (recvRequest mc cast n st0 ops s1 = Some (Inr (None, s2)) \<and> (keepalive \<or> new = []) \<or> \<not> keepalive \<and> length new = 1 \<and> s2 = s1)"
  using assms(4)
proof (induction "length (inc s)" arbitrary: s acc rule: less_induct)
  case less
  obtain r where r: "recvRequest mc cast n st0 ops s = Some (Inr r)" "received ops inc out s r"
    using recvRequest_total [OF c m less.prems] by blast
  obtain q0 s1 where qs: "r = (q0, s1)" by (cases r)
  show ?case
  proof (cases q0)
    case None
    then show ?thesis using r qs by (subst http_handleClient.simps) (auto intro!: exI [of _ "[]"])
  next
    case (Some q)
    have s1: "op_connected ops s1" "out s1 = out s" "length (inc s1) < length (inc s)" using r(2) Some qs by (auto simp: received_def)
    obtain q' p where dh: "dispatch_handle fnm d q (new_HttpResponse (q_version q) (q_close q \<or> \<not> keepalive)) s1 = (0, q', p, s1)"
      using quiet by blast
    obtain s2 where s2: "sendResponse ops p s1 = (int (length (bytes_of (p_dump p))), s2)" "out s2 = out s1 @ bytes_of (p_dump p)"
      "inc s2 = inc s1" "op_connected ops s2"
      using writeFixSize_spec [OF c s1(1), of "bytes_of (p_dump p)"] by (auto simp: sendResponse_def)
    have step: "http_handleClient mc cast n st0 ops fnm (Some d) keepalive acc s =
        (if keepalive then http_handleClient mc cast n st0 ops fnm (Some d) keepalive (acc @ [(q', p)]) s2
         else Some (Inr (acc @ [(q', p)], SocketStream_close ops s2)))"
      using r(1) qs Some dh s2(1) by (subst http_handleClient.simps) (simp add: answer_def)
    show ?thesis
    proof (cases keepalive)
      case False
      then show ?thesis using step r(1) qs Some dh s2 s1(2) by (intro exI [of _ "[(q', p)]"] exI [of _ s2]) auto
    next
      case True
      have "length (inc s2) < length (inc s)" using s1(3) s2(3) by simp
      from less.hyps [OF this s2(4), of "acc @ [(q', p)]"] obtain new s3 s4 where IH:
        "http_handleClient mc cast n st0 ops fnm (Some d) keepalive (acc @ [(q', p)]) s2 = Some (Inr ((acc @ [(q', p)]) @ new, SocketStream_close ops s4))"
        "serves mc cast n st0 ops fnm d keepalive new s2 s3"
        "out s3 = out s2 @ concat (map (\<lambda>(q, p). bytes_of (p_dump p)) new)"
        "recvRequest mc cast n st0 ops s3 = Some (Inr (None, s4))" using True by auto
      have "serves mc cast n st0 ops fnm d keepalive ((q', p) # new) s s3"
        using r(1) qs Some dh s2(1) IH(2) by auto
      then show ?thesis using step True IH s2(2) s1(2)
        by (intro exI [of _ "(q', p) # new"] exI [of _ s3] exI [of _ s4]) simp
    qed
  qed
qed


lemma new_dispatch_quiet:
  "\<exists>q' p'. dispatch_handle fnm (new_ServletDispatch :: (ws_message, 's) dispatch) q p s = (0, q', p', s)"
  by (simp add: dispatch_handle_def getMatchServlet_def new_ServletDispatch_def new_NotFoundServlet_def NotFoundServlet_handle_def)

text \<open>A machine for requests of two bytes, of which the concrete connection below holds two.\<close>

definition pair_machine :: "nat machine" where
  "pair_machine =
     \<lparr>mc_init = 0, mc_execute = (\<lambda>g data. (min 2 (length data), [], g + length data)), mc_finish = (\<lambda>g. 2 \<le> g),
      mc_error = (\<lambda>g. False), mc_chunked = (\<lambda>g. False), mc_content_len = (\<lambda>g. 0), mc_chunks_done = (\<lambda>g. True)\<rparr>"


section \<open>What the websocket server handles\<close>

text \<open>A callback may send, but it neither reads from the connection nor closes it.\<close>

definition polite :: "'s sock_ops \<Rightarrow> ('s \<Rightarrow> byte list) \<Rightarrow> 's ws_callback \<Rightarrow> bool" where
  "polite ops inc cb \<longleftrightarrow> (\<forall>q s. op_connected ops s \<longrightarrow> op_connected ops (snd (cb q s)) \<and> inc (snd (cb q s)) = inc s)"

definition polite_servlet :: "'s sock_ops \<Rightarrow> ('s \<Rightarrow> byte list) \<Rightarrow> (ws_message, 's) servlet \<Rightarrow> bool" where
  "polite_servlet ops inc slt =
     (case slt of WSFunctionServlet h cn cl \<Rightarrow> (\<forall>m. polite ops inc (WS_handle h m)) \<and> polite ops inc (WS_onConnect cn) | _ \<Rightarrow> True)"

text \<open>The messages that are received and handled one after the other, from one state to another in which none can be received.\<close>

fun handled ::
  "'s sock_ops \<Rightarrow> u32 \<Rightarrow> (ws_message \<Rightarrow> 's ws_callback) option \<Rightarrow> ws_message list \<Rightarrow> http_request \<Rightarrow> 's \<Rightarrow> http_request \<Rightarrow> 's \<Rightarrow> bool" where
  "handled ops max_size h [] req s req' s' \<longleftrightarrow> WSRecvMessage ops max_size False s = Some (Inr (None, s')) \<and> req' = req"
| "handled ops max_size h (m # ms) req s req' s' \<longleftrightarrow>
     (\<exists>s1 req2 s2. WSRecvMessage ops max_size False s = Some (Inr (Some m, s1)) \<and> WS_handle h m req s1 = (req2, s2) \<and>
        handled ops max_size h ms req2 s2 req' s')"

lemma ws_serve_handled:
  assumes c: "sock_contract ops inc out" and h: "\<forall>m. polite ops inc (WS_handle h m)" and "op_connected ops s"
  shows "\<exists>new req' s'. ws_serve ops max_size h msgs req s = Some (Inr (msgs @ new, req', s')) \<and> handled ops max_size h new req s req' s'"
  using assms(3)
proof (induction "length (inc s)" arbitrary: s req msgs rule: less_induct)
  case less
  obtain m s1 where m: "WSRecvMessage ops max_size False s = Some (Inr (m, s1))" "recv_progress ops inc s m s1"
    unfolding WSRecvMessage_def using WSRecv_loop_total [OF c less.prems] by blast
  show ?case
  proof (cases m)
    case None
    then show ?thesis using m by (subst ws_serve.simps) (auto intro!: exI [of _ "[]"])
  next
    case (Some msg)
    obtain req2 s2 where h2: "WS_handle h msg req s1 = (req2, s2)" by (cases "WS_handle h msg req s1")
    have "op_connected ops s1" "length (inc s1) < length (inc s)" using m(2) Some by (auto simp: recv_progress_def)
    moreover from this(1) have "op_connected ops s2" "inc s2 = inc s1"
      using h [rule_format, of msg] h2 unfolding polite_def by (metis snd_conv)+
    ultimately have "length (inc s2) < length (inc s)" "op_connected ops s2" by simp_all
    from less.hyps [OF this, of "msgs @ [msg]" req2] obtain new req' s' where
      "ws_serve ops max_size h (msgs @ [msg]) req2 s2 = Some (Inr ((msgs @ [msg]) @ new, req', s'))"
      "handled ops max_size h new req2 s2 req' s'" by blast
    then show ?thesis using m(1) Some h2
      by (subst ws_serve.simps) (auto intro!: exI [of _ "msg # new"])
  qed
qed



end
