(* ===== verification/Address.thy ===== *)
theory Address imports Endian Text begin

text \<open>
  Socket addresses (\<^verbatim>\<open>seaice/address.h\<close>, \<^verbatim>\<open>seaice/address.cpp\<close>): the four kinds of addresses as the structures of the
  socket interface, their text, order and ports, the addresses of networks, and the name lookup. The fields of a structure
  are words of the host, so a port or an IPv4 address in network order is a swapped word; the bytes of the memory are \<open>raw\<close>.
  What the system answers (\<^verbatim>\<open>getaddrinfo\<close>, \<^verbatim>\<open>getifaddrs\<close>, \<^verbatim>\<open>inet_pton\<close>) is a parameter.
\<close>

section \<open>Structures\<close>

record sockaddr_in =
  sin_family :: u16
  sin_port :: u16
  sin_addr :: u32
  sin_zero :: "byte list"

record sockaddr_in6 =
  sin6_family :: u16
  sin6_port :: u16
  sin6_flowinfo :: u32
  sin6_addr :: "byte list"
  sin6_scope_id :: u32

record sockaddr_un =
  sun_family :: u16
  sun_path :: "byte list"

record sockaddr =
  sa_family :: u16
  sa_data :: "byte list"

datatype address =
    IPv4Address sockaddr_in
  | IPv6Address sockaddr_in6
  | UnixAddress sockaddr_un nat
  | UnknowAddress sockaddr

definition AF_UNSPEC :: u16 where "AF_UNSPEC = 0"
definition AF_UNIX :: u16 where "AF_UNIX = 1"
definition AF_INET :: u16 where "AF_INET = 2"
definition AF_INET6 :: u16 where "AF_INET6 = 10"

lemmas AF_defs = AF_UNSPEC_def AF_UNIX_def AF_INET_def AF_INET6_def

text \<open>The sizes of \<^verbatim>\<open>sun_path\<close> and of what comes before it.\<close>

definition SUN_PATH :: nat where "SUN_PATH = 108"
definition SUN_OFFSET :: nat where "SUN_OFFSET = 2"

text \<open>The memory behind \<^verbatim>\<open>getAddr()\<close>, and the casts from such memory.\<close>

definition raw_in :: "sockaddr_in \<Rightarrow> byte list" where
  "raw_in a = le_bytes (sin_family a) @ le_bytes (sin_port a) @ le_bytes (sin_addr a) @ sin_zero a"

definition raw_in6 :: "sockaddr_in6 \<Rightarrow> byte list" where
  "raw_in6 a = le_bytes (sin6_family a) @ le_bytes (sin6_port a) @ le_bytes (sin6_flowinfo a) @ sin6_addr a @ le_bytes (sin6_scope_id a)"

definition raw_un :: "sockaddr_un \<Rightarrow> byte list" where
  "raw_un a = le_bytes (sun_family a) @ sun_path a"

definition raw_sa :: "sockaddr \<Rightarrow> byte list" where
  "raw_sa a = le_bytes (sa_family a) @ sa_data a"

primrec getAddr :: "address \<Rightarrow> byte list" where
  "getAddr (IPv4Address a) = raw_in a"
| "getAddr (IPv6Address a) = raw_in6 a"
| "getAddr (UnixAddress a len) = raw_un a"
| "getAddr (UnknowAddress a) = raw_sa a"

primrec getAddrLen :: "address \<Rightarrow> nat" where
  "getAddrLen (IPv4Address a) = 16"
| "getAddrLen (IPv6Address a) = 28"
| "getAddrLen (UnixAddress a len) = len"
| "getAddrLen (UnknowAddress a) = 16"

primrec getFamily :: "address \<Rightarrow> u16" where
  "getFamily (IPv4Address a) = sin_family a"
| "getFamily (IPv6Address a) = sin6_family a"
| "getFamily (UnixAddress a len) = sun_family a"
| "getFamily (UnknowAddress a) = sa_family a"

definition field :: "nat \<Rightarrow> nat \<Rightarrow> byte list \<Rightarrow> byte list" where
  "field off n bs = take n (drop off bs)"

text \<open>\<^verbatim>\<open>Address::Create\<close> casts by the family and reads the structure of that family, whatever the length says.\<close>

definition Address_Create :: "byte list option \<Rightarrow> fault + address option" where
  "Address_Create addr =
     (case addr of
        None \<Rightarrow> Inr None
      | Some bs \<Rightarrow>
          if length bs < 2 then Inl OutOfBounds
          else
            let family = le_word (field 0 2 bs) in
            if family = AF_INET then
              if length bs < 16 then Inl OutOfBounds
              else Inr (Some (IPv4Address \<lparr>sin_family = family, sin_port = le_word (field 2 2 bs),
                                           sin_addr = le_word (field 4 4 bs), sin_zero = field 8 8 bs\<rparr>))
            else if family = AF_INET6 then
              if length bs < 28 then Inl OutOfBounds
              else Inr (Some (IPv6Address \<lparr>sin6_family = family, sin6_port = le_word (field 2 2 bs),
                                           sin6_flowinfo = le_word (field 4 4 bs), sin6_addr = field 8 16 bs,
                                           sin6_scope_id = le_word (field 24 4 bs)\<rparr>))
            else if length bs < 16 then Inl OutOfBounds
            else Inr (Some (UnknowAddress \<lparr>sa_family = family, sa_data = field 2 14 bs\<rparr>)))"

section \<open>Constructors, ports and networks\<close>

text \<open>The port parameter of the constructor has 32 bits, and is swapped at that width before it is stored.\<close>

definition new_IPv4Address :: "u32 \<Rightarrow> u32 \<Rightarrow> sockaddr_in" where
  "new_IPv4Address address port =
     \<lparr>sin_family = AF_INET, sin_port = ucast (byteswapOnLittleEndian port), sin_addr = byteswapOnLittleEndian address,
      sin_zero = replicate 8 0\<rparr>"

definition new_IPv6Address :: "byte list \<Rightarrow> u16 \<Rightarrow> sockaddr_in6" where
  "new_IPv6Address address port =
     \<lparr>sin6_family = AF_INET6, sin6_port = byteswapOnLittleEndian port, sin6_flowinfo = 0, sin6_addr = address, sin6_scope_id = 0\<rparr>"

text \<open>\<open>Create\<close> starts from a structure that was never initialised, \<open>junk\<close>; \<open>pton\<close> stands for \<^verbatim>\<open>inet_pton\<close>.\<close>

definition IPv4Address_Create :: "(string \<Rightarrow> u32 option) \<Rightarrow> sockaddr_in \<Rightarrow> string \<Rightarrow> u16 \<Rightarrow> address option" where
  "IPv4Address_Create pton junk address port =
     map_option (\<lambda>a. IPv4Address (junk\<lparr>sin_port := byteswapOnLittleEndian port, sin_family := AF_INET, sin_addr := a\<rparr>)) (pton address)"

definition IPv6Address_Create :: "(string \<Rightarrow> byte list option) \<Rightarrow> sockaddr_in6 \<Rightarrow> string \<Rightarrow> u16 \<Rightarrow> address option" where
  "IPv6Address_Create pton junk address port =
     map_option (\<lambda>a. IPv6Address (junk\<lparr>sin6_port := byteswapOnLittleEndian port, sin6_family := AF_INET6, sin6_addr := a\<rparr>)) (pton address)"

primrec getPort :: "address \<Rightarrow> u32 option" where
  "getPort (IPv4Address a) = Some (ucast (byteswapOnLittleEndian (sin_port a)))"
| "getPort (IPv6Address a) = Some (ucast (byteswapOnLittleEndian (sin6_port a)))"
| "getPort (UnixAddress a len) = None"
| "getPort (UnknowAddress a) = None"

primrec setPort :: "u16 \<Rightarrow> address \<Rightarrow> address" where
  "setPort port (IPv4Address a) = IPv4Address (a\<lparr>sin_port := byteswapOnLittleEndian port\<rparr>)"
| "setPort port (IPv6Address a) = IPv6Address (a\<lparr>sin6_port := byteswapOnLittleEndian port\<rparr>)"
| "setPort port (UnixAddress a len) = UnixAddress a len"
| "setPort port (UnknowAddress a) = UnknowAddress a"

text \<open>
  \<^verbatim>\<open>(1 << (sizeof(T) * 8 - bits)) - 1\<close> in the type \<^verbatim>\<open>int\<close>: a shift by 32 or more and the overflow behind a shift by 31 are
  undefined. The difference is one of 64-bit sizes.
\<close>

definition CreateMask :: "nat \<Rightarrow> fault + 'a::len word" where
  "CreateMask bits =
     (let n = size_sub LENGTH('a) bits in if n > 30 then Inl IntOverflow else Inr (push_bit n 1 - 1))"

function CountBytes :: "'a::len word \<Rightarrow> nat" where
  "CountBytes v = (if v = 0 then 0 else (if v AND 1 \<noteq> 0 then 1 else 0) + CountBytes (drop_bit 1 v))"
  by pat_completeness auto
termination
proof (relation "measure unat")
  fix v :: "'a word"
  assume "v \<noteq> 0"
  then have "0 < unat v" by (simp add: unat_gt_0)
  moreover have "unat (drop_bit 1 v) = unat v div 2" unfolding unat_drop_bit_eq by (simp add: drop_bit_eq_div)
  ultimately show "(drop_bit 1 v, v) \<in> measure unat" by simp
qed simp

declare CountBytes.simps [simp del]

definition v4_broadcastAddress :: "nat \<Rightarrow> sockaddr_in \<Rightarrow> fault + address option" where
  "v4_broadcastAddress prefix_len a =
     (if prefix_len > 32 then Inr None
      else rbind (CreateMask prefix_len) (\<lambda>m.
        Inr (Some (IPv4Address (a\<lparr>sin_addr := sin_addr a OR byteswapOnLittleEndian m\<rparr>)))))"

definition v4_networkAddress :: "nat \<Rightarrow> sockaddr_in \<Rightarrow> fault + address option" where
  "v4_networkAddress prefix_len a =
     (if prefix_len > 32 then Inr None
      else rbind (CreateMask prefix_len) (\<lambda>m.
        Inr (Some (IPv4Address (a\<lparr>sin_addr := sin_addr a AND byteswapOnLittleEndian m\<rparr>)))))"

definition v4_subnetMask :: "nat \<Rightarrow> fault + address" where
  "v4_subnetMask prefix_len =
     rbind (CreateMask prefix_len) (\<lambda>m.
       Inr (IPv4Address \<lparr>sin_family = AF_INET, sin_port = 0, sin_addr = NOT (byteswapOnLittleEndian m), sin_zero = replicate 8 0\<rparr>))"

text \<open>For IPv6 the index of the byte is not checked.\<close>

definition v6_broadcastAddress :: "nat \<Rightarrow> sockaddr_in6 \<Rightarrow> fault + address" where
  "v6_broadcastAddress prefix_len a =
     (let i = prefix_len div 8; bs = sin6_addr a in
      if i \<ge> 16 then Inl OutOfBounds
      else rbind (CreateMask (prefix_len mod 8)) (\<lambda>m.
        Inr (IPv6Address (a\<lparr>sin6_addr := take i bs @ [bs ! i OR m] @ replicate (15 - i) 0xFF\<rparr>))))"

definition v6_networkAddress :: "nat \<Rightarrow> sockaddr_in6 \<Rightarrow> fault + address" where
  "v6_networkAddress prefix_len a =
     (let i = prefix_len div 8; bs = sin6_addr a in
      if i \<ge> 16 then Inl OutOfBounds
      else rbind (CreateMask (prefix_len mod 8)) (\<lambda>m.
        Inr (IPv6Address (a\<lparr>sin6_addr := take i bs @ [bs ! i AND m] @ replicate (15 - i) 0\<rparr>))))"

definition v6_subnetMask :: "nat \<Rightarrow> fault + address" where
  "v6_subnetMask prefix_len =
     (let i = prefix_len div 8 in
      if i \<ge> 16 then Inl OutOfBounds
      else rbind (CreateMask (prefix_len mod 8)) (\<lambda>m.
        Inr (IPv6Address \<lparr>sin6_family = AF_INET6, sin6_port = 0, sin6_flowinfo = 0,
          sin6_addr = replicate i 0xFF @ [NOT m] @ replicate (15 - i) 0, sin6_scope_id = 0\<rparr>)))"

section \<open>Text\<close>

definition v4_insert :: "sockaddr_in \<Rightarrow> string" where
  "v4_insert a =
     (let addr = byteswapOnLittleEndian (sin_addr a) in
      dec (unat (drop_bit 24 addr AND 0xff)) @ ''.'' @ dec (unat (drop_bit 16 addr AND 0xff)) @ ''.'' @
      dec (unat (drop_bit 8 addr AND 0xff)) @ ''.'' @ dec (unat (addr AND 0xff)) @ '':'' @
      dec (unat (byteswapOnLittleEndian (sin_port a))))"

text \<open>The address as an array of 16-bit words of the host.\<close>

fun u16_array :: "byte list \<Rightarrow> u16 list" where
  "u16_array (a # b # bs) = le_word [a, b] # u16_array bs"
| "u16_array bs = []"

text \<open>
  The loop over the groups from one on, with the one before it (none before the first) and \<^verbatim>\<open>used_zeros\<close>; its results are the
  text and the flag.
\<close>

fun v6_groups :: "u16 option \<Rightarrow> bool \<Rightarrow> u16 list \<Rightarrow> string \<times> bool" where
  "v6_groups prev used [] = ([], used)"
| "v6_groups prev used (g # gs) =
     (if g = 0 \<and> \<not> used then v6_groups (Some g) used gs
      else
        let zeros = (prev = Some 0 \<and> \<not> used); (s, u) = v6_groups (Some g) (used \<or> zeros) gs in
        ((if zeros then '':'' else []) @ (if prev \<noteq> None then '':'' else []) @ hexd (unat (byteswapOnLittleEndian g)) @ s, u))"

definition v6_insert :: "sockaddr_in6 \<Rightarrow> string" where
  "v6_insert a =
     (let addr = u16_array (sin6_addr a); (s, used) = v6_groups None False addr in
      ''['' @ s @ (if \<not> used \<and> addr ! 7 = 0 then ''::'' else []) @ '']:'' @ dec (unat (byteswapOnLittleEndian (sin6_port a))))"

text \<open>The characters that a C string at some bytes holds: those before the first 0.\<close>

definition chars :: "byte list \<Rightarrow> string" where
  "chars bs = map (\<lambda>b. char_of (unat b)) bs"

definition MAX_PATH_LEN :: nat where "MAX_PATH_LEN = SUN_PATH - 1"

definition new_UnixAddress :: "sockaddr_un \<times> nat" where
  "new_UnixAddress = (\<lparr>sun_family = AF_UNIX, sun_path = replicate SUN_PATH 0\<rparr>, SUN_OFFSET + MAX_PATH_LEN)"

definition new_UnixAddress_path :: "string \<Rightarrow> fault + sockaddr_un \<times> nat" where
  "new_UnixAddress_path path =
     (let bs = map (\<lambda>c. of_nat (of_char c)) path @ [0];
          len = (if path \<noteq> [] \<and> path ! 0 = CHR 0x00 then length path else length path + 1) in
      if len > SUN_PATH then Inl LogicError
      else Inr (\<lparr>sun_family = AF_UNIX, sun_path = overwrite 0 (take len bs) (replicate SUN_PATH 0)\<rparr>, len + SUN_OFFSET))"

definition getPath :: "sockaddr_un \<Rightarrow> nat \<Rightarrow> string" where
  "getPath a len =
     (if len > SUN_OFFSET \<and> sun_path a ! 0 = 0 then [CHR 0x5C, CHR 0x30] @ chars (take (len - SUN_OFFSET - 1) (drop 1 (sun_path a)))
      else chars (takeWhile (\<lambda>b. b \<noteq> 0) (sun_path a)))"

definition setAddrLen :: "nat \<Rightarrow> sockaddr_un \<times> nat \<Rightarrow> sockaddr_un \<times> nat" where
  "setAddrLen v a = (fst a, v)"

definition new_UnknowAddress :: "u16 \<Rightarrow> sockaddr" where
  "new_UnknowAddress family = \<lparr>sa_family = family, sa_data = replicate 14 0\<rparr>"

primrec insert_text :: "address \<Rightarrow> string" where
  "insert_text (IPv4Address a) = v4_insert a"
| "insert_text (IPv6Address a) = v6_insert a"
| "insert_text (UnixAddress a len) = getPath a len"
| "insert_text (UnknowAddress a) = ''[UnknownAddress family='' @ dec (unat (sa_family a)) @ '']''"

section \<open>Order\<close>

text \<open>\<^verbatim>\<open>memcmp\<close> as the comparison of the first bytes that differ.\<close>

fun memcmp :: "byte list \<Rightarrow> byte list \<Rightarrow> int" where
  "memcmp (a # as) (b # bs) = (if a < b then - 1 else if b < a then 1 else memcmp as bs)"
| "memcmp _ _ = 0"

definition addr_less :: "address \<Rightarrow> address \<Rightarrow> bool" where
  "addr_less l r =
     (let minLen = min (getAddrLen l) (getAddrLen r);
          ret = memcmp (take minLen (getAddr l)) (take minLen (getAddr r)) in
      if getAddrLen l = getAddrLen r then ret < 0
      else if getAddrLen l < getAddrLen r then ret = 0
      else ret < 0)"

definition addr_eq :: "address \<Rightarrow> address \<Rightarrow> bool" where
  "addr_eq l r =
     (getAddrLen l = getAddrLen r \<and> memcmp (take (getAddrLen l) (getAddr l)) (take (getAddrLen l) (getAddr r)) = 0)"

definition addr_ne :: "address \<Rightarrow> address \<Rightarrow> bool" where
  "addr_ne l r = (\<not> addr_eq l r)"

section \<open>Lookup\<close>

text \<open>\<^verbatim>\<open>substr\<close> throws when it starts behind the end; the count may reach beyond it.\<close>

definition substr :: "string \<Rightarrow> nat \<Rightarrow> nat \<Rightarrow> fault + string" where
  "substr s pos n = (if pos > length s then Inl OutOfRange else Inr (take n (drop pos s)))"

definition find_char :: "char \<Rightarrow> string \<Rightarrow> nat option" where
  "find_char c s = List.find (\<lambda>i. s ! i = c) [0..<length s]"

text \<open>The parts of a text like \<^verbatim>\<open>[host:service]\<close>.\<close>

definition split_host :: "string \<Rightarrow> fault + string \<times> string" where
  "split_host host =
     (if host = [] then Inr ([], [])
      else
        let lpos = find_char CHR ''['' host; rpos = find_char CHR '']'' host in
        case find_char CHR '':'' host of
          Some spos \<Rightarrow>
            (case (rpos, lpos) of
               (Some r, Some l) \<Rightarrow>
                 rbind (substr host (spos + 1) (size_sub (length host) (spos + 2))) (\<lambda>service.
                 rbind (substr host (l + 1) (size_sub spos 1)) (\<lambda>node. Inr (node, service)))
             | _ \<Rightarrow>
                 rbind (substr host (spos + 1) (length host - spos - 1)) (\<lambda>service.
                 rbind (substr host 0 spos) (\<lambda>node. Inr (node, service))))
        | None \<Rightarrow>
            (case (rpos, lpos) of
               (Some r, Some l) \<Rightarrow> rbind (substr host (l + 1) (size_sub r 1)) (\<lambda>node. Inr (node, []))
             | _ \<Rightarrow> Inr (host, [])))"

text \<open>
  \<open>gai node service\<close> stands for \<^verbatim>\<open>getaddrinfo\<close>: the list of results, or \<open>None\<close> for an error. An error is only logged, and the
  loop then follows a pointer that was never set.
\<close>

fun create_all :: "byte list list \<Rightarrow> fault + address list" where
  "create_all [] = Inr []"
| "create_all (bs # rest) =
     rbind (Address_Create (Some bs)) (\<lambda>a. rbind (create_all rest) (\<lambda>l. Inr (case a of None \<Rightarrow> l | Some a \<Rightarrow> a # l)))"

definition Lookup :: "(string \<Rightarrow> string option \<Rightarrow> byte list list option) \<Rightarrow> string \<Rightarrow> fault + bool \<times> address list" where
  "Lookup gai host =
     rbind (split_host host) (\<lambda>(node, service).
       case gai (if node = [] then host else node) (if service = [] then None else Some service) of
         None \<Rightarrow> Inl OutOfBounds
       | Some res \<Rightarrow> rbind (create_all res) (\<lambda>vec. Inr (vec \<noteq> [], vec)))"

definition LookupAny :: "(string \<Rightarrow> string option \<Rightarrow> byte list list option) \<Rightarrow> string \<Rightarrow> fault + address option" where
  "LookupAny gai host = rbind (Lookup gai host) (\<lambda>(ok, vec). Inr (if ok then Some (hd vec) else None))"

definition is_IPAddress :: "address \<Rightarrow> bool" where
  "is_IPAddress a = (case a of IPv4Address _ \<Rightarrow> True | IPv6Address _ \<Rightarrow> True | _ \<Rightarrow> False)"

definition LookupAnyIPAddress :: "(string \<Rightarrow> string option \<Rightarrow> byte list list option) \<Rightarrow> string \<Rightarrow> fault + address option" where
  "LookupAnyIPAddress gai host = rbind (Lookup gai host) (\<lambda>(ok, vec). Inr (if ok then List.find is_IPAddress vec else None))"

text \<open>\<open>gai\<close> for a numeric host; the first result is cast to an address of the two IP families.\<close>

definition IPAddress_Create :: "(string \<Rightarrow> byte list option) \<Rightarrow> string \<Rightarrow> u16 \<Rightarrow> fault + address option" where
  "IPAddress_Create gai address port =
     (case gai address of
        None \<Rightarrow> Inr None
      | Some bs \<Rightarrow>
          rbind (Address_Create (Some bs)) (\<lambda>a.
            Inr (case a of None \<Rightarrow> None | Some a \<Rightarrow> if is_IPAddress a then Some (setPort port a) else None)))"

section \<open>Interfaces\<close>

text \<open>An entry of \<^verbatim>\<open>getifaddrs\<close>: the address of an interface may be missing.\<close>

record ifaddr =
  ifa_name :: string
  ifa_addr :: "byte list option"
  ifa_netmask :: "byte list option"

definition interface_address :: "u16 \<Rightarrow> ifaddr \<Rightarrow> fault + (string \<times> address \<times> nat) list" where
  "interface_address family cur =
     (case (ifa_addr cur, ifa_netmask cur) of
        (None, _) \<Rightarrow> if family \<noteq> AF_UNSPEC then Inl NullDeref else Inr []
      | (Some bs, netmask) \<Rightarrow>
          if family \<noteq> AF_UNSPEC \<and> family \<noteq> le_word (field 0 2 bs) then Inr []
          else if family = AF_INET \<or> family = AF_INET6 then
            rbind (Address_Create (Some bs)) (\<lambda>a.
              case (a, netmask) of
                (_, None) \<Rightarrow> Inl NullDeref
              | (None, _) \<Rightarrow> Inr []
              | (Some a, Some m) \<Rightarrow>
                  Inr [(ifa_name cur, a,
                        if family = AF_INET then CountBytes (le_word (field 4 4 m) :: u32)
                        else sum_list (map CountBytes (field 8 16 m)))])
          else Inr [])"

fun interface_addresses :: "u16 \<Rightarrow> ifaddr list \<Rightarrow> fault + (string \<times> address \<times> nat) list" where
  "interface_addresses family [] = Inr []"
| "interface_addresses family (cur # rest) =
     rbind (interface_address family cur) (\<lambda>l. rbind (interface_addresses family rest) (\<lambda>r. Inr (l @ r)))"

text \<open>The addresses of one interface with their prefix lengths; an empty name or \<^verbatim>\<open>*\<close> is any address, never initialised.\<close>

definition GetInterfaceAddress ::
  "ifaddr list option \<Rightarrow> address \<Rightarrow> address \<Rightarrow> string \<Rightarrow> u16 \<Rightarrow> fault + bool \<times> (address \<times> nat) list" where
  "GetInterfaceAddress ifs junk4 junk6 iface family =
     (if iface = [] \<or> iface = ''*'' then
        Inr (True, if family = AF_INET then [(junk4, 0)] else if family = AF_INET6 then [(junk6, 0)] else [])
      else case ifs of
        None \<Rightarrow> Inr (False, [])
      | Some ifs \<Rightarrow>
          rbind (interface_addresses family ifs) (\<lambda>results.
            if results = [] then Inr (False, [])
            else
              let its = map snd (filter (\<lambda>r. fst r = iface) results) in Inr (its \<noteq> [], its)))"

section \<open>Readers\<close>

text \<open>The text of an IPv4 address and its port.\<close>

definition read_v4 :: "string \<Rightarrow> (u32 \<times> u16) option" where
  "read_v4 s =
     Option.bind (cut_at CHR '':'' s) (\<lambda>(addr, port).
     Option.bind (read_num 10 port) (\<lambda>p.
     Option.bind (those (map (read_num 10) (pieces CHR ''.'' addr))) (\<lambda>ns.
       case ns of
         [a, b, c, d] \<Rightarrow>
           if a < 256 \<and> b < 256 \<and> c < 256 \<and> d < 256 \<and> p < 65536 then
             Some (push_bit 24 (of_nat a) OR push_bit 16 (of_nat b) OR push_bit 8 (of_nat c) OR of_nat d, of_nat p)
           else None
       | _ \<Rightarrow> None)))"

text \<open>
  The text of an IPv6 address (RFC 4291): groups of up to four hexadecimal digits between colons, where one double colon stands
  for one or more groups of zeros.
\<close>

fun cut_zeros :: "string \<Rightarrow> (string \<times> string) option" where
  "cut_zeros (a # b # s) =
     (if a = CHR '':'' \<and> b = CHR '':'' then Some ([], s) else map_option (\<lambda>(l, r). (a # l, r)) (cut_zeros (b # s)))"
| "cut_zeros s = None"

definition read_group :: "string \<Rightarrow> nat option" where
  "read_group s = (if length s \<le> 4 then read_num 16 s else None)"

definition read_groups :: "string \<Rightarrow> nat list option" where
  "read_groups s = (if s = [] then Some [] else those (map read_group (pieces CHR '':'' s)))"

definition read_v6_groups :: "string \<Rightarrow> nat list option" where
  "read_v6_groups s =
     (case cut_zeros s of
        None \<Rightarrow> Option.bind (read_groups s) (\<lambda>gs. if length gs = 8 then Some gs else None)
      | Some (l, r) \<Rightarrow>
          Option.bind (read_groups l) (\<lambda>gl. Option.bind (read_groups r) (\<lambda>gr.
            if length gl + length gr < 8 then Some (gl @ replicate (8 - length gl - length gr) 0 @ gr) else None)))"

text \<open>The bytes of the groups in network order.\<close>

definition group_bytes :: "nat list \<Rightarrow> byte list" where
  "group_bytes gs = concat (map (\<lambda>g. rev (le_bytes (of_nat g :: u16))) gs)"

definition read_v6 :: "string \<Rightarrow> (byte list \<times> u16) option" where
  "read_v6 s =
     (case s of
        [] \<Rightarrow> None
      | b # s \<Rightarrow>
          if b \<noteq> CHR ''['' then None
          else Option.bind (cut_at CHR '']'' s) (\<lambda>(addr, port).
               Option.bind (read_v6_groups addr) (\<lambda>gs.
               if port = [] \<or> hd port \<noteq> CHR '':'' then None
               else Option.bind (read_num 10 (tl port)) (\<lambda>p. if p < 65536 then Some (group_bytes gs, of_nat p) else None))))"

section \<open>The text of an IPv4 address\<close>

lemma those_map_Some: "(\<And>x. x \<in> set xs \<Longrightarrow> f x = Some (g x)) \<Longrightarrow> those (map f xs) = Some (map g xs)"
  by (induction xs) auto

lemma dec_no: "c \<notin> set ''0123456789'' \<Longrightarrow> c \<notin> set (dec n)"
  using dec_digits [of n] by blast

lemma bit_0xff: "bit (255 :: u32) n \<longleftrightarrow> n < 8"
proof -
  have "(255 :: u32) = mask 8" by (simp add: mask_eq_exp_minus_1)
  then show ?thesis by (simp only: bit_mask_iff) auto
qed

lemma four_bytes_mask:
  assumes "\<And>n. bit m n \<longleftrightarrow> n < 8"
  shows "push_bit 24 (drop_bit 24 h AND m) OR push_bit 16 (drop_bit 16 h AND m) OR push_bit 8 (drop_bit 8 h AND m) OR (h AND m) = (h :: u32)"
proof (rule bit_word_eqI)
  fix n
  assume n: "n < LENGTH(32)"
  consider "n < 8" | "8 \<le> n" "n < 16" | "16 \<le> n" "n < 24" | "24 \<le> n" by linarith
  then show "bit (push_bit 24 (drop_bit 24 h AND m) OR push_bit 16 (drop_bit 16 h AND m) OR push_bit 8 (drop_bit 8 h AND m) OR (h AND m)) n = bit h n"
    using n by cases (auto simp: bit_or_iff bit_push_bit_iff bit_and_iff bit_drop_bit_eq assms)
qed

lemmas four_bytes = four_bytes_mask [OF bit_0xff]

lemma byte_of_word: "unat (h AND 0xff :: u32) < 256"
proof -
  have "h AND 0xff \<le> 0xff" by (rule word_and_le1)
  then have "unat (h AND 0xff) \<le> unat (0xff :: u32)" by (simp only: word_le_nat_alt)
  then show ?thesis by simp
qed

lemma v4_text: "read_v4 (v4_insert a) = Some (byteswap (sin_addr a), byteswap (sin_port a))"
proof -
  let ?h = "byteswap (sin_addr a)"
  let ?ns = "[unat (drop_bit 24 ?h AND 0xff), unat (drop_bit 16 ?h AND 0xff), unat (drop_bit 8 ?h AND 0xff), unat (?h AND 0xff)]"
  let ?addr = "joined ''.'' (map dec ?ns)" and ?port = "dec (unat (byteswap (sin_port a)))"
  have "v4_insert a = ?addr @ CHR '':'' # ?port" by (simp add: v4_insert_def Let_def)
  moreover have "CHR '':'' \<notin> set ?addr" using dec_no [of "CHR '':''"] by simp
  ultimately have 1: "cut_at CHR '':'' (v4_insert a) = Some (?addr, ?port)"
    using cut_at_append [of "CHR '':''" ?addr ?port] by argo
  have "pieces CHR ''.'' ?addr = map dec ?ns"
    using dec_no [of "CHR ''.''"] by (intro pieces_joined) simp_all
  then have 2: "those (map (read_num 10) (pieces CHR ''.'' ?addr)) = Some ?ns" by simp
  have "unat (byteswap (sin_port a)) < 65536" using unsigned_less [of "byteswap (sin_port a)"] by simp
  then show ?thesis unfolding read_v4_def 1 using byte_of_word four_bytes [of ?h] by (simp add: 2 del: map_map list.map)
qed

section \<open>The text of an IPv6 address\<close>

text \<open>The text of a group, and the form of the whole: what is before the first run of zeros, and what is behind it.\<close>

definition group_text :: "u16 \<Rightarrow> string" where
  "group_text g = hexd (unat (byteswap g))"

lemma v6_groups_used:
  "v6_groups (Some p) True gs = (concat (map (\<lambda>g. CHR '':'' # group_text g) gs), True)"
  by (induction gs arbitrary: p) (simp_all add: group_text_def)

lemma v6_groups_zeros:
  "v6_groups (Some 0) False gs =
     (case dropWhile (\<lambda>g. g = 0) gs of
        [] \<Rightarrow> ([], False)
      | h # t \<Rightarrow> (''::'' @ group_text h @ concat (map (\<lambda>g. CHR '':'' # group_text g) t), True))"
  by (induction gs) (simp_all add: v6_groups_used group_text_def)

lemma v6_groups_before:
  assumes "p \<noteq> 0"
  shows "v6_groups (Some p) False gs =
    (let pre = takeWhile (\<lambda>g. g \<noteq> 0) gs; rest = dropWhile (\<lambda>g. g \<noteq> 0) gs; (s, u) = v6_groups (Some 0) False rest in
     (concat (map (\<lambda>g. CHR '':'' # group_text g) pre) @ s, u))"
  using assms
proof (induction gs arbitrary: p)
  case (Cons g gs)
  show ?case
  proof (cases "g = 0")
    case True
    then show ?thesis by (simp add: split_beta)
  next
    case False
    from Cons.IH [OF this] False Cons.prems show ?thesis by (simp add: Let_def split_beta group_text_def)
  qed
qed simp

lemma joined_concat: "joined [c] (map f (g # gs)) = f g @ concat (map (\<lambda>g. c # f g) gs)"
  by (induction gs arbitrary: g) simp_all

text \<open>The text of the groups, with the double colon that \<open>insert\<close> may add at the end.\<close>

definition groups_text :: "u16 list \<Rightarrow> string" where
  "groups_text gs =
     (let pre = takeWhile (\<lambda>g. g \<noteq> 0) gs; rest = dropWhile (\<lambda>g. g \<noteq> 0) gs; post = dropWhile (\<lambda>g. g = 0) rest in
      joined '':'' (map group_text pre) @ (if rest = [] then [] else ''::'' @ joined '':'' (map group_text post)))"

lemma dropWhile_zeros_last:
  "xs \<noteq> [] \<Longrightarrow> dropWhile P xs = [] \<Longrightarrow> P (last xs)"
  by (metis dropWhile_eq_Nil_conv last_in_set)

lemma v6_groups_text:
  assumes "gs \<noteq> []"
  shows "(let (s, used) = v6_groups None False gs in s @ (if \<not> used \<and> last gs = 0 then ''::'' else [])) = groups_text gs"
proof -
  obtain g gs' where gs: "gs = g # gs'" using assms by (cases gs) auto
  let ?rest = "dropWhile (\<lambda>g. g \<noteq> 0) gs" and ?pre = "takeWhile (\<lambda>g. g \<noteq> 0) gs"
  have start: "v6_groups None False gs =
      (joined '':'' (map group_text ?pre) @ fst (v6_groups (Some 0) False ?rest), snd (v6_groups (Some 0) False ?rest))"
  proof (cases "g = 0")
    case True
    then show ?thesis by (simp add: gs)
  next
    case False
    then show ?thesis using joined_concat [of "CHR '':''" group_text g "takeWhile (\<lambda>g. g \<noteq> 0) gs'"] v6_groups_before [OF False, of gs']
      by (simp add: gs Let_def split_beta group_text_def)
  qed
  show ?thesis
  proof (cases "?rest = []")
    case True
    then have "last gs \<noteq> 0" using dropWhile_zeros_last [OF assms, of "\<lambda>g. g \<noteq> 0"] by argo
    then show ?thesis unfolding start groups_text_def True by simp
  next
    case False
    have "last ?rest = last gs" using False by (metis last_append takeWhile_dropWhile_id)
    show ?thesis
    proof (cases "dropWhile (\<lambda>g. g = 0) ?rest")
      case Nil
      then have "last gs = 0" using dropWhile_zeros_last [OF False Nil] \<open>last ?rest = last gs\<close> by argo
      then show ?thesis using False unfolding start v6_groups_zeros groups_text_def Let_def Nil by simp
    next
      case (Cons h t)
      then show ?thesis using False joined_concat [of "CHR '':''" group_text h t]
        unfolding start v6_groups_zeros groups_text_def Let_def Cons by simp
    qed
  qed
qed

text \<open>Reading it back.\<close>

lemma group_text_nonempty: "group_text g \<noteq> []"
  by (simp add: group_text_def hexd_nonempty)

lemma group_text_no: "c \<notin> set ''0123456789abcdef'' \<Longrightarrow> c \<notin> set (group_text g)"
  using hexd_digits [of "unat (byteswap g)"] unfolding group_text_def by blast

lemma read_group_text: "read_group (group_text g) = Some (unat (byteswap g))"
  using length_hexd [of "unat (byteswap g)" 3] unsigned_less [of "byteswap g"]
  by (simp add: read_group_def group_text_def)

lemma read_groups_text: "read_groups (joined '':'' (map group_text gs)) = Some (map (\<lambda>g. unat (byteswap g)) gs)"
proof (cases "gs = []")
  case False
  have "pieces CHR '':'' (joined '':'' (map group_text gs)) = map group_text gs"
    using False group_text_no [of "CHR '':''"] by (intro pieces_joined) (simp_all add: list_all_iff)
  moreover have "joined '':'' (map group_text gs) \<noteq> []"
    using False group_text_nonempty joined_concat [of "CHR '':''" group_text "hd gs" "tl gs"] by simp
  moreover have "those (map read_group (map group_text gs)) = Some (map (\<lambda>g. unat (byteswap g)) gs)"
    by (simp add: those_map_Some read_group_text)
  ultimately show ?thesis by (simp add: read_groups_def)
qed (simp add: read_groups_def)

text \<open>The first double colon is the one between the groups.\<close>

lemma cut_zeros_step:
  "c \<noteq> CHR '':'' \<or> (\<exists>d s'. s = d # s' \<and> d \<noteq> CHR '':'') \<Longrightarrow> s \<noteq> [] \<Longrightarrow> cut_zeros (c # s) = map_option (\<lambda>(l, r). (c # l, r)) (cut_zeros s)"
  by (cases s) auto

lemma cut_zeros_none: "CHR '':'' \<notin> set p \<Longrightarrow> cut_zeros p = None"
  by (induction p rule: cut_zeros.induct) auto

lemma cut_zeros_prefix:
  assumes "CHR '':'' \<notin> set p" and "s \<noteq> []"
  shows "cut_zeros (p @ s) = map_option (\<lambda>(l, r). (p @ l, r)) (cut_zeros s)"
  using assms(1)
proof (induction p)
  case Nil
  then show ?case by (cases "cut_zeros s") auto
next
  case (Cons c p)
  then have "cut_zeros (c # (p @ s)) = map_option (\<lambda>(l, r). (c # l, r)) (cut_zeros (p @ s))"
    using assms(2) by (intro cut_zeros_step) auto
  with Cons show ?case by (cases "cut_zeros s") auto
qed

lemma cut_zeros_joined:
  assumes "list_all (\<lambda>p. p \<noteq> [] \<and> CHR '':'' \<notin> set p) ps"
  shows "cut_zeros (joined '':'' ps) = None" and "cut_zeros (joined '':'' ps @ ''::'' @ r) = Some (joined '':'' ps, r)"
proof -
  have "cut_zeros (joined '':'' ps) = None \<and> cut_zeros (joined '':'' ps @ ''::'' @ r) = Some (joined '':'' ps, r)"
    using assms
  proof (induction ps)
    case (Cons p ps)
    show ?case
    proof (cases "ps = []")
      case True
      then show ?thesis using Cons.prems cut_zeros_none [of p] cut_zeros_prefix [of p "''::'' @ r"] by simp
    next
      case False
      then obtain q qs where ps: "ps = q # qs" "q \<noteq> []" "CHR '':'' \<notin> set q" using Cons.prems by (cases ps) auto
      then obtain d j where j: "joined '':'' ps = d # j" "d \<noteq> CHR '':''"
        by (cases q; cases qs) auto
      have "cut_zeros (CHR '':'' # joined '':'' ps @ x) = map_option (\<lambda>(l, r). (CHR '':'' # l, r)) (cut_zeros (joined '':'' ps @ x))" for x
        using j by (intro cut_zeros_step) auto
      from this [of "[]"] this [of "''::'' @ r"] Cons show ?thesis
        using cut_zeros_prefix [of p "CHR '':'' # joined '':'' ps"] cut_zeros_prefix [of p "CHR '':'' # joined '':'' ps @ ''::'' @ r"]
        by (simp add: joined_Cons False)
    qed
  qed simp
  then show "cut_zeros (joined '':'' ps) = None" and "cut_zeros (joined '':'' ps @ ''::'' @ r) = Some (joined '':'' ps, r)" by blast+
qed

lemma replicate_zeros: "list_all (\<lambda>g. g = z) xs \<Longrightarrow> xs = replicate (length xs) z"
  by (induction xs) auto

lemma read_groups_back:
  assumes "length gs = 8"
  shows "read_v6_groups (groups_text gs) = Some (map (\<lambda>g. unat (byteswap g)) gs)"
proof -
  define pre where "pre = takeWhile (\<lambda>g. g \<noteq> 0) gs"
  define rest where "rest = dropWhile (\<lambda>g. g \<noteq> 0) gs"
  define zs where "zs = takeWhile (\<lambda>g. g = 0) rest"
  define post where "post = dropWhile (\<lambda>g. g = 0) rest"
  have gs: "gs = pre @ rest" and rest: "rest = zs @ post" by (simp_all add: pre_def rest_def zs_def post_def)
  have ok: "list_all (\<lambda>p. p \<noteq> [] \<and> CHR '':'' \<notin> set p) (map group_text xs)" for xs
    using group_text_nonempty group_text_no [of "CHR '':''"] by (simp add: list_all_iff)
  have txt0: "groups_text gs = joined '':'' (map group_text pre) @ (if rest = [] then [] else ''::'' @ joined '':'' (map group_text post))"
    unfolding groups_text_def Let_def pre_def rest_def post_def ..
  show ?thesis
  proof (cases "rest = []")
    case True
    then have "groups_text gs = joined '':'' (map group_text gs)" using txt0 gs by simp
    then show ?thesis using cut_zeros_joined(1) [OF ok [of gs]] read_groups_text [of gs] assms by (simp add: read_v6_groups_def)
  next
    case False
    have "hd rest = 0" using False hd_dropWhile [of "\<lambda>g. g \<noteq> 0" gs] unfolding rest_def by blast
    then have "zs \<noteq> []" using False unfolding zs_def by (cases rest) auto
    have "list_all (\<lambda>g. g = 0) zs" unfolding zs_def by (auto simp: list_all_iff dest: set_takeWhileD)
    then obtain n where zs: "zs = replicate n 0" by (metis replicate_zeros)
    then have n: "0 < n" using \<open>zs \<noteq> []\<close> by (cases n) auto
    have len: "length pre + n + length post = 8" using assms by (simp add: gs rest zs)
    have "unat (byteswap (0 :: u16)) = 0" by code_simp
    then have "map (\<lambda>g. unat (byteswap g)) gs = map (\<lambda>g. unat (byteswap g)) pre @ replicate n 0 @ map (\<lambda>g. unat (byteswap g)) post"
      by (simp add: gs rest zs)
    moreover have "8 - length pre - length post = n" using len by simp
    moreover have "groups_text gs = joined '':'' (map group_text pre) @ ''::'' @ joined '':'' (map group_text post)"
      using False txt0 by simp
    ultimately show ?thesis
      using cut_zeros_joined(2) [OF ok [of pre], of "joined '':'' (map group_text post)"] read_groups_text [of pre] read_groups_text [of post]
        len n
      by (simp add: read_v6_groups_def)
  qed
qed

lemma length_u16_array: "length bs = 2 * n \<Longrightarrow> length (u16_array bs) = n"
proof (induction n arbitrary: bs)
  case (Suc n)
  then obtain a b bs' where "bs = a # b # bs'" by (cases bs; cases "tl bs") auto
  with Suc show ?case by simp
qed simp

lemma group_bytes_array:
  "length bs = 2 * n \<Longrightarrow> group_bytes (map (\<lambda>g. unat (byteswap g)) (u16_array bs)) = bs"
proof (induction n arbitrary: bs)
  case (Suc n)
  then obtain a b bs' where bs: "bs = a # b # bs'" by (cases bs; cases "tl bs") auto
  have "rev (le_bytes (of_nat (unat (byteswap (le_word [a, b] :: u16))) :: u16)) = [a, b]"
    using le_bytes_le_word [of "[a, b]", where 'a = 16] by (simp del: le_word.simps)
  then show ?case using Suc bs by (simp add: group_bytes_def del: le_word.simps)
qed (simp add: group_bytes_def)

lemma groups_text_no: "CHR '']'' \<notin> set (groups_text gs)"
proof -
  have "CHR '']'' \<notin> set (joined '':'' (map group_text xs))" for xs
    using group_text_no [of "CHR '']''"] set_joined [of "'':''" "map group_text xs"] by auto
  then show ?thesis by (simp add: groups_text_def Let_def)
qed

lemma v6_text:
  assumes "length (sin6_addr a) = 16"
  shows "read_v6 (v6_insert a) = Some (sin6_addr a, byteswap (sin6_port a))"
proof -
  let ?gs = "u16_array (sin6_addr a)" and ?port = "dec (unat (byteswap (sin6_port a)))"
  have len: "length ?gs = 8" using length_u16_array [of "sin6_addr a" 8] assms by simp
  then have "?gs \<noteq> []" by auto
  moreover from this have "last ?gs = ?gs ! 7" using len by (simp add: last_conv_nth)
  ultimately have "v6_insert a = CHR ''['' # groups_text ?gs @ CHR '']'' # CHR '':'' # ?port"
    using v6_groups_text [of ?gs] by (auto simp: v6_insert_def Let_def split: prod.splits)
  moreover have "cut_at CHR '']'' (groups_text ?gs @ CHR '']'' # CHR '':'' # ?port) = Some (groups_text ?gs, CHR '':'' # ?port)"
    by (rule cut_at_append [OF groups_text_no])
  moreover have "unat (byteswap (sin6_port a)) < 65536" using unsigned_less [of "byteswap (sin6_port a)"] by simp
  ultimately show ?thesis
    using read_groups_back [OF len] group_bytes_array [of "sin6_addr a" 8] assms by (simp add: read_v6_def)
qed

section \<open>Networks\<close>

lemma bit_byteswap:
  "bit (byteswap (w :: 'a::len word)) n \<longleftrightarrow> n < LENGTH('a) \<and> n div 8 < LENGTH('a) div 8 \<and> bit w (8 * (LENGTH('a) div 8 - 1 - n div 8) + n mod 8)"
proof (cases "n < LENGTH('a) \<and> n div 8 < LENGTH('a) div 8")
  case True
  then have "rev (le_bytes w) ! (n div 8) = ucast (drop_bit (8 * (LENGTH('a) div 8 - 1 - n div 8)) w)"
    using le_bytes_swapped_nth [of "n div 8" w] by simp
  then show ?thesis using True by (simp add: byteswap_def bit_le_word bit_ucast_iff bit_drop_bit_eq)
qed (auto simp: byteswap_def bit_le_word)

lemma byteswap_or: "byteswap (a OR b) = byteswap a OR byteswap (b :: 'a::len word)"
  by (rule bit_word_eqI) (auto simp: bit_byteswap bit_or_iff)

lemma byteswap_and: "byteswap (a AND b) = byteswap a AND byteswap (b :: 'a::len word)"
  by (rule bit_word_eqI) (auto simp: bit_byteswap bit_and_iff)

lemma byteswap_not: "byteswap (NOT a) = NOT (byteswap (a :: u32))"
proof (rule bit_word_eqI)
  fix n
  assume n: "n < LENGTH(32)"
  then have "n div 8 < 4" by simp
  then have "8 * (3 - n div 8) + n mod 8 < 32" by linarith
  with n \<open>n div 8 < 4\<close> show "bit (byteswap (NOT a)) n = bit (NOT (byteswap a)) n"
    by (simp add: bit_byteswap bit_not_iff)
qed

lemma CreateMask32: "2 \<le> p \<Longrightarrow> p \<le> 32 \<Longrightarrow> CreateMask p = Inr (mask (32 - p) :: u32)"
  by (simp add: CreateMask_def Let_def mask_eq_exp_minus_1)

lemma CreateMask8: "p < 8 \<Longrightarrow> CreateMask p = Inr (mask (8 - p) :: byte)"
  by (simp add: CreateMask_def Let_def mask_eq_exp_minus_1)

text \<open>The host's view of an IPv6 address: a word of 128 bits.\<close>

definition v6_word :: "byte list \<Rightarrow> 128 word" where
  "v6_word bs = le_word (rev bs)"

lemma bit_v6_word:
  assumes "length bs = 16"
  shows "bit (v6_word bs) n \<longleftrightarrow> n < 128 \<and> bit (bs ! (15 - n div 8)) (n mod 8)"
  using assms by (auto simp: v6_word_def bit_le_word rev_nth)

lemma v6_split:
  assumes "length as = p div 8" and "p < 128"
  shows "bit (v6_word (as @ [b] @ replicate (15 - p div 8) c)) n \<longleftrightarrow> n < 128 \<and>
    (if n div 8 < 15 - p div 8 then bit c (n mod 8) else if n div 8 = 15 - p div 8 then bit b (n mod 8) else bit (as ! (15 - n div 8)) (n mod 8))"
proof -
  have p: "p div 8 < 16" using assms(2) by simp
  then have len: "length (as @ [b] @ replicate (15 - p div 8) c) = 16" using assms(1) by simp
  consider "n div 8 < 15 - p div 8" | "n div 8 = 15 - p div 8" | "15 - p div 8 < n div 8" "n < 128" | "128 \<le> n" by linarith
  then show ?thesis
  proof cases
    case 1
    then have "15 - n div 8 - p div 8 = Suc (14 - n div 8 - p div 8)" "14 - n div 8 - p div 8 < 15 - p div 8" by linarith+
    moreover have "\<not> 15 - n div 8 < p div 8" "n < 128" using 1 p by linarith+
    ultimately show ?thesis using 1 assms p unfolding bit_v6_word [OF len] by (simp add: nth_append)
  next
    case 2
    then have "15 - n div 8 = p div 8" using p by linarith
    then show ?thesis using 2 assms unfolding bit_v6_word [OF len] by (simp add: nth_append)
  next
    case 3
    then have "n div 8 < 16" by simp
    then have "15 - n div 8 < p div 8" using 3 by linarith
    then show ?thesis using 3 assms unfolding bit_v6_word [OF len] by (simp add: nth_append)
  next
    case 4
    then show ?thesis unfolding bit_v6_word [OF len] by simp
  qed
qed

text \<open>
  C32. The text of an address gives the address back: a reader of dotted decimals returns the number and the port of an IPv4 address
  from its text, and a reader of the notation of RFC 4291 the sixteen bytes and the port of an IPv6 address, wherever
  its zeros are and although only the first run of them is shortened.
\<close>

theorem address_text_roundtrip:
  assumes "length (sin6_addr b) = 16"
  shows "read_v4 (insert_text (IPv4Address a)) = Some (byteswap (sin_addr a), byteswap (sin_port a)) \<and>
    getPort (IPv4Address a) = Some (ucast (byteswap (sin_port a))) \<and>
    read_v6 (insert_text (IPv6Address b)) = Some (sin6_addr b, byteswap (sin6_port b)) \<and>
    getPort (IPv6Address b) = Some (ucast (byteswap (sin6_port b)))"
  using v4_text [of a] v6_text [OF assms] by simp

theorem address_text_roundtrip_witness:
  "read_v6 (insert_text (IPv6Address (new_IPv6Address ([0x20, 1, 0xd, 0xb8] @ replicate 11 0 @ [1]) 80))) =
     Some ([0x20, 1, 0xd, 0xb8] @ replicate 11 0 @ [1], 80)"
proof -
  have "length (sin6_addr (new_IPv6Address ([0x20, 1, 0xd, 0xb8] @ replicate 11 0 @ [1]) 80)) = 16" by (simp add: new_IPv6Address_def)
  moreover have "byteswap (byteswap (80 :: u16)) = 80" by (rule byteswap_byteswap) simp
  ultimately show ?thesis using address_text_roundtrip by (simp add: new_IPv6Address_def)
qed

lemma host_bits_sum:
  fixes nd nm i r :: nat
  assumes "nm < 8" "r < 8"
  shows "8 * nd + nm + (8 * i + r) < 128 \<longleftrightarrow> nd + i < 15 \<or> nd + i = 15 \<and> nm + r < 8"
proof -
  define s where "s = nd + i"
  have e: "8 * nd + nm + (8 * i + r) = 8 * s + (nm + r)" by (simp add: s_def)
  consider "s < 15" | "s = 15" | "16 \<le> s" by linarith
  then show ?thesis unfolding e s_def [symmetric] using assms by cases linarith+
qed

lemma host_bits:
  fixes n q :: nat
  assumes "q < 128"
  shows "n < 128 - q \<longleftrightarrow> n div 8 < 15 - q div 8 \<or> n div 8 = 15 - q div 8 \<and> n mod 8 < 8 - q mod 8"
proof -
  have n: "8 * (n div 8) + n mod 8 = n" and q: "8 * (q div 8) + q mod 8 = q" by simp_all
  have "q div 8 < 16" using assms by simp
  then have e: "n div 8 = 15 - q div 8 \<longleftrightarrow> n div 8 + q div 8 = 15" by linarith
  have "n < 128 - q \<longleftrightarrow> n + q < 128" by (rule less_diff_conv)
  also have "\<dots> \<longleftrightarrow> n div 8 + q div 8 < 15 \<or> n div 8 + q div 8 = 15 \<and> n mod 8 + q mod 8 < 8"
    using host_bits_sum [of "n mod 8" "q mod 8" "n div 8" "q div 8"] unfolding n q by simp
  finally show ?thesis by (simp only: e less_diff_conv)
qed

text \<open>
  Subnets. Where it is defined, the broadcast address of a prefix is the address with all bits of the host part set and the mask
  is the one of the prefix, for IPv4 and IPv6; but the network address keeps the host part and clears the rest: it is
  right only when the two agree. A prefix of 0 or 1 overflows for IPv4, and one of 128 reads outside the address for IPv6.
\<close>

theorem subnet_addresses:
  fixes a :: sockaddr_in and b :: sockaddr_in6
  assumes p: "2 \<le> p" "p \<le> 32" and q: "q < 128" and len: "length (sin6_addr b) = 16"
  shows "(\<exists>c. v4_broadcastAddress p a = Inr (Some (IPv4Address c)) \<and> byteswap (sin_addr c) = byteswap (sin_addr a) OR mask (32 - p)) \<and>
    (\<exists>c. v4_subnetMask p = Inr (IPv4Address c) \<and> byteswap (sin_addr c) = NOT (mask (32 - p))) \<and>
    (\<exists>c. v4_networkAddress p a = Inr (Some (IPv4Address c)) \<and> byteswap (sin_addr c) = byteswap (sin_addr a) AND mask (32 - p)) \<and>
    (\<exists>c. v6_broadcastAddress q b = Inr (IPv6Address c) \<and> v6_word (sin6_addr c) = v6_word (sin6_addr b) OR mask (128 - q)) \<and>
    (\<exists>c. v6_subnetMask q = Inr (IPv6Address c) \<and> v6_word (sin6_addr c) = NOT (mask (128 - q))) \<and>
    v4_networkAddress 0 a = Inl IntOverflow \<and> v4_networkAddress 1 a = Inl IntOverflow \<and> v6_broadcastAddress 128 b = Inl OutOfBounds"
proof (intro conjI)
  have bb: "byteswap (byteswap (mask (32 - p) :: u32)) = mask (32 - p)" by (rule byteswap_byteswap) simp
  show "\<exists>c. v4_broadcastAddress p a = Inr (Some (IPv4Address c)) \<and> byteswap (sin_addr c) = byteswap (sin_addr a) OR mask (32 - p)"
    using p by (simp add: v4_broadcastAddress_def CreateMask32 byteswap_or bb)
  show "\<exists>c. v4_subnetMask p = Inr (IPv4Address c) \<and> byteswap (sin_addr c) = NOT (mask (32 - p))"
    using p by (simp add: v4_subnetMask_def CreateMask32 byteswap_not bb)
  show "\<exists>c. v4_networkAddress p a = Inr (Some (IPv4Address c)) \<and> byteswap (sin_addr c) = byteswap (sin_addr a) AND mask (32 - p)"
    using p by (simp add: v4_networkAddress_def CreateMask32 byteswap_and bb)
  let ?i = "q div 8"
  have i: "?i < 16" using q by simp
  have m: "CreateMask (q mod 8) = Inr (mask (8 - q mod 8) :: byte)" by (simp add: CreateMask8)
  have host: "n < 128 - q \<longleftrightarrow> n div 8 < 15 - ?i \<or> n div 8 = 15 - ?i \<and> n mod 8 < 8 - q mod 8" for n
    by (rule host_bits [OF q])
  have l: "length (take ?i (sin6_addr b)) = ?i" using len i by simp
  have ff: "bit (0xFF :: byte) k \<longleftrightarrow> k < 8" for k
  proof -
    have "(0xFF :: byte) = mask 8" by (simp add: mask_eq_exp_minus_1)
    then show ?thesis by (simp only: bit_mask_iff) auto
  qed
  show "\<exists>c. v6_broadcastAddress q b = Inr (IPv6Address c) \<and> v6_word (sin6_addr c) = v6_word (sin6_addr b) OR mask (128 - q)"
  proof (intro exI conjI)
    let ?c = "b\<lparr>sin6_addr := take ?i (sin6_addr b) @ [sin6_addr b ! ?i OR mask (8 - q mod 8)] @ replicate (15 - ?i) 0xFF\<rparr>"
    show "v6_broadcastAddress q b = Inr (IPv6Address ?c)" using i m by (simp add: v6_broadcastAddress_def Let_def)
    show "v6_word (sin6_addr ?c) = v6_word (sin6_addr b) OR mask (128 - q)"
    proof (rule bit_word_eqI)
      fix n
      assume "n < LENGTH(128)"
      then have n: "n < 128" "n div 8 < 16" by simp_all
      have c: "sin6_addr ?c = take ?i (sin6_addr b) @ [sin6_addr b ! ?i OR mask (8 - q mod 8)] @ replicate (15 - ?i) 0xFF" by simp
      consider "n div 8 < 15 - ?i" | "n div 8 = 15 - ?i" "15 - n div 8 = ?i" | "15 - ?i < n div 8" "15 - n div 8 < ?i"
        using i n by linarith
      then show "bit (v6_word (sin6_addr ?c)) n = bit (v6_word (sin6_addr b) OR mask (128 - q)) n"
        unfolding c v6_split [OF l q] ff bit_or_iff bit_v6_word [OF len] bit_mask_iff host [of n]
        by cases (simp_all add: n ff bit_or_iff bit_mask_iff)
    qed
  qed
  show "\<exists>c. v6_subnetMask q = Inr (IPv6Address c) \<and> v6_word (sin6_addr c) = NOT (mask (128 - q))"
  proof -
    have "v6_word (replicate ?i 0xFF @ [NOT (mask (8 - q mod 8))] @ replicate (15 - ?i) 0) = NOT (mask (128 - q))"
    proof (rule bit_word_eqI)
      fix n
      assume "n < LENGTH(128)"
      then have n: "n < 128" "n div 8 < 16" by simp_all
      consider "n div 8 < 15 - ?i" | "n div 8 = 15 - ?i" "15 - n div 8 = ?i" | "15 - ?i < n div 8" "15 - n div 8 < ?i"
        using i n by linarith
      then show "bit (v6_word (replicate ?i 0xFF @ [NOT (mask (8 - q mod 8))] @ replicate (15 - ?i) 0)) n = bit (NOT (mask (128 - q) :: 128 word)) n"
        unfolding v6_split [OF length_replicate q] ff bit_not_iff bit_mask_iff host [of n]
        by cases (simp_all add: n ff bit_not_iff bit_mask_iff del: bit_numeral_word_iff)
    qed
    then show ?thesis using i m by (simp add: v6_subnetMask_def Let_def)
  qed
qed (simp_all add: v4_networkAddress_def v6_broadcastAddress_def CreateMask_def)


theorem subnet_addresses_witness:
  "\<exists>c. v4_subnetMask 24 = Inr (IPv4Address c) \<and> byteswap (sin_addr c) = NOT (mask 8)"
proof -
  have "length (sin6_addr (new_IPv6Address (replicate 16 0) 80)) = 16" by (simp add: new_IPv6Address_def)
  then show ?thesis using subnet_addresses [of 24 0 "new_IPv6Address (replicate 16 0) 80"] by simp
qed

section \<open>Structures in memory\<close>

definition wf_address :: "address \<Rightarrow> bool" where
  "wf_address a =
     (case a of
        IPv4Address s \<Rightarrow> sin_family s = AF_INET \<and> length (sin_zero s) = 8
      | IPv6Address s \<Rightarrow> sin6_family s = AF_INET6 \<and> length (sin6_addr s) = 16
      | UnixAddress s len \<Rightarrow> sun_family s = AF_UNIX \<and> length (sun_path s) = SUN_PATH \<and> SUN_OFFSET \<le> len \<and> len \<le> SUN_OFFSET + SUN_PATH
      | UnknowAddress s \<Rightarrow> sa_family s \<noteq> AF_INET \<and> sa_family s \<noteq> AF_INET6 \<and> length (sa_data s) = 14)"

lemma field_append: "field off n (as @ bs) = (if length as \<le> off then field (off - length as) n bs else field off n as @ take (n - (length as - off)) bs)"
  by (simp add: field_def)

lemma field_all [simp]: "length bs \<le> n \<Longrightarrow> field 0 n bs = bs"
  by (simp add: field_def)

lemma field_0 [simp]: "field 0 0 bs = []"
  by (simp add: field_def)

lemma le_word_field_word: "le_word (le_bytes (w :: u16)) = w" "le_word (le_bytes (v :: u32)) = v"
  by (simp_all add: le_word_le_bytes)

lemma Address_Create_raw:
  "wf_address a \<Longrightarrow>
     Address_Create (Some (getAddr a)) =
       Inr (Some (case a of UnixAddress s len \<Rightarrow> UnknowAddress \<lparr>sa_family = AF_UNIX, sa_data = take 14 (sun_path s)\<rparr> | _ \<Rightarrow> a))"
proof (cases a)
  case (IPv4Address s)
  moreover assume "wf_address a"
  ultimately show ?thesis
    by (simp add: wf_address_def Address_Create_def raw_in_def field_append le_word_field_word Let_def)
next
  case (IPv6Address s)
  moreover assume "wf_address a"
  ultimately show ?thesis
    by (simp add: wf_address_def Address_Create_def raw_in6_def field_append le_word_field_word Let_def AF_defs)
next
  case (UnixAddress s len)
  moreover assume "wf_address a"
  ultimately show ?thesis
    by (simp add: wf_address_def Address_Create_def raw_un_def field_append le_word_field_word Let_def AF_defs SUN_PATH_def)
       (simp add: field_def)
next
  case (UnknowAddress s)
  moreover assume "wf_address a"
  ultimately show ?thesis
    by (simp add: wf_address_def Address_Create_def raw_sa_def field_append le_word_field_word Let_def)
qed

lemma wf_new_addresses:
  "wf_address (IPv4Address (new_IPv4Address x p))"
  "length bs = 16 \<Longrightarrow> wf_address (IPv6Address (new_IPv6Address bs q))"
  "wf_address (case new_UnixAddress of (s, len) \<Rightarrow> UnixAddress s len)"
  by (simp_all add: wf_address_def new_IPv4Address_def new_IPv6Address_def new_UnixAddress_def MAX_PATH_LEN_def SUN_PATH_def)

lemma wf_setPort: "wf_address a \<Longrightarrow> wf_address (setPort p a)"
  by (cases a) (simp_all add: wf_address_def)

lemma getPort_setPort:
  "getPort (setPort p (IPv4Address a)) = Some (ucast p)" "getPort (setPort p (IPv6Address b)) = Some (ucast p)"
  by (simp_all add: byteswap_byteswap)

section \<open>The path of a Unix address\<close>

lemma chars_of_string: "chars (map (\<lambda>c. of_nat (of_char c)) s) = s"
proof -
  have "char_of (unat (of_nat (of_char c) :: byte)) = c" for c :: char
    by (simp add: unat_of_nat)
  then show ?thesis by (simp add: chars_def comp_def)
qed

lemma nonzero_char: "c \<noteq> CHR 0x00 \<Longrightarrow> (of_nat (of_char c) :: byte) \<noteq> 0"
proof
  assume "c \<noteq> CHR 0x00" "(of_nat (of_char c) :: byte) = 0"
  then have "unat (of_nat (of_char c) :: byte) = 0" by simp
  then have "(of_char c :: nat) = 0" by (simp add: unat_of_nat)
  then have "char_of (of_char c :: nat) = (char_of (0 :: nat) :: char)" by simp
  then have "c = char_of (0 :: nat)" by (simp only: char_of_char)
  then show False using \<open>c \<noteq> CHR 0x00\<close> by (simp add: char_of_def)
qed

lemma new_UnixAddress_path_plain:
  assumes "CHR 0x00 \<notin> set path" "length path < SUN_PATH"
  shows "\<exists>a. new_UnixAddress_path path = Inr (a, length path + 1 + SUN_OFFSET) \<and> wf_address (UnixAddress a (length path + 1 + SUN_OFFSET)) \<and>
    (path \<noteq> [] \<longrightarrow> getPath a (length path + 1 + SUN_OFFSET) = path)"
proof -
  let ?bs = "map (\<lambda>c. of_nat (of_char c)) path :: byte list"
  let ?p = "?bs @ 0 # replicate (SUN_PATH - length path - 1) 0"
  let ?a = "\<lparr>sun_family = AF_UNIX, sun_path = ?p\<rparr>"
  have no0: "b \<noteq> 0" if b_in: "b \<in> set ?bs" for b
  proof -
    obtain c where "c \<in> set path" and b: "b = of_nat (of_char c)" using b_in unfolding set_map by blast
    then have "c \<noteq> CHR 0x00" using assms(1) by blast
    then show ?thesis unfolding b by (rule nonzero_char)
  qed
  have c: "path = [] \<or> path ! 0 \<noteq> CHR 0x00" using assms(1) by (cases path) auto
  have "new_UnixAddress_path path = Inr (?a, length path + 1 + SUN_OFFSET)"
    using assms(2) c by (auto simp: new_UnixAddress_path_def overwrite_def)
  moreover have "wf_address (UnixAddress ?a (length path + 1 + SUN_OFFSET))"
    using assms(2) by (simp add: wf_address_def)
  moreover have "getPath ?a (length path + 1 + SUN_OFFSET) = path" if "path \<noteq> []"
  proof -
    have "?bs ! 0 \<in> set ?bs" using that by (intro nth_mem) simp
    then have "?p ! 0 \<noteq> 0" using no0 that by (simp add: nth_append)
    moreover have "takeWhile (\<lambda>b. b \<noteq> 0) ?p = ?bs" by (rule takeWhile_prefix) (use no0 in auto)
    ultimately show ?thesis by (simp only: getPath_def sockaddr_un.select_convs if_False simp_thms chars_of_string)
  qed
  ultimately show ?thesis by blast
qed

lemma new_UnixAddress_path_abstract:
  assumes "length path < SUN_PATH"
  shows "\<exists>a. new_UnixAddress_path (CHR 0x00 # path) = Inr (a, length path + 1 + SUN_OFFSET) \<and>
    getPath a (length path + 1 + SUN_OFFSET) = [CHR 0x5C, CHR 0x30] @ path"
  using assms
  by (simp add: new_UnixAddress_path_def getPath_def overwrite_def chars_of_string)

lemma new_UnixAddress_path_too_long:
  "CHR 0x00 \<notin> set path \<Longrightarrow> SUN_PATH \<le> length path \<Longrightarrow> new_UnixAddress_path path = Inl LogicError"
  by (cases path) (auto simp: new_UnixAddress_path_def)

section \<open>Comparison\<close>

lemma memcmp_self [simp]: "memcmp as as = 0"
  by (induction as) auto

lemma memcmp_values: "memcmp as bs \<in> {- 1, 0, 1}"
  by (induction as bs rule: memcmp.induct) auto

lemma memcmp_swap: "memcmp bs as = - memcmp as bs"
  by (induction as bs rule: memcmp.induct) (auto simp: not_less_iff_gr_or_eq)

lemma memcmp_eq_0: "length as = length bs \<Longrightarrow> memcmp as bs = 0 \<longleftrightarrow> as = bs"
  by (induction as bs rule: memcmp.induct) (auto simp: not_less_iff_gr_or_eq)

lemma memcmp_trans:
  "length as = length bs \<Longrightarrow> length bs = length cs \<Longrightarrow> memcmp as bs < 0 \<Longrightarrow> memcmp bs cs < 0 \<Longrightarrow> memcmp as cs < 0"
proof (induction as arbitrary: bs cs)
  case Nil
  then show ?case by simp
next
  case (Cons a as)
  then obtain b bs' c cs' where e: "bs = b # bs'" "cs = c # cs'" by (metis length_Suc_conv)
  then have "a < b \<or> a = b \<and> memcmp as bs' < 0" "b < c \<or> b = c \<and> memcmp bs' cs' < 0"
    using Cons.prems(3,4) by (auto split: if_splits)
  moreover have "memcmp as bs' < 0 \<Longrightarrow> memcmp bs' cs' < 0 \<Longrightarrow> memcmp as cs' < 0" using Cons.prems(1,2) e by (intro Cons.IH [of bs' cs']) simp_all
  ultimately have "a < c \<or> a = c \<and> memcmp as cs' < 0" by auto
  then show ?case unfolding e by auto
qed

text \<open>The addresses of a length that lies within their memory.\<close>

definition of_len :: "nat \<Rightarrow> address \<Rightarrow> bool" where
  "of_len n a \<longleftrightarrow> getAddrLen a = n \<and> n \<le> length (getAddr a)"

lemma of_len_wf: "wf_address a \<Longrightarrow> of_len (getAddrLen a) a"
  by (cases a) (auto simp: wf_address_def of_len_def raw_in_def raw_in6_def raw_un_def raw_sa_def SUN_OFFSET_def)

definition head_bytes :: "address \<Rightarrow> byte list" where
  "head_bytes a = take (getAddrLen a) (getAddr a)"

lemma addr_less_of_len: "of_len n a \<Longrightarrow> of_len n b \<Longrightarrow> addr_less a b \<longleftrightarrow> memcmp (head_bytes a) (head_bytes b) < 0"
  by (simp add: of_len_def addr_less_def head_bytes_def)

lemma addr_eq_of_len: "of_len n a \<Longrightarrow> of_len n b \<Longrightarrow> addr_eq a b \<longleftrightarrow> head_bytes a = head_bytes b"
  by (simp add: of_len_def addr_eq_def head_bytes_def memcmp_eq_0)

lemma length_head_bytes: "of_len n a \<Longrightarrow> length (head_bytes a) = n"
  by (simp add: of_len_def head_bytes_def)

lemma addr_less_order:
  assumes "of_len n a" "of_len n b" "of_len n c"
  shows "\<not> addr_less a a" "addr_less a b \<Longrightarrow> addr_less b c \<Longrightarrow> addr_less a c" "addr_less a b \<or> addr_eq a b \<or> addr_less b a"
proof -
  note l = length_head_bytes
  show "\<not> addr_less a a" using assms by (simp add: addr_less_of_len)
  show "addr_less a c" if "addr_less a b" "addr_less b c"
    using that memcmp_trans [of "head_bytes a" "head_bytes b" "head_bytes c"] assms l by (simp add: addr_less_of_len)
  show "addr_less a b \<or> addr_eq a b \<or> addr_less b a"
    using assms memcmp_swap [of "head_bytes b" "head_bytes a"] memcmp_eq_0 [of "head_bytes a" "head_bytes b"] l [OF assms(1)] l [OF assms(2)]
    by (simp add: addr_less_of_len addr_eq_of_len) linarith
qed

lemma addr_less_families:
  assumes "wf_address (IPv4Address a)" "wf_address (IPv6Address b)"
  shows "\<not> addr_less (IPv4Address a) (IPv6Address b) \<and> \<not> addr_less (IPv6Address b) (IPv4Address a) \<and> \<not> addr_eq (IPv4Address a) (IPv6Address b)"
proof -
  have f: "sin_family a = 2" "sin6_family b = 10" using assms by (simp_all add: wf_address_def AF_defs)
  have e: "le_bytes (2 :: u16) = [2, 0]" "le_bytes (10 :: u16) = [10, 0]" by (simp_all add: le_bytes_def upt_rec drop_bit_eq_div)
  show ?thesis by (simp add: addr_less_def addr_eq_def raw_in_def raw_in6_def f e)
qed

text \<open>
  The order and the equality of addresses. Among addresses of one length \<open>operator<\<close> is a strict total order whose equivalence is
  \<open>operator==\<close>. It is no order on all addresses: an IPv4 and an IPv6 address are never less one than the other, so each is
  equivalent to the other although they differ, while two IPv4 addresses may be in order.
\<close>

theorem address_order:
  assumes "of_len n a" "of_len n b" "of_len n c" "wf_address (IPv4Address v4)" "wf_address (IPv6Address v6)"
  shows "\<not> addr_less a a \<and> (addr_less a b \<longrightarrow> \<not> addr_less b a) \<and> (addr_less a b \<and> addr_less b c \<longrightarrow> addr_less a c) \<and>
    ((\<not> addr_less a b \<and> \<not> addr_less b a) = addr_eq a b) \<and>
    \<not> addr_less (IPv4Address v4) (IPv6Address v6) \<and> \<not> addr_less (IPv6Address v6) (IPv4Address v4) \<and>
    \<not> addr_eq (IPv4Address v4) (IPv6Address v6)"
proof -
  note less = addr_less_order
  have "\<not> addr_less a a" by (rule less(1) [OF assms(1,1,1)])
  moreover have "addr_less a b \<longrightarrow> \<not> addr_less b a" using less(1,2) [OF assms(1,2,1)] by blast
  moreover have "addr_less a b \<and> addr_less b c \<longrightarrow> addr_less a c" using less(2) [OF assms(1-3)] by blast
  moreover have "(\<not> addr_less a b \<and> \<not> addr_less b a) = addr_eq a b"
  proof
    show "addr_eq a b" if "\<not> addr_less a b \<and> \<not> addr_less b a" using that less(3) [OF assms(1-3)] by blast
    show "\<not> addr_less a b \<and> \<not> addr_less b a" if "addr_eq a b"
      using that assms(1,2) by (simp add: addr_less_of_len addr_eq_of_len)
  qed
  ultimately show ?thesis using addr_less_families [OF assms(4,5)] by blast
qed

theorem address_order_witness:
  "addr_less (IPv4Address (new_IPv4Address 0x7f000001 0)) (IPv4Address (new_IPv4Address 0x7f000002 0)) \<and>
   \<not> addr_less (IPv4Address (new_IPv4Address 0x7f000001 0)) (IPv6Address (new_IPv6Address (replicate 16 0) 80))"
proof -
  let ?a = "IPv4Address (new_IPv4Address 0x7f000001 0)" and ?b = "IPv4Address (new_IPv4Address 0x7f000002 0)"
  have "of_len 16 ?a" "of_len 16 ?b" by (simp_all add: of_len_def raw_in_def new_IPv4Address_def)
  moreover have "addr_less ?a ?b" by code_simp
  ultimately show ?thesis
    using address_order [of 16 ?a ?b ?a "new_IPv4Address 0x7f000001 0" "new_IPv6Address (replicate 16 0) 80"]
      wf_new_addresses(1) [of "0x7f000001" 0] wf_new_addresses(2) [of "replicate 16 0" 80]
    by simp
qed

section \<open>The parts of a host\<close>

lemma find_char_append:
  assumes "c \<notin> set as"
  shows "find_char c (as @ c # bs) = Some (length as)"
proof -
  have "(as @ c # bs) ! i \<noteq> c" if "i < length as" for i
    using that assms nth_mem [of i as] by (auto simp: nth_append)
  then show ?thesis unfolding find_char_def find_Some_iff by (intro exI [of _ "length as"]) (simp del: upt_Suc)
qed

lemma find_char_None: "c \<notin> set s \<Longrightarrow> find_char c s = None"
  unfolding find_char_def find_None_iff by (auto simp: in_set_conv_nth)

text \<open>
  The parts of a host. Its text is the node alone, the node and a service after a colon, a node in brackets or both in
  brackets; but a colon inside or behind the brackets is read as the separator too, so the usual text of an IPv6
  address with a port is cut in the wrong place, and so is a host in brackets with a port.
\<close>

theorem split_host_forms:
  assumes "set node \<inter> set '':[]'' = {}" "set service \<inter> set '':[]'' = {}" "node \<noteq> []"
  shows "split_host node = Inr (node, []) \<and> split_host (node @ '':'' @ service) = Inr (node, service) \<and>
    split_host (''['' @ node @ '']'') = Inr (node, []) \<and> split_host (''['' @ node @ '':'' @ service @ '']'') = Inr (node, service) \<and>
    (length service > 0 \<longrightarrow> split_host (''['' @ node @ '']:'' @ service) = Inr (node @ '']'', butlast service)) \<and>
    split_host ''[::1]:80'' = Inr ([], '':1]:8'')"
proof -
  have n: "CHR '':'' \<notin> set node" "CHR ''['' \<notin> set node" "CHR '']'' \<notin> set node" using assms(1) by auto
  have s: "CHR '':'' \<notin> set service" "CHR ''['' \<notin> set service" "CHR '']'' \<notin> set service" using assms(2) by auto
  have "split_host node = Inr (node, [])" using assms(3) n by (simp add: split_host_def find_char_None)
  moreover have "split_host (node @ '':'' @ service) = Inr (node, service)"
  proof -
    have "find_char CHR '':'' (node @ '':'' @ service) = Some (length node)" using find_char_append [OF n(1)] by simp
    moreover have "find_char CHR '']'' (node @ '':'' @ service) = None" using n s by (intro find_char_None) simp
    ultimately show ?thesis by (simp add: split_host_def substr_def)
  qed
  moreover have "split_host (''['' @ node @ '']'') = Inr (node, [])"
  proof -
    have "find_char CHR '':'' (''['' @ node @ '']'') = None" using n by (intro find_char_None) simp
    moreover have "find_char CHR '']'' (''['' @ node @ '']'') = Some (length node + 1)"
      using find_char_append [of "CHR '']''" "''['' @ node" "[]"] n by simp
    moreover have "find_char CHR ''['' (''['' @ node @ '']'') = Some 0"
      using find_char_append [of "CHR ''[''" "[]"] by simp
    ultimately show ?thesis by (simp add: split_host_def substr_def)
  qed
  moreover have "split_host (''['' @ node @ '':'' @ service @ '']'') = Inr (node, service)"
  proof -
    have "find_char CHR '':'' (''['' @ node @ '':'' @ service @ '']'') = Some (length node + 1)"
      using find_char_append [of "CHR '':''" "''['' @ node"] n by simp
    moreover have "find_char CHR '']'' (''['' @ node @ '':'' @ service @ '']'') = Some (length node + length service + 2)"
      using find_char_append [of "CHR '']''" "''['' @ node @ '':'' @ service" "[]"] n s by simp
    moreover have "find_char CHR ''['' (''['' @ node @ '':'' @ service @ '']'') = Some 0"
      using find_char_append [of "CHR ''[''" "[]"] by simp
    ultimately show ?thesis by (simp add: split_host_def substr_def)
  qed
  moreover have "split_host (''['' @ node @ '']:'' @ service) = Inr (node @ '']'', butlast service)" if service: "length service > 0"
  proof -
    have "find_char CHR '':'' (''['' @ node @ '']:'' @ service) = Some (length node + 2)"
      using find_char_append [of "CHR '':''" "''['' @ node @ '']''"] n by simp
    moreover have "find_char CHR '']'' (''['' @ node @ '']:'' @ service) = Some (length node + 1)"
      using find_char_append [of "CHR '']''" "''['' @ node"] n by simp
    moreover have "find_char CHR ''['' (''['' @ node @ '']:'' @ service) = Some 0"
      using find_char_append [of "CHR ''[''" "[]"] by simp
    moreover have "size_sub (Suc (Suc (Suc (length node + length service)))) (Suc (Suc (Suc (Suc (length node))))) = length service - 1" using service by (cases service) (simp_all add: size_sub_def)
    ultimately show ?thesis by (simp add: split_host_def substr_def butlast_conv_take)
  qed
  moreover have "split_host ''[::1]:80'' = Inr ([], '':1]:8'')" by code_simp
  ultimately show ?thesis by blast
qed

theorem split_host_forms_witness:
  "split_host ''[localhost:http]'' = Inr (''localhost'', ''http'') \<and> split_host ''[localhost]:http'' = Inr (''localhost]'', ''htt'')"
  using split_host_forms [of "''localhost''" "''http''"] by simp

end
