(* ===== verification/FdManager.thy ===== *)
theory FdManager imports Prelude begin

text \<open>
  What the hooks know of file descriptors (\<^verbatim>\<open>seaice/fd_manager.h\<close>, \<^verbatim>\<open>fd_manager.cpp\<close>): a context for each
  descriptor and the table of them. The three calls to the kernel are parameters over its state. The contexts are shared
  objects that only the table and its callers' local pointers hold, so a caller's change is a change of the table's entry.
\<close>

section \<open>Contexts\<close>

text \<open>\<open>fstat\<close> answers \<open>None\<close> when it fails and otherwise whether the descriptor is a socket.\<close>

record 'k fd_sys =
  sys_fstat :: "int \<Rightarrow> 'k \<Rightarrow> bool option"
  sys_getfl :: "int \<Rightarrow> 'k \<Rightarrow> u32"
  sys_setfl :: "int \<Rightarrow> u32 \<Rightarrow> 'k \<Rightarrow> 'k"

record fd_info =
  fx_fd :: int
  fx_isInit :: bool
  fx_isSocket :: bool
  fx_sysNonBlock :: bool
  fx_userNonBlock :: bool
  fx_isClosed :: bool
  fx_recvTimeout :: u64
  fx_sendTimeout :: u64

definition O_NONBLOCK :: u32 where "O_NONBLOCK = 0x800"
definition SO_RCVTIMEO :: int where "SO_RCVTIMEO = 20"
definition SO_SNDTIMEO :: int where "SO_SNDTIMEO = 21"

definition FdCtx_init :: "'k fd_sys \<Rightarrow> fd_info \<Rightarrow> 'k \<Rightarrow> bool \<times> fd_info \<times> 'k" where
  "FdCtx_init sys c k =
     (if fx_isInit c then (True, c, k)
      else
        let c = c\<lparr>fx_recvTimeout := - 1, fx_sendTimeout := - 1\<rparr>;
            c = (case sys_fstat sys (fx_fd c) k of
                   None \<Rightarrow> c\<lparr>fx_isInit := False, fx_isSocket := False\<rparr>
                 | Some is_sock \<Rightarrow> c\<lparr>fx_isInit := True, fx_isSocket := is_sock\<rparr>);
            (c, k) =
              (if fx_isSocket c then
                 let flags = sys_getfl sys (fx_fd c) k in
                 (c\<lparr>fx_sysNonBlock := True\<rparr>,
                  if flags AND O_NONBLOCK = 0 then sys_setfl sys (fx_fd c) (flags OR O_NONBLOCK) k else k)
               else (c\<lparr>fx_sysNonBlock := False\<rparr>, k));
            c = c\<lparr>fx_userNonBlock := False, fx_isClosed := False\<rparr>
        in (fx_isInit c, c, k))"

definition new_FdCtx :: "'k fd_sys \<Rightarrow> int \<Rightarrow> 'k \<Rightarrow> fd_info \<times> 'k" where
  "new_FdCtx sys fd k =
     snd (FdCtx_init sys \<lparr>fx_fd = fd, fx_isInit = False, fx_isSocket = False, fx_sysNonBlock = False, fx_userNonBlock = False,
       fx_isClosed = False, fx_recvTimeout = - 1, fx_sendTimeout = - 1\<rparr> k)"

definition setTimeout :: "int \<Rightarrow> u64 \<Rightarrow> fd_info \<Rightarrow> fd_info" where
  "setTimeout ty v c = (if ty = SO_RCVTIMEO then c\<lparr>fx_recvTimeout := v\<rparr> else c\<lparr>fx_sendTimeout := v\<rparr>)"

definition getTimeout :: "int \<Rightarrow> fd_info \<Rightarrow> u64" where
  "getTimeout ty c = (if ty = SO_RCVTIMEO then fx_recvTimeout c else fx_sendTimeout c)"

section \<open>The table\<close>

type_synonym fd_table = "fd_info option list"

definition new_FdManager :: fd_table where
  "new_FdManager = replicate 64 None"

text \<open>\<^verbatim>\<open>get\<close>: the comparison with the size lets through the first index behind the table.\<close>

definition fm_create :: "'k fd_sys \<Rightarrow> int \<Rightarrow> fd_table \<Rightarrow> 'k \<Rightarrow> fault + fd_info option \<times> fd_table \<times> 'k" where
  "fm_create sys fd m k =
     (let (c, k) = new_FdCtx sys fd k;
          n = nat (fd * 3 div 2);
          m = (if fd \<ge> int (length m) then take n m @ replicate (n - length m) None else m)
      in if fd < 0 \<or> int (length m) \<le> fd then Inl OutOfBounds else Inr (Some c, m[nat fd := Some c], k))"

definition fm_get :: "'k fd_sys \<Rightarrow> int \<Rightarrow> bool \<Rightarrow> fd_table \<Rightarrow> 'k \<Rightarrow> fault + fd_info option \<times> fd_table \<times> 'k" where
  "fm_get sys fd auto_create m k =
     (if fd = - 1 then Inr (None, m, k)
      else if int (length m) < fd then
        (if \<not> auto_create then Inr (None, m, k) else fm_create sys fd m k)
      else if fd < 0 \<or> int (length m) \<le> fd then Inl OutOfBounds
      else if m ! nat fd \<noteq> None \<or> \<not> auto_create then Inr (m ! nat fd, m, k)
      else fm_create sys fd m k)"

definition fm_del :: "int \<Rightarrow> fd_table \<Rightarrow> fault + fd_table" where
  "fm_del fd m =
     (if int (length m) \<le> fd then Inr m
      else if fd < 0 then Inl OutOfBounds
      else Inr (m[nat fd := None]))"

section \<open>Lemmas\<close>

lemma new_FdCtx_facts:
  "fx_fd (fst (new_FdCtx sys fd k)) = fd" "fx_userNonBlock (fst (new_FdCtx sys fd k)) = False" "fx_isClosed (fst (new_FdCtx sys fd k)) = False"
  "fx_sysNonBlock (fst (new_FdCtx sys fd k)) = fx_isSocket (fst (new_FdCtx sys fd k))"
  "fx_isSocket (fst (new_FdCtx sys fd k)) = (sys_fstat sys fd k = Some True)"
  "getTimeout ty (fst (new_FdCtx sys fd k)) = - 1"
  by (auto simp: new_FdCtx_def FdCtx_init_def Let_def getTimeout_def split: option.split)

lemma fm_create_ok:
  assumes "64 \<le> length m" and "0 \<le> fd"
  obtains m' k' where "fm_create sys fd m k = Inr (Some (fst (new_FdCtx sys fd k)), m', k')" "length m \<le> length m'" "nat fd < length m'"
    "m' ! nat fd = Some (fst (new_FdCtx sys fd k))" "\<forall>i < length m. i \<noteq> nat fd \<longrightarrow> m' ! i = m ! i" "\<forall>i. length m \<le> i \<and> i < length m' \<and> i \<noteq> nat fd \<longrightarrow> m' ! i = None"
proof -
  let ?n = "nat (fd * 3 div 2)"
  let ?m = "if fd \<ge> int (length m) then take ?n m @ replicate (?n - length m) None else m"
  have n: "fd \<ge> int (length m) \<Longrightarrow> length m \<le> ?n \<and> fd < int ?n" using assms by auto
  then have len: "length m \<le> length ?m" "fd < int (length ?m)" by auto
  then have idx: "nat fd < length ?m" using assms(2) by (simp add: nat_less_iff)
  have nth: "i < length m \<Longrightarrow> ?m ! i = m ! i" "length m \<le> i \<Longrightarrow> i < length ?m \<Longrightarrow> ?m ! i = None" for i
    using n by (auto simp: nth_append)
  have "fm_create sys fd m k = Inr (Some (fst (new_FdCtx sys fd k)), ?m[nat fd := Some (fst (new_FdCtx sys fd k))], snd (new_FdCtx sys fd k))"
    using len(2) assms(2) unfolding fm_create_def Let_def split_beta by (simp add: not_le)
  then show thesis by (rule that) (use len idx nth in \<open>simp_all add: nth_list_update\<close>)
qed

section \<open>Property\<close>

text \<open>
  The table of descriptors. Asking for a descriptor with creation gives a context for it that asking again gives back,
  changes no other entry and makes every socket non-blocking for the kernel but blocking for its user; a deleted descriptor
  is gone. The first descriptor behind the table, though, is not created: the lookup reads outside it.
\<close>

theorem fd_table_get:
  assumes "64 \<le> length m" and "0 \<le> fd" and "fd \<noteq> int (length m)"
  shows "\<exists>c m' k'. fm_get sys fd True m k = Inr (Some c, m', k') \<and> fm_get sys fd create m' k' = Inr (Some c, m', k') \<and>
    (\<forall>i. i < length m \<and> i \<noteq> nat fd \<longrightarrow> m' ! i = m ! i) \<and>
    (if fd < int (length m) \<and> m ! nat fd \<noteq> None then m' = m \<and> Some c = m ! nat fd
     else fx_fd c = fd \<and> \<not> fx_userNonBlock c \<and> fx_sysNonBlock c = (sys_fstat sys fd k = Some True)) \<and>
    (\<exists>m''. fm_del fd m' = Inr m'' \<and> fm_get sys fd False m'' k' = Inr (None, m'', k')) \<and>
    fm_get sys (int (length m)) create m k = Inl OutOfBounds"
proof (cases "fd < int (length m) \<and> m ! nat fd \<noteq> None")
  case True
  then have "fm_get sys fd c m k = Inr (m ! nat fd, m, k)" for c using assms by (auto simp: fm_get_def)
  then show ?thesis using True assms by (auto simp: fm_get_def fm_del_def nat_less_iff)
next
  case False
  obtain m' k' where c: "fm_create sys fd m k = Inr (Some (fst (new_FdCtx sys fd k)), m', k')" "length m \<le> length m'" "nat fd < length m'"
    "m' ! nat fd = Some (fst (new_FdCtx sys fd k))" "\<forall>i < length m. i \<noteq> nat fd \<longrightarrow> m' ! i = m ! i"
    using fm_create_ok [OF assms(1,2)] by metis
  have g: "fm_get sys fd True m k = Inr (Some (fst (new_FdCtx sys fd k)), m', k')"
    using c(1) False assms by (auto simp: fm_get_def)
  have fd: "\<not> int (length m') < fd" "\<not> int (length m') \<le> fd" using c(3) assms(2) by linarith+
  have "fm_get sys fd create m' k' = Inr (Some (fst (new_FdCtx sys fd k)), m', k')"
    using fd c(4) assms(2) by (simp add: fm_get_def)
  moreover have "fm_del fd m' = Inr (m'[nat fd := None]) \<and> fm_get sys fd False (m'[nat fd := None]) k' = Inr (None, m'[nat fd := None], k')"
    using fd c(3) assms(2) by (simp add: fm_get_def fm_del_def)
  ultimately show ?thesis using g c(5) False assms new_FdCtx_facts(1-5) [of sys fd k] by (auto simp: fm_get_def)
qed

definition toy_sys :: "u32 fd_sys" where
  "toy_sys = \<lparr>sys_fstat = (\<lambda>fd k. Some (fd = 5)), sys_getfl = (\<lambda>fd k. k), sys_setfl = (\<lambda>fd fl k. fl)\<rparr>"

lemma fd_table_get_witness:
  "\<exists>c m' k'. fm_get toy_sys 5 True new_FdManager 0 = Inr (Some c, m', k') \<and> fx_sysNonBlock c \<and> \<not> fx_userNonBlock c"
  using fd_table_get [where m = new_FdManager and fd = 5 and sys = toy_sys and k = 0 and create = True] by (auto simp: new_FdManager_def toy_sys_def)

end
