(* ===== verification/Socket.thy ===== *)
theory Socket imports Address FdManager StreamIO begin

text \<open>
  Sockets (\<^verbatim>\<open>seaice/socket.h\<close>, \<^verbatim>\<open>seaice/socket.cpp\<close>): a descriptor, the flag that says it is connected, and the two addresses that
  are remembered. The calls of the system, which the hooks provide, are the parameter \<open>net\<close> over a state of any type;
  \<open>n_ctx\<close> is what the table of descriptors knows of a descriptor. An address is filled in by the system: \<open>n_sockname fd a s\<close> is the object \<open>a\<close>
  after the call with the length that was stored, or \<open>None\<close> when the call fails. Sockets over TLS take the calls of OpenSSL as a parameter.
\<close>

section \<open>The system\<close>

record 's net =
  n_socket :: "u16 \<Rightarrow> int \<Rightarrow> int \<Rightarrow> 's \<Rightarrow> int \<times> 's"
  n_setopt :: "int \<Rightarrow> int \<Rightarrow> int \<Rightarrow> 's \<Rightarrow> int \<times> 's"
  n_error :: "int \<Rightarrow> 's \<Rightarrow> int option"
  n_settime :: "int \<Rightarrow> int \<Rightarrow> u64 \<Rightarrow> u64 \<Rightarrow> 's \<Rightarrow> 's"
  n_bind :: "int \<Rightarrow> address \<Rightarrow> 's \<Rightarrow> int \<times> 's"
  n_listen :: "int \<Rightarrow> int \<Rightarrow> 's \<Rightarrow> int \<times> 's"
  n_accept :: "int \<Rightarrow> 's \<Rightarrow> int \<times> 's"
  n_connect :: "int \<Rightarrow> address \<Rightarrow> u64 option \<Rightarrow> 's \<Rightarrow> int \<times> 's"
  n_close :: "int \<Rightarrow> 's \<Rightarrow> 's"
  n_recv :: "int \<Rightarrow> nat \<Rightarrow> 's \<Rightarrow> int \<times> byte list \<times> 's"
  n_send :: "int \<Rightarrow> byte list \<Rightarrow> 's \<Rightarrow> int \<times> 's"
  n_recvfrom :: "int \<Rightarrow> nat \<Rightarrow> address \<Rightarrow> 's \<Rightarrow> int \<times> byte list \<times> 's"
  n_sendto :: "int \<Rightarrow> byte list \<Rightarrow> address \<Rightarrow> 's \<Rightarrow> int \<times> 's"
  n_sockname :: "int \<Rightarrow> address \<Rightarrow> 's \<Rightarrow> (address \<times> nat) option"
  n_peername :: "int \<Rightarrow> address \<Rightarrow> 's \<Rightarrow> (address \<times> nat) option"
  n_ctx :: "int \<Rightarrow> 's \<Rightarrow> fault + fd_info option"

definition TCP :: int where "TCP = 1"
definition UDP :: int where "UDP = 2"
definition SOL_SOCKET :: int where "SOL_SOCKET = 1"
definition SO_REUSEADDR :: int where "SO_REUSEADDR = 2"
definition IPPROTO_TCP :: int where "IPPROTO_TCP = 6"
definition TCP_NODELAY :: int where "TCP_NODELAY = 1"

section \<open>The object\<close>

record socket =
  sk_family :: u16
  sk_type :: int
  sk_protocol :: int
  sk_sock :: int
  sk_connected :: bool
  sk_local :: "address option"
  sk_remote :: "address option"

definition new_Socket :: "u16 \<Rightarrow> int \<Rightarrow> int \<Rightarrow> socket" where
  "new_Socket family ty protocol =
     \<lparr>sk_family = family, sk_type = ty, sk_protocol = protocol, sk_sock = - 1, sk_connected = False, sk_local = None, sk_remote = None\<rparr>"

definition isValid :: "socket \<Rightarrow> bool" where
  "isValid sk \<longleftrightarrow> sk_sock sk \<noteq> - 1"

definition initSockOpt :: "'s net \<Rightarrow> socket \<Rightarrow> 's \<Rightarrow> 's" where
  "initSockOpt net sk s =
     (let s = snd (n_setopt net (sk_sock sk) SOL_SOCKET SO_REUSEADDR s) in
      if sk_type sk = TCP then snd (n_setopt net (sk_sock sk) IPPROTO_TCP TCP_NODELAY s) else s)"

definition newSock :: "'s net \<Rightarrow> socket \<Rightarrow> 's \<Rightarrow> socket \<times> 's" where
  "newSock net sk s =
     (let (fd, s) = n_socket net (sk_family sk) (sk_type sk) (sk_protocol sk) s;
          sk = sk\<lparr>sk_sock := fd\<rparr>
      in (sk, initSockOpt net sk s))"

definition CreateTCP :: "address \<Rightarrow> socket" where
  "CreateTCP a = new_Socket (getFamily a) TCP 0"

definition CreateUDP :: "'s net \<Rightarrow> address \<Rightarrow> 's \<Rightarrow> socket \<times> 's" where
  "CreateUDP net a s = (let (sk, s) = newSock net (new_Socket (getFamily a) UDP 0) s in (sk\<lparr>sk_connected := True\<rparr>, s))"

definition CreateTCPSocket :: socket where "CreateTCPSocket = new_Socket AF_INET TCP 0"
definition CreateTCPSocket6 :: socket where "CreateTCPSocket6 = new_Socket AF_INET6 TCP 0"

definition CreateUDPSocket :: "'s net \<Rightarrow> 's \<Rightarrow> socket \<times> 's" where
  "CreateUDPSocket net s = (let (sk, s) = newSock net (new_Socket AF_INET UDP 0) s in (sk\<lparr>sk_connected := True\<rparr>, s))"

definition CreateUDPSocket6 :: "'s net \<Rightarrow> 's \<Rightarrow> socket \<times> 's" where
  "CreateUDPSocket6 net s = (let (sk, s) = newSock net (new_Socket AF_INET6 UDP 0) s in (sk\<lparr>sk_connected := True\<rparr>, s))"

definition CreateUinxTCPSocket :: socket where "CreateUinxTCPSocket = new_Socket AF_UNIX TCP 0"
definition CreateUinxUDPSocket :: socket where "CreateUinxUDPSocket = new_Socket AF_UNIX UDP 0"

section \<open>Addresses\<close>

text \<open>The object that the system is given to fill in, and the length that only a Unix address takes over.\<close>

definition blank_address :: "u16 \<Rightarrow> address" where
  "blank_address family =
     (if family = AF_INET then IPv4Address (new_IPv4Address 0 0)
      else if family = AF_INET6 then IPv6Address (new_IPv6Address (replicate 16 0) 0)
      else if family = AF_UNIX then (case new_UnixAddress of (a, len) \<Rightarrow> UnixAddress a len)
      else UnknowAddress (new_UnknowAddress 0))"

definition filled_address :: "u16 \<Rightarrow> (address \<times> nat) option \<Rightarrow> address option" where
  "filled_address family r =
     (case r of
        None \<Rightarrow> None
      | Some (a, len) \<Rightarrow>
          Some (if family = AF_UNIX then (case a of UnixAddress u l \<Rightarrow> (case setAddrLen len (u, l) of (u, l) \<Rightarrow> UnixAddress u l) | _ \<Rightarrow> a) else a))"

definition getLocalAddress :: "'s net \<Rightarrow> socket \<Rightarrow> 's \<Rightarrow> address \<times> socket" where
  "getLocalAddress net sk s =
     (case sk_local sk of
        Some a \<Rightarrow> (a, sk)
      | None \<Rightarrow>
          (case filled_address (sk_family sk) (n_sockname net (sk_sock sk) (blank_address (sk_family sk)) s) of
             None \<Rightarrow> (UnknowAddress (new_UnknowAddress (sk_family sk)), sk)
           | Some a \<Rightarrow> (a, sk\<lparr>sk_local := Some a\<rparr>)))"

definition getRemoteAddress :: "'s net \<Rightarrow> socket \<Rightarrow> 's \<Rightarrow> address \<times> socket" where
  "getRemoteAddress net sk s =
     (case sk_remote sk of
        Some a \<Rightarrow> (a, sk)
      | None \<Rightarrow>
          (case filled_address (sk_family sk) (n_peername net (sk_sock sk) (blank_address (sk_family sk)) s) of
             None \<Rightarrow> (UnknowAddress (new_UnknowAddress (sk_family sk)), sk)
           | Some a \<Rightarrow> (a, sk\<lparr>sk_remote := Some a\<rparr>)))"

section \<open>Operations\<close>

definition sk_bind :: "'s net \<Rightarrow> address \<Rightarrow> socket \<Rightarrow> 's \<Rightarrow> bool \<times> socket \<times> 's" where
  "sk_bind net a sk s =
     (let (sk, s) = (if \<not> isValid sk then newSock net sk s else (sk, s)) in
      if sk_sock sk = - 1 then (False, sk, s)
      else
        let (rt, s) = n_bind net (sk_sock sk) a s in
        if rt = - 1 then (False, sk, s)
        else (True, snd (getLocalAddress net sk s), s))"

text \<open>The test of the result: only -1 is a failure.\<close>

definition sk_listen :: "'s net \<Rightarrow> int \<Rightarrow> socket \<Rightarrow> 's \<Rightarrow> bool \<times> 's" where
  "sk_listen net backlog sk s =
     (if \<not> isValid sk then (False, s)
      else let (rt, s) = n_listen net (sk_sock sk) backlog s in (rt = 0, s))"

text \<open>The first test means -1 and says 1, so it keeps the descriptor 1 open.\<close>

definition sk_close :: "'s net \<Rightarrow> socket \<Rightarrow> 's \<Rightarrow> bool \<times> socket \<times> 's" where
  "sk_close net sk s =
     (if sk_sock sk = 1 \<and> \<not> sk_connected sk then (True, sk, s)
      else
        let sk = sk\<lparr>sk_connected := False\<rparr> in
        if sk_sock sk \<noteq> - 1 then (False, sk\<lparr>sk_sock := - 1\<rparr>, n_close net (sk_sock sk) s)
        else (False, sk, s))"

definition sk_destroy :: "'s net \<Rightarrow> socket \<Rightarrow> 's \<Rightarrow> 's" where
  "sk_destroy net sk s = snd (snd (sk_close net sk s))"

text \<open>\<open>timeout_ms\<close> is \<open>- 1\<close> for a connect without a timeout.\<close>

definition sk_connect :: "'s net \<Rightarrow> address \<Rightarrow> u64 \<Rightarrow> socket \<Rightarrow> 's \<Rightarrow> bool \<times> socket \<times> 's" where
  "sk_connect net a timeout_ms sk s =
     (let (sk, s) = (if \<not> isValid sk then newSock net sk s else (sk, s)) in
      if sk_sock sk = - 1 then (False, sk, s)
      else if getFamily a \<noteq> sk_family sk then (False, sk, s)
      else
        let sk = sk\<lparr>sk_remote := Some a\<rparr>;
            (rt, s) = n_connect net (sk_sock sk) a (if timeout_ms = - 1 then None else Some timeout_ms) s in
        if rt \<noteq> 0 then (case sk_close net sk s of (_, sk, s) \<Rightarrow> (False, sk, s))
        else
          let sk = sk\<lparr>sk_connected := True\<rparr>;
              sk = snd (getRemoteAddress net sk s)
          in (True, snd (getLocalAddress net sk s), s))"

definition sk_init :: "'s net \<Rightarrow> int \<Rightarrow> socket \<Rightarrow> 's \<Rightarrow> fault + (bool \<times> socket \<times> 's)" where
  "sk_init net fd sk s =
     rbind (n_ctx net fd s) (\<lambda>ctx.
       case ctx of
         None \<Rightarrow> Inr (False, sk, s)
       | Some c \<Rightarrow>
           if fx_isSocket c \<and> \<not> fx_isClosed c then
             let sk = sk\<lparr>sk_sock := fd, sk_connected := True\<rparr>;
                 s = initSockOpt net sk s;
                 sk = snd (getLocalAddress net sk s)
             in Inr (True, snd (getRemoteAddress net sk s), s)
           else Inr (False, sk, s))"

text \<open>A new socket that does not become one is destroyed: it has no descriptor, so the accepted one stays open.\<close>

definition sk_accept :: "'s net \<Rightarrow> socket \<Rightarrow> 's \<Rightarrow> fault + (socket option \<times> 's)" where
  "sk_accept net sk s =
     (let new = new_Socket (sk_family sk) (sk_type sk) (sk_protocol sk);
          (newsock, s) = n_accept net (sk_sock sk) s in
      rbind (sk_init net newsock new s) (\<lambda>(ok, new, s).
        if ok then Inr (Some new, s) else Inr (None, sk_destroy net new s)))"

section \<open>Transfer\<close>

text \<open>The calls on one buffer and on a vector of buffers transfer the same bytes: a vector is its contents or its room.\<close>

definition sk_send :: "'s net \<Rightarrow> byte list \<Rightarrow> socket \<Rightarrow> 's \<Rightarrow> int \<times> 's" where
  "sk_send net bs sk s = (if sk_connected sk then n_send net (sk_sock sk) bs s else (- 1, s))"

definition sk_recv :: "'s net \<Rightarrow> nat \<Rightarrow> socket \<Rightarrow> 's \<Rightarrow> int \<times> byte list \<times> 's" where
  "sk_recv net n sk s = (if sk_connected sk then n_recv net (sk_sock sk) n s else (- 1, [], s))"

definition sk_sendTo :: "'s net \<Rightarrow> byte list \<Rightarrow> address \<Rightarrow> socket \<Rightarrow> 's \<Rightarrow> int \<times> 's" where
  "sk_sendTo net bs a sk s = (if sk_connected sk then n_sendto net (sk_sock sk) bs a s else (- 1, s))"

text \<open>The length of the address hides the length of the buffer, so at most so many bytes are taken.\<close>

definition sk_recvFrom :: "'s net \<Rightarrow> nat \<Rightarrow> address \<Rightarrow> socket \<Rightarrow> 's \<Rightarrow> int \<times> byte list \<times> 's" where
  "sk_recvFrom net n a sk s =
     (if sk_connected sk then let len = getAddrLen a in n_recvfrom net (sk_sock sk) len a s else (- 1, [], s))"

text \<open>The call on a vector ends without a return statement when the socket is not connected.\<close>

definition sk_recvFrom_vec :: "'s net \<Rightarrow> nat \<Rightarrow> address \<Rightarrow> socket \<Rightarrow> 's \<Rightarrow> fault + (int \<times> byte list \<times> 's)" where
  "sk_recvFrom_vec net n a sk s =
     (if sk_connected sk then Inr (n_recvfrom net (sk_sock sk) n a s) else Inl NoReturn)"

definition setSendTimeout :: "'s net \<Rightarrow> u64 \<Rightarrow> socket \<Rightarrow> 's \<Rightarrow> 's" where
  "setSendTimeout net ms sk s = n_settime net (sk_sock sk) SO_SNDTIMEO (ms div 1000) ((ms mod 1000) * 1000) s"

definition setRecvTimeout :: "'s net \<Rightarrow> u64 \<Rightarrow> socket \<Rightarrow> 's \<Rightarrow> 's" where
  "setRecvTimeout net ms sk s = n_settime net (sk_sock sk) SO_RCVTIMEO (ms div 1000) ((ms mod 1000) * 1000) s"

definition getSendTimerout :: "'s net \<Rightarrow> socket \<Rightarrow> 's \<Rightarrow> fault + u64" where
  "getSendTimerout net sk s =
     rbind (n_ctx net (sk_sock sk) s) (\<lambda>ctx. Inr (case ctx of Some c \<Rightarrow> getTimeout SO_SNDTIMEO c | None \<Rightarrow> - 1))"

definition getRecvTimeout :: "'s net \<Rightarrow> socket \<Rightarrow> 's \<Rightarrow> fault + u64" where
  "getRecvTimeout net sk s =
     rbind (n_ctx net (sk_sock sk) s) (\<lambda>ctx. Inr (case ctx of Some c \<Rightarrow> getTimeout SO_RCVTIMEO c | None \<Rightarrow> - 1))"

text \<open>\<open>err\<close> is \<^verbatim>\<open>errno\<close>, which the failed call has set.\<close>

definition getError :: "'s net \<Rightarrow> int \<Rightarrow> socket \<Rightarrow> 's \<Rightarrow> int" where
  "getError net err sk s = (case n_error net (sk_sock sk) s of Some e \<Rightarrow> e | None \<Rightarrow> err)"

text \<open>A socket as the stream over it uses it.\<close>

definition socket_ops :: "'s net \<Rightarrow> (socket \<times> 's) sock_ops" where
  "socket_ops net =
     \<lparr>op_connected = (\<lambda>(sk, s). sk_connected sk),
      op_recv = (\<lambda>n (sk, s). case sk_recv net n sk s of (rt, bs, s) \<Rightarrow> (rt, bs, (sk, s))),
      op_send = (\<lambda>bs (sk, s). case sk_send net bs sk s of (rt, s) \<Rightarrow> (rt, (sk, s))),
      op_close = (\<lambda>(sk, s). case sk_close net sk s of (_, sk, s) \<Rightarrow> (sk, s))\<rparr>"

section \<open>Sockets over TLS\<close>

text \<open>
  The calls of OpenSSL: \<open>ssl_new\<close> makes the session for a descriptor, from a context that may be missing (\<^verbatim>\<open>SSL_new\<close> and \<^verbatim>\<open>SSL_set_fd\<close>); the
  others work on a session.
\<close>

record ('t, 's) ssl =
  ssl_new :: "bool \<Rightarrow> int \<Rightarrow> 's \<Rightarrow> 't option \<times> 's"
  ssl_accept :: "'t option \<Rightarrow> 's \<Rightarrow> int \<times> 's"
  ssl_connect :: "'t option \<Rightarrow> 's \<Rightarrow> int \<times> 's"
  ssl_write :: "'t \<Rightarrow> byte list \<Rightarrow> 's \<Rightarrow> int \<times> 's"
  ssl_read :: "'t \<Rightarrow> nat \<Rightarrow> 's \<Rightarrow> int \<times> byte list \<times> 's"

text \<open>A socket with its session; the context, from which sessions are made, is there after connecting or loading certificates.\<close>

record 't ssl_socket =
  sl_sock :: socket
  sl_ssl :: "'t option"
  sl_ctx :: bool

definition ssl_send :: "('t, 's) ssl \<Rightarrow> byte list \<Rightarrow> 't ssl_socket \<Rightarrow> 's \<Rightarrow> int \<times> 's" where
  "ssl_send lib bs sl s = (case sl_ssl sl of Some t \<Rightarrow> ssl_write lib t bs s | None \<Rightarrow> (- 1, s))"

definition ssl_recv :: "('t, 's) ssl \<Rightarrow> nat \<Rightarrow> 't ssl_socket \<Rightarrow> 's \<Rightarrow> int \<times> byte list \<times> 's" where
  "ssl_recv lib n sl s = (case sl_ssl sl of Some t \<Rightarrow> ssl_read lib t n s | None \<Rightarrow> (- 1, [], s))"

text \<open>A failure in the middle of a vector is the result, whatever was transferred before.\<close>

fun ssl_send_loop :: "('t, 's) ssl \<Rightarrow> 't \<Rightarrow> byte list list \<Rightarrow> int \<Rightarrow> 's \<Rightarrow> int \<times> 's" where
  "ssl_send_loop lib t [] sum0 s = (sum0, s)"
| "ssl_send_loop lib t (b # buffers) sum0 s =
     (case ssl_write lib t b s of (tmp, s) \<Rightarrow>
        if tmp \<le> 0 then (tmp, s)
        else if tmp \<noteq> int (length b) then (sum0 + tmp, s)
        else ssl_send_loop lib t buffers (sum0 + tmp) s)"

definition ssl_send_vec :: "('t, 's) ssl \<Rightarrow> byte list list \<Rightarrow> 't ssl_socket \<Rightarrow> 's \<Rightarrow> int \<times> 's" where
  "ssl_send_vec lib buffers sl s = (case sl_ssl sl of Some t \<Rightarrow> ssl_send_loop lib t buffers 0 s | None \<Rightarrow> (- 1, s))"

text \<open>The bytes are those stored in the room of the buffers, one after the other.\<close>

fun ssl_recv_loop :: "('t, 's) ssl \<Rightarrow> 't \<Rightarrow> nat list \<Rightarrow> int \<Rightarrow> byte list \<Rightarrow> 's \<Rightarrow> int \<times> byte list \<times> 's" where
  "ssl_recv_loop lib t [] sum0 acc s = (sum0, acc, s)"
| "ssl_recv_loop lib t (n # buffers) sum0 acc s =
     (case ssl_read lib t n s of (tmp, bs, s) \<Rightarrow>
        if tmp \<le> 0 then (tmp, acc, s)
        else if tmp \<noteq> int n then (sum0 + tmp, acc @ bs, s)
        else ssl_recv_loop lib t buffers (sum0 + tmp) (acc @ bs) s)"

definition ssl_recv_vec :: "('t, 's) ssl \<Rightarrow> nat list \<Rightarrow> 't ssl_socket \<Rightarrow> 's \<Rightarrow> int \<times> byte list \<times> 's" where
  "ssl_recv_vec lib buffers sl s = (case sl_ssl sl of Some t \<Rightarrow> ssl_recv_loop lib t buffers 0 [] s | None \<Rightarrow> (- 1, [], s))"

text \<open>
  Accepting makes the session for the descriptor that listens and stores it in the listening socket: the new socket gets none.
  The listening socket is the second part of the result.
\<close>

definition ssl_sk_accept :: "'s net \<Rightarrow> ('t, 's) ssl \<Rightarrow> 't ssl_socket \<Rightarrow> 's \<Rightarrow> fault + ('t ssl_socket option \<times> 't ssl_socket \<times> 's)" where
  "ssl_sk_accept net lib sl s =
     (let sk = sl_sock sl;
          new = new_Socket (sk_family sk) (sk_type sk) (sk_protocol sk);
          (newsock, s) = n_accept net (sk_sock sk) s in
      rbind (sk_init net newsock new s) (\<lambda>(ok, new, s).
        if \<not> ok then Inr (None, sl, sk_destroy net new s)
        else
          let (t, s) = ssl_new lib (sl_ctx sl) (sk_sock sk) s;
              sl = sl\<lparr>sl_ssl := t\<rparr>;
              (rt, s) = ssl_accept lib t s in
          if rt = 1 then Inr (Some \<lparr>sl_sock = new, sl_ssl = None, sl_ctx = sl_ctx sl\<rparr>, sl, s)
          else Inr (None, sl, sk_destroy net new s)))"

definition ssl_sk_connect :: "'s net \<Rightarrow> ('t, 's) ssl \<Rightarrow> address \<Rightarrow> u64 \<Rightarrow> 't ssl_socket \<Rightarrow> 's \<Rightarrow> bool \<times> 't ssl_socket \<times> 's" where
  "ssl_sk_connect net lib a timeout_ms sl s =
     (case sk_connect net a timeout_ms (sl_sock sl) s of (rt, sk, s) \<Rightarrow>
        if \<not> rt then (False, sl\<lparr>sl_sock := sk\<rparr>, s)
        else
          let (t, s) = ssl_new lib True (sk_sock sk) s;
              (rt, s) = ssl_connect lib t s
          in (rt = 1, \<lparr>sl_sock = sk, sl_ssl = t, sl_ctx = True\<rparr>, s))"

text \<open>The outcomes of the three calls that load and check the certificates; the context is new in any case.\<close>

definition loadCertificates :: "bool \<Rightarrow> bool \<Rightarrow> bool \<Rightarrow> 't ssl_socket \<Rightarrow> bool \<times> 't ssl_socket" where
  "loadCertificates cert_ok key_ok check_ok sl =
     (let sl = sl\<lparr>sl_ctx := True\<rparr> in
      if \<not> cert_ok then (False, sl) else if \<not> key_ok then (False, sl) else if \<not> check_ok then (False, sl) else (True, sl))"

section \<open>Descriptors\<close>

text \<open>
  What the system promises of descriptors: a new one was not open before, closing takes it out, and no other call opens or closes
  any. \<open>opened\<close> is the set of the open descriptors.
\<close>

definition fresh_fd :: "('s \<Rightarrow> int set) \<Rightarrow> 's \<Rightarrow> int \<times> 's \<Rightarrow> bool" where
  "fresh_fd opened s r \<longleftrightarrow>
     (case r of (fd, s') \<Rightarrow> (fd = - 1 \<and> opened s' = opened s) \<or> (0 \<le> fd \<and> fd \<notin> opened s \<and> opened s' = insert fd (opened s)))"

definition net_contract :: "'s net \<Rightarrow> ('s \<Rightarrow> int set) \<Rightarrow> bool" where
  "net_contract net opened \<longleftrightarrow>
     (\<forall>f t p s. fresh_fd opened s (n_socket net f t p s)) \<and>
     (\<forall>fd s. fresh_fd opened s (n_accept net fd s)) \<and>
     (\<forall>fd s. opened (n_close net fd s) = opened s - {fd}) \<and>
     (\<forall>fd l v s. opened (snd (n_setopt net fd l v s)) = opened s) \<and>
     (\<forall>fd t v u s. opened (n_settime net fd t v u s) = opened s) \<and>
     (\<forall>fd a s. opened (snd (n_bind net fd a s)) = opened s) \<and>
     (\<forall>fd b s. opened (snd (n_listen net fd b s)) = opened s) \<and>
     (\<forall>fd a t s. opened (snd (n_connect net fd a t s)) = opened s) \<and>
     (\<forall>fd n s. opened (snd (snd (n_recv net fd n s))) = opened s) \<and>
     (\<forall>fd bs s. opened (snd (n_send net fd bs s)) = opened s) \<and>
     (\<forall>fd n a s. opened (snd (snd (n_recvfrom net fd n a s))) = opened s) \<and>
     (\<forall>fd bs a s. opened (snd (n_sendto net fd bs a s)) = opened s)"

lemma net_contract_rules:
  assumes "net_contract net opened"
  shows "fresh_fd opened s (n_socket net f t p s)" "fresh_fd opened s (n_accept net fd s)"
    "opened (n_close net fd s) = opened s - {fd}" "opened (snd (n_setopt net fd l v s)) = opened s"
    "opened (n_settime net fd l u u' s) = opened s" "opened (snd (n_bind net fd a s)) = opened s"
    "opened (snd (n_listen net fd l s)) = opened s" "opened (snd (n_connect net fd a to s)) = opened s"
    "opened (snd (snd (n_recv net fd n s))) = opened s" "opened (snd (n_send net fd bs s)) = opened s"
    "opened (snd (snd (n_recvfrom net fd n a s))) = opened s" "opened (snd (n_sendto net fd bs a s)) = opened s"
  using assms by (simp_all add: net_contract_def)

text \<open>The descriptors of a socket object are those that are open besides the ones of the others.\<close>

definition owned :: "socket \<Rightarrow> int set" where
  "owned sk = (if sk_sock sk = - 1 then {} else {sk_sock sk})"

definition owns :: "('s \<Rightarrow> int set) \<Rightarrow> int set \<Rightarrow> socket \<Rightarrow> 's \<Rightarrow> bool" where
  "owns opened base sk s \<longleftrightarrow> opened s = base \<union> owned sk \<and> owned sk \<inter> base = {} \<and> (sk_connected sk \<longrightarrow> isValid sk)"

lemma owns_new [simp]: "owns opened base (new_Socket f t p) s \<longleftrightarrow> opened s = base"
  by (simp add: owns_def owned_def new_Socket_def)

lemma owns_fields: "owns opened base sk s \<Longrightarrow> sk_sock sk' = sk_sock sk \<Longrightarrow> sk_connected sk' = sk_connected sk \<Longrightarrow> opened s' = opened s \<Longrightarrow>
    owns opened base sk' s'"
  by (auto simp: owns_def owned_def isValid_def split: if_splits)

lemma opened_initSockOpt: "net_contract net opened \<Longrightarrow> opened (initSockOpt net sk s) = opened s"
  by (simp add: initSockOpt_def Let_def net_contract_rules)

lemma address_fields [simp]:
  "sk_sock (snd (getLocalAddress net sk s)) = sk_sock sk" "sk_connected (snd (getLocalAddress net sk s)) = sk_connected sk"
  "sk_sock (snd (getRemoteAddress net sk s)) = sk_sock sk" "sk_connected (snd (getRemoteAddress net sk s)) = sk_connected sk"
  "sk_local (snd (getRemoteAddress net sk s)) = sk_local sk"
  by (simp_all add: getLocalAddress_def getRemoteAddress_def split: option.split)

lemma local_kept [simp]: "sk_local sk = Some a \<Longrightarrow> sk_local (snd (getLocalAddress net sk s)) = Some a"
  by (simp add: getLocalAddress_def)

lemma owns_newSock:
  assumes "net_contract net opened" "owns opened base sk s" "\<not> isValid sk" "newSock net sk s = (sk', s')"
  shows "owns opened base sk' s' \<and> sk_local sk' = sk_local sk \<and> sk_connected sk' = sk_connected sk"
proof -
  obtain fd s1 where 1: "n_socket net (sk_family sk) (sk_type sk) (sk_protocol sk) s = (fd, s1)" by fastforce
  then have sk': "sk' = sk\<lparr>sk_sock := fd\<rparr>" "opened s' = opened s1" using assms(4) by (auto simp: newSock_def Let_def opened_initSockOpt [OF assms(1)])
  have "fresh_fd opened s (fd, s1)" using net_contract_rules(1) [OF assms(1)] 1 by metis
  then show ?thesis using assms(2,3) unfolding sk' by (auto simp: owns_def owned_def isValid_def fresh_fd_def sk'(2))
qed

lemma owns_start:
  assumes "net_contract net opened" "owns opened base sk s" "(if \<not> isValid sk then newSock net sk s else (sk, s)) = (sk', s')"
  shows "owns opened base sk' s' \<and> sk_local sk' = sk_local sk"
proof (cases "isValid sk")
  case True
  then show ?thesis using assms(2,3) by simp
next
  case False
  then show ?thesis using owns_newSock [OF assms(1,2) False] assms(3) by simp
qed

lemma owns_bind:
  assumes "net_contract net opened" "owns opened base sk s" "sk_bind net a sk s = (rt, sk', s')"
  shows "owns opened base sk' s' \<and> (\<forall>x. sk_local sk = Some x \<longrightarrow> sk_local sk' = Some x)"
proof -
  obtain sk1 s1 where 1: "(if \<not> isValid sk then newSock net sk s else (sk, s)) = (sk1, s1)" by fastforce
  obtain r s2 where 2: "n_bind net (sk_sock sk1) a s1 = (r, s2)" by fastforce
  have o1: "owns opened base sk1 s1" "sk_local sk1 = sk_local sk" using owns_start [OF assms(1,2) 1] by auto
  have "opened s2 = opened s1" using net_contract_rules(6) [OF assms(1), of "sk_sock sk1" a s1] 2 by simp
  then have "owns opened base sk1 s2" "owns opened base (snd (getLocalAddress net sk1 s2)) s2"
    using owns_fields [OF o1(1)] by simp_all
  moreover have "sk_bind net a sk s = (if sk_sock sk1 = - 1 then (False, sk1, s1) else if r = - 1 then (False, sk1, s2)
      else (True, snd (getLocalAddress net sk1 s2), s2))" by (simp add: sk_bind_def 1 2)
  ultimately show ?thesis using assms(3) o1 by (auto split: if_splits)
qed

lemma owns_close:
  assumes "net_contract net opened" "owns opened base sk s" "sk_close net sk s = (rt, sk', s')"
  shows "owns opened base sk' s' \<and> sk_local sk' = sk_local sk \<and> sk_remote sk' = sk_remote sk \<and>
    (if sk_sock sk = 1 \<and> \<not> sk_connected sk then rt \<and> sk' = sk \<and> s' = s else \<not> rt \<and> \<not> isValid sk' \<and> \<not> sk_connected sk' \<and> opened s' = base)"
proof (cases "sk_sock sk = 1 \<and> \<not> sk_connected sk")
  case True
  then show ?thesis using assms(2,3) by (simp add: sk_close_def)
next
  case False
  let ?sk = "sk\<lparr>sk_connected := False, sk_sock := - 1\<rparr>" and ?s = "if sk_sock sk = - 1 then s else n_close net (sk_sock sk) s"
  have "sk_close net sk s = (False, ?sk, ?s)" using False by (cases sk) (simp add: sk_close_def)
  then have eq: "rt = False" "sk' = ?sk" "s' = ?s" using assms(3) by simp_all
  have "opened ?s = base"
    using assms(2) net_contract_rules(3) [OF assms(1), of "sk_sock sk" s] by (auto simp: owns_def owned_def)
  then show ?thesis using False by (simp add: eq owns_def owned_def isValid_def)
qed

lemma owns_connect:
  assumes "net_contract net opened" "owns opened base sk s" "sk_connect net a t sk s = (rt, sk', s')"
  shows "owns opened base sk' s' \<and> (\<forall>x. sk_local sk = Some x \<longrightarrow> sk_local sk' = Some x) \<and> rt = sk_connected sk' \<or> \<not> rt \<and> owns opened base sk' s' \<and>
    (\<forall>x. sk_local sk = Some x \<longrightarrow> sk_local sk' = Some x)"
proof -
  obtain sk1 s1 where 1: "(if \<not> isValid sk then newSock net sk s else (sk, s)) = (sk1, s1)" by fastforce
  have o1: "owns opened base sk1 s1" "sk_local sk1 = sk_local sk" using owns_start [OF assms(1,2) 1] by auto
  let ?sk = "sk1\<lparr>sk_remote := Some a\<rparr>"
  obtain r s2 where 2: "n_connect net (sk_sock sk1) a (if t = - 1 then None else Some t) s1 = (r, s2)" by fastforce
  have "opened s2 = opened s1" using net_contract_rules(8) [OF assms(1), of "sk_sock sk1" a "if t = - 1 then None else Some t" s1] 2 by simp
  then have o2: "owns opened base ?sk s2" using owns_fields [OF o1(1)] by simp
  obtain b sk3 s3 where 3: "sk_close net ?sk s2 = (b, sk3, s3)" by (metis prod_cases3)
  note cl = owns_close [OF assms(1) o2 3]
  let ?sk4 = "snd (getLocalAddress net (snd (getRemoteAddress net (?sk\<lparr>sk_connected := True\<rparr>) s2)) s2)"
  have eq: "sk_connect net a t sk s = (if sk_sock sk1 = - 1 then (False, sk1, s1) else if getFamily a \<noteq> sk_family sk1 then (False, sk1, s1)
      else if r \<noteq> 0 then (False, sk3, s3) else (True, ?sk4, s2))" by (simp add: sk_connect_def 1 2 3 Let_def)
  have "owns opened base ?sk4 s2" if "sk_sock sk1 \<noteq> - 1" using o2 that by (simp add: owns_def owned_def isValid_def)
  moreover have "sk_local ?sk4 = Some x" if "sk_local sk = Some x" for x using o1(2) that by simp
  ultimately show ?thesis using assms(3) eq o1 cl by (auto split: if_splits)
qed

section \<open>A socket over its life\<close>

datatype sock_op =
    Bind address
  | Connect address u64
  | Listen int
  | Close
  | Send "byte list"
  | Recv nat
  | SendTo "byte list" address
  | RecvFrom nat address
  | SetSendTimeout u64
  | SetRecvTimeout u64
  | LocalAddress
  | RemoteAddress

fun sk_step :: "'s net \<Rightarrow> sock_op \<Rightarrow> socket \<times> 's \<Rightarrow> socket \<times> 's" where
  "sk_step net (Bind a) (sk, s) = snd (sk_bind net a sk s)"
| "sk_step net (Connect a t) (sk, s) = snd (sk_connect net a t sk s)"
| "sk_step net (Listen n) (sk, s) = (sk, snd (sk_listen net n sk s))"
| "sk_step net Close (sk, s) = snd (sk_close net sk s)"
| "sk_step net (Send bs) (sk, s) = (sk, snd (sk_send net bs sk s))"
| "sk_step net (Recv n) (sk, s) = (sk, snd (snd (sk_recv net n sk s)))"
| "sk_step net (SendTo bs a) (sk, s) = (sk, snd (sk_sendTo net bs a sk s))"
| "sk_step net (RecvFrom n a) (sk, s) = (sk, snd (snd (sk_recvFrom net n a sk s)))"
| "sk_step net (SetSendTimeout ms) (sk, s) = (sk, setSendTimeout net ms sk s)"
| "sk_step net (SetRecvTimeout ms) (sk, s) = (sk, setRecvTimeout net ms sk s)"
| "sk_step net LocalAddress (sk, s) = (snd (getLocalAddress net sk s), s)"
| "sk_step net RemoteAddress (sk, s) = (snd (getRemoteAddress net sk s), s)"

definition sk_run :: "'s net \<Rightarrow> sock_op list \<Rightarrow> socket \<times> 's \<Rightarrow> socket \<times> 's" where
  "sk_run net ops = fold (sk_step net) ops"

lemma owns_step:
  assumes "net_contract net opened" "owns opened base sk s" "sk_step net op (sk, s) = (sk', s')"
  shows "owns opened base sk' s' \<and> (\<forall>x. sk_local sk = Some x \<longrightarrow> sk_local sk' = Some x)"
proof (cases op)
  case (Bind a)
  then show ?thesis using owns_bind [OF assms(1,2)] assms(3) by (metis prod.collapse sk_step.simps(1))
next
  case (Connect a t)
  then show ?thesis using owns_connect [OF assms(1,2)] assms(3) by (metis prod.collapse sk_step.simps(2))
next
  case Close
  then show ?thesis using owns_close [OF assms(1,2)] assms(3) by (metis prod.collapse sk_step.simps(4))
next
  case LocalAddress
  then show ?thesis using assms(2,3) by (auto intro: owns_fields)
next
  case RemoteAddress
  then show ?thesis using assms(2,3) by (auto intro: owns_fields)
qed (use assms(2,3) net_contract_rules [OF assms(1)] in
    \<open>auto simp: sk_listen_def sk_send_def sk_recv_def sk_sendTo_def sk_recvFrom_def setSendTimeout_def setRecvTimeout_def case_prod_beta Let_def
      intro: owns_fields split: if_splits\<close>)

lemma owns_run:
  assumes "net_contract net opened" "owns opened base sk s" "sk_run net ops (sk, s) = (sk', s')"
  shows "owns opened base sk' s' \<and> (\<forall>x. sk_local sk = Some x \<longrightarrow> sk_local sk' = Some x)"
  using assms(2,3)
proof (induction ops arbitrary: sk s)
  case (Cons op ops)
  obtain sk1 s1 where 1: "sk_step net op (sk, s) = (sk1, s1)" by fastforce
  with Cons.prems(2) have "sk_run net ops (sk1, s1) = (sk', s')" by (simp add: sk_run_def)
  then show ?case using Cons.IH owns_step [OF assms(1) Cons.prems(1) 1] by blast
qed (simp add: sk_run_def)


text \<open>A system in which every call succeeds and a new descriptor is greater than all that are open.\<close>

definition list_net :: "int list net" where
  "list_net =
     \<lparr>n_socket = (\<lambda>f t p s. let fd = foldr max s 0 + 1 in (fd, fd # s)), n_setopt = (\<lambda>fd l v s. (0, s)), n_error = (\<lambda>fd s. Some 0),
      n_settime = (\<lambda>fd t v u s. s), n_bind = (\<lambda>fd a s. (0, s)), n_listen = (\<lambda>fd b s. (0, s)),
      n_accept = (\<lambda>fd s. let fd = foldr max s 0 + 1 in (fd, fd # s)), n_connect = (\<lambda>fd a t s. (0, s)), n_close = (\<lambda>fd s. removeAll fd s),
      n_recv = (\<lambda>fd n s. (0, [], s)), n_send = (\<lambda>fd bs s. (int (length bs), s)), n_recvfrom = (\<lambda>fd n a s. (0, [], s)),
      n_sendto = (\<lambda>fd bs a s. (int (length bs), s)), n_sockname = (\<lambda>fd a s. Some (a, 16)), n_peername = (\<lambda>fd a s. Some (a, 16)),
      n_ctx = (\<lambda>fd s. Inr (if fd \<in> set s then
        Some \<lparr>fx_fd = fd, fx_isInit = True, fx_isSocket = True, fx_sysNonBlock = True, fx_userNonBlock = False, fx_isClosed = False,
              fx_recvTimeout = - 1, fx_sendTimeout = - 1\<rparr> else None))\<rparr>"

lemma list_net_contract: "net_contract list_net set"
proof -
  have bound: "x \<le> foldr max s 0" if "x \<in> set s" for x :: int and s using that by (induction s) auto
  have pos: "0 \<le> foldr max s (0 :: int)" for s by (induction s) auto
  show ?thesis using bound pos
    by (auto simp: net_contract_def list_net_def fresh_fd_def Let_def) (smt (verit) bound)+
qed


section \<open>The stream over a socket\<close>

text \<open>What the system promises of a connected descriptor is what the streams rely on.\<close>

lemma socket_ops_contract:
  assumes "\<And>fd n s rt bs s'. n_recv net fd n s = (rt, bs, s') \<Longrightarrow> 0 \<le> rt \<and> rt \<le> int n \<and> length bs = nat rt \<and> inc s = bs @ inc s' \<and> out s' = out s \<and>
      (0 < n \<longrightarrow> inc s \<noteq> [] \<longrightarrow> 0 < rt)"
    and "\<And>fd bs s rt s'. n_send net fd bs s = (rt, s') \<Longrightarrow> 0 \<le> rt \<and> rt \<le> int (length bs) \<and> out s' = out s @ take (nat rt) bs \<and> inc s' = inc s \<and>
      (bs \<noteq> [] \<longrightarrow> 0 < rt)"
  shows "sock_contract (socket_ops net) (inc \<circ> snd) (out \<circ> snd)"
  unfolding sock_contract_def using assms
  by (simp add: socket_ops_def sk_recv_def sk_send_def split: prod.splits)

text \<open>The descriptors stay with the socket under the stream's operations.\<close>

lemma owns_socket_ops:
  assumes "net_contract net opened" "owns opened base sk s"
  shows "owns opened base (fst (snd (snd (op_recv (socket_ops net) n (sk, s))))) (snd (snd (snd (op_recv (socket_ops net) n (sk, s)))))"
    "owns opened base (fst (snd (op_send (socket_ops net) d (sk, s)))) (snd (snd (op_send (socket_ops net) d (sk, s))))"
    "owns opened base (fst (op_close (socket_ops net) (sk, s))) (snd (op_close (socket_ops net) (sk, s)))"
proof -
  have step: "owns opened base (fst (sk_step net op (sk, s))) (snd (sk_step net op (sk, s)))" for op
    using owns_step [OF assms, of op] by (metis prod.collapse)
  show "owns opened base (fst (snd (snd (op_recv (socket_ops net) n (sk, s))))) (snd (snd (snd (op_recv (socket_ops net) n (sk, s)))))"
    using step [of "Recv n"] by (simp add: socket_ops_def case_prod_beta)
  show "owns opened base (fst (snd (op_send (socket_ops net) d (sk, s)))) (snd (snd (op_send (socket_ops net) d (sk, s))))"
    using step [of "Send d"] by (simp add: socket_ops_def case_prod_beta)
  show "owns opened base (fst (op_close (socket_ops net) (sk, s))) (snd (op_close (socket_ops net) (sk, s)))"
    using step [of Close] by (simp add: socket_ops_def case_prod_beta)
qed

section \<open>Timeouts\<close>

lemma timeval_roundtrip: "(ms div 1000) * 1000 + ((ms mod 1000) * 1000) div 1000 = (ms :: u64)"
proof -
  have "unat (ms mod 1000) < 1000" by (simp add: unat_mod)
  then have "unat (ms mod 1000 * 1000) = unat (ms mod 1000) * 1000" by (simp add: unat_word_ariths)
  then have "unat (ms mod 1000 * 1000 div 1000) = unat (ms mod 1000)" by (simp add: unat_div)
  then have "ms mod 1000 * 1000 div 1000 = ms mod 1000" by (simp only: word_unat_eq_iff)
  then show ?thesis by (simp add: word_mod_div_equality)
qed

text \<open>The table of descriptors stores what the hooked \<^verbatim>\<open>setsockopt\<close> makes of the two parts, so a timeout comes back as it was set.\<close>

lemma getRecvTimeout_set:
  assumes "\<And>v u. n_ctx net (sk_sock sk) (n_settime net (sk_sock sk) SO_RCVTIMEO v u s) = Inr (Some (setTimeout SO_RCVTIMEO (v * 1000 + u div 1000) c))"
  shows "getRecvTimeout net sk (setRecvTimeout net ms sk s) = Inr ms"
  by (simp add: getRecvTimeout_def setRecvTimeout_def assms timeval_roundtrip setTimeout_def getTimeout_def)

end
