(* ===== verification/WebClient.thy ===== *)
theory WebClient imports WebServer Socket begin

text \<open>
  The clients' side of a connection (\<^verbatim>\<open>HttpConnection::DoRequest\<close> in \<^verbatim>\<open>seaice/http/http_connection.cpp\<close> and
  \<^verbatim>\<open>WSConnection::Create\<close> in \<^verbatim>\<open>ws_connection.cpp\<close>): a socket is connected to the address of a URI, the request is sent and the response is
  received, with a result for every way in which that can fail. A stream that is destroyed closes its socket.
\<close>

section \<open>Results\<close>

datatype http_error =
    OK
  | INVALID_URL
  | INVALID_HOST
  | CONNECT_FAIL
  | SEND_CLOSE_BY_PEER
  | SEND_SOCKET_ERROR
  | TIMEOUT
  | CREATE_SOCKET_ERROR
  | POOL_GET_CONNECTION
  | POOL_INVALID_CONNECTION
  | INVALID_WEBSOCK_STATUS

type_synonym http_result = "http_error \<times> http_response option"

section \<open>Requests\<close>

text \<open>The destructor of a stream that owns its socket, and then that of the socket.\<close>

definition stream_destroy :: "'s net \<Rightarrow> socket \<times> 's \<Rightarrow> 's" where
  "stream_destroy net cs = (case SocketStream_close (socket_ops net) cs of (sk, s) \<Rightarrow> sk_destroy net sk s)"

text \<open>The address is printed before it is tested.\<close>

definition DoRequest ::
  "'g machine \<Rightarrow> (string \<Rightarrow> u64 option) \<Rightarrow> nat \<Rightarrow> 's net \<Rightarrow> http_request \<Rightarrow> address option \<Rightarrow> u64 \<Rightarrow> 's \<Rightarrow> (fault + (http_result \<times> 's)) option" where
  "DoRequest mc cast buff_size net req addr timeout_ms s =
     (case addr of
        None \<Rightarrow> Some (Inl NullDeref)
      | Some a \<Rightarrow>
          (case sk_connect net a (- 1) (CreateTCP a) s of
             (ok, sk, s) \<Rightarrow>
               if \<not> ok then Some (Inr ((CONNECT_FAIL, None), sk_destroy net sk s))
               else
                 let s = setRecvTimeout net timeout_ms sk s in
                 (case sendRequest (socket_ops net) req (sk, s) of
                    (rt, cs) \<Rightarrow>
                      if rt = 0 then Some (Inr ((SEND_CLOSE_BY_PEER, None), stream_destroy net cs))
                      else if rt < 0 then Some (Inr ((SEND_SOCKET_ERROR, None), stream_destroy net cs))
                      else
                        (case recvResponse mc cast buff_size (socket_ops net) cs of
                           None \<Rightarrow> None
                         | Some (Inl e) \<Rightarrow> Some (Inl e)
                         | Some (Inr (None, cs)) \<Rightarrow> Some (Inr ((TIMEOUT, None), stream_destroy net cs))
                         | Some (Inr (Some rsp, cs)) \<Rightarrow> Some (Inr ((OK, Some rsp), stream_destroy net cs))))))"

text \<open>The request with the headers of the caller, for a URI that was parsed.\<close>

definition DoRequest_uri ::
  "'g machine \<Rightarrow> (string \<Rightarrow> u64 option) \<Rightarrow> nat \<Rightarrow> 's net \<Rightarrow> http_status \<Rightarrow> http_method \<Rightarrow> uri_parts \<Rightarrow> address option \<Rightarrow> u64 \<Rightarrow>
   (string \<times> string) list \<Rightarrow> string \<Rightarrow> 's \<Rightarrow> (fault + (http_result \<times> 's)) option" where
  "DoRequest_uri mc cast buff_size net st0 meth uri addr timeout_ms headers body s =
     DoRequest mc cast buff_size net (build_request st0 meth uri headers body) addr timeout_ms s"

text \<open>The same for the text of a URI; \<open>parse\<close> is the generated parser with the address of what it returns.\<close>

definition DoRequest_url ::
  "(string \<Rightarrow> (uri_parts \<times> address option) option) \<Rightarrow> 'g machine \<Rightarrow> (string \<Rightarrow> u64 option) \<Rightarrow> nat \<Rightarrow> 's net \<Rightarrow> http_status \<Rightarrow> http_method \<Rightarrow> string \<Rightarrow> u64 \<Rightarrow>
   (string \<times> string) list \<Rightarrow> string \<Rightarrow> 's \<Rightarrow> (fault + (http_result \<times> 's)) option" where
  "DoRequest_url parse mc cast buff_size net st0 meth url timeout_ms headers body s =
     (case parse url of
        None \<Rightarrow> Some (Inr ((INVALID_URL, None), s))
      | Some (uri, addr) \<Rightarrow> DoRequest_uri mc cast buff_size net st0 meth uri addr timeout_ms headers body s)"

definition DoGet where "DoGet parse mc cast buff_size net st0 = DoRequest_url parse mc cast buff_size net st0 1"
definition DoPost where "DoPost parse mc cast buff_size net st0 = DoRequest_url parse mc cast buff_size net st0 3"

section \<open>The websocket client\<close>

fun ws_headers :: "(string \<times> string) list \<Rightarrow> bool \<Rightarrow> bool \<Rightarrow> http_request \<Rightarrow> bool \<times> bool \<times> http_request" where
  "ws_headers [] has_conn has_host req = (has_conn, has_host, req)"
| "ws_headers ((k, v) # hs) has_conn has_host req =
     ws_headers hs (ci_eq k ''connection'' \<or> has_conn) (if \<not> has_host \<and> ci_eq k ''host'' then v \<noteq> [] else has_host) (q_setHeader k v req)"

definition ws_request :: "http_status \<Rightarrow> uri_parts \<Rightarrow> (string \<times> string) list \<Rightarrow> http_request" where
  "ws_request st0 uri headers =
     (let req = (new_HttpRequest st0 0x11 True)\<lparr>q_path := u_path uri, q_query := u_query uri, q_fragment := u_fragment uri,
                  q_method := 1, q_websock := True\<rparr>;
          (has_conn, has_host, req) = ws_headers headers False False req;
          req = (if \<not> has_conn then q_setHeader ''Connection'' ''Upgrade'' req else req);
          req = (if \<not> has_host then q_setHeader ''Host'' (u_host uri) req else req);
          req = req\<lparr>q_close := False\<rparr>;
          req = q_setHeader ''Upgrade'' ''websocket'' req;
          req = q_setHeader ''Sec-WebSocket-Version'' ''13'' req
      in q_setHeader ''Sec-WebSocket-Key'' ''w4v7O6xFTi36lq3RNcgctw=='' req)"

text \<open>The connection is the socket with its state when the result is \<open>OK\<close>.\<close>

definition WSConnection_Create ::
  "'g machine \<Rightarrow> (string \<Rightarrow> u64 option) \<Rightarrow> nat \<Rightarrow> 's net \<Rightarrow> http_status \<Rightarrow> uri_parts \<Rightarrow> address option \<Rightarrow> u64 \<Rightarrow> (string \<times> string) list \<Rightarrow> 's \<Rightarrow>
   (fault + (http_result \<times> socket option \<times> 's)) option" where
  "WSConnection_Create mc cast buff_size net st0 uri addr timeout_ms headers s =
     (case addr of
        None \<Rightarrow> Some (Inl NullDeref)
      | Some a \<Rightarrow>
          (case sk_connect net a (- 1) (CreateTCP a) s of
             (ok, sk, s) \<Rightarrow>
               if \<not> ok then Some (Inr ((CONNECT_FAIL, None), None, sk_destroy net sk s))
               else
                 let s = setRecvTimeout net timeout_ms sk s in
                 (case sendRequest (socket_ops net) (ws_request st0 uri headers) (sk, s) of
                    (rt, cs) \<Rightarrow>
                      if rt = 0 then Some (Inr ((SEND_CLOSE_BY_PEER, None), None, stream_destroy net cs))
                      else if rt < 0 then Some (Inr ((SEND_SOCKET_ERROR, None), None, stream_destroy net cs))
                      else
                        (case recvResponse mc cast buff_size (socket_ops net) cs of
                           None \<Rightarrow> None
                         | Some (Inl e) \<Rightarrow> Some (Inl e)
                         | Some (Inr (None, cs)) \<Rightarrow> Some (Inr ((TIMEOUT, None), None, stream_destroy net cs))
                         | Some (Inr (Some rsp, (sk, s))) \<Rightarrow>
                             if p_status rsp \<noteq> 101 then Some (Inr ((INVALID_WEBSOCK_STATUS, None), None, stream_destroy net (sk, s)))
                             else Some (Inr ((OK, Some rsp), Some sk, s))))))"

section \<open>Invariants of the stream\<close>

text \<open>Whatever the calls of a socket keep, sending a request and receiving a response keep.\<close>

definition kept_by :: "'s sock_ops \<Rightarrow> ('s \<Rightarrow> bool) \<Rightarrow> bool" where
  "kept_by ops P \<longleftrightarrow>
     (\<forall>n s. P s \<longrightarrow> P (snd (snd (op_recv ops n s)))) \<and> (\<forall>bs s. P s \<longrightarrow> P (snd (op_send ops bs s))) \<and> (\<forall>s. P s \<longrightarrow> P (op_close ops s))"

lemma kept_by_stream:
  assumes "kept_by ops P" "P s"
  shows "SocketStream_read ops n s = (rt, bs, s1) \<Longrightarrow> P s1" "SocketStream_write ops bs s = (rt, s1) \<Longrightarrow> P s1" "P (SocketStream_close ops s)"
proof -
  show "P s1" if "SocketStream_read ops n s = (rt, bs, s1)"
    using that assms unfolding kept_by_def SocketStream_read_def by (metis prod.inject snd_conv)
  show "P s1" if "SocketStream_write ops bs s = (rt, s1)"
    using that assms unfolding kept_by_def SocketStream_write_def by (metis prod.inject snd_conv)
  show "P (SocketStream_close ops s)" using assms by (simp add: kept_by_def SocketStream_close_def)
qed

lemma writeFixSize_loop_keeps:
  assumes "kept_by ops P" "P s" "writeFixSize_loop (SocketStream_write ops) buffer left offset s = (rt, s')"
  shows "P s'"
  using assms(2,3)
proof (induction "nat left" arbitrary: left offset s rule: less_induct)
  case less
  obtain len s1 where 1: "SocketStream_write ops (take (nat left) (drop offset buffer)) s = (len, s1)" by fastforce
  note P1 = kept_by_stream(2) [OF assms(1) less.prems(1) 1]
  show ?case
  proof (cases "left > 0 \<and> len > 0")
    case True
    then have "nat (left - len) < nat left" by simp
    from less.hyps [OF this P1] show ?thesis
      using less.prems(2) 1 True by (subst (asm) writeFixSize_loop.simps) simp
  next
    case False
    then show ?thesis using less.prems 1 P1 by (subst (asm) writeFixSize_loop.simps) (auto split: if_splits)
  qed
qed

lemma readFixSize_loop_keeps:
  assumes "kept_by ops P" "P s" "readFixSize_loop (SocketStream_read ops) amount left s = Inr (rt, bs, s')"
  shows "P s'"
  using assms(2,3)
proof (induction left arbitrary: s rt bs s' rule: less_induct)
  case (less left)
  obtain len b s1 where 1: "SocketStream_read ops left s = (len, b, s1)" by (metis prod_cases3)
  note P1 = kept_by_stream(1) [OF assms(1) less.prems(1) 1]
  show ?case
  proof (cases "left = 0 \<or> len \<le> 0 \<or> nat len > left")
    case True
    then show ?thesis using less.prems 1 P1 by (subst (asm) readFixSize_loop.simps) (auto split: if_splits)
  next
    case False
    then have "left - nat len < left" by simp
    note IH = less.IH [OF this P1]
    obtain r where r: "readFixSize_loop (SocketStream_read ops) amount (left - nat len) s1 = Inr r"
      using less.prems(2) 1 False by (subst (asm) readFixSize_loop.simps) (auto simp: rbind_eq_Inr)
    obtain rt2 bs2 s2 where "r = (rt2, bs2, s2)" by (cases r)
    then show ?thesis using less.prems(2) 1 False r IH by (subst (asm) readFixSize_loop.simps) auto
  qed
qed

lemma recv_body_keeps:
  assumes "kept_by ops P" "P s" "recv_body (SocketStream_read ops) (SocketStream_close ops) len data s = Inr (b, s')"
  shows "P s'"
  using assms(2,3) readFixSize_loop_keeps [OF assms(1,2)] kept_by_stream(3) [OF assms(1)]
  by (auto simp: recv_body_def readFixSize_def rbind_eq_Inr split: if_splits)

lemma recv_head_stream:
  assumes k: "kept_by ops P" and "P s"
    and "recv_head (SocketStream_read ops) (SocketStream_close ops) execute hasError isFinish n parser data s = Some (Inr (h, s'))"
  shows "P s'"
proof -
  have "case r of Inl e \<Rightarrow> True | Inr (h, s') \<Rightarrow> P s'"
    if "recv_head (SocketStream_read ops) (SocketStream_close ops) execute hasError isFinish n parser data s = Some r" "P s" for r parser data s
  proof (rule recv_head.raw_induct [where P = "\<lambda>rd cl execute hasError isFinish n parser data s r.
      rd = SocketStream_read ops \<longrightarrow> cl = SocketStream_close ops \<longrightarrow> P s \<longrightarrow> (case r of Inl e \<Rightarrow> True | Inr (h, s') \<Rightarrow> P s')",
      OF _ that(1), rule_format], goal_cases)
    case (1 loop rd cl execute hasError isFinish n parser data s r)
    obtain len bs s1 where rd: "SocketStream_read ops (n - length data) s = (len, bs, s1)" by (metis prod_cases3)
    note P1 = kept_by_stream(1) [OF k 1(5) rd]
    note P2 = kept_by_stream(3) [OF k P1]
    show ?case
      using 1(2) unfolding 1(3,4) rd using P1 P2
      by (auto simp: Let_def split: if_splits prod.splits dest!: 1(1) [OF _ refl refl P1])
  qed (use that(2) in simp_all)
  then show ?thesis using assms(2,3) by force
qed

lemma recv_chunk_size_stream:
  assumes k: "kept_by ops P" and "P s"
    and "recv_chunk_size (SocketStream_read ops) (SocketStream_close ops) execute hasError isFinish n first parser data s = Some (Inr (h, s'))"
  shows "P s'"
proof -
  have "case r of Inl e \<Rightarrow> True | Inr (h, s') \<Rightarrow> P s'"
    if "recv_chunk_size (SocketStream_read ops) (SocketStream_close ops) execute hasError isFinish n first parser data s = Some r" "P s"
    for r first parser data s
  proof (rule recv_chunk_size.raw_induct [where P = "\<lambda>rd cl execute hasError isFinish n first parser data s r.
      rd = SocketStream_read ops \<longrightarrow> cl = SocketStream_close ops \<longrightarrow> P s \<longrightarrow> (case r of Inl e \<Rightarrow> True | Inr (h, s') \<Rightarrow> P s')",
      OF _ that(1), rule_format], goal_cases)
    case (1 loop rd cl execute hasError isFinish n first parser data s r)
    obtain ok d s1 where rd: "(if \<not> first \<or> data = []
            then (case SocketStream_read ops (n - length data) s of (rt, bs, s) \<Rightarrow> (0 < rt, data @ bs, s))
            else (True, data, s)) = (ok, d, s1)" by (metis prod_cases3)
    have P1: "P s1"
    proof (cases "\<not> first \<or> data = []")
      case True
      obtain rt bs s2 where 2: "SocketStream_read ops (n - length data) s = (rt, bs, s2)" by (metis prod_cases3)
      show ?thesis using rd True 2 kept_by_stream(1) [OF k 1(5) 2] by simp
    next
      case False
      then show ?thesis using rd 1(5) by simp
    qed
    note P2 = kept_by_stream(3) [OF k P1]
    show ?case
      using 1(2) unfolding 1(3,4) rd using P1 P2
      by (auto simp: Let_def split: if_splits prod.splits dest!: 1(1) [OF _ refl refl P1])
  qed (use that(2) in simp_all)
  then show ?thesis using assms(2,3) by force
qed

lemma read_left_keeps:
  assumes "kept_by ops P" "P s" "read_left (SocketStream_read ops) (SocketStream_close ops) n left body s = Inr (b, s')"
  shows "P s'"
  using assms(2,3)
proof (induction left arbitrary: s body rule: less_induct)
  case (less left)
  obtain rt bs s1 where 1: "SocketStream_read ops (min left n) s = (rt, bs, s1)" by (metis prod_cases3)
  note P1 = kept_by_stream(1) [OF assms(1) less.prems(1) 1]
  show ?case
  proof (cases "left > 0 \<and> 0 < rt \<and> nat rt \<le> min left n")
    case True
    then have "left - nat rt < left" by simp
    from less.IH [OF this P1] show ?thesis
      using less.prems(2) 1 True by (subst (asm) read_left.simps) simp
  next
    case False
    then show ?thesis using less.prems 1 P1 kept_by_stream(3) [OF assms(1) P1] by (subst (asm) read_left.simps) (auto split: if_splits)
  qed
qed

lemma recv_chunks_stream:
  assumes k: "kept_by ops P" and "P s"
    and "recv_chunks mc (SocketStream_read ops) (SocketStream_close ops) n parser data body s = Some (Inr (h, s'))"
  shows "P s'"
proof -
  have "case r of Inl e \<Rightarrow> True | Inr (h, s') \<Rightarrow> P s'"
    if "recv_chunks mc (SocketStream_read ops) (SocketStream_close ops) n parser data body s = Some r" "P s" for r parser data body s
  proof (rule recv_chunks.raw_induct [where P = "\<lambda>mc rd cl n parser data body s r.
      rd = SocketStream_read ops \<longrightarrow> cl = SocketStream_close ops \<longrightarrow> P s \<longrightarrow> (case r of Inl e \<Rightarrow> True | Inr (h, s') \<Rightarrow> P s')",
      OF _ that(1), rule_format], goal_cases)
    case (1 loop mc rd cl n parser data body s r)
    obtain q where q: "recv_chunk_size (SocketStream_read ops) (SocketStream_close ops) (hp_execute_chunk mc on_response) (hp_hasError mc) (hp_isFinish mc) n True parser data s = Some q"
      using 1(2) unfolding 1(3,4) by (auto simp: bind_eq_Some_conv)
    show ?case
    proof (cases q)
      case (Inl e)
      then show ?thesis using 1(2) q unfolding 1(3,4) by auto
    next
      case (Inr hs)
      obtain h s1 where hs: "hs = (h, s1)" by (cases hs)
      have P1: "P s1" by (rule recv_chunk_size_stream [OF k 1(5) q [unfolded Inr hs]])
      show ?thesis
      proof (cases h)
        case None
        then show ?thesis using 1(2) q Inr hs P1 unfolding 1(3,4) by auto
      next
        case (Some pd)
        obtain p d where pd: "pd = (p, d)" by (cases pd)
        let ?c = "mc_content_len mc (hp_parser p)"
        have eq: "(if ?c + 2 \<le> int (length d) then
              if ?c + 2 < 0 then Some (Inl LogicError)
              else if mc_chunks_done mc (hp_parser p) then loop mc (SocketStream_read ops) (SocketStream_close ops) n p (drop (nat (?c + 2)) d) (body @ take (nat (?c + 2)) d) s1
                else Some (Inr (Some (p, body @ take (nat (?c + 2)) d), s1))
            else
              (case read_left (SocketStream_read ops) (SocketStream_close ops) n (nat (?c - int (length d) + 2)) (body @ d) s1 of
                 Inl e \<Rightarrow> Some (Inl e)
               | Inr (None, s) \<Rightarrow> Some (Inr (None, s))
               | Inr (Some body, s) \<Rightarrow>
                   if length body < 2 then Some (Inl LogicError)
                   else if mc_chunks_done mc (hp_parser p) then loop mc (SocketStream_read ops) (SocketStream_close ops) n p [] (take (length body - 2) body) s
                     else Some (Inr (Some (p, take (length body - 2) body), s)))) = Some r"
          using 1(2) unfolding 1(3,4) q Inr hs Some pd Option.bind.bind_lunit sum.case prod.case option.case Let_def .
        show ?thesis
        proof (cases "?c + 2 \<le> int (length d)")
          case True
          then show ?thesis using eq P1 1(1) [OF _ refl refl P1] by (auto split: if_splits)
        next
          case False
          show ?thesis
          proof (cases "read_left (SocketStream_read ops) (SocketStream_close ops) n (nat (?c - int (length d) + 2)) (body @ d) s1")
            case (Inl e)
            then show ?thesis using eq False by auto
          next
            case (Inr bs)
            obtain b s2 where bs: "bs = (b, s2)" by (cases bs)
            have P2: "P s2" by (rule read_left_keeps [OF k P1 Inr [unfolded bs]])
            show ?thesis using eq False Inr bs P2 1(1) [OF _ refl refl P2] by (cases b) (auto split: if_splits)
          qed
        qed
      qed
    qed
  qed (use that(2) in simp_all)
  then show ?thesis using assms(2,3) by force
qed

lemma recvResponse_keeps:
  assumes k: "kept_by ops P" and "P s" and "recvResponse mc cast n ops s = Some (Inr (r, s'))"
  shows "P s'"
proof -
  let ?head = "recv_head (SocketStream_read ops) (SocketStream_close ops) (hp_execute mc on_response) (hp_hasError mc) (hp_isFinish mc)
      n (new_HttpResponseParser mc) [] s"
  obtain r0 where r0: "?head = Some r0" using assms(3) by (auto simp: recvResponse_def bind_eq_Some_conv)
  obtain hs where hs: "r0 = Inr hs" using assms(3) r0 by (cases r0) (auto simp: recvResponse_def)
  obtain h s1 where h: "?head = Some (Inr (h, s1))" using r0 hs by (cases hs) simp
  note P1 = recv_head_stream [OF k assms(2) h]
  show ?thesis
  proof (cases h)
    case None
    then show ?thesis using assms(3) h P1 by (simp add: recvResponse_def)
  next
    case (Some pd)
    obtain p d where pd: "pd = (p, d)" by (cases pd)
    show ?thesis
    proof (cases "mc_chunked mc (hp_parser p)")
      case True
      then obtain q where q: "recv_chunks mc (SocketStream_read ops) (SocketStream_close ops) n p d [] s1 = Some q"
          "rbind q (\<lambda>(h, s). Inr (case h of None \<Rightarrow> None | Some (parser, body) \<Rightarrow> Some (hp_data parser), s)) = Inr (r, s')"
        using assms(3) h Some pd by (auto simp: recvResponse_def bind_eq_Some_conv)
      then obtain h2 s2 where "q = Inr (h2, s2)" "s' = s2" by (auto simp: rbind_eq_Inr)
      then show ?thesis using recv_chunks_stream [OF k P1] q by blast
    next
      case False
      show ?thesis
      proof (cases "p_getContentLength cast (hp_data p) > 0")
        case True
        then obtain b where "recv_body (SocketStream_read ops) (SocketStream_close ops) (p_getContentLength cast (hp_data p)) d s1 = Inr (b, s')"
          using assms(3) h Some pd False by (auto simp: recvResponse_def Let_def rbind_eq_Inr)
        then show ?thesis by (rule recv_body_keeps [OF k P1])
      next
        case nobody: False
        then show ?thesis using assms(3) h Some pd False P1 by (simp add: recvResponse_def Let_def)
      qed
    qed
  qed
qed

section \<open>The descriptors of a client\<close>

lemma kept_by_socket:
  assumes "net_contract net opened"
  shows "kept_by (socket_ops net) (\<lambda>(sk, s). owns opened base sk s)"
proof -
  note rules = net_contract_rules [OF assms]
  have "owns opened base (fst (snd (sk_close net sk s))) (snd (snd (sk_close net sk s)))" if "owns opened base sk s" for sk s
    using owns_close [OF assms that] by (metis prod.collapse)
  then show ?thesis unfolding kept_by_def socket_ops_def
    by (auto simp: sk_recv_def sk_send_def rules case_prod_beta intro: owns_fields split: if_splits)
qed

lemma opened_destroy:
  assumes "net_contract net opened" "owns opened base sk s" "1 \<in> base"
  shows "opened (sk_destroy net sk s) = base"
proof -
  obtain rt sk2 s2 where cl: "sk_close net sk s = (rt, sk2, s2)" by (metis prod_cases3)
  have "sk_sock sk \<noteq> 1" using assms(2,3) by (auto simp: owns_def owned_def)
  then show ?thesis using owns_close [OF assms(1,2) cl] cl by (simp add: sk_destroy_def)
qed

lemma opened_stream_destroy:
  assumes "net_contract net opened" "owns opened base (fst cs) (snd cs)" "1 \<in> base"
  shows "opened (stream_destroy net cs) = base"
proof -
  obtain sk s where 1: "SocketStream_close (socket_ops net) cs = (sk, s)" by fastforce
  have "owns opened base sk s"
    using kept_by_stream(3) [OF kept_by_socket [OF assms(1)], of base cs] assms(2) 1 by (simp add: case_prod_beta)
  then show ?thesis using opened_destroy [OF assms(1) _ assms(3)] by (simp add: stream_destroy_def 1)
qed

text \<open>Both clients connect, send a request and receive a response; the socket owns its descriptor throughout.\<close>

lemma client_connects:
  assumes c: "net_contract net opened" and "sk_connect net a (- 1) (CreateTCP a) s = (ok, sk, s1)"
  shows "owns opened (opened s) sk s1" "owns opened (opened s) sk (setRecvTimeout net t sk s1)"
proof -
  have "owns opened (opened s) (CreateTCP a) s" by (simp add: CreateTCP_def)
  from owns_connect [OF c this assms(2)] show 1: "owns opened (opened s) sk s1" by blast
  show "owns opened (opened s) sk (setRecvTimeout net t sk s1)"
    by (rule owns_fields [OF 1]) (simp_all add: setRecvTimeout_def Let_def net_contract_rules [OF c])
qed

lemma client_exchanges:
  assumes c: "net_contract net opened" and o: "owns opened base sk s" and "sendRequest (socket_ops net) req (sk, s) = (rt, cs)"
  shows "owns opened base (fst cs) (snd cs)"
    "recvResponse mc cast n (socket_ops net) cs = Some (Inr (rsp, cs')) \<Longrightarrow> owns opened base (fst cs') (snd cs')"
proof -
  note k = kept_by_socket [OF c, of base]
  have "case cs of (sk, s) \<Rightarrow> owns opened base sk s"
    using writeFixSize_loop_keeps [OF k, of "(sk, s)"] o assms(3) by (auto simp: sendRequest_def writeFixSize_def)
  note 1 = this
  then show "owns opened base (fst cs) (snd cs)" by (simp add: case_prod_beta)
  show "owns opened base (fst cs') (snd cs')" if "recvResponse mc cast n (socket_ops net) cs = Some (Inr (rsp, cs'))"
    using recvResponse_keeps [OF k 1 that] by (simp add: case_prod_beta)
qed



section \<open>The websocket handshake\<close>

lemma ws_headers_eq:
  "ws_headers hs c h req =
     (c \<or> list_ex (\<lambda>p. ci_eq (fst p) ''connection'') hs, h \<or> list_ex (\<lambda>p. ci_eq (fst p) ''host'' \<and> snd p \<noteq> []) hs,
      req\<lparr>q_headers := fold (\<lambda>(k, v). hm_set k v) hs (q_headers req)\<rparr>)"
  by (induction hs c h req rule: ws_headers.induct) (auto simp: q_setHeader_def)

lemma hm_find_fold:
  "hm_find (fold (\<lambda>(k, v). hm_set k v) hs m) j =
     (case find (\<lambda>p. ci_eq (fst p) j) (rev hs) of Some p \<Rightarrow> Some (snd p) | None \<Rightarrow> hm_find m j)"
  by (induction hs rule: rev_induct) (auto simp: hm_find_set)

lemma header_names:
  "\<not> ci_eq ''Upgrade'' ''Connection''" "\<not> ci_eq ''Sec-WebSocket-Version'' ''Connection''" "\<not> ci_eq ''Sec-WebSocket-Key'' ''Connection''"
  "\<not> ci_eq ''Host'' ''Connection''" "\<not> ci_eq ''Sec-WebSocket-Version'' ''Upgrade''" "\<not> ci_eq ''Sec-WebSocket-Key'' ''Upgrade''"
  "\<not> ci_eq ''Sec-WebSocket-Key'' ''Sec-WebSocket-Version''" "\<not> ci_eq ''Upgrade'' ''Host''" "\<not> ci_eq ''Sec-WebSocket-Version'' ''Host''"
  "\<not> ci_eq ''Sec-WebSocket-Key'' ''Host''" "\<not> ci_eq ''Connection'' ''Host''" "ci_eq k ''connection'' \<longleftrightarrow> ci_eq k ''Connection''"
  "ci_eq k ''host'' \<longleftrightarrow> ci_eq k ''Host''" "ci_eq ''websocket'' ''websocket''" "ci_eq ''Upgrade'' ''Upgrade''"
  by (simp_all add: ci_eq_def ci_key_def c_str_def lower_def)

text \<open>
  C14. The two ends of the websocket handshake agree. The request of the client passes the server's test, whatever headers the caller adds, except when
  the caller's last \<open>Connection\<close> header is not \<open>Upgrade\<close>; its \<open>Host\<close> is the caller's if one is given that is not empty, else that of the URI. The text of the
  server's answer is the same for every key: the accept token is a constant, and the \<open>Connection\<close> header that the server sets is not written.
\<close>

theorem ws_handshake:
  assumes "icast ''13'' = Some 13"
  shows "(handshake_ok icast (ws_request st0 uri headers) \<longleftrightarrow>
      (case find (\<lambda>p. ci_eq (fst p) ''connection'') (rev headers) of None \<Rightarrow> True | Some p \<Rightarrow> ci_eq (snd p) ''Upgrade'')) \<and>
    hm_find (q_headers (ws_request st0 uri headers)) ''Host'' =
      (if list_ex (\<lambda>p. ci_eq (fst p) ''host'' \<and> snd p \<noteq> []) headers then map_option snd (find (\<lambda>p. ci_eq (fst p) ''host'') (rev headers)) else Some (u_host uri)) \<and>
    p_dump (handshake_response req) =
      version_text (q_version req) @ '' 101 Web socket protocol handleShake'' @ crlf @ ''Sec-WebSocket-Accept:xx'' @ crlf @ ''Upgrade:websocket'' @ crlf @
      connection_text (q_close req) @ crlf @ crlf"
proof -
  let ?q = "ws_request st0 uri headers" and ?m = "fold (\<lambda>(k, v). hm_set k v) headers []"
  let ?c = "find (\<lambda>p. ci_eq (fst p) ''connection'') (rev headers)"
  have h: "q_headers ?q = hm_set ''Sec-WebSocket-Key'' ''w4v7O6xFTi36lq3RNcgctw=='' (hm_set ''Sec-WebSocket-Version'' ''13'' (hm_set ''Upgrade'' ''websocket''
      ((if list_ex (\<lambda>p. ci_eq (fst p) ''host'' \<and> snd p \<noteq> []) headers then id else hm_set ''Host'' (u_host uri))
       ((if list_ex (\<lambda>p. ci_eq (fst p) ''connection'') headers then id else hm_set ''Connection'' ''Upgrade'') ?m))))"
    by (simp add: ws_request_def ws_headers_eq q_setHeader_def new_HttpRequest_def Let_def)
  have none: "list_ex P headers \<longleftrightarrow> find P (rev headers) \<noteq> None" for P by (auto simp: list_ex_iff find_None_iff)
  have "hm_find (q_headers ?q) ''Connection'' = Some (case ?c of None \<Rightarrow> ''Upgrade'' | Some p \<Rightarrow> snd p)"
    unfolding h none by (cases ?c) (auto simp: hm_find_set hm_find_fold header_names)
  moreover have "hm_find (q_headers ?q) ''Upgrade'' = Some ''websocket''" "hm_find (q_headers ?q) ''Sec-WebSocket-Version'' = Some ''13''"
    unfolding h by (simp_all add: hm_find_set header_names)
  ultimately have 1: "handshake_ok icast ?q \<longleftrightarrow> (case ?c of None \<Rightarrow> True | Some p \<Rightarrow> ci_eq (snd p) ''Upgrade'')"
    using assms by (simp add: handshake_ok_def q_getHeader_def getAs_def header_names split: option.split)
  have "hm_find ?m ''Host'' = map_option snd (find (\<lambda>p. ci_eq (fst p) ''host'') (rev headers))"
    by (simp add: hm_find_fold header_names split: option.split)
  then have 2: "hm_find (q_headers ?q) ''Host'' =
      (if list_ex (\<lambda>p. ci_eq (fst p) ''host'' \<and> snd p \<noteq> []) headers then map_option snd (find (\<lambda>p. ci_eq (fst p) ''host'') (rev headers)) else Some (u_host uri))"
    unfolding h by (simp add: hm_find_set header_names)
  have 3: "p_dump (handshake_response req) =
      version_text (q_version req) @ '' 101 Web socket protocol handleShake'' @ crlf @ ''Sec-WebSocket-Accept:xx'' @ crlf @ ''Upgrade:websocket'' @ crlf @
      connection_text (q_close req) @ crlf @ crlf"
  proof -
    have hs: "p_headers (handshake_response req) = [(''Connection'', ''Upgrade''), (''Sec-WebSocket-Accept'', ''xx''), (''Upgrade'', ''websocket'')]"
      by (simp add: handshake_response_def new_HttpResponse_def p_setHeader_def Let_def) code_simp
    have rest: "p_version (handshake_response req) = q_version req" "p_close (handshake_response req) = q_close req" "p_status (handshake_response req) = 101"
      "p_reason (handshake_response req) = ''Web socket protocol handleShake''" "p_body (handshake_response req) = []"
      by (simp_all add: handshake_response_def new_HttpResponse_def p_setHeader_def Let_def)
    have "dec 101 = ''101''" "\<not> ci_eq ''Sec-WebSocket-Accept'' ''connection''" "\<not> ci_eq ''Upgrade'' ''connection''" "ci_eq ''Connection'' ''connection''"
      by code_simp+
    then show ?thesis by (simp add: p_dump_def hs rest)
  qed
  show ?thesis using 1 2 3 by blast
qed

theorem ws_handshake_witness:
  "handshake_ok (\<lambda>s. if s = ''13'' then Some 13 else None)
     (ws_request 0 \<lparr>u_path = ''/'', u_query = [], u_fragment = [], u_host = ''h''\<rparr> [(''Connection'', ''close''), (''connection'', ''upgrade'')])"
  using ws_handshake [of "\<lambda>s. if s = ''13'' then Some 13 else None" 0 "\<lparr>u_path = ''/'', u_query = [], u_fragment = [], u_host = ''h''\<rparr>"
      "[(''Connection'', ''close''), (''connection'', ''upgrade'')]"]
  by (simp add: header_names ci_eq_def ci_key_def c_str_def lower_def)

end
