(* ===== verification/Yaml.thy ===== *)
theory Yaml imports Containers Text begin

text \<open>
  The values of the configuration as text (\<^verbatim>\<open>seaice/config2.h\<close>): the trees of the YAML library as far as the code looks into
  them, and the conversions \<^verbatim>\<open>LexicalCast\<close> between the containers and text. Parsing and printing of trees (\<^verbatim>\<open>YAML::Load\<close>,
  \<^verbatim>\<open>operator<<\<close>) and the conversion of the elements (\<^verbatim>\<open>boost::lexical_cast\<close>) are parameters: \<open>load\<close>, \<open>emit\<close>, \<open>from\<close> and \<open>to\<close>.
  An exception is a fault for which \<open>is_exception\<close> holds.
\<close>

section \<open>Trees\<close>

datatype yaml = YNull | YScalar string | YSeq "yaml list" | YMap "(yaml \<times> yaml) list"

text \<open>\<^verbatim>\<open>Scalar()\<close> is the text of a scalar and empty for the other kinds; \<^verbatim>\<open>size()\<close> counts elements or pairs.\<close>

primrec Scalar :: "yaml \<Rightarrow> string" where
  "Scalar YNull = []"
| "Scalar (YScalar s) = s"
| "Scalar (YSeq l) = []"
| "Scalar (YMap m) = []"

primrec node_size :: "yaml \<Rightarrow> nat" where
  "node_size YNull = 0"
| "node_size (YScalar s) = 0"
| "node_size (YSeq l) = length l"
| "node_size (YMap m) = length m"

text \<open>The pairs that an iterator visits: on a sequence \<^verbatim>\<open>it->first\<close> is no valid node, and to ask for its text throws.\<close>

fun node_pairs :: "yaml \<Rightarrow> fault + (yaml \<times> yaml) list" where
  "node_pairs (YMap m) = Inr m"
| "node_pairs (YSeq (_ # _)) = Inl InvalidArgument"
| "node_pairs _ = Inr []"

section \<open>Containers\<close>

fun rmap :: "('a \<Rightarrow> fault + 'b) \<Rightarrow> 'a list \<Rightarrow> fault + 'b list" where
  "rmap f [] = Inr []"
| "rmap f (x # xs) = rbind (f x) (\<lambda>y. rbind (rmap f xs) (\<lambda>ys. Inr (y # ys)))"

lemma rmap_Inr: "(\<And>x. x \<in> set xs \<Longrightarrow> f x = Inr (g x)) \<Longrightarrow> rmap f xs = Inr (map g xs)"
  by (induction xs) auto

text \<open>\<^verbatim>\<open>std::set\<close> and \<^verbatim>\<open>std::map\<close> as lists in the order of their elements; \<^verbatim>\<open>insert\<close> keeps what is equivalent and there.\<close>

fun tree_insert :: "('a \<Rightarrow> 'a \<Rightarrow> bool) \<Rightarrow> 'a \<Rightarrow> 'a list \<Rightarrow> 'a list" where
  "tree_insert lt x [] = [x]"
| "tree_insert lt x (y # ys) =
     (if lt x y then x # y # ys else if lt y x then y # tree_insert lt x ys else y # ys)"

fun tree_find :: "('a \<Rightarrow> 'a \<Rightarrow> bool) \<Rightarrow> 'a \<Rightarrow> 'a list \<Rightarrow> 'a option" where
  "tree_find lt x [] = None"
| "tree_find lt x (y # ys) = (if \<not> lt x y \<and> \<not> lt y x then Some y else tree_find lt x ys)"

text \<open>The order of strings.\<close>

fun str_less :: "string \<Rightarrow> string \<Rightarrow> bool" where
  "str_less s [] = False"
| "str_less [] (b # t) = True"
| "str_less (a # s) (b # t) =
     (if (of_char a :: nat) < of_char b then True else if (of_char b :: nat) < of_char a then False else str_less s t)"

definition key_less :: "string \<times> 'a \<Rightarrow> string \<times> 'a \<Rightarrow> bool" where
  "key_less p q = str_less (fst p) (fst q)"

text \<open>\<^verbatim>\<open>idx\<close> is the indexing of a node.\<close>

definition vector_from ::
  "(string \<Rightarrow> fault + yaml) \<Rightarrow> (yaml \<Rightarrow> string) \<Rightarrow> (yaml \<Rightarrow> nat \<Rightarrow> yaml) \<Rightarrow> (string \<Rightarrow> fault + 'a) \<Rightarrow> string \<Rightarrow> fault + 'a list" where
  "vector_from load emit idx from v =
     rbind (load v) (\<lambda>node. rmap (\<lambda>i. from (emit (idx node i))) [0..<node_size node])"

definition vector_to ::
  "(string \<Rightarrow> fault + yaml) \<Rightarrow> (yaml \<Rightarrow> string) \<Rightarrow> ('a \<Rightarrow> fault + string) \<Rightarrow> 'a list \<Rightarrow> fault + string" where
  "vector_to load emit to v = rbind (rmap (\<lambda>x. rbind (to x) load) v) (\<lambda>nodes. Inr (emit (YSeq nodes)))"

definition set_from ::
  "(string \<Rightarrow> fault + yaml) \<Rightarrow> (yaml \<Rightarrow> string) \<Rightarrow> (yaml \<Rightarrow> nat \<Rightarrow> yaml) \<Rightarrow> ('a \<Rightarrow> 'a \<Rightarrow> bool) \<Rightarrow> (string \<Rightarrow> fault + 'a) \<Rightarrow>
     string \<Rightarrow> fault + 'a list" where
  "set_from load emit idx lt from v =
     rbind (load v) (\<lambda>node. rbind (rmap (\<lambda>i. from (emit (idx node i))) [0..<node_size node])
       (\<lambda>xs. Inr (fold (tree_insert lt) xs [])))"

definition map_from ::
  "(string \<Rightarrow> fault + yaml) \<Rightarrow> (yaml \<Rightarrow> string) \<Rightarrow> (string \<Rightarrow> fault + 'a) \<Rightarrow> string \<Rightarrow> fault + (string \<times> 'a) list" where
  "map_from load emit from v =
     rbind (load v) (\<lambda>node. rbind (node_pairs node) (\<lambda>pairs.
       rbind (rmap (\<lambda>(k, n). rbind (from (emit n)) (\<lambda>x. Inr (Scalar k, x))) pairs)
         (\<lambda>ps. Inr (fold (tree_insert key_less) ps []))))"

definition map_to ::
  "(string \<Rightarrow> fault + yaml) \<Rightarrow> (yaml \<Rightarrow> string) \<Rightarrow> ('a \<Rightarrow> fault + string) \<Rightarrow> (string \<times> 'a) list \<Rightarrow> fault + string" where
  "map_to load emit to v =
     rbind (rmap (\<lambda>(k, x). rbind (rbind (to x) load) (\<lambda>n. Inr (YScalar k, n))) v) (\<lambda>pairs. Inr (emit (YMap pairs)))"

section \<open>Ordered lists\<close>

lemma str_less_irrefl [simp]: "\<not> str_less s s"
  by (induction s) auto

lemma str_less_asym: "str_less s t \<Longrightarrow> \<not> str_less t s"
  by (induction s t rule: str_less.induct) (auto split: if_splits)

lemma str_less_total: "\<not> str_less s t \<Longrightarrow> \<not> str_less t s \<Longrightarrow> s = t"
proof (induction s t rule: str_less.induct)
  case (1 s)
  then show ?case by (cases s) auto
next
  case (3 a s b t)
  then have "(of_char a :: nat) = of_char b" by (auto split: if_splits)
  then have "a = b" by simp
  then show ?case using 3 by simp
qed simp

lemma str_less_trans: "str_less s t \<Longrightarrow> str_less t u \<Longrightarrow> str_less s u"
proof (induction s t arbitrary: u rule: str_less.induct)
  case (2 b t)
  then show ?case by (cases u) auto
next
  case (3 a s b t)
  then show ?case by (cases u) (auto split: if_splits)
qed simp

lemma tree_insert_last:
  "(\<And>y. y \<in> set ys \<Longrightarrow> lt y x \<and> \<not> lt x y) \<Longrightarrow> tree_insert lt x ys = ys @ [x]"
  by (induction ys) auto

lemma fold_tree_insert:
  assumes "\<And>x y. lt x y \<Longrightarrow> \<not> lt y x" "sorted_wrt lt (as @ xs)"
  shows "fold (tree_insert lt) xs as = as @ xs"
  using assms(2)
proof (induction xs arbitrary: as)
  case (Cons x xs)
  then have "tree_insert lt x as = as @ [x]"
    using assms(1) by (intro tree_insert_last) (auto simp: sorted_wrt_append)
  then show ?case using Cons.IH [of "as @ [x]"] Cons.prems by simp
qed simp

section \<open>Round trips\<close>

text \<open>What a pair of conversions must do for one value: its text loads as a node, whose text gives the value back.\<close>

definition carries ::
  "(string \<Rightarrow> fault + yaml) \<Rightarrow> (yaml \<Rightarrow> string) \<Rightarrow> ('a \<Rightarrow> fault + string) \<Rightarrow> (string \<Rightarrow> fault + 'a) \<Rightarrow> 'a \<Rightarrow> bool" where
  "carries load emit to from x \<longleftrightarrow> (\<exists>n. rbind (to x) load = Inr n \<and> from (emit n) = Inr x)"

text \<open>The laws of the YAML library: printing and loading gives a tree back, and sequences are indexed from 0.\<close>

definition yaml_laws :: "(string \<Rightarrow> fault + yaml) \<Rightarrow> (yaml \<Rightarrow> string) \<Rightarrow> (yaml \<Rightarrow> nat \<Rightarrow> yaml) \<Rightarrow> bool" where
  "yaml_laws load emit idx \<longleftrightarrow> (\<forall>n. load (emit n) = Inr n) \<and> (\<forall>l. \<forall>i < length l. idx (YSeq l) i = l ! i)"

lemma carries_nodes:
  assumes "\<And>x. x \<in> set xs \<Longrightarrow> carries load emit to from x"
  obtains g where "\<forall>x \<in> set xs. rbind (to x) load = Inr (g x)" "\<forall>x \<in> set xs. from (emit (g x)) = Inr x"
proof -
  have "\<forall>x \<in> set xs. \<exists>n. rbind (to x) load = Inr n \<and> from (emit n) = Inr x" using assms by (simp add: carries_def)
  then obtain g where "\<forall>x \<in> set xs. rbind (to x) load = Inr (g x) \<and> from (emit (g x)) = Inr x" by metis
  then show thesis by (intro that [of g]) auto
qed

lemma elements_back:
  assumes "yaml_laws load emit idx" and "\<And>x. x \<in> set xs \<Longrightarrow> from (emit (g x)) = Inr x"
  shows "rmap (\<lambda>i. from (emit (idx (YSeq (map g xs)) i))) [0..<length xs] = Inr xs"
proof -
  have "rmap (\<lambda>i. from (emit (idx (YSeq (map g xs)) i))) [0..<length xs] = Inr (map ((!) xs) [0..<length xs])"
    using assms by (intro rmap_Inr) (auto simp: yaml_laws_def)
  then show ?thesis by (simp add: map_nth)
qed

lemma vector_carries:
  assumes laws: "yaml_laws load emit idx" and elems: "\<And>x. x \<in> set xs \<Longrightarrow> carries load emit to from x"
  shows "carries load emit (vector_to load emit to) (vector_from load emit idx from) xs"
proof -
  obtain g where "\<forall>x \<in> set xs. rbind (to x) load = Inr (g x)" "\<forall>x \<in> set xs. from (emit (g x)) = Inr x"
    using carries_nodes [OF elems] by blast
  then have g: "\<And>x. x \<in> set xs \<Longrightarrow> rbind (to x) load = Inr (g x)" "\<And>x. x \<in> set xs \<Longrightarrow> from (emit (g x)) = Inr x" by blast+
  have load: "load (emit n) = Inr n" for n using laws by (simp add: yaml_laws_def)
  have "rbind (vector_to load emit to xs) load = Inr (YSeq (map g xs))"
    using rmap_Inr [of xs "\<lambda>x. rbind (to x) load" g] g(1) by (simp add: vector_to_def load)
  moreover have "vector_from load emit idx from (emit (YSeq (map g xs))) = Inr xs"
    using elements_back [OF laws g(2)] by (simp add: vector_from_def load)
  ultimately show ?thesis by (auto simp: carries_def)
qed

lemma set_carries:
  assumes laws: "yaml_laws load emit idx" and elems: "\<And>x. x \<in> set xs \<Longrightarrow> carries load emit to from x"
    and "sorted_wrt lt xs" "\<And>x y. lt x y \<Longrightarrow> \<not> lt y x"
  shows "carries load emit (vector_to load emit to) (set_from load emit idx lt from) xs"
proof -
  obtain g where "\<forall>x \<in> set xs. rbind (to x) load = Inr (g x)" "\<forall>x \<in> set xs. from (emit (g x)) = Inr x"
    using carries_nodes [OF elems] by blast
  then have g: "\<And>x. x \<in> set xs \<Longrightarrow> rbind (to x) load = Inr (g x)" "\<And>x. x \<in> set xs \<Longrightarrow> from (emit (g x)) = Inr x" by blast+
  have load: "load (emit n) = Inr n" for n using laws by (simp add: yaml_laws_def)
  have "rbind (vector_to load emit to xs) load = Inr (YSeq (map g xs))"
    using rmap_Inr [of xs "\<lambda>x. rbind (to x) load" g] g(1) by (simp add: vector_to_def load)
  moreover have "set_from load emit idx lt from (emit (YSeq (map g xs))) = Inr xs"
    using elements_back [OF laws g(2)] fold_tree_insert [of lt "[]" xs] assms(3,4) by (simp add: set_from_def load)
  ultimately show ?thesis by (auto simp: carries_def)
qed

lemma map_carries:
  assumes laws: "yaml_laws load emit idx" and elems: "\<And>k x. (k, x) \<in> set xs \<Longrightarrow> carries load emit to from x"
    and "sorted_wrt key_less xs"
  shows "carries load emit (map_to load emit to) (map_from load emit from) xs"
proof -
  have "carries load emit to from x" if "x \<in> snd ` set xs" for x using that elems by auto
  then have elems': "\<And>x. x \<in> set (map snd xs) \<Longrightarrow> carries load emit to from x" by simp
  obtain g where "\<forall>x \<in> set (map snd xs). rbind (to x) load = Inr (g x)" "\<forall>x \<in> set (map snd xs). from (emit (g x)) = Inr x"
    using carries_nodes [OF elems'] by blast
  then have g: "\<And>x. x \<in> set (map snd xs) \<Longrightarrow> rbind (to x) load = Inr (g x)"
    "\<And>x. x \<in> set (map snd xs) \<Longrightarrow> from (emit (g x)) = Inr x" by blast+
  have load: "load (emit n) = Inr n" for n using laws by (simp add: yaml_laws_def)
  let ?pairs = "map (\<lambda>(k, x). (YScalar k, g x)) xs"
  have "rmap (\<lambda>(k, x). rbind (rbind (to x) load) (\<lambda>n. Inr (YScalar k, n))) xs = Inr ?pairs"
    using g(1) by (intro rmap_Inr) force
  then have "rbind (map_to load emit to xs) load = Inr (YMap ?pairs)" by (simp add: map_to_def load)
  moreover have "rmap (\<lambda>(k, n). rbind (from (emit n)) (\<lambda>x. Inr (Scalar k, x))) ?pairs = Inr xs"
    using g(2) by (induction xs) (auto simp: image_iff)
  moreover have "fold (tree_insert key_less) xs [] = xs"
    using fold_tree_insert [of key_less "[]" xs] assms(3) str_less_asym by (simp add: key_less_def)
  ultimately have "map_from load emit from (emit (YMap ?pairs)) = Inr xs" by (simp add: map_from_def load)
  with \<open>rbind (map_to load emit to xs) load = Inr (YMap ?pairs)\<close> show ?thesis by (auto simp: carries_def)
qed

text \<open>
  A format that satisfies the laws: a scalar is a quote and its characters, each behind a plus; a sequence or a map lies between
  brackets. The reader keeps the unfinished sequences as a stack.
\<close>

fun plain_emit :: "yaml \<Rightarrow> string" where
  "plain_emit YNull = ''n''"
| "plain_emit (YScalar s) = CHR 0x22 # concat (map (\<lambda>c. [CHR ''+'', c]) s)"
| "plain_emit (YSeq l) = ''['' @ concat (map plain_emit l) @ '']''"
| "plain_emit (YMap m) = ''['' @ concat (map (\<lambda>(k, n). plain_emit k @ plain_emit n) m) @ ''}''"

fun paired :: "'a list \<Rightarrow> ('a \<times> 'a) list" where
  "paired (k # n # l) = (k, n) # paired l"
| "paired _ = []"

fun add_char :: "char \<Rightarrow> yaml list list \<Rightarrow> yaml list list" where
  "add_char c ((YScalar t # f) # fs) = (YScalar (t @ [c]) # f) # fs"
| "add_char c fs = fs"

fun plain_close :: "char \<Rightarrow> yaml list list \<Rightarrow> yaml list list" where
  "plain_close c (f # g # fs) = ((if c = CHR '']'' then YSeq (rev f) else YMap (paired (rev f))) # g) # fs"
| "plain_close c fs = fs"

fun plain_push :: "yaml \<Rightarrow> yaml list list \<Rightarrow> yaml list list" where
  "plain_push n (f # fs) = (n # f) # fs"
| "plain_push n [] = []"

fun plain_run :: "string \<Rightarrow> yaml list list \<Rightarrow> yaml list list" where
  "plain_run [] fs = fs"
| "plain_run (c # s) fs =
     (if c = CHR ''n'' then plain_run s (plain_push YNull fs)
      else if c = CHR 0x22 then plain_run s (plain_push (YScalar []) fs)
      else if c = CHR ''['' then plain_run s ([] # fs)
      else if c = CHR ''+'' then (case s of [] \<Rightarrow> fs | d # s' \<Rightarrow> plain_run s' (add_char d fs))
      else plain_run s (plain_close c fs))"

definition plain_load :: "string \<Rightarrow> fault + yaml" where
  "plain_load s = (case plain_run s [[]] of [[n]] \<Rightarrow> Inr n | _ \<Rightarrow> Inl InvalidArgument)"

definition plain_idx :: "yaml \<Rightarrow> nat \<Rightarrow> yaml" where
  "plain_idx n i = (case n of YSeq l \<Rightarrow> if i < length l then l ! i else YNull | _ \<Rightarrow> YNull)"

lemma plain_run_chars:
  "plain_run (concat (map (\<lambda>c. [CHR ''+'', c]) s) @ r) ((YScalar t # f) # fs) = plain_run r ((YScalar (t @ s) # f) # fs)"
  by (induction s arbitrary: t) simp_all

lemma plain_run_list:
  assumes "\<And>n f fs r. n \<in> set l \<Longrightarrow> plain_run (plain_emit n @ r) (f # fs) = plain_run r ((n # f) # fs)"
  shows "plain_run (concat (map plain_emit l) @ r) (f # fs) = plain_run r ((rev l @ f) # fs)"
  using assms by (induction l arbitrary: f) simp_all

lemma plain_run_pairs:
  assumes "\<And>n f fs r. n \<in> fst ` set m \<union> snd ` set m \<Longrightarrow> plain_run (plain_emit n @ r) (f # fs) = plain_run r ((n # f) # fs)"
  shows "plain_run (concat (map (\<lambda>(k, n). plain_emit k @ plain_emit n) m) @ r) (f # fs) =
    plain_run r ((rev (concat (map (\<lambda>(k, n). [k, n]) m)) @ f) # fs)"
  using assms
proof (induction m arbitrary: f)
  case (Cons p m)
  obtain k n where p: "p = (k, n)" by (cases p)
  have "plain_run (concat (map (\<lambda>(k, n). plain_emit k @ plain_emit n) m) @ r) (f' # fs) =
      plain_run r ((rev (concat (map (\<lambda>(k, n). [k, n]) m)) @ f') # fs)" for f'
    by (rule Cons.IH; rule Cons.prems) auto
  then show ?case using Cons.prems [of k] Cons.prems [of n] by (simp add: p)
qed simp

lemma paired_concat: "paired (concat (map (\<lambda>(k, n). [k, n]) m)) = m"
  by (induction m) auto

lemma plain_run_emit: "plain_run (plain_emit n @ r) (f # fs) = plain_run r ((n # f) # fs)"
proof (induction n arbitrary: f fs r)
  case (YScalar s)
  then show ?case using plain_run_chars [of s r "[]"] by simp
next
  case (YSeq l)
  then show ?case using plain_run_list [of l] by simp
next
  case (YMap m)
  have "plain_run (concat (map (\<lambda>(k, n). plain_emit k @ plain_emit n) m) @ ''}'' @ r) ([] # f # fs) =
      plain_run (''}'' @ r) ((rev (concat (map (\<lambda>(k, n). [k, n]) m)) @ []) # f # fs)"
    by (rule plain_run_pairs) (use YMap in \<open>force simp: image_iff\<close>)
  then show ?case using paired_concat [of m] by simp
qed simp

lemma plain_laws: "yaml_laws plain_load plain_emit plain_idx"
  using plain_run_emit [of _ "[]" "[]" "[]"] by (auto simp: yaml_laws_def plain_load_def plain_idx_def)

lemma carries_back:
  assumes "carries load emit to from x" "\<And>s n. to x = Inr s \<Longrightarrow> load s = Inr n \<Longrightarrow> s = emit n"
  shows "rbind (to x) from = Inr x"
  using assms by (cases "to x") (auto simp: carries_def)

text \<open>
  The containers of the configuration survive their text: where the YAML library gives back what it prints and every element
  survives its own conversion, so do vectors, sets and maps of them, and so by composition vectors of maps and any deeper
  nesting. For a set and a map this rests on the order in which their elements are visited.
\<close>

theorem container_casts_roundtrip:
  assumes laws: "yaml_laws load emit idx" and elems: "\<And>x. x \<in> set xs \<Longrightarrow> carries load emit to from x"
    and vals: "\<And>k x. (k, x) \<in> set kvs \<Longrightarrow> carries load emit to from x"
    and ord: "\<And>x y. lt x y \<Longrightarrow> \<not> lt y x" "sorted_wrt lt xs" "sorted_wrt key_less kvs"
  shows "rbind (vector_to load emit to xs) (vector_from load emit idx from) = Inr xs \<and>
    rbind (vector_to load emit to xs) (set_from load emit idx lt from) = Inr xs \<and>
    rbind (map_to load emit to kvs) (map_from load emit from) = Inr kvs \<and>
    carries load emit (vector_to load emit (map_to load emit to)) (vector_from load emit idx (map_from load emit from)) [kvs]"
proof -
  have load: "load (emit n) = Inr n" for n using laws by (simp add: yaml_laws_def)
  have v: "s = emit n" if "vector_to load emit to xs = Inr s" "load s = Inr n" for s n
    using that by (auto simp: vector_to_def rbind_eq_Inr load)
  have m: "s = emit n" if "map_to load emit to kvs = Inr s" "load s = Inr n" for s n
    using that by (auto simp: map_to_def rbind_eq_Inr load)
  have mc: "carries load emit (map_to load emit to) (map_from load emit from) kvs"
    by (rule map_carries [OF laws vals ord(3)])
  have "rbind (vector_to load emit to xs) (vector_from load emit idx from) = Inr xs"
    by (rule carries_back [OF vector_carries [OF laws elems] v])
  moreover have "rbind (vector_to load emit to xs) (set_from load emit idx lt from) = Inr xs"
    by (rule carries_back [OF set_carries [OF laws elems ord(2,1)] v])
  moreover have "rbind (map_to load emit to kvs) (map_from load emit from) = Inr kvs"
    by (rule carries_back [OF mc m])
  moreover have "carries load emit (vector_to load emit (map_to load emit to)) (vector_from load emit idx (map_from load emit from)) [kvs]"
    by (rule vector_carries [OF laws]) (use mc in simp)
  ultimately show ?thesis by blast
qed

theorem container_casts_roundtrip_witness:
  "rbind (map_to plain_load plain_emit (\<lambda>s. Inr (plain_emit (YScalar s))) [(''a'', ''1''), (''b'', ''2'')])
     (map_from plain_load plain_emit (\<lambda>s. rbind (plain_load s) (\<lambda>n. Inr (Scalar n)))) = Inr [(''a'', ''1''), (''b'', ''2'')]"
proof -
  have load: "plain_load (plain_emit n) = Inr n" for n using plain_laws by (simp add: yaml_laws_def)
  have e: "carries plain_load plain_emit (\<lambda>s. Inr (plain_emit (YScalar s))) (\<lambda>s. rbind (plain_load s) (\<lambda>n. Inr (Scalar n))) x" for x
    unfolding carries_def by (rule exI [of _ "YScalar x"]) (simp add: load del: plain_emit.simps)
  have "sorted_wrt key_less [(''a'', ''1''), (''b'', ''2'')]" by (simp add: key_less_def)
  then show ?thesis
    using container_casts_roundtrip [OF plain_laws, of "[]" "\<lambda>s. Inr (plain_emit (YScalar s))"
        "\<lambda>s. rbind (plain_load s) (\<lambda>n. Inr (Scalar n))" "[(''a'', ''1''), (''b'', ''2'')]" "\<lambda>_ _. False"] e
    by simp
qed

end
