(* ===== verification/Config.thy ===== *)
theory Config imports Yaml begin

text \<open>
  The configuration (\<^verbatim>\<open>seaice/config2.h\<close>, \<^verbatim>\<open>seaice/config2.cpp\<close>): named variables of any type with listeners, the registry that
  holds them, and the loading of a YAML tree or of a directory of files into the registry. The values of all types are one
  type \<open>'v\<close>; a variable keeps the name of its C++ type, which a typed lookup compares. The state of the program that the
  listeners change is \<open>'s\<close>: \<open>run cb old new s\<close> calls a listener, which may throw.
\<close>

section \<open>Variables\<close>

record ('v, 'cb) config_var =
  cv_name :: string
  cv_desc :: string
  cv_type :: string
  cv_val :: 'v
  cv_from :: "string \<Rightarrow> fault + 'v"
  cv_to :: "'v \<Rightarrow> fault + string"
  cv_cbs :: "(nat \<times> 'cb) list"

definition new_ConfigVar ::
  "string \<Rightarrow> 'v \<Rightarrow> string \<Rightarrow> string \<Rightarrow> (string \<Rightarrow> fault + 'v) \<Rightarrow> ('v \<Rightarrow> fault + string) \<Rightarrow> ('v, 'cb) config_var" where
  "new_ConfigVar name default_value desc type from to =
     \<lparr>cv_name = str_lower name, cv_desc = desc, cv_type = type, cv_val = default_value, cv_from = from, cv_to = to, cv_cbs = []\<rparr>"

text \<open>The calls of the listeners, in the order of their keys, up to the first that throws.\<close>

fun run_cbs :: "('cb \<Rightarrow> 'v \<Rightarrow> 'v \<Rightarrow> 's \<Rightarrow> fault option \<times> 's) \<Rightarrow> (nat \<times> 'cb) list \<Rightarrow> 'v \<Rightarrow> 'v \<Rightarrow> 's \<Rightarrow> fault option \<times> 's" where
  "run_cbs run [] old new s = (None, s)"
| "run_cbs run ((i, cb) # cbs) old new s =
     (case run cb old new s of
        (Some e, s) \<Rightarrow> (Some e, s)
      | (None, s) \<Rightarrow> run_cbs run cbs old new s)"

definition setValue ::
  "('cb \<Rightarrow> 'v \<Rightarrow> 'v \<Rightarrow> 's \<Rightarrow> fault option \<times> 's) \<Rightarrow> 'v \<Rightarrow> ('v, 'cb) config_var \<Rightarrow> 's \<Rightarrow> fault option \<times> ('v, 'cb) config_var \<times> 's" where
  "setValue run t v s =
     (if cv_val v = t then (None, v, s)
      else case run_cbs run (cv_cbs v) (cv_val v) t s of
        (Some e, s) \<Rightarrow> (Some e, v, s)
      | (None, s) \<Rightarrow> (None, v\<lparr>cv_val := t\<rparr>, s))"

text \<open>\<^verbatim>\<open>fromString\<close> catches every exception of the conversion and of the listeners; its result is always false.\<close>

definition fromString ::
  "('cb \<Rightarrow> 'v \<Rightarrow> 'v \<Rightarrow> 's \<Rightarrow> fault option \<times> 's) \<Rightarrow> string \<Rightarrow> ('v, 'cb) config_var \<Rightarrow> 's \<Rightarrow>
     (fault + bool) \<times> ('v, 'cb) config_var \<times> 's" where
  "fromString run val v s =
     (case cv_from v val of
        Inl e \<Rightarrow> (if is_exception e then Inr False else Inl e, v, s)
      | Inr t \<Rightarrow>
          (case setValue run t v s of
             (Some e, v, s) \<Rightarrow> (if is_exception e then Inr False else Inl e, v, s)
           | (None, v, s) \<Rightarrow> (Inr False, v, s)))"

definition cv_toString :: "('v, 'cb) config_var \<Rightarrow> fault + string" where
  "cv_toString v = (case cv_to v (cv_val v) of Inr s \<Rightarrow> Inr s | Inl e \<Rightarrow> if is_exception e then Inr [] else Inl e)"

text \<open>The map of listeners is ordered by key. The last key is a static variable that all variables of one type share.\<close>

fun cb_put :: "nat \<Rightarrow> 'cb \<Rightarrow> (nat \<times> 'cb) list \<Rightarrow> (nat \<times> 'cb) list" where
  "cb_put k cb [] = [(k, cb)]"
| "cb_put k cb ((i, c) # cbs) = (if k < i then (k, cb) # (i, c) # cbs else if i < k then (i, c) # cb_put k cb cbs else (k, cb) # cbs)"

definition addListener :: "'cb \<Rightarrow> nat \<Rightarrow> ('v, 'cb) config_var \<Rightarrow> nat \<times> nat \<times> ('v, 'cb) config_var" where
  "addListener cb s_cb_id v = (let s_cb_id = s_cb_id + 1 in (s_cb_id, s_cb_id, v\<lparr>cv_cbs := cb_put s_cb_id cb (cv_cbs v)\<rparr>))"

definition delListener :: "nat \<Rightarrow> ('v, 'cb) config_var \<Rightarrow> ('v, 'cb) config_var" where
  "delListener key v = v\<lparr>cv_cbs := map_erase key (cv_cbs v)\<rparr>"

definition getListener :: "nat \<Rightarrow> ('v, 'cb) config_var \<Rightarrow> 'cb option" where
  "getListener key v = map_of (cv_cbs v) key"

definition clearListener :: "('v, 'cb) config_var \<Rightarrow> ('v, 'cb) config_var" where
  "clearListener v = v\<lparr>cv_cbs := []\<rparr>"

section \<open>The registry\<close>

type_synonym ('v, 'cb) registry = "(string \<times> ('v, 'cb) config_var) list"

definition name_chars :: string where
  "name_chars = ''abcdefghikjlmnopqrstuvwxyz._012345678''"

definition valid_name :: "string \<Rightarrow> bool" where
  "valid_name name \<longleftrightarrow> set name \<subseteq> set name_chars"

text \<open>A typed lookup that registers what is not there; its result is the key of a variable, or none for a null pointer.\<close>

definition Config2_Lookup ::
  "string \<Rightarrow> 'v \<Rightarrow> string \<Rightarrow> string \<Rightarrow> (string \<Rightarrow> fault + 'v) \<Rightarrow> ('v \<Rightarrow> fault + string) \<Rightarrow> ('v, 'cb) registry \<Rightarrow>
     fault + string option \<times> ('v, 'cb) registry" where
  "Config2_Lookup name default_value desc type from to datas =
     (case map_of datas name of
        Some v \<Rightarrow> if cv_type v = type then Inr (Some name, datas) else Inr (None, datas)
      | None \<Rightarrow>
          if \<not> valid_name name then Inl InvalidArgument
          else Inr (Some name, AList.update name (new_ConfigVar name default_value desc type from to) datas))"

definition Config2_Lookup_name :: "string \<Rightarrow> string \<Rightarrow> ('v, 'cb) registry \<Rightarrow> string option" where
  "Config2_Lookup_name type name datas =
     (case map_of datas name of None \<Rightarrow> None | Some v \<Rightarrow> if cv_type v = type then Some name else None)"

definition LookupBase :: "string \<Rightarrow> ('v, 'cb) registry \<Rightarrow> ('v, 'cb) config_var option" where
  "LookupBase name datas = map_of datas name"

definition Visit :: "(('v, 'cb) config_var \<Rightarrow> 's \<Rightarrow> 's) \<Rightarrow> ('v, 'cb) registry \<Rightarrow> 's \<Rightarrow> 's" where
  "Visit cb datas s = fold (\<lambda>(k, v). cb v) datas s"

section \<open>Loading\<close>

definition sub_key :: "string \<Rightarrow> string \<Rightarrow> string" where
  "sub_key prefix k = (if prefix = [] then k else prefix @ ''.'' @ k)"

fun ListAllMember :: "string \<Rightarrow> yaml \<Rightarrow> (string \<times> yaml) list" where
  "ListAllMember prefix (YMap m) =
     (if \<not> valid_name prefix then []
      else (prefix, YMap m) # concat (map (\<lambda>(k, n). ListAllMember (sub_key prefix (Scalar k)) n) m))"
| "ListAllMember prefix node = (if \<not> valid_name prefix then [] else [(prefix, node)])"

definition node_text :: "(yaml \<Rightarrow> string) \<Rightarrow> yaml \<Rightarrow> string" where
  "node_text emit node = (case node of YScalar s \<Rightarrow> s | _ \<Rightarrow> emit node)"

fun load_entries ::
  "('cb \<Rightarrow> 'v \<Rightarrow> 'v \<Rightarrow> 's \<Rightarrow> fault option \<times> 's) \<Rightarrow> (yaml \<Rightarrow> string) \<Rightarrow> (string \<times> yaml) list \<Rightarrow> ('v, 'cb) registry \<Rightarrow> 's \<Rightarrow>
     fault + ('v, 'cb) registry \<times> 's" where
  "load_entries run emit [] datas s = Inr (datas, s)"
| "load_entries run emit ((key, node) # es) datas s =
     (if key = [] then load_entries run emit es datas s
      else case LookupBase (str_lower key) datas of
        None \<Rightarrow> load_entries run emit es datas s
      | Some v \<Rightarrow>
          (case fromString run (node_text emit node) v s of
             (Inl e, v, s) \<Rightarrow> Inl e
           | (Inr b, v, s) \<Rightarrow> load_entries run emit es (AList.update (str_lower key) v datas) s))"

definition LoadFromYaml ::
  "('cb \<Rightarrow> 'v \<Rightarrow> 'v \<Rightarrow> 's \<Rightarrow> fault option \<times> 's) \<Rightarrow> (yaml \<Rightarrow> string) \<Rightarrow> yaml \<Rightarrow> ('v, 'cb) registry \<Rightarrow> 's \<Rightarrow>
     fault + ('v, 'cb) registry \<times> 's" where
  "LoadFromYaml run emit root datas s = load_entries run emit (ListAllMember [] root) datas s"

text \<open>
  The files of a directory: \<open>mtime\<close> and \<open>load_file\<close> stand for \<^verbatim>\<open>lstat\<close> and \<^verbatim>\<open>YAML::LoadFile\<close>. The time of a file is remembered before
  the file is read, and an exception of reading is only logged.
\<close>

fun LoadFromConfDir ::
  "('cb \<Rightarrow> 'v \<Rightarrow> 'v \<Rightarrow> 's \<Rightarrow> fault option \<times> 's) \<Rightarrow> (yaml \<Rightarrow> string) \<Rightarrow> (string \<Rightarrow> nat) \<Rightarrow> (string \<Rightarrow> fault + yaml) \<Rightarrow> bool \<Rightarrow>
     string list \<Rightarrow> (string \<Rightarrow> nat) \<Rightarrow> ('v, 'cb) registry \<Rightarrow> 's \<Rightarrow> fault + (string \<Rightarrow> nat) \<times> ('v, 'cb) registry \<times> 's" where
  "LoadFromConfDir run emit mtime load_file force [] mtimes datas s = Inr (mtimes, datas, s)"
| "LoadFromConfDir run emit mtime load_file force (i # files) mtimes datas s =
     (if \<not> force \<and> mtimes i = mtime i then LoadFromConfDir run emit mtime load_file force files mtimes datas s
      else
        let mtimes = mtimes(i := mtime i) in
        case rbind (load_file i) (\<lambda>root. LoadFromYaml run emit root datas s) of
          Inr (datas, s) \<Rightarrow> LoadFromConfDir run emit mtime load_file force files mtimes datas s
        | Inl e \<Rightarrow>
            if is_exception e then LoadFromConfDir run emit mtime load_file force files mtimes datas s else Inl e)"

section \<open>Listeners\<close>

text \<open>Listeners that never throw and are recorded with the values they see.\<close>

definition record_cb :: "'cb \<Rightarrow> 'v \<Rightarrow> 'v \<Rightarrow> ('cb \<times> 'v \<times> 'v) list \<Rightarrow> fault option \<times> ('cb \<times> 'v \<times> 'v) list" where
  "record_cb cb old new s = (None, s @ [(cb, old, new)])"

lemma run_cbs_record: "run_cbs record_cb cbs old new s = (None, s @ map (\<lambda>(i, cb). (cb, old, new)) cbs)"
  by (induction cbs arbitrary: s) (auto simp: record_cb_def)

lemma run_cbs_quiet: "(\<And>cb old new s. fst (run cb old new s) = None) \<Longrightarrow> fst (run_cbs run cbs old new s) = None"
  by (induction cbs arbitrary: s) (auto split: prod.split option.split, metis fst_conv option.distinct(1))

lemma run_cbs_append:
  "run_cbs run (as @ bs) old new s =
     (case run_cbs run as old new s of (Some e, s) \<Rightarrow> (Some e, s) | (None, s) \<Rightarrow> run_cbs run bs old new s)"
  by (induction as arbitrary: s) (auto split: prod.split option.split)

definition cbs_sorted :: "(nat \<times> 'cb) list \<Rightarrow> bool" where
  "cbs_sorted cbs \<longleftrightarrow> sorted_wrt (<) (map fst cbs)"

lemma cb_put_last: "\<forall>i \<in> fst ` set cbs. i < k \<Longrightarrow> cb_put k cb cbs = cbs @ [(k, cb)]"
  by (induction cbs) auto

lemma cbs_sorted_erase [simp]: "cbs_sorted cbs \<Longrightarrow> cbs_sorted (map_erase k cbs)"
  by (induction cbs) (auto simp: cbs_sorted_def map_erase_def)

lemma addListener_new:
  assumes "cbs_sorted (cv_cbs v)" "\<forall>i \<in> fst ` set (cv_cbs v). i \<le> n"
  shows "addListener cb n v = (n + 1, n + 1, v\<lparr>cv_cbs := cv_cbs v @ [(n + 1, cb)]\<rparr>)" (is ?eq)
    and "cbs_sorted (cv_cbs v @ [(n + 1, cb)])" (is ?sorted)
proof -
  have "\<forall>i \<in> fst ` set (cv_cbs v). i < n + 1" using assms(2) by fastforce
  then show ?eq by (simp add: addListener_def cb_put_last)
  show ?sorted using assms by (force simp: cbs_sorted_def sorted_wrt_append)
qed

text \<open>
  C31. Setting a variable. An equal value changes nothing and calls nobody. Otherwise every listener is called once, in the order
  in which they were added, with the old and the new value, before the variable changes; if one throws, those behind it are
  not called and the variable keeps its value. A listener that was deleted is not called, and a new one is called last.
\<close>

theorem setValue_listeners:
  assumes "cbs_sorted (cv_cbs v)" "\<forall>i \<in> fst ` set (cv_cbs v). i \<le> n" "t \<noteq> cv_val v"
    and "cv_cbs v = as @ (i, cb) # bs" "run_cbs run as (cv_val v) t s = (None, s1)" "run cb (cv_val v) t s1 = (Some e, s2)"
  shows "setValue run (cv_val v) v s = (None, v, s) \<and>
    setValue record_cb t v calls = (None, v\<lparr>cv_val := t\<rparr>, calls @ map (\<lambda>(i, cb). (cb, cv_val v, t)) (cv_cbs v)) \<and>
    setValue run t v s = (Some e, v, s2) \<and>
    snd (snd (setValue record_cb t (delListener i v) calls)) = calls @ map (\<lambda>(j, cb). (cb, cv_val v, t)) (as @ bs) \<and>
    snd (snd (setValue record_cb t (snd (snd (addListener cb n v))) calls)) =
      calls @ map (\<lambda>(j, cb). (cb, cv_val v, t)) (cv_cbs v) @ [(cb, cv_val v, t)]"
proof -
  have "run_cbs run (cv_cbs v) (cv_val v) t s = (Some e, s2)" using assms(5,6) by (simp add: assms(4) run_cbs_append)
  moreover have "map_erase i (cv_cbs v) = as @ bs"
  proof -
    have "i \<notin> fst ` set as" "i \<notin> fst ` set bs" using assms(1) by (auto simp: assms(4) cbs_sorted_def sorted_wrt_append)
    then have "filter (\<lambda>p. fst p \<noteq> i) as = as" "filter (\<lambda>p. fst p \<noteq> i) bs = bs" by (auto simp: filter_id_conv)
    then show ?thesis by (simp add: assms(4) map_erase_def)
  qed
  ultimately show ?thesis using assms(3) addListener_new(1) [OF assms(1,2), of cb]
    by (auto simp: setValue_def run_cbs_record delListener_def)
qed

theorem setValue_listeners_witness:
  "let v = new_ConfigVar ''tcp.timeout'' (5 :: nat) [] ''int'' (\<lambda>s. Inr 0) (\<lambda>n. Inr (dec n)); v = snd (snd (addListener True 0 v));
       run = (\<lambda>cb old new s. (Some LogicError, s)) in
   setValue run 7 v () = (Some LogicError, v, ()) \<and>
   setValue record_cb 7 v [] = (None, v\<lparr>cv_val := 7\<rparr>, [(True, 5, 7)])"
proof -
  let ?v = "snd (snd (addListener True 0 (new_ConfigVar ''tcp.timeout'' (5 :: nat) [] ''int'' (\<lambda>s. Inr 0) (\<lambda>n. Inr (dec n)))))"
  have v: "cv_cbs ?v = [(1, True)]" "cv_val ?v = 5" by (simp_all add: addListener_def new_ConfigVar_def)
  show ?thesis
    using setValue_listeners [of ?v 1 7 "[]" 1 True "[]" "\<lambda>cb old new s. (Some LogicError, s)" "()" "()" LogicError "()" "[]"]
    by (simp add: v cbs_sorted_def Let_def)
qed

section \<open>Names and types\<close>

lemma valid_name_simps [simp]: "valid_name []" "valid_name (sub_key p k) \<longleftrightarrow> valid_name p \<and> valid_name k"
  by (auto simp: valid_name_def sub_key_def name_chars_def)

lemma valid_name_lower: "valid_name s \<Longrightarrow> str_lower s = s"
proof -
  assume v: "valid_name s"
  have "\<forall>c \<in> set name_chars. \<not> (65 \<le> (of_char c :: nat) \<and> (of_char c :: nat) \<le> 90)" by (simp add: name_chars_def)
  then have "\<forall>c \<in> set name_chars. char_of (lower (of_char c)) = c" by (auto simp: lower_def)
  then have "char_of (lower (of_char c)) = c" if "c \<in> set s" for c using v that unfolding valid_name_def by blast
  then show ?thesis by (simp add: str_lower_def map_idI)
qed

definition config_wf :: "('v, 'cb) registry \<Rightarrow> bool" where
  "config_wf datas \<longleftrightarrow> distinct (map fst datas) \<and> (\<forall>(k, v) \<in> set datas. cv_name v = k \<and> valid_name k \<and> cbs_sorted (cv_cbs v))"

lemma config_wf_Nil [simp]: "config_wf []"
  by (simp add: config_wf_def)

lemma config_wf_update:
  assumes "config_wf datas" "cv_name v = k" "valid_name k" "cbs_sorted (cv_cbs v)"
  shows "config_wf (AList.update k v datas)"
proof -
  have "set (AList.update k v datas) \<subseteq> insert (k, v) (set datas)" by (induction datas) auto
  then show ?thesis using assms by (auto simp: config_wf_def distinct_update)
qed

lemma config_wf_get: "config_wf datas \<Longrightarrow> map_of datas k = Some v \<Longrightarrow> cv_name v = k \<and> valid_name k \<and> cbs_sorted (cv_cbs v)"
  by (auto simp: config_wf_def dest!: map_of_SomeD)

text \<open>
  C39. Types of the configuration. In a registry with one variable per name, a typed lookup gives a variable of the type it asks for
  or a null pointer, keeps every variable that is there, and registers a new one under its own name; a name with a
  character outside the alphabet throws, unless it is there already. The alphabet has no 9.
\<close>

theorem Lookup_typed:
  assumes "config_wf datas"
  shows "(case Config2_Lookup name d desc ty fr to datas of
      Inl e \<Rightarrow> e = InvalidArgument \<and> \<not> valid_name name \<and> map_of datas name = None
    | Inr (None, datas') \<Rightarrow> datas' = datas \<and> (\<exists>v. map_of datas name = Some v \<and> cv_type v \<noteq> ty)
    | Inr (Some k, datas') \<Rightarrow> config_wf datas' \<and> k = name \<and>
        (\<exists>v. map_of datas' k = Some v \<and> cv_type v = ty \<and> cv_name v = name \<and> (map_of datas k = None \<longrightarrow> cv_val v = d)) \<and>
        Config2_Lookup_name ty name datas' = Some name \<and>
        (\<forall>k' v. map_of datas k' = Some v \<longrightarrow> map_of datas' k' = Some v)) \<and>
    \<not> valid_name ''port9''"
proof -
  have nine: "\<not> valid_name ''port9''" by (simp add: valid_name_def name_chars_def)
  show ?thesis
  proof (cases "map_of datas name")
    case (Some v)
    then show ?thesis using assms nine config_wf_get [OF assms Some]
      by (simp add: Config2_Lookup_def Config2_Lookup_name_def)
  next
    case None
    let ?v = "new_ConfigVar name d desc ty fr to"
    have "cv_name ?v = name \<and> config_wf (AList.update name ?v datas)" if "valid_name name"
      using that assms by (auto intro!: config_wf_update simp: new_ConfigVar_def valid_name_lower cbs_sorted_def)
    then show ?thesis using None nine
      by (auto simp: Config2_Lookup_def Config2_Lookup_name_def update_conv' new_ConfigVar_def)
  qed
qed

theorem Lookup_typed_witness:
  "Config2_Lookup ''tcp.timeout'' (0 :: nat) [] ''int'' (\<lambda>s. Inr 0) (\<lambda>n. Inr [])
     [(''tcp.timeout'', new_ConfigVar ''tcp.timeout'' 5 [] ''string'' (\<lambda>s. Inr 0) (\<lambda>n. Inr []) :: (nat, unit) config_var)] =
   Inr (None, [(''tcp.timeout'', new_ConfigVar ''tcp.timeout'' 5 [] ''string'' (\<lambda>s. Inr 0) (\<lambda>n. Inr []))])"
proof -
  let ?datas = "[(''tcp.timeout'', new_ConfigVar ''tcp.timeout'' 5 [] ''string'' (\<lambda>s. Inr 0) (\<lambda>n. Inr []) :: (nat, unit) config_var)]"
  have "valid_name ''tcp.timeout''" by (simp add: valid_name_def name_chars_def)
  then have "config_wf ?datas" by (simp add: config_wf_def new_ConfigVar_def valid_name_lower cbs_sorted_def)
  from Lookup_typed [OF this, where name = "''tcp.timeout''" and d = 0 and desc = "[]" and ty = "''int''" and fr = "\<lambda>s. Inr 0" and to = "\<lambda>n. Inr []"]
  show ?thesis by (simp add: Config2_Lookup_def new_ConfigVar_def)
qed

section \<open>The members of a tree\<close>

text \<open>The nodes of a tree with the keys on the way to them.\<close>

inductive yaml_path :: "yaml \<Rightarrow> string list \<Rightarrow> yaml \<Rightarrow> bool" where
  here: "yaml_path n [] n"
| below: "(k, c) \<in> set m \<Longrightarrow> yaml_path c ks n \<Longrightarrow> yaml_path (YMap m) (Scalar k # ks) n"

inductive_simps yaml_path_map: "yaml_path (YMap m) ks n"
inductive_simps yaml_path_leaf: "yaml_path YNull ks n" "yaml_path (YScalar s) ks n" "yaml_path (YSeq l) ks n"

lemma valid_foldl_sub_key: "valid_name (foldl sub_key p ks) \<longleftrightarrow> valid_name p \<and> (\<forall>k \<in> set ks. valid_name k)"
  by (induction ks arbitrary: p) auto

lemma ListAllMember_iff:
  "(q, n) \<in> set (ListAllMember p root) \<longleftrightarrow> (\<exists>ks. yaml_path root ks n \<and> q = foldl sub_key p ks \<and> valid_name q)"
proof (induction root arbitrary: p)
  case (YMap m)
  have sub: "(q, n) \<in> set (ListAllMember p' c) \<longleftrightarrow> (\<exists>ks. yaml_path c ks n \<and> q = foldl sub_key p' ks \<and> valid_name q)"
    if "(k, c) \<in> set m" for k c p' using YMap that by fastforce
  show ?case
  proof
    assume "(q, n) \<in> set (ListAllMember p (YMap m))"
    then consider "valid_name p" "q = p" "n = YMap m" | k c where "valid_name p" "(k, c) \<in> set m" "(q, n) \<in> set (ListAllMember (sub_key p (Scalar k)) c)"
      by (auto split: if_splits)
    then show "\<exists>ks. yaml_path (YMap m) ks n \<and> q = foldl sub_key p ks \<and> valid_name q"
    proof cases
      case 1
      then show ?thesis by (intro exI [of _ "[]"]) (simp add: here)
    next
      case 2
      then obtain ks where "yaml_path c ks n" "q = foldl sub_key (sub_key p (Scalar k)) ks" "valid_name q" using sub by blast
      then show ?thesis using 2 by (intro exI [of _ "Scalar k # ks"]) (auto intro: below)
    qed
  next
    assume "\<exists>ks. yaml_path (YMap m) ks n \<and> q = foldl sub_key p ks \<and> valid_name q"
    then obtain ks where ks: "yaml_path (YMap m) ks n" "q = foldl sub_key p ks" "valid_name q" by blast
    then have "valid_name p" using valid_foldl_sub_key by blast
    from ks(1) show "(q, n) \<in> set (ListAllMember p (YMap m))"
    proof cases
      case here
      then show ?thesis using ks(2) \<open>valid_name p\<close> by simp
    next
      case (below k c ks')
      then have "(q, n) \<in> set (ListAllMember (sub_key p (Scalar k)) c)" using sub ks(2,3) by auto
      then show ?thesis using below \<open>valid_name p\<close> by force
    qed
  qed
qed (auto simp: yaml_path_leaf)

section \<open>Loading a tree\<close>

definition taken :: "(string \<Rightarrow> fault + 'v) \<Rightarrow> string list \<Rightarrow> 'v \<Rightarrow> 'v" where
  "taken from texts x = fold (\<lambda>t x. case from t of Inl _ \<Rightarrow> x | Inr y \<Rightarrow> y) texts x"

lemma taken_Cons [simp]: "taken from (t # ts) x = taken from ts (case from t of Inl _ \<Rightarrow> x | Inr y \<Rightarrow> y)"
  by (simp add: taken_def)

lemma taken_Nil [simp]: "taken from [] x = x"
  by (simp add: taken_def)

text \<open>Listeners that never throw, and conversions that only throw.\<close>

definition quiet :: "('cb \<Rightarrow> 'v \<Rightarrow> 'v \<Rightarrow> 's \<Rightarrow> fault option \<times> 's) \<Rightarrow> bool" where
  "quiet run \<longleftrightarrow> (\<forall>cb old new s. fst (run cb old new s) = None)"

definition throws_only :: "('v, 'cb) registry \<Rightarrow> bool" where
  "throws_only datas \<longleftrightarrow> (\<forall>(k, v) \<in> set datas. \<forall>t e. cv_from v t = Inl e \<longrightarrow> is_exception e)"

lemma fromString_quiet:
  assumes "quiet run" "\<And>e. cv_from v t = Inl e \<Longrightarrow> is_exception e"
  shows "\<exists>s'. fromString run t v s = (Inr False, v\<lparr>cv_val := taken (cv_from v) [t] (cv_val v)\<rparr>, s')"
proof (cases "cv_from v t")
  case (Inl e)
  then show ?thesis using assms(2) by (auto simp: fromString_def)
next
  case (Inr x)
  have "fst (run_cbs run (cv_cbs v) (cv_val v) x s) = None" using assms(1) by (intro run_cbs_quiet) (simp add: quiet_def)
  then show ?thesis using Inr by (cases "run_cbs run (cv_cbs v) (cv_val v) x s") (auto simp: fromString_def setValue_def)
qed

lemma map_fst_update_in: "k \<in> fst ` set xs \<Longrightarrow> map fst (AList.update k v xs) = map fst xs"
  by (induction xs) auto

definition texts_for :: "(yaml \<Rightarrow> string) \<Rightarrow> string \<Rightarrow> (string \<times> yaml) list \<Rightarrow> string list" where
  "texts_for emit k es = map (\<lambda>(q, n). node_text emit n) (filter (\<lambda>(q, n). q \<noteq> [] \<and> str_lower q = k) es)"

lemma load_entries_quiet:
  assumes "quiet run" "throws_only datas"
  shows "\<exists>datas' s'. load_entries run emit es datas s = Inr (datas', s') \<and> map fst datas' = map fst datas \<and>
    (\<forall>k. map_of datas' k = map_option (\<lambda>v. v\<lparr>cv_val := taken (cv_from v) (texts_for emit k es) (cv_val v)\<rparr>) (map_of datas k))"
  using assms(2)
proof (induction es arbitrary: datas s)
  case Nil
  then show ?case by (simp add: texts_for_def option.map_ident)
next
  case (Cons e es)
  obtain q n where e: "e = (q, n)" by (cases e)
  show ?case
  proof (cases "q = [] \<or> map_of datas (str_lower q) = None")
    case True
    obtain datas' s' where 1: "load_entries run emit es datas s = Inr (datas', s')" "map fst datas' = map fst datas"
      and 2: "\<And>k. map_of datas' k = map_option (\<lambda>v. v\<lparr>cv_val := taken (cv_from v) (texts_for emit k es) (cv_val v)\<rparr>) (map_of datas k)"
      using Cons by blast
    have "map_of datas' k = map_option (\<lambda>v. v\<lparr>cv_val := taken (cv_from v) (texts_for emit k (e # es)) (cv_val v)\<rparr>) (map_of datas k)" for k
      using True 2 [of k] by (cases "map_of datas k") (auto simp: texts_for_def e)
    moreover have "load_entries run emit (e # es) datas s = Inr (datas', s')" using True 1 by (auto simp: e LookupBase_def)
    ultimately show ?thesis using 1(2) by blast
  next
    case False
    let ?k = "str_lower q" and ?t = "node_text emit n"
    obtain v where v: "map_of datas ?k = Some v" and q: "q \<noteq> []" using False by auto
    then have mem: "(?k, v) \<in> set datas" by (intro map_of_SomeD)
    then have ex: "is_exception f" if "cv_from v ?t = Inl f" for f using Cons.prems that by (auto simp: throws_only_def)
    let ?v = "v\<lparr>cv_val := taken (cv_from v) [?t] (cv_val v)\<rparr>"
    obtain s1 where fs: "fromString run ?t v s = (Inr False, ?v, s1)" using fromString_quiet [OF assms(1) ex] by blast
    let ?datas = "AList.update ?k ?v datas"
    have "set ?datas \<subseteq> insert (?k, ?v) (set datas)" by (induction datas) auto
    then have "throws_only ?datas" using Cons.prems mem by (fastforce simp: throws_only_def)
    from Cons.IH [OF this, of s1]
    obtain datas' s' where 1: "load_entries run emit es ?datas s1 = Inr (datas', s')" "map fst datas' = map fst ?datas"
      and 2: "\<And>k. map_of datas' k = map_option (\<lambda>v. v\<lparr>cv_val := taken (cv_from v) (texts_for emit k es) (cv_val v)\<rparr>) (map_of ?datas k)"
      by blast
    have "map_of datas' k = map_option (\<lambda>v. v\<lparr>cv_val := taken (cv_from v) (texts_for emit k (e # es)) (cv_val v)\<rparr>) (map_of datas k)" for k
      using 2 [of k] q v by (cases "k = ?k") (auto simp: texts_for_def e update_conv')
    moreover have "load_entries run emit (e # es) datas s = Inr (datas', s')" using q v fs 1 by (simp add: e LookupBase_def)
    moreover have "map fst datas' = map fst datas"
    proof -
      have "?k \<in> fst ` set datas" using mem by force
      then show ?thesis using 1(2) by (simp add: map_fst_update_in)
    qed
    ultimately show ?thesis by blast
  qed
qed

definition members :: "string \<Rightarrow> yaml \<Rightarrow> yaml list" where
  "members k root = map snd (filter (\<lambda>(q, n). q = k) (ListAllMember [] root))"

lemma members_iff: "n \<in> set (members k root) \<longleftrightarrow> valid_name k \<and> (\<exists>ks. yaml_path root ks n \<and> foldl sub_key [] ks = k)"
proof -
  have "n \<in> set (members k root) \<longleftrightarrow> (k, n) \<in> set (ListAllMember [] root)" by (force simp: members_def)
  then show ?thesis by (auto simp: ListAllMember_iff)
qed

lemma texts_for_members:
  assumes "k \<noteq> []"
  shows "texts_for emit k (ListAllMember [] root) = map (node_text emit) (members k root)"
proof -
  have "str_lower q = q" if "(q, n) \<in> set (ListAllMember [] root)" for q n using that valid_name_lower by (auto simp: ListAllMember_iff)
  then have "filter (\<lambda>(q, n). q \<noteq> [] \<and> str_lower q = k) (ListAllMember [] root) = filter (\<lambda>(q, n). q = k) (ListAllMember [] root)"
    using assms by (intro filter_cong) auto
  then show ?thesis by (simp add: texts_for_def members_def case_prod_beta comp_def)
qed



section \<open>Loading a directory\<close>

lemma LoadFromConfDir_times:
  "LoadFromConfDir run emit mtime load_file force files mtimes datas s = Inr (mtimes', datas', s') \<Longrightarrow>
     mtimes' = (\<lambda>i. if i \<in> set files then mtime i else mtimes i)"
proof (induction files arbitrary: mtimes datas s)
  case (Cons i files)
  have IH: "mtimes' = (\<lambda>j. if j \<in> set files then mtime j else mt j)"
    if "LoadFromConfDir run emit mtime load_file force files mt d t = Inr (mtimes', datas', s')" for mt d t
    using Cons.IH that by blast
  obtain mt d t where "LoadFromConfDir run emit mtime load_file force files mt d t = Inr (mtimes', datas', s')"
    and "mt = mtimes(i := mtime i)"
  proof (cases "\<not> force \<and> mtimes i = mtime i")
    case True
    then show thesis using Cons.prems that [of mtimes datas s] by (auto simp: fun_upd_idem)
  next
    case False
    then show thesis using Cons.prems that [of "mtimes(i := mtime i)"]
      by (cases "rbind (load_file i) (\<lambda>root. LoadFromYaml run emit root datas s)") (auto simp: Let_def split: if_splits)
  qed
  then show ?case using IH by (auto simp: fun_eq_iff)
qed simp

text \<open>
  Loading a directory of files again. After a load every file of the directory is remembered with its time, so that a second load
  reads nothing and changes nothing while the times stay, whatever reading the files would give now: a file that could not be
  parsed is not tried again before it changes. A forced load reads every file.
\<close>

theorem LoadFromConfDir_again:
  assumes "LoadFromConfDir run emit mtime load_file force files mtimes datas s = Inr (mtimes', datas', s')"
  shows "mtimes' = (\<lambda>i. if i \<in> set files then mtime i else mtimes i) \<and>
    LoadFromConfDir run emit mtime load_file' False files mtimes' datas' s' = Inr (mtimes', datas', s') \<and>
    LoadFromConfDir run emit mtime (\<lambda>f. Inl LogicError) True files mtimes datas s = Inr (mtimes', datas, s)"
proof -
  note times = LoadFromConfDir_times [OF assms]
  have quiet: "LoadFromConfDir run emit mtime load_file' False fs mtimes' datas' s' = Inr (mtimes', datas', s')"
    if "set fs \<subseteq> set files" for fs using that by (induction fs) (auto simp: times)
  have "LoadFromConfDir run emit mtime (\<lambda>f. Inl LogicError) True files mt datas s =
      Inr ((\<lambda>i. if i \<in> set files then mtime i else mt i), datas, s)" for mt
    by (induction files arbitrary: mt) (auto simp: fun_eq_iff)
  then show ?thesis using times quiet [of files] by simp
qed

theorem LoadFromConfDir_again_witness:
  "LoadFromConfDir (\<lambda>cb :: unit. \<lambda>old new s :: unit. (None, s)) (\<lambda>n. []) (\<lambda>f. 7) (\<lambda>f. Inr YNull) False [''a.yml''] ((\<lambda>f. 0)(''a.yml'' := 7))
     ([] :: (string \<times> (nat, unit) config_var) list) () = Inr ((\<lambda>f. 0)(''a.yml'' := 7), [], ())"
proof -
  have "LoadFromConfDir (\<lambda>cb :: unit. \<lambda>old new s :: unit. (None, s)) (\<lambda>n. []) (\<lambda>f. 7) (\<lambda>f. Inl InvalidArgument) False [''a.yml''] (\<lambda>f. 0)
     ([] :: (string \<times> (nat, unit) config_var) list) () = Inr ((\<lambda>f. 0)(''a.yml'' := 7), [], ())" by simp
  from LoadFromConfDir_again [OF this, of "\<lambda>f. Inr YNull"] show ?thesis by simp
qed

end
