(* ===== verification/Log.thy ===== *)
theory Log imports Config Endian begin

text \<open>
  The log (\<^verbatim>\<open>seaice/log.h\<close>, \<^verbatim>\<open>seaice/log.cpp\<close>): levels, the language of the formatter patterns, appenders, loggers and their manager,
  and the listener that builds loggers from the configuration. The appenders are shared: loggers hold the identities of
  cells of a store. What is written to the terminal and to the file are two texts. \<open>strftime\<close> is the text of a time, in the
  time zone of the system.
\<close>

section \<open>Levels and events\<close>

datatype Level = UNKNOW | DEBUG | INFO | WARN | ERROR | FATAL

primrec level_num :: "Level \<Rightarrow> nat" where
  "level_num UNKNOW = 0"
| "level_num DEBUG = 1"
| "level_num INFO = 2"
| "level_num WARN = 3"
| "level_num ERROR = 4"
| "level_num FATAL = 5"

primrec Level_toString :: "Level \<Rightarrow> string" where
  "Level_toString UNKNOW = ''UNKNOW''"
| "Level_toString DEBUG = ''DEBUG''"
| "Level_toString INFO = ''INFO''"
| "Level_toString WARN = ''WARN''"
| "Level_toString ERROR = ''ERROR''"
| "Level_toString FATAL = ''FATAL''"

definition Level_fromString :: "string \<Rightarrow> Level" where
  "Level_fromString str =
     (if str = ''unknow'' then UNKNOW else if str = ''debug'' then DEBUG else if str = ''info'' then INFO
      else if str = ''warn'' then WARN else if str = ''error'' then ERROR else if str = ''fatal'' then FATAL
      else if str = ''UNKNOW'' then UNKNOW else if str = ''DEBUG'' then DEBUG else if str = ''INFO'' then INFO
      else if str = ''WARN'' then WARN else if str = ''ERROR'' then ERROR else if str = ''FATAL'' then FATAL
      else UNKNOW)"

record LogEvent =
  ev_line :: u32
  ev_fileName :: string
  ev_level :: Level
  ev_threadId :: u32
  ev_threadName :: string
  ev_fiberId :: u32
  ev_time :: u64
  ev_elaspTime :: u64
  ev_loggerName :: string
  ev_ss :: string

definition new_LogEvent :: "u32 \<Rightarrow> string \<Rightarrow> Level \<Rightarrow> u32 \<Rightarrow> string \<Rightarrow> u32 \<Rightarrow> u64 \<Rightarrow> u64 \<Rightarrow> LogEvent" where
  "new_LogEvent line fileName level threadId threadName fiberId time elasptime =
     \<lparr>ev_line = line, ev_fileName = fileName, ev_level = level, ev_threadId = threadId, ev_threadName = threadName,
      ev_fiberId = fiberId, ev_time = time, ev_elaspTime = elasptime, ev_loggerName = ''UNKNOW'', ev_ss = []\<rparr>"

text \<open>\<open>formatted\<close> is what \<^verbatim>\<open>vasprintf\<close> makes of its arguments, or none for an error.\<close>

definition LogEvent_format :: "string option \<Rightarrow> LogEvent \<Rightarrow> LogEvent" where
  "LogEvent_format formatted ev = (case formatted of None \<Rightarrow> ev | Some s \<Rightarrow> ev\<lparr>ev_ss := ev_ss ev @ s\<rparr>)"

section \<open>Formatters\<close>

datatype FormaterItem =
    ContentLogFormatterItem | LevelLogFormatterItem | ElaspTimeLogFormatterItem | LoggerNameFormatterItem | ThreadIdFormatterItem
  | NewLineFormatterItem | DateFormatterItem string | FileNameFormatterItem | LineNumberFormatterItem | TabFormatterItem
  | FiberIdFormatterItem | ThreadNameFormatterItem | StringFormatterItem string

definition getFormatterItem :: "char \<Rightarrow> string \<Rightarrow> FormaterItem" where
  "getFormatterItem name arg =
     (if name = CHR ''m'' then ContentLogFormatterItem
      else if name = CHR ''d'' then DateFormatterItem arg
      else if name = CHR ''t'' then ThreadIdFormatterItem
      else if name = CHR ''T'' then TabFormatterItem
      else if name = CHR ''N'' then ThreadNameFormatterItem
      else if name = CHR ''f'' then FileNameFormatterItem
      else if name = CHR ''p'' then LevelLogFormatterItem
      else if name = CHR ''l'' then LineNumberFormatterItem
      else if name = CHR ''c'' then LoggerNameFormatterItem
      else if name = CHR ''n'' then NewLineFormatterItem
      else if name = CHR ''F'' then FiberIdFormatterItem
      else StringFormatterItem arg)"

text \<open>The padding behind a line number, counted in 32 bits.\<close>

definition line_padding :: "LogEvent \<Rightarrow> nat" where
  "line_padding ev = (let len = of_nat (length (ev_fileName ev) + length (dec (unat (ev_line ev)))) :: u32 in unat (75 - len))"

text \<open>The text of a date goes to a buffer of 32 characters, which stays unset when it does not fit.\<close>

primrec format_item :: "(string \<Rightarrow> u64 \<Rightarrow> string) \<Rightarrow> LogEvent \<Rightarrow> FormaterItem \<Rightarrow> fault + string" where
  "format_item strftime ev ContentLogFormatterItem = Inr (ev_ss ev)"
| "format_item strftime ev LevelLogFormatterItem = Inr (Level_toString (ev_level ev))"
| "format_item strftime ev ElaspTimeLogFormatterItem = Inr (dec (unat (ev_elaspTime ev)))"
| "format_item strftime ev LoggerNameFormatterItem = Inr (ev_loggerName ev)"
| "format_item strftime ev ThreadIdFormatterItem = Inr (dec (unat (ev_threadId ev)))"
| "format_item strftime ev NewLineFormatterItem = Inr [CHR 0x0A]"
| "format_item strftime ev (DateFormatterItem str) =
     (let t = strftime str (ev_time ev) in if length t < 32 then Inr t else Inl OutOfBounds)"
| "format_item strftime ev FileNameFormatterItem = Inr (ev_fileName ev)"
| "format_item strftime ev LineNumberFormatterItem = Inr (dec (unat (ev_line ev)) @ replicate (line_padding ev) CHR '' '')"
| "format_item strftime ev TabFormatterItem = Inr ''    ''"
| "format_item strftime ev FiberIdFormatterItem = Inr (dec (unat (ev_fiberId ev)))"
| "format_item strftime ev ThreadNameFormatterItem = Inr (ev_threadName ev)"
| "format_item strftime ev (StringFormatterItem str) = Inr str"

text \<open>
  The loop of \<^verbatim>\<open>init\<close> over the pattern from one index on, with its state; its results are whether it stopped early or in the middle
  of a directive, and the items.
\<close>

definition directive_chars :: string where
  "directive_chars = ''ABCDEFGHIJKLMNOKQRSTUVWXYZabcdefghijklmnopqrstuvwxyz''"

function init_loop :: "nat \<Rightarrow> string \<Rightarrow> (char \<times> string) list \<Rightarrow> bool \<times> (char \<times> string) list" where
  "init_loop state [] items = (state \<noteq> 0, items)"
| "init_loop state (c # s) items =
     (if state = 0 then
        if c = CHR ''%'' then init_loop 1 s items
        else if c = CHR ''['' \<or> c = CHR '']'' \<or> c = CHR '':'' then init_loop 0 s (items @ [(c, [c])])
        else (True, items)
      else if c \<notin> set directive_chars then (True, items)
      else
        if s \<noteq> [] \<and> hd s = CHR ''{'' then
          if CHR ''}'' \<notin> set s then (True, items)
          else init_loop 0 (tl (dropWhile (\<lambda>c. c \<noteq> CHR ''}'') s)) (items @ [(c, takeWhile (\<lambda>c. c \<noteq> CHR ''}'') (tl s))])
        else init_loop 0 s (items @ [(c, [])]))"
  by pat_completeness auto
termination
proof (relation "measure (\<lambda>(state, s, items). length s)")
  fix s :: string
  have "length (tl (dropWhile (\<lambda>c. c \<noteq> CHR ''}'') s)) \<le> length s"
    using length_dropWhile_le [of "\<lambda>c. c \<noteq> CHR ''}''" s] by simp
  then show "((0, tl (dropWhile (\<lambda>c. c \<noteq> CHR ''}'') s), items), (state, c # s, items')) \<in> measure (\<lambda>(state, s, items). length s)"
    for state :: nat and c :: char and items items' :: "(char \<times> string) list" by simp
qed simp_all

record LogFormatter =
  lf_pattern :: string
  lf_items :: "FormaterItem list"
  lf_error :: bool

definition default_pattern :: string where
  "default_pattern = ''%d{%Y-%m-%d %H:%M:%S}%T%f:%l%T[%p]%T[%t]%T[%c]%T%m''"

definition empty_pattern :: string where
  "empty_pattern = ''%d{%Y-%m-%d %H:%M:%S}%T%t%T%N%T%F%T[%p]%T[%c]%T%f:%l%T%m%n''"

definition new_LogFormatter :: "string \<Rightarrow> LogFormatter" where
  "new_LogFormatter pattern =
     (let pattern = (if pattern = [] then empty_pattern else pattern); (err, items) = init_loop 0 pattern [] in
      \<lparr>lf_pattern = pattern, lf_items = (if err then [] else map (\<lambda>(c, arg). getFormatterItem c arg) items), lf_error = err\<rparr>)"

definition LogFormatter_format :: "(string \<Rightarrow> u64 \<Rightarrow> string) \<Rightarrow> LogFormatter \<Rightarrow> LogEvent \<Rightarrow> fault + string" where
  "LogFormatter_format strftime fmt ev = rbind (rmap (format_item strftime ev) (lf_items fmt)) (\<lambda>ss. Inr (concat ss))"

section \<open>Appenders\<close>

datatype appender_kind = StdoutLogAppender | FileLogAppender

record LogAppender =
  ap_kind :: appender_kind
  ap_level :: Level
  ap_formatter :: "LogFormatter option"
  ap_path :: string
  ap_open :: bool
  ap_pos :: nat

record Logger =
  lg_id :: int
  lg_level :: Level
  lg_name :: string
  lg_appenders :: "nat list"
  lg_formatter :: "LogFormatter option"

text \<open>The definition of a logger in the configuration; the type of an appender is 1 for a file and 2 for the terminal.\<close>

record LogAppenderDefine =
  lad_type :: int
  lad_formatter :: string
  lad_file :: string
  lad_level :: Level

record LoggerDefine =
  ld_id :: int
  ld_name :: string
  ld_level :: Level
  ld_appenders :: "LogAppenderDefine list"
  ld_formatter :: string

text \<open>
  The cells of the appenders and the loggers, what is on the terminal and in the log file, and the manager: whether it was built, its map
  and its default logger; \<open>log_defines\<close> is the variable of the configuration, and \<open>listening\<close> says whether it was registered and got its
  listener, which one file does at the start of the program.
\<close>

record log_state =
  st_appenders :: "LogAppender list"
  st_loggers :: "Logger list"
  st_out :: string
  st_file :: string
  mgr_ready :: bool
  mgr_map :: "(string \<times> nat) list"
  mgr_logger :: nat
  log_defines :: "LoggerDefine list"
  listening :: bool

definition log_path :: string where
  "log_path = ''/media/sf_shared/Iceserver/vsclient/seaice/build/seaice.log''"

definition new_StdoutLogAppender :: "log_state \<Rightarrow> nat \<times> log_state" where
  "new_StdoutLogAppender st =
     (length (st_appenders st),
      st\<lparr>st_appenders := st_appenders st @
        [\<lparr>ap_kind = StdoutLogAppender, ap_level = UNKNOW, ap_formatter = Some (new_LogFormatter default_pattern), ap_path = [],
          ap_open = False, ap_pos = 0\<rparr>]\<rparr>)"

text \<open>The path is replaced by a constant; opening the file, which succeeds when \<open>open_ok\<close> says so, empties it.\<close>

definition new_FileLogAppender :: "bool \<Rightarrow> string \<Rightarrow> log_state \<Rightarrow> nat \<times> log_state" where
  "new_FileLogAppender open_ok path st =
     (length (st_appenders st),
      st\<lparr>st_appenders := st_appenders st @
           [\<lparr>ap_kind = FileLogAppender, ap_level = UNKNOW, ap_formatter = Some (new_LogFormatter default_pattern), ap_path = log_path,
             ap_open = open_ok, ap_pos = 0\<rparr>],
         st_file := (if open_ok then [] else st_file st),
         st_out := (if open_ok then st_out st else st_out st @ ''open file fail'' @ [CHR 0x0A])\<rparr>)"

text \<open>A write at a position of a file.\<close>

definition file_write :: "nat \<Rightarrow> string \<Rightarrow> string \<Rightarrow> string" where
  "file_write pos t f = take pos f @ replicate (pos - length f) (CHR 0x00) @ t @ drop (pos + length t) f"

definition set_appender :: "nat \<Rightarrow> LogAppender \<Rightarrow> log_state \<Rightarrow> log_state" where
  "set_appender i a st = st\<lparr>st_appenders := (st_appenders st)[i := a]\<rparr>"

definition appender_text :: "(string \<Rightarrow> u64 \<Rightarrow> string) \<Rightarrow> LogEvent \<Rightarrow> LogAppender \<Rightarrow> fault + string" where
  "appender_text strftime ev a =
     (case ap_formatter a of None \<Rightarrow> Inl NullDeref | Some fmt \<Rightarrow> LogFormatter_format strftime fmt ev)"

definition StdoutLogAppender_format :: "(string \<Rightarrow> u64 \<Rightarrow> string) \<Rightarrow> LogEvent \<Rightarrow> LogAppender \<Rightarrow> log_state \<Rightarrow> fault + log_state" where
  "StdoutLogAppender_format strftime ev a st =
     rbind (appender_text strftime ev a) (\<lambda>t. Inr (st\<lparr>st_out := st_out st @ t @ [CHR 0x0A]\<rparr>))"

definition FileLogAppender_format :: "(string \<Rightarrow> u64 \<Rightarrow> string) \<Rightarrow> LogEvent \<Rightarrow> nat \<Rightarrow> LogAppender \<Rightarrow> log_state \<Rightarrow> fault + log_state" where
  "FileLogAppender_format strftime ev i a st =
     (if ap_open a then
        rbind (appender_text strftime ev a) (\<lambda>t. Inr (set_appender i (a\<lparr>ap_pos := ap_pos a + length t + 1\<rparr>)
          (st\<lparr>st_file := file_write (ap_pos a) (t @ [CHR 0x0A]) (st_file st)\<rparr>)))
      else Inr (st\<lparr>st_out := st_out st @ ''FileLogAppender format open fail!'' @ [CHR 0x0A]\<rparr>))"

definition appender_format :: "(string \<Rightarrow> u64 \<Rightarrow> string) \<Rightarrow> LogEvent \<Rightarrow> nat \<Rightarrow> log_state \<Rightarrow> fault + log_state" where
  "appender_format strftime ev i st =
     (let a = st_appenders st ! i in
      case ap_kind a of
        StdoutLogAppender \<Rightarrow> StdoutLogAppender_format strftime ev a st
      | FileLogAppender \<Rightarrow> FileLogAppender_format strftime ev i a st)"

section \<open>Loggers\<close>

definition new_Logger :: "Level \<Rightarrow> string \<Rightarrow> int \<Rightarrow> log_state \<Rightarrow> nat \<times> log_state" where
  "new_Logger level name junk st =
     (length (st_loggers st),
      st\<lparr>st_loggers := st_loggers st @
        [\<lparr>lg_id = junk, lg_level = level, lg_name = name, lg_appenders = [], lg_formatter = None\<rparr>]\<rparr>)"

definition upd_logger :: "nat \<Rightarrow> (Logger \<Rightarrow> Logger) \<Rightarrow> log_state \<Rightarrow> log_state" where
  "upd_logger l f st = st\<lparr>st_loggers := (st_loggers st)[l := f (st_loggers st ! l)]\<rparr>"

fun format_all :: "(string \<Rightarrow> u64 \<Rightarrow> string) \<Rightarrow> LogEvent \<Rightarrow> nat list \<Rightarrow> log_state \<Rightarrow> fault + log_state" where
  "format_all strftime ev [] st = Inr st"
| "format_all strftime ev (i # is) st = rbind (appender_format strftime ev i st) (format_all strftime ev is)"

definition Logger_log :: "(string \<Rightarrow> u64 \<Rightarrow> string) \<Rightarrow> nat \<Rightarrow> LogEvent \<Rightarrow> log_state \<Rightarrow> fault + log_state" where
  "Logger_log strftime l ev st =
     (let logger = st_loggers st ! l in
      if level_num (ev_level ev) \<ge> level_num (lg_level logger) then format_all strftime ev (lg_appenders logger) st else Inr st)"

definition clearAppenders :: "nat \<Rightarrow> log_state \<Rightarrow> log_state" where
  "clearAppenders l st = upd_logger l (\<lambda>g. g\<lparr>lg_appenders := []\<rparr>) st"

definition setAppender :: "nat \<Rightarrow> nat \<Rightarrow> log_state \<Rightarrow> log_state" where
  "setAppender l i st =
     upd_logger l (\<lambda>g. if i \<in> set (lg_appenders g) then g else g\<lparr>lg_appenders := lg_appenders g @ [i]\<rparr>) st"

definition setFormatter :: "nat \<Rightarrow> LogFormatter \<Rightarrow> log_state \<Rightarrow> log_state" where
  "setFormatter l fmt st =
     (let st = upd_logger l (\<lambda>g. g\<lparr>lg_formatter := Some fmt\<rparr>) st in
      fold (\<lambda>i st. set_appender i ((st_appenders st ! i)\<lparr>ap_formatter := Some fmt\<rparr>) st) (lg_appenders (st_loggers st ! l)) st)"

definition setFormatter_pattern :: "nat \<Rightarrow> string \<Rightarrow> log_state \<Rightarrow> log_state" where
  "setFormatter_pattern l pattern st =
     (let fmt = new_LogFormatter pattern in if \<not> lf_error fmt then setFormatter l fmt st else st)"

text \<open>A log statement: the event gets the name of the logger, its text is written, and it is logged at the end of the statement.\<close>

definition log_statement :: "(string \<Rightarrow> u64 \<Rightarrow> string) \<Rightarrow> nat \<Rightarrow> LogEvent \<Rightarrow> string \<Rightarrow> log_state \<Rightarrow> fault + log_state" where
  "log_statement strftime l ev txt st =
     Logger_log strftime l (ev\<lparr>ev_loggerName := lg_name (st_loggers st ! l), ev_ss := ev_ss ev @ txt\<rparr>) st"

section \<open>Definitions of loggers as text\<close>

text \<open>
  \<^verbatim>\<open>node["key"]\<close> throws on a scalar and gives no node where there is no such key; \<open>as_string\<close> and \<open>as_int\<close> stand for \<^verbatim>\<open>as<std::string>()\<close> and
  \<^verbatim>\<open>as<int>()\<close>, which throw when they cannot convert, and \<open>idx\<close> for the indexing of a node.
\<close>

definition yaml_get :: "yaml \<Rightarrow> string \<Rightarrow> fault + yaml option" where
  "yaml_get node key =
     (case node of
        YScalar s \<Rightarrow> Inl LogicError
      | YMap m \<Rightarrow> Inr (map_option snd (List.find (\<lambda>p. fst p = YScalar key) m))
      | _ \<Rightarrow> Inr None)"

definition required :: "(yaml \<Rightarrow> fault + 'a) \<Rightarrow> yaml \<Rightarrow> string \<Rightarrow> fault + 'a" where
  "required as node key = rbind (yaml_get node key) (\<lambda>n. case n of None \<Rightarrow> Inl LogicError | Some n \<Rightarrow> as n)"

definition optional :: "(yaml \<Rightarrow> fault + 'a) \<Rightarrow> 'a \<Rightarrow> yaml \<Rightarrow> string \<Rightarrow> fault + 'a" where
  "optional as d node key = rbind (yaml_get node key) (\<lambda>n. case n of None \<Rightarrow> Inr d | Some n \<Rightarrow> as n)"

definition appender_from :: "(yaml \<Rightarrow> fault + string) \<Rightarrow> yaml \<Rightarrow> fault + LogAppenderDefine list" where
  "appender_from as_string a =
     rbind (yaml_get a ''type'') (\<lambda>t.
       case t of
         None \<Rightarrow> Inr []
       | Some t \<Rightarrow>
           rbind (as_string t) (\<lambda>type.
             if type = ''FileLogAppender'' then
               rbind (required as_string a ''file'') (\<lambda>file.
               rbind (optional as_string [] a ''formatter'') (\<lambda>fmt.
                 Inr [\<lparr>lad_type = 1, lad_formatter = fmt, lad_file = file, lad_level = UNKNOW\<rparr>]))
             else if type = ''StdoutLogAppender'' then
               rbind (optional as_string [] a ''formatter'') (\<lambda>fmt.
                 Inr [\<lparr>lad_type = 2, lad_formatter = fmt, lad_file = [], lad_level = UNKNOW\<rparr>])
             else Inr []))"

definition LoggerDefine_from ::
  "(yaml \<Rightarrow> fault + string) \<Rightarrow> (yaml \<Rightarrow> fault + int) \<Rightarrow> (yaml \<Rightarrow> nat \<Rightarrow> yaml) \<Rightarrow> yaml \<Rightarrow> fault + LoggerDefine" where
  "LoggerDefine_from as_string as_int idx node =
     rbind (required as_string node ''name'') (\<lambda>name.
     rbind (required as_int node ''id'') (\<lambda>id.
     rbind (optional (\<lambda>n. rbind (as_string n) (\<lambda>s. Inr (Level_fromString s))) UNKNOW node ''level'') (\<lambda>level.
     rbind (optional as_string [] node ''formatter'') (\<lambda>fmt.
     rbind (optional (\<lambda>n. rbind (rmap (\<lambda>i. appender_from as_string (idx n i)) [0..<node_size n]) (\<lambda>as. Inr (concat as))) [] node ''appenders'')
       (\<lambda>as. Inr \<lparr>ld_id = id, ld_name = name, ld_level = level, ld_appenders = as, ld_formatter = fmt\<rparr>)))))"

text \<open>\<open>show_int\<close> is the text of an \<^verbatim>\<open>int\<close>.\<close>

definition show_int :: "int \<Rightarrow> string" where
  "show_int i = (if i < 0 then ''-'' @ dec (nat (- i)) else dec (nat i))"

definition field_unless :: "bool \<Rightarrow> string \<Rightarrow> yaml \<Rightarrow> (yaml \<times> yaml) list" where
  "field_unless omit key node = (if omit then [] else [(YScalar key, node)])"

definition appender_node :: "LogAppenderDefine \<Rightarrow> yaml" where
  "appender_node a =
     (let fields =
            (if lad_type a = 1 then [(YScalar ''type'', YScalar ''FileLogAppender''), (YScalar ''file'', YScalar (lad_file a))]
             else if lad_type a = 2 then [(YScalar ''type'', YScalar ''StdoutLogAppender'')]
             else []) @ field_unless (lad_formatter a = []) ''formatter'' (YScalar (lad_formatter a)) in
      if fields = [] then YNull else YMap fields)"

definition LoggerDefine_node :: "LoggerDefine \<Rightarrow> yaml" where
  "LoggerDefine_node v =
     YMap ([(YScalar ''id'', YScalar (show_int (ld_id v))), (YScalar ''name'', YScalar (ld_name v))] @
       field_unless (ld_level v = UNKNOW) ''level'' (YScalar (Level_toString (ld_level v))) @
       field_unless (ld_formatter v = []) ''formatter'' (YScalar (ld_formatter v)) @
       field_unless (ld_appenders v = []) ''appenders'' (YSeq (map appender_node (ld_appenders v))))"

section \<open>The manager\<close>

definition addLogger :: "nat \<Rightarrow> log_state \<Rightarrow> log_state" where
  "addLogger l st = st\<lparr>mgr_map := AList.update (lg_name (st_loggers st ! l)) l (mgr_map st)\<rparr>"

definition delLogger :: "string \<Rightarrow> log_state \<Rightarrow> log_state" where
  "delLogger name st = st\<lparr>mgr_map := map_erase name (mgr_map st)\<rparr>"

definition findLogger :: "string \<Rightarrow> log_state \<Rightarrow> nat option" where
  "findLogger name st = map_of (mgr_map st) name"

definition LookupLogger :: "string \<Rightarrow> log_state \<Rightarrow> nat" where
  "LookupLogger name st = (case map_of (mgr_map st) name of Some l \<Rightarrow> l | None \<Rightarrow> mgr_logger st)"

text \<open>
  The listener of the configuration. \<open>instance\<close> is the call \<^verbatim>\<open>LoggerMgr::getInstance()\<close>; \<open>junk\<close> the id of a new logger. A logger is made only
  when the manager has none of the name; otherwise the pointer stays null.
\<close>

definition define_less :: "LoggerDefine \<Rightarrow> LoggerDefine \<Rightarrow> bool" where
  "define_less a b = str_less (ld_name a) (ld_name b)"

definition add_appender :: "bool \<Rightarrow> nat \<Rightarrow> LogAppenderDefine \<Rightarrow> log_state \<Rightarrow> fault + log_state" where
  "add_appender open_ok l a st =
     rbind (if lad_type a = 1 then Inr (new_FileLogAppender open_ok (lad_file a) st)
            else if lad_type a = 2 then Inr (new_StdoutLogAppender st) else Inl NullDeref)
       (\<lambda>(i, st).
          let st = set_appender i ((st_appenders st ! i)\<lparr>ap_level := lad_level a\<rparr>) st;
              fmt = new_LogFormatter (lad_formatter a);
              st = (if lad_formatter a \<noteq> [] \<and> \<not> lf_error fmt
                    then set_appender i ((st_appenders st ! i)\<lparr>ap_formatter := Some fmt\<rparr>) st else st) in
          Inr (setAppender l i st))"

fun add_appenders :: "bool \<Rightarrow> nat \<Rightarrow> LogAppenderDefine list \<Rightarrow> log_state \<Rightarrow> fault + log_state" where
  "add_appenders open_ok l [] st = Inr st"
| "add_appenders open_ok l (a # as) st = rbind (add_appender open_ok l a st) (add_appenders open_ok l as)"

definition build_logger :: "bool \<Rightarrow> int \<Rightarrow> LoggerDefine \<Rightarrow> log_state \<Rightarrow> fault + nat \<times> log_state" where
  "build_logger open_ok junk i st =
     (let (l, st) = new_Logger DEBUG ''seaice'' junk st;
          st = upd_logger l (\<lambda>g. g\<lparr>lg_id := ld_id i\<rparr>) st;
          st = upd_logger l (\<lambda>g. g\<lparr>lg_name := ld_name i\<rparr>) st;
          st = upd_logger l (\<lambda>g. g\<lparr>lg_level := ld_level i\<rparr>) st;
          st = (if ld_formatter i \<noteq> [] then setFormatter l (new_LogFormatter (ld_formatter i)) st else st);
          st = clearAppenders l st in
      rbind (add_appenders open_ok l (ld_appenders i) st) (\<lambda>st. Inr (l, st)))"

fun define_all ::
  "(log_state \<Rightarrow> fault + log_state) \<Rightarrow> bool \<Rightarrow> int \<Rightarrow> LoggerDefine list \<Rightarrow> LoggerDefine list \<Rightarrow> log_state \<Rightarrow> fault + log_state" where
  "define_all instance open_ok junk old [] st = Inr st"
| "define_all instance open_ok junk old (i # is) st =
     (if tree_find define_less i old = Some i then define_all instance open_ok junk old is st
      else
        rbind (instance st) (\<lambda>st.
        if findLogger (ld_name i) st \<noteq> None then Inl NullDeref
        else
          rbind (build_logger open_ok junk i st) (\<lambda>(l, st).
          rbind (instance st) (\<lambda>st. define_all instance open_ok junk old is (addLogger l st)))))"

fun undefine_all :: "(log_state \<Rightarrow> fault + log_state) \<Rightarrow> LoggerDefine list \<Rightarrow> LoggerDefine list \<Rightarrow> log_state \<Rightarrow> fault + log_state" where
  "undefine_all instance [] new st = Inr st"
| "undefine_all instance (i # is) new st =
     (if tree_find define_less i new = None
      then rbind (instance st) (\<lambda>st. undefine_all instance is new (delLogger (ld_name i) st))
      else undefine_all instance is new st)"

definition on_logger_conf_changed ::
  "(log_state \<Rightarrow> fault + log_state) \<Rightarrow> bool \<Rightarrow> int \<Rightarrow> LoggerDefine list \<Rightarrow> LoggerDefine list \<Rightarrow> log_state \<Rightarrow> fault + log_state" where
  "on_logger_conf_changed instance open_ok junk old new st =
     rbind (define_all instance open_ok junk old new st) (undefine_all instance old new)"

text \<open>
  The values that a configuration file gives to the variable of the loggers, set one after the other when the variable is there. The
  listener throws no exception, so the \<^verbatim>\<open>catch\<close> around it has nothing to do.
\<close>

fun set_defines ::
  "(LoggerDefine list \<Rightarrow> LoggerDefine list \<Rightarrow> log_state \<Rightarrow> fault + log_state) \<Rightarrow> LoggerDefine list list \<Rightarrow> log_state \<Rightarrow> fault + log_state" where
  "set_defines listener [] st = Inr st"
| "set_defines listener (new # rest) st =
     (if \<not> listening st \<or> log_defines st = new then set_defines listener rest st
      else rbind (listener (log_defines st) new st) (\<lambda>st. set_defines listener rest (st\<lparr>log_defines := new\<rparr>)))"

text \<open>The first part of the constructor of the manager: its default logger, with the terminal and the file.\<close>

definition new_default_logger :: "bool \<Rightarrow> int \<Rightarrow> log_state \<Rightarrow> nat \<times> log_state" where
  "new_default_logger open_ok junk st =
     (let (l, st) = new_Logger DEBUG ''seaice'' junk (st\<lparr>mgr_map := []\<rparr>);
          (i, st) = new_StdoutLogAppender st;
          st = setAppender l i st;
          (j, st) = new_FileLogAppender open_ok ''seaice.log'' st in
      (l, setAppender l j st))"

text \<open>
  The single instance, with a bound on the depth of the calls. The constructor of the manager reads its file, whose loggers
  call the listener, which asks for the instance; it is set only when the constructor has returned. \<open>file\<close> holds the values in the file, or none
  when it cannot be read.
\<close>

fun getInstance :: "nat \<Rightarrow> bool \<Rightarrow> int \<Rightarrow> LoggerDefine list list option \<Rightarrow> log_state \<Rightarrow> fault + log_state" where
  "getInstance 0 open_ok junk file st = Inl StackOverflow"
| "getInstance (Suc depth) open_ok junk file st =
     (if mgr_ready st then Inr st
      else
        let (l, st) = new_default_logger open_ok junk st in
        case file of
          None \<Rightarrow> Inl LogicError
        | Some values \<Rightarrow>
            rbind (set_defines (on_logger_conf_changed (getInstance depth open_ok junk file) open_ok junk) values st)
              (\<lambda>st. Inr (st\<lparr>mgr_ready := True, mgr_logger := l\<rparr>)))"

section \<open>Levels\<close>

lemma Level_roundtrip: "Level_fromString (Level_toString l) = l"
  by (cases l) (simp_all add: Level_fromString_def)

lemma Level_fromString_lower: "Level_fromString (str_lower (Level_toString l)) = l"
  by (cases l) (simp_all add: str_lower_def lower_def char_of_def bit_Suc_0_iff Level_fromString_def)

section \<open>The language of the patterns\<close>

datatype pattern_token = Lit char | Dir char "string option"

primrec token_text :: "pattern_token \<Rightarrow> string" where
  "token_text (Lit c) = [c]"
| "token_text (Dir c arg) = CHR ''%'' # c # (case arg of None \<Rightarrow> [] | Some a \<Rightarrow> CHR ''{'' # a @ ''}'')"

primrec wf_token :: "pattern_token \<Rightarrow> bool" where
  "wf_token (Lit c) = (c \<in> set ''[]:'')"
| "wf_token (Dir c arg) = (c \<in> set directive_chars \<and> (case arg of None \<Rightarrow> True | Some a \<Rightarrow> CHR ''}'' \<notin> set a))"

primrec token_item :: "pattern_token \<Rightarrow> char \<times> string" where
  "token_item (Lit c) = (c, [c])"
| "token_item (Dir c arg) = (c, case arg of None \<Rightarrow> [] | Some a \<Rightarrow> a)"

definition pattern_text :: "pattern_token list \<Rightarrow> string" where
  "pattern_text ts = concat (map token_text ts)"

lemma pattern_text_simps [simp]:
  "pattern_text [] = []" "pattern_text (t # ts) = token_text t @ pattern_text ts"
  by (simp_all add: pattern_text_def)

lemma pattern_text_start: "\<forall>t \<in> set ts. wf_token t \<Longrightarrow> pattern_text ts \<noteq> [] \<Longrightarrow> hd (pattern_text ts) \<noteq> CHR ''{''"
proof (cases ts)
  case (Cons t ts')
  moreover assume "\<forall>t \<in> set ts. wf_token t"
  ultimately show ?thesis by (cases t) auto
qed simp

lemma init_loop_dir_arg:
  assumes "c \<in> set directive_chars" "CHR ''}'' \<notin> set a"
  shows "init_loop (Suc 0) (c # CHR ''{'' # a @ CHR ''}'' # r) items = init_loop 0 r (items @ [(c, a)])"
proof -
  have "dropWhile (\<lambda>c. c \<noteq> CHR ''}'') (a @ CHR ''}'' # r) = CHR ''}'' # r" "takeWhile (\<lambda>c. c \<noteq> CHR ''}'') (a @ CHR ''}'' # r) = a"
    using assms(2) by (induction a) auto
  then show ?thesis using assms(1) by simp
qed

lemma init_loop_pattern:
  assumes "\<forall>t \<in> set ts. wf_token t"
  shows "init_loop 0 (pattern_text ts) items = (False, items @ map token_item ts)"
  using assms
proof (induction ts arbitrary: items)
  case (Cons t ts)
  then have IH: "init_loop 0 (pattern_text ts) items' = (False, items' @ map token_item ts)" for items' by simp
  show ?case
  proof (cases t)
    case (Lit c)
    then show ?thesis using Cons.prems IH by auto
  next
    case (Dir c arg)
    then have c: "c \<in> set directive_chars" using Cons.prems by simp
    show ?thesis
    proof (cases arg)
      case None
      have "\<not> (pattern_text ts \<noteq> [] \<and> hd (pattern_text ts) = CHR ''{'')" using pattern_text_start [of ts] Cons.prems by auto
      then show ?thesis using Dir None c IH by auto
    next
      case (Some a)
      then have "CHR ''}'' \<notin> set a" using Cons.prems Dir by simp
      from init_loop_dir_arg [OF c this] show ?thesis using Dir Some IH by simp
    qed
  qed
qed simp

lemma init_loop_accepts:
  "init_loop 0 s items = (False, r) \<Longrightarrow> \<exists>ts. (\<forall>t \<in> set ts. wf_token t) \<and> s = pattern_text ts"
proof (induction "length s" arbitrary: s items rule: less_induct)
  case less
  show ?case
  proof (cases s)
    case Nil
    then show ?thesis by (intro exI [of _ "[]"]) simp
  next
    case (Cons c s1)
    consider (dir) "c = CHR ''%''" | (lit) "c \<in> set ''[]:''" "init_loop 0 s1 (items @ [(c, [c])]) = (False, r)"
      using less.prems Cons by (auto split: if_splits)
    then show ?thesis
    proof cases
      case lit
      then obtain ts where "\<forall>t \<in> set ts. wf_token t" "s1 = pattern_text ts" using less.hyps [of s1] Cons by auto
      then show ?thesis using lit(1) Cons by (intro exI [of _ "Lit c # ts"]) simp
    next
      case dir
      then have "init_loop 1 s1 items = (False, r)" using less.prems Cons by simp
      then obtain d s2 where s1: "s1 = d # s2" and d: "d \<in> set directive_chars" by (cases s1) (auto split: if_splits)
      show ?thesis
      proof (cases "s2 \<noteq> [] \<and> hd s2 = CHR ''{''")
        case False
        then have "init_loop 0 s2 (items @ [(d, [])]) = (False, r)"
          using \<open>init_loop 1 s1 items = (False, r)\<close> d by (auto simp: s1)
        then obtain ts where "\<forall>t \<in> set ts. wf_token t" "s2 = pattern_text ts" using less.hyps [of s2] Cons s1 by auto
        then show ?thesis using d dir Cons s1 by (intro exI [of _ "Dir d None # ts"]) simp
      next
        case True
        then obtain s3 where s2: "s2 = CHR ''{'' # s3" by (cases s2) auto
        have close: "CHR ''}'' \<in> set s3"
        proof (rule ccontr)
          assume "CHR ''}'' \<notin> set s3"
          then show False using \<open>init_loop 1 s1 items = (False, r)\<close> d by (simp add: s1 s2)
        qed
        then obtain a s4 where s3: "s3 = a @ CHR ''}'' # s4" and noa: "CHR ''}'' \<notin> set a" using split_list_first [OF close] by blast
        have "init_loop 0 s4 (items @ [(d, a)]) = (False, r)"
          using \<open>init_loop 1 s1 items = (False, r)\<close> init_loop_dir_arg [OF d noa, of s4 items] by (simp only: s1 s2 s3 One_nat_def)
        moreover have "length s4 < length s" using Cons s1 s2 s3 by simp
        ultimately obtain ts where "\<forall>t \<in> set ts. wf_token t" "s4 = pattern_text ts" using less.hyps by blast
        moreover from this have "s = pattern_text (Dir d (Some a) # ts)" using s3 dir Cons s1 s2 by simp
        ultimately show ?thesis using d noa by (intro exI [of _ "Dir d (Some a) # ts"]) simp
      qed
    qed
  qed
qed

text \<open>
  C30. The language of the formatter patterns. A pattern is accepted exactly when it is a sequence of directives, each a percent
  sign, a letter and an optional argument in braces, and of brackets and colons; the items are those of the
  directives in order. A rejected pattern has no items. The letter P is missing from the alphabet of directives.
\<close>

theorem pattern_language:
  assumes "\<forall>t \<in> set ts. wf_token t" "ts \<noteq> []"
  shows "new_LogFormatter (pattern_text ts) =
      \<lparr>lf_pattern = pattern_text ts, lf_items = map (\<lambda>t. getFormatterItem (fst (token_item t)) (snd (token_item t))) ts, lf_error = False\<rparr> \<and>
    (lf_error (new_LogFormatter p) = (p \<noteq> [] \<and> \<not> (\<exists>us. (\<forall>t \<in> set us. wf_token t) \<and> p = pattern_text us))) \<and>
    (lf_error (new_LogFormatter p) \<longrightarrow> lf_items (new_LogFormatter p) = []) \<and>
    lf_error (new_LogFormatter ''%P'')"
proof (intro conjI)
  have ne: "pattern_text ts \<noteq> []" using assms by (cases ts; cases "hd ts") auto
  show "new_LogFormatter (pattern_text ts) =
      \<lparr>lf_pattern = pattern_text ts, lf_items = map (\<lambda>t. getFormatterItem (fst (token_item t)) (snd (token_item t))) ts, lf_error = False\<rparr>"
    using init_loop_pattern [OF assms(1), of "[]"] ne by (simp add: new_LogFormatter_def case_prod_beta comp_def)
  have empty: "\<not> fst (init_loop 0 empty_pattern [])" by (simp add: empty_pattern_def directive_chars_def)
  show "lf_error (new_LogFormatter p) = (p \<noteq> [] \<and> \<not> (\<exists>us. (\<forall>t \<in> set us. wf_token t) \<and> p = pattern_text us))"
  proof (cases "p = []")
    case True
    then show ?thesis using empty by (simp add: new_LogFormatter_def case_prod_beta)
  next
    case False
    have "fst (init_loop 0 p []) = (\<not> (\<exists>us. (\<forall>t \<in> set us. wf_token t) \<and> p = pattern_text us))"
    proof (cases "init_loop 0 p []")
      case (Pair err r)
      show ?thesis
      proof (cases err)
        case True
        then have "\<not> (\<exists>us. (\<forall>t \<in> set us. wf_token t) \<and> p = pattern_text us)" using init_loop_pattern [of _ "[]"] Pair by auto
        then show ?thesis using Pair True by simp
      next
        case False
        then show ?thesis using init_loop_accepts [of p "[]" r] Pair by simp
      qed
    qed
    then show ?thesis using False by (simp add: new_LogFormatter_def case_prod_beta)
  qed
  show "lf_error (new_LogFormatter p) \<longrightarrow> lf_items (new_LogFormatter p) = []"
    by (simp add: new_LogFormatter_def case_prod_beta)
  show "lf_error (new_LogFormatter ''%P'')" by (simp add: new_LogFormatter_def directive_chars_def)
qed

theorem pattern_language_witness:
  "lf_items (new_LogFormatter ''%d{%H:%M}[%p]'') =
     [DateFormatterItem ''%H:%M'', StringFormatterItem ''['', LevelLogFormatterItem, StringFormatterItem '']''] \<and>
   lf_error (new_LogFormatter ''%P'')"
proof -
  let ?ts = "[Dir CHR ''d'' (Some ''%H:%M''), Lit CHR ''['', Dir CHR ''p'' None, Lit CHR '']'']"
  have "\<forall>t \<in> set ?ts. wf_token t" by (simp add: directive_chars_def)
  from pattern_language [OF this, of "[]"] show ?thesis by (simp add: getFormatterItem_def)
qed

section \<open>Padding and output\<close>

text \<open>
  The padding of a line number. The file name and the line number fill 75 columns together; but when they are longer, the
  unsigned difference wraps and the item writes four billion spaces less the excess.
\<close>

theorem line_number_padding:
  assumes "length (ev_fileName ev) + length (dec (unat (ev_line ev))) = n" "n < 2 ^ 32"
  shows "(n \<le> 75 \<longrightarrow> length (ev_fileName ev) + length (projr (format_item strftime ev LineNumberFormatterItem)) = 75) \<and>
    (75 < n \<longrightarrow> line_padding ev = 2 ^ 32 + 75 - n)"
proof -
  have u: "unat (of_nat n :: u32) = n" using assms(2) by (simp add: unat_of_nat)
  have "line_padding ev = unat (75 - (of_nat n :: u32))" by (simp add: line_padding_def assms(1))
  also have "\<dots> = (if n \<le> 75 then 75 - n else 2 ^ 32 + 75 - n)"
    using assms(2) by (subst unat_sub_if') (auto simp: u word_le_nat_alt)
  finally show ?thesis using assms(1) by auto
qed

theorem line_number_padding_witness:
  "line_padding (new_LogEvent 1 (replicate 75 CHR ''x'') INFO 0 [] 0 0 0) = 4294967295"
proof -
  have "dec 1 = ''1''" by (simp add: dec.simps char_of_def bit_Suc_0_iff)
  then show ?thesis
    using line_number_padding [of "new_LogEvent 1 (replicate 75 CHR ''x'') INFO 0 [] 0 0 0" 76 "\<lambda>s t. s"] by (simp add: new_LogEvent_def)
qed

lemma file_write_end: "pos = length f \<Longrightarrow> file_write pos t f = f @ t"
  by (simp add: file_write_def)

text \<open>A cell of an appender that will write the text.\<close>

definition writes :: "(string \<Rightarrow> u64 \<Rightarrow> string) \<Rightarrow> LogEvent \<Rightarrow> string \<Rightarrow> LogAppender \<Rightarrow> bool" where
  "writes strftime ev t a \<longleftrightarrow> (\<exists>fmt. ap_formatter a = Some fmt \<and> LogFormatter_format strftime fmt ev = Inr t)"

lemma appender_format_stdout:
  assumes "st_appenders st ! i = a" "ap_kind a = StdoutLogAppender" "writes strftime ev t a"
  shows "appender_format strftime ev i st = Inr (st\<lparr>st_out := st_out st @ t @ [CHR 0x0A]\<rparr>)"
  using assms by (auto simp: appender_format_def StdoutLogAppender_format_def appender_text_def writes_def)

lemma appender_format_file:
  assumes "st_appenders st ! i = a" "ap_kind a = FileLogAppender" "ap_open a" "writes strftime ev t a"
  shows "appender_format strftime ev i st =
    Inr (st\<lparr>st_appenders := (st_appenders st)[i := a\<lparr>ap_pos := ap_pos a + length t + 1\<rparr>],
            st_file := file_write (ap_pos a) (t @ [CHR 0x0A]) (st_file st)\<rparr>)"
  using assms by (auto simp: appender_format_def FileLogAppender_format_def appender_text_def writes_def set_appender_def)

text \<open>
  A log statement. Below the level of the logger it writes nothing. Otherwise every appender writes the text of its own
  formatter and a line end, in the order of the list: a logger with the terminal and the file, such as the default one, adds the line
  to both. Two file appenders write to the same file, whose path is fixed, each at its own position, so that the second writes
  over the line of the first.
\<close>

theorem log_statement_outputs:
  assumes l: "st_loggers st ! l = g" and ev: "ev' = ev\<lparr>ev_loggerName := lg_name g, ev_ss := ev_ss ev @ txt\<rparr>"
    and i: "st_appenders st ! i = a" "ap_kind a = StdoutLogAppender" "writes strftime ev' t1 a"
    and j: "st_appenders st ! j = b" "ap_kind b = FileLogAppender" "ap_open b" "writes strftime ev' t2 b" "ap_pos b = length (st_file st)"
    and k: "st_appenders st ! k = c" "ap_kind c = FileLogAppender" "ap_open c" "writes strftime ev' t3 c" "ap_pos c = length (st_file st)"
    and ids: "j < length (st_appenders st)" "k < length (st_appenders st)" "j \<noteq> k"
  shows "(level_num (ev_level ev) < level_num (lg_level g) \<longrightarrow> log_statement strftime l ev txt st = Inr st) \<and>
    (level_num (lg_level g) \<le> level_num (ev_level ev) \<and> lg_appenders g = [i, j] \<longrightarrow>
      (\<exists>st'. log_statement strftime l ev txt st = Inr st' \<and> st_out st' = st_out st @ t1 @ [CHR 0x0A] \<and>
        st_file st' = st_file st @ t2 @ [CHR 0x0A] \<and> ap_pos (st_appenders st' ! j) = length (st_file st') \<and> st_loggers st' = st_loggers st)) \<and>
    (level_num (lg_level g) \<le> level_num (ev_level ev) \<and> lg_appenders g = [j, k] \<longrightarrow>
      (\<exists>st'. log_statement strftime l ev txt st = Inr st' \<and> st_file st' = st_file st @ t3 @ [CHR 0x0A] @ drop (length t3 + 1) (t2 @ [CHR 0x0A])))"
proof (intro conjI impI)
  show "log_statement strftime l ev txt st = Inr st" if "level_num (ev_level ev) < level_num (lg_level g)"
    using that by (simp add: log_statement_def Logger_log_def l)
next
  assume "level_num (lg_level g) \<le> level_num (ev_level ev) \<and> lg_appenders g = [i, j]"
  then have "log_statement strftime l ev txt st = format_all strftime ev' [i, j] st" by (simp add: log_statement_def Logger_log_def l ev)
  then show "\<exists>st'. log_statement strftime l ev txt st = Inr st' \<and> st_out st' = st_out st @ t1 @ [CHR 0x0A] \<and>
      st_file st' = st_file st @ t2 @ [CHR 0x0A] \<and> ap_pos (st_appenders st' ! j) = length (st_file st') \<and> st_loggers st' = st_loggers st"
    using appender_format_stdout [OF i] appender_format_file [of "st\<lparr>st_out := st_out st @ t1 @ [CHR 0x0A]\<rparr>" j b, OF _ j(2-4)] j ids
    by (simp add: file_write_end)
next
  assume "level_num (lg_level g) \<le> level_num (ev_level ev) \<and> lg_appenders g = [j, k]"
  then have *: "log_statement strftime l ev txt st = format_all strftime ev' [j, k] st" by (simp add: log_statement_def Logger_log_def l ev)
  let ?st = "st\<lparr>st_appenders := (st_appenders st)[j := b\<lparr>ap_pos := ap_pos b + length t2 + 1\<rparr>],
      st_file := file_write (ap_pos b) (t2 @ [CHR 0x0A]) (st_file st)\<rparr>"
  have "st_appenders ?st ! k = c" using k(1) ids by simp
  from appender_format_file [OF this k(2-4)]
  show "\<exists>st'. log_statement strftime l ev txt st = Inr st' \<and>
      st_file st' = st_file st @ t3 @ [CHR 0x0A] @ drop (length t3 + 1) (t2 @ [CHR 0x0A])"
    unfolding * using appender_format_file [OF j(1-4)] k(5) by (simp add: file_write_end j(5)) (simp add: file_write_def)
qed

text \<open>The witness: the default logger, made of the terminal and the file, with a third appender that shares the file.\<close>

theorem log_statement_outputs_witness:
  "let fmt = new_LogFormatter ''[%m]''; cell = \<lambda>kind. \<lparr>ap_kind = kind, ap_level = UNKNOW, ap_formatter = Some fmt, ap_path = log_path, ap_open = True, ap_pos = 0\<rparr>;
       g = \<lparr>lg_id = 1, lg_level = DEBUG, lg_name = ''root'', lg_appenders = [0, 1], lg_formatter = None\<rparr>;
       st = \<lparr>st_appenders = [cell StdoutLogAppender, cell FileLogAppender, cell FileLogAppender], st_loggers = [g], st_out = [], st_file = [], mgr_ready = True,
             mgr_map = [], mgr_logger = 0, log_defines = [], listening = True\<rparr> in
   \<exists>st'. log_statement (\<lambda>s t. s) 0 (new_LogEvent 1 [] INFO 0 [] 0 0 0) ''hello'' st = Inr st' \<and> st_out st' = ''[hello]'' @ [CHR 0x0A] \<and>
     st_file st' = ''[hello]'' @ [CHR 0x0A]"
proof -
  let ?fmt = "new_LogFormatter ''[%m]''"
  let ?cell = "\<lambda>kind. \<lparr>ap_kind = kind, ap_level = UNKNOW, ap_formatter = Some ?fmt, ap_path = log_path, ap_open = True, ap_pos = 0\<rparr>"
  let ?g = "\<lparr>lg_id = 1, lg_level = DEBUG, lg_name = ''root'', lg_appenders = [0, 1], lg_formatter = None\<rparr>"
  let ?st = "\<lparr>st_appenders = [?cell StdoutLogAppender, ?cell FileLogAppender, ?cell FileLogAppender], st_loggers = [?g], st_out = [], st_file = [],
    mgr_ready = True, mgr_map = [], mgr_logger = 0, log_defines = [], listening = True\<rparr>"
  let ?ev = "new_LogEvent 1 [] INFO 0 [] 0 0 0"
  let ?ev' = "?ev\<lparr>ev_loggerName := lg_name ?g, ev_ss := ev_ss ?ev @ ''hello''\<rparr>"
  have fmt: "lf_items ?fmt = [StringFormatterItem ''['', ContentLogFormatterItem, StringFormatterItem '']'']"
    by (simp add: new_LogFormatter_def directive_chars_def getFormatterItem_def)
  then have "LogFormatter_format (\<lambda>s t. s) ?fmt ?ev' = Inr ''[hello]''" by (simp add: LogFormatter_format_def new_LogEvent_def)
  then have w: "writes (\<lambda>s t. s) ?ev' ''[hello]'' (?cell kind)" for kind by (simp add: writes_def)
  have "level_num (lg_level ?g) \<le> level_num (ev_level ?ev) \<and> lg_appenders ?g = [0, 1]" by (simp add: new_LogEvent_def)
  then show ?thesis
    using log_statement_outputs [of ?st 0 ?g ?ev' ?ev "''hello''" 0 "?cell StdoutLogAppender" "\<lambda>s t. s" "''[hello]''"
        1 "?cell FileLogAppender" "''[hello]''" 2 "?cell FileLogAppender" "''[hello]''"] w
    unfolding Let_def by auto
qed

section \<open>The listener of the configuration\<close>

lemma tree_find_name: "tree_find define_less i old = Some j \<Longrightarrow> j \<in> set old \<and> ld_name j = ld_name i"
  by (induction old) (auto simp: define_less_def split: if_splits dest: str_less_total)

lemma tree_find_None: "tree_find define_less i old = None \<longleftrightarrow> (\<forall>j \<in> set old. ld_name j \<noteq> ld_name i)"
  by (induction old) (auto simp: define_less_def dest: str_less_total)

text \<open>An appender cell and a logger cell may change, the rest of a state may grow.\<close>

lemma set_appender_frame [simp]:
  "st_loggers (set_appender i a st) = st_loggers st" "mgr_map (set_appender i a st) = mgr_map st" "mgr_ready (set_appender i a st) = mgr_ready st"
  "length (st_appenders (set_appender i a st)) = length (st_appenders st)"
  "listening (set_appender i a st) = listening st" "log_defines (set_appender i a st) = log_defines st"
  by (simp_all add: set_appender_def)

lemma add_appender_result:
  assumes "l < length (st_loggers st)" "lad_type a = 1 \<or> lad_type a = 2"
    and fresh: "\<forall>i \<in> set (lg_appenders (st_loggers st ! l)). i < length (st_appenders st)"
  shows "\<exists>st'. add_appender ok l a st = Inr st' \<and> mgr_map st' = mgr_map st \<and> mgr_ready st' = mgr_ready st \<and>
    st_loggers st' = (st_loggers st)[l := (st_loggers st ! l)\<lparr>lg_appenders := lg_appenders (st_loggers st ! l) @ [length (st_appenders st)]\<rparr>] \<and>
    length (st_appenders st') = length (st_appenders st) + 1"
proof -
  have "length (st_appenders st) \<notin> set (lg_appenders (st_loggers st ! l))" using fresh by blast
  then show ?thesis using assms(1,2)
    by (auto simp: add_appender_def new_FileLogAppender_def new_StdoutLogAppender_def setAppender_def upd_logger_def Let_def)
qed

lemma add_appenders_result:
  assumes "l < length (st_loggers st)" "\<forall>a \<in> set as. lad_type a = 1 \<or> lad_type a = 2"
    and "\<forall>i \<in> set (lg_appenders (st_loggers st ! l)). i < length (st_appenders st)"
  shows "\<exists>st'. add_appenders ok l as st = Inr st' \<and> mgr_map st' = mgr_map st \<and> mgr_ready st' = mgr_ready st \<and>
    st_loggers st' = (st_loggers st)[l := (st_loggers st ! l)\<lparr>lg_appenders := lg_appenders (st_loggers st ! l) @
      [length (st_appenders st)..<length (st_appenders st) + length as]\<rparr>]"
  using assms
proof (induction as arbitrary: st)
  case (Cons a as)
  let ?g = "st_loggers st ! l"
  obtain st1 where 1: "add_appender ok l a st = Inr st1" "mgr_map st1 = mgr_map st" "mgr_ready st1 = mgr_ready st"
      "st_loggers st1 = (st_loggers st)[l := ?g\<lparr>lg_appenders := lg_appenders ?g @ [length (st_appenders st)]\<rparr>]"
      "length (st_appenders st1) = length (st_appenders st) + 1"
    using add_appender_result [of l st a ok] Cons.prems by auto
  then have "\<exists>st'. add_appenders ok l as st1 = Inr st' \<and> mgr_map st' = mgr_map st1 \<and> mgr_ready st' = mgr_ready st1 \<and>
      st_loggers st' = (st_loggers st1)[l := (st_loggers st1 ! l)\<lparr>lg_appenders := lg_appenders (st_loggers st1 ! l) @
        [length (st_appenders st1)..<length (st_appenders st1) + length as]\<rparr>]"
    using Cons.prems by (intro Cons.IH) (auto simp: less_Suc_eq)
  moreover have "[length (st_appenders st)..<length (st_appenders st) + length (a # as)] =
      length (st_appenders st) # [length (st_appenders st) + 1..<length (st_appenders st) + 1 + length as]"
    by (simp add: upt_rec)
  ultimately show ?case using 1 Cons.prems(1) by auto
qed simp

lemma add_appenders_Inl: "add_appenders ok l as st = Inl e \<Longrightarrow> e = NullDeref"
proof (induction as arbitrary: st)
  case (Cons a as)
  have "add_appender ok l a st = Inl e \<Longrightarrow> e = NullDeref" by (auto simp: add_appender_def Let_def split: if_splits prod.splits)
  then show ?case using Cons by (cases "add_appender ok l a st") auto
qed simp

text \<open>The logger that a definition makes. It has the formatter of the definition, but its appenders were added later and have their own.\<close>

definition defined_logger :: "LoggerDefine \<Rightarrow> nat \<Rightarrow> Logger" where
  "defined_logger i n =
     \<lparr>lg_id = ld_id i, lg_level = ld_level i, lg_name = ld_name i, lg_appenders = [n..<n + length (ld_appenders i)],
      lg_formatter = (if ld_formatter i = [] then None else Some (new_LogFormatter (ld_formatter i)))\<rparr>"

lemma build_logger_result:
  assumes "\<forall>a \<in> set (ld_appenders i). lad_type a = 1 \<or> lad_type a = 2"
  shows "\<exists>st'. build_logger ok junk i st = Inr (length (st_loggers st), st') \<and> mgr_map st' = mgr_map st \<and> mgr_ready st' = mgr_ready st \<and>
    st_loggers st' = st_loggers st @ [defined_logger i (length (st_appenders st))]"
proof -
  let ?l = "length (st_loggers st)"
  let ?g = "defined_logger i (length (st_appenders st))\<lparr>lg_appenders := []\<rparr>"
  let ?st = "st\<lparr>st_loggers := st_loggers st @ [?g]\<rparr>"
  have "build_logger ok junk i st = rbind (add_appenders ok ?l (ld_appenders i) ?st) (\<lambda>st. Inr (?l, st))"
    by (simp add: build_logger_def new_Logger_def upd_logger_def setFormatter_def clearAppenders_def Let_def defined_logger_def nth_append)
  then show ?thesis using add_appenders_result [of ?l ?st "ld_appenders i" ok] assms by (auto simp: nth_append defined_logger_def)
qed

lemma build_logger_Inl: "build_logger ok junk i st = Inl e \<Longrightarrow> e = NullDeref"
  by (auto simp: build_logger_def Let_def rbind_def split: prod.splits sum.splits dest: add_appenders_Inl)

lemma getInstance_ready [simp]: "mgr_ready st \<Longrightarrow> getInstance (Suc depth) ok junk yml st = Inr st"
  by simp

declare getInstance.simps [simp del]

lemma findLogger_addLogger:
  "findLogger name (addLogger l st) = (if name = lg_name (st_loggers st ! l) then Some l else findLogger name st)"
  by (simp add: findLogger_def addLogger_def update_conv')

lemma addLogger_frame [simp]:
  "st_loggers (addLogger l st) = st_loggers st" "mgr_ready (addLogger l st) = mgr_ready st"
  by (simp_all add: addLogger_def)

definition changed :: "LoggerDefine list \<Rightarrow> LoggerDefine \<Rightarrow> bool" where
  "changed old i \<longleftrightarrow> tree_find define_less i old \<noteq> Some i"

definition known_types :: "LoggerDefine \<Rightarrow> bool" where
  "known_types i \<longleftrightarrow> (\<forall>a \<in> set (ld_appenders i). lad_type a = 1 \<or> lad_type a = 2)"

lemma define_all_Cons:
  assumes "mgr_ready st"
  shows "define_all (getInstance (Suc depth) ok junk yml) ok junk old (i # is) st =
    (if \<not> changed old i then define_all (getInstance (Suc depth) ok junk yml) ok junk old is st
     else if findLogger (ld_name i) st \<noteq> None then Inl NullDeref
     else rbind (build_logger ok junk i st) (\<lambda>(l, st).
       rbind (getInstance (Suc depth) ok junk yml st) (\<lambda>st.
         define_all (getInstance (Suc depth) ok junk yml) ok junk old is (addLogger l st))))"
  using assms by (auto simp: changed_def)

lemma define_all_crash:
  assumes "mgr_ready st" "i \<in> set new" "changed old i" "findLogger (ld_name i) st \<noteq> None" "\<forall>i \<in> set new. known_types i"
  shows "define_all (getInstance (Suc depth) ok junk yml) ok junk old new st = Inl NullDeref"
  using assms
proof (induction new arbitrary: st)
  case (Cons k new)
  note step = define_all_Cons [OF Cons.prems(1)]
  show ?case
  proof (cases "changed old k \<and> findLogger (ld_name k) st = None")
    case False
    then show ?thesis unfolding step using Cons.IH [OF Cons.prems(1)] Cons.prems by auto
  next
    case True
    obtain st' where st': "build_logger ok junk k st = Inr (length (st_loggers st), st')" "mgr_map st' = mgr_map st" "mgr_ready st'"
        "st_loggers st' = st_loggers st @ [defined_logger k (length (st_appenders st))]"
      using build_logger_result [of k ok junk st] Cons.prems(1,5) by (auto simp: known_types_def)
    have "i \<in> set new" "ld_name i \<noteq> ld_name k" using True Cons.prems(2,4) by auto
    moreover have "findLogger (ld_name i) (addLogger (length (st_loggers st)) st') \<noteq> None"
      using st' Cons.prems(4) by (simp add: findLogger_addLogger defined_logger_def nth_append) (simp add: findLogger_def)
    ultimately have "define_all (getInstance (Suc depth) ok junk yml) ok junk old new (addLogger (length (st_loggers st)) st') = Inl NullDeref"
      using Cons.prems st' by (intro Cons.IH) auto
    then show ?thesis unfolding step using True st' by simp
  qed
qed simp

text \<open>The loggers that a definition has made.\<close>

definition has_logger :: "LoggerDefine \<Rightarrow> log_state \<Rightarrow> bool" where
  "has_logger i st \<longleftrightarrow> (\<exists>l n. findLogger (ld_name i) st = Some l \<and> l < length (st_loggers st) \<and> st_loggers st ! l = defined_logger i n)"

lemma define_all_ok:
  assumes "mgr_ready st" "distinct (map ld_name new)" "\<forall>i \<in> set new. known_types i"
    and "\<forall>i \<in> set new. changed old i \<longrightarrow> findLogger (ld_name i) st = None"
  shows "\<exists>st'. define_all (getInstance (Suc depth) ok junk yml) ok junk old new st = Inr st' \<and> mgr_ready st' \<and>
    (\<exists>ext. st_loggers st' = st_loggers st @ ext) \<and> (\<forall>i \<in> set new. changed old i \<longrightarrow> has_logger i st') \<and>
    (\<forall>name. \<not> (\<exists>i \<in> set new. changed old i \<and> ld_name i = name) \<longrightarrow> findLogger name st' = findLogger name st)"
  using assms
proof (induction new arbitrary: st)
  case (Cons k new)
  note step = define_all_Cons [OF Cons.prems(1)]
  show ?case
  proof (cases "changed old k")
    case False
    then show ?thesis unfolding step using Cons.IH [OF Cons.prems(1)] Cons.prems by auto
  next
    case True
    obtain st1 where st1: "build_logger ok junk k st = Inr (length (st_loggers st), st1)" "mgr_map st1 = mgr_map st" "mgr_ready st1"
        "st_loggers st1 = st_loggers st @ [defined_logger k (length (st_appenders st))]"
      using build_logger_result [of k ok junk st] Cons.prems(1,3) by (auto simp: known_types_def)
    let ?st = "addLogger (length (st_loggers st)) st1"
    have find: "findLogger name ?st = (if name = ld_name k then Some (length (st_loggers st)) else findLogger name st)" for name
      using st1 by (simp add: findLogger_addLogger defined_logger_def) (simp add: findLogger_def)
    have nk: "ld_name i \<noteq> ld_name k" if "i \<in> set new" for i
    proof
      assume "ld_name i = ld_name k"
      then have "ld_name k \<in> ld_name ` set new" using imageI [OF that, of ld_name] by simp
      then show False using Cons.prems(2) by simp
    qed
    then have "\<forall>i \<in> set new. changed old i \<longrightarrow> findLogger (ld_name i) ?st = None" using Cons.prems(4) by (auto simp: find)
    then obtain st' where st': "define_all (getInstance (Suc depth) ok junk yml) ok junk old new ?st = Inr st'" "mgr_ready st'"
        "\<exists>ext. st_loggers st' = st_loggers ?st @ ext" "\<forall>i \<in> set new. changed old i \<longrightarrow> has_logger i st'"
        "\<And>name. \<not> (\<exists>i \<in> set new. changed old i \<and> ld_name i = name) \<Longrightarrow> findLogger name st' = findLogger name ?st"
      using Cons.IH [of ?st] Cons.prems st1(3) by auto
    have "findLogger (ld_name k) st' = Some (length (st_loggers st))" using st'(5) [of "ld_name k"] nk by (auto simp: find)
    then have "has_logger k st'" using st'(3) st1(4) by (auto simp: has_logger_def nth_append)
    then show ?thesis unfolding step using True st1 st' Cons.prems(4) by (auto simp: find)
  qed
qed simp

lemma undefine_all_ok:
  "mgr_ready st \<Longrightarrow>
   \<exists>st'. undefine_all (getInstance (Suc depth) ok junk yml) old new st = Inr st' \<and> st_loggers st' = st_loggers st \<and> mgr_ready st' \<and>
     (\<forall>name. findLogger name st' =
       (if \<exists>i \<in> set old. ld_name i = name \<and> (\<forall>j \<in> set new. ld_name j \<noteq> name) then None else findLogger name st))"
proof (induction old arbitrary: st)
  case (Cons i old)
  show ?case
  proof (cases "tree_find define_less i new = None")
    case False
    then show ?thesis using Cons.IH [OF Cons.prems] Cons.prems by (auto simp: tree_find_None)
  next
    case True
    let ?st = "delLogger (ld_name i) st"
    have find: "findLogger name ?st = (if name = ld_name i then None else findLogger name st)" for name
      by (simp add: findLogger_def delLogger_def map_of_map_erase)
    have "mgr_ready ?st" "st_loggers ?st = st_loggers st" using Cons.prems by (simp_all add: delLogger_def)
    then obtain st' where "undefine_all (getInstance (Suc depth) ok junk yml) old new ?st = Inr st'" "st_loggers st' = st_loggers st" "mgr_ready st'"
        "\<And>name. findLogger name st' =
          (if \<exists>i \<in> set old. ld_name i = name \<and> (\<forall>j \<in> set new. ld_name j \<noteq> name) then None else findLogger name ?st)"
      using Cons.IH [of ?st] by auto
    then show ?thesis using True Cons.prems by (auto simp: find tree_find_None)
  qed
qed (simp add: findLogger_def)



section \<open>The first use of the manager\<close>

text \<open>
  The first use of the log. When the variable of the loggers has its listener and the log file defines loggers, the constructor of
  the manager calls the listener, which asks for the instance that is not set yet: the calls nest without end. Without the
  listener the manager is built, every name gives the default logger, and so it does again.
\<close>

theorem getInstance_first_use:
  assumes "\<not> mgr_ready st" "log_defines st = []" "new \<noteq> []"
  shows "(listening st \<longrightarrow> getInstance depth ok junk (Some (new # rest)) st = Inl StackOverflow) \<and>
    (\<not> listening st \<longrightarrow>
      (\<exists>st'. getInstance (Suc depth) ok junk (Some (new # rest)) st = Inr st' \<and> mgr_ready st' \<and> (\<forall>name. LookupLogger name st' = mgr_logger st') \<and>
        st_loggers st' ! mgr_logger st' =
          \<lparr>lg_id = junk, lg_level = DEBUG, lg_name = ''seaice'', lg_appenders = [length (st_appenders st), length (st_appenders st) + 1], lg_formatter = None\<rparr> \<and>
        getInstance (Suc depth) ok junk (Some (new # rest)) st' = Inr st')) \<and>
    getInstance (Suc depth) ok junk None st = Inl LogicError"
proof (intro conjI impI)
  let ?built = "\<lambda>st. snd (new_default_logger ok junk st)"
  have built: "mgr_ready (?built s) = mgr_ready s" "listening (?built s) = listening s" "log_defines (?built s) = log_defines s"
    "mgr_map (?built s) = []" "fst (new_default_logger ok junk s) = length (st_loggers s)" "st_loggers (?built s) = st_loggers s @
      [\<lparr>lg_id = junk, lg_level = DEBUG, lg_name = ''seaice'', lg_appenders = [length (st_appenders s), length (st_appenders s) + 1], lg_formatter = None\<rparr>]" for s
    by (simp_all add: new_default_logger_def new_Logger_def new_StdoutLogAppender_def new_FileLogAppender_def setAppender_def upd_logger_def Let_def nth_append)
  have step: "getInstance (Suc d) ok junk yml s = (if mgr_ready s then Inr s else case yml of None \<Rightarrow> Inl LogicError
    | Some values \<Rightarrow> rbind (set_defines (on_logger_conf_changed (getInstance d ok junk yml) ok junk) values (?built s))
        (\<lambda>s'. Inr (s'\<lparr>mgr_ready := True, mgr_logger := length (st_loggers s)\<rparr>)))" for d yml s
    using built(5) [of s] by (simp add: getInstance.simps(2) Let_def case_prod_beta split: option.split)
  show "getInstance depth ok junk (Some (new # rest)) st = Inl StackOverflow" if "listening st"
    using assms(1,2) that
  proof (induction depth arbitrary: st)
    case 0
    show ?case by (simp add: getInstance.simps)
  next
    case (Suc d)
    let ?s = "?built st"
    have "getInstance d ok junk (Some (new # rest)) ?s = Inl StackOverflow"
      by (rule Suc.IH) (use Suc.prems built [of st] in simp_all)
    then have "on_logger_conf_changed (getInstance d ok junk (Some (new # rest))) ok junk [] new ?s = Inl StackOverflow"
      using assms(3) by (cases new) (simp_all add: on_logger_conf_changed_def)
    then have "set_defines (on_logger_conf_changed (getInstance d ok junk (Some (new # rest))) ok junk) (new # rest) ?s = Inl StackOverflow"
      using Suc.prems built [of st] assms(3) by simp
    then show ?case unfolding step using Suc.prems(1) by simp
  qed
  show "\<exists>st'. getInstance (Suc depth) ok junk (Some (new # rest)) st = Inr st' \<and> mgr_ready st' \<and> (\<forall>name. LookupLogger name st' = mgr_logger st') \<and>
      st_loggers st' ! mgr_logger st' =
        \<lparr>lg_id = junk, lg_level = DEBUG, lg_name = ''seaice'', lg_appenders = [length (st_appenders st), length (st_appenders st) + 1], lg_formatter = None\<rparr> \<and>
      getInstance (Suc depth) ok junk (Some (new # rest)) st' = Inr st'" if "\<not> listening st"
  proof -
    have "set_defines f vs s = Inr s" if "\<not> listening s" for f vs s using that by (induction vs) auto
    then show ?thesis unfolding step using assms(1) built [of st] \<open>\<not> listening st\<close> by (simp add: LookupLogger_def nth_append)
  qed
  show "getInstance (Suc depth) ok junk None st = Inl LogicError" unfolding step using assms(1) by simp
qed

theorem getInstance_first_use_witness:
  "getInstance 1000 True 0 (Some [[\<lparr>ld_id = 1, ld_name = ''system'', ld_level = INFO, ld_appenders = [], ld_formatter = []\<rparr>]])
     \<lparr>st_appenders = [], st_loggers = [], st_out = [], st_file = [], mgr_ready = False, mgr_map = [], mgr_logger = 0, log_defines = [], listening = True\<rparr> =
   Inl StackOverflow"
  using getInstance_first_use [of "\<lparr>st_appenders = [], st_loggers = [], st_out = [], st_file = [], mgr_ready = False, mgr_map = [], mgr_logger = 0,
      log_defines = [], listening = True\<rparr>" "[\<lparr>ld_id = 1, ld_name = ''system'', ld_level = INFO, ld_appenders = [], ld_formatter = []\<rparr>]" 1000]
  by simp

section \<open>Definitions of loggers as text\<close>

definition plain_define :: "LoggerDefine \<Rightarrow> bool" where
  "plain_define d \<longleftrightarrow> (\<forall>a \<in> set (ld_appenders d). (lad_type a = 1 \<or> lad_type a = 2 \<and> lad_file a = []) \<and> lad_level a = UNKNOW)"

lemma appender_back:
  assumes "\<And>s. as_string (YScalar s) = Inr s" "lad_type a = 1 \<or> lad_type a = 2 \<and> lad_file a = []" "lad_level a = UNKNOW"
  shows "appender_from as_string (appender_node a) = Inr [a]"
  using assms
  by (cases a; cases "lad_formatter a = []")
    (auto simp: appender_from_def appender_node_def field_unless_def yaml_get_def required_def optional_def)

lemma define_back:
  assumes str: "\<And>s. as_string (YScalar s) = Inr s" and int: "\<And>i. as_int (YScalar (show_int i)) = Inr i"
    and idx: "\<And>l i. i < length l \<Longrightarrow> idx (YSeq l) i = l ! i" and d: "plain_define d"
  shows "LoggerDefine_from as_string as_int idx (LoggerDefine_node d) = Inr d"
proof -
  have "rmap (\<lambda>i. appender_from as_string (idx (YSeq (map appender_node (ld_appenders d))) i)) [0..<length (ld_appenders d)] =
      Inr (map (\<lambda>i. [ld_appenders d ! i]) [0..<length (ld_appenders d)])"
    using d by (intro rmap_Inr) (auto simp: idx plain_define_def intro!: appender_back str)
  moreover have "concat (map (\<lambda>i. [ld_appenders d ! i]) [0..<length (ld_appenders d)]) = ld_appenders d"
    by (simp add: map_nth)
  ultimately have apps: "rbind (rmap (\<lambda>i. appender_from as_string (idx (YSeq (map appender_node (ld_appenders d))) i)) [0..<length (ld_appenders d)])
      (\<lambda>as. Inr (concat as)) = Inr (ld_appenders d)" by simp
  show ?thesis
    using apps
    by (cases "ld_level d = UNKNOW"; cases "ld_formatter d = []"; cases "ld_appenders d = []")
      (simp_all add: LoggerDefine_from_def LoggerDefine_node_def field_unless_def yaml_get_def required_def optional_def str int Level_roundtrip)
qed

text \<open>A reader of decimal integers.\<close>

definition read_int :: "string \<Rightarrow> int option" where
  "read_int s =
     (if s \<noteq> [] \<and> hd s = CHR ''-'' then map_option (\<lambda>n. - int n) (read_num 10 (tl s)) else map_option int (read_num 10 s))"

lemma read_show_int: "read_int (show_int i) = Some i"
proof -
  have "hd (dec n) \<in> set (dec n)" for n using dec_nonempty [of n] by (rule hd_in_set)
  then have "hd (dec n) \<noteq> CHR ''-''" for n using dec_digits [of n] by fastforce
  then show ?thesis using dec_nonempty by (simp add: read_int_def show_int_def)
qed

text \<open>
  The configuration of the loggers as text. A set of definitions whose appenders are of the two known types survives its
  conversion to text and back, appender by appender, given the laws of the YAML library; the level of an appender is the one part
  that is neither written nor read, so a definition with such a level comes back without it.
\<close>

theorem logger_definitions_roundtrip:
  assumes "yaml_laws load emit idx" "\<And>s. as_string (YScalar s) = Inr s" "\<And>i. as_int (YScalar (show_int i)) = Inr i"
    and "sorted_wrt define_less ds" "\<forall>d \<in> set ds. plain_define d" "lad_type a = 2" "lad_file a = []"
  shows "rbind (vector_to load emit (\<lambda>d. Inr (emit (LoggerDefine_node d))) ds)
      (set_from load emit idx define_less (\<lambda>v. rbind (load v) (LoggerDefine_from as_string as_int idx))) = Inr ds \<and>
    appender_from as_string (appender_node a) = Inr [a\<lparr>lad_level := UNKNOW\<rparr>]"
proof
  have load: "load (emit n) = Inr n" and idx: "i < length l \<Longrightarrow> idx (YSeq l) i = l ! i" for n l i using assms(1) by (auto simp: yaml_laws_def)
  let ?to = "\<lambda>d. Inr (emit (LoggerDefine_node d))" and ?from = "\<lambda>v. rbind (load v) (LoggerDefine_from as_string as_int idx)"
  have "carries load emit ?to ?from d" if "d \<in> set ds" for d
    using define_back [OF assms(2,3) idx] assms(5) that by (simp add: carries_def load)
  moreover have "define_less x y \<Longrightarrow> \<not> define_less y x" for x y by (simp add: define_less_def str_less_asym)
  ultimately have c: "carries load emit (vector_to load emit ?to) (set_from load emit idx define_less ?from) ds"
    using set_carries [OF assms(1), of ds ?to ?from define_less] assms(4) by blast
  show "rbind (vector_to load emit ?to ds) (set_from load emit idx define_less ?from) = Inr ds"
    by (rule carries_back [OF c]) (auto simp: vector_to_def rbind_eq_Inr load)
  have "appender_node a = appender_node (a\<lparr>lad_level := UNKNOW\<rparr>)" by (simp add: appender_node_def)
  then show "appender_from as_string (appender_node a) = Inr [a\<lparr>lad_level := UNKNOW\<rparr>]"
    using appender_back [OF assms(2), of "a\<lparr>lad_level := UNKNOW\<rparr>"] assms(6,7) by simp
qed


theorem logger_definitions_roundtrip_witness:
  "let as_string = (\<lambda>n. case n of YScalar s \<Rightarrow> Inr s | _ \<Rightarrow> Inl LogicError);
       as_int = (\<lambda>n. case read_int (Scalar n) of None \<Rightarrow> Inl LogicError | Some i \<Rightarrow> Inr i);
       a = \<lparr>lad_type = 2, lad_formatter = ''%m'', lad_file = [], lad_level = UNKNOW\<rparr>;
       d = \<lparr>ld_id = 1, ld_name = ''system'', ld_level = INFO, ld_appenders = [a], ld_formatter = []\<rparr> in
   rbind (vector_to plain_load plain_emit (\<lambda>d. Inr (plain_emit (LoggerDefine_node d))) [d])
     (set_from plain_load plain_emit plain_idx define_less (\<lambda>v. rbind (plain_load v) (LoggerDefine_from as_string as_int plain_idx))) = Inr [d]"
proof -
  let ?as_string = "\<lambda>n. case n of YScalar s \<Rightarrow> Inr s | _ \<Rightarrow> Inl LogicError"
  let ?as_int = "\<lambda>n. case read_int (Scalar n) of None \<Rightarrow> Inl LogicError | Some i \<Rightarrow> Inr i"
  let ?a = "\<lparr>lad_type = 2, lad_formatter = ''%m'', lad_file = [], lad_level = UNKNOW\<rparr>"
  let ?d = "\<lparr>ld_id = 1, ld_name = ''system'', ld_level = INFO, ld_appenders = [?a], ld_formatter = []\<rparr>"
  have "sorted_wrt define_less [?d]" "\<forall>d \<in> set [?d]. plain_define d" "lad_type ?a = 2" "lad_file ?a = []"
    by (simp_all add: plain_define_def)
  then show ?thesis unfolding Let_def
    using logger_definitions_roundtrip [OF plain_laws, of ?as_string ?as_int "[?d]" ?a] read_show_int by simp
qed

end
