(* ===== verification/TcpServer.thy ===== *)
theory TcpServer imports Socket Log "HOL-Library.Multiset" "HOL-Library.Sublist" begin

text \<open>
  The TCP server (\<^verbatim>\<open>seaice/tcpserver.h\<close>, \<^verbatim>\<open>tcpserver.cpp\<close>): its configuration as text, binding to a list of addresses, starting, accepting and
  stopping. Sockets are shared: the server, the tasks it has scheduled and the loops that accept all hold them, so they live in a store and are
  named by their number; a socket is destroyed, and with it closed, when nobody holds it any more.
\<close>

section \<open>The configuration\<close>

record TcpServerConf =
  tsc_address :: "string list"
  tsc_keepalive :: int
  tsc_timeout :: int
  tsc_ssl :: int
  tsc_id :: string
  tsc_type :: string
  tsc_name :: string
  tsc_cert_file :: string
  tsc_key_file :: string
  tsc_accept_worker :: string
  tsc_process_worker :: string
  tsc_args :: "(string \<times> string) list"

definition new_TcpServerConf :: TcpServerConf where
  "new_TcpServerConf =
     \<lparr>tsc_address = [], tsc_keepalive = 0, tsc_timeout = 1000 * 60, tsc_ssl = 0, tsc_id = [], tsc_type = ''http'', tsc_name = ''unknow'',
      tsc_cert_file = [], tsc_key_file = [], tsc_accept_worker = [], tsc_process_worker = [], tsc_args = []\<rparr>"

definition conf_isValid :: "TcpServerConf \<Rightarrow> bool" where
  "conf_isValid c \<longleftrightarrow> tsc_address c \<noteq> []"

definition conf_eq :: "TcpServerConf \<Rightarrow> TcpServerConf \<Rightarrow> bool" where
  "conf_eq a b \<longleftrightarrow>
     tsc_address a = tsc_address b \<and> tsc_keepalive a = tsc_keepalive b \<and> tsc_timeout a = tsc_timeout b \<and> tsc_name a = tsc_name b \<and>
     tsc_ssl a = tsc_ssl b \<and> tsc_cert_file a = tsc_cert_file b \<and> tsc_key_file a = tsc_key_file b \<and> tsc_address a = tsc_address b \<and>
     tsc_accept_worker a = tsc_accept_worker b \<and> tsc_process_worker a = tsc_process_worker b \<and> tsc_args a = tsc_args b \<and>
     tsc_id a = tsc_id b \<and> tsc_type a = tsc_type b"

text \<open>The text for the log; the addresses stand at the end and not behind their name.\<close>

definition conf_toString :: "TcpServerConf \<Rightarrow> string" where
  "conf_toString c =
     ''[keepalive = '' @ show_int (tsc_keepalive c) @ '', timeout = '' @ show_int (tsc_timeout c) @ '', name = '' @ tsc_name c @ '', address = '' @
     '', accept_worker = '' @ tsc_accept_worker c @ '', process_worker = '' @ tsc_process_worker c @
     concat (map (\<lambda>a. a @ '','') (tsc_address c)) @ '']''"

text \<open>
  \<^verbatim>\<open>node["key"].as<T>(d)\<close> is \<open>d\<close> where there is no such key or its node cannot be converted; \<open>as_string\<close> and \<open>as_int\<close> are the conversions of the
  library. \<^verbatim>\<open>as<std::string>()\<close> without a default throws instead.
\<close>

definition with_default :: "(yaml \<Rightarrow> 'a option) \<Rightarrow> 'a \<Rightarrow> yaml \<Rightarrow> string \<Rightarrow> fault + 'a" where
  "with_default as d node key =
     rbind (yaml_get node key) (\<lambda>n. Inr (case Option.bind n as of None \<Rightarrow> d | Some v \<Rightarrow> v))"

definition as_or_throw :: "(yaml \<Rightarrow> 'a option) \<Rightarrow> yaml \<Rightarrow> fault + 'a" where
  "as_or_throw as node = (case as node of None \<Rightarrow> Inl LogicError | Some v \<Rightarrow> Inr v)"

definition conf_of_node ::
  "(string \<Rightarrow> fault + yaml) \<Rightarrow> (yaml \<Rightarrow> string) \<Rightarrow> (yaml \<Rightarrow> nat \<Rightarrow> yaml) \<Rightarrow> (yaml \<Rightarrow> string option) \<Rightarrow> (yaml \<Rightarrow> int option) \<Rightarrow> yaml \<Rightarrow>
   fault + TcpServerConf" where
  "conf_of_node load emit idx as_string as_int node =
     (let conf = new_TcpServerConf in
      rbind (with_default as_string (tsc_id conf) node ''id'') (\<lambda>id.
      rbind (with_default as_int (tsc_ssl conf) node ''ssl'') (\<lambda>ssl.
      rbind (with_default as_string (tsc_type conf) node ''type'') (\<lambda>ty.
      rbind (with_default as_string (tsc_cert_file conf) node ''cert_file'') (\<lambda>cert.
      rbind (with_default as_string (tsc_key_file conf) node ''key_file'') (\<lambda>key.
      rbind (with_default as_int (tsc_keepalive conf) node ''keepalive'') (\<lambda>keepalive.
      rbind (with_default as_int (tsc_timeout conf) node ''timeout'') (\<lambda>timeout.
      rbind (with_default as_string (tsc_name conf) node ''name'') (\<lambda>name.
      rbind (with_default as_string (tsc_accept_worker conf) node ''accept_worker'') (\<lambda>aw.
      rbind (with_default as_string (tsc_process_worker conf) node ''process_worker'') (\<lambda>pw.
      rbind (rbind (with_default as_string [] node ''args'') (map_from load emit Inr)) (\<lambda>args.
      rbind (rbind (yaml_get node ''address'') (\<lambda>n. case n of
               None \<Rightarrow> Inr []
             | Some l \<Rightarrow> rmap (\<lambda>i. as_or_throw as_string (idx l i)) [0..<node_size l])) (\<lambda>address.
        Inr \<lparr>tsc_address = address, tsc_keepalive = keepalive, tsc_timeout = timeout, tsc_ssl = ssl, tsc_id = id, tsc_type = ty, tsc_name = name,
             tsc_cert_file = cert, tsc_key_file = key, tsc_accept_worker = aw, tsc_process_worker = pw, tsc_args = args\<rparr>)))))))))))))"

definition conf_from ::
  "(string \<Rightarrow> fault + yaml) \<Rightarrow> (yaml \<Rightarrow> string) \<Rightarrow> (yaml \<Rightarrow> nat \<Rightarrow> yaml) \<Rightarrow> (yaml \<Rightarrow> string option) \<Rightarrow> (yaml \<Rightarrow> int option) \<Rightarrow> string \<Rightarrow>
   fault + TcpServerConf" where
  "conf_from load emit idx as_string as_int v = rbind (load v) (conf_of_node load emit idx as_string as_int)"

definition conf_node :: "TcpServerConf \<Rightarrow> yaml \<Rightarrow> yaml" where
  "conf_node c args =
     YMap ([(YScalar ''id'', YScalar (tsc_id c)), (YScalar ''type'', YScalar (tsc_type c)), (YScalar ''ssl'', YScalar (show_int (tsc_ssl c))),
            (YScalar ''cert_file'', YScalar (tsc_cert_file c)), (YScalar ''key_file'', YScalar (tsc_key_file c)),
            (YScalar ''keepalive'', YScalar (show_int (tsc_keepalive c))), (YScalar ''timeout'', YScalar (show_int (tsc_timeout c))),
            (YScalar ''name'', YScalar (tsc_name c)), (YScalar ''process_worker'', YScalar (tsc_process_worker c)), (YScalar ''args'', args),
            (YScalar ''accept_worker'', YScalar (tsc_accept_worker c))] @
           field_unless (tsc_address c = []) ''address'' (YSeq (map YScalar (tsc_address c))))"

definition conf_to :: "(string \<Rightarrow> fault + yaml) \<Rightarrow> (yaml \<Rightarrow> string) \<Rightarrow> TcpServerConf \<Rightarrow> fault + string" where
  "conf_to load emit c =
     rbind (map_to load emit Inr (tsc_args c)) (\<lambda>s. rbind (load s) (\<lambda>args. Inr (emit (conf_node c args))))"

lemma conf_eq_iff: "conf_eq a b \<longleftrightarrow> a = b"
  by (cases a; cases b) (auto simp: conf_eq_def)

text \<open>
  The configuration of a server as text. Every field survives the conversion to text and back but the arguments: they are
  written as a map, and read as a string with the empty default, so they always come back empty.
\<close>

theorem server_conf_roundtrip:
  assumes "yaml_laws load emit idx" and "load [] = Inr YNull"
    and "\<And>s. as_string (YScalar s) = Some s" "\<And>m. as_string (YMap m) = None" "\<And>i. as_int (YScalar (show_int i)) = Some i"
    and "conf_to load emit c = Inr v"
  shows "conf_from load emit idx as_string as_int v = Inr (c\<lparr>tsc_args := []\<rparr>)"
proof -
  have load: "load (emit n) = Inr n" and idx: "i < length l \<Longrightarrow> idx (YSeq l) i = l ! i" for n l i using assms(1) by (auto simp: yaml_laws_def)
  obtain m where v: "v = emit (conf_node c (YMap m))"
    using assms(6) by (auto simp: conf_to_def map_to_def rbind_eq_Inr load)
  have addrs: "rmap (\<lambda>i. as_or_throw as_string (idx (YSeq (map YScalar a)) i)) [0..<length a] = Inr a" for a
  proof -
    have "rmap (\<lambda>i. as_or_throw as_string (idx (YSeq (map YScalar a)) i)) [0..<length a] = Inr (map ((!) a) [0..<length a])"
      by (intro rmap_Inr) (simp add: as_or_throw_def idx assms(3))
    then show ?thesis by (simp add: map_nth)
  qed
  have args: "map_from load emit Inr [] = Inr []" by (simp add: map_from_def assms(2))
  have "conf_of_node load emit idx as_string as_int (conf_node c (YMap m)) = Inr (c\<lparr>tsc_args := []\<rparr>)"
    by (cases c) (simp add: conf_of_node_def conf_node_def with_default_def yaml_get_def field_unless_def assms(3,4,5) addrs args Let_def)
  then show ?thesis by (simp add: conf_from_def v load)
qed

theorem server_conf_roundtrip_witness:
  "let load = (\<lambda>s. if s = [] then Inr YNull else plain_load s);
       as_string = (\<lambda>n. case n of YScalar s \<Rightarrow> Some s | _ \<Rightarrow> None); as_int = (\<lambda>n. read_int (Scalar n));
       c = new_TcpServerConf\<lparr>tsc_address := [''0.0.0.0:80''], tsc_args := [(''k'', plain_emit (YScalar ''v''))]\<rparr> in
   rbind (conf_to load plain_emit c) (conf_from load plain_emit plain_idx as_string as_int) =
     Inr (new_TcpServerConf\<lparr>tsc_address := [''0.0.0.0:80'']\<rparr>)"
proof -
  let ?load = "\<lambda>s. if s = [] then Inr YNull else plain_load s"
  let ?as_string = "\<lambda>n. case n of YScalar s \<Rightarrow> Some s | _ \<Rightarrow> None" and ?as_int = "\<lambda>n. read_int (Scalar n)"
  let ?c = "new_TcpServerConf\<lparr>tsc_address := [''0.0.0.0:80''], tsc_args := [(''k'', plain_emit (YScalar ''v''))]\<rparr>"
  have "plain_emit n \<noteq> []" for n by (cases n) simp_all
  then have laws: "yaml_laws ?load plain_emit plain_idx" using plain_laws by (simp add: yaml_laws_def)
  have "conf_from ?load plain_emit plain_idx ?as_string ?as_int v = Inr (?c\<lparr>tsc_args := []\<rparr>)" if "conf_to ?load plain_emit ?c = Inr v" for v
    by (rule server_conf_roundtrip [OF laws _ _ _ _ that]) (simp_all add: read_show_int)
  moreover have "?c\<lparr>tsc_args := []\<rparr> = new_TcpServerConf\<lparr>tsc_address := [''0.0.0.0:80'']\<rparr>" by (simp add: new_TcpServerConf_def)
  moreover have load: "?load (plain_emit n) = Inr n" for n using laws by (simp add: yaml_laws_def)
  have "map_to ?load plain_emit Inr (tsc_args ?c) = Inr (plain_emit (YMap [(YScalar ''k'', YScalar ''v'')]))"
    using load [of "YScalar ''v''"] by (simp add: map_to_def new_TcpServerConf_def del: plain_emit.simps)
  then have "conf_to ?load plain_emit ?c = Inr (plain_emit (conf_node ?c (YMap [(YScalar ''k'', YScalar ''v'')])))"
    using load [of "YMap [(YScalar ''k'', YScalar ''v'')]"] by (simp add: conf_to_def del: plain_emit.simps)
  ultimately show ?thesis unfolding Let_def by (simp del: plain_emit.simps)
qed

section \<open>The server\<close>

text \<open>What the worker for accepting is given to run: the loop over a socket, or the closing of the server's sockets.\<close>

datatype tcp_job = StartAccept nat | CloseAll

text \<open>
  The server and what it shares: the sockets it has made, the tasks that wait for the worker, the sockets of the loops that are about to look at
  the flag and of those that are in a call of \<^verbatim>\<open>accept\<close>, the clients that were handed to the other worker, and the state of the system.
\<close>

record 's tcp_server =
  ts_isStop :: bool
  ts_readTimeout :: u64
  ts_name :: string
  ts_sockets :: "nat list"
  ts_objs :: "socket list"
  ts_jobs :: "tcp_job list"
  ts_loops :: "nat list"
  ts_accepts :: "nat list"
  ts_clients :: "socket list"
  ts_net :: 's

definition new_TcpServer :: "'s \<Rightarrow> 's tcp_server" where
  "new_TcpServer s =
     \<lparr>ts_isStop = True, ts_readTimeout = 3000, ts_name = ''TcpServer'', ts_sockets = [], ts_objs = [], ts_jobs = [], ts_loops = [],
      ts_accepts = [], ts_clients = [], ts_net = s\<rparr>"

definition close_obj :: "'s net \<Rightarrow> nat \<Rightarrow> 's tcp_server \<Rightarrow> 's tcp_server" where
  "close_obj net k st =
     (case sk_close net (ts_objs st ! k) (ts_net st) of (_, sk, s) \<Rightarrow> st\<lparr>ts_objs := (ts_objs st)[k := sk], ts_net := s\<rparr>)"

definition held :: "nat \<Rightarrow> 's tcp_server \<Rightarrow> bool" where
  "held k st \<longleftrightarrow> k \<in> set (ts_sockets st) \<or> StartAccept k \<in> set (ts_jobs st) \<or> k \<in> set (ts_loops st) \<or> k \<in> set (ts_accepts st)"

text \<open>The end of a reference: the last one destroys the socket.\<close>

definition release_obj :: "'s net \<Rightarrow> nat \<Rightarrow> 's tcp_server \<Rightarrow> 's tcp_server" where
  "release_obj net k st = (if held k st then st else close_obj net k st)"

definition clear_sockets :: "'s net \<Rightarrow> 's tcp_server \<Rightarrow> 's tcp_server" where
  "clear_sockets net st = fold (release_obj net) (ts_sockets st) (st\<lparr>ts_sockets := []\<rparr>)"

text \<open>A socket that cannot be bound or cannot listen is destroyed at once.\<close>

fun bind_loop :: "'s net \<Rightarrow> address list \<Rightarrow> address list \<Rightarrow> 's tcp_server \<Rightarrow> address list \<times> 's tcp_server" where
  "bind_loop net [] fails st = (fails, st)"
| "bind_loop net (a # addrs) fails st =
     (case sk_bind net a (CreateTCP a) (ts_net st) of
        (ok, sk, s) \<Rightarrow>
          if \<not> ok then bind_loop net addrs (fails @ [a]) (st\<lparr>ts_net := sk_destroy net sk s\<rparr>)
          else
            (case sk_listen net 1000 sk s of
               (ok, s) \<Rightarrow>
                 if \<not> ok then bind_loop net addrs (fails @ [a]) (st\<lparr>ts_net := sk_destroy net sk s\<rparr>)
                 else bind_loop net addrs fails
                        (st\<lparr>ts_sockets := ts_sockets st @ [length (ts_objs st)], ts_objs := ts_objs st @ [sk], ts_net := s\<rparr>)))"

definition ts_bind :: "'s net \<Rightarrow> address list \<Rightarrow> address list \<Rightarrow> 's tcp_server \<Rightarrow> bool \<times> address list \<times> 's tcp_server" where
  "ts_bind net addrs fails st =
     (case bind_loop net addrs fails st of
        (fails, st) \<Rightarrow> if fails \<noteq> [] then (False, fails, clear_sockets net st) else (True, fails, st))"

definition ts_bind_one :: "'s net \<Rightarrow> address \<Rightarrow> 's tcp_server \<Rightarrow> bool \<times> 's tcp_server" where
  "ts_bind_one net a st = (case ts_bind net [a] [] st of (ok, _, st) \<Rightarrow> (ok, st))"

definition ts_start :: "'s tcp_server \<Rightarrow> bool \<times> 's tcp_server" where
  "ts_start st =
     (if \<not> ts_isStop st then (True, st)
      else (True, st\<lparr>ts_isStop := False, ts_jobs := ts_jobs st @ map StartAccept (ts_sockets st)\<rparr>))"

definition ts_stop :: "'s tcp_server \<Rightarrow> 's tcp_server" where
  "ts_stop st = st\<lparr>ts_isStop := True, ts_jobs := ts_jobs st @ [CloseAll]\<rparr>"

text \<open>The task that \<open>stop\<close> schedules, and the destructor. \<open>cancel\<close> is what waking up the fibers that wait for a descriptor does.\<close>

definition close_all :: "'s net \<Rightarrow> (int \<Rightarrow> 's \<Rightarrow> 's) \<Rightarrow> 's tcp_server \<Rightarrow> 's tcp_server" where
  "close_all net cancel st =
     clear_sockets net (fold (\<lambda>k st. close_obj net k (st\<lparr>ts_net := cancel (sk_sock (ts_objs st ! k)) (ts_net st)\<rparr>)) (ts_sockets st) st)"

definition ts_destroy :: "'s net \<Rightarrow> 's tcp_server \<Rightarrow> 's tcp_server" where
  "ts_destroy net st = clear_sockets net (fold (close_obj net) (ts_sockets st) st)"

text \<open>One round of the loop that accepts: the client goes to the other worker; an error is only logged.\<close>

definition accept_round :: "'s net \<Rightarrow> nat \<Rightarrow> 's tcp_server \<Rightarrow> fault + 's tcp_server" where
  "accept_round net k st =
     rbind (sk_accept net (ts_objs st ! k) (ts_net st)) (\<lambda>(client, s).
       Inr (case client of
              Some c \<Rightarrow> st\<lparr>ts_clients := ts_clients st @ [c], ts_net := s\<rparr>
            | None \<Rightarrow> st\<lparr>ts_net := s\<rparr>))"

text \<open>
  The steps of the worker for accepting: it takes any waiting task, and any loop goes on. The loop looks at the flag before each call of
  \<^verbatim>\<open>accept\<close>, which returns later, whatever the flag is then; the end of the loop gives up its reference.
\<close>

inductive tcp_work :: "'s net \<Rightarrow> (int \<Rightarrow> 's \<Rightarrow> 's) \<Rightarrow> 's tcp_server \<Rightarrow> 's tcp_server \<Rightarrow> bool" for net cancel where
  begin_loop: "ts_jobs st = js1 @ StartAccept k # js2 \<Longrightarrow>
     tcp_work net cancel st (st\<lparr>ts_jobs := js1 @ js2, ts_loops := ts_loops st @ [k]\<rparr>)"
| close_task: "ts_jobs st = js1 @ CloseAll # js2 \<Longrightarrow> tcp_work net cancel st (close_all net cancel (st\<lparr>ts_jobs := js1 @ js2\<rparr>))"
| enter_accept: "ts_loops st = ls1 @ k # ls2 \<Longrightarrow> \<not> ts_isStop st \<Longrightarrow>
     tcp_work net cancel st (st\<lparr>ts_loops := ls1 @ ls2, ts_accepts := ts_accepts st @ [k]\<rparr>)"
| accept_one: "ts_accepts st = as1 @ k # as2 \<Longrightarrow> accept_round net k (st\<lparr>ts_accepts := as1 @ as2, ts_loops := ts_loops st @ [k]\<rparr>) = Inr st' \<Longrightarrow>
     tcp_work net cancel st st'"
| end_loop: "ts_loops st = ls1 @ k # ls2 \<Longrightarrow> ts_isStop st \<Longrightarrow>
     tcp_work net cancel st (release_obj net k (st\<lparr>ts_loops := ls1 @ ls2\<rparr>))"

text \<open>A history of the server: calls of its owner and steps of the worker, in any order.\<close>

inductive tcp_step :: "'s net \<Rightarrow> (int \<Rightarrow> 's \<Rightarrow> 's) \<Rightarrow> 's tcp_server \<Rightarrow> 's tcp_server \<Rightarrow> bool" for net cancel where
  call_bind: "ts_bind net addrs fails st = (ok, fails', st') \<Longrightarrow> tcp_step net cancel st st'"
| call_start: "ts_start st = (ok, st') \<Longrightarrow> tcp_step net cancel st st'"
| call_stop: "tcp_step net cancel st (ts_stop st)"
| work: "tcp_work net cancel st st' \<Longrightarrow> tcp_step net cancel st st'"

section \<open>Descriptors of several sockets\<close>

text \<open>A descriptor that is accepted is in the table of descriptors as a socket that is not closed: the hooked \<^verbatim>\<open>accept\<close> puts it there.\<close>

definition accept_registers :: "'s net \<Rightarrow> bool" where
  "accept_registers net \<longleftrightarrow>
     (\<forall>fd s fd' s'. n_accept net fd s = (fd', s') \<longrightarrow>
        (if fd' = - 1 then n_ctx net fd' s' = Inr None else \<exists>c. n_ctx net fd' s' = Inr (Some c) \<and> fx_isSocket c \<and> \<not> fx_isClosed c))"

definition fds :: "socket list \<Rightarrow> int list" where
  "fds sks = filter (\<lambda>fd. fd \<noteq> - 1) (map sk_sock sks)"

text \<open>The sockets of a list own different descriptors, and these are all that are open besides \<open>base\<close>.\<close>

definition pool_owns :: "('s \<Rightarrow> int set) \<Rightarrow> int set \<Rightarrow> socket list \<Rightarrow> 's \<Rightarrow> bool" where
  "pool_owns opened base sks s \<longleftrightarrow>
     opened s = base \<union> set (fds sks) \<and> distinct (fds sks) \<and> set (fds sks) \<inter> base = {} \<and> (\<forall>sk \<in> set sks. sk_connected sk \<longrightarrow> isValid sk)"

lemma fds_simps [simp]:
  "fds [] = []" "fds (sk # sks) = (if sk_sock sk = - 1 then fds sks else sk_sock sk # fds sks)" "fds (xs @ ys) = fds xs @ fds ys"
  by (simp_all add: fds_def)

lemma pool_owns_mset:
  assumes "mset xs = mset ys"
  shows "pool_owns opened base xs s = pool_owns opened base ys s"
proof -
  have "mset (fds xs) = mset (fds ys)" using assms by (simp add: fds_def mset_filter mset_map)
  then have "set (fds xs) = set (fds ys)" "distinct (fds xs) = distinct (fds ys)"
    by (rule mset_eq_setD, rule mset_eq_imp_distinct_iff)
  moreover have "set xs = set ys" using assms by (rule mset_eq_setD)
  ultimately show ?thesis by (simp add: pool_owns_def)
qed

text \<open>One socket of the pool owns its descriptor as if those of the others belonged to somebody else.\<close>

lemma pool_owns_Cons:
  "pool_owns opened base (sk # sks) s \<longleftrightarrow>
     owns opened (base \<union> set (fds sks)) sk s \<and> distinct (fds sks) \<and> set (fds sks) \<inter> base = {} \<and> (\<forall>sk \<in> set sks. sk_connected sk \<longrightarrow> isValid sk)"
  by (auto simp: pool_owns_def owns_def owned_def)

lemma pool_owns_step:
  assumes "pool_owns opened base (sk # sks) s" "\<And>base. owns opened base sk s \<Longrightarrow> owns opened base sk' s'"
  shows "pool_owns opened base (sk' # sks) s'"
  using assms by (simp add: pool_owns_Cons)

lemma pool_owns_at:
  assumes "pool_owns opened base (sks @ rest) s" "k < length sks" "\<And>base. owns opened base (sks ! k) s \<Longrightarrow> owns opened base sk' s'"
  shows "pool_owns opened base (sks[k := sk'] @ rest) s'"
proof -
  let ?others = "take k sks @ drop (Suc k) sks @ rest"
  have "mset (sks @ rest) = mset (sks ! k # ?others)"
    by (subst id_take_nth_drop [OF assms(2)]) simp
  then have "pool_owns opened base (sks ! k # ?others) s" using assms(1) pool_owns_mset by metis
  then have "pool_owns opened base (sk' # ?others) s'" by (rule pool_owns_step [OF _ assms(3)])
  moreover have "mset (sks[k := sk'] @ rest) = mset (sk' # ?others)"
    using assms(2) by (simp add: upd_conv_take_nth_drop)
  ultimately show ?thesis using pool_owns_mset by metis
qed

lemma owns_pool_append:
  assumes "pool_owns opened base xs s" "owns opened (opened s) c s'"
  shows "pool_owns opened base (xs @ [c]) s'"
proof -
  have "pool_owns opened base (c # xs) s'" using assms unfolding pool_owns_Cons by (simp add: pool_owns_def)
  moreover have "mset (xs @ [c]) = mset (c # xs)" by simp
  ultimately show ?thesis using pool_owns_mset by metis
qed

lemma pool_owns_opened: "pool_owns opened base sks s \<Longrightarrow> opened s' = opened s \<Longrightarrow> pool_owns opened base sks s'"
  by (simp add: pool_owns_def)

section \<open>The invariant of the server\<close>

text \<open>
  The sockets of the server and its clients own their descriptors, references name sockets of the store, and an open socket is
  referred to by the server, a task or a loop.
\<close>

definition srv_inv :: "('s \<Rightarrow> int set) \<Rightarrow> int set \<Rightarrow> 's tcp_server \<Rightarrow> bool" where
  "srv_inv opened base st \<longleftrightarrow>
     pool_owns opened base (ts_objs st @ ts_clients st) (ts_net st) \<and> (\<forall>k. held k st \<longrightarrow> k < length (ts_objs st)) \<and>
     (\<forall>k < length (ts_objs st). isValid (ts_objs st ! k) \<longrightarrow> held k st)"

text \<open>What the closing of objects leaves alone.\<close>

definition same_refs :: "'s tcp_server \<Rightarrow> 's tcp_server \<Rightarrow> bool" where
  "same_refs st st' \<longleftrightarrow>
     ts_isStop st' = ts_isStop st \<and> ts_sockets st' = ts_sockets st \<and> ts_jobs st' = ts_jobs st \<and> ts_loops st' = ts_loops st \<and>
     ts_accepts st' = ts_accepts st \<and> ts_clients st' = ts_clients st \<and> length (ts_objs st') = length (ts_objs st)"

lemma same_refs_held: "same_refs st st' \<Longrightarrow> held k st' = held k st" by (simp add: same_refs_def held_def)

lemma same_refs_trans: "same_refs a b \<Longrightarrow> same_refs b c \<Longrightarrow> same_refs a c" by (simp add: same_refs_def)

lemma update_invalid: "isValid (xs[k := sk] ! j) \<Longrightarrow> \<not> isValid sk \<Longrightarrow> j < length xs \<Longrightarrow> isValid (xs ! j) \<and> j \<noteq> k"
  by (cases "j = k") simp_all

lemma net_blind: "same_refs (st\<lparr>ts_net := s\<rparr>) st' = same_refs st st'" by (simp add: same_refs_def)

lemma close_obj_pool:
  assumes c: "net_contract net opened" "1 \<in> base" and p: "pool_owns opened base (ts_objs st @ ts_clients st) (ts_net st)" and k: "k < length (ts_objs st)"
  shows "pool_owns opened base (ts_objs (close_obj net k st) @ ts_clients (close_obj net k st)) (ts_net (close_obj net k st)) \<and>
    same_refs st (close_obj net k st) \<and> (\<exists>sk. ts_objs (close_obj net k st) = (ts_objs st)[k := sk] \<and> \<not> isValid sk)"
proof -
  obtain rt sk s where cl: "sk_close net (ts_objs st ! k) (ts_net st) = (rt, sk, s)" by (metis prod_cases3)
  have eq: "close_obj net k st = st\<lparr>ts_objs := (ts_objs st)[k := sk], ts_net := s\<rparr>" by (simp add: close_obj_def cl)
  have "sk_sock (ts_objs st ! k) \<noteq> 1"
  proof
    assume "sk_sock (ts_objs st ! k) = 1"
    moreover have "ts_objs st ! k \<in> set (ts_objs st @ ts_clients st)" using k by simp
    ultimately have "1 \<in> set (fds (ts_objs st @ ts_clients st))" by (force simp: fds_def)
    then show False using p c(2) by (auto simp: pool_owns_def)
  qed
  then have "\<not> isValid sk" using cl by (auto simp: sk_close_def isValid_def Let_def split: if_splits)
  moreover have "pool_owns opened base ((ts_objs st)[k := sk] @ ts_clients st) s"
    using owns_close [OF c(1) _ cl] by (intro pool_owns_at [OF p k]) blast
  ultimately show ?thesis by (auto simp: eq same_refs_def)
qed

lemma release_fold:
  assumes c: "net_contract net opened" "1 \<in> base"
  shows "pool_owns opened base (ts_objs st @ ts_clients st) (ts_net st) \<Longrightarrow> (\<forall>k \<in> set ks. k < length (ts_objs st)) \<Longrightarrow>
    st' = fold (release_obj net) ks st \<Longrightarrow>
    pool_owns opened base (ts_objs st' @ ts_clients st') (ts_net st') \<and> same_refs st st' \<and>
    (\<forall>j < length (ts_objs st). isValid (ts_objs st' ! j) \<longrightarrow> isValid (ts_objs st ! j) \<and> (j \<in> set ks \<longrightarrow> held j st)) \<and>
    (\<forall>j < length (ts_objs st). held j st \<or> j \<notin> set ks \<longrightarrow> ts_objs st' ! j = ts_objs st ! j)"
proof (induction ks arbitrary: st)
  case (Cons k ks)
  let ?st = "release_obj net k st"
  have 1: "pool_owns opened base (ts_objs ?st @ ts_clients ?st) (ts_net ?st) \<and> same_refs st ?st \<and>
      (if held k st then ?st = st else \<exists>sk. ts_objs ?st = (ts_objs st)[k := sk] \<and> \<not> isValid sk)"
  proof (cases "held k st")
    case True
    then show ?thesis using Cons.prems(1) by (simp add: release_obj_def same_refs_def)
  next
    case False
    have "k < length (ts_objs st)" using Cons.prems(2) by simp
    from close_obj_pool [OF c Cons.prems(1) this] show ?thesis using False by (simp only: release_obj_def if_False simp_thms)
  qed
  then have len: "length (ts_objs ?st) = length (ts_objs st)" by (simp add: same_refs_def)
  have h: "held j ?st = held j st" for j using 1 same_refs_held by blast
  have eqs: "st' = fold (release_obj net) ks ?st" using Cons.prems(3) by simp
  have bnd: "\<forall>k \<in> set ks. k < length (ts_objs ?st)" using Cons.prems(2) len by simp
  note IH = Cons.IH [OF conjunct1 [OF 1] bnd eqs]
  have 2: "pool_owns opened base (ts_objs st' @ ts_clients st') (ts_net st') \<and> same_refs ?st st' \<and>
      (\<forall>j < length (ts_objs st). isValid (ts_objs st' ! j) \<longrightarrow> isValid (ts_objs ?st ! j) \<and> (j \<in> set ks \<longrightarrow> held j st)) \<and>
      (\<forall>j < length (ts_objs st). held j st \<or> j \<notin> set ks \<longrightarrow> ts_objs st' ! j = ts_objs ?st ! j)"
    using IH [unfolded len h] by blast
  have 3: "isValid (ts_objs ?st ! j) \<longrightarrow> isValid (ts_objs st ! j) \<and> (j = k \<longrightarrow> held j st)" if "j < length (ts_objs st)" for j
    using 1 that by (cases "held k st") (auto dest: update_invalid)
  have 4: "ts_objs ?st ! j = ts_objs st ! j" if "j < length (ts_objs st)" "held j st \<or> j \<noteq> k" for j
  proof (cases "held k st")
    case True
    then show ?thesis using 1 by simp
  next
    case False
    then obtain sk where "ts_objs ?st = (ts_objs st)[k := sk]" using 1 by auto
    moreover have "j \<noteq> k" using False that(2) by blast
    ultimately show ?thesis by simp
  qed
  have s: "same_refs st st'" using 1 2 same_refs_trans by blast
  have 5: "isValid (ts_objs st ! j) \<and> (j \<in> set (k # ks) \<longrightarrow> held j st)" if "j < length (ts_objs st)" "isValid (ts_objs st' ! j)" for j
  proof -
    have "isValid (ts_objs ?st ! j) \<and> (j \<in> set ks \<longrightarrow> held j st)" using 2 that by blast
    with 3 [OF that(1)] show ?thesis by simp
  qed
  have 6: "ts_objs st' ! j = ts_objs st ! j" if "j < length (ts_objs st)" "held j st \<or> j \<notin> set (k # ks)" for j
  proof -
    have "ts_objs st' ! j = ts_objs ?st ! j" using 2 that by (metis list.set_intros(2))
    also have "\<dots> = ts_objs st ! j" using that by (intro 4) auto
    finally show ?thesis .
  qed
  show ?case using conjunct1 [OF 2] s 5 6 by blast
qed (simp add: same_refs_def)

lemma close_fold:
  assumes c: "net_contract net opened" "1 \<in> base" and can: "\<And>fd s. opened (cancel fd s) = opened s"
  shows "pool_owns opened base (ts_objs st @ ts_clients st) (ts_net st) \<Longrightarrow> (\<forall>k \<in> set ks. k < length (ts_objs st)) \<Longrightarrow>
    st' = fold (\<lambda>k st. close_obj net k (st\<lparr>ts_net := cancel (sk_sock (ts_objs st ! k)) (ts_net st)\<rparr>)) ks st \<Longrightarrow>
    pool_owns opened base (ts_objs st' @ ts_clients st') (ts_net st') \<and> same_refs st st' \<and>
    (\<forall>j < length (ts_objs st). isValid (ts_objs st' ! j) \<longrightarrow> isValid (ts_objs st ! j) \<and> j \<notin> set ks)"
proof (induction ks arbitrary: st)
  case (Cons k ks)
  let ?pre = "st\<lparr>ts_net := cancel (sk_sock (ts_objs st ! k)) (ts_net st)\<rparr>"
  let ?st = "close_obj net k ?pre"
  have 0: "pool_owns opened base (ts_objs ?pre @ ts_clients ?pre) (ts_net ?pre)"
    using pool_owns_opened [OF Cons.prems(1)] can by simp
  have 1: "pool_owns opened base (ts_objs ?st @ ts_clients ?st) (ts_net ?st) \<and> same_refs st ?st \<and>
      (\<exists>sk. ts_objs ?st = (ts_objs st)[k := sk] \<and> \<not> isValid sk)"
  proof -
    have "k < length (ts_objs ?pre)" using Cons.prems(2) by simp
    from close_obj_pool [OF c 0 this] show ?thesis by (simp only: net_blind) simp
  qed
  then have len: "length (ts_objs ?st) = length (ts_objs st)" by (simp add: same_refs_def)
  have eqs: "st' = fold (\<lambda>k st. close_obj net k (st\<lparr>ts_net := cancel (sk_sock (ts_objs st ! k)) (ts_net st)\<rparr>)) ks ?st" using Cons.prems(3) by simp
  have bnd: "\<forall>k \<in> set ks. k < length (ts_objs ?st)" using Cons.prems(2) len by simp
  note IH = Cons.IH [OF conjunct1 [OF 1] bnd eqs]
  have 2: "pool_owns opened base (ts_objs st' @ ts_clients st') (ts_net st') \<and> same_refs ?st st' \<and>
      (\<forall>j < length (ts_objs st). isValid (ts_objs st' ! j) \<longrightarrow> isValid (ts_objs ?st ! j) \<and> j \<notin> set ks)"
    using IH [unfolded len] by blast
  have 3: "isValid (ts_objs ?st ! j) \<longrightarrow> isValid (ts_objs st ! j) \<and> j \<noteq> k" if "j < length (ts_objs st)" for j
    using 1 that by (auto dest: update_invalid)
  have s: "same_refs st st'" using 1 2 same_refs_trans by blast
  have 4: "isValid (ts_objs st ! j) \<and> j \<notin> set (k # ks)" if "j < length (ts_objs st)" "isValid (ts_objs st' ! j)" for j
  proof -
    have "isValid (ts_objs ?st ! j) \<and> j \<notin> set ks" using 2 that by blast
    with 3 [OF that(1)] show ?thesis by simp
  qed
  show ?case using conjunct1 [OF 2] s 4 by blast
qed (simp add: same_refs_def)

lemma clear_sockets_inv:
  assumes c: "net_contract net opened" "1 \<in> base" and i: "srv_inv opened base st"
  shows "srv_inv opened base (clear_sockets net st) \<and> ts_sockets (clear_sockets net st) = [] \<and> ts_jobs (clear_sockets net st) = ts_jobs st \<and>
    ts_loops (clear_sockets net st) = ts_loops st \<and> ts_accepts (clear_sockets net st) = ts_accepts st \<and> ts_clients (clear_sockets net st) = ts_clients st \<and>
    ts_isStop (clear_sockets net st) = ts_isStop st \<and> length (ts_objs (clear_sockets net st)) = length (ts_objs st) \<and>
    (\<forall>j < length (ts_objs st). held j (clear_sockets net st) \<longrightarrow> ts_objs (clear_sockets net st) ! j = ts_objs st ! j)"
proof -
  let ?st = "st\<lparr>ts_sockets := []\<rparr>"
  have b: "\<forall>k \<in> set (ts_sockets st). k < length (ts_objs ?st)" using i by (simp add: srv_inv_def held_def)
  have p: "pool_owns opened base (ts_objs ?st @ ts_clients ?st) (ts_net ?st)" using i by (simp add: srv_inv_def)
  have c_eq: "fold (release_obj net) (ts_sockets st) ?st = clear_sockets net st" by (simp add: clear_sockets_def)
  have e: "ts_objs ?st = ts_objs st" by simp
  note r = release_fold [OF c p b refl, unfolded c_eq e]
  let ?c = "clear_sockets net st"
  have p: "pool_owns opened base (ts_objs ?c @ ts_clients ?c) (ts_net ?c)" and same: "same_refs ?st ?c" by (rule conjunct1 [OF r], rule conjunct1 [OF conjunct2 [OF r]])
  have v: "isValid (ts_objs ?c ! j) \<Longrightarrow> j < length (ts_objs st) \<Longrightarrow> isValid (ts_objs st ! j) \<and> (j \<in> set (ts_sockets st) \<longrightarrow> held j ?st)"
    and k: "j < length (ts_objs st) \<Longrightarrow> held j ?st \<Longrightarrow> ts_objs ?c ! j = ts_objs st ! j" for j
    using conjunct2 [OF conjunct2 [OF r]] by blast+
  have len: "length (ts_objs ?c) = length (ts_objs st)" using same by (simp add: same_refs_def)
  have h: "held j ?c = held j ?st" for j by (rule same_refs_held [OF same])
  have h2: "held j st = (j \<in> set (ts_sockets st) \<or> held j ?st)" for j by (auto simp: held_def)
  have b: "held j st \<Longrightarrow> j < length (ts_objs st)" and o: "j < length (ts_objs st) \<Longrightarrow> isValid (ts_objs st ! j) \<Longrightarrow> held j st" for j
    using i by (simp_all add: srv_inv_def)
  have "srv_inv opened base ?c" unfolding srv_inv_def len h using p b o v h2 by blast
  moreover have "ts_objs ?c ! j = ts_objs st ! j" if "j < length (ts_objs st)" "held j ?c" for j using k that h by blast
  ultimately show ?thesis using same len by (simp add: same_refs_def)
qed

lemma close_all_inv:
  assumes c: "net_contract net opened" "1 \<in> base" and can: "\<And>fd s. opened (cancel fd s) = opened s" and i: "srv_inv opened base st"
  shows "srv_inv opened base (close_all net cancel st) \<and> ts_sockets (close_all net cancel st) = [] \<and>
    ts_jobs (close_all net cancel st) = ts_jobs st \<and> ts_loops (close_all net cancel st) = ts_loops st \<and> ts_accepts (close_all net cancel st) = ts_accepts st \<and>
    ts_clients (close_all net cancel st) = ts_clients st \<and> ts_isStop (close_all net cancel st) = ts_isStop st \<and>
    (\<forall>k \<in> set (ts_sockets st). held k (close_all net cancel st) \<longrightarrow> \<not> isValid (ts_objs (close_all net cancel st) ! k))"
proof -
  let ?st = "fold (\<lambda>k st. close_obj net k (st\<lparr>ts_net := cancel (sk_sock (ts_objs st ! k)) (ts_net st)\<rparr>)) (ts_sockets st) st"
  have b: "\<forall>k \<in> set (ts_sockets st). k < length (ts_objs st)" using i by (simp add: srv_inv_def held_def)
  have p: "pool_owns opened base (ts_objs st @ ts_clients st) (ts_net st)" using i by (simp add: srv_inv_def)
  note r = close_fold [where cancel = cancel, OF c can p b refl]
  have same: "same_refs st ?st" and v: "\<And>j. j < length (ts_objs st) \<Longrightarrow> isValid (ts_objs ?st ! j) \<Longrightarrow> isValid (ts_objs st ! j) \<and> j \<notin> set (ts_sockets st)"
    using r by blast+
  have len: "length (ts_objs ?st) = length (ts_objs st)" using same by (simp add: same_refs_def)
  have "srv_inv opened base ?st"
    unfolding srv_inv_def len same_refs_held [OF same] using r i v by (auto simp: srv_inv_def)
  note c2 = clear_sockets_inv [OF c this]
  have eq: "close_all net cancel st = clear_sockets net ?st" by (simp add: close_all_def)
  have "\<not> isValid (ts_objs (clear_sockets net ?st) ! k)" if "k \<in> set (ts_sockets st)" "held k (clear_sockets net ?st)" for k
  proof -
    have k: "k < length (ts_objs st)" using b that(1) by blast
    then have "ts_objs (clear_sockets net ?st) ! k = ts_objs ?st ! k" using c2 that(2) len by simp
    then show ?thesis using v [OF k] that(1) by metis
  qed
  then show ?thesis unfolding eq using c2 same by (simp add: same_refs_def)
qed

lemma listen_valid: "sk_listen net b sk s = (True, s') \<Longrightarrow> isValid sk"
  by (simp add: sk_listen_def split: if_splits)

lemma pool_destroy_extra:
  assumes c: "net_contract net opened" "1 \<in> base" and p: "pool_owns opened base sks s" and o: "owns opened (opened s) sk s1"
  shows "pool_owns opened base sks (sk_destroy net sk s1)"
proof -
  obtain rt sk' s' where cl: "sk_close net sk s1 = (rt, sk', s')" by (metis prod_cases3)
  have "1 \<in> opened s" using p c(2) by (simp add: pool_owns_def)
  then have "sk_sock sk \<noteq> 1" using o by (auto simp: owns_def owned_def)
  then have "opened (sk_destroy net sk s1) = opened s" using owns_close [OF c(1) o cl] cl by (simp add: sk_destroy_def)
  then show ?thesis by (rule pool_owns_opened [OF p])
qed

lemma bind_loop_inv:
  assumes c: "net_contract net opened" "1 \<in> base"
  shows "srv_inv opened base st \<Longrightarrow> bind_loop net addrs fails st = (fails', st') \<Longrightarrow>
    srv_inv opened base st' \<and> ts_isStop st' = ts_isStop st \<and> ts_jobs st' = ts_jobs st \<and> ts_loops st' = ts_loops st \<and> ts_accepts st' = ts_accepts st \<and> ts_clients st' = ts_clients st \<and>
    (\<exists>news bad. ts_objs st' = ts_objs st @ news \<and> (\<forall>sk \<in> set news. isValid sk) \<and>
       ts_sockets st' = ts_sockets st @ [length (ts_objs st)..<length (ts_objs st) + length news] \<and>
       fails' = fails @ bad \<and> subseq bad addrs \<and> length addrs = length news + length bad)"
proof (induction addrs arbitrary: fails st)
  case Nil
  then show ?case by simp
next
  case (Cons a addrs)
  obtain ok sk s where b: "sk_bind net a (CreateTCP a) (ts_net st) = (ok, sk, s)" by (metis prod_cases3)
  have p: "pool_owns opened base (ts_objs st @ ts_clients st) (ts_net st)" using Cons.prems(1) by (simp add: srv_inv_def)
  have o: "owns opened (opened (ts_net st)) sk s" using owns_bind [OF c(1) _ b, of "opened (ts_net st)"] by (simp add: CreateTCP_def)
  obtain ok2 s2 where l: "sk_listen net 1000 sk s = (ok2, s2)" by fastforce
  have "opened s2 = opened s" using l net_contract_rules(7) [OF c(1)] by (auto simp: sk_listen_def Let_def case_prod_beta split: if_splits)
  then have o2: "owns opened (opened (ts_net st)) sk s2" using owns_fields [OF o] by simp
  have skip: ?case if f: "bind_loop net addrs (fails @ [a]) (st\<lparr>ts_net := sk_destroy net sk s'\<rparr>) = (fails', st')"
      and o': "owns opened (opened (ts_net st)) sk s'" for s'
  proof -
    let ?st = "st\<lparr>ts_net := sk_destroy net sk s'\<rparr>"
    have "srv_inv opened base ?st"
      using pool_destroy_extra [OF c p o'] Cons.prems(1) by (simp add: srv_inv_def held_def)
    from Cons.IH [OF this f] obtain news bad where
      h: "srv_inv opened base st'" "ts_isStop st' = ts_isStop st" "ts_jobs st' = ts_jobs st" "ts_loops st' = ts_loops st" "ts_accepts st' = ts_accepts st" "ts_clients st' = ts_clients st"
      "ts_objs st' = ts_objs st @ news" "\<forall>sk \<in> set news. isValid sk"
      "ts_sockets st' = ts_sockets st @ [length (ts_objs st)..<length (ts_objs st) + length news]"
      "fails' = fails @ a # bad" "subseq bad addrs" "length addrs = length news + length bad" by auto
    have "subseq (a # bad) (a # addrs)" using h(11) by simp
    then show ?thesis using h by (intro conjI exI [of _ news] exI [of _ "a # bad"]) simp_all
  qed
  show ?case
  proof (cases "ok \<and> ok2")
    case False
    then show ?thesis using Cons.prems(2) b l skip [OF _ o] skip [OF _ o2] by (auto split: if_splits)
  next
    case True
    let ?st = "st\<lparr>ts_sockets := ts_sockets st @ [length (ts_objs st)], ts_objs := ts_objs st @ [sk], ts_net := s2\<rparr>"
    have f: "bind_loop net addrs fails ?st = (fails', st')" using Cons.prems(2) b l True by simp
    have v: "isValid sk" using l True by (auto intro: listen_valid)
    have "pool_owns opened base ((ts_objs st @ ts_clients st) @ [sk]) s2" by (rule owns_pool_append [OF p o2])
    moreover have "mset ((ts_objs st @ ts_clients st) @ [sk]) = mset ((ts_objs st @ [sk]) @ ts_clients st)" by simp
    ultimately have p2: "pool_owns opened base ((ts_objs st @ [sk]) @ ts_clients st) s2" using pool_owns_mset by metis
    have "srv_inv opened base ?st"
      using p2 Cons.prems(1) by (auto simp: srv_inv_def held_def nth_append less_Suc_eq)
    from Cons.IH [OF this f] obtain news bad where
      h: "srv_inv opened base st'" "ts_isStop st' = ts_isStop st" "ts_jobs st' = ts_jobs st" "ts_loops st' = ts_loops st" "ts_accepts st' = ts_accepts st" "ts_clients st' = ts_clients st"
      "ts_objs st' = ts_objs st @ sk # news" "\<forall>sk \<in> set news. isValid sk"
      "ts_sockets st' = ts_sockets st @ length (ts_objs st) # [Suc (length (ts_objs st))..<Suc (length (ts_objs st)) + length news]"
      "fails' = fails @ bad" "subseq bad addrs" "length addrs = length news + length bad" by auto
    have "length (ts_objs st) # [Suc (length (ts_objs st))..<Suc (length (ts_objs st)) + length news] =
        [length (ts_objs st)..<length (ts_objs st) + length (sk # news)]" by (simp add: upt_conv_Cons del: upt_Suc)
    moreover have "subseq bad (a # addrs)" using h(11) by blast
    ultimately show ?thesis using h v by (intro conjI exI [of _ "sk # news"] exI [of _ bad]) simp_all
  qed
qed

lemma ts_bind_inv:
  assumes c: "net_contract net opened" "1 \<in> base" and i: "srv_inv opened base st" and b: "ts_bind net addrs fails st = (ok, fails', st')"
  shows "srv_inv opened base st' \<and> ts_isStop st' = ts_isStop st \<and> ts_jobs st' = ts_jobs st \<and> ts_loops st' = ts_loops st \<and> ts_accepts st' = ts_accepts st \<and>
    ts_clients st' = ts_clients st"
proof -
  obtain f1 st1 where 1: "bind_loop net addrs fails st = (f1, st1)" by fastforce
  note bl = bind_loop_inv [OF c i 1]
  show ?thesis
  proof (cases "f1 = []")
    case True
    then show ?thesis using b 1 bl by (simp add: ts_bind_def)
  next
    case False
    then have "st' = clear_sockets net st1" using b 1 by (simp add: ts_bind_def)
    then show ?thesis using clear_sockets_inv [OF c conjunct1 [OF bl]] bl by simp
  qed
qed

lemma accept_owns:
  assumes c: "net_contract net opened" and r: "accept_registers net"
  obtains (none) s' where "sk_accept net sk s = Inr (None, s')" "opened s' = opened s"
    | (client) c s' where "sk_accept net sk s = Inr (Some c, s')" "owns opened (opened s) c s'" "sk_connected c" "fst (n_accept net (sk_sock sk) s) = sk_sock c"
proof -
  let ?new = "new_Socket (sk_family sk) (sk_type sk) (sk_protocol sk)"
  obtain fd s1 where 1: "n_accept net (sk_sock sk) s = (fd, s1)" by fastforce
  have f: "fresh_fd opened s (fd, s1)" using net_contract_rules(2) [OF c] 1 by metis
  show thesis
  proof (cases "fd = - 1")
    case True
    then have "n_ctx net fd s1 = Inr None" using r 1 unfolding accept_registers_def by metis
    then have "sk_accept net sk s = Inr (None, sk_destroy net ?new s1)" by (simp add: sk_accept_def 1 sk_init_def)
    moreover have "sk_destroy net ?new s1 = s1" by (simp add: sk_destroy_def sk_close_def new_Socket_def Let_def)
    ultimately show thesis using f True none by (auto simp: fresh_fd_def)
  next
    case False
    then obtain cx where cx: "n_ctx net fd s1 = Inr (Some cx)" "fx_isSocket cx" "\<not> fx_isClosed cx"
      using r 1 unfolding accept_registers_def by metis
    let ?sk = "?new\<lparr>sk_sock := fd, sk_connected := True\<rparr>"
    let ?s = "initSockOpt net ?sk s1"
    let ?c = "snd (getRemoteAddress net (snd (getLocalAddress net ?sk ?s)) ?s)"
    have acc: "sk_accept net sk s = Inr (Some ?c, ?s)" by (simp add: sk_accept_def 1 sk_init_def cx Let_def)
    have "owns opened (opened s) ?sk s1" using f False by (auto simp: fresh_fd_def owns_def owned_def isValid_def)
    then have o: "owns opened (opened s) ?c ?s" by (rule owns_fields) (simp_all add: opened_initSockOpt [OF c])
    show thesis by (rule client [OF acc o]) (simp_all add: 1)
  qed
qed

text \<open>A round of the loop keeps the invariant and adds at most the client that was accepted.\<close>

lemma accept_round_inv:
  assumes c: "net_contract net opened" and r: "accept_registers net" and i: "srv_inv opened base st" and a: "accept_round net k st = Inr st'"
  shows "srv_inv opened base st' \<and> same_refs (st\<lparr>ts_clients := ts_clients st'\<rparr>) st' \<and> ts_objs st' = ts_objs st \<and> (\<exists>cs. ts_clients st' = ts_clients st @ cs \<and> length cs \<le> 1)"
proof (rule accept_owns [OF c r, of "ts_objs st ! k" "ts_net st"])
  fix s' assume 1: "sk_accept net (ts_objs st ! k) (ts_net st) = Inr (None, s')" "opened s' = opened (ts_net st)"
  then have "st' = st\<lparr>ts_net := s'\<rparr>" using a by (simp add: accept_round_def)
  then show ?thesis using i pool_owns_opened [where opened = opened and s = "ts_net st" and s' = s', OF _ 1(2)] by (simp add: srv_inv_def held_def same_refs_def)
next
  fix c s' assume 1: "sk_accept net (ts_objs st ! k) (ts_net st) = Inr (Some c, s')" "owns opened (opened (ts_net st)) c s'"
  then have st': "st' = st\<lparr>ts_clients := ts_clients st @ [c], ts_net := s'\<rparr>" using a by (simp add: accept_round_def)
  have "pool_owns opened base (ts_objs st @ ts_clients st) (ts_net st)" using i by (simp add: srv_inv_def)
  from owns_pool_append [OF this 1(2)] show ?thesis using i by (simp add: st' srv_inv_def held_def same_refs_def)
qed

lemma tcp_work_inv:
  assumes c: "net_contract net opened" "1 \<in> base" "accept_registers net" and can: "\<And>fd s. opened (cancel fd s) = opened s"
    and i: "srv_inv opened base st" and w: "tcp_work net cancel st st'"
  shows "srv_inv opened base st'"
  using w
proof cases
  case (begin_loop js1 k js2)
  then have "held j st' \<longleftrightarrow> held j st" for j by (auto simp: held_def)
  then show ?thesis using i begin_loop by (simp add: srv_inv_def)
next
  case (close_task js1 js2)
  let ?st = "st\<lparr>ts_jobs := js1 @ js2\<rparr>"
  have "held j ?st \<longleftrightarrow> held j st" for j using close_task by (auto simp: held_def)
  then have "srv_inv opened base ?st" using i by (simp add: srv_inv_def)
  then show ?thesis using close_all_inv [where cancel = cancel, OF c(1,2) can] close_task by simp
next
  case (enter_accept ls1 k ls2)
  then have "held j st' \<longleftrightarrow> held j st" for j by (auto simp: held_def)
  then show ?thesis using i enter_accept by (simp add: srv_inv_def)
next
  case (accept_one as1 k as2)
  let ?st = "st\<lparr>ts_accepts := as1 @ as2, ts_loops := ts_loops st @ [k]\<rparr>"
  have "held j ?st \<longleftrightarrow> held j st" for j using accept_one by (auto simp: held_def)
  then have "srv_inv opened base ?st" using i by (simp add: srv_inv_def)
  then show ?thesis using accept_round_inv [OF c(1,3)] accept_one by blast
next
  case (end_loop ls1 k ls2)
  let ?st = "st\<lparr>ts_loops := ls1 @ ls2\<rparr>"
  have h: "held j st = (held j ?st \<or> j = k)" for j using end_loop by (auto simp: held_def)
  have p: "pool_owns opened base (ts_objs ?st @ ts_clients ?st) (ts_net ?st)" and k: "\<forall>j \<in> set [k]. j < length (ts_objs ?st)"
    using i h by (simp_all add: srv_inv_def)
  have eq: "fold (release_obj net) [k] ?st = st'" using end_loop by simp
  note r = release_fold [OF c(1,2) p k refl, unfolded eq]
  have same: "same_refs ?st st'" using r by blast
  then have len: "length (ts_objs st') = length (ts_objs st)" by (simp add: same_refs_def)
  have v: "isValid (ts_objs st ! j) \<and> (j = k \<longrightarrow> held j ?st)" if "j < length (ts_objs st)" "isValid (ts_objs st' ! j)" for j
  proof -
    have e: "ts_objs ?st = ts_objs st" by simp
    from r [unfolded e] that show ?thesis by auto
  qed
  have "\<forall>j < length (ts_objs st). isValid (ts_objs st ! j) \<longrightarrow> held j st" "\<forall>j. held j st \<longrightarrow> j < length (ts_objs st)" using i by (simp_all add: srv_inv_def)
  then show ?thesis unfolding srv_inv_def len same_refs_held [OF same] using conjunct1 [OF r] v h by blast
qed

lemma ts_start_inv:
  assumes "srv_inv opened base st" "ts_start st = (ok, st')"
  shows "ok \<and> srv_inv opened base st' \<and> \<not> ts_isStop st' \<and> ts_sockets st' = ts_sockets st"
proof (cases "ts_isStop st")
  case True
  then have st': "ok" "st' = st\<lparr>ts_isStop := False, ts_jobs := ts_jobs st @ map StartAccept (ts_sockets st)\<rparr>"
    using assms(2) by (simp_all add: ts_start_def)
  have "held j st' \<longleftrightarrow> held j st" for j by (auto simp: st' held_def)
  then show ?thesis using assms(1) by (simp add: srv_inv_def st')
qed (use assms in \<open>simp add: ts_start_def\<close>)

lemma ts_stop_inv: "srv_inv opened base st \<Longrightarrow> srv_inv opened base (ts_stop st)"
  by (simp add: srv_inv_def ts_stop_def held_def)

lemma tcp_step_inv:
  assumes c: "net_contract net opened" "1 \<in> base" "accept_registers net" and can: "\<And>fd s. opened (cancel fd s) = opened s"
    and i: "srv_inv opened base st" and w: "tcp_step net cancel st st'"
  shows "srv_inv opened base st'"
  using w
proof cases
  case (call_bind addrs fails ok fails')
  then show ?thesis using ts_bind_inv [OF c(1,2) i] by blast
next
  case (call_start ok)
  then show ?thesis using ts_start_inv [OF i] by blast
next
  case call_stop
  then show ?thesis using ts_stop_inv [OF i] by simp
next
  case work
  then show ?thesis using tcp_work_inv [where cancel = cancel, OF c can i] by blast
qed

lemma tcp_reach_inv:
  assumes c: "net_contract net opened" "1 \<in> opened s" "accept_registers net" and can: "\<And>fd s. opened (cancel fd s) = opened s"
    and w: "(tcp_step net cancel)\<^sup>*\<^sup>* (new_TcpServer s) st"
  shows "srv_inv opened (opened s) st"
  using w
proof (induction rule: rtranclp_induct)
  case base
  then show ?case by (simp add: srv_inv_def pool_owns_def new_TcpServer_def held_def)
next
  case (step y z)
  then show ?case using tcp_step_inv [where cancel = cancel, OF c can] by blast
qed

section \<open>What the server promises\<close>

definition tcp_reach :: "'s net \<Rightarrow> (int \<Rightarrow> 's \<Rightarrow> 's) \<Rightarrow> 's \<Rightarrow> 's tcp_server \<Rightarrow> bool" where
  "tcp_reach net cancel s st \<longleftrightarrow> (tcp_step net cancel)\<^sup>*\<^sup>* (new_TcpServer s) st"

definition tcp_system :: "'s net \<Rightarrow> (int \<Rightarrow> 's \<Rightarrow> 's) \<Rightarrow> ('s \<Rightarrow> int set) \<Rightarrow> 's \<Rightarrow> bool" where
  "tcp_system net cancel opened s \<longleftrightarrow>
     net_contract net opened \<and> accept_registers net \<and> (\<forall>fd s. opened (cancel fd s) = opened s) \<and> 1 \<in> opened s"

lemma tcp_system_rules:
  assumes "tcp_system net cancel opened s"
  shows "net_contract net opened" "1 \<in> opened s" "accept_registers net" "\<And>fd s. opened (cancel fd s) = opened s"
  using assms by (simp_all add: tcp_system_def)

lemma reach_srv_inv:
  assumes "tcp_system net cancel opened s" "tcp_reach net cancel s st"
  shows "srv_inv opened (opened s) st"
  using tcp_reach_inv [where cancel = cancel, OF tcp_system_rules [OF assms(1)]] assms(2) by (simp add: tcp_reach_def)

lemma unheld_closed:
  assumes "srv_inv opened base st" "\<And>k. \<not> held k st"
  shows "opened (ts_net st) = base \<union> set (fds (ts_clients st)) \<and> set (fds (ts_clients st)) \<inter> base = {}"
proof -
  have "\<not> isValid (ts_objs st ! k)" if "k < length (ts_objs st)" for k using assms that by (auto simp: srv_inv_def)
  then have "fds (ts_objs st) = []" by (auto simp: fds_def isValid_def in_set_conv_nth filter_empty_conv)
  then show ?thesis using assms(1) by (auto simp: srv_inv_def pool_owns_def)
qed

text \<open>
  C5. The descriptors of a TCP server. Through every history of binding, starting, stopping, accepting and failing, in whatever order the tasks of
  the worker run, the sockets of the server and its clients have different descriptors, none of which was open before, and nothing else was
  opened. A socket that is open is still referred to by the server, a waiting task or a loop, so that a server without sockets, tasks and loops leaves only the clients open.
\<close>

theorem tcp_server_descriptors:
  assumes "tcp_system net cancel opened s" and "tcp_reach net cancel s st"
  shows "opened (ts_net st) = opened s \<union> set (fds (ts_objs st)) \<union> set (fds (ts_clients st)) \<and>
    distinct (fds (ts_objs st) @ fds (ts_clients st)) \<and> set (fds (ts_objs st) @ fds (ts_clients st)) \<inter> opened s = {} \<and>
    (\<forall>k. held k st \<longrightarrow> k < length (ts_objs st)) \<and> (\<forall>k < length (ts_objs st). isValid (ts_objs st ! k) \<longrightarrow> held k st) \<and>
    (ts_sockets st = [] \<and> ts_jobs st = [] \<and> ts_loops st = [] \<and> ts_accepts st = [] \<longrightarrow> opened (ts_net st) = opened s \<union> set (fds (ts_clients st)))"
proof -
  note i = reach_srv_inv [OF assms]
  have "opened (ts_net st) = opened s \<union> set (fds (ts_clients st))" if "ts_sockets st = []" "ts_jobs st = []" "ts_loops st = []" "ts_accepts st = []"
    using unheld_closed [OF i] that by (simp add: held_def)
  then show ?thesis using i by (simp add: srv_inv_def pool_owns_def Un_assoc)
qed


section \<open>Stopping\<close>

definition work_left :: "'s tcp_server \<Rightarrow> nat" where
  "work_left st = 2 * length (ts_jobs st) + 2 * length (ts_accepts st) + length (ts_loops st)"

lemma stopped_work:
  assumes c: "net_contract net opened" "1 \<in> base" "accept_registers net" and can: "\<And>fd s. opened (cancel fd s) = opened s"
    and i: "srv_inv opened base st" and s: "ts_isStop st" and w: "tcp_work net cancel st st'"
  shows "ts_isStop st' \<and> work_left st' < work_left st \<and>
    (\<exists>cs. ts_clients st' = ts_clients st @ cs \<and> length cs + length (ts_accepts st') \<le> length (ts_accepts st)) \<and>
    (CloseAll \<in> set (ts_jobs st) \<or> ts_sockets st = [] \<longrightarrow> CloseAll \<in> set (ts_jobs st') \<or> ts_sockets st' = [])"
  using w
proof cases
  case (begin_loop js1 k js2)
  then show ?thesis using s by (auto simp: work_left_def)
next
  case (close_task js1 js2)
  let ?st = "st\<lparr>ts_jobs := js1 @ js2\<rparr>"
  have "held j ?st \<longleftrightarrow> held j st" for j using close_task by (auto simp: held_def)
  then have "srv_inv opened base ?st" using i by (simp add: srv_inv_def)
  then show ?thesis using close_all_inv [where cancel = cancel, OF c(1,2) can] close_task s by (simp add: work_left_def)
next
  case (enter_accept ls1 k ls2)
  then show ?thesis using s by simp
next
  case (accept_one as1 k as2)
  let ?st = "st\<lparr>ts_accepts := as1 @ as2, ts_loops := ts_loops st @ [k]\<rparr>"
  have "held j ?st \<longleftrightarrow> held j st" for j using accept_one by (auto simp: held_def)
  then have "srv_inv opened base ?st" using i by (simp add: srv_inv_def)
  from accept_round_inv [OF c(1,3) this accept_one(2)] obtain cs where
    r: "same_refs (?st\<lparr>ts_clients := ts_clients st'\<rparr>) st'" "ts_clients st' = ts_clients st @ cs" "length cs \<le> 1" by (force simp del: One_nat_def)
  then show ?thesis using s accept_one(1) by (auto simp: same_refs_def work_left_def)
next
  case (end_loop ls1 k ls2)
  let ?st = "st\<lparr>ts_loops := ls1 @ ls2\<rparr>"
  have "held j ?st \<Longrightarrow> held j st" "held k st" for j using end_loop by (auto simp: held_def)
  then have p: "pool_owns opened base (ts_objs ?st @ ts_clients ?st) (ts_net ?st)" and k: "\<forall>j \<in> set [k]. j < length (ts_objs ?st)"
    using i by (simp_all add: srv_inv_def)
  have eq: "fold (release_obj net) [k] ?st = st'" using end_loop by simp
  have "same_refs ?st st'" using release_fold [OF c(1,2) p k refl, unfolded eq] by blast
  then show ?thesis using s end_loop by (simp add: same_refs_def work_left_def)
qed

lemma stopped_run:
  assumes c: "net_contract net opened" "1 \<in> base" "accept_registers net" and can: "\<And>fd s. opened (cancel fd s) = opened s"
    and "srv_inv opened base st" "ts_isStop st" "CloseAll \<in> set (ts_jobs st) \<or> ts_sockets st = []" "(tcp_work net cancel ^^ n) st st'"
  shows "srv_inv opened base st' \<and> ts_isStop st' \<and> n + work_left st' \<le> work_left st \<and>
    (\<exists>cs. ts_clients st' = ts_clients st @ cs \<and> length cs + length (ts_accepts st') \<le> length (ts_accepts st)) \<and>
    (CloseAll \<in> set (ts_jobs st') \<or> ts_sockets st' = [])"
  using assms(8)
proof (induction n arbitrary: st')
  case 0
  then show ?case using assms(5,6,7) by simp
next
  case (Suc n)
  then obtain st1 where 1: "(tcp_work net cancel ^^ n) st st1" "tcp_work net cancel st1 st'" by auto
  note IH = Suc.IH [OF 1(1)]
  have i: "srv_inv opened base st1" "ts_isStop st1" using IH by blast+
  have "srv_inv opened base st'" by (rule tcp_work_inv [where cancel = cancel, OF c can i(1) 1(2)])
  moreover obtain cs cs2 where "ts_clients st1 = ts_clients st @ cs" "length cs + length (ts_accepts st1) \<le> length (ts_accepts st)"
    "ts_clients st' = ts_clients st1 @ cs2" "length cs2 + length (ts_accepts st') \<le> length (ts_accepts st1)"
    using stopped_work [where cancel = cancel, OF c can i 1(2)] IH by blast
  then have "\<exists>cs. ts_clients st' = ts_clients st @ cs \<and> length cs + length (ts_accepts st') \<le> length (ts_accepts st)"
    by (intro exI [of _ "cs @ cs2"]) simp
  ultimately show ?case using stopped_work [where cancel = cancel, OF c can i 1(2)] IH by auto
qed

lemma stopped_progress:
  assumes "net_contract net opened" "accept_registers net" and "ts_isStop st" "ts_jobs st \<noteq> [] \<or> ts_loops st \<noteq> [] \<or> ts_accepts st \<noteq> []"
  shows "\<exists>st'. tcp_work net cancel st st'"
proof (cases "ts_jobs st")
  case Nil
  show ?thesis
  proof (cases "ts_loops st")
    case (Cons k ls)
    then have "ts_loops st = [] @ k # ls" by simp
    then show ?thesis using assms(3) end_loop by blast
  next
    case loops: Nil
    then obtain k as where 1: "ts_accepts st = [] @ k # as" using assms(4) Nil by (auto simp: neq_Nil_conv)
    have "\<exists>st'. accept_round net k (st\<lparr>ts_accepts := [] @ as, ts_loops := ts_loops st @ [k]\<rparr>) = Inr st'"
      by (rule accept_owns [OF assms(1,2), of "ts_objs st ! k" "ts_net st"]) (simp_all add: accept_round_def)
    then show ?thesis using accept_one [OF 1] by blast
  qed
next
  case (Cons j js)
  then have "ts_jobs st = [] @ j # js" by simp
  then show ?thesis using begin_loop close_task by (cases j) blast+
qed

text \<open>
  C6. Stopping comes to an end. After \<open>stop\<close>, and as long as nobody starts the server again, the worker has at most two steps left for each task
  that waits and for each call of \<open>accept\<close> and one for each other loop; it accepts at most one more client for each call that was under way, and when it has nothing left to do all sockets of the server are closed: the open
  descriptors are those from before and those of the clients.
\<close>

theorem tcp_stop_drains:
  assumes "tcp_system net cancel opened s" and "tcp_reach net cancel s st" and "(tcp_work net cancel ^^ n) (ts_stop st) st'"
  shows "n \<le> 2 * (length (ts_jobs st) + 1) + 2 * length (ts_accepts st) + length (ts_loops st) \<and>
    (\<exists>cs. ts_clients st' = ts_clients st @ cs \<and> length cs \<le> length (ts_accepts st)) \<and>
    ((\<nexists>st''. tcp_work net cancel st' st'') \<longrightarrow>
      ts_jobs st' = [] \<and> ts_loops st' = [] \<and> ts_accepts st' = [] \<and> ts_sockets st' = [] \<and>
      opened (ts_net st') = opened s \<union> set (fds (ts_clients st')))"
proof -
  note c = tcp_system_rules [OF assms(1)]
  have i: "srv_inv opened (opened s) (ts_stop st)" by (rule ts_stop_inv [OF reach_srv_inv [OF assms(1,2)]])
  have "ts_isStop (ts_stop st)" "CloseAll \<in> set (ts_jobs (ts_stop st)) \<or> ts_sockets (ts_stop st) = []" by (simp_all add: ts_stop_def)
  note r = stopped_run [where cancel = cancel, OF c i this assms(3)]
  have cl: "\<exists>cs. ts_clients st' = ts_clients st @ cs \<and> length cs \<le> length (ts_accepts st)" using r by (auto simp: ts_stop_def)
  have "ts_jobs st' = [] \<and> ts_loops st' = [] \<and> ts_accepts st' = [] \<and> ts_sockets st' = [] \<and>
      opened (ts_net st') = opened s \<union> set (fds (ts_clients st'))"
    if "\<nexists>st''. tcp_work net cancel st' st''"
  proof -
    have e: "ts_jobs st' = []" "ts_loops st' = []" "ts_accepts st' = []" using stopped_progress [OF c(1,3), of st'] that r by blast+
    then have "ts_sockets st' = []" using r by simp
    then show ?thesis using e unheld_closed [of opened "opened s" st'] r by (simp add: held_def)
  qed
  then show ?thesis using r cl by (auto simp: work_left_def ts_stop_def)
qed

section \<open>Stopping and starting again\<close>

text \<open>A server that runs although every socket it refers to is closed.\<close>

definition deaf :: "'s tcp_server \<Rightarrow> bool" where
  "deaf st \<longleftrightarrow> \<not> ts_isStop st \<and> ts_sockets st = [] \<and> (\<forall>k. held k st \<longrightarrow> k < length (ts_objs st) \<and> \<not> isValid (ts_objs st ! k))"

lemma deaf_work:
  assumes r: "accept_registers net" and n: "\<forall>s. fst (n_accept net (- 1) s) = - 1" and d: "deaf st" and w: "tcp_work net cancel st st'"
  shows "deaf st' \<and> ts_clients st' = ts_clients st"
  using w
proof cases
  case (begin_loop js1 k js2)
  then have "held j st' \<longleftrightarrow> held j st" for j by (auto simp: held_def)
  then show ?thesis using d begin_loop by (simp add: deaf_def)
next
  case (close_task js1 js2)
  have "ts_sockets st = []" using d by (simp add: deaf_def)
  then have "st' = st\<lparr>ts_jobs := js1 @ js2\<rparr>" using close_task by (simp add: close_all_def clear_sockets_def)
  moreover have "held j (st\<lparr>ts_jobs := js1 @ js2\<rparr>) \<longleftrightarrow> held j st" for j using close_task by (auto simp: held_def)
  ultimately show ?thesis using d by (simp add: deaf_def)
next
  case (enter_accept ls1 k ls2)
  then have "held j st' \<longleftrightarrow> held j st" for j by (auto simp: held_def)
  then show ?thesis using d enter_accept by (simp add: deaf_def)
next
  case (accept_one as1 k as2)
  let ?st = "st\<lparr>ts_accepts := as1 @ as2, ts_loops := ts_loops st @ [k]\<rparr>" and ?sk = "ts_objs st ! k"
  have h: "held j ?st \<longleftrightarrow> held j st" for j using accept_one by (auto simp: held_def)
  have "held k st" using accept_one by (simp add: held_def)
  then have sock: "sk_sock ?sk = - 1" using d by (simp add: deaf_def isValid_def)
  obtain s1 where 1: "n_accept net (- 1) (ts_net st) = (- 1, s1)" using n by (metis prod.collapse)
  then have "n_ctx net (- 1) s1 = Inr None" using r unfolding accept_registers_def by metis
  then have "sk_accept net ?sk (ts_net st) = Inr (None, sk_destroy net (new_Socket (sk_family ?sk) (sk_type ?sk) (sk_protocol ?sk)) s1)"
    using 1 by (simp add: sk_accept_def sock sk_init_def)
  then obtain s2 where "st' = ?st\<lparr>ts_net := s2\<rparr>" using accept_one(2) by (auto simp: accept_round_def)
  moreover have "held j (?st\<lparr>ts_net := s2\<rparr>) \<longleftrightarrow> held j st" for j using h by (simp add: held_def)
  ultimately show ?thesis using d by (simp add: deaf_def)
next
  case (end_loop ls1 k ls2)
  then show ?thesis using d by (simp add: deaf_def)
qed

text \<open>
  C9. A server that is stopped and started again too early accepts nobody. \<open>stop\<close> only schedules the closing of the sockets; when \<open>start\<close> comes
  before that task, the task closes the sockets of the loops that were just started. From then on the server counts as running, so that
  \<open>start\<close> does nothing, no step of the worker brings a client, and the loops call \<open>accept\<close> on closed sockets again and again.
\<close>

theorem tcp_stop_start_deaf:
  assumes "tcp_system net cancel opened s" and "\<forall>s. fst (n_accept net (- 1) s) = - 1" and "tcp_reach net cancel s st"
    and "\<not> ts_isStop st" and "\<forall>k. held k st \<longrightarrow> k \<in> set (ts_sockets st)"
  shows "\<exists>st'. tcp_work net cancel (snd (ts_start (ts_stop st))) st' \<and> \<not> ts_isStop st' \<and> ts_start st' = (True, st') \<and> ts_sockets st' = [] \<and>
    mset (ts_jobs st') = mset (ts_jobs st) + mset (map StartAccept (ts_sockets st)) \<and> ts_loops st' = ts_loops st \<and> ts_accepts st' = ts_accepts st \<and>
    (\<forall>st''. (tcp_work net cancel)\<^sup>*\<^sup>* st' st'' \<longrightarrow>
       ts_clients st'' = ts_clients st \<and> \<not> ts_isStop st'' \<and> (\<forall>k. held k st'' \<longrightarrow> \<not> isValid (ts_objs st'' ! k)))"
proof -
  note c = tcp_system_rules [OF assms(1)] and i = reach_srv_inv [OF assms(1,3)]
  let ?js = "ts_jobs st @ map StartAccept (ts_sockets st)"
  let ?s2 = "st\<lparr>ts_isStop := False, ts_jobs := ts_jobs st @ CloseAll # map StartAccept (ts_sockets st)\<rparr>"
  let ?s3 = "st\<lparr>ts_isStop := False, ts_jobs := ?js\<rparr>"
  have s2: "snd (ts_start (ts_stop st)) = ?s2" by (simp add: ts_start_def ts_stop_def)
  have h: "held k ?s3 \<longleftrightarrow> held k st" for k by (auto simp: held_def)
  have i3: "srv_inv opened (opened s) ?s3" using i by (simp add: srv_inv_def h)
  let ?st = "close_all net cancel ?s3"
  note ca = close_all_inv [where cancel = cancel, OF c(1,2,4) i3]
  have w: "tcp_work net cancel ?s2 ?st"
    using close_task [where st = ?s2 and ?js1.0 = "ts_jobs st" and ?js2.0 = "map StartAccept (ts_sockets st)"] by simp
  have "held k st" if "held k ?st" for k using that ca by (auto simp: held_def)
  then have inv: "k < length (ts_objs ?st) \<and> \<not> isValid (ts_objs ?st ! k)" if "held k ?st" for k
    using that ca assms(5) by (simp add: srv_inv_def)
  then have d: "deaf ?st" using ca by (simp add: deaf_def)
  have deaf: "deaf st'' \<and> ts_clients st'' = ts_clients st" if "(tcp_work net cancel)\<^sup>*\<^sup>* ?st st''" for st''
    using that
  proof (induction rule: rtranclp_induct)
    case base
    then show ?case using d ca by simp
  next
    case (step y z)
    then show ?case using deaf_work [OF c(3) assms(2)] by metis
  qed
  have "ts_start ?st = (True, ?st)" "\<not> ts_isStop ?st" "ts_sockets ?st = []" "ts_jobs ?st = ?js" "ts_loops ?st = ts_loops st" "ts_accepts ?st = ts_accepts st"
    using ca by (simp_all add: ts_start_def)
  moreover from deaf have "\<forall>st''. (tcp_work net cancel)\<^sup>*\<^sup>* ?st st'' \<longrightarrow>
       ts_clients st'' = ts_clients st \<and> \<not> ts_isStop st'' \<and> (\<forall>k. held k st'' \<longrightarrow> \<not> isValid (ts_objs st'' ! k))"
    by (simp add: deaf_def)
  ultimately show ?thesis unfolding s2 using w by (intro exI [of _ ?st]) simp
qed

text \<open>A system in which only an open descriptor accepts.\<close>

definition shut_net :: "int list net" where
  "shut_net = list_net\<lparr>
     n_accept := (\<lambda>fd s. if 0 \<le> fd \<and> fd \<in> set s then let fd = foldr max s 0 + 1 in (fd, fd # s) else (- 1, s)),
     n_ctx := (\<lambda>fd s. if 0 \<le> fd then n_ctx list_net fd s else Inr None)\<rparr>"

lemma shut_net_system: "tcp_system shut_net (\<lambda>_ s. s) set [0, 1]"
proof -
  have pos: "0 \<le> foldr max s (0 :: int)" for s by (induction s) auto
  have "fresh_fd set s (n_accept shut_net fd s)" for fd s
    using net_contract_rules(2) [OF list_net_contract, of s fd] by (auto simp: shut_net_def list_net_def fresh_fd_def Let_def)
  then have "net_contract shut_net set"
    using list_net_contract unfolding net_contract_def by (simp add: shut_net_def)
  moreover have "accept_registers shut_net"
    unfolding accept_registers_def
  proof (intro allI impI)
    fix fd s fd' s' assume a: "n_accept shut_net fd s = (fd', s')"
    show "if fd' = - 1 then n_ctx shut_net fd' s' = Inr None else \<exists>c. n_ctx shut_net fd' s' = Inr (Some c) \<and> fx_isSocket c \<and> \<not> fx_isClosed c"
    proof (cases "0 \<le> fd \<and> fd \<in> set s")
      case True
      then have "fd' = foldr max s 0 + 1" "s' = fd' # s" using a by (auto simp: shut_net_def Let_def)
      then show ?thesis using pos [of s] by (simp add: shut_net_def list_net_def)
    next
      case False
      then have "fd' = - 1" using a by (auto simp: shut_net_def)
      then show ?thesis by (simp add: shut_net_def)
    qed
  qed
  ultimately show ?thesis by (simp add: tcp_system_def)
qed

definition shut_addr :: address where "shut_addr = blank_address AF_INET"

definition shut_bound :: "int list tcp_server" where
  "shut_bound = snd (snd (ts_bind shut_net [shut_addr, shut_addr] [] (new_TcpServer [0, 1])))"

lemma shut_bound_reach: "tcp_reach shut_net (\<lambda>_ s. s) [0, 1] shut_bound" "tcp_reach shut_net (\<lambda>_ s. s) [0, 1] (snd (ts_start shut_bound))"
proof -
  obtain ok f st where 1: "ts_bind shut_net [shut_addr, shut_addr] [] (new_TcpServer [0, 1]) = (ok, f, st)" by (metis prod_cases3)
  then have "tcp_step shut_net (\<lambda>_ s. s) (new_TcpServer [0, 1]) shut_bound" by (auto simp: shut_bound_def intro: call_bind)
  then show r: "tcp_reach shut_net (\<lambda>_ s. s) [0, 1] shut_bound" by (auto simp: tcp_reach_def)
  have "tcp_step shut_net (\<lambda>_ s. s) shut_bound (snd (ts_start shut_bound))" by (rule call_start) (rule prod.collapse [symmetric])
  then show "tcp_reach shut_net (\<lambda>_ s. s) [0, 1] (snd (ts_start shut_bound))"
    using r by (auto simp: tcp_reach_def intro: rtranclp.rtrancl_into_rtrancl)
qed

theorem tcp_server_descriptors_witness:
  "set (ts_net (snd (ts_start shut_bound))) = {0, 1} \<union> set (fds (ts_objs (snd (ts_start shut_bound)))) \<union> set (fds (ts_clients (snd (ts_start shut_bound))))"
  using tcp_server_descriptors [OF shut_net_system shut_bound_reach(2)] by simp


theorem tcp_stop_drains_witness:
  "\<exists>cs. ts_clients (close_all shut_net (\<lambda>_ s. s) (shut_bound\<lparr>ts_isStop := True, ts_jobs := []\<rparr>)) = ts_clients shut_bound @ cs \<and> length cs \<le> 0"
proof -
  have e: "ts_jobs shut_bound = []" "ts_accepts shut_bound = []" by code_simp+
  then have "ts_jobs (ts_stop shut_bound) = [] @ CloseAll # []" by (simp add: ts_stop_def)
  from close_task [OF this] have "tcp_work shut_net (\<lambda>_ s. s) (ts_stop shut_bound)
      (close_all shut_net (\<lambda>_ s. s) (shut_bound\<lparr>ts_isStop := True, ts_jobs := []\<rparr>))" by (simp add: ts_stop_def)
  then have "(tcp_work shut_net (\<lambda>_ s. s) ^^ 1) (ts_stop shut_bound)
      (close_all shut_net (\<lambda>_ s. s) (shut_bound\<lparr>ts_isStop := True, ts_jobs := []\<rparr>))" by (simp only: relpowp_1)
  from tcp_stop_drains [OF shut_net_system shut_bound_reach(1) this] show ?thesis using e by simp
qed

theorem tcp_stop_start_deaf_witness:
  "\<exists>st'. tcp_work shut_net (\<lambda>_ s. s) (snd (ts_start (ts_stop (snd (ts_start shut_bound))))) st' \<and> ts_start st' = (True, st') \<and> ts_sockets st' = []"
proof -
  have n: "\<forall>s. fst (n_accept shut_net (- 1) s) = - 1" by (simp add: shut_net_def)
  have e: "ts_sockets (snd (ts_start shut_bound)) = [0, 1]" "ts_jobs (snd (ts_start shut_bound)) = [StartAccept 0, StartAccept 1]"
    "ts_loops (snd (ts_start shut_bound)) = []" "ts_accepts (snd (ts_start shut_bound)) = []" "\<not> ts_isStop (snd (ts_start shut_bound))"
    by code_simp+
  have h: "\<forall>k. held k (snd (ts_start shut_bound)) \<longrightarrow> k \<in> set (ts_sockets (snd (ts_start shut_bound)))" by (auto simp: held_def e)
  show ?thesis using tcp_stop_start_deaf [OF shut_net_system n shut_bound_reach(2) e(5) h] by blast
qed

end
