(* ===== verification/Fiber.thy ===== *)
theory Fiber imports Prelude begin

text \<open>
  Fibers (\<^verbatim>\<open>seaice/fiber.h\<close>, \<^verbatim>\<open>fiber.cpp\<close>): their states and the switches between a fiber and the
  main fiber of the thread that runs it. A fiber is an object at an address; the two thread-local
  pointers of the code are maps from threads. The contexts and the stacks themselves are the machine's:
  what a switch does to the state of the fibers happens before \<^verbatim>\<open>swapcontext\<close>, and that is what the operations
  below model; where control goes is modelled by the callers (theory \<open>Scheduler\<close>).
\<close>

section \<open>State\<close>

datatype fiber_state = INIT | READY | EXEC | HOLD | TERM' | EXECPT

text \<open>\<open>TERM'\<close> is \<^verbatim>\<open>TERM\<close>, which is a keyword here. What a fiber runs: a thread's own flow of control, the idle function or a callback of a client.\<close>

datatype 'cb fiber_code = Main | Idle | Cb 'cb

record 'cb fiber =
  f_id :: nat
  f_code :: "'cb fiber_code"
  f_stack :: bool
  f_state :: fiber_state

record 'cb fibers =
  fb_heap :: "nat \<Rightarrow> 'cb fiber option"
  fb_next :: nat
  fb_id :: nat
  fb_count :: nat
  fb_main :: "int \<Rightarrow> nat option"
  fb_cur :: "int \<Rightarrow> nat option"

definition no_fibers :: "'cb fibers" where
  "no_fibers = \<lparr>fb_heap = (\<lambda>_. None), fb_next = 0, fb_id = 0, fb_count = 0, fb_main = (\<lambda>_. None), fb_cur = (\<lambda>_. None)\<rparr>"

definition fb_state :: "'cb fibers \<Rightarrow> nat \<Rightarrow> fiber_state option" where
  "fb_state w a = map_option f_state (fb_heap w a)"

definition fb_code :: "'cb fibers \<Rightarrow> nat \<Rightarrow> 'cb fiber_code option" where
  "fb_code w a = map_option f_code (fb_heap w a)"

definition fb_set :: "nat \<Rightarrow> fiber_state \<Rightarrow> 'cb fibers \<Rightarrow> 'cb fibers" where
  "fb_set a s w = w\<lparr>fb_heap := (fb_heap w)(a := map_option (\<lambda>f. f\<lparr>f_state := s\<rparr>) (fb_heap w a))\<rparr>"

section \<open>Operations\<close>

text \<open>The two constructors: of a thread's main fiber, which has no stack of its own, and of any other.\<close>

definition new_main_Fiber :: "'cb fibers \<Rightarrow> nat \<times> 'cb fibers" where
  "new_main_Fiber w =
     (fb_next w,
      w\<lparr>fb_heap := (fb_heap w)(fb_next w \<mapsto> \<lparr>f_id = 0, f_code = Main, f_stack = False, f_state = EXEC\<rparr>),
        fb_next := Suc (fb_next w), fb_count := Suc (fb_count w)\<rparr>)"

definition new_Fiber :: "'cb fiber_code \<Rightarrow> 'cb fibers \<Rightarrow> nat \<times> 'cb fibers" where
  "new_Fiber cb w =
     (fb_next w,
      w\<lparr>fb_heap := (fb_heap w)(fb_next w \<mapsto> \<lparr>f_id = Suc (fb_id w), f_code = cb, f_stack = True, f_state = INIT\<rparr>),
        fb_next := Suc (fb_next w), fb_id := Suc (fb_id w), fb_count := Suc (fb_count w)\<rparr>)"

definition delete_Fiber :: "nat \<Rightarrow> 'cb fibers \<Rightarrow> fault + 'cb fibers" where
  "delete_Fiber a w =
     (case fb_heap w a of
        None \<Rightarrow> Inl OutOfBounds
      | Some f \<Rightarrow>
          if f_id f = 0 then Inr (w\<lparr>fb_heap := (fb_heap w)(a := None)\<rparr>)
          else if f_state f \<noteq> TERM' \<and> f_state f \<noteq> EXECPT \<and> f_state f \<noteq> INIT then Inl AssertFail
          else Inr (w\<lparr>fb_heap := (fb_heap w)(a := None)\<rparr>))"

definition setThis :: "int \<Rightarrow> nat \<Rightarrow> 'cb fibers \<Rightarrow> 'cb fibers" where
  "setThis t a w = w\<lparr>fb_cur := (fb_cur w)(t \<mapsto> a)\<rparr>"

definition getMainFiber :: "int \<Rightarrow> 'cb fibers \<Rightarrow> nat \<times> 'cb fibers" where
  "getMainFiber t w =
     (case fb_main w t of
        Some m \<Rightarrow> (m, w)
      | None \<Rightarrow> let (m, w) = new_main_Fiber w in (m, setThis t m (w\<lparr>fb_main := (fb_main w)(t \<mapsto> m)\<rparr>)))"

definition swapIn :: "int \<Rightarrow> nat \<Rightarrow> 'cb fibers \<Rightarrow> fault + 'cb fibers" where
  "swapIn t f w =
     (let (m, w) = getMainFiber t w in
      if fb_state w m \<noteq> Some EXEC then Inl AssertFail
      else if fb_state w f \<notin> {Some HOLD, Some INIT, Some READY} then Inl AssertFail
      else Inr (setThis t f (fb_set f EXEC (fb_set m HOLD w))))"

definition swapOut :: "int \<Rightarrow> 'cb fibers \<Rightarrow> fault + 'cb fibers" where
  "swapOut t w =
     (let (m, w) = getMainFiber t w in
      if fb_state w m \<noteq> Some HOLD then Inl AssertFail
      else Inr (setThis t m (fb_set m EXEC w)))"

definition reset_Fiber :: "nat \<Rightarrow> 'cb fiber_code \<Rightarrow> 'cb fibers \<Rightarrow> fault + 'cb fibers" where
  "reset_Fiber a cb w =
     (case fb_heap w a of
        None \<Rightarrow> Inl NullDeref
      | Some f \<Rightarrow>
          if \<not> f_stack f then Inl AssertFail
          else if f_state f \<noteq> TERM' \<and> f_state f \<noteq> EXECPT \<and> f_state f \<noteq> INIT then Inl AssertFail
          else Inr (w\<lparr>fb_heap := (fb_heap w)(a \<mapsto> f\<lparr>f_code := cb, f_state := INIT\<rparr>)\<rparr>))"

text \<open>
  The two yields write the state of the current fiber first and switch afterwards; the scheduler
  of another thread can run in between.
\<close>

definition yield_mark :: "fiber_state \<Rightarrow> int \<Rightarrow> 'cb fibers \<Rightarrow> fault + 'cb fibers" where
  "yield_mark st t w = (case fb_cur w t of None \<Rightarrow> Inl NullDeref | Some a \<Rightarrow> Inr (fb_set a st w))"

definition yieldToHold :: "int \<Rightarrow> 'cb fibers \<Rightarrow> fault + 'cb fibers" where
  "yieldToHold t w = rbind (yield_mark HOLD t w) (swapOut t)"

definition yieldToReady :: "int \<Rightarrow> 'cb fibers \<Rightarrow> fault + 'cb fibers" where
  "yieldToReady t w = rbind (yield_mark READY t w) (swapOut t)"

text \<open>
  \<^verbatim>\<open>Fiber::run\<close> before the callback, on the thread that entered the fiber, and after it, on the thread that has
  it then; \<open>result\<close> is \<open>TERM'\<close> when the callback returned and \<open>EXECPT\<close> when it threw.
\<close>

definition run_begin :: "int \<Rightarrow> 'cb fibers \<Rightarrow> fault + nat \<times> 'cb fibers" where
  "run_begin t w =
     (let cur = fb_cur w t; (m, w) = getMainFiber t w in
      if cur = Some m then Inl AssertFail
      else case cur of
        None \<Rightarrow> Inl NullDeref
      | Some a \<Rightarrow> if fb_state w a \<noteq> Some EXEC then Inl AssertFail else Inr (a, w))"

definition run_end :: "int \<Rightarrow> nat \<Rightarrow> fiber_state \<Rightarrow> 'cb fibers \<Rightarrow> 'cb fibers" where
  "run_end t a result w =
     (let w = fb_set a result w; (m, w) = getMainFiber t w in setThis t m (fb_set m EXEC w))"

definition toStateString :: "fiber_state \<Rightarrow> string" where
  "toStateString st =
     (case st of INIT \<Rightarrow> ''INIT'' | READY \<Rightarrow> ''READY'' | EXEC \<Rightarrow> ''EXEC'' | HOLD \<Rightarrow> ''HOLD'' | TERM' \<Rightarrow> ''TERM'' | EXECPT \<Rightarrow> ''EXECPT'')"

section \<open>Lemmas\<close>

lemma fb_set_simps [simp]:
  "fb_state (fb_set a s w) b = (if b = a \<and> fb_state w a \<noteq> None then Some s else fb_state w b)"
  "fb_code (fb_set a s w) b = fb_code w b"
  "fb_main (fb_set a s w) = fb_main w" "fb_cur (fb_set a s w) = fb_cur w" "fb_next (fb_set a s w) = fb_next w"
  by (auto simp: fb_set_def fb_state_def fb_code_def option.map_comp comp_def)

lemma setThis_simps [simp]:
  "fb_heap (setThis t a w) = fb_heap w" "fb_state (setThis t a w) = fb_state w" "fb_code (setThis t a w) = fb_code w"
  "fb_main (setThis t a w) = fb_main w" "fb_cur (setThis t a w) = (fb_cur w)(t \<mapsto> a)" "fb_next (setThis t a w) = fb_next w"
  by (simp_all add: setThis_def fb_state_def fb_code_def fun_eq_iff)

lemma getMainFiber_known: "fb_main w t = Some m \<Longrightarrow> getMainFiber t w = (m, w)"
  by (simp add: getMainFiber_def)

lemma fb_state_code: "fb_state w a = None \<longleftrightarrow> fb_code w a = None"
  by (simp add: fb_state_def fb_code_def)

text \<open>A switch to a fiber and back leaves everything as it was but for what the fiber itself wrote.\<close>

lemma swapIn_known:
  assumes "fb_main w t = Some m"
  shows "swapIn t f w =
    (if fb_state w m = Some EXEC \<and> fb_state w f \<in> {Some HOLD, Some INIT, Some READY}
     then Inr (setThis t f (fb_set f EXEC (fb_set m HOLD w))) else Inl AssertFail)"
  using assms by (auto simp: swapIn_def getMainFiber_known)

lemma swapOut_known:
  assumes "fb_main w t = Some m"
  shows "swapOut t w = (if fb_state w m = Some HOLD then Inr (setThis t m (fb_set m EXEC w)) else Inl AssertFail)"
  using assms by (simp add: swapOut_def getMainFiber_known)

lemma run_end_known:
  assumes "fb_main w t = Some m"
  shows "run_end t a r w = setThis t m (fb_set m EXEC (fb_set a r w))"
  using assms by (simp add: run_end_def getMainFiber_known)

lemma yieldToHold_main:
  assumes "fb_main w t = Some m" and "fb_cur w t = Some m" and "fb_state w m = Some EXEC"
  shows "\<exists>w'. yieldToHold t w = Inr w' \<and> fb_state w' = fb_state w \<and> fb_cur w' = fb_cur w"
  using assms by (auto simp: yieldToHold_def yield_mark_def swapOut_known fun_eq_iff)

end
