(* ===== verification/Scheduler.thy ===== *)
theory Scheduler imports Fiber begin

text \<open>
  The scheduler of fibers (\<^verbatim>\<open>seaice/scheduler.h\<close>, \<^verbatim>\<open>scheduler.cpp\<close>): a queue of tasks and the loop
  that every worker thread runs over it, as a machine whose actions are the stretches of code between the points where
  another thread can come in: the lock around the queue, the entry into a fiber, the two halves
  of a yield. A client fiber may schedule, yield, return or throw at any time. The
  virtual functions, which the I/O manager overrides, are a parameter.
\<close>

section \<open>State\<close>

record 'cb task =
  tk_fiber :: "nat option"
  tk_cb :: "'cb option"
  tk_thread :: int

text \<open>
  Where a worker is in \<^verbatim>\<open>mainFun\<close>: at the head of the loop; past the lock with the task it took and \<^verbatim>\<open>need_tick\<close>; in the
  fiber of a task (\<open>True\<close> for the worker's callback fiber), running it or between the halves of its yield; back from it;
  in the idle fiber; at the end.
\<close>

datatype 'cb phase =
    Top
  | Picked "'cb task option" bool
  | Running nat bool bool
  | Leaving nat bool bool
  | After bool bool
  | InIdle
  | Finished

record 'cb worker =
  wk_phase :: "'cb phase"
  wk_cb_fiber :: "nat option"
  wk_idle :: nat

record 'cb sched =
  sc_fibers :: "'cb fibers"
  sc_queue :: "'cb task list"
  sc_stop :: bool
  sc_ticks :: nat
  sc_workers :: "int \<Rightarrow> 'cb worker option"

definition new_Scheduler :: "'cb sched" where
  "new_Scheduler = \<lparr>sc_fibers = no_fibers, sc_queue = [], sc_stop = False, sc_ticks = 0, sc_workers = (\<lambda>_. None)\<rparr>"

text \<open>The virtual \<^verbatim>\<open>isStoping\<close> and the state with which the idle function yields.\<close>

record 'cb virt =
  vt_isStoping :: "'cb sched \<Rightarrow> bool"
  vt_idle_yield :: fiber_state

definition isStoping :: "'cb sched \<Rightarrow> bool" where
  "isStoping s \<longleftrightarrow> sc_stop s \<and> sc_queue s = []"

definition scheduler_virt :: "'cb virt" where
  "scheduler_virt = \<lparr>vt_isStoping = isStoping, vt_idle_yield = HOLD\<rparr>"

section \<open>Operations\<close>

text \<open>The answer of \<^verbatim>\<open>schedule\<close> is whether the queue was empty, which means that a tick is needed.\<close>

definition schedule :: "'cb task \<Rightarrow> 'cb sched \<Rightarrow> bool \<times> 'cb sched" where
  "schedule tk s = (sc_queue s = [], s\<lparr>sc_queue := sc_queue s @ [tk]\<rparr>)"

definition sched_stop :: "'cb sched \<Rightarrow> 'cb sched" where
  "sched_stop s = s\<lparr>sc_stop := True\<rparr>"

definition set_worker :: "int \<Rightarrow> 'cb worker \<Rightarrow> 'cb sched \<Rightarrow> 'cb sched" where
  "set_worker t wk s = s\<lparr>sc_workers := (sc_workers s)(t \<mapsto> wk)\<rparr>"

text \<open>\<^verbatim>\<open>mainFun\<close> up to its loop.\<close>

definition worker_start :: "int \<Rightarrow> 'cb sched \<Rightarrow> 'cb sched" where
  "worker_start t s =
     (let (m, w) = getMainFiber t (sc_fibers s); (idle, w) = new_Fiber Idle w in
      set_worker t \<lparr>wk_phase = Top, wk_cb_fiber = None, wk_idle = idle\<rparr> (s\<lparr>sc_fibers := w\<rparr>))"

text \<open>The search of the queue: the first task for this thread whose fiber is not running.\<close>

fun pick_task :: "int \<Rightarrow> 'cb fibers \<Rightarrow> 'cb task list \<Rightarrow> fault + 'cb task option \<times> 'cb task list" where
  "pick_task t w [] = Inr (None, [])"
| "pick_task t w (it # q) =
     (if (tk_thread it \<noteq> - 1 \<and> tk_thread it \<noteq> t) then rbind (pick_task t w q) (\<lambda>(r, q). Inr (r, it # q))
      else if tk_fiber it = None \<and> tk_cb it = None then Inl AssertFail
      else if (case tk_fiber it of None \<Rightarrow> False | Some f \<Rightarrow> fb_state w f = Some EXEC)
        then rbind (pick_task t w q) (\<lambda>(r, q). Inr (r, it # q))
      else Inr (Some it, q))"

definition worker_pick :: "int \<Rightarrow> 'cb worker \<Rightarrow> 'cb sched \<Rightarrow> fault + 'cb sched" where
  "worker_pick t wk s =
     rbind (pick_task t (sc_fibers s) (sc_queue s)) (\<lambda>(ft, q).
       Inr (set_worker t (wk\<lparr>wk_phase := Picked ft (q \<noteq> [])\<rparr>) (s\<lparr>sc_queue := q\<rparr>)))"

text \<open>A switch into a fiber; the first one enters \<^verbatim>\<open>Fiber::run\<close>.\<close>

definition enter_fiber :: "int \<Rightarrow> nat \<Rightarrow> 'cb fibers \<Rightarrow> fault + 'cb fibers" where
  "enter_fiber t f w =
     rbind (swapIn t f w) (\<lambda>w'.
       if fb_state w f = Some INIT then rbind (run_begin t w') (\<lambda>(_, w'). Inr w') else Inr w')"

text \<open>The entry into what was picked; the assertions come before the test that would have avoided them.\<close>

definition worker_enter :: "int \<Rightarrow> 'cb worker \<Rightarrow> 'cb task option \<Rightarrow> bool \<Rightarrow> 'cb sched \<Rightarrow> fault + 'cb sched" where
  "worker_enter t wk ft need_tick s =
     (let w = sc_fibers s; fiber = Option.bind ft tk_fiber; cb = Option.bind ft tk_cb in
      case fiber of
        Some f \<Rightarrow>
          if fb_state w f = Some EXECPT then Inl AssertFail
          else if fb_state w f = Some EXEC then Inl AssertFail
          else if fb_state w f \<noteq> Some TERM' then
            rbind (enter_fiber t f w) (\<lambda>w. Inr (set_worker t (wk\<lparr>wk_phase := Running f False need_tick\<rparr>) (s\<lparr>sc_fibers := w\<rparr>)))
          else Inr (set_worker t (wk\<lparr>wk_phase := After False need_tick\<rparr>) s)
      | None \<Rightarrow>
          (case cb of
             Some cb \<Rightarrow>
               rbind (case wk_cb_fiber wk of
                        Some c \<Rightarrow> rbind (reset_Fiber c (Cb cb) w) (\<lambda>w. Inr (c, w))
                      | None \<Rightarrow> Inr (new_Fiber (Cb cb) w)) (\<lambda>(c, w).
                 if fb_state w c \<in> {Some TERM', Some EXECPT, Some EXEC} then Inl AssertFail
                 else rbind (enter_fiber t c w) (\<lambda>w.
                   Inr (set_worker t (wk\<lparr>wk_phase := Running c True need_tick, wk_cb_fiber := Some c\<rparr>) (s\<lparr>sc_fibers := w\<rparr>))))
           | None \<Rightarrow> Inr (set_worker t (wk\<lparr>wk_phase := After False need_tick\<rparr>) s)))"

text \<open>A yield of the running fiber in two halves, and its end.\<close>

definition worker_mark :: "int \<Rightarrow> fiber_state \<Rightarrow> 'cb worker \<Rightarrow> nat \<Rightarrow> bool \<Rightarrow> bool \<Rightarrow> 'cb sched \<Rightarrow> fault + 'cb sched" where
  "worker_mark t st wk f is_cb need_tick s =
     rbind (yield_mark st t (sc_fibers s)) (\<lambda>w.
       Inr (set_worker t (wk\<lparr>wk_phase := Leaving f is_cb need_tick\<rparr>) (s\<lparr>sc_fibers := w\<rparr>)))"

definition worker_leave :: "int \<Rightarrow> 'cb worker \<Rightarrow> bool \<Rightarrow> bool \<Rightarrow> 'cb sched \<Rightarrow> fault + 'cb sched" where
  "worker_leave t wk is_cb need_tick s =
     rbind (swapOut t (sc_fibers s)) (\<lambda>w.
       Inr (set_worker t (wk\<lparr>wk_phase := After is_cb need_tick\<rparr>) (s\<lparr>sc_fibers := w\<rparr>)))"

definition worker_end :: "int \<Rightarrow> fiber_state \<Rightarrow> 'cb worker \<Rightarrow> nat \<Rightarrow> bool \<Rightarrow> bool \<Rightarrow> 'cb sched \<Rightarrow> 'cb sched" where
  "worker_end t result wk f is_cb need_tick s =
     set_worker t (wk\<lparr>wk_phase := After is_cb need_tick\<rparr>) (s\<lparr>sc_fibers := run_end t f result (sc_fibers s)\<rparr>)"

text \<open>Back in the loop: the callback fiber is kept only when it has ended; then a tick, or the idle fiber.\<close>

definition worker_after :: "int \<Rightarrow> 'cb worker \<Rightarrow> bool \<Rightarrow> bool \<Rightarrow> 'cb sched \<Rightarrow> fault + 'cb sched" where
  "worker_after t wk is_cb need_tick s =
     (let w = sc_fibers s;
          wk = (if is_cb \<and> (case wk_cb_fiber wk of None \<Rightarrow> False | Some c \<Rightarrow> fb_state w c \<noteq> Some TERM')
                then wk\<lparr>wk_cb_fiber := None\<rparr> else wk)
      in if need_tick then Inr (set_worker t (wk\<lparr>wk_phase := Top\<rparr>) (s\<lparr>sc_ticks := Suc (sc_ticks s)\<rparr>))
         else rbind (enter_fiber t (wk_idle wk) w) (\<lambda>w. Inr (set_worker t (wk\<lparr>wk_phase := InIdle\<rparr>) (s\<lparr>sc_fibers := w\<rparr>))))"

text \<open>A round of the idle function: its end ends the loop.\<close>

definition worker_idle :: "'cb virt \<Rightarrow> int \<Rightarrow> 'cb worker \<Rightarrow> 'cb sched \<Rightarrow> fault + 'cb sched" where
  "worker_idle vt t wk s =
     (if vt_isStoping vt s then
        Inr (set_worker t (wk\<lparr>wk_phase := Finished\<rparr>) (s\<lparr>sc_fibers := run_end t (wk_idle wk) TERM' (sc_fibers s)\<rparr>))
      else
        rbind (yield_mark (vt_idle_yield vt) t (sc_fibers s)) (\<lambda>w.
          rbind (swapOut t w) (\<lambda>w. Inr (set_worker t (wk\<lparr>wk_phase := Top\<rparr>) (s\<lparr>sc_fibers := w\<rparr>)))))"

section \<open>The machine\<close>

text \<open>
  The actions on a thread: the worker's own; those of the fiber that runs on it; and, on any thread, the
  creation of a fiber, \<^verbatim>\<open>schedule\<close> and \<^verbatim>\<open>stop\<close>. Clients schedule callbacks and fibers of their own, that is neither a
  main nor an idle fiber, which they never get hold of. \<open>None\<close>: the thread is not at that place.
\<close>

datatype 'cb act =
    AStart
  | APick
  | AEnter
  | AMark fiber_state
  | ALeave
  | AEnd fiber_state
  | AAfter
  | AIdle
  | ANew 'cb
  | ASchedule "'cb task"
  | AStop

definition client_fiber :: "'cb fibers \<Rightarrow> nat \<Rightarrow> bool" where
  "client_fiber w f \<longleftrightarrow> (case fb_code w f of Some (Cb cb) \<Rightarrow> True | _ \<Rightarrow> False)"

definition client_task :: "'cb fibers \<Rightarrow> 'cb task \<Rightarrow> bool" where
  "client_task w tk \<longleftrightarrow>
     (case tk_fiber tk of Some f \<Rightarrow> client_fiber w f \<and> tk_cb tk = None | None \<Rightarrow> tk_cb tk \<noteq> None)"

definition worker_act :: "'cb virt \<Rightarrow> int \<Rightarrow> 'cb act \<Rightarrow> 'cb worker \<Rightarrow> 'cb sched \<Rightarrow> (fault + 'cb sched) option" where
  "worker_act vt t a wk s =
     (case (a, wk_phase wk) of
        (APick, Top) \<Rightarrow> Some (worker_pick t wk s)
      | (AEnter, Picked ft need_tick) \<Rightarrow> Some (worker_enter t wk ft need_tick s)
      | (AMark st, Running f is_cb need_tick) \<Rightarrow>
          if st = HOLD \<or> st = READY then Some (worker_mark t st wk f is_cb need_tick s) else None
      | (ALeave, Leaving f is_cb need_tick) \<Rightarrow> Some (worker_leave t wk is_cb need_tick s)
      | (AEnd r, Running f is_cb need_tick) \<Rightarrow>
          if r = TERM' \<or> r = EXECPT then Some (Inr (worker_end t r wk f is_cb need_tick s)) else None
      | (AAfter, After is_cb need_tick) \<Rightarrow> Some (worker_after t wk is_cb need_tick s)
      | (AIdle, InIdle) \<Rightarrow> Some (worker_idle vt t wk s)
      | _ \<Rightarrow> None)"

definition sched_act :: "'cb virt \<Rightarrow> int \<Rightarrow> 'cb act \<Rightarrow> 'cb sched \<Rightarrow> (fault + 'cb sched) option" where
  "sched_act vt t a s =
     (case a of
        AStart \<Rightarrow> if sc_workers s t = None then Some (Inr (worker_start t s)) else None
      | ANew cb \<Rightarrow> Some (Inr (s\<lparr>sc_fibers := snd (new_Fiber (Cb cb) (sc_fibers s))\<rparr>))
      | ASchedule tk \<Rightarrow> if client_task (sc_fibers s) tk then Some (Inr (snd (schedule tk s))) else None
      | AStop \<Rightarrow> Some (Inr (sched_stop s))
      | _ \<Rightarrow> (case sc_workers s t of None \<Rightarrow> None | Some wk \<Rightarrow> worker_act vt t a wk s))"

fun sched_exec :: "'cb virt \<Rightarrow> (int \<times> 'cb act) list \<Rightarrow> 'cb sched \<Rightarrow> (fault + 'cb sched) option" where
  "sched_exec vt [] s = Some (Inr s)"
| "sched_exec vt ((t, a) # as) s =
     (case sched_act vt t a s of
        Some (Inr s') \<Rightarrow> sched_exec vt as s'
      | r \<Rightarrow> r)"

text \<open>The states that the workers \<open>Ts\<close> can reach.\<close>

inductive sched_reach :: "'cb virt \<Rightarrow> int set \<Rightarrow> 'cb sched \<Rightarrow> bool" for vt Ts where
  start: "sched_reach vt Ts new_Scheduler"
| step: "sched_reach vt Ts s \<Longrightarrow> t \<in> Ts \<Longrightarrow> sched_act vt t a s = Some (Inr s') \<Longrightarrow> sched_reach vt Ts s'"

section \<open>One worker: the invariant\<close>

text \<open>The fiber in state \<open>EXEC\<close>, and the one whose stack the thread is on.\<close>

fun active :: "nat \<Rightarrow> nat \<Rightarrow> 'cb phase \<Rightarrow> nat option" where
  "active m idle (Running f is_cb nt) = Some f"
| "active m idle (Leaving f is_cb nt) = None"
| "active m idle InIdle = Some idle"
| "active m idle ph = Some m"

fun on_stack :: "nat \<Rightarrow> nat \<Rightarrow> 'cb phase \<Rightarrow> nat" where
  "on_stack m idle (Running f is_cb nt) = f"
| "on_stack m idle (Leaving f is_cb nt) = f"
| "on_stack m idle InIdle = idle"
| "on_stack m idle ph = m"

fun phase_ok :: "'cb fibers \<Rightarrow> nat option \<Rightarrow> 'cb phase \<Rightarrow> bool" where
  "phase_ok w c (Picked (Some tk) nt) \<longleftrightarrow> client_task w tk \<and> (\<forall>a. c = Some a \<longrightarrow> fb_state w a = Some TERM')"
| "phase_ok w c (Running f is_cb nt) \<longleftrightarrow>
     client_fiber w f \<and> (if is_cb then c = Some f else \<forall>a. c = Some a \<longrightarrow> fb_state w a = Some TERM')"
| "phase_ok w c (Leaving f is_cb nt) \<longleftrightarrow>
     client_fiber w f \<and> (if is_cb then c = Some f else \<forall>a. c = Some a \<longrightarrow> fb_state w a = Some TERM')"
| "phase_ok w c (After is_cb nt) \<longleftrightarrow> is_cb \<or> (\<forall>a. c = Some a \<longrightarrow> fb_state w a = Some TERM')"
| "phase_ok w c ph \<longleftrightarrow> (\<forall>a. c = Some a \<longrightarrow> fb_state w a = Some TERM')"

definition worker_ok :: "int \<Rightarrow> 'cb fibers \<Rightarrow> 'cb worker \<Rightarrow> nat \<Rightarrow> bool" where
  "worker_ok t w wk m \<longleftrightarrow>
     fb_main w t = Some m \<and> fb_code w m = Some Main \<and> fb_code w (wk_idle wk) = Some Idle \<and>
     (\<forall>a. fb_state w a = Some EXEC \<longleftrightarrow> active m (wk_idle wk) (wk_phase wk) = Some a) \<and>
     fb_cur w t = Some (on_stack m (wk_idle wk) (wk_phase wk)) \<and>
     (on_stack m (wk_idle wk) (wk_phase wk) \<noteq> m \<longrightarrow> fb_state w m = Some HOLD) \<and>
     (wk_phase wk \<noteq> InIdle \<and> wk_phase wk \<noteq> Finished \<longrightarrow> fb_state w (wk_idle wk) \<in> {Some INIT, Some HOLD, Some READY}) \<and>
     (\<forall>c. wk_cb_fiber wk = Some c \<longrightarrow> client_fiber w c) \<and>
     phase_ok w (wk_cb_fiber wk) (wk_phase wk)"

definition fibers_ok :: "'cb fibers \<Rightarrow> bool" where
  "fibers_ok w \<longleftrightarrow> (\<forall>a \<ge> fb_next w. fb_heap w a = None) \<and> (\<forall>a f. fb_heap w a = Some f \<and> f_code f \<noteq> Main \<longrightarrow> f_stack f)"

definition sched_inv :: "int \<Rightarrow> 'cb sched \<Rightarrow> bool" where
  "sched_inv t s \<longleftrightarrow>
     fibers_ok (sc_fibers s) \<and> (\<forall>tk \<in> set (sc_queue s). client_task (sc_fibers s) tk) \<and>
     (case sc_workers s t of
        None \<Rightarrow> fb_main (sc_fibers s) t = None \<and> (\<forall>a. fb_state (sc_fibers s) a \<noteq> Some EXEC)
      | Some wk \<Rightarrow> \<exists>m. worker_ok t (sc_fibers s) wk m)"

subsection \<open>Effects on the fibers\<close>

lemma new_Fiber_simps:
  "fst (new_Fiber c w) = fb_next w"
  "fb_state (snd (new_Fiber c w)) a = (if a = fb_next w then Some INIT else fb_state w a)"
  "fb_code (snd (new_Fiber c w)) a = (if a = fb_next w then Some c else fb_code w a)"
  "fb_main (snd (new_Fiber c w)) = fb_main w" "fb_cur (snd (new_Fiber c w)) = fb_cur w"
  by (simp_all add: new_Fiber_def fb_state_def fb_code_def)

lemma fibers_ok_new: "fibers_ok w \<Longrightarrow> fibers_ok (snd (new_Fiber c w))"
  by (auto simp: fibers_ok_def new_Fiber_def)

lemma fibers_ok_set [simp]: "fibers_ok (fb_set a st w) = fibers_ok w"
  by (auto simp: fibers_ok_def fb_set_def split: if_splits; metis option.simps(8) option.exhaust)

lemma fibers_ok_setThis [simp]: "fibers_ok (setThis t a w) = fibers_ok w"
  by (simp add: fibers_ok_def)

lemma fibers_ok_fresh: "fibers_ok w \<Longrightarrow> fb_state w (fb_next w) = None \<and> fb_code w (fb_next w) = None"
  by (simp add: fibers_ok_def fb_state_def fb_code_def)

lemma client_fiber_set [simp]: "client_fiber (fb_set a st w) = client_fiber w" "client_fiber (setThis t a w) = client_fiber w"
  by (simp_all add: client_fiber_def fun_eq_iff)

lemma client_task_set [simp]: "client_task (fb_set a st w) = client_task w" "client_task (setThis t a w) = client_task w"
  by (simp_all add: client_task_def fun_eq_iff split: option.split)

lemma client_new:
  assumes "fibers_ok w"
  shows "client_fiber w f \<Longrightarrow> client_fiber (snd (new_Fiber c w)) f" "client_task w tk \<Longrightarrow> client_task (snd (new_Fiber c w)) tk"
  using fibers_ok_fresh [OF assms] by (auto simp: client_fiber_def client_task_def new_Fiber_simps split: option.splits)

lemma client_not: "client_fiber w f \<Longrightarrow> fb_code w f \<noteq> Some Main \<and> fb_code w f \<noteq> Some Idle \<and> fb_state w f \<noteq> None"
  by (auto simp: client_fiber_def fb_state_code split: option.splits)

lemma enter_fiber_ok:
  assumes "fb_main w t = Some m" and "fb_state w m = Some EXEC" and "f \<noteq> m" and "fb_state w f \<in> {Some INIT, Some HOLD, Some READY}"
  shows "enter_fiber t f w = Inr (setThis t f (fb_set f EXEC (fb_set m HOLD w)))"
  using assms by (auto simp: enter_fiber_def swapIn_known run_begin_def getMainFiber_known)

lemma swapOut_ok:
  assumes "fb_main w t = Some m" and "fb_state w m = Some HOLD"
  shows "swapOut t w = Inr (setThis t m (fb_set m EXEC w))"
  using assms by (simp add: swapOut_known)

subsection \<open>The search\<close>

lemma pick_task_takes:
  assumes "\<forall>tk \<in> set q. client_task w tk"
  shows "\<exists>r q'. pick_task t w q = Inr (r, q') \<and> set q' \<subseteq> set q \<and> (\<forall>tk. r = Some tk \<longrightarrow> tk \<in> set q)"
  using assms
proof (induction q)
  case (Cons it q)
  then obtain r q' where "pick_task t w q = Inr (r, q')" "set q' \<subseteq> set q" "\<forall>tk. r = Some tk \<longrightarrow> tk \<in> set q" by auto
  then show ?case using Cons.prems by (auto simp: client_task_def split: option.splits)
qed simp

subsection \<open>Preservation\<close>

lemma sched_inv_init: "sched_inv t new_Scheduler"
  by (simp add: sched_inv_def new_Scheduler_def fibers_ok_def no_fibers_def fb_state_def)

lemma sched_inv_start:
  assumes "sched_inv t s" and "sc_workers s t = None"
  shows "sched_inv t (worker_start t s)"
proof -
  let ?w = "sc_fibers s"
  let ?m = "fb_next ?w" let ?v = "setThis t ?m ((snd (new_main_Fiber ?w))\<lparr>fb_main := (fb_main ?w)(t \<mapsto> ?m)\<rparr>)"
  have w: "fibers_ok ?w" "\<forall>tk \<in> set (sc_queue s). client_task ?w tk" "fb_main ?w t = None" "\<forall>a. fb_state ?w a \<noteq> Some EXEC"
    using assms by (auto simp: sched_inv_def)
  have main: "getMainFiber t ?w = (?m, ?v)" using w(3) by (simp add: getMainFiber_def new_main_Fiber_def Let_def)
  have v: "fb_state ?v a = (if a = ?m then Some EXEC else fb_state ?w a)" "fb_code ?v a = (if a = ?m then Some Main else fb_code ?w a)"
     "fb_main ?v t = Some ?m" "fb_cur ?v t = Some ?m" "fb_next ?v = Suc ?m" "fibers_ok ?v" for a
    using w(1) by (auto simp: new_main_Fiber_def fb_state_def fb_code_def fibers_ok_def setThis_def)
  have tasks: "client_task ?v tk" if "client_task ?w tk" for tk
    using that fibers_ok_fresh [OF w(1)] v(2) by (auto simp: client_task_def client_fiber_def split: option.splits)
  obtain u where u: "new_Fiber Idle ?v = (Suc ?m, u)" "u = snd (new_Fiber Idle ?v)" using v(5) by (simp add: new_Fiber_def)
  have ws: "worker_start t s = set_worker t \<lparr>wk_phase = Top, wk_cb_fiber = None, wk_idle = Suc ?m\<rparr> (s\<lparr>sc_fibers := u\<rparr>)"
    by (simp add: worker_start_def main u(1) Let_def)
  have "worker_ok t u \<lparr>wk_phase = Top, wk_cb_fiber = None, wk_idle = Suc ?m\<rparr> ?m"
    using w(4) v(1-5) fibers_ok_fresh [OF v(6)] by (auto simp: worker_ok_def u(2) new_Fiber_simps)
  moreover have "\<forall>tk \<in> set (sc_queue s). client_task u tk"
    using w(2) tasks client_new(2) [OF v(6)] by (auto simp: u(2))
  moreover have "fibers_ok u" using fibers_ok_new [OF v(6)] by (simp add: u(2))
  ultimately show ?thesis unfolding ws by (auto simp: sched_inv_def set_worker_def)
qed

lemma sched_inv_worker:
  assumes "sched_inv t s" and "sc_workers s t = Some wk"
  obtains m where "worker_ok t (sc_fibers s) wk m" "fibers_ok (sc_fibers s)" "\<forall>tk \<in> set (sc_queue s). client_task (sc_fibers s) tk"
  using assms by (auto simp: sched_inv_def)

lemma sched_inv_set:
  assumes "worker_ok t (sc_fibers s) wk m" and "fibers_ok (sc_fibers s)" and "\<forall>tk \<in> set (sc_queue s). client_task (sc_fibers s) tk"
  shows "sched_inv t (set_worker t wk s)"
  using assms by (auto simp: sched_inv_def set_worker_def)

lemma sched_inv_pick:
  assumes "sched_inv t s" and "sc_workers s t = Some wk" and "wk_phase wk = Top"
  shows "\<exists>s'. worker_pick t wk s = Inr s' \<and> sched_inv t s'"
proof -
  obtain m where m: "worker_ok t (sc_fibers s) wk m" "fibers_ok (sc_fibers s)" "\<forall>tk \<in> set (sc_queue s). client_task (sc_fibers s) tk"
    using sched_inv_worker [OF assms(1,2)] .
  obtain r q' where r: "pick_task t (sc_fibers s) (sc_queue s) = Inr (r, q')" "set q' \<subseteq> set (sc_queue s)"
      "\<forall>tk. r = Some tk \<longrightarrow> tk \<in> set (sc_queue s)"
    using pick_task_takes [OF m(3)] by blast
  have "worker_ok t (sc_fibers s) (wk\<lparr>wk_phase := Picked r (q' \<noteq> [])\<rparr>) m"
    using m(1,3) r(3) assms(3) by (cases r) (auto simp: worker_ok_def)
  then have "sched_inv t (set_worker t (wk\<lparr>wk_phase := Picked r (q' \<noteq> [])\<rparr>) (s\<lparr>sc_queue := q'\<rparr>))"
    using m(2,3) r(2) by (intro sched_inv_set) auto
  then show ?thesis by (simp add: worker_pick_def r(1))
qed

text \<open>A switch from the main fiber into \<open>f\<close>, whatever the phase names it.\<close>

lemma enter_inv:
  assumes "worker_ok t w wk m" and "active m (wk_idle wk) (wk_phase wk) = Some m" and "f \<noteq> m" and "wk_phase wk \<noteq> Finished"
    and "fb_state w f \<in> {Some INIT, Some HOLD, Some READY}"
  shows "enter_fiber t f w = Inr (setThis t f (fb_set f EXEC (fb_set m HOLD w)))"
  using assms by (intro enter_fiber_ok) (auto simp: worker_ok_def)

lemma worker_ok_enter:
  assumes ok: "worker_ok t w wk m" and ph: "wk_phase wk = Picked ft nt" and f: "client_fiber w f"
    and st: "fb_state w f \<in> {Some INIT, Some HOLD, Some READY}"
    and c: "if is_cb then c = Some f else c = wk_cb_fiber wk \<and> (\<forall>a. c = Some a \<longrightarrow> fb_state w a = Some TERM')"
  shows "worker_ok t (setThis t f (fb_set f EXEC (fb_set m HOLD w))) (wk\<lparr>wk_phase := Running f is_cb nt, wk_cb_fiber := c\<rparr>) m"
proof -
  note o = ok [unfolded worker_ok_def ph, simplified]
  have n: "f \<noteq> m" "m \<noteq> wk_idle wk" "fb_state w m = Some EXEC" "f \<noteq> wk_idle wk"
    using o client_not [OF f] by auto
  let ?v = "setThis t f (fb_set f EXEC (fb_set m HOLD w))"
  have state: "fb_state ?v a = (if a = f then Some EXEC else if a = m then Some HOLD else fb_state w a)" for a
    using n st by auto
  have cl: "client_fiber w a \<Longrightarrow> a \<noteq> m" for a using client_not [of w a] o by auto
  have "phase_ok ?v c (Running f is_cb nt)"
    using f c st cl n(3) by (cases is_cb) (auto simp: state simp del: fb_set_simps setThis_simps)
  moreover have "\<forall>a. c = Some a \<longrightarrow> client_fiber ?v a" using c o f by (cases is_cb) simp_all
  moreover have "\<forall>a. fb_state ?v a = Some EXEC \<longleftrightarrow> f = a" using o unfolding state by auto
  moreover have "fb_state ?v (wk_idle wk) \<in> {Some INIT, Some HOLD, Some READY}" using o n unfolding state by simp
  moreover let ?k = "wk\<lparr>wk_phase := Running f is_cb nt, wk_cb_fiber := c\<rparr>"
  have k: "wk_phase ?k = Running f is_cb nt" "wk_cb_fiber ?k = c" "wk_idle ?k = wk_idle wk" by simp_all
  ultimately show ?thesis using o n unfolding worker_ok_def k
    by (simp add: state del: fb_set_simps(1) setThis_simps(2) phase_ok.simps)
qed

lemma sched_inv_enter:
  assumes inv: "sched_inv t s" and wk: "sc_workers s t = Some wk" and ph: "wk_phase wk = Picked ft nt"
  shows "case worker_enter t wk ft nt s of
           Inl e \<Rightarrow> e = AssertFail \<and> (\<exists>tk f. ft = Some tk \<and> tk_fiber tk = Some f \<and> fb_state (sc_fibers s) f = Some EXECPT)
         | Inr s' \<Rightarrow> sched_inv t s'"
proof -
  let ?w = "sc_fibers s"
  obtain m where m: "worker_ok t ?w wk m" "fibers_ok ?w" "\<forall>tk \<in> set (sc_queue s). client_task ?w tk"
    using sched_inv_worker [OF inv wk] .
  have exec: "fb_state ?w a = Some EXEC \<longleftrightarrow> a = m" for a using m(1) ph by (auto simp: worker_ok_def)
  have main: "fb_code ?w m = Some Main" using m(1) by (auto simp: worker_ok_def)
  consider (none) "ft = None" | (fiber) tk f where "ft = Some tk" "tk_fiber tk = Some f" "client_fiber ?w f"
    | (cb) tk cb where "ft = Some tk" "tk_fiber tk = None" "tk_cb tk = Some cb"
    using m(1) ph by (cases ft) (auto simp: worker_ok_def client_task_def split: option.splits)
  then show ?thesis
  proof cases
    case none
    have "worker_ok t ?w (wk\<lparr>wk_phase := After False nt\<rparr>) m" using m(1) ph none by (auto simp: worker_ok_def)
    then show ?thesis using none m by (auto simp: worker_enter_def intro: sched_inv_set)
  next
    case fiber
    have c: "\<forall>a. wk_cb_fiber wk = Some a \<longrightarrow> fb_state ?w a = Some TERM'" using m(1) ph fiber(1) by (auto simp: worker_ok_def)
    have f: "f \<noteq> m" using client_not [OF fiber(3)] main by auto
    show ?thesis
    proof (cases "fb_state ?w f \<in> {Some INIT, Some HOLD, Some READY}")
      case True
      have "worker_ok t (setThis t f (fb_set f EXEC (fb_set m HOLD ?w))) (wk\<lparr>wk_phase := Running f False nt, wk_cb_fiber := wk_cb_fiber wk\<rparr>) m"
        using worker_ok_enter [OF m(1) ph fiber(3) True, of False "wk_cb_fiber wk"] c by simp
      then have "sched_inv t (set_worker t (wk\<lparr>wk_phase := Running f False nt\<rparr>) (s\<lparr>sc_fibers := setThis t f (fb_set f EXEC (fb_set m HOLD ?w))\<rparr>))"
        using m by (intro sched_inv_set [where m = m]) auto
      moreover have "enter_fiber t f ?w = Inr (setThis t f (fb_set f EXEC (fb_set m HOLD ?w)))"
        using enter_inv [OF m(1) _ f _ True] ph by simp
      moreover have "fb_state ?w f \<notin> {Some EXECPT, Some EXEC, Some TERM'}" using True by auto
      ultimately show ?thesis using fiber by (simp add: worker_enter_def)
    next
      case False
      moreover have "fb_state ?w f \<noteq> None" using client_not [OF fiber(3)] by simp
      moreover have "fb_state ?w f \<noteq> Some EXEC" using exec f by simp
      ultimately have "fb_state ?w f = Some TERM' \<or> fb_state ?w f = Some EXECPT"
        by (cases "fb_state ?w f"; cases "the (fb_state ?w f)") simp_all
      moreover have "worker_ok t ?w (wk\<lparr>wk_phase := After False nt\<rparr>) m" using m(1) ph c by (auto simp: worker_ok_def)
      then have "sched_inv t (set_worker t (wk\<lparr>wk_phase := After False nt\<rparr>) s)" using m by (intro sched_inv_set) auto
      ultimately show ?thesis using fiber by (auto simp: worker_enter_def)
    qed
  next
    case cb
    obtain c w' where w': "(case wk_cb_fiber wk of
                        Some c \<Rightarrow> rbind (reset_Fiber c (Cb cb) ?w) (\<lambda>w. Inr (c, w))
                      | None \<Rightarrow> Inr (new_Fiber (Cb cb) ?w)) = Inr (c, w')"
        "fb_state w' c = Some INIT" "client_fiber w' c" "fibers_ok w'" "\<forall>tk \<in> set (sc_queue s). client_task w' tk"
        "worker_ok t w' (wk\<lparr>wk_cb_fiber := None\<rparr>) m"
    proof (cases "wk_cb_fiber wk")
      case None
      let ?u = "snd (new_Fiber (Cb cb) ?w)"
      have "worker_ok t ?u (wk\<lparr>wk_cb_fiber := None\<rparr>) m"
        using m(1) ph cb None fibers_ok_fresh [OF m(2)] client_new(2) [OF m(2)]
        by (auto simp: worker_ok_def new_Fiber_simps)
      moreover have "client_fiber ?u (fb_next ?w)" by (simp add: client_fiber_def new_Fiber_simps)
      ultimately show ?thesis
        using that [of "fb_next ?w" ?u] None m client_new(2) [OF m(2)] fibers_ok_new [OF m(2)] new_Fiber_simps(1) [of "Cb cb" ?w]
        by (simp add: new_Fiber_simps prod_eq_iff)
    next
      case (Some c)
      have st: "fb_state ?w c = Some TERM'" and cl: "client_fiber ?w c" using m(1) ph cb(1) Some by (auto simp: worker_ok_def)
      then obtain f where f: "fb_heap ?w c = Some f" "f_state f = TERM'" "f_code f \<noteq> Main" "f_code f \<noteq> Idle"
        by (auto simp: fb_state_def client_fiber_def fb_code_def split: fiber_code.splits)
      then have stack: "f_stack f" using m(2) by (auto simp: fibers_ok_def)
      let ?u = "?w\<lparr>fb_heap := (fb_heap ?w)(c \<mapsto> f\<lparr>f_code := Cb cb, f_state := INIT\<rparr>)\<rparr>"
      have r: "reset_Fiber c (Cb cb) ?w = Inr ?u" using f stack by (simp add: reset_Fiber_def)
      have u: "fb_state ?u a = (if a = c then Some INIT else fb_state ?w a)"
          "fb_code ?u a = (if a = c then Some (Cb cb) else fb_code ?w a)" "fb_main ?u = fb_main ?w" "fb_cur ?u = fb_cur ?w" for a
        by (simp_all add: fb_state_def fb_code_def)
      have ok: "fibers_ok ?u" using m(2) f stack by (auto simp: fibers_ok_def)
      have clu: "client_fiber ?u a" if "client_fiber ?w a" for a using that by (simp add: client_fiber_def u)
      have tku: "client_task ?u tk" if "client_task ?w tk" for tk
        using that clu by (auto simp: client_task_def split: option.splits)
      have "c \<noteq> m" "c \<noteq> wk_idle wk" using client_not [OF cl] m(1) by (auto simp: worker_ok_def)
      then have "worker_ok t ?u (wk\<lparr>wk_cb_fiber := None\<rparr>) m"
        using m(1) ph cb tku by (auto simp: worker_ok_def u)
      then show ?thesis using that [of c ?u] r Some m(3) tku clu [OF cl] ok by (simp add: u)
    qed
    have ph': "wk_phase (wk\<lparr>wk_cb_fiber := None\<rparr>) = Picked ft nt" using ph by simp
    have c: "c \<noteq> m" using client_not [OF w'(3)] w'(6) by (auto simp: worker_ok_def)
    let ?v = "setThis t c (fb_set c EXEC (fb_set m HOLD w'))"
    have "worker_ok t ?v (wk\<lparr>wk_phase := Running c True nt, wk_cb_fiber := Some c\<rparr>) m"
      using worker_ok_enter [OF w'(6) ph' w'(3), of True "Some c"] w'(2) by simp
    then have "sched_inv t (set_worker t (wk\<lparr>wk_phase := Running c True nt, wk_cb_fiber := Some c\<rparr>) (s\<lparr>sc_fibers := ?v\<rparr>))"
      using w'(4,5) by (intro sched_inv_set [where m = m]) auto
    moreover have "enter_fiber t c w' = Inr ?v" using enter_inv [OF w'(6) _ c] ph w'(2) by simp
    ultimately show ?thesis using cb w'(1,2) by (simp add: worker_enter_def)
  qed
qed

lemma running_facts:
  assumes "worker_ok t w wk m" and "wk_phase wk = Running f is_cb nt \<or> wk_phase wk = Leaving f is_cb nt"
  shows "f \<noteq> m" "f \<noteq> wk_idle wk" "m \<noteq> wk_idle wk" "fb_state w m = Some HOLD" "client_fiber w f" "fb_cur w t = Some f" "fb_main w t = Some m"
  using assms client_not [of w f] by (auto simp: worker_ok_def)

lemma running_other_cb:
  assumes "worker_ok t w wk m" and "wk_phase wk = Running f False nt" and "wk_cb_fiber wk = Some a"
  shows "a \<noteq> f \<and> a \<noteq> m \<and> fb_state w a = Some TERM'"
proof -
  have "fb_state w f = Some EXEC" "fb_state w a = Some TERM'" "client_fiber w a" "fb_code w m = Some Main"
    using assms by (auto simp: worker_ok_def)
  then show ?thesis using client_not [of w a] by auto
qed

lemma sched_inv_mark:
  assumes "sched_inv t s" and "sc_workers s t = Some wk" and ph: "wk_phase wk = Running f is_cb nt" and st: "st = HOLD \<or> st = READY"
  shows "\<exists>s'. worker_mark t st wk f is_cb nt s = Inr s' \<and> sched_inv t s'"
proof -
  let ?w = "sc_fibers s" let ?v = "fb_set f st ?w" let ?k = "wk\<lparr>wk_phase := Leaving f is_cb nt\<rparr>"
  obtain m where m: "worker_ok t ?w wk m" "fibers_ok ?w" "\<forall>tk \<in> set (sc_queue s). client_task ?w tk"
    using sched_inv_worker [OF assms(1,2)] .
  note r = running_facts [OF m(1), of f is_cb nt, OF disjI1, OF ph]
  note o = m(1) [unfolded worker_ok_def ph, simplified]
  have state: "fb_state ?v a = (if a = f then Some st else fb_state ?w a)" for a using client_not [OF r(5)] by simp
  have "phase_ok ?v (wk_cb_fiber wk) (Leaving f is_cb nt)"
    using o running_other_cb [OF m(1), of f nt] ph by (cases is_cb) (auto simp: state simp del: fb_set_simps(1))
  moreover have "\<forall>a. fb_state ?v a \<noteq> Some EXEC" using o st unfolding state by auto
  moreover have k: "wk_phase ?k = Leaving f is_cb nt" "wk_cb_fiber ?k = wk_cb_fiber wk" "wk_idle ?k = wk_idle wk" by simp_all
  ultimately have "worker_ok t ?v ?k m" using o r unfolding worker_ok_def k by (simp add: state del: fb_set_simps(1) phase_ok.simps)
  then have "sched_inv t (set_worker t ?k (s\<lparr>sc_fibers := ?v\<rparr>))" using m by (intro sched_inv_set [where m = m]) auto
  then show ?thesis using r(6) by (simp add: worker_mark_def yield_mark_def)
qed

text \<open>Back in the loop: the main fiber runs and the worker's callback fiber is in any state.\<close>

lemma worker_ok_back:
  assumes "fb_main v t = Some m" "fb_code v m = Some Main" "fb_code v (wk_idle wk) = Some Idle"
    and "\<And>a. fb_state v a = Some EXEC \<longleftrightarrow> a = m" and "fb_cur v t = Some m"
    and "fb_state v (wk_idle wk) \<in> {Some INIT, Some HOLD, Some READY}"
    and "\<forall>c. wk_cb_fiber wk = Some c \<longrightarrow> client_fiber v c"
    and "is_cb \<or> (\<forall>c. wk_cb_fiber wk = Some c \<longrightarrow> fb_state v c = Some TERM')"
  shows "worker_ok t v (wk\<lparr>wk_phase := After is_cb nt\<rparr>) m"
  using assms by (auto simp: worker_ok_def)

lemma sched_inv_leave:
  assumes "sched_inv t s" and "sc_workers s t = Some wk" and ph: "wk_phase wk = Leaving f is_cb nt"
  shows "\<exists>s'. worker_leave t wk is_cb nt s = Inr s' \<and> sched_inv t s'"
proof -
  let ?w = "sc_fibers s"
  obtain m where m: "worker_ok t ?w wk m" "fibers_ok ?w" "\<forall>tk \<in> set (sc_queue s). client_task ?w tk"
    using sched_inv_worker [OF assms(1,2)] .
  note r = running_facts [OF m(1), of f is_cb nt, OF disjI2, OF ph]
  note o = m(1) [unfolded worker_ok_def ph, simplified]
  let ?v = "setThis t m (fb_set m EXEC ?w)"
  have state: "fb_state ?v a = (if a = m then Some EXEC else fb_state ?w a)" for a using r(4) by simp
  have "is_cb \<or> (\<forall>c. wk_cb_fiber wk = Some c \<longrightarrow> fb_state ?v c = Some TERM')"
    using o r(4) unfolding state by (cases is_cb) auto
  moreover have "\<And>a. fb_state ?v a = Some EXEC \<longleftrightarrow> a = m" "fb_state ?v (wk_idle wk) \<in> {Some INIT, Some HOLD, Some READY}"
    using o r(3) unfolding state by simp_all
  ultimately have "worker_ok t ?v (wk\<lparr>wk_phase := After is_cb nt\<rparr>) m"
    using o by (intro worker_ok_back) (simp_all del: fb_set_simps(1) setThis_simps(2))
  then have "sched_inv t (set_worker t (wk\<lparr>wk_phase := After is_cb nt\<rparr>) (s\<lparr>sc_fibers := ?v\<rparr>))"
    using m by (intro sched_inv_set [where m = m]) auto
  then show ?thesis using swapOut_ok [OF r(7,4)] by (simp add: worker_leave_def)
qed

lemma sched_inv_end:
  assumes "sched_inv t s" and "sc_workers s t = Some wk" and ph: "wk_phase wk = Running f is_cb nt" and res: "res = TERM' \<or> res = EXECPT"
  shows "sched_inv t (worker_end t res wk f is_cb nt s)"
proof -
  let ?w = "sc_fibers s"
  obtain m where m: "worker_ok t ?w wk m" "fibers_ok ?w" "\<forall>tk \<in> set (sc_queue s). client_task ?w tk"
    using sched_inv_worker [OF assms(1,2)] .
  note r = running_facts [OF m(1), of f is_cb nt, OF disjI1, OF ph]
  note o = m(1) [unfolded worker_ok_def ph, simplified]
  let ?v = "setThis t m (fb_set m EXEC (fb_set f res ?w))"
  have state: "fb_state ?v a = (if a = m then Some EXEC else if a = f then Some res else fb_state ?w a)" for a
    using r(1,4) client_not [OF r(5)] by auto
  have "is_cb \<or> (\<forall>c. wk_cb_fiber wk = Some c \<longrightarrow> fb_state ?v c = Some TERM')"
    using running_other_cb [OF m(1), of f nt] ph unfolding state by (cases is_cb) auto
  moreover have "\<And>a. fb_state ?v a = Some EXEC \<longleftrightarrow> a = m" "fb_state ?v (wk_idle wk) \<in> {Some INIT, Some HOLD, Some READY}"
    using o r(1,2,3) res unfolding state by auto
  ultimately have "worker_ok t ?v (wk\<lparr>wk_phase := After is_cb nt\<rparr>) m"
    using o by (intro worker_ok_back) (simp_all del: fb_set_simps(1) setThis_simps(2))
  then have "sched_inv t (set_worker t (wk\<lparr>wk_phase := After is_cb nt\<rparr>) (s\<lparr>sc_fibers := ?v\<rparr>))"
    using m by (intro sched_inv_set [where m = m]) auto
  then show ?thesis using run_end_known [OF r(7)] by (simp add: worker_end_def)
qed

lemma sched_inv_after:
  assumes "sched_inv t s" and "sc_workers s t = Some wk" and ph: "wk_phase wk = After is_cb nt"
  shows "\<exists>s'. worker_after t wk is_cb nt s = Inr s' \<and> sched_inv t s'"
proof -
  let ?w = "sc_fibers s"
  obtain m where m: "worker_ok t ?w wk m" "fibers_ok ?w" "\<forall>tk \<in> set (sc_queue s). client_task ?w tk"
    using sched_inv_worker [OF assms(1,2)] .
  note o = m(1) [unfolded worker_ok_def ph, simplified]
  define k where "k = (if is_cb \<and> (case wk_cb_fiber wk of None \<Rightarrow> False | Some c \<Rightarrow> fb_state ?w c \<noteq> Some TERM') then wk\<lparr>wk_cb_fiber := None\<rparr> else wk)"
  have idle: "wk_idle k = wk_idle wk" by (simp add: k_def)
  have cb: "\<forall>a. wk_cb_fiber k = Some a \<longrightarrow> fb_state ?w a = Some TERM' \<and> client_fiber ?w a" using o by (auto simp: k_def split: option.splits)
  show ?thesis
  proof (cases nt)
    case True
    have "worker_ok t ?w (k\<lparr>wk_phase := Top\<rparr>) m" using o cb unfolding worker_ok_def by (simp add: idle)
    then have "sched_inv t (set_worker t (k\<lparr>wk_phase := Top\<rparr>) (s\<lparr>sc_ticks := Suc (sc_ticks s)\<rparr>))"
      using m by (intro sched_inv_set [where m = m]) auto
    then show ?thesis using True by (simp add: worker_after_def Let_def k_def [symmetric] idle)
  next
    case False
    have n: "wk_idle wk \<noteq> m" "fb_state ?w m = Some EXEC" "fb_state ?w (wk_idle wk) \<noteq> None" using o by auto
    let ?v = "setThis t (wk_idle wk) (fb_set (wk_idle wk) EXEC (fb_set m HOLD ?w))"
    have state: "fb_state ?v a = (if a = wk_idle wk then Some EXEC else if a = m then Some HOLD else fb_state ?w a)" for a
      using n by auto
    have "a \<noteq> wk_idle wk \<and> a \<noteq> m" if "client_fiber ?w a" for a using client_not [OF that] o by auto
    then have "phase_ok ?v (wk_cb_fiber k) InIdle" using cb unfolding phase_ok.simps state by simp
    moreover have "\<forall>a. fb_state ?v a = Some EXEC \<longleftrightarrow> wk_idle wk = a" using o unfolding state by auto
    moreover have kk: "wk_phase (k\<lparr>wk_phase := InIdle\<rparr>) = InIdle" "wk_cb_fiber (k\<lparr>wk_phase := InIdle\<rparr>) = wk_cb_fiber k"
        "wk_idle (k\<lparr>wk_phase := InIdle\<rparr>) = wk_idle wk" by (simp_all add: idle)
    ultimately have "worker_ok t ?v (k\<lparr>wk_phase := InIdle\<rparr>) m"
      using o cb n unfolding worker_ok_def kk by (simp add: state del: fb_set_simps(1) setThis_simps(2) phase_ok.simps)
    then have "sched_inv t (set_worker t (k\<lparr>wk_phase := InIdle\<rparr>) (s\<lparr>sc_fibers := ?v\<rparr>))"
      using m by (intro sched_inv_set [where m = m]) auto
    moreover have "enter_fiber t (wk_idle wk) ?w = Inr ?v" using o n by (intro enter_fiber_ok) auto
    ultimately show ?thesis using False by (simp add: worker_after_def Let_def k_def [symmetric] idle)
  qed
qed

lemma sched_inv_idle:
  assumes "sched_inv t s" and "sc_workers s t = Some wk" and ph: "wk_phase wk = InIdle" and y: "vt_idle_yield vt \<in> {HOLD, READY}"
  shows "\<exists>s'. worker_idle vt t wk s = Inr s' \<and> sched_inv t s'"
proof -
  let ?w = "sc_fibers s" let ?i = "wk_idle wk"
  obtain m where m: "worker_ok t ?w wk m" "fibers_ok ?w" "\<forall>tk \<in> set (sc_queue s). client_task ?w tk"
    using sched_inv_worker [OF assms(1,2)] .
  note o = m(1) [unfolded worker_ok_def ph, simplified]
  have n: "?i \<noteq> m" "fb_state ?w m = Some HOLD" "fb_state ?w ?i = Some EXEC" using o by auto
  let ?v = "\<lambda>st. setThis t m (fb_set m EXEC (fb_set ?i st ?w))"
  have state: "fb_state (?v st) a = (if a = m then Some EXEC else if a = ?i then Some st else fb_state ?w a)" for st a
    using n by auto
  have cb: "wk_cb_fiber wk \<noteq> Some m" "wk_cb_fiber wk \<noteq> Some ?i" "\<forall>a. wk_cb_fiber wk = Some a \<longrightarrow> fb_state ?w a = Some TERM'"
    using o client_not [of ?w] by auto
  have c: "\<forall>a. wk_cb_fiber wk = Some a \<longrightarrow> fb_state (?v st) a = Some TERM'" for st
    using cb unfolding state by auto
  have ex: "\<forall>a. fb_state (?v st) a = Some EXEC \<longleftrightarrow> m = a" if "st \<noteq> EXEC" for st
    using o that unfolding state by auto
  show ?thesis
  proof (cases "vt_isStoping vt s")
    case True
    have "worker_ok t (?v TERM') (wk\<lparr>wk_phase := Finished\<rparr>) m"
      using o c [of TERM'] ex [of TERM'] unfolding worker_ok_def by (simp del: fb_set_simps(1) setThis_simps(2))
    then have "sched_inv t (set_worker t (wk\<lparr>wk_phase := Finished\<rparr>) (s\<lparr>sc_fibers := ?v TERM'\<rparr>))"
      using m by (intro sched_inv_set [where m = m]) auto
    then show ?thesis using True run_end_known [of ?w t m] o by (simp add: worker_idle_def)
  next
    case False
    let ?s = "vt_idle_yield vt"
    have "worker_ok t (?v ?s) (wk\<lparr>wk_phase := Top\<rparr>) m"
      using o c [of ?s] ex [of ?s] y n(1) state [of ?s ?i] unfolding worker_ok_def by (auto simp del: fb_set_simps(1) setThis_simps(2))
    then have "sched_inv t (set_worker t (wk\<lparr>wk_phase := Top\<rparr>) (s\<lparr>sc_fibers := ?v ?s\<rparr>))"
      using m by (intro sched_inv_set [where m = m]) auto
    moreover have "yield_mark ?s t ?w = Inr (fb_set ?i ?s ?w)" using o by (simp add: yield_mark_def)
    moreover have "swapOut t (fb_set ?i ?s ?w) = Inr (?v ?s)" using o n by (intro swapOut_ok) auto
    ultimately show ?thesis using False by (simp add: worker_idle_def)
  qed
qed

lemma sched_inv_client:
  assumes "sched_inv t s"
  shows "client_task (sc_fibers s) tk \<Longrightarrow> sched_inv t (snd (schedule tk s))" and "sched_inv t (sched_stop s)"
  using assms by (auto simp: sched_stop_def schedule_def sched_inv_def split: option.splits)

lemma sched_inv_new:
  assumes "sched_inv t s"
  shows "sched_inv t (s\<lparr>sc_fibers := snd (new_Fiber (Cb cb) (sc_fibers s))\<rparr>)"
proof -
  let ?w = "sc_fibers s" let ?u = "snd (new_Fiber (Cb cb) ?w)"
  have ok: "fibers_ok ?w" "\<forall>tk \<in> set (sc_queue s). client_task ?w tk" using assms by (auto simp: sched_inv_def)
  note fresh = fibers_ok_fresh [OF ok(1)] and cl = client_new [OF ok(1), of _ "Cb cb"]
  have old: "fb_state ?u a = fb_state ?w a" if "fb_state ?w a \<noteq> None" for a using that fresh by (auto simp: new_Fiber_simps)
  have exec: "fb_state ?u a = Some EXEC \<longleftrightarrow> fb_state ?w a = Some EXEC" for a using fresh by (simp add: new_Fiber_simps)
  have trm: "\<forall>a. c = Some a \<longrightarrow> fb_state ?u a = Some TERM'" if "\<forall>a. c = Some a \<longrightarrow> fb_state ?w a = Some TERM'" for c
    using that old by simp
  have code: "fb_code ?u a = fb_code ?w a" if "fb_code ?w a \<noteq> None" for a using that fresh by (auto simp: new_Fiber_simps)
  have "worker_ok t ?u wk m" if o: "worker_ok t ?w wk m" for wk m
  proof -
    note o = o [unfolded worker_ok_def]
    have "phase_ok ?u (wk_cb_fiber wk) (wk_phase wk)"
      using o cl trm [of "wk_cb_fiber wk"] by (cases "(?u, wk_cb_fiber wk, wk_phase wk)" rule: phase_ok.cases) auto
    moreover have "on_stack m (wk_idle wk) (wk_phase wk) \<noteq> m \<longrightarrow> fb_state ?u m = Some HOLD" using o old by auto
    moreover have "wk_phase wk \<noteq> InIdle \<and> wk_phase wk \<noteq> Finished \<longrightarrow> fb_state ?u (wk_idle wk) \<in> {Some INIT, Some HOLD, Some READY}"
      using o old [of "wk_idle wk"] by auto
    moreover have "fb_code ?u m = Some Main" "fb_code ?u (wk_idle wk) = Some Idle" using o code by auto
    moreover have "\<forall>c. wk_cb_fiber wk = Some c \<longrightarrow> client_fiber ?u c" using o cl(1) by blast
    ultimately show ?thesis using o unfolding worker_ok_def exec by (simp add: new_Fiber_simps(4,5))
  qed
  then have "\<exists>m. worker_ok t ?w wk m \<Longrightarrow> \<exists>m. worker_ok t ?u wk m" for wk by blast
  then show ?thesis
    using assms fibers_ok_new [OF ok(1)] cl(2) unfolding sched_inv_def by (auto simp: new_Fiber_simps(4) exec split: option.splits)
qed

lemma sched_inv_step:
  assumes inv: "sched_inv t s" and y: "vt_idle_yield vt \<in> {HOLD, READY}"
  shows "case sched_act vt t a s of
      None \<Rightarrow> True
    | Some (Inr s') \<Rightarrow> sched_inv t s'
    | Some (Inl e) \<Rightarrow> e = AssertFail \<and> a = AEnter \<and> (\<exists>wk tk f nt. sc_workers s t = Some wk \<and> wk_phase wk = Picked (Some tk) nt \<and>
        tk_fiber tk = Some f \<and> fb_state (sc_fibers s) f = Some EXECPT)"
proof (cases "sc_workers s t")
  case None
  then show ?thesis
    using sched_inv_start [OF inv None] sched_inv_client [OF inv] sched_inv_new [OF inv] by (cases a) (auto simp: sched_act_def)
next
  case (Some wk)
  note pick = sched_inv_pick [OF inv Some] and enter = sched_inv_enter [OF inv Some] and mark = sched_inv_mark [OF inv Some]
    and leave = sched_inv_leave [OF inv Some] and end_ = sched_inv_end [OF inv Some] and after = sched_inv_after [OF inv Some]
    and idle = sched_inv_idle [OF inv Some _ y] and client = sched_inv_client [OF inv]
  show ?thesis
  proof (cases a)
    case AStart
    then show ?thesis using Some by (simp add: sched_act_def)
  next
    case APick
    then show ?thesis using Some pick by (cases "wk_phase wk") (auto simp: sched_act_def worker_act_def)
  next
    case AEnter
    then show ?thesis using Some enter
      by (cases "wk_phase wk") (auto simp: sched_act_def worker_act_def split: sum.splits)
  next
    case (AMark st)
    then show ?thesis using Some mark [of _ _ _ st] by (cases "wk_phase wk") (auto simp: sched_act_def worker_act_def)
  next
    case ALeave
    then show ?thesis using Some leave by (cases "wk_phase wk") (auto simp: sched_act_def worker_act_def)
  next
    case (AEnd r)
    then show ?thesis using Some end_ [of _ _ _ r] by (cases "wk_phase wk") (auto simp: sched_act_def worker_act_def)
  next
    case AAfter
    then show ?thesis using Some after by (cases "wk_phase wk") (auto simp: sched_act_def worker_act_def)
  next
    case AIdle
    then show ?thesis using Some idle by (cases "wk_phase wk") (auto simp: sched_act_def worker_act_def)
  qed (use client sched_inv_new [OF inv] in \<open>auto simp: sched_act_def\<close>)
qed

lemma sched_reach_inv:
  assumes "sched_reach vt {t} s" and "vt_idle_yield vt \<in> {HOLD, READY}"
  shows "sched_inv t s"
  using assms(1)
proof (induction rule: sched_reach.induct)
  case start
  show ?case by (rule sched_inv_init)
next
  case (step s u a s')
  then show ?case using sched_inv_step [OF step.IH assms(2), of a] by simp
qed

section \<open>Fair order\<close>

text \<open>The search takes the first task that is for this thread when no client's fiber runs.\<close>

lemma pick_task_first:
  assumes "\<forall>tk \<in> set q. client_task w tk" and "\<forall>f. client_fiber w f \<longrightarrow> fb_state w f \<noteq> Some EXEC"
    and "i < length q" and "tk_thread (q ! i) \<in> {- 1, t}"
  shows "\<exists>j \<le> i. pick_task t w q = Inr (Some (q ! j), take j q @ drop (Suc j) q)"
  using assms
proof (induction q arbitrary: i)
  case (Cons it q)
  show ?case
  proof (cases "tk_thread it = - 1 \<or> tk_thread it = t")
    case True
    then have "pick_task t w (it # q) = Inr (Some it, q)" using Cons.prems(1,2) by (auto simp: client_task_def split: option.splits)
    then show ?thesis by (intro exI [of _ 0]) simp
  next
    case False
    then obtain k where i: "i = Suc k" using Cons.prems(4) by (cases i) auto
    obtain j where "j \<le> k" "pick_task t w q = Inr (Some (q ! j), take j q @ drop (Suc j) q)"
      using Cons.IH [of k] Cons.prems i by auto
    then show ?thesis using False i by (intro exI [of _ "Suc j"]) simp
  qed
qed simp

lemma nth_remove:
  assumes "j < i" and "i < length q"
  shows "(take j q @ drop (Suc j) q) ! (i - 1) = q ! i \<and> i - 1 < length (take j q @ drop (Suc j) q)"
  using assms by (auto simp: nth_append)

lemma sched_act_queue:
  assumes "sched_act vt t a s = Some (Inr s')" and "a \<noteq> APick"
  shows "\<exists>q. sc_queue s' = sc_queue s @ q"
  using assms
  by (auto simp: sched_act_def worker_act_def worker_start_def worker_enter_def worker_mark_def worker_leave_def worker_end_def
      worker_after_def worker_idle_def schedule_def sched_stop_def set_worker_def Let_def rbind_eq_Inr split_beta
      split: act.splits phase.splits option.splits if_splits)

lemma sched_act_pick:
  assumes "sched_inv t s" and "sched_act vt t APick s = Some (Inr s')" and "i < length (sc_queue s)" and "tk_thread (sc_queue s ! i) \<in> {- 1, t}"
  shows "(\<exists>wk nt. sc_workers s' t = Some wk \<and> wk_phase wk = Picked (Some (sc_queue s ! i)) nt) \<or>
    0 < i \<and> i - 1 < length (sc_queue s') \<and> sc_queue s' ! (i - 1) = sc_queue s ! i"
proof -
  obtain wk where wk: "sc_workers s t = Some wk" "wk_phase wk = Top" "worker_pick t wk s = Inr s'"
    using assms(2) by (auto simp: sched_act_def worker_act_def split: option.splits phase.splits)
  obtain m where m: "worker_ok t (sc_fibers s) wk m" "\<forall>tk \<in> set (sc_queue s). client_task (sc_fibers s) tk"
    using sched_inv_worker [OF assms(1) wk(1)] by blast
  have "\<forall>f. client_fiber (sc_fibers s) f \<longrightarrow> fb_state (sc_fibers s) f \<noteq> Some EXEC"
    using m(1) wk(2) client_not [of "sc_fibers s"] by (auto simp: worker_ok_def)
  then obtain j where j: "j \<le> i" "pick_task t (sc_fibers s) (sc_queue s) = Inr (Some (sc_queue s ! j), take j (sc_queue s) @ drop (Suc j) (sc_queue s))"
    using pick_task_first [OF m(2) _ assms(3,4)] by blast
  then show ?thesis
    using wk(3) nth_remove [of j i "sc_queue s"] assms(3) by (cases "j = i") (auto simp: worker_pick_def set_worker_def)
qed

section \<open>Properties\<close>

lemma sched_exec_reach:
  "sched_exec vt as s = Some (Inr s') \<Longrightarrow> fst ` set as \<subseteq> Ts \<Longrightarrow> sched_reach vt Ts s \<Longrightarrow> sched_reach vt Ts s'"
proof (induction as arbitrary: s)
  case (Cons x as)
  then show ?case by (cases x) (auto split: option.splits sum.splits intro: sched_reach.step)
qed simp

text \<open>
  C2. With a single worker thread the assertions of the fibers and of the scheduler never fail, in whatever order
  its fibers schedule, yield, return or throw, but for one: a fiber that was scheduled and ended by an exception
  brings the process down when its task comes up. At most one fiber is in state \<open>EXEC\<close>, and it is
  the one that the worker runs.
\<close>

theorem one_worker_safe:
  assumes "sched_reach vt {t} s" and "vt_idle_yield vt \<in> {HOLD, READY}"
  shows "(\<forall>a e. sched_act vt t a s = Some (Inl e) \<longrightarrow>
       e = AssertFail \<and> (\<exists>wk tk f nt. sc_workers s t = Some wk \<and> wk_phase wk = Picked (Some tk) nt \<and>
         tk_fiber tk = Some f \<and> fb_state (sc_fibers s) f = Some EXECPT)) \<and>
    (\<forall>f g. fb_state (sc_fibers s) f = Some EXEC \<and> fb_state (sc_fibers s) g = Some EXEC \<longrightarrow> f = g) \<and>
    (\<forall>wk f is_cb nt. sc_workers s t = Some wk \<and> wk_phase wk = Running f is_cb nt \<longrightarrow>
       fb_state (sc_fibers s) f = Some EXEC \<and> fb_cur (sc_fibers s) t = Some f)"
proof -
  note inv = sched_reach_inv [OF assms]
  have "e = AssertFail \<and> (\<exists>wk tk f nt. sc_workers s t = Some wk \<and> wk_phase wk = Picked (Some tk) nt \<and>
         tk_fiber tk = Some f \<and> fb_state (sc_fibers s) f = Some EXECPT)"
    if "sched_act vt t a s = Some (Inl e)" for a e
    using sched_inv_step [OF inv assms(2), of a] that by auto
  moreover have "\<exists>x. \<forall>f. fb_state (sc_fibers s) f = Some EXEC \<longleftrightarrow> x = Some f"
  proof (cases "sc_workers s t")
    case None
    then show ?thesis using inv by (intro exI [of _ None]) (simp add: sched_inv_def)
  next
    case (Some wk)
    then show ?thesis using inv by (auto simp: sched_inv_def worker_ok_def)
  qed
  moreover have "fb_state (sc_fibers s) f = Some EXEC \<and> fb_cur (sc_fibers s) t = Some f"
    if "sc_workers s t = Some wk" "wk_phase wk = Running f is_cb nt" for wk f is_cb nt
    using inv that by (auto simp: sched_inv_def worker_ok_def)
  ultimately show ?thesis by (intro conjI allI impI) (blast | metis option.inject)+
qed

definition demo_acts :: "(int \<times> nat act) list" where
  "demo_acts =
     [(1, AStart), (1, ASchedule \<lparr>tk_fiber = None, tk_cb = Some 7, tk_thread = - 1\<rparr>), (1, APick), (1, AEnter),
      (1, ASchedule \<lparr>tk_fiber = Some 2, tk_cb = None, tk_thread = - 1\<rparr>)]"

definition demo_state :: "nat sched" where
  "demo_state = (case sched_exec scheduler_virt demo_acts new_Scheduler of Some (Inr s) \<Rightarrow> s | _ \<Rightarrow> new_Scheduler)"

lemma demo_exec: "sched_exec scheduler_virt demo_acts new_Scheduler = Some (Inr demo_state)"
proof -
  have "(case sched_exec scheduler_virt demo_acts new_Scheduler of Some (Inr s) \<Rightarrow> True | _ \<Rightarrow> False)" by code_simp
  then show ?thesis by (auto simp: demo_state_def split: option.splits sum.splits)
qed

lemma demo_phase: "map_option wk_phase (sc_workers demo_state 1) = Some (Running 2 True False) \<and> length (sc_queue demo_state) = 1"
  by code_simp

lemma one_worker_safe_witness: "fb_state (sc_fibers demo_state) 2 = Some EXEC \<and> fb_cur (sc_fibers demo_state) 1 = Some 2"
proof -
  have "sched_reach scheduler_virt {1} demo_state"
    by (rule sched_exec_reach [OF demo_exec]) (auto simp: demo_acts_def intro: sched_reach.start)
  from one_worker_safe [OF this] demo_phase show ?thesis by (auto simp: scheduler_virt_def)
qed

text \<open>
  C3. No starvation: with a single worker, a task that is for this thread or for any is taken within as many
  searches of the queue as it has tasks before it, and one, however many tasks are scheduled meanwhile.
\<close>

theorem no_starvation:
  assumes "sched_reach vt {t} s" and "vt_idle_yield vt \<in> {HOLD, READY}"
    and "i < length (sc_queue s)" and "tk_thread (sc_queue s ! i) \<in> {- 1, t}"
    and "sched_exec vt (map (Pair t) as) s = Some (Inr s')" and "i < length (filter (\<lambda>a. a = APick) as)"
  shows "\<exists>as1 as2 s1 s2 wk nt. as = as1 @ APick # as2 \<and> sched_exec vt (map (Pair t) as1) s = Some (Inr s1) \<and>
    sched_act vt t APick s1 = Some (Inr s2) \<and> sc_workers s2 t = Some wk \<and> wk_phase wk = Picked (Some (sc_queue s ! i)) nt"
  using assms
proof (induction as arbitrary: s i)
  case (Cons a as)
  then obtain u where u: "sched_act vt t a s = Some (Inr u)" "sched_exec vt (map (Pair t) as) u = Some (Inr s')"
    by (auto split: option.splits sum.splits)
  have reach: "sched_reach vt {t} u" using Cons.prems(1) u(1) by (auto intro: sched_reach.step)
  have later: ?case if k: "k < length (sc_queue u)" "sc_queue u ! k = sc_queue s ! i" "k < length (filter (\<lambda>a. a = APick) as)" for k
  proof -
    have "tk_thread (sc_queue u ! k) \<in> {- 1, t}" using Cons.prems(4) k(2) by simp
    from Cons.IH [OF reach Cons.prems(2) k(1) this u(2) k(3)]
    obtain as1 as2 s1 s2 wk nt where "as = as1 @ APick # as2" "sched_exec vt (map (Pair t) as1) u = Some (Inr s1)"
      "sched_act vt t APick s1 = Some (Inr s2)" "sc_workers s2 t = Some wk" "wk_phase wk = Picked (Some (sc_queue s ! i)) nt"
      using k(2) by auto
    then have "a # as = (a # as1) @ APick # as2 \<and> sched_exec vt (map (Pair t) (a # as1)) s = Some (Inr s1) \<and>
        sched_act vt t APick s1 = Some (Inr s2) \<and> sc_workers s2 t = Some wk \<and> wk_phase wk = Picked (Some (sc_queue s ! i)) nt"
      using u(1) by simp
    then show ?thesis by blast
  qed
  show ?case
  proof (cases "a = APick")
    case True
    note inv = sched_reach_inv [OF Cons.prems(1,2)]
    from sched_act_pick [OF inv u(1) [unfolded True] Cons.prems(3,4)] show ?thesis
    proof
      assume "\<exists>wk nt. sc_workers u t = Some wk \<and> wk_phase wk = Picked (Some (sc_queue s ! i)) nt"
      then obtain wk nt where "sc_workers u t = Some wk" "wk_phase wk = Picked (Some (sc_queue s ! i)) nt" by blast
      then have "a # as = [] @ APick # as \<and> sched_exec vt (map (Pair t) []) s = Some (Inr s) \<and>
          sched_act vt t APick s = Some (Inr u) \<and> sc_workers u t = Some wk \<and> wk_phase wk = Picked (Some (sc_queue s ! i)) nt"
        using u(1) True by simp
      then show ?thesis by blast
    next
      assume "0 < i \<and> i - 1 < length (sc_queue u) \<and> sc_queue u ! (i - 1) = sc_queue s ! i"
      then show ?thesis using later [of "i - 1"] Cons.prems(6) True by auto
    qed
  next
    case False
    from sched_act_queue [OF u(1) False] obtain q where "sc_queue u = sc_queue s @ q" by blast
    then show ?thesis using later [of i] Cons.prems(3,6) False by (simp add: nth_append)
  qed
qed simp

lemma no_starvation_witness:
  "\<exists>as1 as2 s1 s2 wk nt. [AMark HOLD, ALeave, AAfter, AIdle, APick] = as1 @ APick # as2 \<and>
    sched_exec scheduler_virt (map (Pair 1) as1) demo_state = Some (Inr s1) \<and>
    sched_act scheduler_virt 1 APick s1 = Some (Inr s2) \<and> sc_workers s2 1 = Some wk \<and> wk_phase wk = Picked (Some (sc_queue demo_state ! 0)) nt"
proof -
  have reach: "sched_reach scheduler_virt {1} demo_state"
    by (rule sched_exec_reach [OF demo_exec]) (auto simp: demo_acts_def intro: sched_reach.start)
  have "(case sched_exec scheduler_virt (map (Pair 1) [AMark HOLD, ALeave, AAfter, AIdle, APick]) demo_state of Some (Inr s) \<Rightarrow> True | _ \<Rightarrow> False)"
    by code_simp
  then obtain s' where e: "sched_exec scheduler_virt (map (Pair 1) [AMark HOLD, ALeave, AAfter, AIdle, APick]) demo_state = Some (Inr s')"
    by (auto split: option.splits sum.splits)
  have q: "0 < length (sc_queue demo_state)" "tk_thread (sc_queue demo_state ! 0) = - 1" by code_simp+
  show ?thesis
    by (rule no_starvation [OF reach _ _ _ e]) (use q in \<open>simp_all add: scheduler_virt_def\<close>)
qed

text \<open>
  With two workers a fiber can be on both threads at once: the first half of a yield makes the fiber look ready to be
  entered while its thread is still on its stack, so a second worker that finds it in the queue enters it.
\<close>

theorem yield_race:
  "\<exists>s wk1 wk2. sched_reach scheduler_virt {1, 2} (s :: nat sched) \<and> sc_workers s 1 = Some wk1 \<and> sc_workers s 2 = Some wk2 \<and>
     wk_phase wk1 = Leaving 2 True False \<and> wk_phase wk2 = Running 2 False False"
proof -
  let ?as = "demo_acts @ [(2, AStart), (1, AMark HOLD), (2, APick), (2, AEnter)]"
  have "(case sched_exec scheduler_virt ?as new_Scheduler of
       Some (Inr s) \<Rightarrow> map_option wk_phase (sc_workers s 1) = Some (Leaving 2 True False) \<and> map_option wk_phase (sc_workers s 2) = Some (Running 2 False False)
     | _ \<Rightarrow> False)" by code_simp
  then obtain s where s: "sched_exec scheduler_virt ?as new_Scheduler = Some (Inr s)"
      "map_option wk_phase (sc_workers s 1) = Some (Leaving 2 True False)" "map_option wk_phase (sc_workers s 2) = Some (Running 2 False False)"
    by (auto split: option.splits sum.splits)
  have "sched_reach scheduler_virt {1, 2} s"
    by (rule sched_exec_reach [OF s(1)]) (auto simp: demo_acts_def intro: sched_reach.start)
  then show ?thesis using s(2,3) by auto
qed

text \<open>
  Stopping: a worker of the scheduler ends only after \<^verbatim>\<open>stop\<close>, and with the queue empty; a worker whose \<^verbatim>\<open>isStoping\<close> is
  always false, as the I/O manager's, never ends, so \<^verbatim>\<open>stop\<close> waits for it forever.
\<close>

theorem worker_ends_drained:
  "(\<forall>s wk s' wk'. sched_act scheduler_virt t a s = Some (Inr s') \<and> sc_workers s t = Some wk \<and> wk_phase wk \<noteq> Finished \<and>
      sc_workers s' t = Some wk' \<and> wk_phase wk' = Finished \<longrightarrow> sc_stop s \<and> sc_queue s = []) \<and>
   (sched_reach \<lparr>vt_isStoping = \<lambda>_. False, vt_idle_yield = y\<rparr> Ts s \<and> sc_workers s t = Some wk \<longrightarrow> wk_phase wk \<noteq> Finished)"
proof (intro conjI allI impI)
  have ends: "vt_isStoping vt s" if "sched_act vt u a s = Some (Inr s')" "\<forall>wk. sc_workers s t = Some wk \<longrightarrow> wk_phase wk \<noteq> Finished"
      "sc_workers s' t = Some wk'" "wk_phase wk' = Finished" for vt u a s s' wk'
    using that
    by (auto simp: sched_act_def worker_act_def worker_start_def worker_enter_def worker_mark_def worker_leave_def worker_end_def worker_pick_def
        worker_after_def worker_idle_def schedule_def sched_stop_def set_worker_def Let_def rbind_eq_Inr split_beta
        split: act.splits phase.splits option.splits if_splits)
  {
    fix s wk s' wk'
    assume *: "sched_act scheduler_virt t a s = Some (Inr s') \<and> sc_workers s t = Some wk \<and> wk_phase wk \<noteq> Finished \<and>
      sc_workers s' t = Some wk' \<and> wk_phase wk' = Finished"
    then have "isStoping s" using ends [of scheduler_virt t a s s' wk'] by (auto simp: scheduler_virt_def)
    then show "sc_stop s" "sc_queue s = []" by (simp_all add: isStoping_def)
  }
  {
    assume *: "sched_reach \<lparr>vt_isStoping = \<lambda>_. False, vt_idle_yield = y\<rparr> Ts s \<and> sc_workers s t = Some wk"
    then have "sched_reach \<lparr>vt_isStoping = \<lambda>_. False, vt_idle_yield = y\<rparr> Ts s" by simp
    then have "\<forall>wk. sc_workers s t = Some wk \<longrightarrow> wk_phase wk \<noteq> Finished"
    proof (induction rule: sched_reach.induct)
      case (step s u a s')
      then show ?case using ends [OF step.hyps(3) step.IH] by auto
    qed (simp add: new_Scheduler_def)
    then show "wk_phase wk \<noteq> Finished" using * by blast
  }
qed

definition stopped_acts :: "(int \<times> nat act) list" where
  "stopped_acts = [(1, AStart), (1, APick), (1, AEnter), (1, AAfter), (1, AStop)]"

lemma worker_ends_drained_witness:
  "\<exists>s s'. sched_exec scheduler_virt stopped_acts new_Scheduler = Some (Inr s) \<and> sched_act scheduler_virt 1 AIdle s = Some (Inr s') \<and>
     map_option wk_phase (sc_workers s' 1) = Some Finished \<and> sc_stop s \<and> sc_queue s = []"
proof -
  have "case sched_exec scheduler_virt stopped_acts new_Scheduler of Some (Inr s) \<Rightarrow> map_option wk_phase (sc_workers s 1) = Some InIdle | _ \<Rightarrow> False"
    and act: "case sched_exec scheduler_virt (stopped_acts @ [(1, AIdle)]) new_Scheduler of
        Some (Inr s') \<Rightarrow> map_option wk_phase (sc_workers s' 1) = Some Finished | _ \<Rightarrow> False"
    by code_simp+
  then obtain s wk where s: "sched_exec scheduler_virt stopped_acts new_Scheduler = Some (Inr s)" "sc_workers s 1 = Some wk" "wk_phase wk = InIdle"
    by (auto split: option.splits sum.splits)
  have "sched_exec scheduler_virt (as @ [(1, AIdle)]) u = sched_exec scheduler_virt [(1, AIdle)] s"
    if "sched_exec scheduler_virt as u = Some (Inr s)" for as u
    using that by (induction as arbitrary: u) (auto split: option.splits sum.splits)
  with s(1) act obtain s' wk' where s': "sched_act scheduler_virt 1 AIdle s = Some (Inr s')" "sc_workers s' 1 = Some wk'" "wk_phase wk' = Finished"
    by (auto split: option.splits sum.splits)
  moreover have "wk_phase wk \<noteq> Finished" using s by simp
  ultimately have "sc_stop s \<and> sc_queue s = []" using s worker_ends_drained [of 1 AIdle, THEN conjunct1] by blast
  then show ?thesis using s s' by auto
qed

end
