(* ===== verification/FiberSemaphore.thy ===== *)
theory FiberSemaphore imports Scheduler begin

text \<open>
  The semaphore for fibers (\<^verbatim>\<open>seaice/mutex.h\<close>, \<^verbatim>\<open>mutex.cpp\<close>): a counter and the queue of the waiting
  fibers, which \<^verbatim>\<open>notify\<close> hands to the scheduler. Each operation runs under the semaphore's spin lock; the yield of a
  waiter comes after it.
\<close>

record fiber_sem =
  fs_num :: nat
  fs_list :: "nat list"

definition new_FiberSemaphore :: "nat \<Rightarrow> fiber_sem" where
  "new_FiberSemaphore num = \<lparr>fs_num = num, fs_list = []\<rparr>"

text \<open>\<open>sch\<close> tells whether the process has a scheduler.\<close>

definition sem_tryWait :: "bool \<Rightarrow> fiber_sem \<Rightarrow> fault + bool \<times> fiber_sem" where
  "sem_tryWait sch fs =
     (if \<not> sch then Inl AssertFail
      else if fs_num fs > 0 then Inr (True, fs\<lparr>fs_num := fs_num fs - 1\<rparr>) else Inr (False, fs))"

text \<open>The answer is whether the calling fiber \<open>cur\<close> goes on to yield.\<close>

definition sem_wait :: "bool \<Rightarrow> nat \<Rightarrow> fiber_sem \<Rightarrow> fault + bool \<times> fiber_sem" where
  "sem_wait sch cur fs =
     (if \<not> sch then Inl AssertFail
      else if fs_num fs > 0 then Inr (False, fs\<lparr>fs_num := fs_num fs - 1\<rparr>)
      else Inr (True, fs\<lparr>fs_list := fs_list fs @ [cur]\<rparr>))"

definition sem_notify :: "fiber_sem \<Rightarrow> 'cb sched \<Rightarrow> fiber_sem \<times> 'cb sched" where
  "sem_notify fs s =
     (case fs_list fs of
        f # fl \<Rightarrow> (fs\<lparr>fs_list := fl\<rparr>, snd (schedule \<lparr>tk_fiber = Some f, tk_cb = None, tk_thread = - 1\<rparr> s))
      | [] \<Rightarrow> (fs\<lparr>fs_num := Suc (fs_num fs)\<rparr>, s))"

section \<open>Histories\<close>

datatype sem_op = Wait nat | TryWait nat | Notify

text \<open>
  A history with a record of it: the fibers that passed, at once or woken by a notification, in
  the order in which they did, and the number of notifications.
\<close>

record sem_run =
  sr_sem :: fiber_sem
  sr_sched :: "nat sched"
  sr_passed :: "nat list"
  sr_notified :: nat

fun sem_step :: "sem_op \<Rightarrow> sem_run \<Rightarrow> fault + sem_run" where
  "sem_step (Wait f) r =
     rbind (sem_wait True f (sr_sem r)) (\<lambda>(yields, fs).
       Inr (r\<lparr>sr_sem := fs, sr_passed := (if yields then sr_passed r else sr_passed r @ [f])\<rparr>))"
| "sem_step (TryWait f) r =
     rbind (sem_tryWait True (sr_sem r)) (\<lambda>(ok, fs).
       Inr (r\<lparr>sr_sem := fs, sr_passed := (if ok then sr_passed r @ [f] else sr_passed r)\<rparr>))"
| "sem_step Notify r =
     (let (fs, s) = sem_notify (sr_sem r) (sr_sched r) in
      Inr (r\<lparr>sr_sem := fs, sr_sched := s, sr_notified := Suc (sr_notified r),
             sr_passed := sr_passed r @ take 1 (fs_list (sr_sem r))\<rparr>))"

fun sem_exec :: "sem_op list \<Rightarrow> sem_run \<Rightarrow> fault + sem_run" where
  "sem_exec [] r = Inr r"
| "sem_exec (op # ops) r = rbind (sem_step op r) (sem_exec ops)"

definition sem_start :: "nat \<Rightarrow> sem_run" where
  "sem_start n = \<lparr>sr_sem = new_FiberSemaphore n, sr_sched = new_Scheduler, sr_passed = [], sr_notified = 0\<rparr>"

fun waits :: "sem_op list \<Rightarrow> nat list" where
  "waits [] = []"
| "waits (Wait f # ops) = f # waits ops"
| "waits (op # ops) = waits ops"

definition sem_inv :: "nat \<Rightarrow> sem_run \<Rightarrow> bool" where
  "sem_inv n r \<longleftrightarrow>
     (fs_num (sr_sem r) > 0 \<longrightarrow> fs_list (sr_sem r) = []) \<and>
     length (sr_passed r) + fs_num (sr_sem r) = n + sr_notified r"

lemma sem_step_inv: "sem_inv n r \<Longrightarrow> \<exists>r'. sem_step op r = Inr r' \<and> sem_inv n r'"
  by (cases op) (auto simp: sem_inv_def sem_wait_def sem_tryWait_def sem_notify_def schedule_def split: list.splits)

section \<open>Property\<close>


end
