(* ===== verification/AsyncStream.thy ===== *)
theory AsyncStream imports WebClient RockProtocol FiberSemaphore begin

text \<open>
  The stream that sends and receives on fibers of its own (\<^verbatim>\<open>seaice/async_socket_stream.cpp\<close>) and the rock protocol over it
  (\<^verbatim>\<open>seaice/rock/rockstream.cpp\<close>, \<^verbatim>\<open>rock_connection.cpp\<close>, \<^verbatim>\<open>rock_server.cpp\<close>): the queue of messages to send with its semaphore, the map of requests
  that wait for a response, and the fibers that write and read. Several functions of \<^verbatim>\<open>RockStream\<close> end without a return statement or use an iterator
  that is no longer valid; these are faults of the model.
\<close>

section \<open>Contexts\<close>

text \<open>A message to send, with the fiber to resume and its scheduler for a request; the others have neither, and no serial number.\<close>

record rock_ctx =
  rc_fiber :: "nat option"
  rc_sch :: bool
  rc_sn :: u32
  rc_req :: message

text \<open>The map of contexts may hold null pointers.\<close>

record async_stream =
  as_map :: "u32 \<Rightarrow> rock_ctx option option"
  as_list :: "rock_ctx list"
  as_sem :: fiber_sem

definition new_AsyncSocketStream :: async_stream where
  "new_AsyncSocketStream = \<lparr>as_map = Map.empty, as_list = [], as_sem = new_FiberSemaphore 0\<rparr>"

definition ctx_rsp :: "rock_ctx \<Rightarrow> 'cb sched \<Rightarrow> 'cb sched" where
  "ctx_rsp c s =
     (if rc_fiber c = None \<or> \<not> rc_sch c then s
      else snd (schedule \<lparr>tk_fiber = rc_fiber c, tk_cb = None, tk_thread = - 1\<rparr> s))"

text \<open>The two fibers of a stream that is started.\<close>

datatype async_job = RunWrite | RunRead

definition startWrite :: "bool \<Rightarrow> bool \<Rightarrow> async_job sched \<Rightarrow> fault + async_job sched" where
  "startWrite worker io_worker s =
     (if \<not> worker \<or> \<not> io_worker then Inl AssertFail
      else Inr (snd (schedule \<lparr>tk_fiber = None, tk_cb = Some RunWrite, tk_thread = - 1\<rparr> s)))"

definition startRead :: "bool \<Rightarrow> bool \<Rightarrow> async_job sched \<Rightarrow> fault + async_job sched" where
  "startRead worker io_worker s =
     (if \<not> worker \<or> \<not> io_worker then Inl AssertFail
      else Inr (snd (schedule \<lparr>tk_fiber = None, tk_cb = Some RunRead, tk_thread = - 1\<rparr> s)))"

definition as_start :: "bool \<Rightarrow> bool \<Rightarrow> async_job sched \<Rightarrow> fault + async_job sched" where
  "as_start worker io_worker s = rbind (startWrite worker io_worker s) (startRead worker io_worker)"

section \<open>The queue and the map\<close>

text \<open>The notification comes after the lock of the queue was given up.\<close>

definition push_ctx :: "rock_ctx \<Rightarrow> async_stream \<Rightarrow> async_stream" where
  "push_ctx c a = a\<lparr>as_list := as_list a @ [c]\<rparr>"

definition notify_writer :: "async_stream \<Rightarrow> 'cb sched \<Rightarrow> async_stream \<times> 'cb sched" where
  "notify_writer a s = (case sem_notify (as_sem a) s of (fs, s) \<Rightarrow> (a\<lparr>as_sem := fs\<rparr>, s))"

definition enqueue :: "rock_ctx \<Rightarrow> async_stream \<Rightarrow> 'cb sched \<Rightarrow> async_stream \<times> 'cb sched" where
  "enqueue c a s = notify_writer (push_ctx c a) s"

text \<open>\<^verbatim>\<open>insert\<close> keeps what is there under the number, also a null pointer.\<close>

definition addCtx :: "rock_ctx \<Rightarrow> async_stream \<Rightarrow> async_stream" where
  "addCtx c a = (if as_map a (rc_sn c) \<noteq> None then a else a\<lparr>as_map := (as_map a)(rc_sn c \<mapsto> Some c)\<rparr>)"

text \<open>\<^verbatim>\<open>m[sn]\<close> puts a null pointer where nothing is.\<close>

definition getCtx :: "u32 \<Rightarrow> async_stream \<Rightarrow> rock_ctx option \<times> async_stream" where
  "getCtx sn a =
     (case as_map a sn of
        Some c \<Rightarrow> (c, a)
      | None \<Rightarrow> (None, a\<lparr>as_map := (as_map a)(sn \<mapsto> None)\<rparr>))"

text \<open>
  The context is read through the iterator after the entry was erased, or through the end of the map when there is none. \<open>erase_ctx\<close> is what happens to
  the map before that.
\<close>

definition erase_ctx :: "u32 \<Rightarrow> async_stream \<Rightarrow> async_stream" where
  "erase_ctx sn a = (if as_map a sn \<noteq> None then a\<lparr>as_map := (as_map a)(sn := None)\<rparr> else a)"

definition getAndDelCtx :: "u32 \<Rightarrow> async_stream \<Rightarrow> fault + (rock_ctx option \<times> async_stream)" where
  "getAndDelCtx sn a =
     (let a = erase_ctx sn a in
      case as_map a sn of None \<Rightarrow> Inl OutOfBounds | Some c \<Rightarrow> Inr (c, a))"

section \<open>Messages\<close>

text \<open>A function that returns a value and ends without a return statement.\<close>

definition sendMessage :: "message \<Rightarrow> u32 \<Rightarrow> async_stream \<Rightarrow> 'cb sched \<Rightarrow> (fault + bool) \<times> async_stream \<times> 'cb sched" where
  "sendMessage msg sn0 a s = (Inl NoReturn, enqueue \<lparr>rc_fiber = None, rc_sch = False, rc_sn = sn0, rc_req = msg\<rparr> a s)"

text \<open>A request up to its yield, and what it returns when its fiber is resumed.\<close>

definition request_context :: "nat \<Rightarrow> message \<Rightarrow> rock_ctx" where
  "request_context cur req = \<lparr>rc_fiber = Some cur, rc_sch = True, rc_sn = msg_sn req, rc_req = req\<rparr>"

definition request_begin :: "nat \<Rightarrow> message \<Rightarrow> async_stream \<Rightarrow> 'cb sched \<Rightarrow> async_stream \<times> 'cb sched" where
  "request_begin cur req a s = (let c = request_context cur req in enqueue c (addCtx c a) s)"

definition request_end :: "nat \<Rightarrow> message \<Rightarrow> async_stream \<Rightarrow> rock_ctx option \<times> async_stream" where
  "request_end cur req a =
     (case getCtx (msg_sn req) a of (rsp, a) \<Rightarrow> (if rsp = None then None else Some (request_context cur req), a))"

text \<open>The writer sends a context; its answer is only logged.\<close>

definition doSend :: "('s, 'z) rock_env \<Rightarrow> rock_ctx \<Rightarrow> 's \<Rightarrow> (fault + (int \<times> 's)) option" where
  "doSend env c s = serializeTo env (rc_req c) s"

fun send_all :: "('s, 'z) rock_env \<Rightarrow> rock_ctx list \<Rightarrow> 's \<Rightarrow> (fault + 's) option" where
  "send_all env [] s = Some (Inr s)"
| "send_all env (c # cs) s =
     (case doSend env c s of
        None \<Rightarrow> None
      | Some (Inl e) \<Rightarrow> Some (Inl e)
      | Some (Inr (rt, s)) \<Rightarrow> send_all env cs s)"

text \<open>
  What one message does to the stream, before the end of the function is reached: the handler answers a request, a response takes its context, a
  notification goes to its handler. The handlers may be empty functions, whose call throws. The new response has the fields of its constructor.
\<close>

type_synonym request_handler = "message \<Rightarrow> message \<Rightarrow> message"

definition handle_message ::
  "request_handler option \<Rightarrow> (message \<Rightarrow> unit) option \<Rightarrow> u32 \<Rightarrow> message \<Rightarrow> async_stream \<Rightarrow> 'cb sched \<Rightarrow> fault + (async_stream \<times> 'cb sched)" where
  "handle_message req_h nty_h sn0 msg a s =
     (case msg of
        RockRequest sn cmd body \<Rightarrow>
          (case req_h of
             None \<Rightarrow> Inl LogicError
           | Some h \<Rightarrow>
               (case sendMessage (h msg (RockResponse sn 0 0 (bytes_of ''rsp'') [])) sn0 a s of
                  (Inl e, a, s) \<Rightarrow> Inl e
                | (Inr _, a, s) \<Rightarrow> Inr (a, s)))
      | RockResponse sn cmd result rstr body \<Rightarrow> rbind (getAndDelCtx sn a) (\<lambda>(c, a). Inr (a, s))
      | RockNotify n body \<Rightarrow> (case nty_h of None \<Rightarrow> Inl LogicError | Some h \<Rightarrow> Inr (a, s)))"

text \<open>The end of \<^verbatim>\<open>doRecv\<close>: after a message of one of the three kinds there is no return statement.\<close>

definition doRecv ::
  "('s, 'z) rock_env \<Rightarrow> request_handler option \<Rightarrow> (message \<Rightarrow> unit) option \<Rightarrow> u32 \<Rightarrow> async_stream \<Rightarrow> 'cb sched \<Rightarrow> 's \<Rightarrow>
   (fault + (rock_ctx option \<times> async_stream \<times> 'cb sched \<times> 's)) option" where
  "doRecv env req_h nty_h sn0 a sch s =
     (case parseFrom env s of
        None \<Rightarrow> None
      | Some (Inl e) \<Rightarrow> Some (Inl e)
      | Some (Inr (None, s)) \<Rightarrow> Some (Inr (None, a, sch, SocketStream_close (r_sock env) s))
      | Some (Inr (Some msg, s)) \<Rightarrow>
          Some (rbind (handle_message req_h nty_h sn0 msg a sch) (\<lambda>_. Inl NoReturn)))"

partial_function (option) runRead ::
  "('s, 'z) rock_env \<Rightarrow> request_handler option \<Rightarrow> (message \<Rightarrow> unit) option \<Rightarrow> u32 \<Rightarrow> async_stream \<Rightarrow> 'cb sched \<Rightarrow> 's \<Rightarrow>
   (fault + (async_stream \<times> 'cb sched \<times> 's)) option" where
  "runRead env req_h nty_h sn0 a sch s =
     (if \<not> op_connected (r_sock env) s then Some (Inr (a, sch, s))
      else
        (case doRecv env req_h nty_h sn0 a sch s of
           None \<Rightarrow> None
         | Some (Inl e) \<Rightarrow> Some (Inl e)
         | Some (Inr (ctx, a, sch, s)) \<Rightarrow>
             runRead env req_h nty_h sn0 a (case ctx of Some c \<Rightarrow> ctx_rsp c sch | None \<Rightarrow> sch) s))"

declare runRead.simps [code]

section \<open>Connections and servers\<close>

text \<open>The stream over a socket that was connected; \<open>parse\<close> is the generated parser of URIs with the address of what it returns.\<close>

definition RockConnection_Create ::
  "(string \<Rightarrow> address option option) \<Rightarrow> 's net \<Rightarrow> string \<Rightarrow> u64 \<Rightarrow> 's \<Rightarrow> fault + (socket option \<times> 's)" where
  "RockConnection_Create parse net url timeout_ms s =
     (case parse url of
        None \<Rightarrow> Inr (None, s)
      | Some None \<Rightarrow> Inl NullDeref
      | Some (Some a) \<Rightarrow>
          (case sk_connect net a (- 1) (CreateTCP a) s of
             (ok, sk, s) \<Rightarrow>
               if \<not> ok then (case sk_close net sk s of (_, sk, s) \<Rightarrow> Inr (None, sk_destroy net sk s))
               else Inr (Some sk, setRecvTimeout net timeout_ms sk s)))"

text \<open>The handlers of the rock server, and its session, which is started at once.\<close>

definition rock_on_request :: request_handler where
  "rock_on_request req rsp =
     (case rsp of RockResponse sn cmd result rstr body \<Rightarrow> RockResponse sn cmd result rstr (bytes_of ''setBody: seaice'') | _ \<Rightarrow> rsp)"

definition rock_handleClient :: "bool \<Rightarrow> bool \<Rightarrow> async_job sched \<Rightarrow> fault + (async_stream \<times> async_job sched)" where
  "rock_handleClient worker io_worker s =
     rbind (as_start worker io_worker s) (\<lambda>s. Inr (new_AsyncSocketStream, s))"

section \<open>The writer\<close>

text \<open>
  Where the fiber that writes is: before the test of the loop, waiting for the semaphore, before it takes the queue, sending what it took, or at its end.
\<close>

datatype writer_phase = Testing | Waiting | Swapping | Sending "rock_ctx list" | Ended

text \<open>
  A history of the stream: \<open>wr_pend\<close> calls of \<open>enqueue\<close> have put their context in the queue and not notified yet; the contexts that were put there and those
  that were sent are recorded.
\<close>

record writer_run =
  wr_stream :: async_stream
  wr_sched :: "nat sched"
  wr_phase :: writer_phase
  wr_pend :: nat
  wr_conn :: bool
  wr_pushed :: "rock_ctx list"
  wr_sent :: "rock_ctx list"

definition writer_start :: "nat sched \<Rightarrow> writer_run" where
  "writer_start s =
     \<lparr>wr_stream = new_AsyncSocketStream, wr_sched = s, wr_phase = Testing, wr_pend = 0, wr_conn = True, wr_pushed = [], wr_sent = []\<rparr>"

text \<open>The steps of \<open>runWrite\<close> on the fiber \<open>f\<close>. It leaves the semaphore at once or is put in its queue.\<close>

inductive write_step :: "nat \<Rightarrow> writer_run \<Rightarrow> writer_run \<Rightarrow> bool" for f where
  write_wait: "wr_phase r = Testing \<Longrightarrow> wr_conn r \<Longrightarrow> sem_wait True f (as_sem (wr_stream r)) = Inr (yields, fs) \<Longrightarrow>
     write_step f r (r\<lparr>wr_stream := (wr_stream r)\<lparr>as_sem := fs\<rparr>, wr_phase := (if yields then Waiting else Swapping)\<rparr>)"
| write_end: "wr_phase r = Testing \<Longrightarrow> \<not> wr_conn r \<Longrightarrow> write_step f r (r\<lparr>wr_phase := Ended\<rparr>)"
| write_swap: "wr_phase r = Swapping \<Longrightarrow>
     write_step f r (r\<lparr>wr_stream := (wr_stream r)\<lparr>as_list := []\<rparr>, wr_phase := Sending (as_list (wr_stream r))\<rparr>)"
| write_send: "wr_phase r = Sending (c # cs) \<Longrightarrow> write_step f r (r\<lparr>wr_phase := Sending cs, wr_sent := wr_sent r @ [c]\<rparr>)"
| write_loop: "wr_phase r = Sending [] \<Longrightarrow> write_step f r (r\<lparr>wr_phase := Testing\<rparr>)"

text \<open>What the others do meanwhile. A notification that takes the writer out of the queue of the semaphore resumes it.\<close>

inductive async_step :: "nat \<Rightarrow> writer_run \<Rightarrow> writer_run \<Rightarrow> bool" for f where
  writer: "write_step f r r' \<Longrightarrow> async_step f r r'"
| push: "async_step f r (r\<lparr>wr_stream := push_ctx c (wr_stream r), wr_pend := Suc (wr_pend r), wr_pushed := wr_pushed r @ [c]\<rparr>)"
| notify: "wr_pend r > 0 \<Longrightarrow> notify_writer (wr_stream r) (wr_sched r) = (a, s) \<Longrightarrow>
     async_step f r (r\<lparr>wr_stream := a, wr_sched := s, wr_pend := wr_pend r - 1,
       wr_phase := (if fs_list (as_sem (wr_stream r)) \<noteq> [] then Swapping else wr_phase r)\<rparr>)"
| disconnect: "async_step f r (r\<lparr>wr_conn := False\<rparr>)"

primrec sending :: "writer_phase \<Rightarrow> rock_ctx list" where
  "sending Testing = []"
| "sending Waiting = []"
| "sending Swapping = []"
| "sending (Sending cs) = cs"
| "sending Ended = []"

text \<open>Nothing is lost or changes its place, and a queue that is not empty has somebody who will look at it.\<close>

definition writer_inv :: "nat \<Rightarrow> writer_run \<Rightarrow> bool" where
  "writer_inv f r \<longleftrightarrow>
     wr_pushed r = wr_sent r @ sending (wr_phase r) @ as_list (wr_stream r) \<and>
     fs_list (as_sem (wr_stream r)) = (if wr_phase r = Waiting then [f] else []) \<and>
     (wr_phase r = Waiting \<longrightarrow> fs_num (as_sem (wr_stream r)) = 0) \<and>
     (as_list (wr_stream r) \<noteq> [] \<longrightarrow> wr_pend r > 0 \<or> fs_num (as_sem (wr_stream r)) > 0 \<or> wr_phase r = Swapping)"

lemma write_step_inv: "write_step f r r' \<Longrightarrow> writer_inv f r \<Longrightarrow> writer_inv f r'"
  by (cases rule: write_step.cases) (auto simp: writer_inv_def sem_wait_def split: if_splits)

lemma async_step_inv:
  assumes "async_step f r r'" "writer_inv f r"
  shows "writer_inv f r'"
  using assms(1)
proof cases
  case writer
  then show ?thesis using write_step_inv assms(2) by blast
next
  case (push c)
  then show ?thesis using assms(2) by (simp add: writer_inv_def push_ctx_def)
next
  case (notify a s)
  then show ?thesis using assms(2) by (cases "wr_phase r") (auto simp: writer_inv_def notify_writer_def sem_notify_def Let_def)
next
  case disconnect
  then show ?thesis using assms(2) by (simp add: writer_inv_def)
qed

text \<open>The steps that the writer has left when nobody else does anything.\<close>

definition writer_left :: "writer_run \<Rightarrow> nat" where
  "writer_left r =
     3 * fs_num (as_sem (wr_stream r)) + length (as_list (wr_stream r)) +
     (case wr_phase r of Testing \<Rightarrow> 1 | Waiting \<Rightarrow> 0 | Swapping \<Rightarrow> 3 | Sending cs \<Rightarrow> length cs + 2 | Ended \<Rightarrow> 0)"

lemma write_step_left:
  assumes "write_step f r r'"
  shows "writer_left r' < writer_left r \<and> wr_pushed r' = wr_pushed r \<and> wr_pend r' = wr_pend r \<and> wr_conn r' = wr_conn r \<and>
    (wr_conn r \<and> wr_phase r \<noteq> Ended \<longrightarrow> wr_phase r' \<noteq> Ended)"
  using assms by cases (auto simp: writer_left_def sem_wait_def split: if_splits)

lemma write_steps_left:
  assumes "(write_step f ^^ n) r r'" "writer_inv f r"
  shows "writer_inv f r' \<and> n + writer_left r' \<le> writer_left r \<and> wr_pushed r' = wr_pushed r \<and> wr_pend r' = wr_pend r \<and> wr_conn r' = wr_conn r \<and>
    (wr_conn r \<and> wr_phase r \<noteq> Ended \<longrightarrow> wr_phase r' \<noteq> Ended)"
  using assms(1)
proof (induction n arbitrary: r')
  case 0
  then show ?case using assms(2) by simp
next
  case (Suc n)
  then obtain r1 where 1: "(write_step f ^^ n) r r1" "write_step f r1 r'" by auto
  show ?case using Suc.IH [OF 1(1)] write_step_left [OF 1(2)] write_step_inv [OF 1(2)] by auto
qed

lemma writer_stuck:
  assumes "\<nexists>r'. write_step f r r'"
  shows "wr_phase r = Waiting \<or> wr_phase r = Ended"
proof (cases "wr_phase r")
  case Testing
  show ?thesis
  proof (cases "wr_conn r")
    case True
    have "\<exists>yields fs. sem_wait True f (as_sem (wr_stream r)) = Inr (yields, fs)"
      by (cases "fs_num (as_sem (wr_stream r)) > 0") (auto simp: sem_wait_def)
    then show ?thesis using assms write_wait [OF Testing True] by blast
  next
    case False
    then show ?thesis using assms write_end [OF Testing] by blast
  qed
next
  case (Sending cs)
  then show ?thesis using assms write_send write_loop by (cases cs) blast+
qed (use assms write_swap in blast)+

lemma async_reach_inv: "(async_step f)\<^sup>*\<^sup>* (writer_start s) r \<Longrightarrow> writer_inv f r"
proof (induction rule: rtranclp_induct)
  case base
  then show ?case by (simp add: writer_inv_def writer_start_def new_AsyncSocketStream_def new_FiberSemaphore_def)
qed (rule async_step_inv)



section \<open>Responses\<close>

lemma getAndDelCtx_fault: "getAndDelCtx sn a = Inl OutOfBounds"
  by (simp add: getAndDelCtx_def erase_ctx_def Let_def)

lemma doRecv_Inr:
  assumes "doRecv env req_h nty_h sn0 a sch s = Some (Inr (c, a', sch', s'))"
  shows "c = None \<and> a' = a \<and> sch' = sch"
  using assms by (auto simp: doRecv_def rbind_def split: option.splits sum.splits prod.splits)

lemma runRead_keeps:
  assumes "runRead env req_h nty_h sn0 a sch s = Some r"
  shows "case r of Inl e \<Rightarrow> True | Inr (a', sch', s') \<Rightarrow> a' = a \<and> sch' = sch \<and> \<not> op_connected (r_sock env) s'"
proof (rule runRead.raw_induct [where P = "\<lambda>env req_h nty_h sn0 a sch s r.
    case r of Inl e \<Rightarrow> True | Inr (a', sch', s') \<Rightarrow> a' = a \<and> sch' = sch \<and> \<not> op_connected (r_sock env) s'", OF _ assms, rule_format], goal_cases)
  case (1 loop env req_h nty_h sn0 a sch s r)
  show ?case
  proof (cases "op_connected (r_sock env) s")
    case False
    then show ?thesis using 1(2) by auto
  next
    case True
    then obtain d where d: "doRecv env req_h nty_h sn0 a sch s = Some d" using 1(2) by (auto split: option.splits)
    show ?thesis
    proof (cases d)
      case (Inl e)
      then show ?thesis using 1(2) True d by auto
    next
      case (Inr p)
      obtain c a1 sch1 s1 where p: "p = (c, a1, sch1, s1)" by (metis prod_cases4)
      have "c = None" "a1 = a" "sch1 = sch" using doRecv_Inr [of env req_h nty_h sn0 a sch s c a1 sch1 s1] d Inr p by simp_all
      then have "loop env req_h nty_h sn0 a sch s1 = Some r" using 1(2) True d Inr p by simp
      then show ?thesis using 1(1) by blast
    qed
  qed
qed


text \<open>
  A request that is answered fails. \<open>request\<close> registers its context, queues it and yields. Even if the iterator in \<open>getAndDelCtx\<close> did no harm, the answer would
  take the context out of the map before the fiber is resumed, which then looks for it there, finds nothing, reports an error and leaves a null pointer
  under the number: no later request with that number is registered. A fiber that is resumed without an answer reports success.
\<close>

theorem rock_request_result:
  assumes "as_map a (msg_sn req) = None" and "request_begin cur req a s = (a1, s1)" and "request_end cur req (erase_ctx (msg_sn req) a1) = (r, a2)"
  shows "as_map a1 (msg_sn req) = Some (Some (request_context cur req)) \<and> as_list a1 = as_list a @ [request_context cur req] \<and>
    fst (request_end cur req a1) = Some (request_context cur req) \<and>
    r = None \<and> as_map a2 (msg_sn req) = Some None \<and>
    (\<forall>cur' cmd body. as_map (fst (request_begin cur' (RockRequest (msg_sn req) cmd body) a2 s1)) (msg_sn req) = Some None)"
proof -
  have q: "as_map (fst (notify_writer b s)) = as_map b \<and> as_list (fst (notify_writer b s)) = as_list b" for b and s :: "'a sched"
    by (simp add: notify_writer_def split: prod.split)
  have "a1 = fst (request_begin cur req a s)" using assms(2) by simp
  then have a1: "as_map a1 = (as_map a)(msg_sn req \<mapsto> Some (request_context cur req))" "as_list a1 = as_list a @ [request_context cur req]"
    using q assms(1) by (simp_all add: request_begin_def enqueue_def push_ctx_def addCtx_def request_context_def Let_def)
  have e: "as_map (erase_ctx (msg_sn req) a1) (msg_sn req) = None" by (simp add: erase_ctx_def)
  have r: "r = None" "as_map a2 (msg_sn req) = Some None"
    using assms(3) e by (auto simp: request_end_def getCtx_def)
  have "as_map (fst (request_begin cur' (RockRequest (msg_sn req) cmd body) a2 s1)) (msg_sn req) = Some None" for cur' cmd body
    using q r(2) by (simp add: request_begin_def enqueue_def push_ctx_def addCtx_def request_context_def Let_def)
  then show ?thesis using a1 r by (simp add: request_end_def getCtx_def)
qed

theorem rock_connection_descriptor:
  assumes "net_contract net opened" "1 \<in> opened s" "RockConnection_Create parse net url t s = Inr (c, s')"
  shows "case c of None \<Rightarrow> opened s' = opened s | Some sk \<Rightarrow> opened s' = opened s \<union> owned sk \<and> owned sk \<inter> opened s = {}"
proof (cases "\<exists>a. parse url = Some (Some a)")
  case False
  then show ?thesis using assms(3) by (auto simp: RockConnection_Create_def split: option.splits)
next
  case True
  then obtain a where a: "parse url = Some (Some a)" by blast
  obtain ok sk s1 where 1: "sk_connect net a (- 1) (CreateTCP a) s = (ok, sk, s1)" by (metis prod_cases3)
  obtain rt sk2 s2 where 2: "sk_close net sk s1 = (rt, sk2, s2)" by (metis prod_cases3)
  note o = client_connects [OF assms(1) 1]
  show ?thesis
  proof (cases ok)
    case True
    then show ?thesis using assms(3) a 1 o(2) by (auto simp: RockConnection_Create_def owns_def)
  next
    case False
    then show ?thesis using assms(3) a 1 2 opened_destroy [OF assms(1) conjunct1 [OF owns_close [OF assms(1) o(1) 2]] assms(2)]
      by (auto simp: RockConnection_Create_def)
  qed
qed

theorem rock_request_result_witness:
  "let req = RockRequest 5 100 []; a1 = fst (request_begin 7 req new_AsyncSocketStream (new_Scheduler :: nat sched)) in
   fst (request_end 7 req a1) = Some (request_context 7 req) \<and> fst (request_end 7 req (erase_ctx 5 a1)) = None"
proof -
  let ?req = "RockRequest 5 100 []"
  obtain a1 s1 where 1: "request_begin 7 ?req new_AsyncSocketStream (new_Scheduler :: nat sched) = (a1, s1)" by fastforce
  obtain r a2 where 2: "request_end 7 ?req (erase_ctx (msg_sn ?req) a1) = (r, a2)" by fastforce
  have "as_map new_AsyncSocketStream (msg_sn ?req) = None" by (simp add: new_AsyncSocketStream_def)
  from rock_request_result [OF this 1 2] show ?thesis using 1 2 by (simp add: Let_def)
qed

lemma toy_notify: "parseFrom (toy_env 4096) ([0xab, 0xcd, 1, 0, 0, 0, 0, 5, 3, 7, 2, 1, 2], []) = Some (Inr (Some (RockNotify 7 [1, 2]), ([], [])))"
  by code_simp


end
