(* ===== verification/Uri.thy ===== *)
theory Uri imports HttpConnection Address Log begin

text \<open>
  URIs (\<^verbatim>\<open>seaice/uri.h\<close>, \<^verbatim>\<open>seaice/uri.cpp\<close>): the fields, the port, the text and the address of a URI. The parser itself is a state machine
  generated by Ragel and is not modelled; its result is a value of the record.
\<close>

record uri =
  uri_scheme :: string
  uri_userinfo :: string
  uri_host :: string
  uri_path :: string
  uri_query :: string
  uri_fragment :: string
  uri_port :: int

definition new_Uri :: uri where
  "new_Uri = \<lparr>uri_scheme = [], uri_userinfo = [], uri_host = [], uri_path = [], uri_query = [], uri_fragment = [], uri_port = 0\<rparr>"

definition isDefaultPort :: "uri \<Rightarrow> bool" where
  "isDefaultPort u =
     (if uri_port u = 0 then True
      else if uri_scheme u = ''http'' \<or> uri_scheme u = ''ws'' then uri_port u = 80
      else if uri_scheme u = ''https'' \<or> uri_scheme u = ''wss'' then uri_port u = 443
      else False)"

definition uri_getPath :: "uri \<Rightarrow> string" where
  "uri_getPath u = (if uri_path u = [] then ''/'' else uri_path u)"

definition uri_getPort :: "uri \<Rightarrow> int" where
  "uri_getPort u =
     (if uri_port u \<noteq> 0 then uri_port u
      else if uri_scheme u = ''http'' \<or> uri_scheme u = ''ws'' then 80
      else if uri_scheme u = ''https'' \<or> uri_scheme u = ''wss'' then 443
      else uri_port u)"

definition uri_dump :: "uri \<Rightarrow> string" where
  "uri_dump u =
     uri_scheme u @ ''://'' @ uri_userinfo u @ (if uri_userinfo u = [] then [] else ''@'') @ uri_host u @
     (if isDefaultPort u then [] else '':'' @ show_int (uri_port u)) @ uri_getPath u @
     (if uri_query u = [] then [] else ''?'') @ uri_query u @ (if uri_fragment u = [] then [] else ''#'') @ uri_fragment u"

text \<open>The port is cut to 16 bits by the call that sets it.\<close>

definition createAddress :: "(string \<Rightarrow> string option \<Rightarrow> byte list list option) \<Rightarrow> uri \<Rightarrow> fault + address option" where
  "createAddress gai u =
     rbind (LookupAnyIPAddress gai (uri_host u)) (\<lambda>addr. Inr (map_option (setPort (word_of_int (uri_getPort u))) addr))"

text \<open>What a request takes from a URI.\<close>

definition parts_of :: "uri \<Rightarrow> uri_parts" where
  "parts_of u = \<lparr>u_path = uri_getPath u, u_query = uri_query u, u_fragment = uri_fragment u, u_host = uri_host u\<rparr>"

section \<open>Reading a URI back\<close>

text \<open>The splitting of appendix B of RFC 3986, with the authority split into user, host and port.\<close>

definition until :: "string \<Rightarrow> string \<Rightarrow> string" where "until stops s = takeWhile (\<lambda>c. c \<notin> set stops) s"
definition behind :: "string \<Rightarrow> string \<Rightarrow> string" where "behind stops s = dropWhile (\<lambda>c. c \<notin> set stops) s"

definition rfc3986_authority :: "string \<Rightarrow> string \<times> string \<times> int" where
  "rfc3986_authority a =
     (let user = (if CHR ''@'' \<in> set a then until ''@'' a else []);
          hp = (if CHR ''@'' \<in> set a then tl (behind ''@'' a) else a);
          port = tl (behind '':'' hp)
      in (user, until '':'' hp, if port = [] then 0 else the (read_int port)))"

definition rfc3986_split :: "string \<Rightarrow> uri" where
  "rfc3986_split s =
     (let scheme = until '':'' s; r = drop 3 (behind '':'' s);
          (user, host, port) = rfc3986_authority (until ''/?#'' r); r = behind ''/?#'' r;
          path = until ''?#'' r; r = behind ''?#'' r;
          query = (if r \<noteq> [] \<and> hd r = CHR ''?'' then until ''#'' (tl r) else []);
          r = (if r \<noteq> [] \<and> hd r = CHR ''?'' then behind ''#'' (tl r) else r)
      in \<lparr>uri_scheme = scheme, uri_userinfo = user, uri_host = host, uri_path = path, uri_query = query, uri_fragment = tl r, uri_port = port\<rparr>)"

definition avoids :: "string \<Rightarrow> string \<Rightarrow> bool" where "avoids s stops \<longleftrightarrow> set s \<inter> set stops = {}"

definition uri_ok :: "uri \<Rightarrow> bool" where
  "uri_ok u \<longleftrightarrow>
     avoids (uri_scheme u) '':'' \<and> avoids (uri_userinfo u) ''@/?#'' \<and> avoids (uri_host u) ''@:/?#'' \<and>
     (uri_path u = [] \<or> hd (uri_path u) = CHR ''/'') \<and> avoids (uri_path u) ''?#'' \<and> avoids (uri_query u) ''#''"

lemma until_stop: "avoids s stops \<Longrightarrow> c \<in> set stops \<Longrightarrow> until stops (s @ c # r) = s"
  and behind_stop: "avoids s stops \<Longrightarrow> c \<in> set stops \<Longrightarrow> behind stops (s @ c # r) = c # r"
  and until_end: "avoids s stops \<Longrightarrow> until stops s = s"
  and behind_end: "avoids s stops \<Longrightarrow> behind stops s = []"
  by (induction s) (auto simp: avoids_def until_def behind_def)

lemma show_int_avoids: "avoids (show_int i) ''@:/?#''"
proof -
  have d: "set (dec n) \<inter> set ''@:/?#'' = {}" for n using dec_digits [of n] by auto
  show ?thesis using d [of "nat (- i)"] d [of "nat i"] by (auto simp: show_int_def avoids_def)
qed

lemma authority_back:
  assumes "avoids user ''@''" "avoids host ''@:''"
  shows "rfc3986_authority (user @ (if user = [] then [] else ''@'') @ host @ (if d then [] else '':'' @ show_int p)) = (user, host, if d then 0 else p)"
proof -
  let ?hp = "host @ (if d then [] else '':'' @ show_int p)"
  have hp: "CHR ''@'' \<notin> set ?hp" using assms(2) show_int_avoids [of p] by (auto simp: avoids_def)
  have user: "CHR ''@'' \<notin> set user" using assms(1) by (simp add: avoids_def)
  have host: "avoids host '':''" using assms(2) by (auto simp: avoids_def)
  have ne: "show_int p \<noteq> []" using dec_nonempty by (simp add: show_int_def)
  have "until '':'' ?hp = host" "tl (behind '':'' ?hp) = (if d then [] else show_int p)"
    using until_end [OF host] behind_end [OF host] until_stop [OF host, of "CHR '':''"] behind_stop [OF host, of "CHR '':''"] by simp_all
  then have port: "until '':'' ?hp = host" "(let port = tl (behind '':'' ?hp) in if port = [] then 0 else the (read_int port)) = (if d then 0 else p)"
    using ne by (simp_all add: read_show_int)
  show ?thesis
  proof (cases "user = []")
    case True
    then show ?thesis using hp port by (simp add: rfc3986_authority_def Let_def)
  next
    case False
    have "until ''@'' (user @ CHR ''@'' # ?hp) = user" "behind ''@'' (user @ CHR ''@'' # ?hp) = CHR ''@'' # ?hp"
      using until_stop [OF assms(1), of "CHR ''@''"] behind_stop [OF assms(1), of "CHR ''@''"] by simp_all
    then show ?thesis using False port by (simp add: rfc3986_authority_def Let_def)
  qed
qed



end
