(* ===== verification/Env.thy ===== *)
theory Env imports Config begin

text \<open>
  The environment of the process (\<^verbatim>\<open>seaice/env.h\<close>, \<^verbatim>\<open>seaice/env.cpp\<close>) and the helpers on files (\<^verbatim>\<open>seaice/utils.h\<close>,
  \<^verbatim>\<open>seaice/utils.cpp\<close>): the arguments of the command line, paths, the creation of directories, the listing of files and the test of
  a pid file. The directories that exist are a list of their names; \<open>ok\<close> says which names the system would create.
\<close>

section \<open>Arguments\<close>

record env =
  env_args :: "(string \<times> string) list"
  env_helps :: "(string \<times> string) list"
  env_program :: string
  env_exe :: string
  env_cwd :: string

definition env_add :: "string \<Rightarrow> string \<Rightarrow> env \<Rightarrow> env" where
  "env_add key val e = e\<lparr>env_args := AList.update key val (env_args e)\<rparr>"

definition env_has :: "string \<Rightarrow> env \<Rightarrow> bool" where
  "env_has key e = (map_of (env_args e) key \<noteq> None)"

definition env_del :: "string \<Rightarrow> env \<Rightarrow> env" where
  "env_del key e = e\<lparr>env_args := map_erase key (env_args e)\<rparr>"

definition env_get :: "string \<Rightarrow> string \<Rightarrow> env \<Rightarrow> string" where
  "env_get key default_value e = (case map_of (env_args e) key of Some v \<Rightarrow> v | None \<Rightarrow> default_value)"

definition removeHelp :: "string \<Rightarrow> env \<Rightarrow> env" where
  "removeHelp key e = e\<lparr>env_helps := filter (\<lambda>h. fst h \<noteq> key) (env_helps e)\<rparr>"

definition addHelp :: "string \<Rightarrow> string \<Rightarrow> env \<Rightarrow> env" where
  "addHelp key desc e = (let e = removeHelp key e in e\<lparr>env_helps := env_helps e @ [(key, desc)]\<rparr>)"

definition printHelp :: "env \<Rightarrow> string" where
  "printHelp e = ''Usage: '' @ env_program e @ '' [options]'' @ [CHR 0x0A] @
     concat (map (\<lambda>(k, d). ''    -'' @ k @ '' : '' @ d @ [CHR 0x0A]) (env_helps e))"

text \<open>The loop over the arguments, with the key that waits for its value.\<close>

fun parse_args :: "string option \<Rightarrow> string list \<Rightarrow> env \<Rightarrow> bool \<times> env" where
  "parse_args now_key [] e = (True, case now_key of None \<Rightarrow> e | Some k \<Rightarrow> env_add k [] e)"
| "parse_args now_key (a # as) e =
     (if a \<noteq> [] \<and> hd a = CHR ''-'' then
        if length a > 1 then parse_args (Some (tl a)) as (case now_key of None \<Rightarrow> e | Some k \<Rightarrow> env_add k [] e)
        else (False, e)
      else case now_key of
        Some k \<Rightarrow> parse_args None as (env_add k a e)
      | None \<Rightarrow> (False, e))"

text \<open>The part of a path before its last slash, or all of it when it has none.\<close>

definition before_last_slash :: "string \<Rightarrow> string" where
  "before_last_slash s = (if CHR ''/'' \<in> set s then rev (tl (dropWhile (\<lambda>c. c \<noteq> CHR ''/'') (rev s))) else s)"

definition Env_init :: "string \<Rightarrow> string \<Rightarrow> string list \<Rightarrow> env \<Rightarrow> bool \<times> env" where
  "Env_init exe program as e =
     parse_args None as (e\<lparr>env_exe := exe, env_cwd := before_last_slash exe @ ''/'', env_program := program\<rparr>)"

definition getAbsolutePath :: "string \<Rightarrow> env \<Rightarrow> string" where
  "getAbsolutePath path e = (if path = [] then ''/'' else if hd path = CHR ''/'' then path else env_cwd e @ path)"

text \<open>\<open>work_path\<close> is the variable of the configuration, if there is one.\<close>

definition getAbsoluteWorkPath :: "string option \<Rightarrow> string \<Rightarrow> fault + string" where
  "getAbsoluteWorkPath work_path path =
     (if path = [] then Inr ''/'' else if hd path = CHR ''/'' then Inr path
      else case work_path of None \<Rightarrow> Inl NullDeref | Some w \<Rightarrow> Inr (w @ ''/'' @ path))"

definition getConfigPath :: "env \<Rightarrow> string" where
  "getConfigPath e = getAbsolutePath (env_get ''c'' ''conf'' e) e"

section \<open>Directories\<close>

text \<open>\<^verbatim>\<open>find_first_of("/", i)\<close>.\<close>

definition next_slash :: "string \<Rightarrow> nat \<Rightarrow> nat option" where
  "next_slash s i =
     (let n = length (takeWhile (\<lambda>c. c \<noteq> CHR ''/'') (drop i s)) in if i + n < length s then Some (i + n) else None)"

definition mkdir :: "(string \<Rightarrow> bool) \<Rightarrow> string \<Rightarrow> string list \<Rightarrow> bool \<times> string list" where
  "mkdir ok path dirs = (if path \<noteq> [] \<and> path \<notin> set dirs \<and> ok path then (True, path # dirs) else (False, dirs))"

text \<open>
  The loop of \<^verbatim>\<open>Mkdir\<close>: no slash is the largest number, so that the next start is 0. The first argument bounds the rounds, and \<open>None\<close>
  is a loop that has not ended within it.
\<close>

fun Mkdir_loop :: "nat \<Rightarrow> (string \<Rightarrow> bool) \<Rightarrow> string \<Rightarrow> nat \<Rightarrow> nat option \<Rightarrow> string list \<Rightarrow> (bool \<times> string list) option" where
  "Mkdir_loop 0 ok path startPos pos dirs = None"
| "Mkdir_loop (Suc n) ok path startPos pos dirs =
     (if startPos < length path then
        let folderName = (case pos of None \<Rightarrow> path | Some p \<Rightarrow> take p path);
            (made, dirs) = (if folderName \<in> set dirs then (True, dirs) else mkdir ok folderName dirs) in
        if \<not> made then Some (False, dirs)
        else
          let startPos = (case pos of None \<Rightarrow> 0 | Some p \<Rightarrow> p + 1);
              pos = (case next_slash path startPos of None \<Rightarrow> Some (length path) | Some p \<Rightarrow> Some p) in
          Mkdir_loop n ok path startPos pos dirs
      else Some (True, dirs))"

definition Mkdir :: "(string \<Rightarrow> bool) \<Rightarrow> string \<Rightarrow> string list \<Rightarrow> (bool \<times> string list) option" where
  "Mkdir ok path dirs =
     (if path = [] then Some (False, dirs)
      else
        let startPos = (if hd path = CHR ''/'' then 1 else 0) in
        Mkdir_loop (length path + 3) ok path startPos (next_slash path startPos) dirs)"

text \<open>\<^verbatim>\<open>createFileDir\<close> makes the directories of a file; the result of a failure is a second variable of the same name, and is lost.\<close>

fun createFileDir_loop :: "nat \<Rightarrow> (string \<Rightarrow> bool) \<Rightarrow> string \<Rightarrow> nat option \<Rightarrow> string list \<Rightarrow> string list option" where
  "createFileDir_loop 0 ok path pos dirs = None"
| "createFileDir_loop (Suc n) ok path pos dirs =
     (case pos of
        None \<Rightarrow> Some dirs
      | Some p \<Rightarrow>
          let (made, dirs) = (if take p path \<in> set dirs then (True, dirs) else mkdir ok (take p path) dirs) in
          if \<not> made then Some dirs else createFileDir_loop n ok path (next_slash path (p + 1)) dirs)"

definition createFileDir :: "(string \<Rightarrow> bool) \<Rightarrow> string \<Rightarrow> string list \<Rightarrow> (int \<times> string list) option" where
  "createFileDir ok path dirs =
     (if path = [] then Some (- 1, dirs)
      else if CHR ''/'' \<notin> set path then Some (0, dirs)
      else
        let startPos = (if hd path = CHR ''/'' then 1 else 0) in
        map_option (\<lambda>d. (0, d)) (createFileDir_loop (length path + 1) ok path (next_slash path startPos) dirs))"

section \<open>Files\<close>

text \<open>The entries of a directory that can be opened: directories, regular files and others; a name may be \<^verbatim>\<open>.\<close> or \<^verbatim>\<open>..\<close>.\<close>

datatype dirent = DT_DIR string "dirent list option" | DT_REG string | DT_OTHER string

fun ListAllFile :: "string \<Rightarrow> string \<Rightarrow> dirent list option \<Rightarrow> string list"
  and ListAllFile_entry :: "string \<Rightarrow> string \<Rightarrow> dirent \<Rightarrow> string list" where
  "ListAllFile path subfix None = []"
| "ListAllFile path subfix (Some []) = []"
| "ListAllFile path subfix (Some (d # ds)) = ListAllFile_entry path subfix d @ ListAllFile path subfix (Some ds)"
| "ListAllFile_entry path subfix (DT_DIR name entries) =
     (if name = ''.'' \<or> name = ''..'' then [] else ListAllFile (path @ ''/'' @ name) subfix entries)"
| "ListAllFile_entry path subfix (DT_REG filename) =
     (if subfix = [] then [path @ ''/'' @ filename]
      else if length filename < length subfix then []
      else if drop (length filename - length subfix) filename = subfix then [path @ ''/'' @ filename] else [])"
| "ListAllFile_entry path subfix (DT_OTHER name) = []"

text \<open>\<^verbatim>\<open>atoi\<close> on a line: spaces, a sign and digits, up to what is no digit.\<close>

fun atoi_digits :: "int \<Rightarrow> string \<Rightarrow> int" where
  "atoi_digits n [] = n"
| "atoi_digits n (c # s) = (let d = of_char c in if 48 \<le> d \<and> d \<le> (57 :: nat) then atoi_digits (10 * n + int (d - 48)) s else n)"

definition atoi :: "string \<Rightarrow> int" where
  "atoi s =
     (let s = dropWhile (\<lambda>c. c = CHR '' '' \<or> 9 \<le> (of_char c :: nat) \<and> (of_char c :: nat) \<le> 13) s in
      if s \<noteq> [] \<and> hd s = CHR ''-'' then - atoi_digits 0 (tl s)
      else if s \<noteq> [] \<and> hd s = CHR ''+'' then atoi_digits 0 (tl s) else atoi_digits 0 s)"

text \<open>\<open>content\<close> is the first line of the file, if there is such a file and line, and \<open>alive\<close> the processes that a signal reaches.\<close>

definition IsRunningPidfile :: "string option \<Rightarrow> (int \<Rightarrow> bool) \<Rightarrow> bool" where
  "IsRunningPidfile content alive =
     (case content of
        None \<Rightarrow> False
      | Some line \<Rightarrow> line \<noteq> [] \<and> atoi line > 1 \<and> alive (atoi line))"

text \<open>The conversion of a parameter, \<open>cast\<close>, which may fail, with a default.\<close>

definition getParamValue :: "(string \<Rightarrow> 'a option) \<Rightarrow> (string \<times> string) list \<Rightarrow> string \<Rightarrow> 'a \<Rightarrow> 'a" where
  "getParamValue cast m k d =
     (case map_of m k of None \<Rightarrow> d | Some s \<Rightarrow> case cast s of Some v \<Rightarrow> v | None \<Rightarrow> d)"

definition checkGetParamValue :: "(string \<Rightarrow> 'a option) \<Rightarrow> (string \<times> string) list \<Rightarrow> string \<Rightarrow> 'a \<Rightarrow> bool \<times> 'a" where
  "checkGetParamValue cast m k v =
     (case map_of m k of None \<Rightarrow> (False, v) | Some s \<Rightarrow> case cast s of Some v \<Rightarrow> (True, v) | None \<Rightarrow> (False, v))"

section \<open>The language of the command line\<close>

text \<open>An option with its value, if it has one.\<close>

definition option_text :: "string \<times> string option \<Rightarrow> string list" where
  "option_text opt = (case opt of (k, v) \<Rightarrow> (CHR ''-'' # k) # (case v of None \<Rightarrow> [] | Some s \<Rightarrow> [s]))"

definition wf_option :: "string \<times> string option \<Rightarrow> bool" where
  "wf_option opt = (case opt of (k, v) \<Rightarrow> k \<noteq> [] \<and> (case v of None \<Rightarrow> True | Some s \<Rightarrow> s = [] \<or> hd s \<noteq> CHR ''-''))"

definition add_option :: "string \<times> string option \<Rightarrow> env \<Rightarrow> env" where
  "add_option opt e = (case opt of (k, v) \<Rightarrow> env_add k (case v of None \<Rightarrow> [] | Some s \<Rightarrow> s) e)"

lemma option_text_simps [simp]:
  "option_text (k, None) = [CHR ''-'' # k]" "option_text (k, Some s) = [CHR ''-'' # k, s]"
  by (simp_all add: option_text_def)

lemma wf_option_simps [simp]:
  "wf_option (k, None) \<longleftrightarrow> k \<noteq> []" "wf_option (k, Some s) \<longleftrightarrow> k \<noteq> [] \<and> (s = [] \<or> hd s \<noteq> CHR ''-'')"
  by (simp_all add: wf_option_def)

lemma parse_args_options:
  assumes "\<forall>opt \<in> set opts. wf_option opt"
  shows "parse_args key (concat (map option_text opts)) e =
    (True, fold add_option opts (case key of None \<Rightarrow> e | Some k \<Rightarrow> env_add k [] e))"
  using assms
proof (induction opts arbitrary: key e)
  case (Cons opt opts)
  obtain k v where opt: "opt = (k, v)" by (cases opt)
  have "length (CHR ''-'' # k) > 1" using Cons.prems by (simp add: opt wf_option_def)
  then show ?case using Cons
    by (cases v; cases key) (auto simp: opt option_text_def wf_option_def add_option_def)
qed simp

lemma parse_args_accepts:
  "fst (parse_args None as e) \<Longrightarrow> \<exists>opts. (\<forall>opt \<in> set opts. wf_option opt) \<and> as = concat (map option_text opts)"
  "fst (parse_args (Some k) as e) \<Longrightarrow> k \<noteq> [] \<Longrightarrow>
     \<exists>v opts. wf_option (k, v) \<and> (\<forall>opt \<in> set opts. wf_option opt) \<and> (CHR ''-'' # k) # as = option_text (k, v) @ concat (map option_text opts)"
proof (induction as arbitrary: k e)
  case Nil
  {
    case 1
    show ?case by (intro exI [of _ "[]"]) simp
  next
    case 2
    then show ?case by (intro exI [of _ None] exI [of _ "[]"]) simp
  }
next
  case (Cons a as)
  {
    case 1
    then have a: "a \<noteq> []" "hd a = CHR ''-''" "length a > 1" and p: "fst (parse_args (Some (tl a)) as e)" by (auto split: if_splits)
    have e: "a = CHR ''-'' # tl a" and t: "tl a \<noteq> []" using a by (cases a; auto)+
    from Cons.IH(2) [OF p t] obtain v opts where "wf_option (tl a, v)" "\<forall>opt \<in> set opts. wf_option opt"
      "(CHR ''-'' # tl a) # as = option_text (tl a, v) @ concat (map option_text opts)" by blast
    then show ?case using e by (intro exI [of _ "(tl a, v) # opts"]) simp
  next
    case 2
    show ?case
    proof (cases "a \<noteq> [] \<and> hd a = CHR ''-''")
      case True
      then have p: "fst (parse_args (Some (tl a)) as (env_add k [] e))" and l: "length a > 1" using 2 by (auto split: if_splits)
      have e: "a = CHR ''-'' # tl a" and t: "tl a \<noteq> []" using True l by (cases a; auto)+
      from Cons.IH(2) [OF p t] obtain v opts where "wf_option (tl a, v)" "\<forall>opt \<in> set opts. wf_option opt"
        "(CHR ''-'' # tl a) # as = option_text (tl a, v) @ concat (map option_text opts)" by blast
      then show ?thesis using e 2(2) by (intro exI [of _ None] exI [of _ "(tl a, v) # opts"]) simp
    next
      case False
      then have "fst (parse_args None as (env_add k a e))" using 2(1) by (auto split: if_splits)
      from Cons.IH(1) [OF this] obtain opts where "\<forall>opt \<in> set opts. wf_option opt" "as = concat (map option_text opts)" by blast
      then show ?thesis using False 2(2) by (intro exI [of _ "Some a"] exI [of _ opts]) auto
    qed
  }
qed

text \<open>
  The language of the command line. The arguments are accepted exactly when they are a sequence of options, each a name
  behind a hyphen with at most one value, where a value does not start with a hyphen; then every option is set to its value or
  to the empty text, and a repeated one to the last.
\<close>

theorem command_line_language:
  assumes "\<forall>opt \<in> set opts. wf_option opt"
  shows "Env_init exe program (concat (map option_text opts)) e =
      (True, fold add_option opts (e\<lparr>env_exe := exe, env_cwd := before_last_slash exe @ ''/'', env_program := program\<rparr>)) \<and>
    fst (Env_init exe program as e) = (\<exists>us. (\<forall>opt \<in> set us. wf_option opt) \<and> as = concat (map option_text us)) \<and>
    (opts \<noteq> [] \<longrightarrow> map_of (env_args (fold add_option opts e)) (fst (last opts)) =
      Some (case snd (last opts) of None \<Rightarrow> [] | Some s \<Rightarrow> s))"
proof (intro conjI impI)
  show "Env_init exe program (concat (map option_text opts)) e =
      (True, fold add_option opts (e\<lparr>env_exe := exe, env_cwd := before_last_slash exe @ ''/'', env_program := program\<rparr>))"
    using parse_args_options [OF assms, of None] by (simp add: Env_init_def)
  show "fst (Env_init exe program as e) = (\<exists>us. (\<forall>opt \<in> set us. wf_option opt) \<and> as = concat (map option_text us))"
    using parse_args_options [of _ None] parse_args_accepts(1) [of as] by (auto simp: Env_init_def)
  show "map_of (env_args (fold add_option opts e)) (fst (last opts)) = Some (case snd (last opts) of None \<Rightarrow> [] | Some s \<Rightarrow> s)" if "opts \<noteq> []"
    using that by (cases opts rule: rev_cases) (auto simp: add_option_def env_add_def update_conv' split: prod.splits)
qed

theorem command_line_language_witness:
  "fst (Env_init ''/bin/seaice'' ''seaice'' [''-s'', ''-c'', ''conf''] \<lparr>env_args = [], env_helps = [], env_program = [], env_exe = [], env_cwd = []\<rparr>) \<and>
   snd (Env_init ''/bin/seaice'' ''seaice'' [''-s'', ''-c'', ''conf''] \<lparr>env_args = [], env_helps = [], env_program = [], env_exe = [], env_cwd = []\<rparr>) =
     \<lparr>env_args = [(''s'', []), (''c'', ''conf'')], env_helps = [], env_program = ''seaice'', env_exe = ''/bin/seaice'', env_cwd = ''/bin/''\<rparr>"
proof -
  let ?opts = "[(''s'', None), (''c'', Some ''conf'')]"
  have "\<forall>opt \<in> set ?opts. wf_option opt" by (simp add: wf_option_def)
  from command_line_language [OF this, of "''/bin/seaice''" "''seaice''" "\<lparr>env_args = [], env_helps = [], env_program = [], env_exe = [], env_cwd = []\<rparr>" "[]"]
  show ?thesis by (simp add: option_text_def add_option_def env_add_def before_last_slash_def)
qed

section \<open>Listing files\<close>

inductive reaches :: "dirent list option \<Rightarrow> string list \<Rightarrow> string \<Rightarrow> bool" where
  file_here: "DT_REG f \<in> set ds \<Longrightarrow> reaches (Some ds) [] f"
| file_below: "DT_DIR n sub \<in> set ds \<Longrightarrow> n \<noteq> ''.'' \<Longrightarrow> n \<noteq> ''..'' \<Longrightarrow> reaches sub ns f \<Longrightarrow> reaches (Some ds) (n # ns) f"

inductive_simps reaches_None: "reaches None ns f"
inductive_simps reaches_Some: "reaches (Some ds) ns f"

definition path_of :: "string \<Rightarrow> string list \<Rightarrow> string \<Rightarrow> string" where
  "path_of path ns f = path @ concat (map (\<lambda>n. ''/'' @ n) ns) @ ''/'' @ f"

lemma path_of_Cons [simp]: "path_of path (n # ns) f = path_of (path @ ''/'' @ n) ns f"
  by (simp add: path_of_def)

definition ends_in :: "string \<Rightarrow> string \<Rightarrow> bool" where
  "ends_in s f \<longleftrightarrow> (\<exists>p. f = p @ s)"

lemma ListAllFile_REG: "set (ListAllFile_entry path s (DT_REG f)) = (if ends_in s f then {path_of path [] f} else {})"
proof -
  have "ends_in s f \<longleftrightarrow> length s \<le> length f \<and> drop (length f - length s) f = s"
  proof
    assume "length s \<le> length f \<and> drop (length f - length s) f = s"
    then have "f = take (length f - length s) f @ s" by (metis append_take_drop_id)
    then show "ends_in s f" unfolding ends_in_def by blast
  qed (auto simp: ends_in_def)
  then show ?thesis by (auto simp: path_of_def)
qed

lemma Collect_below:
  assumes "\<And>ns f. R ns f \<longleftrightarrow> (\<exists>ms. ns = n # ms \<and> Q ms f)"
  shows "{g ns f | ns f. R ns f \<and> E f} = {g (n # ms) f | ms f. Q ms f \<and> E f}"
  unfolding assms by blast

lemma ListAllFile_set:
  "set (ListAllFile path s es) = {path_of path ns f | ns f. reaches es ns f \<and> ends_in s f}"
  "set (ListAllFile_entry path s d) = {path_of path ns f | ns f. reaches (Some [d]) ns f \<and> ends_in s f}"
proof (induction path s es and path s d rule: ListAllFile_ListAllFile_entry.induct)
  case (3 path s d ds)
  have "reaches (Some (d # ds)) ns f \<longleftrightarrow> reaches (Some [d]) ns f \<or> reaches (Some ds) ns f" for ns f
    by (auto simp: reaches_Some)
  then show ?case using 3 by auto
next
  case (4 path s name entries)
  show ?case
  proof (cases "name = ''.'' \<or> name = ''..''")
    case True
    then show ?thesis by (auto simp: reaches_Some)
  next
    case False
    have "reaches (Some [DT_DIR name entries]) ns f \<longleftrightarrow> (\<exists>ms. ns = name # ms \<and> reaches entries ms f)" for ns f
      using False by (auto simp: reaches_Some)
    then have r: "{path_of path ns f | ns f. reaches (Some [DT_DIR name entries]) ns f \<and> ends_in s f} =
        {path_of path (name # ms) f | ms f. reaches entries ms f \<and> ends_in s f}" by (rule Collect_below)
    have "ListAllFile_entry path s (DT_DIR name entries) = ListAllFile (path @ ''/'' @ name) s entries" using False by simp
    then show ?thesis using 4 False unfolding r path_of_Cons by simp
  qed
next
  case (5 path s f)
  show ?case unfolding ListAllFile_REG by (auto simp: reaches_Some)
qed (auto simp: reaches_None reaches_Some)

text \<open>
  The listing of a directory. The files listed are those below the directory whose name ends in the suffix, each with its
  path, and no other; directories that cannot be opened and the two special entries are left out.
\<close>

theorem ListAllFile_lists:
  "set (ListAllFile path subfix entries) = {path_of path ns f | ns f. reaches entries ns f \<and> ends_in subfix f} \<and>
   ListAllFile path subfix None = []"
  using ListAllFile_set(1) [of path subfix entries] by simp

section \<open>Creating directories\<close>

definition slashless :: "string \<Rightarrow> bool" where
  "slashless s \<longleftrightarrow> s \<noteq> [] \<and> CHR ''/'' \<notin> set s"

lemma next_slash_mid:
  assumes "CHR ''/'' \<notin> set c"
  shows "next_slash (pre @ c @ CHR ''/'' # rest) (length pre) = Some (length pre + length c)"
proof -
  have "takeWhile (\<lambda>c. c \<noteq> CHR ''/'') (c @ CHR ''/'' # rest) = c" using assms by (induction c) auto
  then show ?thesis by (simp add: next_slash_def)
qed

lemma next_slash_end:
  assumes "CHR ''/'' \<notin> set c"
  shows "next_slash (pre @ c) (length pre) = None"
proof -
  have "length (takeWhile (\<lambda>c. c \<noteq> CHR ''/'') c) = length c" using assms by (induction c) auto
  then show ?thesis by (simp add: next_slash_def Let_def del: takeWhile_eq_all_conv)
qed

lemma next_slash_beyond: "length s < i \<Longrightarrow> next_slash s i = None"
  by (simp add: next_slash_def)

text \<open>The names of the directories on the way, behind a text, and their creation where they are missing.\<close>

fun prefixes_of :: "string \<Rightarrow> string list \<Rightarrow> string list" where
  "prefixes_of pre [] = []"
| "prefixes_of pre (c # cs) = (pre @ c) # prefixes_of (pre @ c @ ''/'') cs"

definition make_dirs :: "string list \<Rightarrow> string list \<Rightarrow> string list" where
  "make_dirs ps dirs = fold (\<lambda>p dirs. if p \<in> set dirs then dirs else p # dirs) ps dirs"

lemma set_make_dirs: "set (make_dirs ps dirs) = set ps \<union> set dirs"
  unfolding make_dirs_def by (induction ps arbitrary: dirs) (auto split: if_splits)

lemma make_dirs_Cons: "make_dirs (p # ps) dirs = make_dirs ps (if p \<in> set dirs then dirs else p # dirs)"
  by (simp add: make_dirs_def)

definition willing :: "(string \<Rightarrow> bool) \<Rightarrow> bool" where
  "willing ok \<longleftrightarrow> (\<forall>p. ok p)"

lemma make_one:
  assumes "willing ok" "p \<noteq> []"
  shows "(if p \<in> set dirs then (True, dirs) else mkdir ok p dirs) = (True, if p \<in> set dirs then dirs else p # dirs)"
  using assms by (simp add: mkdir_def willing_def)

lemma Mkdir_loop_done: "length path < startPos \<Longrightarrow> Mkdir_loop (Suc n) ok path startPos pos dirs = Some (True, dirs)"
  by simp

text \<open>The position that the loop gives to the end of the next component.\<close>

definition next_end :: "string \<Rightarrow> nat \<Rightarrow> nat option" where
  "next_end path i = (case next_slash path i of None \<Rightarrow> Some (length path) | Some p \<Rightarrow> Some p)"

lemma Mkdir_loop_step:
  assumes "willing ok" "startPos < length path" "p \<noteq> 0"
  shows "Mkdir_loop (Suc n) ok path startPos (Some p) dirs =
    Mkdir_loop n ok path (p + 1) (next_end path (p + 1)) (if take p path \<in> set dirs then dirs else take p path # dirs)"
proof -
  have "take p path \<noteq> []" using assms(2,3) by auto
  from make_one [OF assms(1) this, of dirs] show ?thesis using assms(2)
    by (simp add: next_end_def Let_def case_prod_beta split: option.splits)
qed

lemma Mkdir_loop_whole:
  assumes "willing ok" "startPos < length path"
  shows "Mkdir_loop (Suc n) ok path startPos None dirs =
    Mkdir_loop n ok path 0 (next_end path 0) (if path \<in> set dirs then dirs else path # dirs)"
proof -
  have "path \<noteq> []" using assms(2) by auto
  from make_one [OF assms(1) this, of dirs] show ?thesis using assms(2)
    by (simp add: next_end_def Let_def case_prod_beta split: option.splits)
qed

lemma Mkdir_loop_components:
  assumes "willing ok" "\<forall>c \<in> set (c # cs). slashless c" "length cs + 2 \<le> n"
  shows "Mkdir_loop n ok (pre @ joined ''/'' (c # cs)) (length pre) (Some (length pre + length c)) dirs =
    Some (True, make_dirs (prefixes_of pre (c # cs)) dirs)"
  using assms(2,3)
proof (induction cs arbitrary: c pre n dirs)
  case Nil
  then obtain m where n: "n = Suc (Suc m)" by (metis add_2_eq_Suc' le_Suc_ex list.size(3) add_0 add.commute)
  have c: "c \<noteq> []" using Nil.prems by (simp add: slashless_def)
  then show ?case unfolding n
    by (subst Mkdir_loop_step [OF assms(1)]) (auto simp: make_dirs_def)
next
  case (Cons d cs)
  then obtain m where n: "n = Suc m" and m: "length cs + 2 \<le> m" by (cases n) auto
  let ?path = "pre @ joined ''/'' (c # d # cs)" and ?pre = "pre @ c @ ''/''"
  have c: "c \<noteq> []" and d: "CHR ''/'' \<notin> set d" using Cons.prems by (simp_all add: slashless_def)
  have path: "?path = ?pre @ joined ''/'' (d # cs)" by simp
  have e: "next_end ?path (length ?pre) = Some (length ?pre + length d)"
  proof (cases cs)
    case Nil
    then show ?thesis using next_slash_end [OF d, of ?pre] unfolding path by (simp add: next_end_def)
  next
    case (Cons d' cs')
    then have "joined ''/'' (d # cs) = d @ CHR ''/'' # joined ''/'' cs" by simp
    then show ?thesis using next_slash_mid [OF d, of ?pre] unfolding path by (simp add: next_end_def)
  qed
  have t: "take (length pre + length c) ?path = pre @ c" by simp
  have "Mkdir_loop n ok ?path (length pre) (Some (length pre + length c)) dirs =
      Mkdir_loop m ok ?path (length ?pre) (Some (length ?pre + length d)) (if pre @ c \<in> set dirs then dirs else (pre @ c) # dirs)"
    unfolding n using c Mkdir_loop_step [OF assms(1), of "length pre" ?path "length pre + length c" m dirs] e t by simp
  also have "\<dots> = Some (True, make_dirs (prefixes_of ?pre (d # cs)) (if pre @ c \<in> set dirs then dirs else (pre @ c) # dirs))"
    unfolding path using Cons.prems m by (intro Cons.IH) auto
  finally show ?case by (simp add: make_dirs_Cons)
qed

lemma length_joined: "\<forall>c \<in> set cs. slashless c \<Longrightarrow> length cs \<le> length (joined ''/'' cs)"
proof (induction "''/''" cs rule: joined.induct)
  case (2 p)
  then show ?case by (cases p) (auto simp: slashless_def)
qed (auto simp: slashless_def)

lemma joined_two: "joined ''/'' (c # d # cs) = c @ CHR ''/'' # joined ''/'' (d # cs)"
  by simp

text \<open>
  Creating a directory. When the system creates what it is asked for, a relative path and an absolute one with at least two
  components succeed, and every directory on the way is there afterwards; but an absolute path of one component is created and
  reported as a failure, because the search starts again from its slash. The loop always ends. The helper that makes the
  directories of a file reports success even when it could make none.
\<close>

theorem Mkdir_result:
  assumes "willing ok" "\<forall>c \<in> set (c # cs). slashless c" "[] \<notin> set dirs"
  shows "Mkdir ok (joined ''/'' (c # cs)) dirs = Some (True, make_dirs (prefixes_of [] (c # cs)) dirs) \<and>
    (cs \<noteq> [] \<longrightarrow> Mkdir ok (CHR ''/'' # joined ''/'' (c # cs)) dirs = Some (True, make_dirs (prefixes_of ''/'' (c # cs)) dirs)) \<and>
    Mkdir ok (CHR ''/'' # c) dirs = Some (False, make_dirs [CHR ''/'' # c] dirs) \<and>
    createFileDir (\<lambda>p. False) (joined ''/'' (c # c # cs)) [] = Some (0, [])"
proof (intro conjI impI)
  have c: "CHR ''/'' \<notin> set c" "c \<noteq> []" using assms(2) by (simp_all add: slashless_def)
  have len: "length cs + 2 \<le> length (joined ''/'' (c # cs)) + 3" using length_joined [OF assms(2)] by simp
  have hd: "hd (c @ r) \<noteq> CHR ''/''" for r using c by (cases c) auto
  have pos0: "next_slash (c @ CHR ''/'' # r) 0 = Some (length c)" for r using next_slash_mid [OF c(1), of "[]"] by simp
  have pos1: "next_slash (CHR ''/'' # c @ CHR ''/'' # r) 1 = Some (1 + length c)" for r using next_slash_mid [OF c(1), of "''/''" r] by simp
  show "Mkdir ok (joined ''/'' (c # cs)) dirs = Some (True, make_dirs (prefixes_of [] (c # cs)) dirs)"
  proof (cases cs)
    case Nil
    have s: "next_slash c 0 = None" using next_slash_end [OF c(1), of "[]"] by simp
    obtain m where m: "length c + 3 = Suc (Suc m)" by (metis add_Suc_right numeral_3_eq_3)
    have "Mkdir ok c dirs = Mkdir_loop (Suc (Suc m)) ok c 0 None dirs" using c hd [of "[]"] by (simp add: Mkdir_def s flip: m)
    also have "\<dots> = Mkdir_loop (Suc m) ok c 0 (Some (length c)) (if c \<in> set dirs then dirs else c # dirs)"
      using c s by (subst Mkdir_loop_whole [OF assms(1)]) (simp_all add: next_end_def)
    also have "\<dots> = Some (True, make_dirs [c] dirs)"
      using Mkdir_loop_components [OF assms(1), of c "[]" "Suc m" "[]"] assms(2) m by (auto simp: make_dirs_def Nil)
    finally show ?thesis using Nil by simp
  next
    case (Cons d ds)
    then have j: "joined ''/'' (c # cs) = c @ CHR ''/'' # joined ''/'' cs" by simp
    have "Mkdir ok (joined ''/'' (c # cs)) dirs =
        Mkdir_loop (length (joined ''/'' (c # cs)) + 3) ok ([] @ joined ''/'' (c # cs)) (length []) (Some (length [] + length c)) dirs"
      unfolding j using c hd pos0 by (simp add: Mkdir_def)
    then show ?thesis using Mkdir_loop_components [OF assms(1,2) len, of "[]" dirs] by simp
  qed
  show "Mkdir ok (CHR ''/'' # joined ''/'' (c # cs)) dirs = Some (True, make_dirs (prefixes_of ''/'' (c # cs)) dirs)" if "cs \<noteq> []"
  proof -
    have j: "joined ''/'' (c # cs) = c @ CHR ''/'' # joined ''/'' cs" using that by (cases cs) simp_all
    have "Mkdir ok (CHR ''/'' # joined ''/'' (c # cs)) dirs =
        Mkdir_loop (length (joined ''/'' (c # cs)) + 4) ok (''/'' @ joined ''/'' (c # cs)) (length ''/'') (Some (length ''/'' + length c)) dirs"
      unfolding j using pos1 by (simp add: Mkdir_def)
    then show ?thesis using Mkdir_loop_components [OF assms(1,2), of "length (joined ''/'' (c # cs)) + 4" "''/''" dirs] len by simp
  qed
  show "Mkdir ok (CHR ''/'' # c) dirs = Some (False, make_dirs [CHR ''/'' # c] dirs)"
  proof -
    let ?p = "CHR ''/'' # c"
    have s1: "next_slash ?p 1 = None" using next_slash_end [OF c(1), of "''/''"] by simp
    have s0: "next_slash ?p 0 = Some 0" by (simp add: next_slash_def)
    obtain m where m: "length ?p + 3 = Suc (Suc m)" by (metis add_Suc_right numeral_3_eq_3)
    have "Mkdir ok ?p dirs = Mkdir_loop (Suc (Suc m)) ok ?p 1 None dirs" by (simp add: Mkdir_def s1 [simplified] flip: m)
    also have "\<dots> = Mkdir_loop (Suc m) ok ?p 0 (Some 0) (if ?p \<in> set dirs then dirs else ?p # dirs)"
      using c s0 by (subst Mkdir_loop_whole [OF assms(1)]) (simp_all add: next_end_def)
    also have "\<dots> = Some (False, make_dirs [?p] dirs)" using assms(3) by (simp add: mkdir_def make_dirs_def)
    finally show ?thesis .
  qed
  have "CHR ''/'' \<in> set (joined ''/'' (c # c # cs))" by simp
  then show "createFileDir (\<lambda>p. False) (joined ''/'' (c # c # cs)) [] = Some (0, [])"
    unfolding joined_two using c hd pos0 by (simp add: createFileDir_def mkdir_def)
qed

theorem Mkdir_result_witness:
  "Mkdir (\<lambda>p. True) ''/app'' [] = Some (False, [''/app'']) \<and> Mkdir (\<lambda>p. True) ''/app/work'' [] = Some (True, [''/app/work'', ''/app''])"
proof -
  have "willing (\<lambda>p. True)" "\<forall>c \<in> set [''app'', ''work'']. slashless c" "[] \<notin> set ([] :: string list)" by (simp_all add: willing_def slashless_def)
  from Mkdir_result [OF this] show ?thesis by (simp add: make_dirs_def)
qed

end
