(* ===== verification/Application.thy ===== *)
theory Application imports Env Address "HOL-Library.Multiset" begin

text \<open>
  The process around the servers (\<^verbatim>\<open>seaice/module.h\<close>, \<^verbatim>\<open>module.cpp\<close>, \<^verbatim>\<open>library.cpp\<close>, \<^verbatim>\<open>daemon.cpp\<close>, \<^verbatim>\<open>application.cpp\<close>): the modules loaded from shared
  libraries, the process that starts the program again after a crash, and the start of the application.
\<close>

section \<open>Modules\<close>

text \<open>A module, with the identity of the object behind it.\<close>

record module =
  md_ref :: nat
  md_name :: string
  md_version :: string
  md_filename :: string
  md_id :: string

definition new_Module :: "nat \<Rightarrow> string \<Rightarrow> string \<Rightarrow> string \<Rightarrow> module" where
  "new_Module ref name version filename =
     \<lparr>md_ref = ref, md_name = name, md_version = version, md_filename = filename, md_id = name @ ''/'' @ version\<rparr>"

text \<open>The map of the modules in its order. The first part of a result lists the modules whose \<open>onUnLoad\<close> was called.\<close>

type_synonym modules = "(string \<times> module) list"

definition mod_get :: "string \<Rightarrow> modules \<Rightarrow> module option" where
  "mod_get name ms = map_of ms name"

definition mod_del :: "string \<Rightarrow> modules \<Rightarrow> module list \<times> modules" where
  "mod_del name ms = (case map_of ms name of None \<Rightarrow> ([], ms) | Some m \<Rightarrow> ([m], map_erase name ms))"

definition mod_add :: "module \<Rightarrow> modules \<Rightarrow> module list \<times> modules" where
  "mod_add m ms = (let (un, ms) = mod_del (md_id m) ms in (un, tree_insert key_less (md_id m, m) ms))"

fun mod_del_list :: "string list \<Rightarrow> modules \<Rightarrow> module list \<times> modules" where
  "mod_del_list [] ms = ([], ms)"
| "mod_del_list (k # ks) ms = (let (un, ms) = mod_del k ms; (un', ms) = mod_del_list ks ms in (un @ un', ms))"

definition mod_delAll :: "modules \<Rightarrow> module list \<times> modules" where
  "mod_delAll ms = mod_del_list (map fst ms) ms"

definition mod_listAll :: "modules \<Rightarrow> module list" where
  "mod_listAll ms = map snd ms"

text \<open>
  A shared library: whether it has the two functions, and the module its function makes. The answer of \<open>GetModule\<close> is the module with the
  file name, whether the library stays open, and whether the configuration directory is loaded again.
\<close>

record library =
  lib_create :: "module option"
  lib_destroy :: bool

definition GetModule :: "string \<Rightarrow> library option \<Rightarrow> module option \<times> bool \<times> bool" where
  "GetModule path lib =
     (case lib of
        None \<Rightarrow> (None, False, False)
      | Some l \<Rightarrow>
          (case lib_create l of
             None \<Rightarrow> (None, False, False)
           | Some m \<Rightarrow> if \<not> lib_destroy l then (None, False, False) else (Some (m\<lparr>md_filename := path\<rparr>), True, True)))"

fun str_insert :: "string \<Rightarrow> string list \<Rightarrow> string list" where
  "str_insert x [] = [x]"
| "str_insert x (y # ys) = (if str_less y x then y # str_insert x ys else x # y # ys)"

definition initModule :: "(string \<Rightarrow> library option) \<Rightarrow> string \<Rightarrow> modules \<Rightarrow> module list \<times> modules" where
  "initModule libs path ms = (case fst (GetModule path (libs path)) of None \<Rightarrow> ([], ms) | Some m \<Rightarrow> mod_add m ms)"

fun init_modules :: "(string \<Rightarrow> library option) \<Rightarrow> string list \<Rightarrow> modules \<Rightarrow> module list \<times> modules" where
  "init_modules libs [] ms = ([], ms)"
| "init_modules libs (i # files) ms =
     (let (un, ms) = initModule libs i ms; (un', ms) = init_modules libs files ms in (un @ un', ms))"

definition mod_init :: "(string \<Rightarrow> library option) \<Rightarrow> string \<Rightarrow> dirent list option \<Rightarrow> modules \<Rightarrow> module list \<times> modules" where
  "mod_init libs path entries ms = init_modules libs (foldr str_insert (ListAllFile path ''.so'' entries) []) ms"

section \<open>The daemon\<close>

text \<open>What a \<^verbatim>\<open>fork\<close> and the wait for the child give: the child itself, an error, or the status of the child in its parent.\<close>

datatype fork_result = In_child | Fork_error | Child_status nat

datatype daemon_end = Runs_main | Exits int

text \<open>The rounds of the loop: \<open>forks i\<close> is the outcome of round \<open>i\<close>. The loop may run for ever; then the result is \<open>None\<close>.\<close>

partial_function (option) daemon_loop :: "(nat \<Rightarrow> fork_result) \<Rightarrow> nat \<Rightarrow> nat \<Rightarrow> (daemon_end \<times> nat) option" where
  "daemon_loop forks i restart_count =
     (case forks i of
        In_child \<Rightarrow> Some (Runs_main, restart_count)
      | Fork_error \<Rightarrow> Some (Exits (- 1), restart_count)
      | Child_status status \<Rightarrow>
          if status \<noteq> 0 then
            if status = 9 then Some (Exits 0, restart_count) else daemon_loop forks (i + 1) (restart_count + 1)
          else Some (Exits 0, restart_count))"

declare daemon_loop.simps [code]

definition start_daemon :: "bool \<Rightarrow> (nat \<Rightarrow> fork_result) \<Rightarrow> (daemon_end \<times> nat) option" where
  "start_daemon is_daemon forks = (if \<not> is_daemon then Some (Runs_main, 0) else daemon_loop forks 0 0)"

section \<open>The application\<close>

text \<open>
  What the start of the application depends on: the path of the executable, the first lines of files, the processes that are alive, the
  values of the two configuration variables after loading a directory, and what the system creates.
\<close>

record app_world =
  aw_exe :: string
  aw_line :: "string \<Rightarrow> string option"
  aw_alive :: "int \<Rightarrow> bool"
  aw_config :: "string \<Rightarrow> string \<times> string"
  aw_mkdir :: "string \<Rightarrow> bool"

definition default_work_path :: string where "default_work_path = ''/app/work/seaice''"
definition default_pid_file :: string where "default_pid_file = ''seaice.pid''"

text \<open>The result is whether to run, the environment, the directories and the path of the work directory.\<close>

definition Application_init :: "app_world \<Rightarrow> string \<Rightarrow> string list \<Rightarrow> env \<Rightarrow> string list \<Rightarrow> bool \<times> env \<times> string list \<times> string" where
  "Application_init w program as e dirs =
     (let e = addHelp ''s'' ''start with the terminal'' e;
          e = addHelp ''d'' ''run as daemon'' e;
          e = addHelp ''c'' ''conf path default: ./conf'' e;
          e = addHelp ''p'' ''print help'' e;
          (ok, e) = Env_init (aw_exe w) program as e in
      if \<not> ok then (False, e, dirs, default_work_path)
      else if env_has ''p'' e then (False, e, dirs, default_work_path)
      else if IsRunningPidfile (aw_line w (default_work_path @ ''/'' @ default_pid_file)) (aw_alive w) then (False, e, dirs, default_work_path)
      else
        let work_path = fst (aw_config w (getConfigPath e)) in
        if \<not> env_has ''s'' e \<and> \<not> env_has ''d'' e then (False, e, dirs, work_path)
        else case Mkdir (aw_mkdir w) work_path dirs of
          Some (made, dirs) \<Rightarrow> (made, e, dirs, work_path)
        | None \<Rightarrow> (False, e, dirs, work_path))"

definition Application_run :: "env \<Rightarrow> (nat \<Rightarrow> fork_result) \<Rightarrow> (daemon_end \<times> nat) option" where
  "Application_run e forks = start_daemon (env_has ''d'' e) forks"

text \<open>The pid file that \<open>main\<close> writes.\<close>

definition main_pidfile :: "app_world \<Rightarrow> env \<Rightarrow> string" where
  "main_pidfile w e = (let (work_path, pid_file) = aw_config w (getConfigPath e) in work_path @ ''/'' @ pid_file)"

text \<open>The addresses of one server of the configuration: each is printed before the test for a null pointer.\<close>

fun server_addresses :: "(string \<Rightarrow> fault + address option) \<Rightarrow> string list \<Rightarrow> fault + address list" where
  "server_addresses lookup [] = Inr []"
| "server_addresses lookup (a # as) =
     (if CHR '':'' \<notin> set a then server_addresses lookup as
      else rbind (lookup a) (\<lambda>addr.
        case addr of
          None \<Rightarrow> Inl NullDeref
        | Some x \<Rightarrow> rbind (server_addresses lookup as) (\<lambda>xs. Inr (x # xs))))"

section \<open>The life of a module\<close>

datatype mod_op = Add module | Del string | DelAll | Load "string \<times> library option"

fun mod_step :: "mod_op \<Rightarrow> modules \<Rightarrow> module list \<times> modules" where
  "mod_step (Add m) ms = mod_add m ms"
| "mod_step (Del k) ms = mod_del k ms"
| "mod_step DelAll ms = mod_delAll ms"
| "mod_step (Load pl) ms = initModule (\<lambda>_. snd pl) (fst pl) ms"

fun mod_run :: "mod_op list \<Rightarrow> modules \<Rightarrow> module list \<times> modules" where
  "mod_run [] ms = ([], ms)"
| "mod_run (op # ops) ms = (let (un, ms) = mod_step op ms; (un', ms) = mod_run ops ms in (un @ un', ms))"

text \<open>The modules that the operations bring in.\<close>

fun brought :: "mod_op \<Rightarrow> module list" where
  "brought (Add m) = [m]"
| "brought (Del k) = []"
| "brought DelAll = []"
| "brought (Load pl) = (case fst (GetModule (fst pl) (snd pl)) of None \<Rightarrow> [] | Some m \<Rightarrow> [m])"

definition modules_wf :: "modules \<Rightarrow> bool" where
  "modules_wf ms \<longleftrightarrow> sorted_wrt key_less ms \<and> (\<forall>(k, m) \<in> set ms. md_id m = k)"

lemma key_less_trans: "key_less p q \<Longrightarrow> key_less q r \<Longrightarrow> key_less p r"
  using str_less_trans by (auto simp: key_less_def)

lemma set_tree_insert: "fst p \<notin> fst ` set ms \<Longrightarrow> set (tree_insert key_less p ms) = insert p (set ms)"
  by (induction ms) (auto simp: key_less_def dest: str_less_total)

lemma mset_tree_insert: "fst p \<notin> fst ` set ms \<Longrightarrow> mset (tree_insert key_less p ms) = add_mset p (mset ms)"
proof (induction ms)
  case (Cons q ms)
  have "key_less p q \<or> key_less q p" using Cons.prems str_less_total [of "fst p" "fst q"] by (auto simp: key_less_def)
  then show ?case using Cons by auto
qed simp

lemma sorted_tree_insert:
  "fst p \<notin> fst ` set ms \<Longrightarrow> sorted_wrt key_less ms \<Longrightarrow> sorted_wrt key_less (tree_insert key_less p ms)"
proof (induction ms)
  case (Cons q ms)
  have "key_less p q \<or> key_less q p" using Cons.prems(1) str_less_total [of "fst p" "fst q"] by (auto simp: key_less_def)
  moreover have "\<not> (key_less p q \<and> key_less q p)" using str_less_asym by (auto simp: key_less_def)
  ultimately show ?case using Cons set_tree_insert [of p ms] by (cases "key_less p q") (auto intro: key_less_trans [of p q])
qed simp

lemma sorted_keys_distinct: "sorted_wrt key_less ms \<Longrightarrow> distinct (map fst ms)"
  by (induction ms) (auto simp: key_less_def)

lemma sorted_map_erase: "sorted_wrt key_less ms \<Longrightarrow> sorted_wrt key_less (map_erase k ms)"
  by (simp add: map_erase_def sorted_wrt_filter)

lemma mset_map_erase:
  "distinct (map fst ms) \<Longrightarrow> map_of ms k = Some m \<Longrightarrow> mset ms = add_mset (k, m) (mset (map_erase k ms))"
proof (induction ms)
  case (Cons p ms)
  have "map_erase k ms = ms" if "fst p = k"
    using that Cons.prems(1) by (auto simp: map_erase_def filter_id_conv image_iff)
  then show ?case using Cons by (cases p) (auto simp: map_erase_def split: if_splits)
qed simp

lemma mod_del_wf:
  assumes "modules_wf ms" "mod_del k ms = (un, ms')"
  shows "modules_wf ms' \<and> mset (mod_listAll ms) = mset un + mset (mod_listAll ms') \<and> map_of ms' = (map_of ms)(k := None) \<and>
    un = (case map_of ms k of None \<Rightarrow> [] | Some m \<Rightarrow> [m])"
proof (cases "map_of ms k")
  case None
  then show ?thesis using assms by (auto simp: mod_del_def)
next
  case (Some m)
  have d: "distinct (map fst ms)" using assms(1) sorted_keys_distinct by (auto simp: modules_wf_def)
  have "mset (map snd ms) = add_mset m (mset (map snd (map_erase k ms)))"
    using arg_cong [OF mset_map_erase [OF d Some], of "image_mset snd"] by simp
  then show ?thesis using assms Some sorted_map_erase
    by (auto simp: mod_del_def modules_wf_def mod_listAll_def map_of_map_erase)
qed

lemma mod_add_wf:
  assumes "modules_wf ms" "mod_add m ms = (un, ms')"
  shows "modules_wf ms' \<and> mset (mod_listAll ms) + {#m#} = mset un + mset (mod_listAll ms') \<and> map_of ms' = (map_of ms)(md_id m \<mapsto> m) \<and>
    un = (case map_of ms (md_id m) of None \<Rightarrow> [] | Some m \<Rightarrow> [m])"
proof -
  obtain ms1 where 1: "mod_del (md_id m) ms = (un, ms1)" and ms': "ms' = tree_insert key_less (md_id m, m) ms1"
    using assms(2) by (auto simp: mod_add_def split: prod.splits)
  note del = mod_del_wf [OF assms(1) 1]
  then have n: "map_of ms1 (md_id m) = None" by simp
  then have f: "fst (md_id m, m) \<notin> fst ` set ms1" by (simp add: map_of_eq_None_iff)
  have "map_of ms' = (map_of ms1)(md_id m \<mapsto> m)"
    using n unfolding ms'
  proof (induction ms1)
    case (Cons p ms)
    then show ?case by (cases p) (auto simp: key_less_def fun_eq_iff split: if_splits dest: str_less_total)
  qed simp
  moreover have "modules_wf ms'" using del f sorted_tree_insert [OF f] set_tree_insert [OF f] by (auto simp: modules_wf_def ms')
  moreover have "mset (mod_listAll ms') = add_mset m (mset (mod_listAll ms1))"
    using arg_cong [OF mset_tree_insert [OF f], of "image_mset snd"] by (simp add: mod_listAll_def ms')
  ultimately show ?thesis using del by auto
qed

lemma mod_del_list_wf:
  assumes "modules_wf ms" "mod_del_list ks ms = (un, ms')"
  shows "modules_wf ms' \<and> mset (mod_listAll ms) = mset un + mset (mod_listAll ms') \<and> map_of ms' = (\<lambda>k. if k \<in> set ks then None else map_of ms k)"
  using assms
proof (induction ks arbitrary: ms un)
  case (Cons k ks)
  obtain u1 ms1 where 1: "mod_del k ms = (u1, ms1)" by (cases "mod_del k ms")
  obtain u2 where 2: "mod_del_list ks ms1 = (u2, ms')" "un = u1 @ u2"
    using Cons.prems(2) 1 by (auto split: prod.splits)
  note d = mod_del_wf [OF Cons.prems(1) 1]
  show ?case using Cons.IH [of ms1 u2] d 2 by (auto simp: fun_eq_iff)
qed simp

lemma map_of_empty_iff: "map_of ms = (\<lambda>k. None) \<longleftrightarrow> ms = []"
  by (cases ms) (auto simp: fun_eq_iff)

lemma mod_delAll_wf:
  assumes "modules_wf ms"
  shows "mset (fst (mod_delAll ms)) = mset (mod_listAll ms) \<and> snd (mod_delAll ms) = []"
proof (cases "mod_del_list (map fst ms) ms")
  case (Pair un ms')
  note d = mod_del_list_wf [OF assms Pair]
  have "map_of ms' = (\<lambda>k. None)" using d by (auto simp: fun_eq_iff map_of_eq_None_iff)
  then have "ms' = []" by (simp add: map_of_empty_iff)
  then show ?thesis using d Pair by (simp add: mod_delAll_def mod_listAll_def)
qed

lemma mod_step_wf:
  assumes "modules_wf ms" "mod_step op ms = (un, ms')"
  shows "modules_wf ms' \<and> mset (mod_listAll ms) + mset (brought op) = mset un + mset (mod_listAll ms')"
proof (cases op)
  case (Add m)
  then show ?thesis using mod_add_wf [OF assms(1)] assms(2) by auto
next
  case (Del k)
  then show ?thesis using mod_del_wf [OF assms(1)] assms(2) by auto
next
  case DelAll
  then show ?thesis using mod_delAll_wf [OF assms(1)] assms(2) by (auto simp: modules_wf_def mod_listAll_def)
next
  case (Load pl)
  then show ?thesis using mod_add_wf [OF assms(1)] assms by (auto simp: initModule_def split: option.splits)
qed

text \<open>
  The life of a module. Through every sequence of additions, removals and loads, each module that was brought in is either in the
  manager or has been told once that it is unloaded, never both and never twice; the map stays in the order of the identifiers. A
  module replaces the one with its identifier, whose unloading comes first, and after the removal of all none is left.
\<close>

theorem module_lifecycle:
  "modules_wf (snd (mod_run ops [])) \<and>
   mset (concat (map brought ops)) = mset (fst (mod_run ops [])) + mset (mod_listAll (snd (mod_run ops []))) \<and>
   mod_get (md_id m) (snd (mod_run (ops @ [Add m]) [])) = Some m \<and>
   (let (un, ms) = mod_run ops [] in fst (mod_add m ms) = (case mod_get (md_id m) ms of None \<Rightarrow> [] | Some old \<Rightarrow> [old])) \<and>
   snd (mod_run (ops @ [DelAll]) []) = []"
proof -
  have run: "modules_wf ms' \<and> mset (mod_listAll ms) + mset (concat (map brought ops)) = mset un + mset (mod_listAll ms')"
    if "modules_wf ms" "mod_run ops ms = (un, ms')" for ms un ms' ops
    using that
  proof (induction ops arbitrary: ms un)
    case (Cons op ops)
    obtain u1 ms1 where 1: "mod_step op ms = (u1, ms1)" by (cases "mod_step op ms")
    obtain u2 where 2: "mod_run ops ms1 = (u2, ms')" "un = u1 @ u2"
      using Cons.prems(2) 1 by (auto split: prod.splits)
    have "mset (mod_listAll ms) + mset (concat (map brought (op # ops))) = mset u1 + mset (mod_listAll ms1) + mset (concat (map brought ops))"
      using mod_step_wf [OF Cons.prems(1) 1] by (simp flip: add.assoc)
    then show ?case using Cons.IH [of ms1 u2] mod_step_wf [OF Cons.prems(1) 1] 2 by (simp add: add.assoc)
  qed simp
  have wf: "modules_wf []" by (simp add: modules_wf_def)
  have app: "snd (mod_run (ops @ ops') ms) = snd (mod_run ops' (snd (mod_run ops ms)))" for ops ops' ms
    by (induction ops arbitrary: ms) (auto simp: case_prod_beta)
  obtain un ms where r: "mod_run ops [] = (un, ms)" by (cases "mod_run ops []")
  note inv = run [OF wf r]
  obtain u1 ms1 where a: "mod_add m ms = (u1, ms1)" by (cases "mod_add m ms")
  show ?thesis using inv mod_add_wf [OF _ a] mod_delAll_wf [of ms] a
    by (simp add: app r mod_get_def case_prod_beta mod_listAll_def)
qed

section \<open>Restarts\<close>

definition crashed :: "fork_result \<Rightarrow> bool" where
  "crashed r = (case r of Child_status status \<Rightarrow> status \<noteq> 0 \<and> status \<noteq> 9 | _ \<Rightarrow> False)"

definition daemon_answer :: "fork_result \<Rightarrow> daemon_end" where
  "daemon_answer r = (case r of In_child \<Rightarrow> Runs_main | Fork_error \<Rightarrow> Exits (- 1) | Child_status status \<Rightarrow> Exits 0)"

lemma daemon_loop_stop: "\<not> crashed (forks i) \<Longrightarrow> daemon_loop forks i c = Some (daemon_answer (forks i), c)"
  by (subst daemon_loop.simps) (auto simp: crashed_def daemon_answer_def split: fork_result.splits)

lemma daemon_loop_crash: "crashed (forks i) \<Longrightarrow> daemon_loop forks i c = daemon_loop forks (Suc i) (Suc c)"
  by (subst daemon_loop.simps) (auto simp: crashed_def split: fork_result.splits)

lemma daemon_loop_rounds: "(\<forall>j < n. crashed (forks (i + j))) \<Longrightarrow> daemon_loop forks i c = daemon_loop forks (i + n) (c + n)"
proof (induction n arbitrary: i c)
  case (Suc n)
  have "crashed (forks i)" using Suc.prems [rule_format, of 0] by simp
  moreover have "\<forall>j < n. crashed (forks (Suc i + j))" using Suc.prems by auto
  ultimately show ?case using Suc.IH [of "Suc i" "Suc c"] by (simp add: daemon_loop_crash)
qed simp

lemma daemon_loop_returns:
  assumes "daemon_loop forks i c = Some r"
  shows "\<exists>j. \<not> crashed (forks j)"
proof (rule daemon_loop.raw_induct [where P = "\<lambda>forks i c r. \<exists>j. \<not> crashed (forks j)", OF _ assms], goal_cases)
  case (1 loop forks i c r)
  show ?case
  proof (cases "crashed (forks i)")
    case True
    then have "loop forks (i + 1) (c + 1) = Some r" using 1(2) by (auto simp: crashed_def split: fork_result.splits)
    then show ?thesis by (rule 1(1))
  qed auto
qed

text \<open>
  Restarts. The daemon starts the program again after each crash and counts it; it ends with the first child that exits
  normally, that is killed, or that is the program itself, or with the first failure to fork, and if there is none it never
  returns.
\<close>

theorem daemon_restarts:
  assumes "\<not> crashed (forks n)" "\<forall>i < n. crashed (forks i)"
  shows "start_daemon True forks = Some (daemon_answer (forks n), n) \<and> start_daemon False forks = Some (Runs_main, 0) \<and>
    ((start_daemon True forks' = None) = (\<forall>i. crashed (forks' i)))"
proof -
  have 1: "start_daemon True forks = Some (daemon_answer (forks n), n)"
    using daemon_loop_rounds [of n forks 0 0] daemon_loop_stop [of forks n n] assms by (simp add: start_daemon_def)
  have "start_daemon True forks' \<noteq> None" if "\<not> crashed (forks' i)" for i
  proof -
    define k where "k = (LEAST i. \<not> crashed (forks' i))"
    have "\<not> crashed (forks' k)" "\<forall>j < k. crashed (forks' j)" unfolding k_def using LeastI [of "\<lambda>i. \<not> crashed (forks' i)", OF that] not_less_Least by blast+
    then show ?thesis using daemon_loop_rounds [of k forks' 0 0] daemon_loop_stop [of forks' k k] by (simp add: start_daemon_def)
  qed
  moreover have "start_daemon True forks' = None" if "\<forall>i. crashed (forks' i)"
    using that daemon_loop_returns [of forks' 0 0] by (cases "daemon_loop forks' 0 0") (auto simp: start_daemon_def)
  ultimately have "(start_daemon True forks' = None) = (\<forall>i. crashed (forks' i))" by blast
  then show ?thesis using 1 by (simp add: start_daemon_def)
qed

theorem daemon_restarts_witness:
  "start_daemon True (\<lambda>i. if i < 2 then Child_status 11 else Child_status 9) = Some (Exits 0, 2)"
  using daemon_restarts [of "\<lambda>i. if i < 2 then Child_status 11 else Child_status 9" 2] by (simp add: crashed_def daemon_answer_def)

section \<open>The start of the application\<close>

lemma env_args_addHelp [simp]: "env_args (addHelp k d e) = env_args e"
  by (simp add: addHelp_def removeHelp_def Let_def)

lemma env_has_add_options:
  "env_has k (fold add_option opts e) \<longleftrightarrow> k \<in> fst ` set opts \<or> env_has k e"
  by (induction opts arbitrary: e) (auto simp: add_option_def env_has_def env_add_def update_conv' split: prod.splits)

lemma env_has_simps [simp]: "env_has k (e\<lparr>env_exe := a, env_cwd := b, env_program := c\<rparr>) = env_has k e"
  by (simp add: env_has_def)

lemma env_has_addHelp [simp]: "env_has k (addHelp k' d e) = env_has k e"
  by (simp add: env_has_def)

text \<open>
  The start of the application. With arguments that form options it goes on exactly when help is not asked for, the
  process of the pid file does not run, one of the two ways to run is given and the work directory can be made; other arguments
  are refused. The pid file that is looked at is the one of the default work directory, since the configuration is loaded only
  later, while the program writes the one of the configuration: a running server with another work directory is not noticed.
\<close>

theorem application_start:
  assumes "env_args e = []" "\<forall>opt \<in> set opts. wf_option opt"
  shows "(\<exists>e'. fst (Application_init w program (concat (map option_text opts)) e dirs) =
      (''p'' \<notin> fst ` set opts \<and>
       \<not> IsRunningPidfile (aw_line w ''/app/work/seaice/seaice.pid'') (aw_alive w) \<and>
       (''s'' \<in> fst ` set opts \<or> ''d'' \<in> fst ` set opts) \<and>
       (case Mkdir (aw_mkdir w) (fst (aw_config w (getConfigPath e'))) dirs of Some (made, _) \<Rightarrow> made | None \<Rightarrow> False)) \<and>
      (fst (Application_init w program (concat (map option_text opts)) e dirs) \<longrightarrow>
        fst (snd (Application_init w program (concat (map option_text opts)) e dirs)) = e' \<and>
        Application_run e' (\<lambda>i. In_child) = Some (Runs_main, 0))) \<and>
    (fst (Application_init w program as e dirs) \<longrightarrow> (\<exists>us. (\<forall>opt \<in> set us. wf_option opt) \<and> as = concat (map option_text us))) \<and>
    (l ''/app/work/seaice/seaice.pid'' = aw_line w ''/app/work/seaice/seaice.pid'' \<longrightarrow>
      Application_init (w\<lparr>aw_line := l\<rparr>) program as e dirs = Application_init w program as e dirs)"
proof (intro conjI impI)
  let ?e0 = "addHelp ''p'' ''print help'' (addHelp ''c'' ''conf path default: ./conf'' (addHelp ''d'' ''run as daemon'' (addHelp ''s'' ''start with the terminal'' e)))"
  have path: "default_work_path @ ''/'' @ default_pid_file = ''/app/work/seaice/seaice.pid''" by (simp add: default_work_path_def default_pid_file_def)
  have init: "Application_init w program as e dirs =
      (let (ok, e) = Env_init (aw_exe w) program as ?e0 in
       if \<not> ok then (False, e, dirs, default_work_path)
       else if env_has ''p'' e then (False, e, dirs, default_work_path)
       else if IsRunningPidfile (aw_line w ''/app/work/seaice/seaice.pid'') (aw_alive w) then (False, e, dirs, default_work_path)
       else
         let work_path = fst (aw_config w (getConfigPath e)) in
         if \<not> env_has ''s'' e \<and> \<not> env_has ''d'' e then (False, e, dirs, work_path)
         else case Mkdir (aw_mkdir w) work_path dirs of
           Some (made, dirs) \<Rightarrow> (made, e, dirs, work_path)
         | None \<Rightarrow> (False, e, dirs, work_path))" for w as
    unfolding Application_init_def path Let_def ..
  let ?as = "concat (map option_text opts)"
  let ?e' = "fold add_option opts (?e0\<lparr>env_exe := aw_exe w, env_cwd := before_last_slash (aw_exe w) @ ''/'', env_program := program\<rparr>)"
  have lang: "Env_init (aw_exe w) program ?as ?e0 = (True, ?e')" using command_line_language [OF assms(2)] by blast
  have has: "env_has k ?e' \<longleftrightarrow> k \<in> fst ` set opts" for k using assms(1) by (simp add: env_has_add_options) (simp add: env_has_def)
  show "\<exists>e'. fst (Application_init w program ?as e dirs) =
      (''p'' \<notin> fst ` set opts \<and>
       \<not> IsRunningPidfile (aw_line w ''/app/work/seaice/seaice.pid'') (aw_alive w) \<and>
       (''s'' \<in> fst ` set opts \<or> ''d'' \<in> fst ` set opts) \<and>
       (case Mkdir (aw_mkdir w) (fst (aw_config w (getConfigPath e'))) dirs of Some (made, _) \<Rightarrow> made | None \<Rightarrow> False)) \<and>
      (fst (Application_init w program ?as e dirs) \<longrightarrow>
        fst (snd (Application_init w program ?as e dirs)) = e' \<and> Application_run e' (\<lambda>i. In_child) = Some (Runs_main, 0))"
    unfolding init lang by (rule exI [of _ ?e'])
      (auto simp: has Let_def Application_run_def start_daemon_def daemon_loop.simps split: option.splits prod.splits)
  show "\<exists>us. (\<forall>opt \<in> set us. wf_option opt) \<and> as = concat (map option_text us)" if "fst (Application_init w program as e dirs)"
  proof -
    have "fst (Env_init (aw_exe w) program as ?e0)" using that unfolding init by (auto simp: case_prod_beta Let_def split: if_splits)
    then show ?thesis using command_line_language [OF assms(2), of "aw_exe w" program ?e0 as] by blast
  qed
  assume "l ''/app/work/seaice/seaice.pid'' = aw_line w ''/app/work/seaice/seaice.pid''"
  moreover have "aw_exe (w\<lparr>aw_line := l\<rparr>) = aw_exe w" "aw_line (w\<lparr>aw_line := l\<rparr>) = l" "aw_alive (w\<lparr>aw_line := l\<rparr>) = aw_alive w"
    "aw_config (w\<lparr>aw_line := l\<rparr>) = aw_config w" "aw_mkdir (w\<lparr>aw_line := l\<rparr>) = aw_mkdir w" by simp_all
  ultimately show "Application_init (w\<lparr>aw_line := l\<rparr>) program as e dirs = Application_init w program as e dirs"
    unfolding init by (simp only:)
qed

theorem application_start_witness:
  "\<not> fst (Application_init \<lparr>aw_exe = ''/x/seaice'', aw_line = (\<lambda>_. None), aw_alive = (\<lambda>_. False), aw_config = (\<lambda>_. (''/w'', ''pid'')),
    aw_mkdir = (\<lambda>_. True)\<rparr> ''seaice'' (concat (map option_text [(''p'', None), (''s'', None)]))
    \<lparr>env_args = [], env_helps = [], env_program = [], env_exe = [], env_cwd = []\<rparr> [])"
proof -
  have "\<forall>opt \<in> set [(''p'', None), (''s'', None)]. wf_option opt" by simp
  from application_start [where e = "\<lparr>env_args = [], env_helps = [], env_program = [], env_exe = [], env_cwd = []\<rparr>"
    and w = "\<lparr>aw_exe = ''/x/seaice'', aw_line = (\<lambda>_. None), aw_alive = (\<lambda>_. False), aw_config = (\<lambda>_. (''/w'', ''pid'')), aw_mkdir = (\<lambda>_. True)\<rparr>"
    and program = "''seaice''" and dirs = "[]", OF _ this, THEN conjunct1]
  obtain e' where "fst (Application_init \<lparr>aw_exe = ''/x/seaice'', aw_line = (\<lambda>_. None), aw_alive = (\<lambda>_. False), aw_config = (\<lambda>_. (''/w'', ''pid'')),
      aw_mkdir = (\<lambda>_. True)\<rparr> ''seaice'' (concat (map option_text [(''p'', None), (''s'', None)]))
      \<lparr>env_args = [], env_helps = [], env_program = [], env_exe = [], env_cwd = []\<rparr> []) \<longrightarrow>
      ''p'' \<notin> fst ` set [(''p'', None :: string option), (''s'', None)]" unfolding env.select_convs by blast
  then show ?thesis by (metis list.set_intros(1) image_eqI fst_conv)
qed

end
