(* ===== verification/RunServers.thy ===== *)
theory RunServers imports Application TcpServer begin

text \<open>
  The servers of the configuration (\<^verbatim>\<open>Application::run_fiber\<close> in \<^verbatim>\<open>seaice/application.cpp\<close>): one server for each entry, bound to its addresses and
  started, or the end of the process.
\<close>

text \<open>The process ends with a status, or the servers run. \<open>ts_net\<close> of a server is the state of the system when it was started; the last part is the present one.\<close>

datatype 's servers_result = Exited int 's | Serving "'s tcp_server list" 's

text \<open>\<open>lookup\<close> is \<open>LookupAnyIPAddress\<close>. The first address that failed ends the process.\<close>

fun run_servers ::
  "'s net \<Rightarrow> (string \<Rightarrow> fault + address option) \<Rightarrow> TcpServerConf list \<Rightarrow> 's tcp_server list \<Rightarrow> 's \<Rightarrow> fault + 's servers_result" where
  "run_servers net lookup [] servers s = Inr (Serving servers s)"
| "run_servers net lookup (conf # confs) servers s =
     rbind (server_addresses lookup (tsc_address conf)) (\<lambda>addrs.
       let server = (new_TcpServer s)\<lparr>ts_name := tsc_name conf, ts_readTimeout := word_of_int (tsc_timeout conf)\<rparr>;
           (ok, fails, server) = ts_bind net addrs [] server in
       if \<not> ok \<and> fails \<noteq> [] then Inr (Exited 0 (ts_net server))
       else
         let server = snd (ts_start server)
         in run_servers net lookup confs (servers @ [server]) (ts_net server))"

definition run_fiber :: "'s net \<Rightarrow> (string \<Rightarrow> fault + address option) \<Rightarrow> TcpServerConf list \<Rightarrow> 's \<Rightarrow> fault + 's servers_result" where
  "run_fiber net lookup confs s = run_servers net lookup confs [] s"

text \<open>A server that was started for an entry of the configuration.\<close>

definition started_for :: "TcpServerConf \<Rightarrow> 's tcp_server \<Rightarrow> bool" where
  "started_for conf st \<longleftrightarrow>
     ts_name st = tsc_name conf \<and> ts_readTimeout st = word_of_int (tsc_timeout conf) \<and> \<not> ts_isStop st \<and>
     ts_sockets st = [0..<length (ts_objs st)] \<and> length (ts_objs st) = length (filter (\<lambda>a. CHR '':'' \<in> set a) (tsc_address conf)) \<and>
     (\<forall>sk \<in> set (ts_objs st). isValid sk) \<and> ts_jobs st = map StartAccept (ts_sockets st) \<and> ts_loops st = [] \<and> ts_accepts st = [] \<and> ts_clients st = []"

definition all_fds :: "'s tcp_server list \<Rightarrow> int list" where
  "all_fds servers = concat (map (fds \<circ> ts_objs) servers)"

lemma server_addresses_length: "server_addresses lookup as = Inr xs \<Longrightarrow> length xs = length (filter (\<lambda>a. CHR '':'' \<in> set a) as)"
  by (induction as arbitrary: xs) (auto simp: rbind_eq_Inr split: if_splits option.splits)

lemma bind_loop_names:
  "bind_loop net addrs fails st = (fails', st') \<Longrightarrow> ts_name st' = ts_name st \<and> ts_readTimeout st' = ts_readTimeout st"
  by (induction net addrs fails st rule: bind_loop.induct) (auto split: prod.splits if_splits)

text \<open>One server: bound to every address, or nothing is left of it.\<close>

lemma new_server_bound:
  assumes c: "net_contract net opened" "1 \<in> opened s" and "ts_bind net addrs [] ((new_TcpServer s)\<lparr>ts_name := n, ts_readTimeout := t\<rparr>) = (ok, fails, st)"
  shows "(ok \<longleftrightarrow> fails = []) \<and>
    (if ok then opened (ts_net st) = opened s \<union> set (fds (ts_objs st)) \<and> distinct (fds (ts_objs st)) \<and> set (fds (ts_objs st)) \<inter> opened s = {} \<and>
       ts_name st = n \<and> ts_readTimeout st = t \<and> ts_isStop st \<and> ts_sockets st = [0..<length (ts_objs st)] \<and> length (ts_objs st) = length addrs \<and>
       (\<forall>sk \<in> set (ts_objs st). isValid sk) \<and> ts_jobs st = [] \<and> ts_loops st = [] \<and> ts_accepts st = [] \<and> ts_clients st = []
     else opened (ts_net st) = opened s)"
proof -
  let ?st = "(new_TcpServer s)\<lparr>ts_name := n, ts_readTimeout := t\<rparr>"
  have i: "srv_inv opened (opened s) ?st" by (simp add: srv_inv_def pool_owns_def new_TcpServer_def held_def)
  obtain f1 st1 where 1: "bind_loop net addrs [] ?st = (f1, st1)" by fastforce
  from bind_loop_inv [OF c i 1] obtain news bad where
    h: "srv_inv opened (opened s) st1" "ts_isStop st1" "ts_jobs st1 = []" "ts_loops st1 = []" "ts_accepts st1 = []" "ts_clients st1 = []"
    "ts_objs st1 = news" "\<forall>sk \<in> set news. isValid sk" "ts_sockets st1 = [0..<length news]" "f1 = bad" "length addrs = length news + length bad"
    by (auto simp: new_TcpServer_def)
  show ?thesis
  proof (cases "f1 = []")
    case True
    then have r: "ok" "fails = []" "st = st1" using assms(3) 1 by (simp_all add: ts_bind_def)
    then show ?thesis using True h bind_loop_names [OF 1] by (simp add: srv_inv_def pool_owns_def)
  next
    case False
    then have r: "\<not> ok" "fails \<noteq> []" "st = clear_sockets net st1" using assms(3) 1 by (simp_all add: ts_bind_def)
    have "opened (ts_net st) = opened s"
      using unheld_closed [of opened "opened s" st] clear_sockets_inv [OF c h(1)] h(3-6) by (simp add: r(3) held_def)
    then show ?thesis using r by simp
  qed
qed

lemma run_servers_result:
  fixes net :: "'s net"
  assumes c: "net_contract net opened"
  shows "run_servers net lookup confs servers s = Inr r \<Longrightarrow> 1 \<in> opened s \<Longrightarrow>
    (case r of
       Serving all s' \<Rightarrow> \<exists>news. all = servers @ news \<and> list_all2 started_for confs news \<and>
         opened s' = opened s \<union> set (all_fds news) \<and> distinct (all_fds news) \<and> set (all_fds news) \<inter> opened s = {}
     | Exited code s' \<Rightarrow> code = 0 \<and> (\<exists>(news :: 's tcp_server list) n. n < length confs \<and> list_all2 started_for (take n confs) news \<and> opened s' = opened s \<union> set (all_fds news)))"
proof (induction confs arbitrary: servers s)
  case Nil
  then show ?case by (auto simp: all_fds_def)
next
  case (Cons conf confs)
  obtain addrs where a: "server_addresses lookup (tsc_address conf) = Inr addrs" using Cons.prems(1) by (auto simp: rbind_eq_Inr)
  obtain ok fails st where b: "ts_bind net addrs [] ((new_TcpServer s)\<lparr>ts_name := tsc_name conf, ts_readTimeout := word_of_int (tsc_timeout conf)\<rparr>) = (ok, fails, st)"
    by (metis prod_cases3)
  note nb = new_server_bound [OF c Cons.prems(2) b]
  show ?case
  proof (cases ok)
    case False
    then have "r = Exited 0 (ts_net st)" using Cons.prems(1) a b nb by (simp add: Let_def)
    moreover have "opened (ts_net st) = opened s \<union> set (all_fds [])" using nb False by (simp add: all_fds_def)
    ultimately show ?thesis by (auto intro!: exI [of _ "[]"] exI [of _ 0])
  next
    case True
    let ?st = "snd (ts_start st)"
    have o: "opened (ts_net st) = opened s \<union> set (fds (ts_objs st))" "distinct (fds (ts_objs st))" "set (fds (ts_objs st)) \<inter> opened s = {}"
      using nb True by simp_all
    have st: "ts_net ?st = ts_net st" "ts_objs ?st = ts_objs st" using nb True by (simp_all add: ts_start_def)
    have new: "started_for conf ?st"
      using nb True server_addresses_length [OF a] by (simp add: started_for_def ts_start_def)
    have "run_servers net lookup confs (servers @ [?st]) (ts_net st) = Inr r" using Cons.prems(1) a b nb True st by (simp add: Let_def)
    note IH = Cons.IH [OF this]
    have one: "1 \<in> opened (ts_net st)" using Cons.prems(2) o by simp
    show ?thesis
    proof (cases r)
      case (Serving all s')
      then obtain news where "all = servers @ ?st # news" "list_all2 started_for confs news"
        "opened s' = opened (ts_net st) \<union> set (all_fds news)" "distinct (all_fds news)" "set (all_fds news) \<inter> opened (ts_net st) = {}"
        using IH one by auto
      then have "all = servers @ ?st # news \<and> list_all2 started_for (conf # confs) (?st # news) \<and> opened s' = opened s \<union> set (all_fds (?st # news)) \<and>
          distinct (all_fds (?st # news)) \<and> set (all_fds (?st # news)) \<inter> opened s = {}"
        using new o st by (auto simp: all_fds_def)
      then show ?thesis using Serving by auto
    next
      case (Exited code s')
      with IH [OF one] have "code = 0 \<and> (\<exists>(news :: 's tcp_server list) n. n < length confs \<and> list_all2 started_for (take n confs) news \<and>
          opened s' = opened (ts_net st) \<union> set (all_fds news))" by simp
      then obtain news :: "'s tcp_server list" and n where e: "code = 0" "n < length confs" "list_all2 started_for (take n confs) news" "opened s' = opened (ts_net st) \<union> set (all_fds news)"
        by blast
      have "Suc n < length (conf # confs) \<and> list_all2 started_for (take (Suc n) (conf # confs)) (?st # news) \<and> opened s' = opened s \<union> set (all_fds (?st # news))"
        using e new o st by (auto simp: all_fds_def)
      then show ?thesis using Exited e(1) by (simp del: take_Suc_Cons) blast
    qed
  qed
qed



end
