(* ===== verification/Threads.thy ===== *)
theory Threads imports Prelude begin

text \<open>
  Locks and threads (\<^verbatim>\<open>seaice/mutex.h\<close>, \<^verbatim>\<open>mutex.cpp\<close>, \<^verbatim>\<open>thread.h\<close>, \<^verbatim>\<open>thread.cpp\<close>): the guards that lock in their constructor and unlock in their
  destructor over the locks of the system, and the start of a thread. A call that blocks is a step that is not enabled.
\<close>

section \<open>Locks\<close>

text \<open>The locks of the system: a mutex or spin lock is held or free; a reader-writer lock has readers or a writer. \<open>None\<close> blocks.\<close>

record rwlock =
  rw_readers :: nat
  rw_writer :: bool

definition new_RWMutex :: rwlock where
  "new_RWMutex = \<lparr>rw_readers = 0, rw_writer = False\<rparr>"

definition rdlock :: "rwlock \<Rightarrow> rwlock option" where
  "rdlock l = (if rw_writer l then None else Some (l\<lparr>rw_readers := Suc (rw_readers l)\<rparr>))"

definition wrlock :: "rwlock \<Rightarrow> rwlock option" where
  "wrlock l = (if rw_writer l \<or> rw_readers l > 0 then None else Some (l\<lparr>rw_writer := True\<rparr>))"

definition rw_unlock :: "rwlock \<Rightarrow> rwlock" where
  "rw_unlock l = (if rw_writer l then l\<lparr>rw_writer := False\<rparr> else l\<lparr>rw_readers := rw_readers l - 1\<rparr>)"

definition mutex_lock :: "bool \<Rightarrow> bool option" where
  "mutex_lock m = (if m then None else Some True)"

definition mutex_unlock :: "bool \<Rightarrow> bool" where
  "mutex_unlock m = False"

definition spin_lock :: "bool \<Rightarrow> bool option" where
  "spin_lock m = (if m then None else Some True)"

definition spin_unlock :: "bool \<Rightarrow> bool" where
  "spin_unlock m = False"

section \<open>Guards\<close>

text \<open>The three guards differ in the call that locks, which is an argument.\<close>

record lock_guard =
  gd_locked :: bool

definition guard_new :: "('m \<Rightarrow> 'm option) \<Rightarrow> 'm \<Rightarrow> (lock_guard \<times> 'm) option" where
  "guard_new lock m = map_option (\<lambda>m. (\<lparr>gd_locked = True\<rparr>, m)) (lock m)"

definition guard_lock :: "('m \<Rightarrow> 'm option) \<Rightarrow> lock_guard \<Rightarrow> 'm \<Rightarrow> (lock_guard \<times> 'm) option" where
  "guard_lock lock g m = (if \<not> gd_locked g then map_option (\<lambda>m. (g\<lparr>gd_locked := True\<rparr>, m)) (lock m) else Some (g, m))"

definition guard_unlock :: "('m \<Rightarrow> 'm) \<Rightarrow> lock_guard \<Rightarrow> 'm \<Rightarrow> lock_guard \<times> 'm" where
  "guard_unlock unlock g m = (if gd_locked g then (g\<lparr>gd_locked := False\<rparr>, unlock m) else (g, m))"

definition guard_destroy :: "('m \<Rightarrow> 'm) \<Rightarrow> lock_guard \<Rightarrow> 'm \<Rightarrow> 'm" where
  "guard_destroy unlock g m = snd (guard_unlock unlock g m)"

datatype lock_kind = ReadLock | WriteLock

primrec lock_of :: "lock_kind \<Rightarrow> rwlock \<Rightarrow> rwlock option" where
  "lock_of ReadLock = rdlock"
| "lock_of WriteLock = wrlock"

text \<open>Any number of guards on one lock, made, used and destroyed by any threads in any order.\<close>

type_synonym guards = "(lock_kind \<times> lock_guard) list"

inductive guard_step :: "rwlock \<times> guards \<Rightarrow> rwlock \<times> guards \<Rightarrow> bool" where
  make: "guard_new (lock_of k) l = Some (g, l') \<Longrightarrow> guard_step (l, gs) (l', gs @ [(k, g)])"
| lock_again: "guard_lock (lock_of k) g l = Some (g', l') \<Longrightarrow> guard_step (l, as @ (k, g) # bs) (l', as @ (k, g') # bs)"
| unlock_early: "guard_unlock rw_unlock g l = (g', l') \<Longrightarrow> guard_step (l, as @ (k, g) # bs) (l', as @ (k, g') # bs)"
| destroy: "guard_step (l, as @ (k, g) # bs) (guard_destroy rw_unlock g l, as @ bs)"

definition holders :: "lock_kind \<Rightarrow> guards \<Rightarrow> nat" where
  "holders k gs = length (filter (\<lambda>(j, g). j = k \<and> gd_locked g) gs)"

definition guards_ok :: "rwlock \<times> guards \<Rightarrow> bool" where
  "guards_ok c \<longleftrightarrow>
     (case c of (l, gs) \<Rightarrow>
        rw_readers l = holders ReadLock gs \<and> (if rw_writer l then 1 else 0) = holders WriteLock gs \<and> (rw_writer l \<longrightarrow> rw_readers l = 0))"

lemma holders_simps [simp]:
  "holders k [] = 0" "holders k (as @ bs) = holders k as + holders k bs"
  "holders k ((j, g) # bs) = (if j = k \<and> gd_locked g then 1 else 0) + holders k bs"
  by (simp_all add: holders_def)

lemma guard_unlock_ok:
  assumes "guards_ok (l, as @ (k, g) # bs)" "gd_locked g"
  shows "guards_ok (rw_unlock l, as @ (k, g\<lparr>gd_locked := False\<rparr>) # bs)" "guards_ok (rw_unlock l, as @ bs)"
  using assms by (cases k; auto simp: guards_ok_def rw_unlock_def split: if_splits)+

lemma guard_step_ok: "guard_step c c' \<Longrightarrow> guards_ok c \<Longrightarrow> guards_ok c'"
proof (induction rule: guard_step.induct)
  case (make k l g l' gs)
  then show ?case by (cases k) (auto simp: guards_ok_def guard_new_def rdlock_def wrlock_def split: if_splits)
next
  case (lock_again k g l g' l' as bs)
  then show ?case by (cases k) (auto simp: guards_ok_def guard_lock_def rdlock_def wrlock_def split: if_splits)
next
  case (unlock_early g l g' l' as k bs)
  then show ?case using guard_unlock_ok(1) [of l as k g bs] by (auto simp: guard_unlock_def split: if_splits)
next
  case (destroy l as k g bs)
  then show ?case using guard_unlock_ok(2) [of l as k g bs]
    by (cases "gd_locked g") (auto simp: guard_destroy_def guard_unlock_def guards_ok_def)
qed



section \<open>Semaphores and threads\<close>

definition Semaphore_default :: nat where "Semaphore_default = 1"

definition Semaphore_wait :: "nat \<Rightarrow> nat option" where
  "Semaphore_wait n = (if n = 0 then None else Some (n - 1))"

definition Semaphore_notify :: "nat \<Rightarrow> nat" where
  "Semaphore_notify n = Suc n"

text \<open>The object of a thread and what a thread knows of itself.\<close>

record 'cb thread_obj =
  th_cb :: "'cb option"
  th_name :: string
  th_id :: int
  th_sem :: nat

record thread_local =
  tl_thread :: bool
  tl_name :: string
  tl_pid :: int

definition new_thread_local :: thread_local where
  "new_thread_local = \<lparr>tl_thread = False, tl_name = ''UNKNOW'', tl_pid = - 1\<rparr>"

text \<open>The name of the object changes only on a thread that has one.\<close>

definition SetName :: "string \<Rightarrow> thread_local \<Rightarrow> 'cb thread_obj \<Rightarrow> thread_local \<times> 'cb thread_obj" where
  "SetName name me th =
     (if name = [] then (me, th)
      else (me\<lparr>tl_name := name\<rparr>, if tl_thread me then th\<lparr>th_name := name\<rparr> else th))"

text \<open>\<open>ret\<close> is the result of the call of the system; the handle is not reset.\<close>

definition thread_join :: "bool \<Rightarrow> int \<Rightarrow> fault + unit" where
  "thread_join m_thread ret = (if m_thread \<and> ret \<noteq> 0 then Inl LogicError else Inr ())"

definition thread_detach :: "bool \<Rightarrow> int \<Rightarrow> fault + unit" where
  "thread_detach m_thread ret = (if m_thread \<and> ret \<noteq> 0 then Inl LogicError else Inr ())"

section \<open>The start of a thread\<close>

text \<open>The constructor and \<open>run\<close> on the new thread, between their accesses to the object that they share.\<close>

datatype ctor_phase = Creating | AwaitRun | Constructed | Threw

datatype run_phase = NotCreated | AtStart | AtSwap | AtNotify | AtCall | Finished

record 'cb thread_start =
  tr_obj :: "'cb thread_obj"
  tr_local :: thread_local
  tr_ctor :: ctor_phase
  tr_run :: run_phase
  tr_cb :: "'cb option"
  tr_called :: "'cb list"

definition new_Thread :: "nat \<Rightarrow> 'cb \<Rightarrow> string \<Rightarrow> 'cb thread_start" where
  "new_Thread value0 cb name =
     \<lparr>tr_obj = \<lparr>th_cb = Some cb, th_name = name, th_id = - 1, th_sem = value0\<rparr>, tr_local = new_thread_local, tr_ctor = Creating,
      tr_run = NotCreated, tr_cb = None, tr_called = []\<rparr>"

inductive thread_step :: "int \<Rightarrow> 'cb thread_start \<Rightarrow> 'cb thread_start \<Rightarrow> bool" for tid where
  created: "tr_ctor t = Creating \<Longrightarrow> thread_step tid t (t\<lparr>tr_ctor := AwaitRun, tr_run := AtStart\<rparr>)"
| not_created: "tr_ctor t = Creating \<Longrightarrow> thread_step tid t (t\<lparr>tr_ctor := Threw\<rparr>)"
| ctor_wait: "tr_ctor t = AwaitRun \<Longrightarrow> Semaphore_wait (th_sem (tr_obj t)) = Some n \<Longrightarrow>
     thread_step tid t (t\<lparr>tr_ctor := Constructed, tr_obj := (tr_obj t)\<lparr>th_sem := n\<rparr>\<rparr>)"
| run_start: "tr_run t = AtStart \<Longrightarrow>
     thread_step tid t (t\<lparr>tr_run := AtSwap, tr_local := \<lparr>tl_thread = True, tl_name = th_name (tr_obj t), tl_pid = tid\<rparr>,
       tr_obj := (tr_obj t)\<lparr>th_id := tid\<rparr>\<rparr>)"
| run_swap: "tr_run t = AtSwap \<Longrightarrow>
     thread_step tid t (t\<lparr>tr_run := AtNotify, tr_cb := th_cb (tr_obj t), tr_obj := (tr_obj t)\<lparr>th_cb := tr_cb t\<rparr>\<rparr>)"
| run_notify: "tr_run t = AtNotify \<Longrightarrow>
     thread_step tid t (t\<lparr>tr_run := AtCall, tr_obj := (tr_obj t)\<lparr>th_sem := Semaphore_notify (th_sem (tr_obj t))\<rparr>\<rparr>)"
| run_call: "tr_run t = AtCall \<Longrightarrow> tr_cb t = Some cb \<Longrightarrow> thread_step tid t (t\<lparr>tr_run := Finished, tr_called := tr_called t @ [cb]\<rparr>)"

definition taken :: "run_phase \<Rightarrow> bool" where
  "taken p \<longleftrightarrow> p = AtNotify \<or> p = AtCall \<or> p = Finished"

definition notified :: "run_phase \<Rightarrow> bool" where
  "notified p \<longleftrightarrow> p = AtCall \<or> p = Finished"

lemmas run_phases = taken_def notified_def

definition thread_inv :: "nat \<Rightarrow> 'cb \<Rightarrow> int \<Rightarrow> 'cb thread_start \<Rightarrow> bool" where
  "thread_inv value0 cb tid t \<longleftrightarrow>
     th_sem (tr_obj t) + (if tr_ctor t = Constructed then 1 else 0) = value0 + (if notified (tr_run t) then 1 else 0) \<and>
     (tr_run t = NotCreated \<longleftrightarrow> tr_ctor t = Creating \<or> tr_ctor t = Threw) \<and>
     (if taken (tr_run t) then th_cb (tr_obj t) = None \<and> tr_cb t = Some cb
      else th_cb (tr_obj t) = Some cb \<and> tr_cb t = None) \<and>
     (tr_run t = NotCreated \<or> tr_run t = AtStart \<or> th_id (tr_obj t) = tid) \<and>
     tr_called t = (if tr_run t = Finished then [cb] else [])"

lemma thread_step_inv: "thread_step tid t t' \<Longrightarrow> thread_inv v cb tid t \<Longrightarrow> thread_inv v cb tid t'"
  by (induction rule: thread_step.induct) (auto simp: thread_inv_def run_phases Semaphore_wait_def Semaphore_notify_def split: if_splits)

text \<open>
  The start of a thread. The callback runs at most once, on the new thread, whatever the order of the steps. The constructor means to wait until the
  thread has taken the callback and set its number, and with a semaphore of initial value 0 it would; but the semaphore starts at its default of
  1, so the constructor can return while the thread has done nothing: its number is not set and \<open>run\<close> will still use the object, which its
  owner may by then have destroyed.
\<close>

theorem thread_constructor_does_not_wait:
  assumes "(thread_step tid)\<^sup>*\<^sup>* (new_Thread value0 cb name) t"
  shows "tr_called t = (if tr_run t = Finished then [cb] else []) \<and>
    (value0 = 0 \<and> tr_ctor t = Constructed \<longrightarrow> th_cb (tr_obj t) = None \<and> th_id (tr_obj t) = tid) \<and>
    (\<exists>t'. (thread_step tid)\<^sup>*\<^sup>* (new_Thread Semaphore_default cb name) t' \<and> tr_ctor t' = Constructed \<and> tr_run t' = AtStart \<and>
       th_id (tr_obj t') = - 1 \<and> th_cb (tr_obj t') = Some cb)"
proof -
  have i: "thread_inv value0 cb tid t"
    using assms
  proof (induction rule: rtranclp_induct)
    case base
    show ?case by (simp add: thread_inv_def new_Thread_def run_phases)
  qed (rule thread_step_inv)
  have w: "th_cb (tr_obj t) = None \<and> th_id (tr_obj t) = tid" if "value0 = 0" "tr_ctor t = Constructed"
    using i that by (auto simp: thread_inv_def run_phases split: if_splits)
  let ?t0 = "new_Thread Semaphore_default cb name"
  let ?t1 = "?t0\<lparr>tr_ctor := AwaitRun, tr_run := AtStart\<rparr>"
  let ?t2 = "?t1\<lparr>tr_ctor := Constructed, tr_obj := (tr_obj ?t1)\<lparr>th_sem := 0\<rparr>\<rparr>"
  have 1: "thread_step tid ?t0 ?t1" by (rule created) (simp add: new_Thread_def)
  have 2: "thread_step tid ?t1 ?t2" by (rule ctor_wait) (simp_all add: new_Thread_def Semaphore_wait_def Semaphore_default_def)
  have 3: "tr_ctor ?t2 = Constructed \<and> tr_run ?t2 = AtStart \<and> th_id (tr_obj ?t2) = - 1 \<and> th_cb (tr_obj ?t2) = Some cb"
    by (simp add: new_Thread_def)
  have "(thread_step tid)\<^sup>*\<^sup>* ?t0 ?t2" using 1 2 by (meson r_into_rtranclp rtranclp_trans)
  with 3 have "\<exists>t'. (thread_step tid)\<^sup>*\<^sup>* ?t0 t' \<and> tr_ctor t' = Constructed \<and> tr_run t' = AtStart \<and> th_id (tr_obj t') = - 1 \<and> th_cb (tr_obj t') = Some cb"
    by blast
  then show ?thesis using i w by (simp add: thread_inv_def)
qed

theorem thread_constructor_does_not_wait_witness:
  "\<exists>t'. (thread_step 42)\<^sup>*\<^sup>* (new_Thread Semaphore_default (7 :: nat) ''w'') t' \<and> tr_ctor t' = Constructed \<and> th_id (tr_obj t') = - 1"
  using thread_constructor_does_not_wait [of 42 0 "7 :: nat" "''w''" "new_Thread 0 7 ''w''"] by blast

end
