(* ===== verification/CacheStatus.thy ===== *)
theory CacheStatus imports Prelude Complex_Main begin

text \<open>
  The counters of a cache (\<^verbatim>\<open>seaice/ds/cache_status.cpp\<close>): six 64-bit integers that are
  incremented and decremented atomically, so every operation is one step on the record. The result
  of an increment is the new value. The hit rate is a floating-point quotient; it is modelled as the
  rational number it approximates.
\<close>

record cache_status =
  st_set :: u64
  st_get :: u64
  st_del :: u64
  st_timeout :: u64
  st_prune :: u64
  st_hit :: u64

definition new_CacheStatus :: cache_status where
  "new_CacheStatus = \<lparr>st_set = 0, st_get = 0, st_del = 0, st_timeout = 0, st_prune = 0, st_hit = 0\<rparr>"

definition incGet :: "u64 \<Rightarrow> cache_status \<Rightarrow> u64 \<times> cache_status" where
  "incGet v s = (st_get s + v, s\<lparr>st_get := st_get s + v\<rparr>)"

definition incSet :: "u64 \<Rightarrow> cache_status \<Rightarrow> u64 \<times> cache_status" where
  "incSet v s = (st_set s + v, s\<lparr>st_set := st_set s + v\<rparr>)"

definition incDel :: "u64 \<Rightarrow> cache_status \<Rightarrow> u64 \<times> cache_status" where
  "incDel v s = (st_del s + v, s\<lparr>st_del := st_del s + v\<rparr>)"

definition incTimeout :: "u64 \<Rightarrow> cache_status \<Rightarrow> u64 \<times> cache_status" where
  "incTimeout v s = (st_timeout s + v, s\<lparr>st_timeout := st_timeout s + v\<rparr>)"

definition incPrune :: "u64 \<Rightarrow> cache_status \<Rightarrow> u64 \<times> cache_status" where
  "incPrune v s = (st_prune s + v, s\<lparr>st_prune := st_prune s + v\<rparr>)"

definition incHit :: "u64 \<Rightarrow> cache_status \<Rightarrow> u64 \<times> cache_status" where
  "incHit v s = (st_hit s + v, s\<lparr>st_hit := st_hit s + v\<rparr>)"

definition delGet :: "u64 \<Rightarrow> cache_status \<Rightarrow> u64 \<times> cache_status" where
  "delGet v s = (st_get s - v, s\<lparr>st_get := st_get s - v\<rparr>)"

definition delSet :: "u64 \<Rightarrow> cache_status \<Rightarrow> u64 \<times> cache_status" where
  "delSet v s = (st_set s - v, s\<lparr>st_set := st_set s - v\<rparr>)"

definition delDel :: "u64 \<Rightarrow> cache_status \<Rightarrow> u64 \<times> cache_status" where
  "delDel v s = (st_del s - v, s\<lparr>st_del := st_del s - v\<rparr>)"

definition delTimeout :: "u64 \<Rightarrow> cache_status \<Rightarrow> u64 \<times> cache_status" where
  "delTimeout v s = (st_timeout s - v, s\<lparr>st_timeout := st_timeout s - v\<rparr>)"

definition delPrune :: "u64 \<Rightarrow> cache_status \<Rightarrow> u64 \<times> cache_status" where
  "delPrune v s = (st_prune s - v, s\<lparr>st_prune := st_prune s - v\<rparr>)"

definition delHit :: "u64 \<Rightarrow> cache_status \<Rightarrow> u64 \<times> cache_status" where
  "delHit v s = (st_hit s - v, s\<lparr>st_hit := st_hit s - v\<rparr>)"

definition getHitRate :: "cache_status \<Rightarrow> rat" where
  "getHitRate s = (if st_get s \<noteq> 0 then of_int (sint (st_hit s)) / of_int (sint (st_get s)) else 0)"

definition merge :: "cache_status \<Rightarrow> cache_status \<Rightarrow> cache_status" where
  "merge c s =
     s\<lparr>st_get := st_get s + st_get c, st_set := st_set s + st_set c, st_del := st_del s + st_del c,
       st_timeout := st_timeout s + st_timeout c, st_prune := st_prune s + st_prune c,
       st_hit := st_hit s + st_hit c\<rparr>"

lemmas status_ops = incGet_def incSet_def incDel_def incTimeout_def incPrune_def incHit_def
  delGet_def delSet_def delDel_def delTimeout_def delPrune_def delHit_def

text \<open>
  The counters are consistent: a decrement undoes an increment also across the 64-bit
  wrap-around, no operation touches another counter, and merging two status records adds them up in
  either order.
\<close>

theorem cache_status_counters:
  "snd (delGet v (snd (incGet v s))) = s \<and> snd (delSet v (snd (incSet v s))) = s \<and>
   snd (delDel v (snd (incDel v s))) = s \<and> snd (delTimeout v (snd (incTimeout v s))) = s \<and>
   snd (delPrune v (snd (incPrune v s))) = s \<and> snd (delHit v (snd (incHit v s))) = s \<and>
   fst (incHit v s) = st_hit (snd (incHit v s)) \<and> st_get (snd (incHit v s)) = st_get s \<and>
   merge c (snd (incSet v s)) = snd (incSet v (merge c s)) \<and> merge c s = merge s c"
  by (cases s; cases c) (simp add: status_ops merge_def add.commute add.left_commute)

end
