(* ===== verification/TimedLruCache.thy ===== *)
theory TimedLruCache imports Containers CacheStatus begin

text \<open>
  The LRU cache with expiry (\<^verbatim>\<open>seaice/ds/timed_lru_cache.h\<close>, \<^verbatim>\<open>TimedLruCache\<close>). A list iterator is
  the identity of its node; \<open>tl_keys\<close> is the list of the nodes, most recently used first, \<open>tl_cache\<close>
  the hash map from keys to iterators and \<open>tl_timed\<close> the set of iterators in the order of
  \<^verbatim>\<open>ItemTimeOp\<close>, which compares expiry times and then keys. The clock is a parameter, the calls of the
  prune callback are collected in \<open>tl_pruned\<close>, and each operation runs under the mutex and is one step.
\<close>

record ('k, 'v) item =
  it_key :: 'k
  it_val :: 'v
  it_ts :: nat

record ('k, 'v) timed_lru =
  tl_maxSize :: nat
  tl_elasticity :: nat
  tl_status :: cache_status
  tl_cache :: "('k \<times> nat) list"
  tl_keys :: "(nat \<times> ('k, 'v) item) list"
  tl_timed :: "nat list"
  tl_cb :: bool
  tl_pruned :: "('k \<times> 'v) list"
  tl_fresh :: nat

text \<open>The sort key of an iterator: what \<^verbatim>\<open>ItemTimeOp\<close> compares.\<close>

definition ItemTimeOp :: "(nat \<times> ('k, 'v) item) list \<Rightarrow> nat \<Rightarrow> nat \<times> 'k" where
  "ItemTimeOp keys i = (it_ts (the (map_of keys i)), it_key (the (map_of keys i)))"

definition new_TimedLruCache :: "nat \<Rightarrow> nat \<Rightarrow> cache_status \<Rightarrow> ('k, 'v) timed_lru" where
  "new_TimedLruCache max_size elasticity status =
     \<lparr>tl_maxSize = max_size, tl_elasticity = elasticity, tl_status = status, tl_cache = [],
      tl_keys = [], tl_timed = [], tl_cb = False, tl_pruned = [], tl_fresh = 0\<rparr>"

definition tl_size :: "('k, 'v) timed_lru \<Rightarrow> nat" where
  "tl_size c = length (tl_cache c)"

definition tl_empty :: "('k, 'v) timed_lru \<Rightarrow> bool" where
  "tl_empty c = (tl_cache c = [])"

definition tl_exist :: "'k \<Rightarrow> ('k, 'v) timed_lru \<Rightarrow> bool" where
  "tl_exist k c = (map_of (tl_cache c) k \<noteq> None)"

definition tl_clear :: "('k, 'v) timed_lru \<Rightarrow> bool \<times> ('k, 'v) timed_lru" where
  "tl_clear c = (True, c\<lparr>tl_cache := [], tl_timed := [], tl_keys := []\<rparr>)"

definition tl_setMaxSize :: "nat \<Rightarrow> ('k, 'v) timed_lru \<Rightarrow> ('k, 'v) timed_lru" where
  "tl_setMaxSize v c = c\<lparr>tl_maxSize := v\<rparr>"

definition tl_setElasticity :: "nat \<Rightarrow> ('k, 'v) timed_lru \<Rightarrow> ('k, 'v) timed_lru" where
  "tl_setElasticity v c = c\<lparr>tl_elasticity := v\<rparr>"

definition tl_getMaxAllowedSize :: "('k, 'v) timed_lru \<Rightarrow> nat" where
  "tl_getMaxAllowedSize c = tl_maxSize c + tl_elasticity c"

definition tl_setPruneCallback :: "bool \<Rightarrow> ('k, 'v) timed_lru \<Rightarrow> ('k, 'v) timed_lru" where
  "tl_setPruneCallback cb c = c\<lparr>tl_cb := cb\<rparr>"

text \<open>The callback, when there is one.\<close>

definition tl_call :: "('k, 'v) item \<Rightarrow> ('k, 'v) timed_lru \<Rightarrow> ('k, 'v) timed_lru" where
  "tl_call it c = (if tl_cb c then c\<lparr>tl_pruned := tl_pruned c @ [(it_key it, it_val it)]\<rparr> else c)"

section \<open>Operations\<close>

text \<open>\<^verbatim>\<open>m_keys.back()\<close> of an empty list is undefined.\<close>

function tl_prune_loop :: "nat \<Rightarrow> ('k::linorder, 'v) timed_lru \<Rightarrow> fault + (nat \<times> ('k, 'v) timed_lru)" where
  "tl_prune_loop count c =
     (if tl_size c > tl_maxSize c then
        if tl_keys c = [] then Inl OutOfBounds
        else
          let (i, back) = last (tl_keys c); c = tl_call back c in
          tl_prune_loop (Suc count)
            (c\<lparr>tl_cache := map_erase (it_key back) (tl_cache c),
               tl_timed := set_erase (ItemTimeOp (tl_keys c)) i (tl_timed c),
               tl_keys := butlast (tl_keys c)\<rparr>)
      else Inr (count, c))"
  by pat_completeness auto
termination
  by (relation "measure (\<lambda>(count, c). length (tl_keys c))") (auto simp: tl_call_def)

declare tl_prune_loop.simps [simp del]

definition tl_prune :: "('k::linorder, 'v) timed_lru \<Rightarrow> fault + (nat \<times> ('k, 'v) timed_lru)" where
  "tl_prune c =
     (if tl_maxSize c = 0 \<or> tl_size c < tl_getMaxAllowedSize c then Inr (0, c)
      else rbind (tl_prune_loop 0 c) (\<lambda>(count, c).
        Inr (count, c\<lparr>tl_status := snd (incPrune (of_nat count) (tl_status c))\<rparr>)))"

definition tl_set :: "'k::linorder \<Rightarrow> 'v \<Rightarrow> nat \<Rightarrow> nat \<Rightarrow> ('k, 'v) timed_lru \<Rightarrow> fault + ('k, 'v) timed_lru" where
  "tl_set k v expired now c =
     (let c = c\<lparr>tl_status := snd (incSet 1 (tl_status c))\<rparr> in
      case map_of (tl_cache c) k of
        Some i \<Rightarrow>
          let keys = node_to_front i (tl_keys c);
              timed = set_erase (ItemTimeOp keys) i (tl_timed c);
              keys' = node_update i (\<lambda>it. it\<lparr>it_val := v, it_ts := ts_add expired now\<rparr>) keys
          in Inr (c\<lparr>tl_keys := keys', tl_timed := set_insert (ItemTimeOp keys') i timed\<rparr>)
      | None \<Rightarrow>
          let i = tl_fresh c;
              keys = (i, \<lparr>it_key = k, it_val = v, it_ts = ts_add expired now\<rparr>) # tl_keys c
          in rbind (tl_prune (c\<lparr>tl_keys := keys, tl_cache := map_insert k i (tl_cache c),
                                tl_timed := set_insert (ItemTimeOp keys) i (tl_timed c),
                                tl_fresh := Suc i\<rparr>)) (\<lambda>(_, c). Inr c))"

text \<open>Both overloads of \<^verbatim>\<open>get\<close>: \<open>None\<close> is the result \<^verbatim>\<open>false\<close>, or the value \<^verbatim>\<open>V()\<close>.\<close>

definition tl_get :: "'k \<Rightarrow> ('k, 'v) timed_lru \<Rightarrow> fault + ('v option \<times> ('k, 'v) timed_lru)" where
  "tl_get k c =
     (let c = c\<lparr>tl_status := snd (incGet 1 (tl_status c))\<rparr> in
      case map_of (tl_cache c) k of
        None \<Rightarrow> Inr (None, c)
      | Some i \<Rightarrow>
          (case map_of (tl_keys c) i of
             None \<Rightarrow> Inl OutOfBounds
           | Some it \<Rightarrow>
               Inr (Some (it_val it),
                    c\<lparr>tl_keys := node_to_front i (tl_keys c), tl_status := snd (incHit 1 (tl_status c))\<rparr>)))"

definition tl_get_value :: "'v \<Rightarrow> 'k \<Rightarrow> ('k, 'v) timed_lru \<Rightarrow> fault + ('v \<times> ('k, 'v) timed_lru)" where
  "tl_get_value v0 k c = rbind (tl_get k c) (\<lambda>(r, c). Inr (case r of None \<Rightarrow> v0 | Some v \<Rightarrow> v, c))"

definition tl_del :: "'k::linorder \<Rightarrow> ('k, 'v) timed_lru \<Rightarrow> bool \<times> ('k, 'v) timed_lru" where
  "tl_del k c =
     (let c = c\<lparr>tl_status := snd (incDel 1 (tl_status c))\<rparr> in
      case map_of (tl_cache c) k of
        None \<Rightarrow> (False, c)
      | Some i \<Rightarrow>
          (True, c\<lparr>tl_timed := set_erase (ItemTimeOp (tl_keys c)) i (tl_timed c),
                   tl_keys := node_erase i (tl_keys c), tl_cache := map_erase k (tl_cache c)\<rparr>))"

text \<open>The loop over \<open>tl_timed\<close> from its begin: \<open>rest\<close> is what the iterator has not passed.\<close>

fun tl_expire_loop :: "nat \<Rightarrow> nat list \<Rightarrow> nat \<Rightarrow> ('k, 'v) timed_lru \<Rightarrow> fault + (nat \<times> ('k, 'v) timed_lru)" where
  "tl_expire_loop ts [] sz c = Inr (sz, c)"
| "tl_expire_loop ts (i # rest) sz c =
     (case map_of (tl_keys c) i of
        None \<Rightarrow> Inl OutOfBounds
      | Some it \<Rightarrow>
          if it_ts it \<le> ts then
            let c = tl_call it c in
            tl_expire_loop ts rest (Suc sz)
              (c\<lparr>tl_cache := map_erase (it_key it) (tl_cache c), tl_keys := node_erase i (tl_keys c),
                 tl_timed := rest\<rparr>)
          else Inr (sz, c))"

definition tl_checkTimeout :: "nat \<Rightarrow> ('k, 'v) timed_lru \<Rightarrow> fault + (nat \<times> ('k, 'v) timed_lru)" where
  "tl_checkTimeout ts c = tl_expire_loop ts (tl_timed c) 0 c"

section \<open>Invariant and abstraction\<close>

definition tl_inv :: "('k::linorder, 'v) timed_lru \<Rightarrow> bool" where
  "tl_inv c \<longleftrightarrow>
     distinct (map fst (tl_keys c)) \<and> distinct (map (it_key \<circ> snd) (tl_keys c)) \<and>
     distinct (map fst (tl_cache c)) \<and> set (tl_cache c) = (\<lambda>(i, it). (it_key it, i)) ` set (tl_keys c) \<and>
     set_sorted (ItemTimeOp (tl_keys c)) (tl_timed c) \<and> set (tl_timed c) = fst ` set (tl_keys c) \<and>
     (\<forall>i \<in> fst ` set (tl_keys c). i < tl_fresh c)"

text \<open>The cache as its users see it: the items, most recently used first.\<close>

definition tl_items :: "('k, 'v) timed_lru \<Rightarrow> ('k, 'v) item list" where
  "tl_items c = map snd (tl_keys c)"

lemma tl_call_fields [simp]:
  "tl_maxSize (tl_call it c) = tl_maxSize c" "tl_elasticity (tl_call it c) = tl_elasticity c"
  "tl_status (tl_call it c) = tl_status c" "tl_cache (tl_call it c) = tl_cache c"
  "tl_keys (tl_call it c) = tl_keys c" "tl_timed (tl_call it c) = tl_timed c"
  "tl_cb (tl_call it c) = tl_cb c" "tl_fresh (tl_call it c) = tl_fresh c"
  by (simp_all add: tl_call_def)

lemma tl_inv_call [simp]: "tl_inv (tl_call it c) = tl_inv c"
  by (simp add: tl_inv_def)

lemma tl_items_call [simp]: "tl_items (tl_call it c) = tl_items c"
  by (simp add: tl_items_def)

lemma tl_inv_status [simp]:
  "tl_inv (c\<lparr>tl_status := s\<rparr>) = tl_inv c" "tl_inv (c\<lparr>tl_pruned := q\<rparr>) = tl_inv c"
  "tl_items (c\<lparr>tl_status := s\<rparr>) = tl_items c" "tl_items (c\<lparr>tl_pruned := q\<rparr>) = tl_items c"
  by (simp_all add: tl_inv_def tl_items_def)

lemma new_TimedLruCache_inv [simp]:
  "tl_inv (new_TimedLruCache m e st)" "tl_items (new_TimedLruCache m e st) = []"
  by (simp_all add: new_TimedLruCache_def tl_inv_def tl_items_def)

lemma tl_invD:
  assumes "tl_inv c"
  shows tl_inv_ids: "distinct (map fst (tl_keys c))"
    and tl_inv_keys: "distinct (map (it_key \<circ> snd) (tl_keys c))"
    and tl_inv_cache: "distinct (map fst (tl_cache c))" "set (tl_cache c) = (\<lambda>(i, it). (it_key it, i)) ` set (tl_keys c)"
    and tl_inv_sorted: "set_sorted (ItemTimeOp (tl_keys c)) (tl_timed c)"
    and tl_inv_timed: "set (tl_timed c) = fst ` set (tl_keys c)"
    and tl_inv_fresh: "\<And>i. i \<in> fst ` set (tl_keys c) \<Longrightarrow> i < tl_fresh c"
  using assms unfolding tl_inv_def by blast+

lemma tl_size_keys: "tl_inv c \<Longrightarrow> tl_size c = length (tl_keys c)"
proof -
  assume inv: "tl_inv c"
  have "length (tl_cache c) = card (set (tl_cache c))"
    using tl_inv_cache(1) [OF inv] by (metis distinct_card distinct_map)
  also have "\<dots> = card (set (tl_keys c))"
  proof -
    have "inj_on (\<lambda>(i, it). (it_key it, i)) (set (tl_keys c))"
      using tl_inv_ids [OF inv] unfolding inj_on_def distinct_map
      by (metis (mono_tags, lifting) case_prod_beta prod.inject)
    then show ?thesis by (simp add: tl_inv_cache(2) [OF inv] card_image)
  qed
  also have "\<dots> = length (tl_keys c)"
    using tl_inv_ids [OF inv] by (metis distinct_card distinct_map)
  finally show ?thesis by (simp add: tl_size_def)
qed

lemma tl_lookup_Some:
  assumes "tl_inv c" and "map_of (tl_cache c) k = Some i"
  shows "\<exists>it. map_of (tl_keys c) i = Some it \<and> it_key it = k"
proof -
  have "(k, i) \<in> set (tl_cache c)" using assms(2) by (rule map_of_SomeD)
  then obtain it where "(i, it) \<in> set (tl_keys c)" "it_key it = k"
    using tl_inv_cache(2) [OF assms(1)] by auto
  then show ?thesis using tl_inv_ids [OF assms(1)] by auto
qed

lemma tl_lookup_None:
  assumes "tl_inv c"
  shows "map_of (tl_cache c) k = None \<longleftrightarrow> k \<notin> it_key ` set (tl_items c)"
  using tl_inv_cache(2) [OF assms] by (force simp: map_of_eq_None_iff tl_items_def)

lemma tl_timed_valid:
  "tl_inv c \<Longrightarrow> i \<in> set (tl_timed c) \<Longrightarrow> \<exists>it. map_of (tl_keys c) i = Some it"
  using tl_inv_timed [of c] tl_inv_ids [of c] by force

lemma tl_node_item: "map_of (tl_keys c) i = Some it \<Longrightarrow> it \<in> set (tl_items c)"
  by (force simp: tl_items_def dest: map_of_SomeD)

lemma butlast_node_erase:
  assumes "distinct (map fst ns)" and "ns \<noteq> []"
  shows "butlast ns = node_erase (fst (last ns)) ns"
  using assms by (cases ns rule: rev_cases) (auto simp: node_erase_def image_iff intro!: filter_True [symmetric])

text \<open>A node and its key determine each other.\<close>

lemma tl_same:
  assumes inv: "tl_inv c" and i: "map_of (tl_keys c) i = Some it" and j: "(j, x) \<in> set (tl_keys c)"
  shows "it_key x = it_key it \<longleftrightarrow> j = i"
proof
  assume h: "it_key x = it_key it"
  have "(i, it) \<in> set (tl_keys c)" using i by (rule map_of_SomeD)
  then have "(j, x) = (i, it)"
    using tl_inv_keys [OF inv] j h unfolding distinct_map inj_on_def by (metis comp_apply snd_conv)
  then show "j = i" by simp
next
  assume "j = i"
  then show "it_key x = it_key it" using i j map_of_is_SomeI [OF tl_inv_ids [OF inv] j] by simp
qed

lemma tl_key_erased:
  assumes "tl_inv c" and "map_of (tl_keys c) i = Some it"
  shows "it_key it \<notin> (it_key \<circ> snd) ` set (node_erase i (tl_keys c))"
proof
  assume "it_key it \<in> (it_key \<circ> snd) ` set (node_erase i (tl_keys c))"
  then obtain j x where "(j, x) \<in> set (tl_keys c)" "j \<noteq> i" "it_key x = it_key it" by auto
  with tl_same [OF assms] show False by blast
qed

lemma tl_items_node_erase:
  assumes "tl_inv c" and "map_of (tl_keys c) i = Some it"
  shows "map snd (node_erase i (tl_keys c)) = filter (\<lambda>x. it_key x \<noteq> it_key it) (tl_items c)"
proof -
  have "filter (\<lambda>x. it_key x \<noteq> it_key it) (map snd (tl_keys c)) =
      map snd (filter (\<lambda>p. it_key (snd p) \<noteq> it_key it) (tl_keys c))"
    by (simp add: filter_map comp_def)
  also have "filter (\<lambda>p. it_key (snd p) \<noteq> it_key it) (tl_keys c) = node_erase i (tl_keys c)"
    unfolding node_erase_def using tl_same [OF assms] by (intro filter_cong) auto
  finally show ?thesis by (simp add: tl_items_def)
qed

text \<open>Removing a node together with its entry in the map and its place in the set.\<close>

lemma tl_remove_inv:
  assumes inv: "tl_inv c" and i: "map_of (tl_keys c) i = Some it"
    and T: "set_sorted (ItemTimeOp (tl_keys c)) T" "set T = set (tl_timed c) - {i}"
  shows "tl_inv (c\<lparr>tl_cache := map_erase (it_key it) (tl_cache c), tl_keys := node_erase i (tl_keys c), tl_timed := T\<rparr>)"
proof -
  note c = tl_invD [OF inv]
  let ?K = "node_erase i (tl_keys c)"
  note same = tl_same [OF inv i]
  have "set (map_erase (it_key it) (tl_cache c)) = (\<lambda>(i, it). (it_key it, i)) ` set ?K"
    unfolding set_map_erase c(4) set_node_erase using same by force
  moreover have "set_sorted (ItemTimeOp ?K) T"
  proof -
    have "ItemTimeOp ?K x = ItemTimeOp (tl_keys c) x" if "x \<in> set T" for x
      using that T(2) by (simp add: ItemTimeOp_def map_of_node_erase)
    then show ?thesis using set_sorted_cong [of T] T(1) by blast
  qed
  moreover have "set T = fst ` set ?K" using T(2) c(6) by force
  moreover have "distinct (map fst ?K)" "distinct (map (it_key \<circ> snd) ?K)"
    using c(1,2) by (simp_all add: node_erase_def distinct_map_filter)
  moreover have "\<forall>j \<in> fst ` set ?K. j < tl_fresh c" using c(7) by force
  ultimately show ?thesis using c(3) unfolding tl_inv_def by simp
qed

lemma tl_prune_loop_spec:
  assumes "tl_inv c"
  shows "\<exists>c'. tl_prune_loop n c = Inr (n + (length (tl_items c) - tl_maxSize c), c') \<and> tl_inv c' \<and>
           tl_items c' = take (tl_maxSize c) (tl_items c) \<and>
           tl_maxSize c' = tl_maxSize c \<and> tl_elasticity c' = tl_elasticity c \<and> tl_cb c' = tl_cb c \<and>
           tl_status c' = tl_status c \<and>
           tl_pruned c' = tl_pruned c @ (if tl_cb c then map (\<lambda>it. (it_key it, it_val it))
             (rev (drop (tl_maxSize c) (tl_items c))) else [])"
  using assms
proof (induction "length (tl_keys c)" arbitrary: n c rule: less_induct)
  case less
  note c = tl_invD [OF less.prems]
  show ?case
  proof (cases "tl_size c > tl_maxSize c")
    case False
    then show ?thesis
      using less.prems tl_size_keys [OF less.prems]
      by (subst tl_prune_loop.simps) (simp add: tl_items_def)
  next
    case True
    then have ne: "tl_keys c \<noteq> []" using tl_size_keys [OF less.prems] by auto
    obtain i bk where last: "last (tl_keys c) = (i, bk)" by fastforce
    have mem: "(i, bk) \<in> set (tl_keys c)" using ne last by (metis last_in_set)
    have look: "map_of (tl_keys c) i = Some bk" using c(1) mem by simp
    have bl: "butlast (tl_keys c) = node_erase i (tl_keys c)"
      using butlast_node_erase [OF c(1) ne] last by simp
    let ?T = "set_erase (ItemTimeOp (tl_keys c)) i (tl_timed c)"
    have "i \<in> set (tl_timed c)" using c(6) mem by force
    then have T: "set_sorted (ItemTimeOp (tl_keys c)) ?T" "set ?T = set (tl_timed c) - {i}"
      using c(5) by (simp_all add: set_set_erase)
    define c1 where "c1 = (tl_call bk c)\<lparr>tl_cache := map_erase (it_key bk) (tl_cache c),
        tl_timed := ?T, tl_keys := butlast (tl_keys c)\<rparr>"
    have "tl_inv (c\<lparr>tl_cache := map_erase (it_key bk) (tl_cache c), tl_keys := node_erase i (tl_keys c), tl_timed := ?T\<rparr>)"
      by (rule tl_remove_inv [OF less.prems look T])
    then have inv1: "tl_inv c1" by (simp add: c1_def tl_inv_def bl)
    have keys: "tl_keys c = butlast (tl_keys c) @ [(i, bk)]"
      using append_butlast_last_id [OF ne] last by simp
    have "tl_items c = map snd (butlast (tl_keys c) @ [(i, bk)])"
      unfolding tl_items_def by (rule arg_cong [OF keys])
    also have "\<dots> = tl_items c1 @ [bk]" by (simp add: c1_def tl_items_def)
    finally have items: "tl_items c = tl_items c1 @ [bk]" .
    have max: "tl_maxSize c1 = tl_maxSize c" "tl_elasticity c1 = tl_elasticity c" "tl_cb c1 = tl_cb c"
      "tl_status c1 = tl_status c"
      by (simp_all add: c1_def)
    have long: "tl_maxSize c \<le> length (tl_items c1)"
      using True tl_size_keys [OF less.prems] items by (metis Suc_leI length_append_singleton length_map less_Suc_eq_le tl_items_def)
    have "length (tl_keys c1) < length (tl_keys c)" using ne by (simp add: c1_def)
    from less.hyps [OF this inv1, of "Suc n"] obtain c' where
      c': "tl_prune_loop (Suc n) c1 = Inr (Suc n + (length (tl_items c1) - tl_maxSize c), c')" "tl_inv c'"
        "tl_items c' = take (tl_maxSize c) (tl_items c1)" "tl_maxSize c' = tl_maxSize c"
        "tl_elasticity c' = tl_elasticity c" "tl_cb c' = tl_cb c" "tl_status c' = tl_status c"
        "tl_pruned c' = tl_pruned c1 @ (if tl_cb c then map (\<lambda>it. (it_key it, it_val it))
             (rev (drop (tl_maxSize c) (tl_items c1))) else [])"
      unfolding max by blast
    have "tl_prune_loop n c = tl_prune_loop (Suc n) c1"
      using True ne last by (subst tl_prune_loop.simps) (simp add: c1_def)
    moreover have "tl_pruned c1 = tl_pruned c @ (if tl_cb c then [(it_key bk, it_val bk)] else [])"
      by (simp add: c1_def tl_call_def)
    ultimately show ?thesis
      using c' items long by (intro exI [of _ c']) (auto simp: Suc_diff_le)
  qed
qed

section \<open>The operations against their specification\<close>

definition lru_bound :: "nat \<Rightarrow> nat \<Rightarrow> 'a list \<Rightarrow> 'a list" where
  "lru_bound m e xs = (if m = 0 \<or> length xs < m + e then xs else take m xs)"

lemma tl_prune_spec:
  assumes "tl_inv c"
  shows "\<exists>n c'. tl_prune c = Inr (n, c') \<and> tl_inv c' \<and>
           tl_items c' = lru_bound (tl_maxSize c) (tl_elasticity c) (tl_items c) \<and>
           tl_maxSize c' = tl_maxSize c \<and> tl_elasticity c' = tl_elasticity c \<and>
           tl_pruned c' = tl_pruned c @ (if tl_cb c then map (\<lambda>it. (it_key it, it_val it))
             (rev (drop (length (tl_items c')) (tl_items c))) else [])"
proof (cases "tl_maxSize c = 0 \<or> tl_size c < tl_getMaxAllowedSize c")
  case True
  then show ?thesis
    using assms tl_size_keys [OF assms]
    by (auto simp: tl_prune_def lru_bound_def tl_getMaxAllowedSize_def tl_items_def)
next
  case False
  have len: "tl_size c = length (tl_items c)" using tl_size_keys [OF assms] by (simp add: tl_items_def)
  obtain c' where "tl_prune_loop 0 c = Inr (length (tl_items c) - tl_maxSize c, c')" "tl_inv c'"
    "tl_items c' = take (tl_maxSize c) (tl_items c)" "tl_maxSize c' = tl_maxSize c"
    "tl_elasticity c' = tl_elasticity c"
    "tl_pruned c' = tl_pruned c @ (if tl_cb c then map (\<lambda>it. (it_key it, it_val it))
             (rev (drop (tl_maxSize c) (tl_items c))) else [])"
    using tl_prune_loop_spec [OF assms, of 0] by auto
  moreover have "tl_maxSize c \<le> length (tl_items c)"
    using False len by (simp add: tl_getMaxAllowedSize_def)
  ultimately show ?thesis
    using False len
    by (auto simp: tl_prune_def lru_bound_def tl_getMaxAllowedSize_def min_absorb2 min_def)
qed

text \<open>A node at the front of the list, with a new value and time.\<close>

lemma tl_refresh_inv:
  assumes inv: "tl_inv c" and i: "map_of (tl_keys c) i = Some it" and it': "it_key it' = it_key it"
    and K: "K = (i, it') # node_erase i (tl_keys c)"
    and T: "T = set_insert (ItemTimeOp K) i (set_erase (ItemTimeOp (tl_keys c)) i (tl_timed c))"
  shows "tl_inv (c\<lparr>tl_keys := K, tl_timed := T\<rparr>)"
proof -
  note c = tl_invD [OF inv]
  let ?T = "set_erase (ItemTimeOp (tl_keys c)) i (tl_timed c)"
  have it: "(i, it) \<in> set (tl_keys c)" using i by (rule map_of_SomeD)
  have "i \<in> set (tl_timed c)" using it c(6) by force
  then have T1: "set_sorted (ItemTimeOp (tl_keys c)) ?T" "set ?T = set (tl_timed c) - {i}"
    using c(5) by (simp_all add: set_set_erase)
  have same: "ItemTimeOp K j = ItemTimeOp (tl_keys c) j" if "j \<noteq> i" for j
    using that by (simp add: K ItemTimeOp_def map_of_node_erase)
  then have sorted: "set_sorted (ItemTimeOp K) ?T"
    using T1 set_sorted_cong [of ?T "ItemTimeOp K" "ItemTimeOp (tl_keys c)"] by auto
  have fresh: "ItemTimeOp K i \<notin> ItemTimeOp K ` set ?T"
  proof
    assume "ItemTimeOp K i \<in> ItemTimeOp K ` set ?T"
    then obtain j where j: "j \<in> set (tl_timed c)" "j \<noteq> i" "ItemTimeOp K i = ItemTimeOp K j" using T1(2) by auto
    then obtain x where x: "map_of (tl_keys c) j = Some x" using tl_timed_valid [OF inv] by blast
    then have "it_key x = it_key it"
      using j(2,3) it' by (simp add: K ItemTimeOp_def map_of_node_erase)
    then show False using tl_same [OF inv i, of j x] x j(2) by (auto dest: map_of_SomeD)
  qed
  have T2: "set_sorted (ItemTimeOp K) T" "set T = insert i (set ?T)"
    unfolding T using sorted fresh by simp_all
  let ?R = "{p \<in> set (tl_keys c). fst p \<noteq> i}"
  have K': "set K = insert (i, it') ?R" by (simp add: K)
  have K0: "set (tl_keys c) = insert (i, it) ?R" using it eq_key_imp_eq_value [OF c(1)] by auto
  have "(\<lambda>(i, it). (it_key it, i)) ` set (tl_keys c) = (\<lambda>(i, it). (it_key it, i)) ` insert (i, it) ?R"
    "fst ` set (tl_keys c) = fst ` insert (i, it) ?R"
    by (rule arg_cong [OF K0])+
  then have img: "(\<lambda>(i, it). (it_key it, i)) ` set K = (\<lambda>(i, it). (it_key it, i)) ` set (tl_keys c)"
    "fst ` set K = fst ` set (tl_keys c)"
    unfolding K' by (simp_all only: image_insert prod.case it' fst_conv)
  have ids: "distinct (map fst K)" using c(1) by (auto simp: K node_erase_def distinct_map_filter)
  have keys: "distinct (map (it_key \<circ> snd) K)"
  proof -
    have "it_key it' \<notin> (it_key \<circ> snd) ` set (node_erase i (tl_keys c))"
      using tl_key_erased [OF inv i] it' by simp
    then show ?thesis using c(2) by (simp add: K node_erase_def distinct_map_filter)
  qed
  have "set T = fst ` set K" using T2(2) T1(2) c(6) img(2) it by force
  then show ?thesis
    unfolding tl_inv_def using ids keys c(3,4,7) img T2(1) by simp
qed

lemma tl_touch_inv:
  assumes inv: "tl_inv c" and i: "map_of (tl_keys c) i = Some it"
  shows "tl_inv (c\<lparr>tl_keys := node_to_front i (tl_keys c)\<rparr>)"
    and "tl_items (c\<lparr>tl_keys := node_to_front i (tl_keys c)\<rparr>) =
           it # filter (\<lambda>x. it_key x \<noteq> it_key it) (tl_items c)"
proof -
  note c = tl_invD [OF inv]
  have K: "node_to_front i (tl_keys c) = (i, it) # node_erase i (tl_keys c)"
    by (rule node_to_front_eq [OF c(1) i])
  show "tl_items (c\<lparr>tl_keys := node_to_front i (tl_keys c)\<rparr>) =
           it # filter (\<lambda>x. it_key x \<noteq> it_key it) (tl_items c)"
    using tl_items_node_erase [OF inv i] by (simp add: tl_items_def K)
  have "distinct (map fst (node_to_front i (tl_keys c)))"
    using c(1) by (auto simp: K node_erase_def distinct_map_filter)
  moreover have "distinct (map (it_key \<circ> snd) (node_to_front i (tl_keys c)))"
  proof -
    have "it_key it \<notin> (it_key \<circ> snd) ` set (node_erase i (tl_keys c))"
      by (rule tl_key_erased [OF inv i])
    then show ?thesis using c(2) by (simp add: K node_erase_def distinct_map_filter)
  qed
  moreover have "map_of (node_to_front i (tl_keys c)) = map_of (tl_keys c)"
    using i by (auto simp: K map_of_node_erase fun_eq_iff)
  then have "ItemTimeOp (node_to_front i (tl_keys c)) = ItemTimeOp (tl_keys c)"
    by (simp add: ItemTimeOp_def fun_eq_iff)
  ultimately show "tl_inv (c\<lparr>tl_keys := node_to_front i (tl_keys c)\<rparr>)"
    using c unfolding tl_inv_def by simp
qed

lemma tl_add_inv:
  assumes inv: "tl_inv c" and k: "map_of (tl_cache c) k = None" and it: "it_key it = k"
    and K: "K = (tl_fresh c, it) # tl_keys c"
    and T: "T = set_insert (ItemTimeOp K) (tl_fresh c) (tl_timed c)"
  shows "tl_inv (c\<lparr>tl_keys := K, tl_cache := map_insert k (tl_fresh c) (tl_cache c), tl_timed := T,
                   tl_fresh := Suc (tl_fresh c)\<rparr>)"
proof -
  note c = tl_invD [OF inv]
  have new: "tl_fresh c \<notin> fst ` set (tl_keys c)" using c(7) by blast
  have key: "k \<notin> (it_key \<circ> snd) ` set (tl_keys c)"
    using k tl_lookup_None [OF inv] by (auto simp: tl_items_def)
  have same: "ItemTimeOp K j = ItemTimeOp (tl_keys c) j" if "j \<in> set (tl_timed c)" for j
  proof -
    have "j \<noteq> tl_fresh c" using that new c(6) by metis
    then show ?thesis by (simp add: K ItemTimeOp_def)
  qed
  then have sorted: "set_sorted (ItemTimeOp K) (tl_timed c)"
    using c(5) set_sorted_cong [of "tl_timed c" "ItemTimeOp K" "ItemTimeOp (tl_keys c)"] by blast
  have "ItemTimeOp K (tl_fresh c) \<notin> ItemTimeOp K ` set (tl_timed c)"
  proof
    assume "ItemTimeOp K (tl_fresh c) \<in> ItemTimeOp K ` set (tl_timed c)"
    then obtain j where j: "j \<in> set (tl_timed c)" "ItemTimeOp K (tl_fresh c) = ItemTimeOp (tl_keys c) j"
      using same by auto
    then obtain x where x: "map_of (tl_keys c) j = Some x" using tl_timed_valid [OF inv] by blast
    then have "it_key x = k" using j(2) it by (simp add: K ItemTimeOp_def)
    moreover have "(j, x) \<in> set (tl_keys c)" using x by (rule map_of_SomeD)
    ultimately show False using key by (force simp: image_iff)
  qed
  then have T2: "set_sorted (ItemTimeOp K) T" "set T = insert (tl_fresh c) (set (tl_timed c))"
    unfolding T using sorted by simp_all
  have "set (map_insert k (tl_fresh c) (tl_cache c)) = (\<lambda>(i, it). (it_key it, i)) ` set K"
    using k it c(4) by (simp add: map_insert_def K)
  moreover have "distinct (map fst K)" "distinct (map (it_key \<circ> snd) K)"
    using c(1,2) new key it by (auto simp: K)
  moreover have "set T = fst ` set K" using T2(2) c(6) by (simp add: K)
  moreover have "\<forall>i \<in> fst ` set K. i < Suc (tl_fresh c)" using c(7) by (auto simp: K less_Suc_eq)
  ultimately show ?thesis unfolding tl_inv_def using c(3) T2(1) by simp
qed

text \<open>The specification of \<^verbatim>\<open>set\<close> on the list of items.\<close>

definition lru_set :: "nat \<Rightarrow> nat \<Rightarrow> ('k, 'v) item \<Rightarrow> ('k, 'v) item list \<Rightarrow> ('k, 'v) item list" where
  "lru_set m e it xs =
     (if it_key it \<in> it_key ` set xs then it # filter (\<lambda>x. it_key x \<noteq> it_key it) xs
      else lru_bound m e (it # xs))"

lemma tl_set_spec:
  assumes inv: "tl_inv c"
  shows "\<exists>c'. tl_set k v expired now c = Inr c' \<and> tl_inv c' \<and>
           tl_maxSize c' = tl_maxSize c \<and> tl_elasticity c' = tl_elasticity c \<and>
           tl_items c' = lru_set (tl_maxSize c) (tl_elasticity c)
             \<lparr>it_key = k, it_val = v, it_ts = ts_add expired now\<rparr> (tl_items c)"
proof -
  let ?c = "c\<lparr>tl_status := snd (incSet 1 (tl_status c))\<rparr>"
  let ?it = "\<lparr>it_key = k, it_val = v, it_ts = ts_add expired now\<rparr>"
  have inv0: "tl_inv ?c" using inv by simp
  show ?thesis
  proof (cases "map_of (tl_cache c) k")
    case None
    let ?K = "(tl_fresh ?c, ?it) # tl_keys ?c"
    let ?c1 = "?c\<lparr>tl_keys := ?K, tl_cache := map_insert k (tl_fresh ?c) (tl_cache ?c),
        tl_timed := set_insert (ItemTimeOp ?K) (tl_fresh ?c) (tl_timed ?c), tl_fresh := Suc (tl_fresh ?c)\<rparr>"
    have "tl_inv ?c1" by (rule tl_add_inv [OF inv0]) (simp_all add: None)
    from tl_prune_spec [OF this] obtain n c' where
      c': "tl_prune ?c1 = Inr (n, c')" "tl_inv c'" "tl_maxSize c' = tl_maxSize c" "tl_elasticity c' = tl_elasticity c"
        "tl_items c' = lru_bound (tl_maxSize c) (tl_elasticity c) (?it # tl_items c)"
      by (auto simp: tl_items_def)
    have "tl_set k v expired now c = Inr c'"
      using None c'(1) by (simp add: tl_set_def Let_def)
    moreover have "k \<notin> it_key ` set (tl_items c)" using None tl_lookup_None [OF inv] by blast
    ultimately show ?thesis using c' by (simp add: lru_set_def)
  next
    case (Some i)
    from tl_lookup_Some [OF inv Some] obtain it where it: "map_of (tl_keys c) i = Some it" "it_key it = k" by blast
    have F: "node_to_front i (tl_keys c) = (i, it) # node_erase i (tl_keys c)"
      by (rule node_to_front_eq [OF tl_inv_ids [OF inv] it(1)])
    let ?it' = "it\<lparr>it_val := v, it_ts := ts_add expired now\<rparr>"
    have U: "node_update i (\<lambda>it. it\<lparr>it_val := v, it_ts := ts_add expired now\<rparr>) (node_to_front i (tl_keys c)) =
        (i, ?it') # node_erase i (tl_keys c)"
      by (simp add: F)
    have same: "ItemTimeOp (node_to_front i (tl_keys c)) = ItemTimeOp (tl_keys c)"
      using it(1) by (auto simp: F ItemTimeOp_def map_of_node_erase fun_eq_iff)
    let ?K = "(i, ?it') # node_erase i (tl_keys c)"
    let ?c1 = "?c\<lparr>tl_keys := ?K,
        tl_timed := set_insert (ItemTimeOp ?K) i (set_erase (ItemTimeOp (tl_keys c)) i (tl_timed c))\<rparr>"
    have "tl_inv ?c1"
      using tl_refresh_inv [OF inv0, of i it ?it' ?K] it by simp
    moreover have "tl_set k v expired now c = Inr ?c1"
      using Some by (simp add: tl_set_def Let_def U same)
    moreover have "?it' = ?it" using it(2) by (cases it) simp
    moreover have "k \<in> it_key ` set (tl_items c)" using tl_node_item [OF it(1)] it(2) by blast
    moreover have "tl_items ?c1 = ?it' # filter (\<lambda>x. it_key x \<noteq> k) (tl_items c)"
      using tl_items_node_erase [OF inv it(1)] it(2) by (simp add: tl_items_def)
    ultimately show ?thesis by (simp add: lru_set_def)
  qed
qed

lemma find_filter: "find P xs = (case filter P xs of [] \<Rightarrow> None | y # _ \<Rightarrow> Some y)"
  by (induction xs) auto

lemma tl_get_spec:
  assumes inv: "tl_inv c"
  shows "\<exists>c'. tl_get k c = Inr (map_option it_val (find (\<lambda>x. it_key x = k) (tl_items c)), c') \<and> tl_inv c' \<and>
           tl_maxSize c' = tl_maxSize c \<and> tl_elasticity c' = tl_elasticity c \<and>
           tl_items c' = filter (\<lambda>x. it_key x = k) (tl_items c) @ filter (\<lambda>x. it_key x \<noteq> k) (tl_items c)"
proof (cases "map_of (tl_cache c) k")
  case None
  then have "k \<notin> it_key ` set (tl_items c)" using tl_lookup_None [OF inv] by blast
  then have "find (\<lambda>x. it_key x = k) (tl_items c) = None" "filter (\<lambda>x. it_key x = k) (tl_items c) = []"
    "filter (\<lambda>x. it_key x \<noteq> k) (tl_items c) = tl_items c"
    by (auto simp: find_None_iff filter_empty_conv filter_id_conv)
  with None inv show ?thesis by (simp add: tl_get_def)
next
  case (Some i)
  from tl_lookup_Some [OF inv Some] obtain it where it: "map_of (tl_keys c) i = Some it" "it_key it = k" by blast
  have mem: "it \<in> set (tl_items c)" by (rule tl_node_item [OF it(1)])
  have dist: "distinct (map it_key (tl_items c))" using tl_inv_keys [OF inv] by (simp add: tl_items_def)
  have one: "filter (\<lambda>x. it_key x = k) (tl_items c) = [it]"
  proof -
    have "filter (\<lambda>x. it_key x = k) xs = [y]" if "distinct (map it_key xs)" "y \<in> set xs" "it_key y = k" for xs and y :: "('a, 'b) item"
      using that
    proof (induction xs)
      case (Cons x xs)
      show ?case
      proof (cases "x = y")
        case True
        have "filter (\<lambda>x. it_key x = k) xs = []" using Cons.prems(1,3) True by (auto simp: filter_empty_conv image_iff)
        with True Cons.prems(3) show ?thesis by simp
      next
        case False
        with Cons show ?thesis by auto
      qed
    qed simp
    from this [OF dist mem it(2)] show ?thesis .
  qed
  then have "find (\<lambda>x. it_key x = k) (tl_items c) = Some it"
    by (simp add: find_filter)
  with Some it one tl_touch_inv [OF inv it(1)] show ?thesis
    by (simp add: tl_get_def tl_inv_def tl_items_def)
qed

lemma tl_del_spec:
  assumes inv: "tl_inv c"
  shows "\<exists>c'. tl_del k c = (k \<in> it_key ` set (tl_items c), c') \<and> tl_inv c' \<and>
           tl_maxSize c' = tl_maxSize c \<and> tl_elasticity c' = tl_elasticity c \<and>
           tl_items c' = filter (\<lambda>x. it_key x \<noteq> k) (tl_items c)"
proof (cases "map_of (tl_cache c) k")
  case None
  then have "k \<notin> it_key ` set (tl_items c)" using tl_lookup_None [OF inv] by blast
  then have "filter (\<lambda>x. it_key x \<noteq> k) (tl_items c) = tl_items c" by (auto simp: filter_id_conv)
  with None inv \<open>k \<notin> it_key ` set (tl_items c)\<close> show ?thesis by (simp add: tl_del_def)
next
  case (Some i)
  from tl_lookup_Some [OF inv Some] obtain it where it: "map_of (tl_keys c) i = Some it" "it_key it = k" by blast
  let ?T = "set_erase (ItemTimeOp (tl_keys c)) i (tl_timed c)"
  have "i \<in> set (tl_timed c)" using it(1) tl_inv_timed [OF inv] by (force dest: map_of_SomeD)
  then have T: "set_sorted (ItemTimeOp (tl_keys c)) ?T" "set ?T = set (tl_timed c) - {i}"
    using tl_inv_sorted [OF inv] by (simp_all add: set_set_erase)
  let ?c1 = "c\<lparr>tl_cache := map_erase (it_key it) (tl_cache c), tl_keys := node_erase i (tl_keys c), tl_timed := ?T\<rparr>"
  have "tl_inv ?c1" by (rule tl_remove_inv [OF inv it(1) T])
  moreover have "tl_items ?c1 = filter (\<lambda>x. it_key x \<noteq> k) (tl_items c)"
    using tl_items_node_erase [OF inv it(1)] it(2) by (simp add: tl_items_def)
  moreover have "k \<in> it_key ` set (tl_items c)" using tl_node_item [OF it(1)] it(2) by blast
  ultimately show ?thesis
    using Some it(2) by (simp add: tl_del_def tl_inv_def tl_items_def)
qed

lemma tl_expire_loop_spec:
  assumes "tl_inv c" and "tl_timed c = rest"
  shows "\<exists>c'. tl_expire_loop ts rest sz c = Inr (sz + length (filter (\<lambda>x. it_ts x \<le> ts) (tl_items c)), c') \<and>
           tl_inv c' \<and> tl_maxSize c' = tl_maxSize c \<and> tl_elasticity c' = tl_elasticity c \<and>
           tl_items c' = filter (\<lambda>x. ts < it_ts x) (tl_items c)"
  using assms
proof (induction rest arbitrary: sz c)
  case Nil
  then have "tl_keys c = []" using tl_inv_timed [OF Nil.prems(1)] by auto
  with Nil show ?case by (simp add: tl_items_def)
next
  case (Cons i rest)
  note c = tl_invD [OF Cons.prems(1)]
  obtain it where it: "map_of (tl_keys c) i = Some it"
    using tl_timed_valid [OF Cons.prems(1)] Cons.prems(2) by fastforce
  have sorted: "set_sorted (ItemTimeOp (tl_keys c)) (i # rest)" using c(5) Cons.prems(2) by simp
  show ?case
  proof (cases "it_ts it \<le> ts")
    case True
    let ?c0 = "tl_call it c"
    let ?c1 = "?c0\<lparr>tl_cache := map_erase (it_key it) (tl_cache ?c0), tl_keys := node_erase i (tl_keys ?c0),
                   tl_timed := rest\<rparr>"
    have T: "set_sorted (ItemTimeOp (tl_keys ?c0)) rest" "set rest = set (tl_timed ?c0) - {i}"
      using sorted set_sorted_distinct [OF sorted] Cons.prems(2) by (auto simp: set_sorted_Cons)
    have inv0: "tl_inv ?c0" using Cons.prems(1) by simp
    have inv1: "tl_inv ?c1" by (rule tl_remove_inv [OF inv0 _ T]) (simp add: it)
    have items: "tl_items ?c1 = filter (\<lambda>x. it_key x \<noteq> it_key it) (tl_items c)"
      using tl_items_node_erase [OF Cons.prems(1) it] by (simp add: tl_items_def)
    have max: "tl_maxSize ?c1 = tl_maxSize c" "tl_elasticity ?c1 = tl_elasticity c" "tl_timed ?c1 = rest" by simp_all
    have it_only: "x = it" if h: "x \<in> set (tl_items c)" "it_key x = it_key it" for x
    proof -
      from h(1) obtain j where j: "(j, x) \<in> set (tl_keys c)" by (auto simp: tl_items_def)
      then have "j = i" using tl_same [OF Cons.prems(1) it] h(2) by blast
      with j it show "x = it" using map_of_is_SomeI [OF c(1) j] by simp
    qed
    have gt: "filter (\<lambda>x. ts < it_ts x) (tl_items ?c1) = filter (\<lambda>x. ts < it_ts x) (tl_items c)"
      unfolding items filter_filter by (intro filter_cong refl) (use it_only True in \<open>force simp: not_less\<close>)
    have le: "length (filter (\<lambda>x. it_ts x \<le> ts) (tl_items c)) = Suc (length (filter (\<lambda>x. it_ts x \<le> ts) (tl_items ?c1)))"
    proof -
      have d: "distinct (tl_items c)" using c(2) distinct_map [of it_key "tl_items c"] by (simp add: tl_items_def)
      have "length (filter P (tl_items c)) = card {x \<in> set (tl_items c). P x}" for P
        using d by (metis distinct_card distinct_filter set_filter)
      moreover have "{x \<in> set (tl_items c). it_ts x \<le> ts} =
          insert it {x \<in> set (tl_items c). it_key x \<noteq> it_key it \<and> it_ts x \<le> ts}"
        using it_only tl_node_item [OF it] True by auto
      ultimately show ?thesis unfolding items filter_filter by (simp add: conj_commute)
    qed
    from Cons.IH [OF inv1 max(3), of "Suc sz"] obtain c' where
      "tl_expire_loop ts rest (Suc sz) ?c1 = Inr (Suc sz + length (filter (\<lambda>x. it_ts x \<le> ts) (tl_items ?c1)), c')"
      "tl_inv c'" "tl_maxSize c' = tl_maxSize c" "tl_elasticity c' = tl_elasticity c"
      "tl_items c' = filter (\<lambda>x. ts < it_ts x) (tl_items ?c1)"
      using max(1,2) by auto
    with it True gt le show ?thesis by (simp add: Let_def)
  next
    case False
    have "ts < it_ts x" if "x \<in> set (tl_items c)" for x
    proof -
      obtain j where j: "(j, x) \<in> set (tl_keys c)" using \<open>x \<in> set (tl_items c)\<close> by (auto simp: tl_items_def)
      then have jx: "map_of (tl_keys c) j = Some x" using c(1) by simp
      have "j \<in> set (i # rest)" using c(6) Cons.prems(2) j by force
      then have "j = i \<or> ItemTimeOp (tl_keys c) i < ItemTimeOp (tl_keys c) j"
        using sorted by (auto simp: set_sorted_Cons)
      then show ?thesis using it jx False by (auto simp: ItemTimeOp_def less_prod_def)
    qed
    then have "filter (\<lambda>x. it_ts x \<le> ts) (tl_items c) = []" "filter (\<lambda>x. ts < it_ts x) (tl_items c) = tl_items c"
      by (auto simp: filter_empty_conv filter_id_conv not_le)
    with it False Cons.prems(1) show ?thesis by simp
  qed
qed

lemma tl_checkTimeout_spec:
  assumes "tl_inv c"
  shows "\<exists>c'. tl_checkTimeout ts c = Inr (length (filter (\<lambda>x. it_ts x \<le> ts) (tl_items c)), c') \<and>
           tl_inv c' \<and> tl_maxSize c' = tl_maxSize c \<and> tl_elasticity c' = tl_elasticity c \<and>
           tl_items c' = filter (\<lambda>x. ts < it_ts x) (tl_items c)"
  using tl_expire_loop_spec [OF assms refl, of ts 0] by (simp add: tl_checkTimeout_def)

end
