(* ===== verification/CacheContract.thy ===== *)
theory CacheContract imports Containers begin

text \<open>
  What the caches of \<^verbatim>\<open>seaice/ds\<close> promise their users, as locales, and the facts that follow from
  the promises for every sequence of operations; then the sharing of a cache among buckets
  (\<^verbatim>\<open>HashLruCache\<close>, \<^verbatim>\<open>HashTimeCache\<close>, \<^verbatim>\<open>HashTimedLruCache\<close>): the buckets' contract gives the whole's.
\<close>

section \<open>Sequences of operations\<close>

text \<open>\<^verbatim>\<open>Shrink\<close> is an operation that only removes entries: a sweep of the expired ones, or \<^verbatim>\<open>clear\<close>.\<close>

datatype ('k, 'v, 't, 's) cache_op =
    Put 'k 'v 't
  | Get 'k
  | Del 'k
  | Shrink 's

text \<open>The answers of the \<open>Get\<close>s of a sequence, and the state after it.\<close>

fun cache_run ::
  "('k \<Rightarrow> 'v \<Rightarrow> 't \<Rightarrow> 'c \<Rightarrow> fault + 'c) \<Rightarrow> ('k \<Rightarrow> 'c \<Rightarrow> fault + ('v option \<times> 'c)) \<Rightarrow>
   ('k \<Rightarrow> 'c \<Rightarrow> fault + (bool \<times> 'c)) \<Rightarrow> ('s \<Rightarrow> 'c \<Rightarrow> fault + (nat \<times> 'c)) \<Rightarrow>
   ('k, 'v, 't, 's) cache_op list \<Rightarrow> 'c \<Rightarrow> fault + ('v option list \<times> 'c)" where
  "cache_run put get del shrink [] c = Inr ([], c)"
| "cache_run put get del shrink (Put k v t # ops) c =
     rbind (put k v t c) (\<lambda>c. cache_run put get del shrink ops c)"
| "cache_run put get del shrink (Get k # ops) c =
     rbind (get k c) (\<lambda>(r, c). rbind (cache_run put get del shrink ops c) (\<lambda>(rs, c). Inr (r # rs, c)))"
| "cache_run put get del shrink (Del k # ops) c =
     rbind (del k c) (\<lambda>(_, c). cache_run put get del shrink ops c)"
| "cache_run put get del shrink (Shrink s # ops) c =
     rbind (shrink s c) (\<lambda>(_, c). cache_run put get del shrink ops c)"

text \<open>
  The answers a cache may give: a miss, or the value last put under the key and not deleted since.
  \<open>m\<close> is the map of an unbounded store that sees the same operations.
\<close>

fun never_stale :: "('k, 'v, 't, 's) cache_op list \<Rightarrow> ('k \<rightharpoonup> 'v) \<Rightarrow> 'v option list \<Rightarrow> bool" where
  "never_stale [] m rs = (rs = [])"
| "never_stale (Put k v t # ops) m rs = never_stale ops (m(k \<mapsto> v)) rs"
| "never_stale (Get k # ops) m rs =
     (case rs of [] \<Rightarrow> False | r # rs \<Rightarrow> (r = None \<or> r = m k) \<and> never_stale ops m rs)"
| "never_stale (Del k # ops) m rs = never_stale ops (m(k := None)) rs"
| "never_stale (Shrink s # ops) m rs = never_stale ops m rs"

text \<open>The weaker promise: a hit is a value that was put under that very key, at some time.\<close>

fun never_invented :: "('k, 'v, 't, 's) cache_op list \<Rightarrow> ('k \<Rightarrow> 'v set) \<Rightarrow> 'v option list \<Rightarrow> bool" where
  "never_invented [] m rs = (rs = [])"
| "never_invented (Put k v t # ops) m rs = never_invented ops (m(k := insert v (m k))) rs"
| "never_invented (Get k # ops) m rs =
     (case rs of [] \<Rightarrow> False | r # rs \<Rightarrow> set_option r \<subseteq> m k \<and> never_invented ops m rs)"
| "never_invented (Del k # ops) m rs = never_invented ops m rs"
| "never_invented (Shrink s # ops) m rs = never_invented ops m rs"

section \<open>The contract\<close>

text \<open>\<open>look\<close> is what the next \<^verbatim>\<open>get\<close> would find, \<open>vals\<close> the values the cache still holds for a key.\<close>

locale value_cache =
  fixes inv :: "'c \<Rightarrow> bool"
    and look :: "'c \<Rightarrow> 'k \<Rightarrow> 'v option"
    and vals :: "'c \<Rightarrow> 'k \<Rightarrow> 'v set"
    and put :: "'k \<Rightarrow> 'v \<Rightarrow> 't \<Rightarrow> 'c \<Rightarrow> fault + 'c"
    and get :: "'k \<Rightarrow> 'c \<Rightarrow> fault + ('v option \<times> 'c)"
    and del :: "'k \<Rightarrow> 'c \<Rightarrow> fault + (bool \<times> 'c)"
    and shrink :: "'s \<Rightarrow> 'c \<Rightarrow> fault + (nat \<times> 'c)"
  assumes look_vals: "inv c \<Longrightarrow> set_option (look c k) \<subseteq> vals c k"
    and put_law: "inv c \<Longrightarrow> \<exists>c'. put k v t c = Inr c' \<and> inv c' \<and>
      vals c' k \<subseteq> insert v (vals c k) \<and> (\<forall>j. j \<noteq> k \<longrightarrow> vals c' j \<subseteq> vals c j)"
    and get_law: "inv c \<Longrightarrow> \<exists>c'. get k c = Inr (look c k, c') \<and> inv c' \<and> look c' = look c \<and>
      (\<forall>j. vals c' j \<subseteq> vals c j)"
    and del_law: "inv c \<Longrightarrow> \<exists>b c'. del k c = Inr (b, c') \<and> inv c' \<and> look c' k = None \<and>
      (\<forall>j. vals c' j \<subseteq> vals c j)"
    and shrink_law: "inv c \<Longrightarrow> \<exists>n c'. shrink s c = Inr (n, c') \<and> inv c' \<and> (\<forall>j. vals c' j \<subseteq> vals c j)"
begin

lemma hits_were_put:
  assumes "inv c" and "\<forall>k. vals c k \<subseteq> m k"
  shows "\<exists>rs c'. cache_run put get del shrink ops c = Inr (rs, c') \<and> inv c' \<and> never_invented ops m rs"
  using assms
proof (induction ops arbitrary: c m)
  case Nil
  then show ?case by simp
next
  case (Cons x ops)
  show ?case
  proof (cases x)
    case (Put k v t)
    from put_law [OF Cons.prems(1), of k v t] obtain c' where c': "put k v t c = Inr c'" "inv c'"
      "vals c' k \<subseteq> insert v (vals c k)" "\<forall>j. j \<noteq> k \<longrightarrow> vals c' j \<subseteq> vals c j" by blast
    have "\<forall>j. vals c' j \<subseteq> (m(k := insert v (m k))) j"
      using c'(3,4) Cons.prems(2) by (auto split: if_splits) blast+
    from Cons.IH [OF c'(2) this] c'(1) Put show ?thesis by (auto simp: fun_upd_def)
  next
    case (Get k)
    from get_law [OF Cons.prems(1), of k] obtain c' where c': "get k c = Inr (look c k, c')" "inv c'"
      "\<forall>j. vals c' j \<subseteq> vals c j" by blast
    have "\<forall>j. vals c' j \<subseteq> m j" using c'(3) Cons.prems(2) by blast
    moreover have "set_option (look c k) \<subseteq> m k" using look_vals [OF Cons.prems(1)] Cons.prems(2) by blast
    ultimately show ?thesis using Cons.IH [OF c'(2), of m] c'(1) Get by auto
  next
    case (Del k)
    from del_law [OF Cons.prems(1), of k] obtain b c' where c': "del k c = Inr (b, c')" "inv c'"
      "\<forall>j. vals c' j \<subseteq> vals c j" by blast
    have "\<forall>j. vals c' j \<subseteq> m j" using c'(3) Cons.prems(2) by blast
    from Cons.IH [OF c'(2) this] c'(1) Del show ?thesis by (auto simp: fun_upd_def)
  next
    case (Shrink s)
    from shrink_law [OF Cons.prems(1), of s] obtain n c' where c': "shrink s c = Inr (n, c')" "inv c'"
      "\<forall>j. vals c' j \<subseteq> vals c j" by blast
    have "\<forall>j. vals c' j \<subseteq> m j" using c'(3) Cons.prems(2) by blast
    from Cons.IH [OF c'(2) this] c'(1) Shrink show ?thesis by auto
  qed
qed

end

text \<open>A cache that keeps nothing but what it shows, and shows what was put into it.\<close>

locale fresh_cache = value_cache +
  assumes vals_look: "inv c \<Longrightarrow> vals c k = set_option (look c k)"
    and put_fresh: "inv c \<Longrightarrow> put k v t c = Inr c' \<Longrightarrow> look c' k = Some v"
begin

lemma look_le:
  assumes "inv c" and "inv c'" and "vals c' j \<subseteq> vals c j" and "look c j \<in> {None, r}"
  shows "look c' j \<in> {None, r}"
  using assms vals_look [OF assms(1), of j] vals_look [OF assms(2), of j]
  by (cases "look c' j"; cases "look c j") auto

lemma hits_are_current:
  assumes "inv c" and "\<forall>k. look c k \<in> {None, m k}"
  shows "\<exists>rs c'. cache_run put get del shrink ops c = Inr (rs, c') \<and> inv c' \<and> never_stale ops m rs"
  using assms
proof (induction ops arbitrary: c m)
  case Nil
  then show ?case by simp
next
  case (Cons x ops)
  note le = look_le [OF Cons.prems(1)] and now = spec [OF Cons.prems(2)]
  show ?case
  proof (cases x)
    case (Put k v t)
    from put_law [OF Cons.prems(1), of k v t] obtain c' where c': "put k v t c = Inr c'" "inv c'"
      "\<forall>j. j \<noteq> k \<longrightarrow> vals c' j \<subseteq> vals c j" by blast
    have "look c' j \<in> {None, (m(k \<mapsto> v)) j}" for j
      using put_fresh [OF Cons.prems(1) c'(1)] le [OF c'(2), of j "m j"] now [of j] c'(3)
      by (cases "j = k") simp_all
    then have "\<forall>j. look c' j \<in> {None, (m(k \<mapsto> v)) j}" by blast
    from Cons.IH [OF c'(2) this] c'(1) Put show ?thesis by (auto simp: fun_upd_def)
  next
    case (Get k)
    from get_law [OF Cons.prems(1), of k] obtain c' where c': "get k c = Inr (look c k, c')" "inv c'"
      "look c' = look c" by blast
    from Cons.IH [OF c'(2), of m] c' Cons.prems(2) Get show ?thesis by auto
  next
    case (Del k)
    from del_law [OF Cons.prems(1), of k] obtain b c' where c': "del k c = Inr (b, c')" "inv c'"
      "look c' k = None" "\<forall>j. vals c' j \<subseteq> vals c j" by blast
    have "look c' j \<in> {None, (m(k := None)) j}" for j
      using le [OF c'(2), of j "m j"] now [of j] c'(3,4) by (cases "j = k") simp_all
    then have "\<forall>j. look c' j \<in> {None, (m(k := None)) j}" by blast
    from Cons.IH [OF c'(2) this] c'(1) Del show ?thesis by (auto simp: fun_upd_def)
  next
    case (Shrink s)
    from shrink_law [OF Cons.prems(1), of s] obtain n c' where c': "shrink s c = Inr (n, c')" "inv c'"
      "\<forall>j. vals c' j \<subseteq> vals c j" by blast
    have "\<forall>j. look c' j \<in> {None, m j}"
      using le [OF c'(2)] now c'(3) by simp
    from Cons.IH [OF c'(2) this] c'(1) Shrink show ?thesis by auto
  qed
qed

end

section \<open>Buckets\<close>

text \<open>
  The state of the \<^verbatim>\<open>Hash\<close> caches: one counter object that every bucket updates through its pointer,
  and the buckets. \<open>put_st\<close> and \<open>get_st\<close> write and read a bucket's counters.
\<close>

record ('c, 's) hash_cache =
  hc_bucket :: nat
  hc_maxSize :: nat
  hc_elasticity :: nat
  hc_status :: 's
  hc_datas :: "'c list"

text \<open>One call on \<^verbatim>\<open>m_datas[m_hash(k) % m_bucket]\<close>.\<close>

definition hc_at ::
  "('s \<Rightarrow> 'c \<Rightarrow> 'c) \<Rightarrow> ('c \<Rightarrow> 's) \<Rightarrow> nat \<Rightarrow> ('c \<Rightarrow> fault + ('r \<times> 'c)) \<Rightarrow> ('c, 's) hash_cache \<Rightarrow>
   fault + ('r \<times> ('c, 's) hash_cache)" where
  "hc_at put_st get_st h f hc =
     (if hc_bucket hc = 0 then Inl DivByZero
      else
        let i = h mod hc_bucket hc in
        if i < length (hc_datas hc) then
          rbind (f (put_st (hc_status hc) (hc_datas hc ! i))) (\<lambda>(r, c).
            Inr (r, hc\<lparr>hc_datas := (hc_datas hc)[i := c], hc_status := get_st c\<rparr>))
        else Inl OutOfBounds)"

text \<open>A loop over all buckets that adds up their results.\<close>

fun hc_each ::
  "('s \<Rightarrow> 'c \<Rightarrow> 'c) \<Rightarrow> ('c \<Rightarrow> 's) \<Rightarrow> ('c \<Rightarrow> fault + (nat \<times> 'c)) \<Rightarrow> 's \<Rightarrow> 'c list \<Rightarrow> fault + (nat \<times> 's \<times> 'c list)" where
  "hc_each put_st get_st f s [] = Inr (0, s, [])"
| "hc_each put_st get_st f s (c # cs) =
     rbind (f (put_st s c)) (\<lambda>(n, c).
     rbind (hc_each put_st get_st f (get_st c) cs) (\<lambda>(m, s, cs). Inr (n + m, s, c # cs)))"

definition hc_all ::
  "('s \<Rightarrow> 'c \<Rightarrow> 'c) \<Rightarrow> ('c \<Rightarrow> 's) \<Rightarrow> ('c \<Rightarrow> fault + (nat \<times> 'c)) \<Rightarrow> ('c, 's) hash_cache \<Rightarrow> fault + (nat \<times> ('c, 's) hash_cache)" where
  "hc_all put_st get_st f hc =
     rbind (hc_each put_st get_st f (hc_status hc) (hc_datas hc)) (\<lambda>(n, s, cs).
       Inr (n, hc\<lparr>hc_status := s, hc_datas := cs\<rparr>))"

text \<open>\<^verbatim>\<open>std::ceil(a * 1.0 / b)\<close>, exact for \<open>a < 2^53\<close>.\<close>

definition ceil_div :: "nat \<Rightarrow> nat \<Rightarrow> nat" where
  "ceil_div a b = (a + b - 1) div b"

lemma ceil_div_bounds:
  assumes "0 < b"
  shows "a \<le> ceil_div a b * b" and "ceil_div a b * b < a + b"
proof -
  have "ceil_div a b * b = (a + b - 1) - (a + b - 1) mod b"
    by (simp add: ceil_div_def minus_mod_eq_div_mult)
  moreover have "(a + b - 1) mod b < b" using assms by simp
  ultimately show "a \<le> ceil_div a b * b" "ceil_div a b * b < a + b" using assms by linarith+
qed

definition hc_look :: "('c \<Rightarrow> 'k \<Rightarrow> 'v) \<Rightarrow> ('k \<Rightarrow> nat) \<Rightarrow> ('c, 's) hash_cache \<Rightarrow> 'k \<Rightarrow> 'v" where
  "hc_look look hash hc k = look (hc_datas hc ! (hash k mod hc_bucket hc)) k"

definition hc_inv :: "('c \<Rightarrow> bool) \<Rightarrow> ('c, 's) hash_cache \<Rightarrow> bool" where
  "hc_inv ok hc \<longleftrightarrow> 0 < hc_bucket hc \<and> length (hc_datas hc) = hc_bucket hc \<and> (\<forall>c \<in> set (hc_datas hc). ok c)"

lemma hc_invD:
  assumes "hc_inv ok hc"
  shows "h mod hc_bucket hc < length (hc_datas hc)" and "ok (hc_datas hc ! (h mod hc_bucket hc))"
  using assms by (simp_all add: hc_inv_def)

lemma hc_inv_update:
  "hc_inv ok hc \<Longrightarrow> ok c \<Longrightarrow> hc_inv ok (hc\<lparr>hc_datas := (hc_datas hc)[i := c], hc_status := s\<rparr>)"
  using set_update_subset_insert [of "hc_datas hc" i c] by (auto simp: hc_inv_def)

lemma hc_at_Inr:
  assumes "hc_inv ok hc"
    and "f (put_st (hc_status hc) (hc_datas hc ! (h mod hc_bucket hc))) = Inr (r, c)"
  shows "hc_at put_st get_st h f hc =
    Inr (r, hc\<lparr>hc_datas := (hc_datas hc)[h mod hc_bucket hc := c], hc_status := get_st c\<rparr>)"
  using assms hc_invD [OF assms(1), of h] by (simp add: hc_at_def hc_inv_def Let_def)

text \<open>The operations of the whole from those of a bucket; a \<^verbatim>\<open>void\<close> operation has the result 0.\<close>

definition unit_result :: "('c \<Rightarrow> fault + 'c) \<Rightarrow> 'c \<Rightarrow> fault + (nat \<times> 'c)" where
  "unit_result f c = rbind (f c) (\<lambda>c. Inr (0, c))"

definition hc_put :: "_ \<Rightarrow> _ \<Rightarrow> _ \<Rightarrow> ('k \<Rightarrow> 'v \<Rightarrow> 't \<Rightarrow> 'c \<Rightarrow> fault + 'c) \<Rightarrow> 'k \<Rightarrow> 'v \<Rightarrow> 't \<Rightarrow> ('c, 's) hash_cache \<Rightarrow> fault + ('c, 's) hash_cache" where
  "hc_put put_st get_st hash put k v t hc =
     rbind (hc_at put_st get_st (hash k) (unit_result (put k v t)) hc) (\<lambda>(_, hc). Inr hc)"

definition hc_shrink :: "_ \<Rightarrow> _ \<Rightarrow> ('a \<Rightarrow> 'c \<Rightarrow> fault + (nat \<times> 'c)) \<Rightarrow> 'a \<Rightarrow> ('c, 's) hash_cache \<Rightarrow> fault + ('c, 's) hash_cache" where
  "hc_shrink put_st get_st shrink a hc = rbind (hc_all put_st get_st (shrink a) hc) (\<lambda>(_, hc). Inr hc)"

text \<open>A cache that can be a bucket: its counters can be exchanged without changing its contents.\<close>

locale shared_cache = value_cache inv look vals put get del shrink
  for inv :: "'c \<Rightarrow> bool" and look :: "'c \<Rightarrow> 'k \<Rightarrow> 'v option" and vals :: "'c \<Rightarrow> 'k \<Rightarrow> 'v set"
    and put :: "'k \<Rightarrow> 'v \<Rightarrow> 't \<Rightarrow> 'c \<Rightarrow> fault + 'c" and get :: "'k \<Rightarrow> 'c \<Rightarrow> fault + ('v option \<times> 'c)"
    and del :: "'k \<Rightarrow> 'c \<Rightarrow> fault + (bool \<times> 'c)" and shrink :: "'a \<Rightarrow> 'c \<Rightarrow> fault + (nat \<times> 'c)" +
  fixes put_st :: "'s \<Rightarrow> 'c \<Rightarrow> 'c" and get_st :: "'c \<Rightarrow> 's" and hash :: "'k \<Rightarrow> nat"
  assumes put_st_inv: "inv c \<Longrightarrow> inv (put_st s c)"
    and put_st_look: "look (put_st s c) = look c"
    and put_st_vals: "vals (put_st s c) = vals c"
begin

lemma hc_each_law:
  assumes "\<And>c. inv c \<Longrightarrow> \<exists>n c'. f c = Inr (n, c') \<and> inv c' \<and> (\<forall>j. vals c' j \<subseteq> vals c j)"
    and "\<forall>c \<in> set cs. inv c"
  shows "\<exists>n s' cs'. hc_each put_st get_st f s cs = Inr (n, s', cs') \<and> length cs' = length cs \<and>
    (\<forall>i < length cs. inv (cs' ! i) \<and> (\<forall>j. vals (cs' ! i) j \<subseteq> vals (cs ! i) j))"
  using assms(2)
proof (induction cs arbitrary: s)
  case Nil
  then show ?case by simp
next
  case (Cons c cs)
  have "inv (put_st s c)" using Cons.prems put_st_inv by simp
  from assms(1) [OF this] obtain n c' where c': "f (put_st s c) = Inr (n, c')" "inv c'" "\<forall>j. vals c' j \<subseteq> vals c j"
    by (auto simp: put_st_vals)
  from Cons.IH [of "get_st c'"] Cons.prems obtain m s' cs' where
    cs': "hc_each put_st get_st f (get_st c') cs = Inr (m, s', cs')" "length cs' = length cs"
      "\<forall>i < length cs. inv (cs' ! i) \<and> (\<forall>j. vals (cs' ! i) j \<subseteq> vals (cs ! i) j)" by auto
  have "\<forall>i < length (c # cs). inv ((c' # cs') ! i) \<and> (\<forall>j. vals ((c' # cs') ! i) j \<subseteq> vals ((c # cs) ! i) j)"
    using c'(2,3) cs'(3) by (simp add: nth_Cons split: nat.split)
  with c'(1) cs'(1,2) show ?case by auto
qed

lemma hc_all_law:
  assumes "hc_inv inv hc"
  shows "\<exists>n hc'. hc_all put_st get_st (shrink a) hc = Inr (n, hc') \<and> hc_inv inv hc' \<and>
    hc_bucket hc' = hc_bucket hc \<and> (\<forall>j. hc_look vals hash hc' j \<subseteq> hc_look vals hash hc j)"
proof -
  from hc_each_law [of "shrink a" "hc_datas hc", OF shrink_law] assms obtain n s' cs' where
    cs': "hc_each put_st get_st (shrink a) (hc_status hc) (hc_datas hc) = Inr (n, s', cs')"
      "length cs' = length (hc_datas hc)"
      "\<forall>i < length (hc_datas hc). inv (cs' ! i) \<and> (\<forall>j. vals (cs' ! i) j \<subseteq> vals (hc_datas hc ! i) j)"
    unfolding hc_inv_def by blast
  have "\<forall>c \<in> set cs'. inv c" using cs'(2,3) by (auto simp: in_set_conv_nth)
  then show ?thesis
    using cs' assms hc_invD(1) [OF assms] by (auto simp: hc_all_def hc_inv_def hc_look_def)
qed

lemma hc_at_law:
  assumes "hc_inv inv hc"
    and "f (put_st (hc_status hc) (hc_datas hc ! (hash k mod hc_bucket hc))) = Inr (r, c)" and "inv c"
  shows "\<exists>hc'. hc_at put_st get_st (hash k) f hc = Inr (r, hc') \<and> hc_inv inv hc' \<and>
    hc_bucket hc' = hc_bucket hc \<and>
    (\<forall>j. hc_datas hc' ! (hash j mod hc_bucket hc) =
      (if hash j mod hc_bucket hc = hash k mod hc_bucket hc then c else hc_datas hc ! (hash j mod hc_bucket hc)))"
  using hc_at_Inr [of inv hc f put_st "hash k" r c get_st] assms(1,2) hc_inv_update [OF assms(1,3)] hc_invD(1) [OF assms(1), of "hash k"]
  by (auto simp: hc_look_def nth_list_update)

lemma hc_bucket_inv:
  "hc_inv inv hc \<Longrightarrow> inv (put_st s (hc_datas hc ! (hash k mod hc_bucket hc)))"
  by (rule put_st_inv, rule hc_invD(2))

lemma hc_put_law:
  assumes "hc_inv inv hc"
  shows "\<exists>hc'. hc_put put_st get_st hash put k v t hc = Inr hc' \<and> hc_inv inv hc' \<and>
    hc_look vals hash hc' k \<subseteq> insert v (hc_look vals hash hc k) \<and>
    (\<forall>j. j \<noteq> k \<longrightarrow> hc_look vals hash hc' j \<subseteq> hc_look vals hash hc j) \<and>
    (\<exists>b c. inv b \<and> put k v t b = Inr c \<and> hc_look look hash hc' k = look c k)"
proof -
  let ?b = "put_st (hc_status hc) (hc_datas hc ! (hash k mod hc_bucket hc))"
  have b: "inv ?b" by (rule hc_bucket_inv [OF assms])
  from put_law [OF b, of k v t] obtain c where c: "put k v t ?b = Inr c" "inv c"
    "vals c k \<subseteq> insert v (vals ?b k)" "\<forall>j. j \<noteq> k \<longrightarrow> vals c j \<subseteq> vals ?b j" by blast
  have "unit_result (put k v t) ?b = Inr (0, c)" by (simp add: unit_result_def c(1))
  from hc_at_law [where f = "unit_result (put k v t)" and k = k and hc = hc, OF assms this c(2)] obtain hc' where
    hc': "hc_at put_st get_st (hash k) (unit_result (put k v t)) hc = Inr (0, hc')" "hc_inv inv hc'"
    and l: "hc_bucket hc' = hc_bucket hc" "\<And>j. hc_datas hc' ! (hash j mod hc_bucket hc) =
      (if hash j mod hc_bucket hc = hash k mod hc_bucket hc then c else hc_datas hc ! (hash j mod hc_bucket hc))" by blast
  have k: "hc_look vals hash hc' k \<subseteq> insert v (hc_look vals hash hc k)"
    using c(3) by (simp add: l put_st_vals hc_look_def)
  have j: "hc_look vals hash hc' j \<subseteq> hc_look vals hash hc j" if "j \<noteq> k" for j
  proof (cases "hash j mod hc_bucket hc = hash k mod hc_bucket hc")
    case True
    then show ?thesis using c(4) that by (simp add: l put_st_vals hc_look_def)
  qed (simp add: l hc_look_def)
  have "hc_look look hash hc' k = look c k" by (simp add: l hc_look_def)
  with hc' k j b c(1) show ?thesis by (auto simp: hc_put_def)
qed

lemma hc_access_law:
  assumes "hc_inv inv hc"
    and f: "\<And>c. inv c \<Longrightarrow> \<exists>r c'. f c = Inr (r, c') \<and> inv c' \<and> P (look c) r (look c' k) \<and> (\<forall>j. vals c' j \<subseteq> vals c j) \<and> (Q \<longrightarrow> look c' = look c)"
  shows "\<exists>r hc'. hc_at put_st get_st (hash k) f hc = Inr (r, hc') \<and> hc_inv inv hc' \<and>
    P (look (hc_datas hc ! (hash k mod hc_bucket hc))) r (hc_look look hash hc' k) \<and>
    (\<forall>j. hc_look vals hash hc' j \<subseteq> hc_look vals hash hc j) \<and> (Q \<longrightarrow> hc_look look hash hc' = hc_look look hash hc)"
proof -
  let ?b = "put_st (hc_status hc) (hc_datas hc ! (hash k mod hc_bucket hc))"
  from f [OF hc_bucket_inv [OF assms(1)], of "hc_status hc" k] obtain r c where
    c: "f ?b = Inr (r, c)" "inv c" "P (look ?b) r (look c k)" "\<forall>j. vals c j \<subseteq> vals ?b j" "Q \<longrightarrow> look c = look ?b"
    by blast
  from hc_at_law [where f = f and k = k and hc = hc, OF assms(1) c(1,2)] obtain hc' where
    hc': "hc_at put_st get_st (hash k) f hc = Inr (r, hc')" "hc_inv inv hc'"
    and l: "hc_bucket hc' = hc_bucket hc" "\<And>j. hc_datas hc' ! (hash j mod hc_bucket hc) =
      (if hash j mod hc_bucket hc = hash k mod hc_bucket hc then c else hc_datas hc ! (hash j mod hc_bucket hc))" by blast
  have j: "hc_look vals hash hc' j \<subseteq> hc_look vals hash hc j" for j
  proof (cases "hash j mod hc_bucket hc = hash k mod hc_bucket hc")
    case True
    then show ?thesis using c(4) by (simp add: l put_st_vals hc_look_def)
  qed (simp add: l hc_look_def)
  have "hc_look look hash hc' = hc_look look hash hc" if Q
  proof
    fix j
    show "hc_look look hash hc' j = hc_look look hash hc j"
      using c(5) that by (simp add: l put_st_look hc_look_def)
  qed
  moreover have "P (look (hc_datas hc ! (hash k mod hc_bucket hc))) r (hc_look look hash hc' k)"
    using c(3) by (simp add: l put_st_look hc_look_def)
  ultimately show ?thesis using hc' j by blast
qed

lemma hc_get_law:
  assumes "hc_inv inv hc"
  shows "\<exists>hc'. hc_at put_st get_st (hash k) (get k) hc = Inr (hc_look look hash hc k, hc') \<and> hc_inv inv hc' \<and>
    hc_look look hash hc' = hc_look look hash hc \<and> (\<forall>j. hc_look vals hash hc' j \<subseteq> hc_look vals hash hc j)"
proof -
  have "\<exists>r c'. get k c = Inr (r, c') \<and> inv c' \<and> r = look c k \<and> (\<forall>j. vals c' j \<subseteq> vals c j) \<and>
      (True \<longrightarrow> look c' = look c)" if "inv c" for c
    using get_law [OF that, of k] by blast
  from hc_access_law [OF assms, where P = "\<lambda>l r _. r = l k" and Q = True and f = "get k" and k = k, OF this]
  show ?thesis by (auto simp: hc_look_def)
qed

lemma hc_del_law:
  assumes "hc_inv inv hc"
  shows "\<exists>b hc'. hc_at put_st get_st (hash k) (del k) hc = Inr (b, hc') \<and> hc_inv inv hc' \<and>
    hc_look look hash hc' k = None \<and> (\<forall>j. hc_look vals hash hc' j \<subseteq> hc_look vals hash hc j)"
proof -
  have "\<exists>b c'. del k c = Inr (b, c') \<and> inv c' \<and> look c' k = None \<and> (\<forall>j. vals c' j \<subseteq> vals c j) \<and>
      (False \<longrightarrow> look c' = look c)" if "inv c" for c
    using del_law [OF that, of k] by blast
  from hc_access_law [OF assms, where P = "\<lambda>_ _ r. r = None" and Q = False and f = "del k" and k = k, OF this]
  show ?thesis by auto
qed

end

sublocale shared_cache \<subseteq> shared: value_cache "hc_inv inv" "hc_look look hash" "hc_look vals hash"
  "hc_put put_st get_st hash put" "\<lambda>k. hc_at put_st get_st (hash k) (get k)"
  "\<lambda>k. hc_at put_st get_st (hash k) (del k)" "\<lambda>a. hc_all put_st get_st (shrink a)"
proof (unfold_locales, goal_cases)
  case (1 hc k)
  then show ?case unfolding hc_look_def by (intro look_vals hc_invD(2) [of inv])
next
  case (2 hc k v t)
  then show ?case using hc_put_law by blast
next
  case (3 hc k)
  then show ?case by (rule hc_get_law)
next
  case (4 hc k)
  then show ?case by (rule hc_del_law)
next
  case (5 hc a)
  then show ?case using hc_all_law by blast
qed

text \<open>With buckets that never show an old value, the whole does not either.\<close>

locale bucket_cache = fresh_cache inv look vals put get del shrink + shared_cache inv look vals put get del shrink put_st get_st hash
  for inv :: "'c \<Rightarrow> bool" and look :: "'c \<Rightarrow> 'k \<Rightarrow> 'v option" and vals :: "'c \<Rightarrow> 'k \<Rightarrow> 'v set"
    and put :: "'k \<Rightarrow> 'v \<Rightarrow> 't \<Rightarrow> 'c \<Rightarrow> fault + 'c" and get :: "'k \<Rightarrow> 'c \<Rightarrow> fault + ('v option \<times> 'c)"
    and del :: "'k \<Rightarrow> 'c \<Rightarrow> fault + (bool \<times> 'c)" and shrink :: "'a \<Rightarrow> 'c \<Rightarrow> fault + (nat \<times> 'c)"
    and put_st :: "'s \<Rightarrow> 'c \<Rightarrow> 'c" and get_st :: "'c \<Rightarrow> 's" and hash :: "'k \<Rightarrow> nat"

sublocale bucket_cache \<subseteq> whole: fresh_cache "hc_inv inv" "hc_look look hash" "hc_look vals hash"
  "hc_put put_st get_st hash put" "\<lambda>k. hc_at put_st get_st (hash k) (get k)"
  "\<lambda>k. hc_at put_st get_st (hash k) (del k)" "\<lambda>a. hc_all put_st get_st (shrink a)"
proof (unfold_locales, goal_cases)
  case (1 hc k)
  then show ?case unfolding hc_look_def by (intro vals_look hc_invD(2) [of inv])
next
  case (2 hc k v t hc')
  then show ?case using hc_put_law [of hc k v t] put_fresh by fastforce
qed

end
