(* ===== verification/HashTimedLruCache.thy ===== *)
theory HashTimedLruCache imports TimedLruCache CacheContract begin

text \<open>
  \<^verbatim>\<open>TimedLruCache\<close> as a cache in the sense of the contract, the cache of several buckets built from it
  (\<^verbatim>\<open>HashTimedLruCache\<close> in \<^verbatim>\<open>seaice/ds/timed_lru_cache.h\<close>), and the properties of both.
\<close>

section \<open>The buckets\<close>

type_synonym ('k, 'v) hash_timed_lru = "(('k, 'v) timed_lru, cache_status) hash_cache"

definition tl_with_status :: "cache_status \<Rightarrow> ('k, 'v) timed_lru \<Rightarrow> ('k, 'v) timed_lru" where
  "tl_with_status s c = c\<lparr>tl_status := s\<rparr>"

definition new_HashTimedLruCache :: "nat \<Rightarrow> nat \<Rightarrow> nat \<Rightarrow> fault + ('k, 'v) hash_timed_lru" where
  "new_HashTimedLruCache bucket max_size elasticity =
     (if bucket = 0 then Inl DivByZero
      else
        let pre_max_size = ceil_div max_size bucket; pre_elasticity = ceil_div elasticity bucket in
        Inr \<lparr>hc_bucket = bucket, hc_maxSize = pre_max_size * bucket, hc_elasticity = pre_elasticity * bucket,
             hc_status = new_CacheStatus,
             hc_datas = replicate bucket (new_TimedLruCache pre_max_size pre_elasticity new_CacheStatus)\<rparr>)"

definition htl_set :: "('k::linorder \<Rightarrow> nat) \<Rightarrow> 'k \<Rightarrow> 'v \<Rightarrow> nat \<Rightarrow> nat \<Rightarrow> ('k, 'v) hash_timed_lru \<Rightarrow> fault + ('k, 'v) hash_timed_lru" where
  "htl_set hash k v expired now hc =
     rbind (hc_at tl_with_status tl_status (hash k) (unit_result (tl_set k v expired now)) hc) (\<lambda>(_, hc). Inr hc)"

definition htl_get :: "('k \<Rightarrow> nat) \<Rightarrow> 'k \<Rightarrow> ('k, 'v) hash_timed_lru \<Rightarrow> fault + ('v option \<times> ('k, 'v) hash_timed_lru)" where
  "htl_get hash k = hc_at tl_with_status tl_status (hash k) (tl_get k)"

definition htl_del :: "('k::linorder \<Rightarrow> nat) \<Rightarrow> 'k \<Rightarrow> ('k, 'v) hash_timed_lru \<Rightarrow> fault + (bool \<times> ('k, 'v) hash_timed_lru)" where
  "htl_del hash k = hc_at tl_with_status tl_status (hash k) (\<lambda>c. Inr (tl_del k c))"

definition htl_exist :: "('k \<Rightarrow> nat) \<Rightarrow> 'k \<Rightarrow> ('k, 'v) hash_timed_lru \<Rightarrow> fault + (bool \<times> ('k, 'v) hash_timed_lru)" where
  "htl_exist hash k = hc_at tl_with_status tl_status (hash k) (\<lambda>c. Inr (tl_exist k c, c))"

definition htl_size :: "('k, 'v) hash_timed_lru \<Rightarrow> nat" where
  "htl_size hc = sum_list (map tl_size (hc_datas hc))"

definition htl_empty :: "('k, 'v) hash_timed_lru \<Rightarrow> bool" where
  "htl_empty hc = list_all tl_empty (hc_datas hc)"

definition htl_clear :: "('k, 'v) hash_timed_lru \<Rightarrow> ('k, 'v) hash_timed_lru" where
  "htl_clear hc = hc\<lparr>hc_datas := map (\<lambda>c. snd (tl_clear c)) (hc_datas hc)\<rparr>"

definition htl_getMaxAllowedSize :: "('k, 'v) hash_timed_lru \<Rightarrow> nat" where
  "htl_getMaxAllowedSize hc = hc_elasticity hc + hc_maxSize hc"

text \<open>\<^verbatim>\<open>setMaxSize\<close> divides integers before it rounds up, so it rounds down.\<close>

definition htl_setMaxSize :: "nat \<Rightarrow> ('k, 'v) hash_timed_lru \<Rightarrow> fault + ('k, 'v) hash_timed_lru" where
  "htl_setMaxSize v hc =
     (if hc_bucket hc = 0 then Inl DivByZero
      else
        let pre_max_size = v div hc_bucket hc in
        Inr (hc\<lparr>hc_maxSize := pre_max_size * hc_bucket hc, hc_datas := map (tl_setMaxSize pre_max_size) (hc_datas hc)\<rparr>))"

definition htl_setElasticity :: "nat \<Rightarrow> ('k, 'v) hash_timed_lru \<Rightarrow> fault + ('k, 'v) hash_timed_lru" where
  "htl_setElasticity v hc =
     (if hc_bucket hc = 0 then Inl DivByZero
      else
        let pre_elasticity = ceil_div v (hc_bucket hc) in
        Inr (hc\<lparr>hc_elasticity := pre_elasticity * hc_bucket hc,
                hc_datas := map (tl_setElasticity pre_elasticity) (hc_datas hc)\<rparr>))"

definition htl_setPruneCallback :: "bool \<Rightarrow> ('k, 'v) hash_timed_lru \<Rightarrow> ('k, 'v) hash_timed_lru" where
  "htl_setPruneCallback cb hc = hc\<lparr>hc_datas := map (tl_setPruneCallback cb) (hc_datas hc)\<rparr>"

text \<open>The local counter is not initialised: \<open>junk\<close> is what its memory holds.\<close>

definition htl_checkTimeout :: "nat \<Rightarrow> nat \<Rightarrow> ('k, 'v) hash_timed_lru \<Rightarrow> fault + (nat \<times> ('k, 'v) hash_timed_lru)" where
  "htl_checkTimeout junk ts hc =
     rbind (hc_all tl_with_status tl_status (tl_checkTimeout ts) hc) (\<lambda>(n, hc). Inr ((junk + n) mod 2 ^ 64, hc))"

section \<open>The contract\<close>

definition tl_look :: "('k, 'v) timed_lru \<Rightarrow> 'k \<Rightarrow> 'v option" where
  "tl_look c k = map_option it_val (find (\<lambda>x. it_key x = k) (tl_items c))"

text \<open>The sweep of the expired items, or \<^verbatim>\<open>clear\<close>.\<close>

definition tl_shrink :: "nat option \<Rightarrow> ('k, 'v) timed_lru \<Rightarrow> fault + (nat \<times> ('k, 'v) timed_lru)" where
  "tl_shrink a c = (case a of Some ts \<Rightarrow> tl_checkTimeout ts c | None \<Rightarrow> Inr (0, snd (tl_clear c)))"

text \<open>The invariant of a cache of the given limits: the number of items stays within them.\<close>

definition tl_ok :: "nat \<Rightarrow> nat \<Rightarrow> ('k::linorder, 'v) timed_lru \<Rightarrow> bool" where
  "tl_ok m e c \<longleftrightarrow> tl_inv c \<and> tl_maxSize c = m \<and> tl_elasticity c = e \<and>
     (m = 0 \<or> length (tl_items c) \<le> m \<or> length (tl_items c) < m + e)"

lemma find_take: "find P (take n xs) \<in> {None, find P xs}"
  by (induction xs arbitrary: n) (auto simp: take_Cons split: nat.splits)

lemma find_filter_other: "(\<And>x. P x \<Longrightarrow> Q x) \<Longrightarrow> find P (filter Q xs) = find P xs"
  by (induction xs) auto

lemma find_Some_exists: "x \<in> set xs \<Longrightarrow> P x \<Longrightarrow> \<exists>y. find P xs = Some y"
  by (induction xs) auto

lemma find_filter_sub:
  assumes "\<And>x y. x \<in> set xs \<Longrightarrow> y \<in> set xs \<Longrightarrow> P x \<Longrightarrow> P y \<Longrightarrow> x = y"
  shows "find P (filter Q xs) \<in> {None, find P xs}"
proof (cases "find P (filter Q xs)")
  case (Some x)
  then have x: "x \<in> set xs" "P x" using find_SomeD [of P "filter Q xs" x] by auto
  from find_Some_exists [of x xs P, OF x] obtain y where y: "find P xs = Some y" by blast
  then have "y = x" using assms x find_SomeD [OF y] by blast
  with y Some show ?thesis by simp
qed simp

lemma find_append: "find P (xs @ ys) = (case find P xs of None \<Rightarrow> find P ys | Some x \<Rightarrow> Some x)"
  by (induction xs) auto

lemma find_filter_none: "(\<And>x. P x \<Longrightarrow> \<not> Q x) \<Longrightarrow> find P (filter Q xs) = None"
  by (auto simp: find_None_iff)

lemma find_to_front:
  "find (\<lambda>x. f x = j) (filter (\<lambda>x. f x = k) xs @ filter (\<lambda>x. f x \<noteq> k) xs) = find (\<lambda>x. f x = j) xs"
proof (cases "j = k")
  case True
  have "find (\<lambda>x. f x = k) (filter (\<lambda>x. f x \<noteq> k) xs) = None" by (rule find_filter_none) simp
  then show ?thesis using True by (simp add: find_append find_filter_other split: option.split)
next
  case False
  have "find (\<lambda>x. f x = j) (filter (\<lambda>x. f x = k) xs) = None" using False by (intro find_filter_none) simp
  moreover have "find (\<lambda>x. f x = j) (filter (\<lambda>x. f x \<noteq> k) xs) = find (\<lambda>x. f x = j) xs"
    using False by (intro find_filter_other) simp
  ultimately show ?thesis by (simp add: find_append)
qed

lemma lru_bound_cases: "lru_bound m e xs = xs \<or> (0 < m \<and> lru_bound m e xs = take m xs)"
  by (simp add: lru_bound_def)

lemma find_lru_bound: "find P (lru_bound m e xs) \<in> {None, find P xs}"
  using lru_bound_cases [of m e xs] find_take [of P m xs] by auto

lemma length_lru_bound: "m = 0 \<or> length (lru_bound m e xs) \<le> m \<or> length (lru_bound m e xs) < m + e"
  by (auto simp: lru_bound_def)

lemma find_lru_set_same: "it_key it = k \<Longrightarrow> find (\<lambda>x. it_key x = k) (lru_set m e it xs) = Some it"
  by (auto simp: lru_set_def lru_bound_def take_Cons split: nat.split)

lemma find_lru_set_other:
  assumes "j \<noteq> it_key it"
  shows "find (\<lambda>x. it_key x = j) (lru_set m e it xs) \<in> {None, find (\<lambda>x. it_key x = j) xs}"
proof -
  have "find (\<lambda>x. it_key x = j) (filter (\<lambda>x. it_key x \<noteq> it_key it) xs) = find (\<lambda>x. it_key x = j) xs"
    using assms by (intro find_filter_other) simp
  then show ?thesis
    using assms find_lru_bound [of "\<lambda>x. it_key x = j" m e "it # xs"] by (auto simp: lru_set_def)
qed

lemma length_lru_set:
  "m = 0 \<or> length xs \<le> m \<or> length xs < m + e \<Longrightarrow>
   m = 0 \<or> length (lru_set m e it xs) \<le> m \<or> length (lru_set m e it xs) < m + e"
proof -
  have "length (filter (\<lambda>x. it_key x \<noteq> it_key it) xs) < length xs" if "it_key it \<in> it_key ` set xs"
    using that by (auto intro!: length_filter_less)
  then show "m = 0 \<or> length xs \<le> m \<or> length xs < m + e \<Longrightarrow>
      m = 0 \<or> length (lru_set m e it xs) \<le> m \<or> length (lru_set m e it xs) < m + e"
    using length_lru_bound [of m e "it # xs"] by (auto simp: lru_set_def)
qed

lemma tl_items_same_key:
  "tl_inv c \<Longrightarrow> x \<in> set (tl_items c) \<Longrightarrow> y \<in> set (tl_items c) \<Longrightarrow> it_key x = k \<Longrightarrow> it_key y = k \<Longrightarrow> x = y"
  using tl_inv_keys [of c] distinct_map [of it_key "tl_items c"] by (auto simp: tl_items_def inj_on_def)

lemma tl_clear_spec: "tl_inv (snd (tl_clear c))" "tl_items (snd (tl_clear c)) = []"
  "tl_maxSize (snd (tl_clear c)) = tl_maxSize c" "tl_elasticity (snd (tl_clear c)) = tl_elasticity c"
  by (simp_all add: tl_clear_def tl_inv_def tl_items_def)

lemma tl_ok_le:
  assumes "tl_ok m e c" and "tl_inv c'" and "tl_maxSize c' = tl_maxSize c" and "tl_elasticity c' = tl_elasticity c"
    and "length (tl_items c') \<le> length (tl_items c)"
  shows "tl_ok m e c'"
  using assms unfolding tl_ok_def by linarith

interpretation tl: bucket_cache "tl_ok m e" tl_look "\<lambda>c k. set_option (tl_look c k)"
  "\<lambda>k v (expired, now). tl_set k v expired now" tl_get "\<lambda>k c. Inr (tl_del k c)" tl_shrink
  tl_with_status tl_status hash
  for m e and hash :: "'k::linorder \<Rightarrow> nat"
proof (unfold_locales, goal_cases)
  case (1 c k)
  then show ?case by simp
next
  case (2 c k v t)
  obtain expired now where t: "t = (expired, now)" by (cases t)
  let ?it = "\<lparr>it_key = k, it_val = v, it_ts = ts_add expired now\<rparr>"
  from 2 have inv: "tl_inv c" by (simp add: tl_ok_def)
  from tl_set_spec [OF inv, of k v expired now] 2 obtain c' where
    c': "tl_set k v expired now c = Inr c'" "tl_inv c'" "tl_maxSize c' = m" "tl_elasticity c' = e"
      "tl_items c' = lru_set m e ?it (tl_items c)"
    by (auto simp: tl_ok_def)
  have "tl_ok m e c'"
    using 2 c' length_lru_set [of m "tl_items c" e ?it] by (simp add: tl_ok_def)
  moreover have "tl_look c' k = Some v" by (simp add: tl_look_def c'(5) find_lru_set_same)
  moreover have "set_option (tl_look c' j) \<subseteq> set_option (tl_look c j)" if "j \<noteq> k" for j
    using find_lru_set_other [of j ?it m e "tl_items c"] that by (auto simp: tl_look_def c'(5))
  ultimately show ?case using c'(1) by (auto simp: t)
next
  case (3 c k)
  then have inv: "tl_inv c" by (simp add: tl_ok_def)
  from tl_get_spec [OF inv, of k] obtain c' where
    c': "tl_get k c = Inr (tl_look c k, c')" "tl_inv c'" "tl_maxSize c' = tl_maxSize c" "tl_elasticity c' = tl_elasticity c"
      "tl_items c' = filter (\<lambda>x. it_key x = k) (tl_items c) @ filter (\<lambda>x. it_key x \<noteq> k) (tl_items c)"
    by (auto simp: tl_look_def)
  have len: "length (tl_items c') = length (tl_items c)"
    unfolding c'(5) using sum_length_filter_compl [of "\<lambda>x. it_key x = k" "tl_items c"] by simp
  have "tl_look c' j = tl_look c j" for j by (simp only: tl_look_def c'(5) find_to_front)
  then have "tl_look c' = tl_look c" by blast
  with 3 c' len show ?case by (auto simp: tl_ok_def)
next
  case (4 c k)
  then have inv: "tl_inv c" by (simp add: tl_ok_def)
  from tl_del_spec [OF inv, of k] obtain c' where
    c': "tl_del k c = (k \<in> it_key ` set (tl_items c), c')" "tl_inv c'" "tl_maxSize c' = tl_maxSize c"
      "tl_elasticity c' = tl_elasticity c" "tl_items c' = filter (\<lambda>x. it_key x \<noteq> k) (tl_items c)" by blast
  have "tl_look c' k = None" by (auto simp: tl_look_def c'(5) find_None_iff)
  moreover have "set_option (tl_look c' j) \<subseteq> set_option (tl_look c j)" for j
    using find_filter_sub [of "tl_items c" "\<lambda>x. it_key x = j" "\<lambda>x. it_key x \<noteq> k"] tl_items_same_key [OF inv]
    by (auto simp: tl_look_def c'(5))
  moreover have "tl_ok m e c'" by (rule tl_ok_le [OF 4 c'(2-4)]) (simp add: c'(5))
  ultimately show ?case using c'(1) by auto
next
  case (5 c a)
  then have inv: "tl_inv c" by (simp add: tl_ok_def)
  show ?case
  proof (cases a)
    case None
    then show ?thesis using 5 tl_clear_spec [of c] by (simp add: tl_shrink_def tl_ok_def tl_look_def)
  next
    case (Some ts)
    from tl_checkTimeout_spec [OF inv, of ts] obtain n c' where
      c': "tl_checkTimeout ts c = Inr (n, c')" "tl_inv c'" "tl_maxSize c' = tl_maxSize c"
        "tl_elasticity c' = tl_elasticity c" "tl_items c' = filter (\<lambda>x. ts < it_ts x) (tl_items c)" by blast
    have "set_option (tl_look c' j) \<subseteq> set_option (tl_look c j)" for j
      using find_filter_sub [of "tl_items c" "\<lambda>x. it_key x = j" "\<lambda>x. ts < it_ts x"] tl_items_same_key [OF inv]
      by (auto simp: tl_look_def c'(5))
    moreover have "tl_ok m e c'" by (rule tl_ok_le [OF 5 c'(2-4)]) (simp add: c'(5))
    ultimately show ?thesis using c'(1) Some by (auto simp: tl_shrink_def)
  qed
next
  case (6 c k)
  then show ?case by simp
next
  case (7 c k v t c')
  obtain expired now where t: "t = (expired, now)" by (cases t)
  from 7 tl_set_spec [of c k v expired now] show ?case
    by (auto simp: tl_ok_def t tl_look_def find_lru_set_same)
next
  case (8 c s)
  then show ?case by (simp add: tl_ok_def tl_with_status_def)
next
  case (9 s c)
  then show ?case by (simp add: tl_look_def tl_with_status_def fun_eq_iff)
next
  case (10 s c)
  then show ?case by (simp add: tl_look_def tl_with_status_def)
qed

section \<open>Properties\<close>

lemma new_TimedLruCache_ok:
  "tl_ok m e (new_TimedLruCache m e st)" "tl_look (new_TimedLruCache m e st) k = None"
  by (simp_all add: tl_ok_def tl_look_def) (simp_all add: new_TimedLruCache_def)

text \<open>
  C21. The timed LRU cache is the list of its items, most recently used first. On every reachable
  state \<^verbatim>\<open>set\<close> moves the key to the front with its new value and expiry time, and when a new key
  brings the cache to its allowed size it cuts the list to the \<^verbatim>\<open>maxSize\<close> most recently used items;
  \<^verbatim>\<open>get\<close> returns the value of the key, or nothing, and moves the item to the front; \<^verbatim>\<open>del\<close> tells
  whether the key was there and removes it; \<^verbatim>\<open>checkTimeout\<close> removes exactly the items whose time has
  come and returns their number. The index map, the list and the ordered set of the code stay
  consistent, and no iterator in them ever dangles.
\<close>

theorem timed_lru_refines_list:
  assumes "tl_inv c"
  shows "(\<exists>c'. tl_set k v expired now c = Inr c' \<and> tl_inv c' \<and>
            tl_items c' = lru_set (tl_maxSize c) (tl_elasticity c)
              \<lparr>it_key = k, it_val = v, it_ts = ts_add expired now\<rparr> (tl_items c)) \<and>
         (\<exists>c'. tl_get k c = Inr (tl_look c k, c') \<and> tl_inv c' \<and>
            tl_items c' = filter (\<lambda>x. it_key x = k) (tl_items c) @ filter (\<lambda>x. it_key x \<noteq> k) (tl_items c)) \<and>
         (\<exists>c'. tl_del k c = (tl_exist k c, c') \<and> tl_inv c' \<and>
            tl_items c' = filter (\<lambda>x. it_key x \<noteq> k) (tl_items c)) \<and>
         (\<exists>c'. tl_checkTimeout ts c = Inr (length (filter (\<lambda>x. it_ts x \<le> ts) (tl_items c)), c') \<and> tl_inv c' \<and>
            tl_items c' = filter (\<lambda>x. ts < it_ts x) (tl_items c))"
proof -
  have "tl_exist k c = (k \<in> it_key ` set (tl_items c))"
    using tl_lookup_None [OF assms, of k] by (auto simp: tl_exist_def)
  moreover note tl_set_spec [OF assms, of k v expired now] tl_get_spec [OF assms, of k] tl_del_spec [OF assms, of k]
    tl_checkTimeout_spec [OF assms, of ts]
  ultimately show ?thesis unfolding tl_look_def by (intro conjI) auto
qed

theorem timed_lru_refines_list_witness:
  "\<exists>c c'. tl_items c = [\<lparr>it_key = 1 :: nat, it_val = True, it_ts = 105\<rparr>] \<and>
     tl_checkTimeout 105 c = Inr (1, c') \<and> tl_items c' = []"
proof -
  from tl_set_spec [OF new_TimedLruCache_inv(1), of "1 :: nat" True 5 100 2 1 new_CacheStatus]
  obtain c where c: "tl_inv c" "tl_items c = [\<lparr>it_key = 1 :: nat, it_val = True, it_ts = 105\<rparr>]"
    by (auto simp: lru_set_def lru_bound_def ts_add_def)
  from timed_lru_refines_list [OF c(1), of 1 True 0 0 105] obtain c' where
    "tl_checkTimeout 105 c = Inr (1, c')" "tl_items c' = []" by (auto simp: c(2))
  with c(2) show ?thesis by blast
qed

text \<open>
  Whatever sequence of calls a timed LRU cache with a maximum of \<open>m\<close> and an elasticity of \<open>e\<close> has
  seen since its construction, no call faulted, every \<^verbatim>\<open>get\<close> answered with a miss or with the value
  last set under that key and not deleted since, and the cache never holds more than
  \<open>max m (m + e - 1)\<close> items unless \<open>m = 0\<close> turns the limit off.
\<close>

theorem timed_lru_never_stale:
  "\<exists>rs c'. cache_run (\<lambda>k v (expired, now). tl_set k v expired now) tl_get (\<lambda>k c. Inr (tl_del k c)) tl_shrink
       ops (new_TimedLruCache m e st) = Inr (rs, c') \<and>
     never_stale ops Map.empty rs \<and> (m = 0 \<or> tl_size c' \<le> max m (m + e - 1))"
proof -
  have "\<forall>k. tl_look (new_TimedLruCache m e st) k \<in> {None, Map.empty k}" by (simp add: new_TimedLruCache_ok)
  from tl.hits_are_current [OF new_TimedLruCache_ok(1) this, of ops] obtain rs c' where
    run: "cache_run (\<lambda>k v (expired, now). tl_set k v expired now) tl_get (\<lambda>k c. Inr (tl_del k c)) tl_shrink
       ops (new_TimedLruCache m e st) = Inr (rs, c')" and ok: "tl_ok m e c'" "never_stale ops Map.empty rs" by blast
  have "tl_size c' = length (tl_items c')"
    using ok(1) tl_size_keys [of c'] by (simp add: tl_ok_def tl_items_def)
  with run ok show ?thesis by (auto simp: tl_ok_def)
qed

lemma new_HashTimedLruCache_ok:
  assumes "0 < bucket"
  shows "\<exists>hc :: ('k::linorder, 'v) hash_timed_lru. new_HashTimedLruCache bucket m e = Inr hc \<and>
    hc_inv (tl_ok (ceil_div m bucket) (ceil_div e bucket)) hc \<and> (\<forall>k. hc_look tl_look hash hc k = None)"
  using assms
  by (auto simp: new_HashTimedLruCache_def Let_def hc_inv_def hc_look_def new_TimedLruCache_ok)

lemma htl_put_whole:
  "hc_put tl_with_status tl_status hash (\<lambda>k v (expired, now). tl_set k v expired now) =
   (\<lambda>k v (expired, now). htl_set hash k v expired now)"
  by (auto simp: hc_put_def htl_set_def fun_eq_iff)

text \<open>
  C22. The cache of buckets keeps the promise of its buckets: for every hash function and every number
  of buckets but 0, no call of any sequence faults and every \<^verbatim>\<open>get\<close> is a miss or gives the value last
  set under its key, although the buckets are pruned and swept separately and share their counters.
\<close>

theorem hash_timed_lru_never_stale:
  fixes ops :: "('k::linorder, 'v, nat \<times> nat, nat option) cache_op list"
  assumes "0 < bucket"
  shows "\<exists>hc rs hc'. new_HashTimedLruCache bucket m e = Inr hc \<and>
     cache_run (\<lambda>k v (expired, now). htl_set hash k v expired now) (htl_get hash) (htl_del hash)
       (\<lambda>a. hc_all tl_with_status tl_status (tl_shrink a)) ops hc = Inr (rs, hc') \<and>
     never_stale ops Map.empty rs"
proof -
  from new_HashTimedLruCache_ok [OF assms, of m e hash] obtain hc :: "('k, 'v) hash_timed_lru" where
    hc: "new_HashTimedLruCache bucket m e = Inr hc" "hc_inv (tl_ok (ceil_div m bucket) (ceil_div e bucket)) hc"
      "\<And>k. hc_look tl_look hash hc k = None" by blast
  have "\<forall>k. hc_look tl_look hash hc k \<in> {None, Map.empty k}" using hc(3) by simp
  note run = tl.whole.hits_are_current [OF hc(2) this, of ops]
  with run hc(1) show ?thesis
    unfolding htl_get_def [abs_def] htl_del_def [abs_def] htl_put_whole by blast
qed

theorem hash_timed_lru_never_stale_witness:
  "\<exists>hc rs hc'. new_HashTimedLruCache 2 4 0 = Inr hc \<and>
     cache_run (\<lambda>k v (expired, now). htl_set (\<lambda>k. k) k v expired now) (htl_get (\<lambda>k. k)) (htl_del (\<lambda>k. k))
       (\<lambda>a. hc_all tl_with_status tl_status (tl_shrink a))
       [Put (3 :: nat) True (10, 5), Get 3, Shrink (Some 15), Get 3] hc = Inr (rs, hc') \<and>
     never_stale [Put (3 :: nat) True (10 :: nat, 5 :: nat), Get 3, Shrink (Some (15 :: nat)), Get 3] Map.empty rs"
  by (rule hash_timed_lru_never_stale) simp

text \<open>
  The sweep of the bucket cache counts from an uninitialised variable: the number it returns is
  the number of removed items plus whatever the variable held. The sweep itself is right.
\<close>

theorem hash_timed_lru_sweep_count:
  assumes "hc_inv tl_inv hc"
  shows "\<exists>hc'. htl_checkTimeout junk ts hc =
       Inr ((junk + sum_list (map (\<lambda>c. length (filter (\<lambda>x. it_ts x \<le> ts) (tl_items c))) (hc_datas hc))) mod 2 ^ 64, hc') \<and>
     hc_inv tl_inv hc' \<and>
     map tl_items (hc_datas hc') = map (\<lambda>c. filter (\<lambda>x. ts < it_ts x) (tl_items c)) (hc_datas hc)"
proof -
  have each: "\<exists>s' cs'. hc_each tl_with_status tl_status (tl_checkTimeout ts) s cs =
      Inr (sum_list (map (\<lambda>c. length (filter (\<lambda>x. it_ts x \<le> ts) (tl_items c))) cs), s', cs') \<and>
      (\<forall>c \<in> set cs'. tl_inv c) \<and> map tl_items cs' = map (\<lambda>c. filter (\<lambda>x. ts < it_ts x) (tl_items c)) cs"
    if "\<forall>c \<in> set cs. tl_inv c" for s and cs :: "('a, 'b) timed_lru list"
    using that
  proof (induction cs arbitrary: s)
    case (Cons c cs)
    then have "tl_inv (tl_with_status s c)" by (simp add: tl_with_status_def)
    from tl_checkTimeout_spec [OF this, of ts] obtain c' where
      c': "tl_checkTimeout ts (tl_with_status s c) = Inr (length (filter (\<lambda>x. it_ts x \<le> ts) (tl_items c)), c')"
        "tl_inv c'" "tl_items c' = filter (\<lambda>x. ts < it_ts x) (tl_items c)"
      by (auto simp: tl_with_status_def)
    from Cons.IH [of "tl_status c'"] Cons.prems c' show ?case by auto
  qed simp
  from each [of "hc_datas hc" "hc_status hc"] assms obtain s' cs' where
    "hc_each tl_with_status tl_status (tl_checkTimeout ts) (hc_status hc) (hc_datas hc) =
      Inr (sum_list (map (\<lambda>c. length (filter (\<lambda>x. it_ts x \<le> ts) (tl_items c))) (hc_datas hc)), s', cs')"
    "\<forall>c \<in> set cs'. tl_inv c" and items: "map tl_items cs' = map (\<lambda>c. filter (\<lambda>x. ts < it_ts x) (tl_items c)) (hc_datas hc)"
    unfolding hc_inv_def by blast
  moreover have "length cs' = length (hc_datas hc)" using arg_cong [OF items, of length] by simp
  ultimately show ?thesis
    using assms by (simp add: htl_checkTimeout_def hc_all_def hc_inv_def)
qed

theorem hash_timed_lru_sweep_count_witness:
  "\<exists>hc' :: (nat, bool) hash_timed_lru. htl_checkTimeout 7 0 \<lparr>hc_bucket = 1, hc_maxSize = 1, hc_elasticity = 0, hc_status = new_CacheStatus,
     hc_datas = [new_TimedLruCache 1 0 new_CacheStatus]\<rparr> = Inr (7, hc')"
proof -
  have "hc_inv tl_inv \<lparr>hc_bucket = 1, hc_maxSize = 1, hc_elasticity = 0, hc_status = new_CacheStatus,
     hc_datas = [new_TimedLruCache 1 0 new_CacheStatus :: (nat, bool) timed_lru]\<rparr>"
    by (simp add: hc_inv_def)
  from hash_timed_lru_sweep_count [OF this, of 7 0] show ?thesis by auto
qed

end
