(* ===== verification/TimeCache.thy ===== *)
theory TimeCache imports CacheStatus CacheContract begin

text \<open>
  The cache with expiry (\<^verbatim>\<open>seaice/ds/timed_cache.h\<close>, \<^verbatim>\<open>TimeCache\<close>). The set holds the items themselves, ordered by
  expiry and then key; an iterator into it is the identity of its node, so \<open>tc_timed\<close> is a list of nodes in ascending order and
  \<open>tc_cache\<close> the hash map from keys to iterators. The clock is a parameter.
\<close>

record ('k, 'v) time_item =
  ti_key :: 'k
  ti_val :: 'v
  ti_ts :: nat

definition item_less :: "('k::linorder, 'v) time_item \<Rightarrow> ('k, 'v) time_item \<Rightarrow> bool" where
  "item_less l r = (if ti_ts l \<noteq> ti_ts r then ti_ts l < ti_ts r else ti_key l < ti_key r)"

definition item_key :: "nat \<times> ('k, 'v) time_item \<Rightarrow> nat \<times> 'k" where
  "item_key p = (ti_ts (snd p), ti_key (snd p))"

lemma item_key_less: "item_key p < item_key q \<longleftrightarrow> item_less (snd p) (snd q)"
  by (auto simp: item_key_def item_less_def less_prod_def')

record ('k, 'v) time_cache =
  tc_maxSize :: nat
  tc_elasticity :: nat
  tc_status :: cache_status
  tc_cache :: "('k \<times> nat) list"
  tc_timed :: "(nat \<times> ('k, 'v) time_item) list"
  tc_cb :: bool
  tc_pruned :: "('k \<times> 'v) list"
  tc_fresh :: nat

definition new_TimeCache :: "nat \<Rightarrow> nat \<Rightarrow> cache_status \<Rightarrow> ('k, 'v) time_cache" where
  "new_TimeCache max_size elasticity status =
     \<lparr>tc_maxSize = max_size, tc_elasticity = elasticity, tc_status = status, tc_cache = [], tc_timed = [],
      tc_cb = False, tc_pruned = [], tc_fresh = 0\<rparr>"

definition tc_size :: "('k, 'v) time_cache \<Rightarrow> nat" where
  "tc_size c = length (tc_cache c)"

definition tc_empty :: "('k, 'v) time_cache \<Rightarrow> bool" where
  "tc_empty c = (tc_cache c = [])"

definition tc_exist :: "'k \<Rightarrow> ('k, 'v) time_cache \<Rightarrow> bool" where
  "tc_exist k c = (map_of (tc_cache c) k \<noteq> None)"

definition tc_clear :: "('k, 'v) time_cache \<Rightarrow> bool \<times> ('k, 'v) time_cache" where
  "tc_clear c = (True, c\<lparr>tc_timed := [], tc_cache := []\<rparr>)"

definition tc_setMaxSize :: "nat \<Rightarrow> ('k, 'v) time_cache \<Rightarrow> ('k, 'v) time_cache" where
  "tc_setMaxSize v c = c\<lparr>tc_maxSize := v\<rparr>"

definition tc_setElasticity :: "nat \<Rightarrow> ('k, 'v) time_cache \<Rightarrow> ('k, 'v) time_cache" where
  "tc_setElasticity v c = c\<lparr>tc_elasticity := v\<rparr>"

definition tc_getMaxAllowedSize :: "('k, 'v) time_cache \<Rightarrow> nat" where
  "tc_getMaxAllowedSize c = tc_maxSize c + tc_elasticity c"

definition tc_setPruneCallback :: "bool \<Rightarrow> ('k, 'v) time_cache \<Rightarrow> ('k, 'v) time_cache" where
  "tc_setPruneCallback cb c = c\<lparr>tc_cb := cb\<rparr>"

definition tc_call :: "('k, 'v) time_item \<Rightarrow> ('k, 'v) time_cache \<Rightarrow> ('k, 'v) time_cache" where
  "tc_call it c = (if tc_cb c then c\<lparr>tc_pruned := tc_pruned c @ [(ti_key it, ti_val it)]\<rparr> else c)"

section \<open>Operations\<close>

text \<open>\<^verbatim>\<open>begin()\<close> of an empty set cannot be dereferenced.\<close>

function tc_prune_loop :: "nat \<Rightarrow> ('k, 'v) time_cache \<Rightarrow> fault + nat \<times> ('k, 'v) time_cache" where
  "tc_prune_loop count c =
     (if tc_size c > tc_maxSize c then
        case tc_timed c of
          [] \<Rightarrow> Inl OutOfBounds
        | (i, it) # rest \<Rightarrow>
            let c = tc_call it c in
            tc_prune_loop (Suc count) (c\<lparr>tc_cache := map_erase (ti_key it) (tc_cache c), tc_timed := rest\<rparr>)
      else Inr (count, c))"
  by pat_completeness auto
termination
  by (relation "measure (\<lambda>(count, c). length (tc_timed c))") (auto simp: tc_call_def)

declare tc_prune_loop.simps [simp del]

definition tc_prune :: "('k, 'v) time_cache \<Rightarrow> fault + nat \<times> ('k, 'v) time_cache" where
  "tc_prune c =
     (if tc_maxSize c = 0 \<or> tc_size c < tc_getMaxAllowedSize c then Inr (0, c)
      else rbind (tc_prune_loop 0 c) (\<lambda>(count, c). Inr (count, c\<lparr>tc_status := snd (incPrune 1 (tc_status c))\<rparr>)))"

text \<open>\<^verbatim>\<open>set::insert\<close>: the iterator of the new node, or of the equivalent one that is there.\<close>

definition timed_insert :: "nat \<Rightarrow> ('k::linorder, 'v) time_item \<Rightarrow> (nat \<times> ('k, 'v) time_item) list \<Rightarrow> nat \<times> (nat \<times> ('k, 'v) time_item) list" where
  "timed_insert fresh it timed =
     (case List.find (\<lambda>p. item_key p = item_key (fresh, it)) timed of
        Some p \<Rightarrow> (fst p, timed)
      | None \<Rightarrow> (fresh, set_insert item_key (fresh, it) timed))"

text \<open>An existing entry leaves the map, but its item stays in the set.\<close>

definition tc_set :: "'k::linorder \<Rightarrow> 'v \<Rightarrow> nat \<Rightarrow> nat \<Rightarrow> ('k, 'v) time_cache \<Rightarrow> fault + ('k, 'v) time_cache" where
  "tc_set k v timeout_ms now c =
     (let c = c\<lparr>tc_status := snd (incSet 1 (tc_status c))\<rparr>;
          cache = (if map_of (tc_cache c) k \<noteq> None then map_erase k (tc_cache c) else tc_cache c);
          (i, timed) = timed_insert (tc_fresh c) \<lparr>ti_key = k, ti_val = v, ti_ts = ts_add timeout_ms now\<rparr> (tc_timed c)
      in rbind (tc_prune (c\<lparr>tc_cache := map_insert k i cache, tc_timed := timed, tc_fresh := Suc (tc_fresh c)\<rparr>)) (\<lambda>(_, c). Inr c))"

text \<open>Both overloads of \<^verbatim>\<open>get\<close>: \<open>None\<close> is the result \<^verbatim>\<open>false\<close>, or the value \<^verbatim>\<open>V()\<close>.\<close>

definition tc_get :: "'k \<Rightarrow> ('k, 'v) time_cache \<Rightarrow> fault + 'v option \<times> ('k, 'v) time_cache" where
  "tc_get k c =
     (let c = c\<lparr>tc_status := snd (incGet 1 (tc_status c))\<rparr> in
      case map_of (tc_cache c) k of
        None \<Rightarrow> Inr (None, c)
      | Some i \<Rightarrow>
          (case map_of (tc_timed c) i of
             None \<Rightarrow> Inl OutOfBounds
           | Some it \<Rightarrow> Inr (Some (ti_val it), c\<lparr>tc_status := snd (incHit 1 (tc_status c))\<rparr>)))"

text \<open>A successful \<^verbatim>\<open>del\<close> counts a hit and ends without a return statement; \<open>ub\<close> is what the caller sees.\<close>

definition tc_del :: "bool \<Rightarrow> 'k \<Rightarrow> ('k, 'v) time_cache \<Rightarrow> fault + bool \<times> ('k, 'v) time_cache" where
  "tc_del ub k c =
     (let c = c\<lparr>tc_status := snd (incDel 1 (tc_status c))\<rparr> in
      case map_of (tc_cache c) k of
        None \<Rightarrow> Inr (False, c)
      | Some i \<Rightarrow>
          if map_of (tc_timed c) i = None then Inl OutOfBounds
          else Inr (ub, c\<lparr>tc_timed := node_erase i (tc_timed c), tc_cache := map_erase k (tc_cache c),
                          tc_status := snd (incHit 1 (tc_status c))\<rparr>))"

text \<open>\<^verbatim>\<open>expired\<close> computes the new expiry, but puts the old item back.\<close>

definition tc_expired :: "'k::linorder \<Rightarrow> nat \<Rightarrow> nat \<Rightarrow> ('k, 'v) time_cache \<Rightarrow> fault + bool \<times> ('k, 'v) time_cache" where
  "tc_expired k ts now c =
     (case map_of (tc_cache c) k of
        None \<Rightarrow> Inr (False, c)
      | Some i \<Rightarrow>
          (case map_of (tc_timed c) i of
             None \<Rightarrow> Inl OutOfBounds
           | Some it \<Rightarrow>
               let tts = ts_add ts now in
               if tts = ti_ts it then Inr (True, c)
               else
                 let (j, timed) = timed_insert (tc_fresh c) it (node_erase i (tc_timed c)) in
                 Inr (True, c\<lparr>tc_timed := timed, tc_cache := AList.update k j (tc_cache c), tc_fresh := Suc (tc_fresh c)\<rparr>)))"

fun tc_expire_loop :: "nat \<Rightarrow> (nat \<times> ('k, 'v) time_item) list \<Rightarrow> nat \<Rightarrow> ('k, 'v) time_cache \<Rightarrow> nat \<times> ('k, 'v) time_cache" where
  "tc_expire_loop ts [] sz c = (sz, c)"
| "tc_expire_loop ts ((i, it) # rest) sz c =
     (if ti_ts it \<le> ts then
        let c = tc_call it c in
        tc_expire_loop ts rest (Suc sz) (c\<lparr>tc_cache := map_erase (ti_key it) (tc_cache c), tc_timed := rest\<rparr>)
      else (sz, c))"

definition tc_checkTimeout :: "nat \<Rightarrow> ('k, 'v) time_cache \<Rightarrow> nat \<times> ('k, 'v) time_cache" where
  "tc_checkTimeout ts c = tc_expire_loop ts (tc_timed c) 0 c"

section \<open>Invariant\<close>

text \<open>Every entry of the map points to an item of its key; items without an entry are possible.\<close>

definition timed_ok :: "nat \<Rightarrow> (nat \<times> ('k::linorder, 'v) time_item) list \<Rightarrow> bool" where
  "timed_ok fresh timed \<longleftrightarrow>
     distinct (map fst timed) \<and> set_sorted item_key timed \<and> (\<forall>i \<in> fst ` set timed. i < fresh)"

definition tc_inv :: "('k::linorder, 'v) time_cache \<Rightarrow> bool" where
  "tc_inv c \<longleftrightarrow> timed_ok (tc_fresh c) (tc_timed c) \<and> distinct (map fst (tc_cache c)) \<and>
     (\<forall>k i. map_of (tc_cache c) k = Some i \<longrightarrow> (\<exists>it. (i, it) \<in> set (tc_timed c) \<and> ti_key it = k))"

definition tc_look :: "('k, 'v) time_cache \<Rightarrow> 'k \<Rightarrow> 'v option" where
  "tc_look c k = Option.bind (map_of (tc_cache c) k) (\<lambda>i. map_option ti_val (map_of (tc_timed c) i))"

definition tc_vals :: "('k, 'v) time_cache \<Rightarrow> 'k \<Rightarrow> 'v set" where
  "tc_vals c k = ti_val ` {it \<in> snd ` set (tc_timed c). ti_key it = k}"

lemma tc_call_simps [simp]:
  "tc_maxSize (tc_call it c) = tc_maxSize c" "tc_cache (tc_call it c) = tc_cache c" "tc_timed (tc_call it c) = tc_timed c"
  "tc_fresh (tc_call it c) = tc_fresh c" "tc_status (tc_call it c) = tc_status c"
  by (simp_all add: tc_call_def)

lemma timed_ok_tail: "timed_ok fresh (p # timed) \<Longrightarrow> timed_ok fresh timed"
  by (simp add: timed_ok_def set_sorted_Cons)

lemma timed_ok_erase: "timed_ok fresh timed \<Longrightarrow> timed_ok fresh (node_erase i timed)"
  by (auto simp: timed_ok_def node_erase_def distinct_map_filter)

lemma timed_ok_map_of: "timed_ok fresh timed \<Longrightarrow> map_of timed i = Some it \<longleftrightarrow> (i, it) \<in> set timed"
  by (simp add: timed_ok_def)

lemma tc_inv_entry:
  "tc_inv c \<Longrightarrow> map_of (tc_cache c) k = Some i \<Longrightarrow> \<exists>it. (i, it) \<in> set (tc_timed c) \<and> ti_key it = k"
  unfolding tc_inv_def by blast

lemma distinct_fst_insort:
  "distinct (map fst (insort_key f x xs)) \<longleftrightarrow> fst x \<notin> fst ` set xs \<and> distinct (map fst xs)"
  by (induction xs) (auto simp: set_insort_key)

lemma timed_ok_unique: "timed_ok fresh timed \<Longrightarrow> (i, x) \<in> set timed \<Longrightarrow> (i, y) \<in> set timed \<Longrightarrow> x = y"
  using timed_ok_map_of [of fresh timed i] by (metis option.inject)

text \<open>An inserted item is new or equivalent to one that is there.\<close>

lemma timed_insert_law:
  assumes "timed_ok fresh timed" and "timed_insert fresh it timed = (i, timed')"
  shows "timed_ok (Suc fresh) timed' \<and> set timed \<subseteq> set timed' \<and> set timed' \<subseteq> insert (fresh, it) (set timed) \<and>
    (\<exists>it'. (i, it') \<in> set timed' \<and> ti_key it' = ti_key it)"
proof (cases "List.find (\<lambda>p. item_key p = item_key (fresh, it)) timed")
  case None
  then have new: "item_key (fresh, it) \<notin> item_key ` set timed" unfolding find_None_iff by fastforce
  have fresh: "fresh \<notin> fst ` set timed" using assms(1) by (auto simp: timed_ok_def)
  have eq: "i = fresh" "timed' = insort_key item_key (fresh, it) timed"
    using assms(2) None new by (auto simp: timed_insert_def set_insert_def)
  have "distinct (map fst timed')"
    using assms(1) fresh by (simp add: eq timed_ok_def distinct_fst_insort)
  moreover have "set_sorted item_key timed'"
    using set_sorted_insert [of item_key timed "(fresh, it)"] assms(1) new by (simp add: eq timed_ok_def set_insert_def)
  ultimately have "timed_ok (Suc fresh) timed'"
    using assms(1) by (auto simp: timed_ok_def eq set_insort_key)
  then show ?thesis by (auto simp: eq set_insort_key)
next
  case (Some p)
  then have "item_key p = item_key (fresh, it)" "p \<in> set timed" by (auto simp: find_Some_iff)
  moreover have "i = fst p" "timed' = timed" using assms(2) Some by (simp_all add: timed_insert_def)
  moreover have "timed_ok (Suc fresh) timed" using assms(1) by (auto simp: timed_ok_def less_SucI)
  ultimately show ?thesis by (cases p) (auto simp: item_key_def)
qed

lemma tc_vals_mono: "snd ` set (tc_timed c') \<subseteq> snd ` set (tc_timed c) \<Longrightarrow> tc_vals c' j \<subseteq> tc_vals c j"
  unfolding tc_vals_def by (intro image_mono) blast

lemma tc_vals_insert:
  assumes "snd ` set (tc_timed c') \<subseteq> insert it (snd ` set (tc_timed c))"
  shows "tc_vals c' (ti_key it) \<subseteq> insert (ti_val it) (tc_vals c (ti_key it))"
    and "j \<noteq> ti_key it \<Longrightarrow> tc_vals c' j \<subseteq> tc_vals c j"
  using assms unfolding tc_vals_def by blast+

section \<open>The operations keep it\<close>

lemma tc_drop_first:
  assumes "tc_inv c" and "tc_timed c = (i, it) # rest"
  shows "tc_inv (c\<lparr>tc_cache := map_erase (ti_key it) (tc_cache c), tc_timed := rest\<rparr>)"
    and "tc_vals (c\<lparr>tc_cache := map_erase (ti_key it) (tc_cache c), tc_timed := rest\<rparr>) k \<subseteq> tc_vals c k"
proof -
  have "\<exists>x. (j, x) \<in> set rest \<and> ti_key x = k" if "map_of (map_erase (ti_key it) (tc_cache c)) k = Some j" for j k
  proof -
    have "k \<noteq> ti_key it" "map_of (tc_cache c) k = Some j" using that by (auto simp: map_of_map_erase split: if_splits)
    then show ?thesis using assms by (fastforce simp: tc_inv_def)
  qed
  then show "tc_inv (c\<lparr>tc_cache := map_erase (ti_key it) (tc_cache c), tc_timed := rest\<rparr>)"
    using assms timed_ok_tail [of "tc_fresh c" "(i, it)" rest] by (simp add: tc_inv_def)
  show "tc_vals (c\<lparr>tc_cache := map_erase (ti_key it) (tc_cache c), tc_timed := rest\<rparr>) k \<subseteq> tc_vals c k"
    using assms(2) by (auto simp: tc_vals_def)
qed

lemma tc_inv_call [simp]: "tc_inv (tc_call it c) = tc_inv c" "tc_vals (tc_call it c) = tc_vals c"
  by (simp_all add: tc_inv_def tc_vals_def fun_eq_iff)

lemma tc_inv_status [simp]:
  "tc_inv (c\<lparr>tc_status := st\<rparr>) = tc_inv c" "tc_vals (c\<lparr>tc_status := st\<rparr>) = tc_vals c" "tc_look (c\<lparr>tc_status := st\<rparr>) = tc_look c"
  by (simp_all add: tc_inv_def tc_vals_def tc_look_def fun_eq_iff)

text \<open>The loop never takes the first element of an empty set: entries have items.\<close>

lemma tc_prune_loop_law:
  "tc_inv c \<Longrightarrow> \<exists>n c'. tc_prune_loop count c = Inr (n, c') \<and> tc_inv c' \<and> (\<forall>k. tc_vals c' k \<subseteq> tc_vals c k) \<and> tc_size c' \<le> tc_maxSize c \<and> tc_fresh c' = tc_fresh c"
proof (induction count c rule: tc_prune_loop.induct)
  case (1 count c)
  show ?case
  proof (cases "tc_size c > tc_maxSize c")
    case True
    then obtain k i xs where "tc_cache c = (k, i) # xs"
      by (cases "tc_cache c") (auto simp: tc_size_def)
    then have "map_of (tc_cache c) k = Some i" by simp
    with "1.prems" obtain it where "(i, it) \<in> set (tc_timed c)" using tc_inv_entry by blast
    then obtain j x rest where timed: "tc_timed c = (j, x) # rest" by (cases "tc_timed c") auto
    let ?c = "(tc_call x c)\<lparr>tc_cache := map_erase (ti_key x) (tc_cache c), tc_timed := rest\<rparr>"
    have t: "tc_timed (tc_call x c) = (j, x) # rest" by (simp add: timed)
    have "tc_inv ?c" and vals: "tc_vals ?c k \<subseteq> tc_vals c k" for k
      using tc_drop_first [OF _ t] "1.prems" by simp_all
    from "1.IH" [OF True timed refl refl] this(1) obtain n c' where
      "tc_prune_loop (Suc count) ?c = Inr (n, c')" "tc_inv c'" "\<forall>k. tc_vals c' k \<subseteq> tc_vals ?c k"
      "tc_size c' \<le> tc_maxSize c" "tc_fresh c' = tc_fresh c" by auto
    moreover from this(3) have "\<forall>k. tc_vals c' k \<subseteq> tc_vals c k" using vals by (meson order_trans)
    ultimately show ?thesis
      using True timed by (simp add: tc_prune_loop.simps [of count c] Let_def)
  next
    case False
    then show ?thesis using "1.prems" by (simp add: tc_prune_loop.simps [of count c])
  qed
qed

lemma tc_prune_law:
  assumes "tc_inv c"
  shows "\<exists>n c'. tc_prune c = Inr (n, c') \<and> tc_inv c' \<and> (\<forall>k. tc_vals c' k \<subseteq> tc_vals c k)"
  using tc_prune_loop_law [OF assms, of 0] assms by (auto simp: tc_prune_def)

lemma tc_set_law:
  assumes "tc_inv c"
  shows "\<exists>c'. tc_set k v timeout_ms now c = Inr c' \<and> tc_inv c' \<and>
    tc_vals c' k \<subseteq> insert v (tc_vals c k) \<and> (\<forall>j. j \<noteq> k \<longrightarrow> tc_vals c' j \<subseteq> tc_vals c j)"
proof -
  let ?it = "\<lparr>ti_key = k, ti_val = v, ti_ts = ts_add timeout_ms now\<rparr>"
  let ?cache = "if map_of (tc_cache c) k \<noteq> None then map_erase k (tc_cache c) else tc_cache c"
  obtain i timed where ins: "timed_insert (tc_fresh c) ?it (tc_timed c) = (i, timed)" by fastforce
  have ok: "timed_ok (tc_fresh c) (tc_timed c)" using assms by (simp add: tc_inv_def)
  note t = timed_insert_law [OF ok ins]
  define c1 where "c1 = c\<lparr>tc_status := snd (incSet 1 (tc_status c)), tc_cache := map_insert k i ?cache, tc_timed := timed, tc_fresh := Suc (tc_fresh c)\<rparr>"
  have cache: "map_of (map_insert k i ?cache) = (map_of (tc_cache c))(k \<mapsto> i)"
    by (auto simp: map_of_map_insert map_of_map_erase)
  have "\<exists>it. (j, it) \<in> set timed \<and> ti_key it = k'" if "map_of (map_insert k i ?cache) k' = Some j" for k' j
  proof (cases "k' = k")
    case True
    have "j = i" using that unfolding cache True by simp
    then show ?thesis using t True by auto
  next
    case False
    then have "map_of (tc_cache c) k' = Some j" using that unfolding cache by simp
    then show ?thesis using assms t by (fastforce simp: tc_inv_def)
  qed
  then have inv: "tc_inv c1"
    using assms t by (simp add: c1_def tc_inv_def)
  have "snd ` set timed \<subseteq> insert ?it (snd ` set (tc_timed c))" using t by (metis image_mono image_insert snd_conv)
  then have "snd ` set (tc_timed c1) \<subseteq> insert ?it (snd ` set (tc_timed c))" by (simp add: c1_def)
  from tc_vals_insert [OF this] have vals: "tc_vals c1 k \<subseteq> insert v (tc_vals c k)"
    "j \<noteq> k \<Longrightarrow> tc_vals c1 j \<subseteq> tc_vals c j" for j by simp_all
  have "tc_set k v timeout_ms now c = rbind (tc_prune c1) (\<lambda>(_, c). Inr c)"
    by (simp add: tc_set_def Let_def ins c1_def)
  with tc_prune_law [OF inv] vals show ?thesis by fastforce
qed

lemma tc_get_law:
  assumes "tc_inv c"
  shows "\<exists>c'. tc_get k c = Inr (tc_look c k, c') \<and> tc_inv c' \<and> tc_look c' = tc_look c \<and> (\<forall>j. tc_vals c' j \<subseteq> tc_vals c j)"
proof (cases "map_of (tc_cache c) k")
  case None
  then show ?thesis using assms by (simp add: tc_get_def tc_look_def Let_def)
next
  case (Some i)
  then obtain it where "map_of (tc_timed c) i = Some it"
    using assms timed_ok_map_of by (fastforce simp: tc_inv_def)
  then show ?thesis using assms Some by (simp add: tc_get_def tc_look_def Let_def)
qed

lemma tc_del_law:
  assumes "tc_inv c"
  shows "\<exists>b c'. tc_del ub k c = Inr (b, c') \<and> tc_inv c' \<and> tc_look c' k = None \<and> (\<forall>j. tc_vals c' j \<subseteq> tc_vals c j)"
proof (cases "map_of (tc_cache c) k")
  case None
  then show ?thesis using assms by (auto simp: tc_del_def tc_look_def Let_def)
next
  case (Some i)
  obtain it where it: "(i, it) \<in> set (tc_timed c)" "ti_key it = k" using tc_inv_entry [OF assms Some] by blast
  have ok: "timed_ok (tc_fresh c) (tc_timed c)" using assms by (simp add: tc_inv_def)
  let ?c = "c\<lparr>tc_timed := node_erase i (tc_timed c), tc_cache := map_erase k (tc_cache c)\<rparr>"
  have "\<exists>x. (j, x) \<in> set (node_erase i (tc_timed c)) \<and> ti_key x = k'" if "map_of (map_erase k (tc_cache c)) k' = Some j" for k' j
  proof -
    have k': "k' \<noteq> k" "map_of (tc_cache c) k' = Some j" using that by (auto simp: map_of_map_erase split: if_splits)
    then obtain x where x: "(j, x) \<in> set (tc_timed c)" "ti_key x = k'" using tc_inv_entry [OF assms] by blast
    then have "j \<noteq> i" using it k'(1) timed_ok_unique [OF ok, of i x it] by auto
    then show ?thesis using x by auto
  qed
  then have "tc_inv ?c"
    using assms timed_ok_erase [OF ok] by (simp add: tc_inv_def)
  moreover have "tc_look ?c k = None" by (simp add: tc_look_def map_of_map_erase)
  moreover have "tc_vals ?c j \<subseteq> tc_vals c j" for j by (auto simp: tc_vals_def)
  ultimately show ?thesis
    using Some it timed_ok_map_of [OF ok, of i it] by (simp add: tc_del_def Let_def)
qed

lemma tc_expired_law:
  assumes "tc_inv c"
  shows "\<exists>b c'. tc_expired k ts now c = Inr (b, c') \<and> tc_inv c' \<and> (\<forall>j. tc_vals c' j \<subseteq> tc_vals c j)"
proof (cases "map_of (tc_cache c) k")
  case None
  then show ?thesis using assms by (auto simp: tc_expired_def)
next
  case (Some i)
  obtain it where it: "(i, it) \<in> set (tc_timed c)" "ti_key it = k" using tc_inv_entry [OF assms Some] by blast
  have ok: "timed_ok (tc_fresh c) (tc_timed c)" using assms by (simp add: tc_inv_def)
  obtain j timed where ins: "timed_insert (tc_fresh c) it (node_erase i (tc_timed c)) = (j, timed)" by fastforce
  note t = timed_insert_law [OF timed_ok_erase [OF ok] ins]
  let ?c = "c\<lparr>tc_timed := timed, tc_cache := AList.update k j (tc_cache c), tc_fresh := Suc (tc_fresh c)\<rparr>"
  have "\<exists>x. (l, x) \<in> set timed \<and> ti_key x = k'" if "map_of (AList.update k j (tc_cache c)) k' = Some l" for k' l
  proof (cases "k' = k")
    case True
    then show ?thesis using that t it(2) by (auto simp: update_conv)
  next
    case False
    then have l: "map_of (tc_cache c) k' = Some l" using that by (simp add: update_conv)
    then obtain x where x: "(l, x) \<in> set (tc_timed c)" "ti_key x = k'" using tc_inv_entry [OF assms] by blast
    then have "l \<noteq> i" using it False timed_ok_unique [OF ok, of i x it] by auto
    then show ?thesis using x t by fastforce
  qed
  then have "tc_inv ?c"
    using assms t by (simp add: tc_inv_def distinct_update)
  moreover have "tc_vals ?c j \<subseteq> tc_vals c j" for j
  proof (rule tc_vals_mono)
    have "set timed \<subseteq> insert (tc_fresh c, it) (set (tc_timed c))" using t by auto
    then have "snd ` set timed \<subseteq> insert it (snd ` set (tc_timed c))" by (metis image_mono image_insert snd_conv)
    moreover have "it \<in> snd ` set (tc_timed c)" using it(1) by force
    ultimately show "snd ` set (tc_timed ?c) \<subseteq> snd ` set (tc_timed c)" by auto
  qed
  ultimately show ?thesis
    using Some assms ins timed_ok_map_of [OF ok, of i it] it(1) by (auto simp: tc_expired_def Let_def)
qed

lemma tc_expire_loop_law:
  "tc_inv c \<Longrightarrow> tc_timed c = timed \<Longrightarrow>
     \<exists>n c'. tc_expire_loop ts timed sz c = (n, c') \<and> tc_inv c' \<and> (\<forall>k. tc_vals c' k \<subseteq> tc_vals c k)"
proof (induction ts timed sz c rule: tc_expire_loop.induct)
  case (1 ts sz c)
  then show ?case by simp
next
  case (2 ts i it rest sz c)
  have t: "tc_timed (tc_call it c) = (i, it) # rest" by (simp add: "2.prems")
  let ?c = "(tc_call it c)\<lparr>tc_cache := map_erase (ti_key it) (tc_cache c), tc_timed := rest\<rparr>"
  show ?case
  proof (cases "ti_ts it \<le> ts")
    case True
    have "tc_inv ?c" and vals: "tc_vals ?c k \<subseteq> tc_vals c k" for k
      using tc_drop_first [OF _ t] "2.prems" by simp_all
    from "2.IH" [OF True refl] this(1) obtain n c' where
      "tc_expire_loop ts rest (Suc sz) ?c = (n, c')" "tc_inv c'" "\<forall>k. tc_vals c' k \<subseteq> tc_vals ?c k" by auto
    with vals True show ?thesis by (simp add: Let_def) (meson order_trans)
  next
    case False
    then show ?thesis using "2.prems" by simp
  qed
qed

text \<open>\<^verbatim>\<open>expired\<close>, \<^verbatim>\<open>checkTimeout\<close> and \<^verbatim>\<open>clear\<close> only remove items.\<close>

datatype 'k tc_sweep = Expired 'k nat nat | CheckTimeout nat | Clear

fun tc_shrink :: "'k::linorder tc_sweep \<Rightarrow> ('k, 'v) time_cache \<Rightarrow> fault + nat \<times> ('k, 'v) time_cache" where
  "tc_shrink (Expired k ts now) c = rbind (tc_expired k ts now c) (\<lambda>(_, c). Inr (0, c))"
| "tc_shrink (CheckTimeout ts) c = Inr (tc_checkTimeout ts c)"
| "tc_shrink Clear c = Inr (0, snd (tc_clear c))"

definition tc_put :: "'k::linorder \<Rightarrow> 'v \<Rightarrow> nat \<times> nat \<Rightarrow> ('k, 'v) time_cache \<Rightarrow> fault + ('k, 'v) time_cache" where
  "tc_put k v t = tc_set k v (fst t) (snd t)"

interpretation tc: value_cache tc_inv tc_look tc_vals tc_put tc_get "tc_del ub" tc_shrink
proof (unfold_locales, goal_cases)
  case (1 c k)
  show ?case
  proof (cases "tc_look c k")
    case (Some v)
    then obtain i it where "map_of (tc_cache c) k = Some i" "map_of (tc_timed c) i = Some it" "ti_val it = v"
      by (auto simp: tc_look_def bind_eq_Some_conv)
    moreover from 1 this(1) obtain x where "(i, x) \<in> set (tc_timed c)" "ti_key x = k" using tc_inv_entry by blast
    moreover have "timed_ok (tc_fresh c) (tc_timed c)" using 1 by (simp add: tc_inv_def)
    ultimately have "v = ti_val x \<and> x \<in> snd ` set (tc_timed c) \<and> ti_key x = k"
      using timed_ok_map_of [of "tc_fresh c" "tc_timed c" i x] by force
    then have "v \<in> tc_vals c k" unfolding tc_vals_def by blast
    then show ?thesis using Some by simp
  qed simp
next
  case (2 c k v t)
  then show ?case unfolding tc_put_def by (rule tc_set_law)
next
  case (3 c k)
  then show ?case by (rule tc_get_law)
next
  case (4 c k)
  then show ?case by (rule tc_del_law)
next
  case (5 c s)
  then show ?case
  proof (cases s)
    case (Expired k ts now)
    then show ?thesis using tc_expired_law [OF 5, of k ts now] by auto
  next
    case (CheckTimeout ts)
    then show ?thesis using tc_expire_loop_law [OF 5 refl, of ts 0] by (auto simp: tc_checkTimeout_def)
  next
    case Clear
    then show ?thesis by (simp add: tc_clear_def tc_inv_def tc_vals_def timed_ok_def)
  qed
qed

section \<open>Properties\<close>

lemma tc_inv_new: "tc_inv (new_TimeCache m e st)"
  by (simp add: tc_inv_def new_TimeCache_def timed_ok_def)

text \<open>
  In every run of a new cache with expiry no operation faults (no iterator dangles and the pruning loop never runs out of
  items), and a value that is found was put under that very key.
\<close>

theorem time_cache_hits_were_put:
  "\<exists>rs c. cache_run tc_put tc_get (tc_del ub) tc_shrink ops (new_TimeCache m e st) = Inr (rs, c) \<and>
     tc_inv c \<and> never_invented ops (\<lambda>_. {}) rs"
  by (rule tc.hits_were_put [OF tc_inv_new]) (simp add: tc_vals_def new_TimeCache_def)

text \<open>
  A value set again within the same millisecond with the same timeout is not stored: \<^verbatim>\<open>get\<close> still gives the old one. A value
  set again with a later expiry is lost when the item of the first one expires.
\<close>

theorem time_cache_stale:
  "map_sum id fst (cache_run tc_put tc_get (tc_del ub) tc_shrink [Put k v (t, now), Put k w (t, now), Get k] (new_TimeCache 0 e st))
     = Inr [Some v] \<and>
   map_sum id fst (cache_run tc_put tc_get (tc_del ub) tc_shrink
       [Put k v (10, 0), Put k w (10000, 5), Shrink (CheckTimeout 10), Get k] (new_TimeCache 0 e st))
     = Inr [None]"
  by (simp add: tc_put_def tc_set_def tc_get_def tc_prune_def tc_checkTimeout_def tc_call_def new_TimeCache_def tc_size_def
      timed_insert_def set_insert_def item_key_def map_insert_def map_erase_def ts_add_def Let_def incSet_def incGet_def incHit_def)

end
