(* ===== verification/HashTimeCache.thy ===== *)
theory HashTimeCache imports TimeCache begin

text \<open>
  The cache with expiry in several buckets (\<^verbatim>\<open>HashTimeCache\<close> in \<^verbatim>\<open>seaice/ds/timed_cache.h\<close>): the buckets are caches with expiry that share their
  counters, and the whole keeps the promise of a bucket.
\<close>

type_synonym ('k, 'v) hash_time = "(('k, 'v) time_cache, cache_status) hash_cache"

definition tc_with_status :: "cache_status \<Rightarrow> ('k, 'v) time_cache \<Rightarrow> ('k, 'v) time_cache" where
  "tc_with_status s c = c\<lparr>tc_status := s\<rparr>"

definition new_HashTimeCache :: "nat \<Rightarrow> nat \<Rightarrow> nat \<Rightarrow> fault + ('k, 'v) hash_time" where
  "new_HashTimeCache bucket max_size elasticity =
     (if bucket = 0 then Inl DivByZero
      else
        let pre_max_size = ceil_div max_size bucket; pre_elasticity = ceil_div elasticity bucket in
        Inr \<lparr>hc_bucket = bucket, hc_maxSize = pre_max_size * bucket, hc_elasticity = pre_elasticity * bucket,
             hc_status = new_CacheStatus,
             hc_datas = replicate bucket (new_TimeCache pre_max_size pre_elasticity new_CacheStatus)\<rparr>)"

definition htc_set :: "('k::linorder \<Rightarrow> nat) \<Rightarrow> 'k \<Rightarrow> 'v \<Rightarrow> nat \<Rightarrow> nat \<Rightarrow> ('k, 'v) hash_time \<Rightarrow> fault + ('k, 'v) hash_time" where
  "htc_set hash k v ms now hc =
     rbind (hc_at tc_with_status tc_status (hash k) (unit_result (tc_set k v ms now)) hc) (\<lambda>(_, hc). Inr hc)"

definition htc_expired :: "('k::linorder \<Rightarrow> nat) \<Rightarrow> 'k \<Rightarrow> nat \<Rightarrow> nat \<Rightarrow> ('k, 'v) hash_time \<Rightarrow> fault + (bool \<times> ('k, 'v) hash_time)" where
  "htc_expired hash k ms now = hc_at tc_with_status tc_status (hash k) (tc_expired k ms now)"

definition htc_get :: "('k \<Rightarrow> nat) \<Rightarrow> 'k \<Rightarrow> ('k, 'v) hash_time \<Rightarrow> fault + ('v option \<times> ('k, 'v) hash_time)" where
  "htc_get hash k = hc_at tc_with_status tc_status (hash k) (tc_get k)"

definition htc_del :: "bool \<Rightarrow> ('k::linorder \<Rightarrow> nat) \<Rightarrow> 'k \<Rightarrow> ('k, 'v) hash_time \<Rightarrow> fault + (bool \<times> ('k, 'v) hash_time)" where
  "htc_del ub hash k = hc_at tc_with_status tc_status (hash k) (tc_del ub k)"

definition htc_exist :: "('k \<Rightarrow> nat) \<Rightarrow> 'k \<Rightarrow> ('k, 'v) hash_time \<Rightarrow> fault + (bool \<times> ('k, 'v) hash_time)" where
  "htc_exist hash k = hc_at tc_with_status tc_status (hash k) (\<lambda>c. Inr (tc_exist k c, c))"

definition htc_size :: "('k, 'v) hash_time \<Rightarrow> nat" where
  "htc_size hc = sum_list (map tc_size (hc_datas hc))"

definition htc_empty :: "('k, 'v) hash_time \<Rightarrow> bool" where
  "htc_empty hc = list_all tc_empty (hc_datas hc)"

definition htc_clear :: "('k, 'v) hash_time \<Rightarrow> ('k, 'v) hash_time" where
  "htc_clear hc = hc\<lparr>hc_datas := map (\<lambda>c. snd (tc_clear c)) (hc_datas hc)\<rparr>"

definition htc_getMaxAllowedSize :: "('k, 'v) hash_time \<Rightarrow> nat" where
  "htc_getMaxAllowedSize hc = hc_maxSize hc + hc_elasticity hc"

text \<open>Here \<^verbatim>\<open>setMaxSize\<close> rounds up, as the constructor does.\<close>

definition htc_setMaxSize :: "nat \<Rightarrow> ('k, 'v) hash_time \<Rightarrow> fault + ('k, 'v) hash_time" where
  "htc_setMaxSize v hc =
     (if hc_bucket hc = 0 then Inl DivByZero
      else
        let pre_max_size = ceil_div v (hc_bucket hc) in
        Inr (hc\<lparr>hc_maxSize := pre_max_size * hc_bucket hc, hc_datas := map (tc_setMaxSize pre_max_size) (hc_datas hc)\<rparr>))"

definition htc_setElasticity :: "nat \<Rightarrow> ('k, 'v) hash_time \<Rightarrow> fault + ('k, 'v) hash_time" where
  "htc_setElasticity v hc =
     (if hc_bucket hc = 0 then Inl DivByZero
      else
        let pre_elasticity = ceil_div v (hc_bucket hc) in
        Inr (hc\<lparr>hc_elasticity := pre_elasticity * hc_bucket hc,
                hc_datas := map (tc_setElasticity pre_elasticity) (hc_datas hc)\<rparr>))"

definition htc_setPruneCallback :: "bool \<Rightarrow> ('k, 'v) hash_time \<Rightarrow> ('k, 'v) hash_time" where
  "htc_setPruneCallback cb hc = hc\<lparr>hc_datas := map (tc_setPruneCallback cb) (hc_datas hc)\<rparr>"

definition htc_checkTimeout :: "nat \<Rightarrow> ('k::linorder, 'v) hash_time \<Rightarrow> fault + (nat \<times> ('k, 'v) hash_time)" where
  "htc_checkTimeout ts = hc_all tc_with_status tc_status (\<lambda>c. Inr (tc_checkTimeout ts c))"

section \<open>The contract\<close>

interpretation tcs: shared_cache tc_inv tc_look tc_vals tc_put tc_get "tc_del ub" tc_shrink tc_with_status tc_status hash
  for ub and hash :: "'k::linorder \<Rightarrow> nat"
  by unfold_locales (simp_all add: tc_with_status_def)

text \<open>The operations that only remove, on the whole: \<^verbatim>\<open>expired\<close> goes to the bucket of its key, the others to all.\<close>

fun htc_shrink :: "('k::linorder \<Rightarrow> nat) \<Rightarrow> 'k tc_sweep \<Rightarrow> ('k, 'v) hash_time \<Rightarrow> fault + nat \<times> ('k, 'v) hash_time" where
  "htc_shrink hash (Expired k ts now) hc = rbind (htc_expired hash k ts now hc) (\<lambda>(_, hc). Inr (0, hc))"
| "htc_shrink hash (CheckTimeout ts) hc = htc_checkTimeout ts hc"
| "htc_shrink hash Clear hc = Inr (0, htc_clear hc)"

definition htc_put :: "('k::linorder \<Rightarrow> nat) \<Rightarrow> 'k \<Rightarrow> 'v \<Rightarrow> nat \<times> nat \<Rightarrow> ('k, 'v) hash_time \<Rightarrow> fault + ('k, 'v) hash_time" where
  "htc_put hash k v t = htc_set hash k v (fst t) (snd t)"

lemma htc_put_whole: "hc_put tc_with_status tc_status hash tc_put = htc_put hash"
  by (intro ext) (simp add: hc_put_def htc_put_def htc_set_def tc_put_def)

lemma htc_clear_law:
  fixes hc :: "('k::linorder, 'v) hash_time"
  assumes "hc_inv tc_inv hc"
  shows "hc_inv tc_inv (htc_clear hc) \<and> hc_look tc_vals hash (htc_clear hc) j = {}"
proof -
  have e: "tc_inv (snd (tc_clear c))" "tc_vals (snd (tc_clear c)) j = {}" for c :: "('k, 'v) time_cache"
    by (simp_all add: tc_clear_def tc_inv_def tc_vals_def timed_ok_def)
  have "hash j mod hc_bucket hc < length (hc_datas hc)" using hc_invD(1) [OF assms] by blast
  then show ?thesis using assms e by (auto simp: htc_clear_def hc_inv_def hc_look_def)
qed

lemma htc_expired_law:
  fixes hc :: "('k::linorder, 'v) hash_time"
  assumes "hc_inv tc_inv hc"
  shows "\<exists>b hc'. htc_expired hash k ts now hc = Inr (b, hc') \<and> hc_inv tc_inv hc' \<and>
    (\<forall>j. hc_look tc_vals hash hc' j \<subseteq> hc_look tc_vals hash hc j)"
proof -
  have "\<exists>r c'. tc_expired k ts now c = Inr (r, c') \<and> tc_inv c' \<and> True \<and> (\<forall>j. tc_vals c' j \<subseteq> tc_vals c j) \<and>
      (False \<longrightarrow> tc_look c' = tc_look c)" if "tc_inv c" for c :: "('k, 'v) time_cache"
    using tc_expired_law [OF that, of k ts now] by blast
  from tcs.hc_access_law [OF assms, where P = "\<lambda>_ _ _. True" and Q = False and f = "tc_expired k ts now" and k = k and hash = hash, OF this]
  show ?thesis unfolding htc_expired_def by blast
qed

lemma htc_shrink_law:
  assumes "hc_inv tc_inv hc"
  shows "\<exists>n hc'. htc_shrink hash s hc = Inr (n, hc') \<and> hc_inv tc_inv hc' \<and>
    (\<forall>j. hc_look tc_vals hash hc' j \<subseteq> hc_look tc_vals hash hc j)"
proof (cases s)
  case (Expired k ts now)
  then show ?thesis using htc_expired_law [OF assms, of hash k ts now] by auto
next
  case (CheckTimeout ts)
  have "hc_all tc_with_status tc_status (tc_shrink (CheckTimeout ts)) hc = htc_checkTimeout ts hc"
    by (simp add: htc_checkTimeout_def tc_shrink.simps(2) [abs_def])
  then show ?thesis using tcs.hc_all_law [OF assms, of "CheckTimeout ts" hash] CheckTimeout by auto
next
  case Clear
  then show ?thesis using htc_clear_law [OF assms] by auto
qed

interpretation htc: value_cache "hc_inv tc_inv" "hc_look tc_look hash" "hc_look tc_vals hash" "htc_put hash" "htc_get hash"
  "htc_del ub hash" "htc_shrink hash"
  for ub and hash :: "'k::linorder \<Rightarrow> nat"
proof (unfold_locales, goal_cases)
  case (1 hc k)
  then show ?case by (rule tcs.shared.look_vals)
next
  case (2 hc k v t)
  then show ?case unfolding htc_put_whole [symmetric] by (rule tcs.shared.put_law)
next
  case (3 hc k)
  then show ?case unfolding htc_get_def by (rule tcs.shared.get_law)
next
  case (4 hc k)
  then show ?case unfolding htc_del_def by (rule tcs.shared.del_law)
next
  case (5 hc s)
  then show ?case by (rule htc_shrink_law)
qed

section \<open>Properties\<close>

text \<open>The limits of the whole are those asked for, rounded up to a multiple of the number of buckets.\<close>

lemma new_HashTimeCache_ok:
  assumes "0 < bucket"
  shows "\<exists>hc :: ('k::linorder, 'v) hash_time. new_HashTimeCache bucket m e = Inr hc \<and> hc_inv tc_inv hc \<and>
    (\<forall>k. hc_look tc_vals hash hc k \<subseteq> {}) \<and> m \<le> hc_maxSize hc \<and> hc_maxSize hc < m + bucket"
proof -
  have "tc_vals (new_TimeCache a b st) = (\<lambda>k :: 'k. {} :: 'v set)" for a b st by (simp add: tc_vals_def new_TimeCache_def fun_eq_iff)
  then show ?thesis
    using assms ceil_div_bounds [OF assms, of m] by (auto simp: new_HashTimeCache_def Let_def hc_inv_def hc_look_def tc_inv_new)
qed



lemma tc_setMaxSize_keeps [simp]:
  "tc_size (tc_setMaxSize n c) = tc_size c" "tc_timed (tc_setMaxSize n c) = tc_timed c" "tc_maxSize (tc_setMaxSize n c) = n"
  by (simp_all add: tc_setMaxSize_def tc_size_def)

text \<open>
  Changing the limit later keeps the limits of the buckets those of the whole divided by their number.
\<close>

theorem hash_time_cache_limits:
  assumes "0 < hc_bucket hc" and "htc_setMaxSize v hc = Inr hc'"
  shows "v \<le> hc_maxSize hc' \<and> hc_maxSize hc' < v + hc_bucket hc' \<and>
    (\<forall>c \<in> set (hc_datas hc'). tc_maxSize c * hc_bucket hc' = hc_maxSize hc') \<and>
    map tc_timed (hc_datas hc') = map tc_timed (hc_datas hc) \<and> htc_size hc' = htc_size hc"
proof -
  have hc': "hc' = hc\<lparr>hc_maxSize := ceil_div v (hc_bucket hc) * hc_bucket hc, hc_datas := map (tc_setMaxSize (ceil_div v (hc_bucket hc))) (hc_datas hc)\<rparr>"
    using assms by (simp add: htc_setMaxSize_def Let_def)
  then show ?thesis using ceil_div_bounds [OF assms(1), of v] by (simp add: htc_size_def comp_def)
qed

end
