(* ===== verification/Timer.thy ===== *)
theory Timer imports Containers begin

text \<open>
  Timers and their manager (\<^verbatim>\<open>seaice/timer.h\<close>, \<^verbatim>\<open>seaice/timer.cpp\<close>). Timers are shared objects: \<open>tm_heap\<close>
  maps an address to the timer there, and the set of the manager holds addresses in the order of
  \<^verbatim>\<open>TimerCmp\<close>. \<open>tm_self\<close> is the manager's own timer, which serves as the bound of a sweep. The clock
  is a parameter: \<open>now\<close> is the reading of an operation, \<open>clk a\<close> the reading at which the timer \<open>a\<close> is
  refreshed in a sweep. An allocation gets its address from outside.
\<close>

record 'cb timer =
  t_ms :: nat
  t_cb :: "'cb option"
  t_cycle :: bool
  t_id :: nat
  t_cancel :: bool
  t_expire :: nat

record 'cb timer_manager =
  tm_heap :: "nat \<Rightarrow> 'cb timer option"
  tm_set :: "nat list"
  tm_self :: nat
  tm_next_id :: nat
  tm_ticks :: nat

section \<open>Timers\<close>

definition new_Timer :: "nat \<Rightarrow> 'cb option \<Rightarrow> bool \<Rightarrow> nat \<Rightarrow> nat \<Rightarrow> 'cb timer" where
  "new_Timer time cb cycle i now =
     \<lparr>t_ms = time, t_cb = cb, t_cycle = cycle, t_id = i, t_cancel = False, t_expire = ts_add time now\<rparr>"

definition cancel :: "'cb timer \<Rightarrow> 'cb timer" where
  "cancel t = t\<lparr>t_cancel := True, t_cb := None, t_cycle := False\<rparr>"

definition refresh :: "nat \<Rightarrow> 'cb timer \<Rightarrow> 'cb timer" where
  "refresh now t = (if t_cycle t then t\<lparr>t_expire := ts_add (t_ms t) now\<rparr> else t)"

definition setExpireTime :: "nat \<Rightarrow> 'cb timer \<Rightarrow> 'cb timer" where
  "setExpireTime time t = t\<lparr>t_expire := time\<rparr>"

text \<open>The order of timers; \<open>None\<close> is the null pointer, which comes first.\<close>

definition TimerCmp :: "(nat \<Rightarrow> 'cb timer option) \<Rightarrow> nat option \<Rightarrow> nat option \<Rightarrow> bool" where
  "TimerCmp h lhs rhs =
     (case (lhs, rhs) of
        (None, None) \<Rightarrow> False
      | (None, Some _) \<Rightarrow> True
      | (Some _, None) \<Rightarrow> False
      | (Some a, Some b) \<Rightarrow>
          if t_expire (the (h a)) < t_expire (the (h b)) then True
          else if t_expire (the (h b)) < t_expire (the (h a)) then False
          else a < b)"

text \<open>What the comparison compares: the key of a timer in the ordered set.\<close>

definition timer_key :: "(nat \<Rightarrow> 'cb timer option) \<Rightarrow> nat \<Rightarrow> nat \<times> nat" where
  "timer_key h a = (t_expire (the (h a)), a)"

lemma TimerCmp_key: "TimerCmp h (Some a) (Some b) \<longleftrightarrow> timer_key h a < timer_key h b"
  by (auto simp: TimerCmp_def timer_key_def less_prod_def')

section \<open>The manager\<close>

definition new_TimerManager :: "nat \<Rightarrow> nat \<Rightarrow> nat \<Rightarrow> 'cb timer_manager" where
  "new_TimerManager self i now =
     \<lparr>tm_heap = [self \<mapsto> new_Timer 0 None False i now], tm_set = [], tm_self = self, tm_next_id = Suc i, tm_ticks = 0\<rparr>"

definition addTimer_ptr :: "nat \<Rightarrow> 'cb timer_manager \<Rightarrow> fault + 'cb timer_manager" where
  "addTimer_ptr a m =
     (case tm_heap m a of
        None \<Rightarrow> Inl NullDeref
      | Some t \<Rightarrow>
          if t_cancel t then Inr m
          else
            let need_tick = (tm_set m = []) in
            Inr (m\<lparr>tm_set := set_insert (timer_key (tm_heap m)) a (tm_set m),
                   tm_ticks := (if need_tick then Suc (tm_ticks m) else tm_ticks m)\<rparr>))"

definition addTimer :: "nat \<Rightarrow> 'cb option \<Rightarrow> bool \<Rightarrow> nat \<Rightarrow> nat \<Rightarrow> 'cb timer_manager \<Rightarrow> fault + 'cb timer_manager" where
  "addTimer millisecond cb cycle now a m =
     addTimer_ptr a (m\<lparr>tm_heap := (tm_heap m)(a \<mapsto> new_Timer millisecond cb cycle (tm_next_id m) now),
                       tm_next_id := Suc (tm_next_id m)\<rparr>)"

definition delTimer :: "nat \<Rightarrow> 'cb timer_manager \<Rightarrow> fault + 'cb timer_manager" where
  "delTimer a m =
     (case tm_heap m a of
        None \<Rightarrow> Inl NullDeref
      | Some t \<Rightarrow>
          let h = (tm_heap m)(a \<mapsto> cancel t) in
          Inr (m\<lparr>tm_heap := h, tm_set := set_erase (timer_key h) a (tm_set m)\<rparr>))"

text \<open>\<^verbatim>\<open>Timer::cancel\<close> as its owner calls it: the timer stays in the set until a sweep.\<close>

definition cancelTimer :: "nat \<Rightarrow> 'cb timer_manager \<Rightarrow> 'cb timer_manager" where
  "cancelTimer a m = m\<lparr>tm_heap := (tm_heap m)(a := map_option cancel (tm_heap m a))\<rparr>"

text \<open>The difference of the times is cut down to an \<^verbatim>\<open>int\<close>.\<close>

definition getRecentTimerout :: "nat \<Rightarrow> 'cb timer_manager \<Rightarrow> nat" where
  "getRecentTimerout now m =
     (let ret = (case tm_set m of
                   [] \<Rightarrow> 2 ^ 31 - 1
                 | a # _ \<Rightarrow> sint (word_of_nat (size_sub (t_expire (the (tm_heap m a))) now) :: 32 word))
      in nat (if ret < 0 then 0 else ret))"

text \<open>The loop over the timers taken out of the set.\<close>

fun fire_timers :: "(nat \<Rightarrow> nat) \<Rightarrow> nat list \<Rightarrow> 'cb option list \<Rightarrow> 'cb timer_manager \<Rightarrow> fault + ('cb option list \<times> 'cb timer_manager)" where
  "fire_timers clk [] callbacks m = Inr (callbacks, m)"
| "fire_timers clk (a # vec) callbacks m =
     (case tm_heap m a of
        None \<Rightarrow> Inl NullDeref
      | Some t \<Rightarrow>
          if t_cancel t then fire_timers clk vec callbacks m
          else
            let callbacks = callbacks @ [t_cb t] in
            if t_cycle t then
              rbind (addTimer_ptr a (m\<lparr>tm_heap := (tm_heap m)(a \<mapsto> refresh (clk a) t)\<rparr>)) (\<lambda>m.
                fire_timers clk vec callbacks m)
            else fire_timers clk vec callbacks m)"

definition listTimeroutCallback :: "nat \<Rightarrow> (nat \<Rightarrow> nat) \<Rightarrow> 'cb option list \<Rightarrow> 'cb timer_manager \<Rightarrow> fault + ('cb option list \<times> 'cb timer_manager)" where
  "listTimeroutCallback now clk callbacks m =
     (case tm_heap m (tm_self m) of
        None \<Rightarrow> Inl NullDeref
      | Some self \<Rightarrow>
          let h = (tm_heap m)(tm_self m \<mapsto> setExpireTime now self);
              m = m\<lparr>tm_heap := h\<rparr>
          in
          if tm_set m = [] then Inr (callbacks, m)
          else
            let before = (\<lambda>a. TimerCmp h (Some a) (Some (tm_self m)));
                vec = takeWhile before (tm_set m)
            in fire_timers clk vec [] (m\<lparr>tm_set := dropWhile before (tm_set m)\<rparr>))"

section \<open>Invariant\<close>

definition tm_inv :: "'cb timer_manager \<Rightarrow> bool" where
  "tm_inv m \<longleftrightarrow>
     set_sorted (timer_key (tm_heap m)) (tm_set m) \<and> (\<forall>a \<in> set (tm_set m). tm_heap m a \<noteq> None) \<and>
     tm_heap m (tm_self m) \<noteq> None \<and> tm_self m \<notin> set (tm_set m)"

lemma timer_key_inj: "timer_key h a = timer_key h' b \<Longrightarrow> a = b"
  by (simp add: timer_key_def)

lemma timer_key_image [simp]: "timer_key h a \<in> timer_key h ` A \<longleftrightarrow> a \<in> A"
  by (auto dest: timer_key_inj)

lemma timer_key_upd: "x \<noteq> a \<Longrightarrow> timer_key (h(x := t)) a = timer_key h a"
  by (simp add: timer_key_def)

lemma set_timer_insert [simp]: "set (set_insert (timer_key h) a xs) = insert a (set xs)"
  by (cases "a \<in> set xs") (simp_all add: set_insert_def set_insort_key insert_absorb)

lemma set_sorted_timer_upd:
  "x \<notin> set xs \<Longrightarrow> set_sorted (timer_key (h(x := t))) xs = set_sorted (timer_key h) xs"
  by (intro set_sorted_cong timer_key_upd) auto

lemma addTimer_ptr_spec:
  assumes "tm_inv m" and "tm_heap m a = Some t" and "a \<noteq> tm_self m"
  shows "\<exists>m'. addTimer_ptr a m = Inr m' \<and> tm_inv m' \<and> tm_heap m' = tm_heap m \<and> tm_self m' = tm_self m \<and>
    set (tm_set m') = (if t_cancel t then set (tm_set m) else insert a (set (tm_set m))) \<and>
    tm_ticks m' = tm_ticks m + (if \<not> t_cancel t \<and> tm_set m = [] then 1 else 0)"
  using assms by (auto simp: addTimer_ptr_def tm_inv_def Let_def)

text \<open>The timers of a sweep that stay, and the timers after it.\<close>

definition again :: "'cb timer_manager \<Rightarrow> nat list \<Rightarrow> nat set" where
  "again m vec = {a \<in> set vec. \<not> t_cancel (the (tm_heap m a)) \<and> t_cycle (the (tm_heap m a))}"

definition fired_heap :: "(nat \<Rightarrow> nat) \<Rightarrow> 'cb timer_manager \<Rightarrow> nat list \<Rightarrow> nat \<Rightarrow> 'cb timer option" where
  "fired_heap clk m vec =
     (\<lambda>a. if a \<in> set vec \<and> \<not> t_cancel (the (tm_heap m a)) then map_option (refresh (clk a)) (tm_heap m a) else tm_heap m a)"

lemma fire_timers_spec:
  assumes "tm_inv m" and "distinct vec" and "set vec \<inter> set (tm_set m) = {}" and "tm_self m \<notin> set vec"
    and "\<forall>a \<in> set vec. tm_heap m a \<noteq> None"
  shows "\<exists>m'. fire_timers clk vec cbs m =
      Inr (cbs @ map (\<lambda>a. t_cb (the (tm_heap m a))) (filter (\<lambda>a. \<not> t_cancel (the (tm_heap m a))) vec), m') \<and>
    tm_inv m' \<and> tm_self m' = tm_self m \<and>
    set (tm_set m') = set (tm_set m) \<union> again m vec \<and> tm_heap m' = fired_heap clk m vec"
  using assms
proof (induction vec arbitrary: cbs m)
  case Nil
  then show ?case by (simp add: again_def fired_heap_def)
next
  case (Cons a vec)
  from Cons.prems(5) obtain t where t: "tm_heap m a = Some t" by auto
  show ?case
  proof (cases "t_cancel t")
    case True
    from Cons.IH [OF Cons.prems(1), of cbs] Cons.prems obtain m' where
      m': "fire_timers clk vec cbs m = Inr (cbs @ map (\<lambda>a. t_cb (the (tm_heap m a))) (filter (\<lambda>a. \<not> t_cancel (the (tm_heap m a))) vec), m')"
        "tm_inv m'" "tm_self m' = tm_self m" "set (tm_set m') = set (tm_set m) \<union> again m vec" "tm_heap m' = fired_heap clk m vec"
      by auto
    have "again m (a # vec) = again m vec" "fired_heap clk m (a # vec) = fired_heap clk m vec"
      using True t by (auto simp: again_def fired_heap_def fun_eq_iff)
    with m' True t show ?thesis by (intro exI [of _ m']) simp
  next
    case False
    show ?thesis
    proof (cases "t_cycle t")
      case False
      from Cons.IH [OF Cons.prems(1), of "cbs @ [t_cb t]"] Cons.prems obtain m' where
        m': "fire_timers clk vec (cbs @ [t_cb t]) m = Inr ((cbs @ [t_cb t]) @ map (\<lambda>a. t_cb (the (tm_heap m a))) (filter (\<lambda>a. \<not> t_cancel (the (tm_heap m a))) vec), m')"
          "tm_inv m'" "tm_self m' = tm_self m" "set (tm_set m') = set (tm_set m) \<union> again m vec" "tm_heap m' = fired_heap clk m vec"
        by auto
      have "again m (a # vec) = again m vec" "fired_heap clk m (a # vec) = fired_heap clk m vec"
        using False t by (auto simp: again_def fired_heap_def fun_eq_iff refresh_def)
      with m' False \<open>\<not> t_cancel t\<close> t show ?thesis
        by (intro exI [of _ m']) simp
    next
      case True
      let ?m = "m\<lparr>tm_heap := (tm_heap m)(a \<mapsto> refresh (clk a) t)\<rparr>"
      have "tm_inv ?m"
        using Cons.prems by (auto simp: tm_inv_def set_sorted_timer_upd)
      moreover have "\<not> t_cancel (refresh (clk a) t)" using False by (simp add: refresh_def)
      ultimately obtain m1 where m1: "addTimer_ptr a ?m = Inr m1" "tm_inv m1" "tm_heap m1 = tm_heap ?m"
        "tm_self m1 = tm_self m" "set (tm_set m1) = insert a (set (tm_set m))"
        using addTimer_ptr_spec [of ?m a "refresh (clk a) t"] Cons.prems(4) by auto
      have "distinct vec" "set vec \<inter> set (tm_set m1) = {}" "tm_self m1 \<notin> set vec" "\<forall>b \<in> set vec. tm_heap m1 b \<noteq> None"
        using Cons.prems m1 by auto
      from Cons.IH [OF m1(2) this, of "cbs @ [t_cb t]"] obtain m' where
        m': "fire_timers clk vec (cbs @ [t_cb t]) m1 =
            Inr ((cbs @ [t_cb t]) @ map (\<lambda>a. t_cb (the (tm_heap m1 a))) (filter (\<lambda>a. \<not> t_cancel (the (tm_heap m1 a))) vec), m')"
          "tm_inv m'" "tm_self m' = tm_self m1"
          "set (tm_set m') = set (tm_set m1) \<union> again m1 vec" "tm_heap m' = fired_heap clk m1 vec" by blast
      have a: "a \<notin> set vec" using Cons.prems(2) by simp
      have same: "tm_heap m1 b = tm_heap m b" if "b \<in> set vec" for b using that a m1(3) by auto
      have "filter (\<lambda>a. \<not> t_cancel (the (tm_heap m1 a))) vec = filter (\<lambda>a. \<not> t_cancel (the (tm_heap m a))) vec"
        by (rule filter_cong) (simp_all add: same)
      then have cbs: "map (\<lambda>a. t_cb (the (tm_heap m1 a))) (filter (\<lambda>a. \<not> t_cancel (the (tm_heap m1 a))) vec) =
          map (\<lambda>a. t_cb (the (tm_heap m a))) (filter (\<lambda>a. \<not> t_cancel (the (tm_heap m a))) vec)"
        by (simp add: same)
      have "tm_heap m' = fired_heap clk m (a # vec)"
        using False t a unfolding m'(5) by (auto simp: fired_heap_def m1(3) fun_eq_iff)
      moreover have "set (tm_set m') = set (tm_set m) \<union> again m (a # vec)"
        using False True t same unfolding m'(4) m1(5) by (auto simp: again_def)
      ultimately show ?thesis
        using t False True m1(1) m'(1-3) m1(4) cbs by (intro exI [of _ m']) (simp add: Let_def)
    qed
  qed
qed

section \<open>Properties\<close>

text \<open>The timers that a sweep at \<open>now\<close> takes out: those before the manager's own timer.\<close>

definition due :: "nat \<Rightarrow> 'cb timer_manager \<Rightarrow> nat list" where
  "due now m = filter (\<lambda>a. timer_key (tm_heap m) a < (now, tm_self m)) (tm_set m)"

lemma due_bounds:
  "a \<in> set (tm_set m) \<Longrightarrow> t_expire (the (tm_heap m a)) < now \<Longrightarrow> a \<in> set (due now m)"
  "a \<in> set (due now m) \<Longrightarrow> t_expire (the (tm_heap m a)) \<le> now"
  by (auto simp: due_def timer_key_def less_prod_def')

lemma sweep_split:
  assumes "tm_inv m" and "tm_heap m (tm_self m) = Some self"
    and "h = (tm_heap m)(tm_self m \<mapsto> setExpireTime now self)"
    and "before = (\<lambda>a. TimerCmp h (Some a) (Some (tm_self m)))"
  shows "takeWhile before (tm_set m) = due now m"
    and "dropWhile before (tm_set m) = filter (\<lambda>a. a \<notin> set (due now m)) (tm_set m)"
proof -
  have sorted: "set_sorted (timer_key h) (tm_set m)"
    using assms(1,3) by (simp add: tm_inv_def set_sorted_timer_upd)
  have b: "before a = (timer_key h a < (now, tm_self m))" for a
    unfolding assms(4) TimerCmp_key by (simp add: timer_key_def assms(3) setExpireTime_def)
  have same: "timer_key h a = timer_key (tm_heap m) a" if "a \<in> set (tm_set m)" for a
    using that assms(1,3) by (auto simp: tm_inv_def intro!: timer_key_upd)
  have due: "filter before (tm_set m) = due now m"
    unfolding due_def b using same by (intro filter_cong) simp_all
  then show "takeWhile before (tm_set m) = due now m"
    using set_sorted_takeWhile(1) [OF sorted, of before] b by (metis (no_types, lifting) le_less_trans)
  have "dropWhile before (tm_set m) = filter (\<lambda>a. \<not> before a) (tm_set m)"
    using set_sorted_takeWhile(2) [OF sorted, of before] b by (metis (no_types, lifting) le_less_trans)
  also have "\<dots> = filter (\<lambda>a. a \<notin> set (due now m)) (tm_set m)"
    unfolding due [symmetric] by (rule filter_cong) simp_all
  finally show "dropWhile before (tm_set m) = filter (\<lambda>a. a \<notin> set (due now m)) (tm_set m)" .
qed

lemma timer_sweep_spec:
  assumes inv: "tm_inv m" and ne: "tm_set m \<noteq> []"
  shows "\<exists>m'. listTimeroutCallback now clk cbs m =
      Inr (map (\<lambda>a. t_cb (the (tm_heap m a))) (filter (\<lambda>a. \<not> t_cancel (the (tm_heap m a))) (due now m)), m') \<and>
    tm_inv m' \<and>
    set (tm_set m') = (set (tm_set m) - set (due now m)) \<union> again m (due now m) \<and>
    (\<forall>a. a \<noteq> tm_self m \<longrightarrow> tm_heap m' a = fired_heap clk m (due now m) a)"
proof -
  from inv obtain self where self: "tm_heap m (tm_self m) = Some self" by (auto simp: tm_inv_def)
  define h where "h = (tm_heap m)(tm_self m \<mapsto> setExpireTime now self)"
  define before where "before = (\<lambda>a. TimerCmp h (Some a) (Some (tm_self m)))"
  define m1 where "m1 = m\<lparr>tm_heap := h, tm_set := dropWhile before (tm_set m)\<rparr>"
  note split = sweep_split [OF inv self h_def before_def]
  have sorted: "set_sorted (timer_key (tm_heap m)) (tm_set m)" and self_out: "tm_self m \<notin> set (tm_set m)"
    using inv by (simp_all add: tm_inv_def)
  have due: "set (due now m) \<subseteq> set (tm_set m)" by (auto simp: due_def)
  have "tm_inv m1"
    using inv by (auto simp: tm_inv_def m1_def split(2) h_def set_sorted_timer_upd)
  moreover have "distinct (due now m)" using set_sorted_distinct [OF sorted] by (simp add: due_def)
  moreover have "set (due now m) \<inter> set (tm_set m1) = {}" by (auto simp: m1_def split(2))
  moreover have "tm_self m1 \<notin> set (due now m)" using due self_out by (auto simp: m1_def)
  moreover have "\<forall>a \<in> set (due now m). tm_heap m1 a \<noteq> None" using inv due by (auto simp: m1_def h_def tm_inv_def)
  ultimately obtain m' where
    m': "fire_timers clk (due now m) [] m1 =
        Inr (map (\<lambda>a. t_cb (the (tm_heap m1 a))) (filter (\<lambda>a. \<not> t_cancel (the (tm_heap m1 a))) (due now m)), m')"
      "tm_inv m'" "set (tm_set m') = set (tm_set m1) \<union> again m1 (due now m)" "tm_heap m' = fired_heap clk m1 (due now m)"
    using fire_timers_spec [of m1 "due now m" clk "[]"] by auto
  have same: "tm_heap m1 a = tm_heap m a" if "a \<noteq> tm_self m" for a using that by (simp add: m1_def h_def)
  have same': "tm_heap m1 a = tm_heap m a" if "a \<in> set (due now m)" for a using that due self_out by (intro same) auto
  have "filter (\<lambda>a. \<not> t_cancel (the (tm_heap m1 a))) (due now m) = filter (\<lambda>a. \<not> t_cancel (the (tm_heap m a))) (due now m)"
    by (rule filter_cong) (simp_all add: same')
  then have "map (\<lambda>a. t_cb (the (tm_heap m1 a))) (filter (\<lambda>a. \<not> t_cancel (the (tm_heap m1 a))) (due now m)) =
      map (\<lambda>a. t_cb (the (tm_heap m a))) (filter (\<lambda>a. \<not> t_cancel (the (tm_heap m a))) (due now m))"
    by (simp add: same')
  moreover have "again m1 (due now m) = again m (due now m)" by (auto simp: again_def same')
  moreover have "fired_heap clk m1 (due now m) a = fired_heap clk m (due now m) a" if "a \<noteq> tm_self m" for a
    by (simp add: fired_heap_def same [OF that])
  moreover have "set (tm_set m1) = set (tm_set m) - set (due now m)" by (auto simp: m1_def split(2))
  moreover have "listTimeroutCallback now clk cbs m = fire_timers clk (due now m) [] m1"
    using self ne split(1) by (simp add: listTimeroutCallback_def Let_def m1_def h_def [symmetric] before_def [symmetric])
  ultimately show ?thesis using m' by auto
qed

text \<open>
  C18. A sweep of the timers at the time \<open>now\<close>: the callbacks that it returns are those of the timers
  that are due and not cancelled, in the order of their expiry; every timer that expired before
  \<open>now\<close> is among the due ones and no timer that expires later is. The due timers leave the set, except
  that the cyclic ones that were not cancelled are back in it with a new expiry time; no other timer is
  lost, changed or added, and the set stays in order.
\<close>

theorem timer_sweep:
  assumes "tm_inv m" and "tm_set m \<noteq> []"
  shows "(\<exists>m'. listTimeroutCallback now clk cbs m =
        Inr (map (\<lambda>a. t_cb (the (tm_heap m a))) (filter (\<lambda>a. \<not> t_cancel (the (tm_heap m a))) (due now m)), m') \<and>
      tm_inv m' \<and>
      set (tm_set m') = (set (tm_set m) - set (due now m)) \<union>
        {a \<in> set (due now m). \<not> t_cancel (the (tm_heap m a)) \<and> t_cycle (the (tm_heap m a))} \<and>
      (\<forall>a \<in> set (tm_set m'). tm_heap m' a =
        (if a \<in> set (due now m) then map_option (\<lambda>t. t\<lparr>t_expire := ts_add (t_ms t) (clk a)\<rparr>) (tm_heap m a) else tm_heap m a))) \<and>
    sorted (map (\<lambda>a. t_expire (the (tm_heap m a))) (due now m)) \<and>
    (\<forall>a \<in> set (tm_set m). (t_expire (the (tm_heap m a)) < now \<longrightarrow> a \<in> set (due now m)) \<and>
      (a \<in> set (due now m) \<longrightarrow> t_expire (the (tm_heap m a)) \<le> now))"
proof -
  from timer_sweep_spec [OF assms] obtain m' where
    m': "listTimeroutCallback now clk cbs m =
        Inr (map (\<lambda>a. t_cb (the (tm_heap m a))) (filter (\<lambda>a. \<not> t_cancel (the (tm_heap m a))) (due now m)), m')"
      "tm_inv m'" "set (tm_set m') = (set (tm_set m) - set (due now m)) \<union> again m (due now m)"
      "\<forall>a. a \<noteq> tm_self m \<longrightarrow> tm_heap m' a = fired_heap clk m (due now m) a" by blast
  have "tm_heap m' a = (if a \<in> set (due now m) then map_option (\<lambda>t. t\<lparr>t_expire := ts_add (t_ms t) (clk a)\<rparr>) (tm_heap m a)
      else tm_heap m a)" if "a \<in> set (tm_set m')" for a
  proof -
    have "a \<in> set (tm_set m)" using that m'(3) by (auto simp: again_def due_def)
    then obtain t where t: "tm_heap m a = Some t" "a \<noteq> tm_self m" using assms(1) by (auto simp: tm_inv_def)
    with m'(3,4) that show ?thesis by (auto simp: fired_heap_def again_def refresh_def)
  qed
  moreover have "sorted (map (\<lambda>a. t_expire (the (tm_heap m a))) (due now m))"
  proof -
    have "sorted (map (timer_key (tm_heap m)) (due now m))"
      using assms(1) by (simp add: due_def tm_inv_def set_sorted_def sorted_filter)
    then show ?thesis by (simp add: sorted_iff_nth_mono timer_key_def less_eq_prod_def less_imp_le split: if_splits) (metis less_imp_le_nat)
  qed
  ultimately show ?thesis using m' due_bounds unfolding again_def by blast
qed

text \<open>A manager with a cancelled timer, a cyclic one and one that is not due yet.\<close>

definition sweep_example :: "nat timer_manager" where
  "sweep_example =
     (case rbind (addTimer 5 (Some 50) False 100 1 (new_TimerManager 9 0 0)) (\<lambda>m.
           rbind (addTimer 3 (Some 30) True 100 2 m) (\<lambda>m.
           rbind (addTimer 90 (Some 90) False 100 3 m) (\<lambda>m. Inr (cancelTimer 1 m)))) of
        Inr m \<Rightarrow> m | Inl _ \<Rightarrow> new_TimerManager 9 0 0)"

theorem timer_sweep_witness:
  "tm_set sweep_example = [2, 1, 3] \<and>
   (\<exists>m'. listTimeroutCallback 110 (\<lambda>_. 111) [] sweep_example = Inr ([Some 30], m') \<and> set (tm_set m') = {2, 3})"
proof -
  have ex: "tm_set sweep_example = [2, 1, 3]" "tm_inv sweep_example" "due 110 sweep_example = [2, 1]"
    "map_option t_cancel (tm_heap sweep_example 1) = Some True" "map_option t_cancel (tm_heap sweep_example 2) = Some False"
    "map_option t_cycle (tm_heap sweep_example 2) = Some True" "map_option t_cb (tm_heap sweep_example 2) = Some (Some 30)"
    by (simp_all add: sweep_example_def new_TimerManager_def addTimer_def addTimer_ptr_def cancelTimer_def new_Timer_def
        cancel_def ts_add_def set_insert_def timer_key_def due_def tm_inv_def set_sorted_def less_prod_def' less_eq_prod_def)
  from timer_sweep [OF ex(2), of 110 "\<lambda>_. 111" "[]"] ex show ?thesis by auto
qed

text \<open>The difference of two times as a 32-bit number.\<close>

lemma sint_of_nat32: "sint (word_of_nat x :: 32 word) = (int x + 2 ^ 31) mod 2 ^ 32 - 2 ^ 31"
proof -
  have "(word_of_nat x :: 32 word) = word_of_int (int x)" by simp
  then show ?thesis by (simp only: int_word_sint) simp
qed

lemma sint_near: "d < 2 ^ 31 \<Longrightarrow> sint (word_of_nat d :: 32 word) = int d"
  by (simp add: sint_of_nat32)

lemma sint_far:
  assumes "2 ^ 31 \<le> d" and "d < 2 ^ 32"
  shows "sint (word_of_nat d :: 32 word) < 0"
proof -
  have "int d + 2 ^ 31 = (int d - 2 ^ 31) + 1 * 2 ^ 32" by simp
  then have "(int d + 2 ^ 31) mod 2 ^ 32 = (int d - 2 ^ 31) mod 2 ^ 32" by (simp only: mod_mult_self1)
  also have "\<dots> = int d - 2 ^ 31" using assms by (intro mod_pos_pos_trivial) auto
  finally show ?thesis using assms by (simp add: sint_of_nat32)
qed

lemma sint_diff_less:
  assumes "e < now" and "now - e \<le> 2 ^ 31" and "now < 2 ^ 64"
  shows "sint (word_of_nat (size_sub e now) :: 32 word) < 0"
proof -
  define d where "d = now - e"
  have d: "0 < d" "d \<le> 2 ^ 31" "size_sub e now = 2 ^ 64 - d" using assms by (simp_all add: d_def size_sub_def)
  have "(int (2 ^ 64 - d) + 2 ^ 31) mod 2 ^ 32 = (2 ^ 31 - int d) mod 2 ^ 32"
  proof -
    have "int (2 ^ 64 - d) + 2 ^ 31 = (2 ^ 31 - int d) + 2 ^ 32 * 2 ^ 32" using d(2) by (simp add: of_nat_diff)
    then show ?thesis by (simp only: mod_mult_self2)
  qed
  also have "\<dots> = 2 ^ 31 - int d" using d(1,2) by (intro mod_pos_pos_trivial) auto
  finally show ?thesis using d by (simp only: d(3) sint_of_nat32)
qed

text \<open>
  The timeout for the next wait: without timers it is the largest \<^verbatim>\<open>int\<close>; with timers it is the
  time until the earliest one expires, and 0 when that one is overdue. The difference is cut to 32
  bits: a timer due in \<open>2^31\<close> milliseconds or more, up to \<open>2^32\<close>, makes the timeout 0, so the
  waiting thread spins until the timer comes into range.
\<close>

theorem timer_recent_timeout:
  assumes "tm_inv m" and "tm_set m = a # rest" and "now < 2 ^ 64" and "e = t_expire (the (tm_heap m a))"
  shows "(\<forall>b \<in> set (tm_set m). e \<le> t_expire (the (tm_heap m b))) \<and>
    (now \<le> e \<and> e - now < 2 ^ 31 \<longrightarrow> getRecentTimerout now m = e - now) \<and>
    (e < now \<and> now - e \<le> 2 ^ 31 \<longrightarrow> getRecentTimerout now m = 0) \<and>
    (now \<le> e \<and> 2 ^ 31 \<le> e - now \<and> e - now < 2 ^ 32 \<longrightarrow> getRecentTimerout now m = 0) \<and>
    getRecentTimerout now (m\<lparr>tm_set := []\<rparr>) = 2 ^ 31 - 1"
proof -
  have "set_sorted (timer_key (tm_heap m)) (a # rest)" using assms(1,2) by (simp add: tm_inv_def)
  then have "\<forall>b \<in> set (tm_set m). e \<le> t_expire (the (tm_heap m b))"
    using assms(4) by (auto simp: assms(2) set_sorted_Cons timer_key_def less_prod_def')
  moreover have ret: "getRecentTimerout now m = nat (sint (word_of_nat (size_sub e now) :: 32 word))"
    by (simp add: getRecentTimerout_def assms(2,4) Let_def nat_eq_iff del: of_nat_diff)
  moreover have "getRecentTimerout now m = e - now" if "now \<le> e \<and> e - now < 2 ^ 31"
    using that sint_near [of "e - now"] by (simp only: ret size_sub_le nat_int)
  moreover have "getRecentTimerout now m = 0" if "e < now \<and> now - e \<le> 2 ^ 31"
    using that sint_diff_less [of e now] assms(3) by (simp only: ret nat_eq_iff) simp
  moreover have "getRecentTimerout now m = 0" if "now \<le> e \<and> 2 ^ 31 \<le> e - now \<and> e - now < 2 ^ 32"
    using that sint_far [of "e - now"] by (simp only: ret size_sub_le nat_eq_iff) simp
  moreover have "getRecentTimerout now (m\<lparr>tm_set := []\<rparr>) = 2 ^ 31 - 1" by (simp add: getRecentTimerout_def)
  ultimately show ?thesis by blast
qed

theorem timer_recent_timeout_witness:
  "getRecentTimerout 98 sweep_example = 5 \<and> getRecentTimerout 104 sweep_example = 0"
proof -
  have ex: "tm_inv sweep_example" "tm_set sweep_example = 2 # [1, 3]" "103 = t_expire (the (tm_heap sweep_example 2))"
    by (simp_all add: sweep_example_def new_TimerManager_def addTimer_def addTimer_ptr_def cancelTimer_def new_Timer_def
        cancel_def ts_add_def set_insert_def timer_key_def due_def tm_inv_def set_sorted_def less_prod_def' less_eq_prod_def)
  from timer_recent_timeout [OF ex(1,2) _ ex(3), of 98] timer_recent_timeout [OF ex(1,2) _ ex(3), of 104]
  show ?thesis by simp
qed

text \<open>
  Only the first timer wakes the waiting thread: a timer added to a set that is not empty never does,
  even when it is the earliest, so it fires late.
\<close>

lemma earlier_timer_no_tick:
  assumes "tm_inv m" and "a \<noteq> tm_self m" and "a \<notin> set (tm_set m)" and "tm_set m \<noteq> []"
  shows "\<exists>m'. addTimer ms cb cycle now a m = Inr m' \<and> tm_ticks m' = tm_ticks m \<and> a \<in> set (tm_set m') \<and> tm_inv m'"
proof -
  let ?m = "m\<lparr>tm_heap := (tm_heap m)(a \<mapsto> new_Timer ms cb cycle (tm_next_id m) now), tm_next_id := Suc (tm_next_id m)\<rparr>"
  have "tm_inv ?m" using assms by (auto simp: tm_inv_def set_sorted_timer_upd)
  from addTimer_ptr_spec [OF this, of a "new_Timer ms cb cycle (tm_next_id m) now"] assms show ?thesis
    by (auto simp: addTimer_def new_Timer_def)
qed

end
