(* ===== verification/HashUtil.thy ===== *)
theory HashUtil imports Prelude "HOL-Library.Sublist" begin

text \<open>
  The string and hash helpers (\<^verbatim>\<open>seaice/util/hash_util.h\<close>, \<^verbatim>\<open>hash_util.cpp\<close>). Strings are lists of
  bytes; the digests of OpenSSL are parameters, as the three calls on a context.
\<close>

section \<open>Hash functions\<close>

definition ROTL :: "u32 \<Rightarrow> nat \<Rightarrow> u32" where
  "ROTL x r = (push_bit r x OR drop_bit (32 - r) x)"

definition fmix32 :: "u32 \<Rightarrow> u32" where
  "fmix32 h =
     (let h = h XOR drop_bit 16 h; h = h * 0x85ebca6b; h = h XOR drop_bit 13 h;
          h = h * 0xc2b2ae35; h = h XOR drop_bit 16 h in h)"

definition murmur_mix :: "u32 \<Rightarrow> u32" where
  "murmur_mix s = ROTL (s * 0xcc9e2d51) 15 * 0x1b873593"

text \<open>The four bytes of a block as a word of the little-endian host; lengths below \<open>2 ^ 31\<close>, which an \<^verbatim>\<open>int\<close> holds.\<close>

fun murmur_blocks :: "u32 \<Rightarrow> byte list \<Rightarrow> u32" where
  "murmur_blocks h (a # b # c # d # bs) =
     (let s = ucast a OR push_bit 8 (ucast b) OR push_bit 16 (ucast c) OR push_bit 24 (ucast d);
          h = h XOR murmur_mix s; h = ROTL h 13; h = h * 5 + 0xe6546b64 in murmur_blocks h bs)"
| "murmur_blocks h tail =
     (let s = (case tail of
                 [a, b, c] \<Rightarrow> (push_bit 16 (ucast c) OR push_bit 8 (ucast b)) OR ucast a
               | [a, b] \<Rightarrow> push_bit 8 (ucast b) OR ucast a
               | [a] \<Rightarrow> ucast a
               | _ \<Rightarrow> 0)
      in if tail = [] then h else h XOR murmur_mix s)"

text \<open>\<open>None\<close> is the null pointer.\<close>

definition murmur3_hash :: "byte list option \<Rightarrow> u32 \<Rightarrow> u32" where
  "murmur3_hash data seed =
     (case data of None \<Rightarrow> 0 | Some bs \<Rightarrow> fmix32 (murmur_blocks seed bs XOR word_of_nat (length bs)))"

definition murmur3_hash_str :: "byte list option \<Rightarrow> u32 \<Rightarrow> u32" where
  "murmur3_hash_str str seed =
     (case str of
        None \<Rightarrow> 0
      | Some s \<Rightarrow> let s = takeWhile (\<lambda>b. b \<noteq> 0) s in fmix32 (murmur_blocks seed s XOR word_of_nat (length s)))"

definition murmur3_hash64 :: "byte list option \<Rightarrow> u32 \<Rightarrow> u32 \<Rightarrow> u64" where
  "murmur3_hash64 str seed seed2 =
     (push_bit 32 (ucast (murmur3_hash str seed)) OR ucast (murmur3_hash str seed2))"

definition quick_hash :: "byte list \<Rightarrow> u32" where
  "quick_hash str = fold (\<lambda>c h. 31 * h + scast c) (takeWhile (\<lambda>b. b \<noteq> 0) str) 0"

text \<open>The version over memory: the pointer never moves, so the first byte is used every time.\<close>

definition quick_hash_mem :: "byte list \<Rightarrow> u32" where
  "quick_hash_mem data = ((\<lambda>h. 31 * h + scast (hd data)) ^^ length data) 0"

section \<open>Base 64\<close>

definition base64_chars :: "byte list" where
  "base64_chars = map word_of_nat ([65..<91] @ [97..<123] @ [48..<58] @ [43, 47])"

definition base64_val :: "byte \<Rightarrow> u32 option" where
  "base64_val c =
     (if 65 \<le> c \<and> c \<le> 90 then Some (ucast (c - 65))
      else if 97 \<le> c \<and> c \<le> 122 then Some (ucast (c - 97 + 26))
      else if 48 \<le> c \<and> c \<le> 57 then Some (ucast (c - 48 + 52))
      else if c = 43 then Some 62
      else if c = 47 then Some 63
      else None)"

definition b64 :: "u32 \<Rightarrow> byte" where
  "b64 n = base64_chars ! unat n"

fun base64encode :: "byte list \<Rightarrow> byte list" where
  "base64encode [] = []"
| "base64encode [a] =
     (let packed = push_bit 16 (ucast a) :: u32 in
      [b64 (drop_bit 18 packed), b64 (drop_bit 12 packed AND 0x3f), 61, 61])"
| "base64encode [a, b] =
     (let packed = push_bit 8 (push_bit 8 (ucast a) OR ucast b) :: u32 in
      [b64 (drop_bit 18 packed), b64 (drop_bit 12 packed AND 0x3f), b64 (drop_bit 6 packed AND 0x3f), 61])"
| "base64encode (a # b # c # bs) =
     (let packed = push_bit 8 (push_bit 8 (ucast a) OR ucast b) OR ucast c :: u32 in
      [b64 (drop_bit 18 packed), b64 (drop_bit 12 packed AND 0x3f), b64 (drop_bit 6 packed AND 0x3f), b64 (packed AND 0x3f)]
      @ base64encode bs)"

text \<open>The inner loop over at most four characters; \<open>None\<close> is the return of the empty string.\<close>

fun base64_group :: "nat \<Rightarrow> nat \<Rightarrow> u32 \<Rightarrow> byte list \<Rightarrow> (nat \<times> nat \<times> u32 \<times> byte list) option" where
  "base64_group i padding packed [] = Some (i, padding, packed, [])"
| "base64_group i padding packed (c # cs) =
     (if i < 4 then
        if c = 61 then base64_group (Suc i) (Suc padding) (push_bit 6 packed) cs
        else if padding > 0 then None
        else (case base64_val c of
                None \<Rightarrow> None
              | Some v \<Rightarrow> base64_group (Suc i) padding (push_bit 6 packed OR v) cs)
      else Some (i, padding, packed, c # cs))"

lemma base64_group_length: "base64_group i p k cs = Some (i', p', k', cs') \<Longrightarrow> length cs' \<le> length cs"
  by (induction i p k cs rule: base64_group.induct) (auto split: if_splits option.splits)

lemma base64_group_less: "base64_group 0 p k (c # cs) = Some (i', p', k', cs') \<Longrightarrow> length cs' < length (c # cs)"
  by (auto split: if_splits option.splits dest!: base64_group_length)

text \<open>The outer loop; \<open>room\<close> is the space left in the result, which was sized from the source.\<close>

function base64decode_loop :: "nat \<Rightarrow> byte list \<Rightarrow> fault + byte list option" where
  "base64decode_loop room [] = Inr (Some [])"
| "base64decode_loop room (c # cs) =
     (case base64_group 0 0 0 (c # cs) of
        None \<Rightarrow> Inr None
      | Some (i, padding, packed, rest) \<Rightarrow>
          if i \<noteq> 4 then Inr None
          else if padding > 0 \<and> rest \<noteq> [] then Inr None
          else if padding > 2 then Inr None
          else
            let out = [ucast (drop_bit 16 packed AND 0xff)]
                      @ (if padding \<noteq> 2 then [ucast (drop_bit 8 packed AND 0xff)] else [])
                      @ (if padding = 0 then [ucast (packed AND 0xff)] else [])
            in if room < length out then Inl OutOfBounds
               else rbind (base64decode_loop (room - length out) rest) (\<lambda>r. Inr (map_option (\<lambda>bs. out @ bs) r)))"
  by pat_completeness auto
termination
  by (relation "measure (\<lambda>(room, cs). length cs)") (auto simp del: base64_group.simps dest!: base64_group_less)

declare base64decode_loop.simps(2) [simp del]

definition base64decode :: "byte list \<Rightarrow> fault + byte list" where
  "base64decode src =
     rbind (base64decode_loop (length src * 3 div 4) src) (\<lambda>r. Inr (case r of None \<Rightarrow> [] | Some bs \<Rightarrow> bs))"

section \<open>Hexadecimal strings\<close>

definition hex_digit :: "byte \<Rightarrow> byte" where
  "hex_digit c = (if c > 9 then c + 97 - 10 else c + 48)"

definition hexstring_from_data :: "byte list \<Rightarrow> byte list" where
  "hexstring_from_data bs = concat (map (\<lambda>b. [hex_digit (drop_bit 4 b AND 0xf), hex_digit (b AND 0xf)]) bs)"

definition hex_val :: "byte \<Rightarrow> byte option" where
  "hex_val c =
     (if 97 \<le> c \<and> c \<le> 102 then Some (c - 97 + 10)
      else if 65 \<le> c \<and> c \<le> 70 then Some (c - 65 + 10)
      else if 48 \<le> c \<and> c \<le> 57 then Some (c - 48)
      else None)"

fun from_hex_loop :: "byte list \<Rightarrow> fault + byte list" where
  "from_hex_loop (x # y # hs) =
     (case hex_val x of
        None \<Rightarrow> Inl InvalidArgument
      | Some u \<Rightarrow>
          (case hex_val y of
             None \<Rightarrow> Inl InvalidArgument
           | Some v \<Rightarrow> rbind (from_hex_loop hs) (\<lambda>bs. Inr ((push_bit 4 u OR v) # bs))))"
| "from_hex_loop _ = Inr []"

definition data_from_hexstring :: "byte list \<Rightarrow> fault + byte list" where
  "data_from_hexstring hs = (if length hs mod 2 \<noteq> 0 then Inl InvalidArgument else from_hex_loop hs)"

section \<open>Digests\<close>

text \<open>A digest of the library: the three calls on a context, its block and its digest length.\<close>

record 'c digest_lib =
  dg_Init :: 'c
  dg_Update :: "'c \<Rightarrow> byte list \<Rightarrow> 'c"
  dg_Final :: "'c \<Rightarrow> byte list"
  dg_B :: nat
  dg_L :: nat

definition digest_sum :: "'c digest_lib \<Rightarrow> byte list \<Rightarrow> byte list" where
  "digest_sum dg data = dg_Final dg (dg_Update dg (dg_Init dg) data)"

definition digest_hex :: "'c digest_lib \<Rightarrow> byte list \<Rightarrow> byte list" where
  "digest_hex dg data = hexstring_from_data (take (dg_L dg) (digest_sum dg data))"

definition hmac :: "'c digest_lib \<Rightarrow> byte list \<Rightarrow> byte list \<Rightarrow> byte list" where
  "hmac dg txt key =
     (let keyLocal = (if length key > dg_B dg then dg_Final dg (dg_Update dg (dg_Init dg) key) else key);
          keyLocal = keyLocal @ replicate (dg_B dg - length keyLocal) 0;
          ipad = map (\<lambda>b. b XOR 0x36) keyLocal; opad = map (\<lambda>b. b XOR 0x5c) keyLocal;
          ctx = dg_Update dg (dg_Update dg (dg_Init dg) (take (dg_B dg) ipad)) txt;
          result = dg_Final dg ctx;
          ctx = dg_Update dg (dg_Update dg (dg_Init dg) (take (dg_B dg) opad)) (take (dg_L dg) result)
      in dg_Final dg ctx)"

section \<open>Replacing and splitting\<close>

text \<open>The searches of \<^verbatim>\<open>std::string\<close> from a position: \<^verbatim>\<open>find\<close> of a string, and of a byte with a property.\<close>

definition find_str :: "byte list \<Rightarrow> byte list \<Rightarrow> nat \<Rightarrow> nat option" where
  "find_str p str from = List.find (\<lambda>i. take (length p) (drop i str) = p) [from..<length str + 1 - length p]"

definition find_byte :: "(byte \<Rightarrow> bool) \<Rightarrow> byte list \<Rightarrow> nat \<Rightarrow> nat option" where
  "find_byte P str from = List.find (\<lambda>i. P (str ! i)) [from..<length str]"

lemma find_byte_SomeD: "find_byte P str from = Some i \<Longrightarrow> from \<le> i \<and> i < length str \<and> P (str ! i)"
  by (auto simp: find_byte_def find_Some_iff)

function replace_byte_loop :: "byte list \<Rightarrow> byte \<Rightarrow> byte \<Rightarrow> nat \<Rightarrow> byte list" where
  "replace_byte_loop str c w from =
     (case find_byte (\<lambda>x. x = c) str from of
        None \<Rightarrow> str
      | Some index \<Rightarrow> replace_byte_loop (str[index := w]) c w (index + 1))"
  by pat_completeness auto
termination
  by (relation "measure (\<lambda>(str, c, w, from). length str - from)") (auto dest: find_byte_SomeD)

definition replace_byte :: "byte list \<Rightarrow> byte \<Rightarrow> byte \<Rightarrow> byte list" where
  "replace_byte str1 c w = replace_byte_loop str1 c w 0"

function replace_by_loop :: "byte list \<Rightarrow> byte \<Rightarrow> byte list \<Rightarrow> nat \<Rightarrow> byte list" where
  "replace_by_loop str c w from =
     (case find_byte (\<lambda>x. x = c) str from of
        None \<Rightarrow> str
      | Some index \<Rightarrow> replace_by_loop (take index str @ w @ drop (index + 1) str) c w (index + length w))"
  by pat_completeness auto
termination
  by (relation "measure (\<lambda>(str, c, w, from). length str - from)") (auto dest: find_byte_SomeD)

definition replace_by :: "byte list \<Rightarrow> byte \<Rightarrow> byte list \<Rightarrow> byte list" where
  "replace_by str1 c w = replace_by_loop str1 c w 0"

text \<open>The version for strings may run forever; \<open>None\<close> is that.\<close>

partial_function (option) replace_str_loop :: "byte list \<Rightarrow> byte list \<Rightarrow> byte list \<Rightarrow> nat \<Rightarrow> byte list option" where
  "replace_str_loop str p w from =
     (case find_str p str from of
        None \<Rightarrow> Some str
      | Some index \<Rightarrow> replace_str_loop (take index str @ w @ drop (index + length p) str) p w (index + length w))"

declare replace_str_loop.simps [code]

definition replace_str :: "byte list \<Rightarrow> byte list \<Rightarrow> byte list \<Rightarrow> byte list option" where
  "replace_str str1 p w = replace_str_loop str1 p w 0"

text \<open>The counter \<open>max\<close> is an unsigned 64-bit number that is counted down before it is compared.\<close>

function split_loop :: "(byte \<Rightarrow> bool) \<Rightarrow> byte list \<Rightarrow> nat \<Rightarrow> u64 \<Rightarrow> byte list list" where
  "split_loop P str last_pos max_n =
     (case find_byte P str last_pos of
        None \<Rightarrow> [drop last_pos str]
      | Some pos \<Rightarrow>
          take (pos - last_pos) (drop last_pos str) #
          (if max_n - 1 = 1 then [drop (pos + 1) str] else split_loop P str (pos + 1) (max_n - 1)))"
  by pat_completeness auto
termination
  by (relation "measure (\<lambda>(P, str, from, m). length str - from)") (auto dest: find_byte_SomeD)

declare replace_byte_loop.simps [simp del] replace_by_loop.simps [simp del] split_loop.simps [simp del]

definition split :: "byte list \<Rightarrow> byte \<Rightarrow> u64 \<Rightarrow> byte list list" where
  "split str delim max_n = (if str = [] then [] else split_loop (\<lambda>x. x = delim) str 0 max_n)"

definition split_delims :: "byte list \<Rightarrow> byte list \<Rightarrow> u64 \<Rightarrow> byte list list" where
  "split_delims str delims max_n = (if str = [] then [] else split_loop (\<lambda>x. x \<in> set (takeWhile (\<lambda>d. d \<noteq> 0) delims)) str 0 max_n)"

text \<open>\<open>rnd i\<close> is the number that the \<open>i\<close>-th call of \<^verbatim>\<open>rand\<close> returns.\<close>

definition random_string :: "(nat \<Rightarrow> nat) \<Rightarrow> nat \<Rightarrow> byte list \<Rightarrow> byte list" where
  "random_string rnd len chars =
     (if len = 0 \<or> chars = [] then [] else map (\<lambda>i. chars ! (rnd i mod length chars)) [0..<len])"

section \<open>Base 64: lemmas\<close>

lemma b64_table: "list_all (\<lambda>k. base64_val (base64_chars ! k) = Some (word_of_nat k) \<and> base64_chars ! k \<noteq> 61) [0..<64]"
  by code_simp

lemma b64_val:
  assumes "n < 64"
  shows "base64_val (b64 n) = Some n" and "b64 n \<noteq> 61"
proof -
  have "unat n \<in> set [0..<64]" using assms by (simp add: word_less_nat_alt)
  with b64_table have "base64_val (base64_chars ! unat n) = Some (word_of_nat (unat n)) \<and> base64_chars ! unat n \<noteq> 61"
    unfolding list_all_iff by blast
  then show "base64_val (b64 n) = Some n" "b64 n \<noteq> 61" by (simp_all add: b64_def)
qed

lemma low6: "n AND 0x3f = take_bit 6 (n :: u32)"
  by (simp add: take_bit_eq_mask mask_eq_exp_minus_1)

lemma low6_less: "take_bit 6 n < (64 :: u32)"
  by (simp add: take_bit_eq_mod word_mod_less_divisor)

lemma pack24:
  "push_bit 6 (push_bit 6 (push_bit 6 (drop_bit 18 p) OR take_bit 6 (drop_bit 12 p)) OR take_bit 6 (drop_bit 6 p)) OR take_bit 6 p = (p :: u32)"
proof (rule bit_word_eqI)
  fix n assume "n < LENGTH(32)"
  then show "bit (push_bit 6 (push_bit 6 (push_bit 6 (drop_bit 18 p) OR take_bit 6 (drop_bit 12 p)) OR take_bit 6 (drop_bit 6 p)) OR take_bit 6 p) n = bit p n"
    by (cases "n < 6"; cases "n < 12"; cases "n < 18") (auto simp: bit_simps)
qed
definition p24 :: "byte \<Rightarrow> byte \<Rightarrow> byte \<Rightarrow> u32" where
  "p24 a b c = push_bit 8 (push_bit 8 (ucast a) OR ucast b) OR ucast c"

lemma p24_bytes:
  "ucast (drop_bit 16 (p24 a b c) AND 0xff) = a" "ucast (drop_bit 8 (p24 a b c) AND 0xff) = b" "ucast (p24 a b c AND 0xff) = c"
proof -
  have t: "n AND 0xff = take_bit 8 (n :: u32)" for n by (simp add: take_bit_eq_mask mask_eq_exp_minus_1)
  show "ucast (drop_bit 16 (p24 a b c) AND 0xff) = a" "ucast (drop_bit 8 (p24 a b c) AND 0xff) = b" "ucast (p24 a b c AND 0xff) = c"
    unfolding t p24_def by (intro bit_word_eqI; auto simp: bit_simps bit_imp_le_length dest: bit_imp_le_length)+
qed

lemma p24_high: "drop_bit 18 (p24 a b c) < 64"
proof -
  have "drop_bit 18 (p24 a b c) = take_bit 6 (drop_bit 18 (p24 a b c))"
    unfolding p24_def by (intro bit_word_eqI) (auto simp: bit_simps dest: bit_imp_le_length)
  then show ?thesis using low6_less by metis
qed
lemma base64_group_full: "base64_group 4 p k cs = Some (4, p, k, cs)"
  by (cases cs) simp_all

lemma base64_group_four:
  assumes "w < 64" and "x < 64" and "y < 64" and "z < 64"
  shows "base64_group 0 0 0 (b64 w # b64 x # b64 y # b64 z # cs) =
      Some (4, 0, push_bit 6 (push_bit 6 (push_bit 6 w OR x) OR y) OR z, cs)"
    and "base64_group 0 0 0 [b64 w, b64 x, b64 y, 61] = Some (4, 1, push_bit 6 (push_bit 6 (push_bit 6 w OR x) OR y), [])"
    and "base64_group 0 0 0 [b64 w, b64 x, 61, 61] = Some (4, 2, push_bit 6 (push_bit 6 (push_bit 6 w OR x)), [])"
  using base64_group_full [of 0 _ cs] b64_val [OF assms(1)] b64_val [OF assms(2)] b64_val [OF assms(3)] b64_val [OF assms(4)]
  by (simp_all add: eval_nat_numeral)

lemma base64_group_count: "base64_group i p k cs = Some (4, p', k', cs') \<Longrightarrow> i \<le> 4 \<Longrightarrow> length cs = length cs' + (4 - i)"
  by (induction i p k cs rule: base64_group.induct) (auto split: if_splits option.splits)

text \<open>The result was sized generously enough: no source makes the loop write past it.\<close>

lemma base64decode_loop_room:
  "3 * length cs \<le> 4 * room + 3 \<Longrightarrow> \<exists>r. base64decode_loop room cs = Inr r \<and> length (case r of None \<Rightarrow> [] | Some bs \<Rightarrow> bs) \<le> room"
proof (induction "length cs" arbitrary: room cs rule: less_induct)
  case less
  show ?case
  proof (cases cs)
  case (Cons c cs')
  note prems2 = less.prems [unfolded Cons]
  have "\<exists>r. base64decode_loop room (c # cs') = Inr r \<and> length (case r of None \<Rightarrow> [] | Some bs \<Rightarrow> bs) \<le> room"
    (is ?goal)
  proof (cases "base64_group 0 0 0 (c # cs')")
    case None
    then show ?goal by (simp add: base64decode_loop.simps(2) del: base64_group.simps)
  next
    case (Some g)
    obtain i padding packed rest where g: "g = (i, padding, packed, rest)" by (metis prod_cases4)
    let ?out = "[ucast (drop_bit 16 packed AND 0xff)]
                      @ (if padding \<noteq> 2 then [ucast (drop_bit 8 packed AND 0xff)] else [])
                      @ (if padding = 0 then [ucast (packed AND 0xff)] else []) :: byte list"
    show ?goal
    proof (cases "i \<noteq> 4 \<or> (padding > 0 \<and> rest \<noteq> []) \<or> padding > 2")
      case True
      then show ?goal using Some g by (auto simp: base64decode_loop.simps(2) simp del: base64_group.simps)
    next
      case False
      then have n: "length (c # cs') = length rest + 4" using base64_group_count [of 0 0 0 "c # cs'" padding packed rest] Some g by simp
      have out: "length ?out \<le> 3" "padding = 0 \<or> rest = []" "padding = 0 \<Longrightarrow> length ?out = 3" using False by auto
      have room: "3 \<le> room" using prems2 n by linarith
      have "3 * length rest \<le> 4 * (room - length ?out) + 3"
        using prems2 n room out by (cases "padding = 0") auto
      moreover have "length rest < length cs" using n Cons by simp
      ultimately obtain r where
        r: "base64decode_loop (room - length ?out) rest = Inr r" "length (case r of None \<Rightarrow> [] | Some bs \<Rightarrow> bs) \<le> room - length ?out"
        using less.hyps by blast
      have "base64decode_loop room (c # cs') = Inr (map_option (\<lambda>bs. ?out @ bs) r)"
        using Some g False room out(1) r(1) by (cases r) (simp_all add: base64decode_loop.simps(2) Let_def del: base64_group.simps)
      moreover have "length (case map_option (\<lambda>bs. ?out @ bs) r of None \<Rightarrow> [] | Some bs \<Rightarrow> bs) \<le> room"
        using r(2) room out(1) by (cases r) auto
      ultimately show ?goal by blast
    qed
  qed
  then show ?thesis by (simp add: Cons)
  qed simp
qed

lemma base64decode_loop_three:
  assumes "base64_group 0 0 0 cs = Some (4, 0, p24 a b c, rest)" and "cs \<noteq> []" and "3 \<le> room"
    and "base64decode_loop (room - 3) rest = Inr (Some bs)"
  shows "base64decode_loop room cs = Inr (Some (a # b # c # bs))"
proof (cases cs)
  case (Cons x xs)
  then show ?thesis using assms p24_bytes [of a b c]
    by (simp add: base64decode_loop.simps(2) Let_def numeral_3_eq_3 del: base64_group.simps)
qed (use assms(2) in simp)

lemma base64encode_loop:
  "3 * ((length bs + 2) div 3) \<le> room \<Longrightarrow> base64decode_loop room (base64encode bs) = Inr (Some bs)"
proof (induction bs arbitrary: room rule: base64encode.induct)
  case 1
  then show ?case by simp
next
  case (2 a)
  have p: "push_bit 16 (ucast a) = p24 a 0 0" by (simp add: p24_def)
  have z: "take_bit 6 (drop_bit 6 (p24 a 0 0)) = 0" "take_bit 6 (p24 a 0 0) = 0"
    unfolding p24_def by (intro bit_word_eqI; auto simp: bit_simps)+
  have "base64_group 0 0 0 (base64encode [a]) = Some (4, 2, p24 a 0 0, [])"
    using base64_group_four(3) [OF p24_high [of a 0 0] low6_less [of "drop_bit 12 (p24 a 0 0)"] low6_less [of 0] low6_less [of 0]] pack24 [of "p24 a 0 0"]
    by (simp add: p low6 Let_def z del: base64_group.simps)
  then show ?case using 2 p24_bytes [of a 0 0] by (simp add: base64decode_loop.simps(2) Let_def del: base64_group.simps)
next
  case (3 a b)
  have p: "push_bit 8 (push_bit 8 (ucast a) OR ucast b) = p24 a b 0" by (simp add: p24_def)
  have z: "take_bit 6 (p24 a b 0) = 0"
    unfolding p24_def by (intro bit_word_eqI; auto simp: bit_simps)
  have "base64_group 0 0 0 (base64encode [a, b]) = Some (4, 1, p24 a b 0, [])"
    using base64_group_four(2) [OF p24_high [of a b 0] low6_less [of "drop_bit 12 (p24 a b 0)"] low6_less [of "drop_bit 6 (p24 a b 0)"] low6_less [of 0]]
      pack24 [of "p24 a b 0"]
    unfolding base64encode.simps Let_def p low6 by (simp add: z del: base64_group.simps)
  then show ?case using 3 p24_bytes [of a b 0] by (simp add: base64decode_loop.simps(2) Let_def del: base64_group.simps)
next
  case (4 a b c bs)
  let ?p = "p24 a b c"
  have "base64_group 0 0 0 (base64encode (a # b # c # bs)) = Some (4, 0, ?p, base64encode bs)"
    using base64_group_four(1) [OF p24_high [of a b c] low6_less [of "drop_bit 12 ?p"] low6_less [of "drop_bit 6 ?p"] low6_less [of ?p],
        of "base64encode bs"] pack24 [of ?p]
    unfolding base64encode.simps Let_def p24_def [symmetric] low6 by (simp del: base64_group.simps)
  moreover have "(length (a # b # c # bs) + 2) div 3 = Suc ((length bs + 2) div 3)" by simp
  then have "base64decode_loop (room - 3) (base64encode bs) = Inr (Some bs)"
    using "4.prems" by (intro "4.IH" [OF refl]) simp
  moreover have "3 \<le> room" using "4.prems" by simp
  ultimately show ?case by (intro base64decode_loop_three) (auto simp: Let_def)
qed

lemma length_base64encode: "length (base64encode bs) = 4 * ((length bs + 2) div 3)"
proof (induction bs rule: base64encode.induct)
  case (4 a b c bs)
  have "(length (a # b # c # bs) + 2) div 3 = Suc ((length bs + 2) div 3)" by simp
  then show ?case using 4 by (simp add: Let_def)
qed (simp_all add: Let_def)

section \<open>Hexadecimal strings: lemmas\<close>

lemma hex_val_digit:
  assumes "c < 16" shows "hex_val (hex_digit c) = Some c"
proof -
  have "list_all (\<lambda>k. hex_val (hex_digit (word_of_nat k)) = Some (word_of_nat k)) [0..<16]" by code_simp
  moreover have "unat c \<in> set [0..<16]" using assms by (simp add: word_less_nat_alt)
  ultimately have "hex_val (hex_digit (word_of_nat (unat c))) = Some (word_of_nat (unat c))" unfolding list_all_iff by blast
  then show ?thesis by simp
qed

lemma nibbles:
  "drop_bit 4 b AND 0xf < (16 :: byte)" "b AND 0xf < (16 :: byte)" "push_bit 4 (drop_bit 4 b AND 0xf) OR (b AND 0xf) = (b :: byte)"
proof -
  have t: "n AND 0xf = take_bit 4 (n :: byte)" for n by (simp add: take_bit_eq_mask mask_eq_exp_minus_1)
  show "drop_bit 4 b AND 0xf < 16" "b AND 0xf < 16" unfolding t by (simp_all add: take_bit_eq_mod word_mod_less_divisor)
  show "push_bit 4 (drop_bit 4 b AND 0xf) OR (b AND 0xf) = b"
    unfolding t by (rule bit_word_eqI) (auto simp: bit_simps dest: bit_imp_le_length)
qed

lemma from_hex_loop_hex: "from_hex_loop (hexstring_from_data bs) = Inr bs"
proof (induction bs)
  case (Cons a bs)
  then show ?case using nibbles [of a] by (simp add: hexstring_from_data_def hex_val_digit)
qed (simp add: hexstring_from_data_def)

lemma length_hexstring [simp]: "length (hexstring_from_data bs) = 2 * length bs"
  by (induction bs) (simp_all add: hexstring_from_data_def)

lemma from_hex_loop_total:
  "even (length hs) \<Longrightarrow>
   (case from_hex_loop hs of
      Inl e \<Rightarrow> e = InvalidArgument \<and> (\<exists>h \<in> set hs. hex_val h = None)
    | Inr bs \<Rightarrow> length bs = length hs div 2 \<and> (\<forall>h \<in> set hs. hex_val h \<noteq> None))"
proof (induction hs rule: from_hex_loop.induct)
  case (1 x y hs)
  show ?case
  proof (cases "hex_val x = None \<or> hex_val y = None")
    case True
    then show ?thesis by (auto split: option.split)
  next
    case False
    then obtain u v where uv: "hex_val x = Some u" "hex_val y = Some v" by auto
    have "case from_hex_loop hs of
        Inl e \<Rightarrow> e = InvalidArgument \<and> (\<exists>h \<in> set hs. hex_val h = None)
      | Inr bs \<Rightarrow> length bs = length hs div 2 \<and> (\<forall>h \<in> set hs. hex_val h \<noteq> None)"
      using "1.IH" [OF uv] "1.prems" by simp
    then show ?thesis using uv by (cases "from_hex_loop hs") auto
  qed
qed auto

section \<open>Replacing and splitting: lemmas\<close>

lemma find_byte_none: "\<forall>x\<in>set r. \<not> P x \<Longrightarrow> find_byte P (d @ r) (length d) = None"
  by (auto simp: find_byte_def find_None_iff nth_append)

lemma find_byte_first:
  assumes "P c" and "\<forall>x\<in>set t. \<not> P x"
  shows "find_byte P (d @ t @ c # u) (length d) = Some (length d + length t)"
  using assms(2)
proof (induction t arbitrary: d)
  case Nil
  then show ?case using assms(1) by (simp add: find_byte_def upt_conv_Cons del: upt_Suc)
next
  case (Cons x t)
  then show ?case using Cons.IH [of "d @ [x]"] by (simp add: find_byte_def upt_conv_Cons del: upt_Suc)
qed

lemma replace_byte_loop_map: "replace_byte_loop (d @ r) c w (length d) = d @ map (\<lambda>x. if x = c then w else x) r"
proof (induction "length r" arbitrary: d r rule: less_induct)
  case less
  show ?case
  proof (cases "c \<in> set r")
    case False
    then have "find_byte (\<lambda>x. x = c) (d @ r) (length d) = None" by (intro find_byte_none) auto
    then show ?thesis using False by (subst replace_byte_loop.simps) (auto intro!: map_idI [symmetric])
  next
    case True
    then obtain t u where r: "r = t @ c # u" "c \<notin> set t" by (meson split_list_first)
    have "find_byte (\<lambda>x. x = c) (d @ t @ c # u) (length d) = Some (length d + length t)"
      using r(2) by (intro find_byte_first) auto
    moreover have "(d @ t @ c # u)[length d + length t := w] = (d @ t @ [w]) @ u" by (simp add: list_update_append)
    moreover have "map (\<lambda>x. if x = c then w else x) t = t" using r(2) by (intro map_idI) auto
    ultimately show ?thesis
      unfolding r(1) using less [of u "d @ t @ [w]"] r(1) by (subst replace_byte_loop.simps) simp
  qed
qed

lemma replace_by_loop_map: "replace_by_loop (d @ r) c w (length d) = d @ concat (map (\<lambda>x. if x = c then w else [x]) r)"
proof (induction "length r" arbitrary: d r rule: less_induct)
  case less
  have keep: "concat (map (\<lambda>x. if x = c then w else [x]) t) = t" if "c \<notin> set t" for t
    using that by (induction t) auto
  show ?case
  proof (cases "c \<in> set r")
    case False
    then have "find_byte (\<lambda>x. x = c) (d @ r) (length d) = None" by (intro find_byte_none) auto
    then show ?thesis using False by (subst replace_by_loop.simps) (simp add: keep)
  next
    case True
    then obtain t u where r: "r = t @ c # u" "c \<notin> set t" by (meson split_list_first)
    have "find_byte (\<lambda>x. x = c) (d @ t @ c # u) (length d) = Some (length d + length t)"
      using r(2) by (intro find_byte_first) auto
    then show ?thesis
      unfolding r(1) using less [of u "d @ t @ w"] r by (subst replace_by_loop.simps) (simp add: keep add.assoc)
  qed
qed

text \<open>The reference: every occurrence from the left, without overlaps.\<close>

function subst_all :: "byte list \<Rightarrow> byte list \<Rightarrow> byte list \<Rightarrow> byte list" where
  "subst_all p w [] = []"
| "subst_all p w (c # cs) =
     (if p \<noteq> [] \<and> take (length p) (c # cs) = p then w @ subst_all p w (drop (length p) (c # cs)) else c # subst_all p w cs)"
  by pat_completeness auto
termination by (relation "measure (\<lambda>(p, w, s). length s)") auto

declare subst_all.simps(2) [simp del]

lemma find_str_step:
  assumes "p \<noteq> []"
  shows "find_str p (d @ r) (length d) =
           (if take (length p) r = p then Some (length d)
            else if r = [] then None else find_str p (d @ r) (Suc (length d)))"
proof (cases "length d < length (d @ r) + 1 - length p")
  case True
  then show ?thesis using assms by (auto simp: find_str_def upt_conv_Cons)
next
  case False
  then have "length r < length p" using assms by (cases p) auto
  then have "take (length p) r \<noteq> p" by auto
  then show ?thesis using False by (auto simp: find_str_def)
qed

lemma replace_str_loop_subst:
  assumes "p \<noteq> []"
  shows "find_str p (a @ d @ r) (length a) = find_str p (a @ d @ r) (length (a @ d)) \<Longrightarrow>
         replace_str_loop (a @ d @ r) p w (length a) = Some (a @ d @ subst_all p w r)"
proof (induction "length r" arbitrary: a d r rule: less_induct)
  case less
  note step = find_str_step [OF assms, of "a @ d" r]
  show ?case
  proof (cases r)
    case Nil
    then show ?thesis using assms less.prems step by (subst replace_str_loop.simps) simp
  next
    case (Cons c cs)
    show ?thesis
    proof (cases "take (length p) r = p")
      case True
      have "replace_str_loop ((a @ d @ w) @ [] @ drop (length p) r) p w (length (a @ d @ w)) =
          Some ((a @ d @ w) @ [] @ subst_all p w (drop (length p) r))"
        using assms Cons by (intro less.hyps) auto
      then show ?thesis using True less.prems step assms Cons
        by (subst replace_str_loop.simps) (simp add: subst_all.simps(2) add.assoc)
    next
      case False
      have "replace_str_loop (a @ (d @ [c]) @ cs) p w (length a) = Some (a @ (d @ [c]) @ subst_all p w cs)"
        using less.prems step False Cons by (intro less.hyps) auto
      then show ?thesis using False Cons by (simp add: subst_all.simps(2))
    qed
  qed
qed

lemma replace_str_subst: "p \<noteq> [] \<Longrightarrow> replace_str s p w = Some (subst_all p w s)"
  using replace_str_loop_subst [of p "[]" "[]" s w] by (simp add: replace_str_def)

lemma replace_str_loop_never:
  assumes "replace_str_loop s p w from = Some y"
  shows "p = [] \<and> from \<le> length s \<longrightarrow> False"
proof (rule replace_str_loop.raw_induct [where P = "\<lambda>s p w from y. p = [] \<and> from \<le> length s \<longrightarrow> False", OF _ assms], goal_cases)
  case (1 rec s p w i y)
  show ?case
  proof (intro impI, elim conjE)
    assume p: "p = []" and le: "i \<le> length s"
    then have "find_str [] s i = Some i" by (simp add: find_str_def upt_conv_Cons del: upt_Suc)
    with 1(2) p have "rec (take i s @ w @ drop i s) [] w (i + length w) = Some y" by simp
    from 1(1) [OF this] le show False by simp
  qed
qed

lemma replace_str_never: "replace_str s [] w = None"
  using replace_str_loop_never [of s "[]" w 0] by (cases "replace_str s [] w") (auto simp: replace_str_def)

text \<open>The reference for splitting: the pieces put together again.\<close>

fun join :: "byte \<Rightarrow> byte list list \<Rightarrow> byte list" where
  "join c [] = []"
| "join c [p] = p"
| "join c (p # q # ps) = p @ c # join c (q # ps)"

lemma join_Cons: "ps \<noteq> [] \<Longrightarrow> join c (p # ps) = p @ c # join c ps"
  by (cases ps) simp_all

lemma split_loop_nonempty [simp]: "split_loop P s i m \<noteq> []"
  by (subst split_loop.simps) (simp split: option.split)

lemma split_loop_first:
  assumes "P c" and "\<forall>x\<in>set t. \<not> P x"
  shows "split_loop P (d @ t @ c # u) (length d) m =
           t # (if m - 1 = 1 then [u] else split_loop P ((d @ t @ [c]) @ u) (length (d @ t @ [c])) (m - 1))"
  using find_byte_first [OF assms, of d u] by (subst split_loop.simps) simp

lemma split_loop_last:
  assumes "\<forall>x\<in>set r. \<not> P x" shows "split_loop P (d @ r) (length d) m = [r]"
  using find_byte_none [OF assms, of d] by (subst split_loop.simps) simp

lemma split_loop_pieces:
  defines "P c \<equiv> \<lambda>x :: byte. x = c"
  shows "join c (split_loop (P c) (d @ r) (length d) m) = r \<and>
    (\<forall>p \<in> set (butlast (split_loop (P c) (d @ r) (length d) m)). c \<notin> set p) \<and>
    (2 \<le> m \<longrightarrow> length (split_loop (P c) (d @ r) (length d) m) \<le> unat m) \<and>
    (length r \<le> unat (m - 2) \<longrightarrow> length (split_loop (P c) (d @ r) (length d) m) = count_list r c + 1)"
proof (induction "length r" arbitrary: d r m rule: less_induct)
  case less
  show ?case
  proof (cases "c \<in> set r")
    case False
    then have "split_loop (P c) (d @ r) (length d) m = [r]" by (intro split_loop_last) (auto simp: P_def)
    moreover have "1 \<le> unat m" if "2 \<le> m" using that by unat_arith
    ultimately show ?thesis using False by (simp add: count_notin)
  next
    case True
    then obtain t u where r: "r = t @ c # u" "c \<notin> set t" by (meson split_list_first)
    have eq: "split_loop (P c) (d @ r) (length d) m =
        t # (if m - 1 = 1 then [u] else split_loop (P c) ((d @ t @ [c]) @ u) (length (d @ t @ [c])) (m - 1))"
      unfolding r(1) using r(2) by (intro split_loop_first) (auto simp: P_def)
    show ?thesis
    proof (cases "m - 1 = 1")
      case True
      then have "m = 2" by (simp add: diff_eq_eq)
      then show ?thesis unfolding eq using r by simp
    next
      case False
      let ?s = "split_loop (P c) ((d @ t @ [c]) @ u) (length (d @ t @ [c])) (m - 1)"
      have ih: "join c ?s = u" "\<forall>p \<in> set (butlast ?s). c \<notin> set p" "2 \<le> m - 1 \<Longrightarrow> length ?s \<le> unat (m - 1)"
          "length u \<le> unat (m - 1 - 2) \<Longrightarrow> length ?s = count_list u c + 1"
        using less [of u "d @ t @ [c]" "m - 1"] r(1) by simp_all
      have "2 \<le> m - 1 \<and> Suc (unat (m - 1)) = unat m" if "2 \<le> m" using that False by unat_arith
      moreover have "length u \<le> unat (m - 1 - 2)" if "length r \<le> unat (m - 2)"
        using that r(1) False by simp unat_arith
      ultimately show ?thesis unfolding eq using False ih r by (auto simp: join_Cons count_notin)
    qed
  qed
qed

section \<open>Message authentication: the reference\<close>

text \<open>RFC 2104 over the hash function \<open>H\<close> with blocks of \<open>B\<close> bytes.\<close>

definition rfc2104 :: "(byte list \<Rightarrow> byte list) \<Rightarrow> nat \<Rightarrow> byte list \<Rightarrow> byte list \<Rightarrow> byte list" where
  "rfc2104 H B k txt =
     (let k0 = (if length k > B then H k else k); k0 = k0 @ replicate (B - length k0) 0
      in H (map (\<lambda>b. b XOR 0x5c) k0 @ H (map (\<lambda>b. b XOR 0x36) k0 @ txt)))"

definition toy_digest :: "byte list digest_lib" where
  "toy_digest = \<lparr>dg_Init = [], dg_Update = (@), dg_Final = (\<lambda>c. [fold (+) c 0]), dg_B = 2, dg_L = 1\<rparr>"

section \<open>Properties\<close>

text \<open>
  Base 64 and hexadecimal strings: decoding gives back every string of bytes that was encoded, and
  the encodings of \<open>n\<close> bytes take four characters for every three begun and two for each. Decoding any
  text whatever from base 64 stays within the memory sized for its result and answers; decoding a
  hexadecimal string throws \<open>invalid_argument\<close> exactly on an odd length or on a character that is no digit, and
  otherwise gives half as many bytes.
\<close>

theorem text_encodings_roundtrip:
  "base64decode (base64encode bs) = Inr bs \<and> length (base64encode bs) = 4 * ((length bs + 2) div 3) \<and>
   (\<exists>r. base64decode src = Inr r \<and> length r \<le> length src * 3 div 4) \<and>
   data_from_hexstring (hexstring_from_data bs) = Inr bs \<and> length (hexstring_from_data bs) = 2 * length bs \<and>
   (case data_from_hexstring src of
      Inl e \<Rightarrow> e = InvalidArgument \<and> (length src mod 2 = 1 \<or> list_ex (\<lambda>h. hex_val h = None) src)
    | Inr ds \<Rightarrow> even (length src) \<and> length ds = length src div 2 \<and> list_all (\<lambda>h. hex_val h \<noteq> None) src)"
proof (intro conjI)
  show "base64decode (base64encode bs) = Inr bs"
    using base64encode_loop [of bs "3 * ((length bs + 2) div 3)"] by (simp add: base64decode_def length_base64encode)
  show "length (base64encode bs) = 4 * ((length bs + 2) div 3)" by (rule length_base64encode)
  have "3 * length src \<le> 4 * (length src * 3 div 4) + 3" by linarith
  from base64decode_loop_room [OF this] show "\<exists>r. base64decode src = Inr r \<and> length r \<le> length src * 3 div 4"
    by (auto simp: base64decode_def)
  show "data_from_hexstring (hexstring_from_data bs) = Inr bs" by (simp add: data_from_hexstring_def from_hex_loop_hex)
  show "length (hexstring_from_data bs) = 2 * length bs" by simp
  show "case data_from_hexstring src of
      Inl e \<Rightarrow> e = InvalidArgument \<and> (length src mod 2 = 1 \<or> list_ex (\<lambda>h. hex_val h = None) src)
    | Inr ds \<Rightarrow> even (length src) \<and> length ds = length src div 2 \<and> list_all (\<lambda>h. hex_val h \<noteq> None) src"
    using from_hex_loop_total [of src] by (cases "even (length src)") (auto simp: data_from_hexstring_def list_all_iff list_ex_iff odd_iff_mod_2_eq_one split: sum.splits)
qed

text \<open>
  Replacing in strings, against a scan from the left: the versions for a character act on every
  occurrence; the version for a string replaces every occurrence, without overlaps and without
  looking again at what it put in, and it never returns when the string to find is empty.
\<close>

theorem replace_scans_left_to_right:
  "replace_byte str c w = map (\<lambda>x. if x = c then w else x) str \<and>
   replace_by str c ws = concat (map (\<lambda>x. if x = c then ws else [x]) str) \<and>
   replace_str str p ws = (if p = [] then None else Some (subst_all p ws str))"
  using replace_byte_loop_map [of "[]" str c w] replace_by_loop_map [of "[]" str c ws]
  by (simp add: replace_byte_def replace_by_def replace_str_subst replace_str_never)

text \<open>
  Splitting a string that is not empty at a character: the pieces joined again give the string, only
  the last piece can hold the separator, and a limit of two or more bounds the number of pieces.
  The limit one, which asks for a single piece, splits at every separator.
\<close>

theorem split_pieces:
  assumes "str \<noteq> []" and "length str < 2 ^ 64"
  shows "join c (split str c m) = str \<and>
    (\<forall>p \<in> set (butlast (split str c m)). c \<notin> set p) \<and>
    (2 \<le> m \<longrightarrow> length (split str c m) \<le> unat m) \<and>
    length (split str c 1) = count_list str c + 1 \<and>
    (c \<noteq> 0 \<longrightarrow> split_delims str [c] m = split str c m)"
proof -
  note * = split_loop_pieces [of c "[]" str, simplified]
  have "unat (1 - 2 :: u64) = 2 ^ 64 - 1" by (simp add: unsigned_minus_1_eq_mask mask_eq_exp_minus_1)
  then have "length (split str c 1) = count_list str c + 1" using * [of 1] assms by (simp add: split_def)
  then show ?thesis using * [of m] assms(1) by (simp add: split_def split_delims_def)
qed

lemma split_pieces_witness:
  "join 44 (split [97, 44, 98, 44, 99] 44 2) = [97, 44, 98, 44, 99] \<and> length (split [97, 44, 98, 44, 99] 44 2) \<le> 2 \<and>
   split [97, 44, 98, 44, 99] 44 2 = [[97], [98, 44, 99]] \<and> length (split [97, 44, 98, 44, 99] 44 1) = 3"
proof -
  have "split [97, 44, 98, 44, 99] 44 2 = [[97], [98, 44, 99]]" by code_simp
  then show ?thesis using split_pieces [of "[97, 44, 98, 44, 99]" 44 2] by simp
qed

text \<open>
  Message authentication: over a digest whose updates append to the message and whose result has the digest's
  length, at most a block, \<^verbatim>\<open>hmac\<close> computes RFC 2104 with the text and the key in the order in which it takes them.
\<close>

theorem hmac_is_rfc2104:
  fixes dg :: "'c digest_lib"
  defines "H \<equiv> digest_sum dg"
  assumes "\<And>c a b. dg_Update dg (dg_Update dg c a) b = dg_Update dg c (a @ b)"
    and "\<And>c. length (dg_Final dg c) = dg_L dg" and "dg_L dg \<le> dg_B dg"
  shows "hmac dg txt key = rfc2104 H (dg_B dg) key txt"
  using assms by (simp add: hmac_def rfc2104_def H_def digest_sum_def Let_def)

lemma hmac_is_rfc2104_witness:
  "hmac toy_digest [1, 2] [3] = [0x5c + (0x5c XOR 3) + 0x36 + (0x36 XOR 3) + 3]"
proof -
  have "hmac toy_digest [1, 2] [3] = rfc2104 (digest_sum toy_digest) (dg_B toy_digest) [3] [1, 2]"
    by (rule hmac_is_rfc2104) (simp_all add: toy_digest_def)
  then show ?thesis by (simp add: rfc2104_def digest_sum_def toy_digest_def eval_nat_numeral)
qed

text \<open>The two overloads of the murmur hash agree, and the hash of memory depends on one byte only.\<close>

lemma murmur3_hash_overloads:
  assumes "0 \<notin> set bs" shows "murmur3_hash_str (Some (bs @ [0])) seed = murmur3_hash (Some bs) seed"
proof -
  have "takeWhile (\<lambda>b. b \<noteq> 0) (bs @ [0]) = bs" using assms by (subst takeWhile_append2) auto
  then show ?thesis unfolding murmur3_hash_str_def murmur3_hash_def by (simp add: Let_def)
qed

lemma quick_hash_mem_first: "quick_hash_mem (a # bs) = quick_hash_mem (a # replicate (length bs) 0)"
  by (simp add: quick_hash_mem_def)

lemma random_string_chars: "set (random_string rnd n chars) \<subseteq> set chars \<and> (chars \<noteq> [] \<longrightarrow> length (random_string rnd n chars) = n)"
  by (auto simp: random_string_def)

end
