(* ===== verification/IOManager.thy ===== *)
theory IOManager imports Scheduler Timer begin

text \<open>
  The I/O manager (\<^verbatim>\<open>seaice/iomanager.h\<close>, \<^verbatim>\<open>iomanager.cpp\<close>): the scheduler and the timers together with a table of
  contexts, one for each file descriptor, and the kernel's epoll set. The kernel is a parameter: its state
  and the call \<^verbatim>\<open>epoll_ctl\<close> on it; the data pointer registered with a descriptor always is the
  descriptor's context. There is one scheduler in the process (\<^verbatim>\<open>Scheduler::getThis\<close> is not thread-local).
  One operation at a time runs on a context (its mutex); the table is changed under the write lock.
\<close>

section \<open>State\<close>

record 'cb event_ctx =
  ec_sch :: bool
  ec_cb :: "'cb option"
  ec_fiber :: "nat option"

record 'cb fd_ctx =
  fc_read :: "'cb event_ctx"
  fc_write :: "'cb event_ctx"
  fc_events :: u32
  fc_fd :: nat

datatype epoll_op = EPOLL_CTL_ADD | EPOLL_CTL_MOD | EPOLL_CTL_DEL

type_synonym 'k epoll = "epoll_op \<Rightarrow> int \<Rightarrow> u32 \<Rightarrow> 'k \<Rightarrow> int \<times> 'k"

record ('cb, 'k) iom =
  io_sched :: "'cb sched"
  io_timers :: "'cb timer_manager"
  io_ctxs :: "'cb fd_ctx option list"
  io_epoll :: 'k

definition NONE :: u32 where "NONE = 0"
definition READ :: u32 where "READ = 1"
definition WRITE :: u32 where "WRITE = 4"
definition EPOLLIN :: u32 where "EPOLLIN = 1"
definition EPOLLOUT :: u32 where "EPOLLOUT = 4"
definition EPOLLERR :: u32 where "EPOLLERR = 8"
definition EPOLLHUP :: u32 where "EPOLLHUP = 16"
definition EPOLLET :: u32 where "EPOLLET = 0x80000000"

lemmas event_bits = NONE_def READ_def WRITE_def EPOLLIN_def EPOLLOUT_def EPOLLERR_def EPOLLHUP_def

definition EventContext_reset :: "'cb event_ctx" where
  "EventContext_reset = \<lparr>ec_sch = False, ec_cb = None, ec_fiber = None\<rparr>"

definition new_FdContext :: "nat \<Rightarrow> 'cb fd_ctx" where
  "new_FdContext i = \<lparr>fc_read = EventContext_reset, fc_write = EventContext_reset, fc_events = NONE, fc_fd = i\<rparr>"

section \<open>Operations on a context\<close>

definition fire_ctx :: "'cb event_ctx \<Rightarrow> 'cb sched \<Rightarrow> fault + 'cb sched" where
  "fire_ctx e s =
     (if \<not> ec_sch e then Inl AssertFail
      else case ec_cb e of
        Some cb \<Rightarrow> Inr (snd (schedule \<lparr>tk_fiber = None, tk_cb = Some cb, tk_thread = - 1\<rparr> s))
      | None \<Rightarrow>
          (case ec_fiber e of
             Some f \<Rightarrow> Inr (snd (schedule \<lparr>tk_fiber = Some f, tk_cb = None, tk_thread = - 1\<rparr> s))
           | None \<Rightarrow> Inr s))"

definition triggerEvent :: "u32 \<Rightarrow> 'cb fd_ctx \<Rightarrow> 'cb sched \<Rightarrow> fault + 'cb fd_ctx \<times> 'cb sched" where
  "triggerEvent event c s =
     (let c = c\<lparr>fc_events := fc_events c AND NOT event\<rparr> in
      rbind (if event AND READ \<noteq> 0 then fire_ctx (fc_read c) s else Inr s) (\<lambda>s.
      rbind (if event AND WRITE \<noteq> 0 then fire_ctx (fc_write c) s else Inr s) (\<lambda>s. Inr (c, s))))"

section \<open>Operations of the manager\<close>

text \<open>\<^verbatim>\<open>resize(fd * 1.5)\<close>, with the product rounded down, and a context in every empty place.\<close>

definition resizeFdContext :: "int \<Rightarrow> ('cb, 'k) iom \<Rightarrow> ('cb, 'k) iom" where
  "resizeFdContext fd io =
     (if int (length (io_ctxs io)) > fd then io
      else
        let n = nat (fd * 3 div 2);
            ctxs = take n (io_ctxs io) @ replicate (n - length (io_ctxs io)) None
        in io\<lparr>io_ctxs := map (\<lambda>i. Some (case ctxs ! i of Some c \<Rightarrow> c | None \<Rightarrow> new_FdContext i)) [0..<length ctxs]\<rparr>)"

definition new_IOManager :: "'cb timer_manager \<Rightarrow> 'k \<Rightarrow> ('cb, 'k) iom" where
  "new_IOManager tm k = resizeFdContext 64 \<lparr>io_sched = new_Scheduler, io_timers = tm, io_ctxs = [], io_epoll = k\<rparr>"

text \<open>The element of the table; \<^verbatim>\<open>operator[]\<close> does not check its index.\<close>

definition ctx_at :: "int \<Rightarrow> ('cb, 'k) iom \<Rightarrow> fault + 'cb fd_ctx" where
  "ctx_at fd io =
     (if nat fd \<ge> length (io_ctxs io) then Inl OutOfBounds
      else case io_ctxs io ! nat fd of None \<Rightarrow> Inl AssertFail | Some c \<Rightarrow> Inr c)"

definition put_ctx :: "int \<Rightarrow> 'cb fd_ctx \<Rightarrow> ('cb, 'k) iom \<Rightarrow> ('cb, 'k) iom" where
  "put_ctx fd c io = io\<lparr>io_ctxs := (io_ctxs io)[nat fd := Some c]\<rparr>"

text \<open>\<open>t\<close> is the calling thread, whose current fiber waits when no callback is given.\<close>

definition addEvent :: "'k epoll \<Rightarrow> int \<Rightarrow> int \<Rightarrow> u32 \<Rightarrow> 'cb option \<Rightarrow> ('cb, 'k) iom \<Rightarrow> fault + int \<times> ('cb, 'k) iom" where
  "addEvent epoll_ctl t fd event cb io =
     (if event = NONE \<or> fd < 0 then Inr (- 1, io)
      else
        let io = resizeFdContext fd io in
        rbind (ctx_at fd io) (\<lambda>c.
          let curEvents = fc_events c;
              ctx = \<lparr>ec_sch = True, ec_cb = cb, ec_fiber = fb_cur (sc_fibers (io_sched io)) t\<rparr>;
              c = (if event AND READ \<noteq> 0 then c\<lparr>fc_read := ctx\<rparr> else c);
              c = (if event AND WRITE \<noteq> 0 then c\<lparr>fc_write := ctx\<rparr> else c);
              c = c\<lparr>fc_events := curEvents OR event\<rparr>;
              op = (if curEvents \<noteq> 0 then EPOLL_CTL_MOD else EPOLL_CTL_ADD);
              (rt, k) = epoll_ctl op fd (fc_events c OR EPOLLET) (io_epoll io)
          in if rt \<noteq> 0 then Inl AssertFail else Inr (0, put_ctx fd c (io\<lparr>io_epoll := k\<rparr>))))"

definition delEvent :: "'k epoll \<Rightarrow> int \<Rightarrow> u32 \<Rightarrow> ('cb, 'k) iom \<Rightarrow> fault + ('cb, 'k) iom" where
  "delEvent epoll_ctl fd event io =
     (if event = NONE \<or> fd < 0 then Inr io
      else if int (length (io_ctxs io)) < fd then Inr io
      else rbind (ctx_at fd io) (\<lambda>c.
        let curEvents = fc_events c in
        if curEvents AND event = NONE then Inr io
        else
          let c = (if event AND READ \<noteq> 0 then c\<lparr>fc_read := EventContext_reset\<rparr> else c);
              c = (if event AND WRITE \<noteq> 0 then c\<lparr>fc_write := EventContext_reset\<rparr> else c);
              c = c\<lparr>fc_events := curEvents AND NOT event\<rparr>;
              op = (if fc_events c \<noteq> 0 then EPOLL_CTL_MOD else EPOLL_CTL_DEL);
              (rt, k) = epoll_ctl op fd (fc_events c OR EPOLLET) (io_epoll io)
          in if rt \<noteq> 0 then Inl AssertFail else Inr (put_ctx fd c (io\<lparr>io_epoll := k\<rparr>))))"

text \<open>What a cancelled event does: its context fires and is reset.\<close>

definition cancel_read :: "u32 \<Rightarrow> 'cb fd_ctx \<Rightarrow> 'cb sched \<Rightarrow> fault + 'cb fd_ctx \<times> 'cb sched" where
  "cancel_read event c s =
     (if event AND READ \<noteq> 0
      then rbind (triggerEvent READ c s) (\<lambda>(c, s). Inr (c\<lparr>fc_read := EventContext_reset\<rparr>, s)) else Inr (c, s))"

definition cancel_write :: "u32 \<Rightarrow> 'cb fd_ctx \<Rightarrow> 'cb sched \<Rightarrow> fault + 'cb fd_ctx \<times> 'cb sched" where
  "cancel_write event c s =
     (if event AND WRITE \<noteq> 0
      then rbind (triggerEvent WRITE c s) (\<lambda>(c, s). Inr (c\<lparr>fc_write := EventContext_reset\<rparr>, s)) else Inr (c, s))"

definition cancelEvent :: "'k epoll \<Rightarrow> int \<Rightarrow> u32 \<Rightarrow> ('cb, 'k) iom \<Rightarrow> fault + bool \<times> ('cb, 'k) iom" where
  "cancelEvent epoll_ctl fd event io =
     (if event = NONE \<or> fd < 0 then Inr (False, io)
      else if int (length (io_ctxs io)) < fd then Inr (False, io)
      else rbind (ctx_at fd io) (\<lambda>c.
        let curEvents = fc_events c in
        if curEvents AND event = NONE then Inr (False, io)
        else
          let c = c\<lparr>fc_events := curEvents AND NOT event\<rparr>;
              op = (if fc_events c \<noteq> 0 then EPOLL_CTL_MOD else EPOLL_CTL_DEL);
              (rt, k) = epoll_ctl op fd (fc_events c OR EPOLLET) (io_epoll io)
          in if rt \<noteq> 0 then Inl AssertFail
             else rbind (cancel_read event c (io_sched io)) (\<lambda>(c, s).
                  rbind (cancel_write event c s) (\<lambda>(c, s).
                    Inr (True, put_ctx fd c (io\<lparr>io_epoll := k, io_sched := s\<rparr>))))))"

definition cancelAllEvent :: "'k epoll \<Rightarrow> int \<Rightarrow> ('cb, 'k) iom \<Rightarrow> fault + bool \<times> ('cb, 'k) iom" where
  "cancelAllEvent epoll_ctl fd io =
     (if fd < 0 then Inr (False, io)
      else if int (length (io_ctxs io)) < fd then Inr (False, io)
      else rbind (ctx_at fd io) (\<lambda>c.
        let curEvents = fc_events c in
        if curEvents = NONE then Inr (False, io)
        else
          let c = c\<lparr>fc_events := NONE\<rparr>;
              (rt, k) = epoll_ctl EPOLL_CTL_DEL fd NONE (io_epoll io)
          in if rt \<noteq> 0 then Inl AssertFail
             else rbind (cancel_read curEvents c (io_sched io)) (\<lambda>(c, s).
                  rbind (cancel_write curEvents c s) (\<lambda>(c, s).
                    Inr (True, put_ctx fd c (io\<lparr>io_epoll := k, io_sched := s\<rparr>))))))"

section \<open>The idle function\<close>

definition idle_timeout :: "nat \<Rightarrow> 'cb timer_manager \<Rightarrow> nat" where
  "idle_timeout now tm = min (getRecentTimerout now tm) 5000"

text \<open>What the events of the kernel mean for a context.\<close>

definition real_event :: "u32 \<Rightarrow> u32" where
  "real_event events =
     (let r = (if events AND (EPOLLERR OR EPOLLHUP) \<noteq> 0 then READ OR WRITE else NONE);
          r = (if events AND EPOLLIN \<noteq> 0 then r OR READ else r)
      in if events AND EPOLLOUT \<noteq> 0 then r OR WRITE else r)"

text \<open>One event of the wait; a failure of \<^verbatim>\<open>epoll_ctl\<close> is only logged here.\<close>

definition handle_event :: "'k epoll \<Rightarrow> u32 \<Rightarrow> nat \<Rightarrow> ('cb, 'k) iom \<Rightarrow> fault + ('cb, 'k) iom" where
  "handle_event epoll_ctl events i io =
     rbind (ctx_at (int i) io) (\<lambda>c.
       let ev = real_event events AND fc_events c;
           left_event = fc_events c AND NOT ev;
           op = (if left_event \<noteq> 0 then EPOLL_CTL_MOD else EPOLL_CTL_DEL);
           (rt, k) = epoll_ctl op (int (fc_fd c)) (left_event OR EPOLLET) (io_epoll io)
       in rbind (if ev AND READ \<noteq> 0 then triggerEvent READ c (io_sched io) else Inr (c, io_sched io)) (\<lambda>(c, s).
          rbind (if ev AND WRITE \<noteq> 0 then triggerEvent WRITE c s else Inr (c, s)) (\<lambda>(c, s).
            Inr (put_ctx (int i) c (io\<lparr>io_epoll := k, io_sched := s\<rparr>)))))"

text \<open>\<open>None\<close> stands for the descriptor of the ticks, which is only drained.\<close>

fun handle_events :: "'k epoll \<Rightarrow> (u32 \<times> nat option) list \<Rightarrow> ('cb, 'k) iom \<Rightarrow> fault + ('cb, 'k) iom" where
  "handle_events epoll_ctl [] io = Inr io"
| "handle_events epoll_ctl ((events, None) # evs) io = handle_events epoll_ctl evs io"
| "handle_events epoll_ctl ((events, Some i) # evs) io =
     rbind (handle_event epoll_ctl events i io) (handle_events epoll_ctl evs)"

text \<open>A round after the wait, up to the yield: the due timers, then the events.\<close>

definition idle_round :: "'k epoll \<Rightarrow> nat \<Rightarrow> (nat \<Rightarrow> nat) \<Rightarrow> (u32 \<times> nat option) list \<Rightarrow> ('cb, 'k) iom \<Rightarrow> fault + ('cb, 'k) iom" where
  "idle_round epoll_ctl now clk evs io =
     rbind (listTimeroutCallback now clk [] (io_timers io)) (\<lambda>(callbacks, tm).
       let s = fold (\<lambda>cb s. snd (schedule \<lparr>tk_fiber = None, tk_cb = cb, tk_thread = - 1\<rparr> s)) callbacks (io_sched io)
       in handle_events epoll_ctl evs (io\<lparr>io_timers := tm, io_sched := s\<rparr>))"

text \<open>The virtual functions as the I/O manager overrides them.\<close>

definition iomanager_virt :: "'cb virt" where
  "iomanager_virt = \<lparr>vt_isStoping = (\<lambda>_. False), vt_idle_yield = READY\<rparr>"

section \<open>Invariant\<close>

text \<open>
  The contract of \<^verbatim>\<open>epoll_ctl\<close> for open descriptors, with \<open>reg\<close> the events that a state of the kernel has for a
  descriptor: adding needs a descriptor that is not there, changing and removing one that is.
\<close>

definition epoll_contract :: "'k epoll \<Rightarrow> ('k \<Rightarrow> int \<Rightarrow> u32 option) \<Rightarrow> bool" where
  "epoll_contract ctl reg \<longleftrightarrow>
     (\<forall>k fd ev. reg k fd = None \<longrightarrow> fst (ctl EPOLL_CTL_ADD fd ev k) = 0 \<and> reg (snd (ctl EPOLL_CTL_ADD fd ev k)) = (reg k)(fd \<mapsto> ev)) \<and>
     (\<forall>k fd ev. reg k fd \<noteq> None \<longrightarrow> fst (ctl EPOLL_CTL_MOD fd ev k) = 0 \<and> reg (snd (ctl EPOLL_CTL_MOD fd ev k)) = (reg k)(fd \<mapsto> ev)) \<and>
     (\<forall>k fd ev. reg k fd \<noteq> None \<longrightarrow> fst (ctl EPOLL_CTL_DEL fd ev k) = 0 \<and> reg (snd (ctl EPOLL_CTL_DEL fd ev k)) = (reg k)(fd := None)) \<and>
     (\<forall>k fd ev. reg k fd = None \<longrightarrow> reg (snd (ctl EPOLL_CTL_DEL fd ev k)) = reg k)"

text \<open>What the kernel should have for a context: nothing when no event is wanted.\<close>

definition wanted :: "u32 \<Rightarrow> u32 option" where
  "wanted events = (if events = 0 then None else Some (events OR EPOLLET))"

definition only_events :: "u32 \<Rightarrow> bool" where
  "only_events w \<longleftrightarrow> w AND NOT (READ OR WRITE) = 0"

definition ctx_ok :: "'cb fd_ctx \<Rightarrow> bool" where
  "ctx_ok c \<longleftrightarrow>
     only_events (fc_events c) \<and>
     (fc_events c AND READ \<noteq> 0 \<longrightarrow> ec_sch (fc_read c)) \<and> (fc_events c AND WRITE \<noteq> 0 \<longrightarrow> ec_sch (fc_write c))"

definition io_inv :: "('k \<Rightarrow> int \<Rightarrow> u32 option) \<Rightarrow> ('cb, 'k) iom \<Rightarrow> bool" where
  "io_inv reg io \<longleftrightarrow>
     64 \<le> length (io_ctxs io) \<and>
     (\<forall>i < length (io_ctxs io). \<exists>c. io_ctxs io ! i = Some c \<and> ctx_ok c \<and> fc_fd c = i \<and>
        reg (io_epoll io) (int i) = wanted (fc_events c)) \<and>
     (\<forall>i \<ge> length (io_ctxs io). reg (io_epoll io) (int i) = None)"

text \<open>A mask of events is its two bits.\<close>

lemma and_READ: "w AND READ \<noteq> 0 \<longleftrightarrow> bit w 0"
  by (simp add: READ_def and_one_eq odd_iff_mod_2_eq_one bit_0)

lemma and_WRITE: "w AND WRITE \<noteq> 0 \<longleftrightarrow> bit w 2"
  using bit_iff_and_push_bit_not_eq_0 [of w 2] by (simp add: WRITE_def)

lemma bit_events: "bit (READ OR WRITE) n \<longleftrightarrow> n = 0 \<or> n = 2"
proof -
  have "bit READ n \<longleftrightarrow> n = 0" unfolding READ_def by (simp add: bit_1_iff)
  moreover have w: "WRITE = push_bit 2 1" by (simp add: WRITE_def)
  have "bit WRITE n \<longleftrightarrow> n = 2" unfolding w by (auto simp: bit_push_bit_iff bit_1_iff simp del: push_bit_of_1)
  ultimately show ?thesis by (simp add: bit_or_iff)
qed

lemma only_events_bits: "only_events w \<longleftrightarrow> (\<forall>n. bit w n \<longrightarrow> n = 0 \<or> n = 2)"
proof -
  have b: "bit (w AND NOT (READ OR WRITE)) n \<longleftrightarrow> bit w n \<and> n \<noteq> 0 \<and> n \<noteq> 2" for n
    using bit_imp_le_length [of w n] by (simp only: bit_and_iff bit_not_iff bit_events) auto
  have "only_events w \<longleftrightarrow> (\<forall>n. \<not> bit (w AND NOT (READ OR WRITE)) n)"
    unfolding only_events_def by (metis bit_0_eq bot_apply bot_bool_def bit_word_eqI)
  then show ?thesis unfolding b by blast
qed

lemma only_events_zero: "only_events w \<Longrightarrow> w = 0 \<longleftrightarrow> \<not> bit w 0 \<and> \<not> bit w 2"
  by (auto simp: only_events_bits intro!: bit_word_eqI)

lemma only_events_closed:
  "only_events v \<Longrightarrow> only_events w \<Longrightarrow> only_events (v OR w)" "only_events v \<Longrightarrow> only_events (v AND w)" "only_events 0"
  by (auto simp: only_events_bits bit_or_iff bit_and_iff)

section \<open>The kernel and the table\<close>

lemma epoll_contractD:
  assumes "epoll_contract ctl reg"
  shows "reg k fd = None \<Longrightarrow> fst (ctl EPOLL_CTL_ADD fd ev k) = 0 \<and> reg (snd (ctl EPOLL_CTL_ADD fd ev k)) = (reg k)(fd \<mapsto> ev)"
    and "reg k fd \<noteq> None \<Longrightarrow> fst (ctl EPOLL_CTL_MOD fd ev k) = 0 \<and> reg (snd (ctl EPOLL_CTL_MOD fd ev k)) = (reg k)(fd \<mapsto> ev)"
    and "reg k fd \<noteq> None \<Longrightarrow> fst (ctl EPOLL_CTL_DEL fd ev k) = 0 \<and> reg (snd (ctl EPOLL_CTL_DEL fd ev k)) = (reg k)(fd := None)"
    and "reg k fd = None \<Longrightarrow> reg (snd (ctl EPOLL_CTL_DEL fd ev k)) = reg k"
  using assms unfolding epoll_contract_def by blast+

lemma epoll_more:
  assumes c: "epoll_contract ctl reg" and r: "reg k fd = wanted old" and "new \<noteq> 0"
    and e: "ctl (if old \<noteq> 0 then EPOLL_CTL_MOD else EPOLL_CTL_ADD) fd (new OR EPOLLET) k = (rt, k')"
  shows "rt = 0 \<and> reg k' = (reg k)(fd := wanted new)"
proof (cases "old = 0")
  case True
  then show ?thesis using epoll_contractD(1) [OF c, of k fd "new OR EPOLLET"] assms by (simp add: wanted_def)
next
  case False
  then show ?thesis using epoll_contractD(2) [OF c, of k fd "new OR EPOLLET"] assms by (simp add: wanted_def)
qed

lemma epoll_less:
  assumes c: "epoll_contract ctl reg" and r: "reg k fd = wanted old" and n: "new \<noteq> 0 \<longrightarrow> old \<noteq> 0"
    and e: "ctl (if new \<noteq> 0 then EPOLL_CTL_MOD else EPOLL_CTL_DEL) fd ev k = (rt, k')" and ev: "new \<noteq> 0 \<longrightarrow> ev = new OR EPOLLET"
  shows "(old \<noteq> 0 \<longrightarrow> rt = 0) \<and> reg k' = (reg k)(fd := wanted new)"
proof -
  consider "new \<noteq> 0" "old \<noteq> 0" | "new = 0" "old \<noteq> 0" | "new = 0" "old = 0" using n by blast
  then show ?thesis
  proof cases
    case 1
    then show ?thesis using epoll_contractD(2) [OF c, of k fd ev] r e ev by (simp add: wanted_def)
  next
    case 2
    then show ?thesis using epoll_contractD(3) [OF c, of k fd ev] r e by (simp add: wanted_def)
  next
    case 3
    then have none: "reg k fd = None" using r by (simp add: wanted_def)
    then have "reg k' = reg k" using epoll_contractD(4) [OF c none, of ev] e 3 by simp
    then show ?thesis using none 3 by (simp add: wanted_def fun_upd_idem)
  qed
qed

lemma io_inv_ctx:
  assumes "io_inv reg io" and "0 \<le> fd" and "fd < int (length (io_ctxs io))"
  obtains c where "ctx_at fd io = Inr c" "io_ctxs io ! nat fd = Some c" "ctx_ok c" "fc_fd c = nat fd" "reg (io_epoll io) fd = wanted (fc_events c)"
proof -
  have "nat fd < length (io_ctxs io)" using assms(2,3) by linarith
  then obtain c where "io_ctxs io ! nat fd = Some c" "ctx_ok c" "fc_fd c = nat fd" "reg (io_epoll io) (int (nat fd)) = wanted (fc_events c)"
    using assms(1) unfolding io_inv_def by blast
  then show ?thesis using that [of c] assms(2) \<open>nat fd < length (io_ctxs io)\<close> by (simp add: ctx_at_def)
qed

lemma io_inv_put:
  assumes "io_inv reg io" and "0 \<le> fd" and "fd < int (length (io_ctxs io))" and "ctx_ok c" and "fc_fd c = nat fd"
    and "reg k = (reg (io_epoll io))(fd := wanted (fc_events c))"
  shows "io_inv reg (put_ctx fd c (io\<lparr>io_epoll := k, io_sched := s\<rparr>))"
  using assms by (auto simp: io_inv_def put_ctx_def nth_list_update)

lemma new_FdContext_ok: "ctx_ok (new_FdContext i)" "fc_fd (new_FdContext i) = i" "wanted (fc_events (new_FdContext i)) = None"
  by (simp_all add: ctx_ok_def new_FdContext_def NONE_def wanted_def only_events_def)

lemma io_inv_map:
  assumes "64 \<le> n" and "\<forall>i \<ge> n. reg (io_epoll io) (int i) = None"
    and "\<And>i. i < n \<Longrightarrow> ctx_ok (g i) \<and> fc_fd (g i) = i \<and> reg (io_epoll io) (int i) = wanted (fc_events (g i))"
  shows "io_inv reg (io\<lparr>io_ctxs := map (\<lambda>i. Some (g i)) [0..<n]\<rparr>)"
  using assms by (simp add: io_inv_def)

lemma io_inv_resize:
  assumes "io_inv reg io"
  shows "io_inv reg (resizeFdContext fd io) \<and> (0 \<le> fd \<longrightarrow> fd < int (length (io_ctxs (resizeFdContext fd io)))) \<and>
    io_epoll (resizeFdContext fd io) = io_epoll io \<and> io_sched (resizeFdContext fd io) = io_sched io \<and>
    (0 \<le> fd \<and> fd < int (length (io_ctxs io)) \<longrightarrow> resizeFdContext fd io = io)"
proof (cases "int (length (io_ctxs io)) > fd")
  case True
  then show ?thesis using assms by (simp add: resizeFdContext_def)
next
  case False
  let ?n = "nat (fd * 3 div 2)"
  let ?xs = "take ?n (io_ctxs io) @ replicate (?n - length (io_ctxs io)) None"
  have n: "length (io_ctxs io) \<le> ?n" "fd < int ?n" "64 \<le> ?n" using False assms by (auto simp: io_inv_def)
  then have len: "length ?xs = ?n" by simp
  have nth: "?xs ! i = (if i < length (io_ctxs io) then io_ctxs io ! i else None)" if "i < ?n" for i
    using that n(1) by (simp add: nth_append)
  have slot: "let c = (case ?xs ! i of Some c \<Rightarrow> c | None \<Rightarrow> new_FdContext i) in ctx_ok c \<and> fc_fd c = i \<and>
      reg (io_epoll io) (int i) = wanted (fc_events c)" if "i < ?n" for i
  proof (cases "i < length (io_ctxs io)")
    case True
    then obtain c where "io_ctxs io ! i = Some c" "ctx_ok c" "fc_fd c = i" "reg (io_epoll io) (int i) = wanted (fc_events c)"
      using assms unfolding io_inv_def by blast
    then show ?thesis using nth [OF that] True by simp
  next
    case False
    then have "reg (io_epoll io) (int i) = None" using assms by (simp add: io_inv_def)
    then show ?thesis using nth [OF that] False by (simp add: new_FdContext_ok)
  qed
  have eq: "resizeFdContext fd io =
      io\<lparr>io_ctxs := map (\<lambda>i. Some (case ?xs ! i of Some c \<Rightarrow> c | None \<Rightarrow> new_FdContext i)) [0..<?n]\<rparr>"
    unfolding resizeFdContext_def Let_def len using False by simp
  have "\<forall>i \<ge> ?n. reg (io_epoll io) (int i) = None" using assms n(1) by (simp add: io_inv_def)
  then have "io_inv reg (resizeFdContext fd io)" unfolding eq using slot [unfolded Let_def] n(3) by (intro io_inv_map) blast+
  then show ?thesis using n False unfolding eq by simp
qed

section \<open>Preservation\<close>

text \<open>The tasks that an event puts into the queue.\<close>

definition ctx_tasks :: "'cb event_ctx \<Rightarrow> 'cb task list" where
  "ctx_tasks e =
     (case ec_cb e of
        Some cb \<Rightarrow> [\<lparr>tk_fiber = None, tk_cb = Some cb, tk_thread = - 1\<rparr>]
      | None \<Rightarrow> (case ec_fiber e of Some f \<Rightarrow> [\<lparr>tk_fiber = Some f, tk_cb = None, tk_thread = - 1\<rparr>] | None \<Rightarrow> []))"

definition enqueue :: "'cb task list \<Rightarrow> 'cb sched \<Rightarrow> 'cb sched" where
  "enqueue tks s = s\<lparr>sc_queue := sc_queue s @ tks\<rparr>"

lemma enqueue_simps [simp]: "enqueue [] s = s" "enqueue ys (enqueue xs s) = enqueue (xs @ ys) s" "sc_queue (enqueue xs s) = sc_queue s @ xs"
  by (simp_all add: enqueue_def)

lemma fire_ctx_ok: "ec_sch e \<Longrightarrow> fire_ctx e s = Inr (enqueue (ctx_tasks e) s)"
  by (auto simp: fire_ctx_def ctx_tasks_def schedule_def enqueue_def split: option.split)

lemma READ_WRITE_bits: "bit READ n \<longleftrightarrow> n = 0" "bit WRITE n \<longleftrightarrow> n = 2"
proof -
  show "bit READ n \<longleftrightarrow> n = 0" by (simp add: READ_def bit_1_iff)
  have w: "WRITE = push_bit 2 1" by (simp add: WRITE_def)
  show "bit WRITE n \<longleftrightarrow> n = 2" unfolding w by (auto simp: bit_push_bit_iff bit_1_iff simp del: push_bit_of_1)
qed

lemma triggerEvent_ok:
  "ec_sch (fc_read c) \<Longrightarrow> triggerEvent READ c s = Inr (c\<lparr>fc_events := fc_events c AND NOT READ\<rparr>, enqueue (ctx_tasks (fc_read c)) s)"
  "ec_sch (fc_write c) \<Longrightarrow> triggerEvent WRITE c s = Inr (c\<lparr>fc_events := fc_events c AND NOT WRITE\<rparr>, enqueue (ctx_tasks (fc_write c)) s)"
  using and_READ [of READ] and_READ [of WRITE] and_WRITE [of READ] and_WRITE [of WRITE]
  by (simp_all add: triggerEvent_def Let_def READ_WRITE_bits fire_ctx_ok del: and.idem)

lemma fired_events:
  assumes "only_events ev"
  shows "(if bit ev 2 then (if bit ev 0 then e AND NOT READ else e) AND NOT WRITE else (if bit ev 0 then e AND NOT READ else e)) = e AND NOT ev"
proof (rule bit_word_eqI)
  fix n assume "n < LENGTH(32)"
  then have n: "n < 32" by simp
  have "bit ev n \<longrightarrow> n = 0 \<or> n = 2" using assms by (simp add: only_events_bits)
  then show "bit (if bit ev 2 then (if bit ev 0 then e AND NOT READ else e) AND NOT WRITE else (if bit ev 0 then e AND NOT READ else e)) n
      = bit (e AND NOT ev) n"
    using n by (cases "n = 0"; cases "n = 2") (auto simp: bit_and_iff bit_not_iff READ_WRITE_bits)
qed

text \<open>The tasks of the events \<open>ev\<close> that a context waits for.\<close>

definition event_tasks :: "u32 \<Rightarrow> 'cb fd_ctx \<Rightarrow> 'cb task list" where
  "event_tasks ev c = (if bit ev 0 then ctx_tasks (fc_read c) else []) @ (if bit ev 2 then ctx_tasks (fc_write c) else [])"

lemma addEvent_ok:
  assumes c: "epoll_contract ctl reg" and inv: "io_inv reg io" and ev: "only_events event" and fd: "0 \<le> fd" and ne: "event \<noteq> 0"
  shows "\<exists>io' d. addEvent ctl t fd event cb io = Inr (0, io') \<and> io_inv reg io' \<and> io_sched io' = io_sched io \<and>
    ctx_at fd (resizeFdContext fd io) = Inr d \<and>
    ctx_at fd io' = Inr (let e = \<lparr>ec_sch = True, ec_cb = cb, ec_fiber = fb_cur (sc_fibers (io_sched io)) t\<rparr> in
      d\<lparr>fc_read := (if bit event 0 then e else fc_read d), fc_write := (if bit event 2 then e else fc_write d), fc_events := fc_events d OR event\<rparr>)"
proof -
  let ?io = "resizeFdContext fd io"
  note r = io_inv_resize [OF inv, of fd]
  obtain d where d: "ctx_at fd ?io = Inr d" "ctx_ok d" "fc_fd d = nat fd" "reg (io_epoll ?io) fd = wanted (fc_events d)"
    using io_inv_ctx [of reg ?io fd] r fd by auto
  let ?e = "\<lparr>ec_sch = True, ec_cb = cb, ec_fiber = fb_cur (sc_fibers (io_sched io)) t\<rparr>"
  let ?d = "d\<lparr>fc_read := (if bit event 0 then ?e else fc_read d), fc_write := (if bit event 2 then ?e else fc_write d), fc_events := fc_events d OR event\<rparr>"
  have oe: "only_events (fc_events d OR event)" using d(2) ev only_events_closed(1) by (auto simp: ctx_ok_def)
  have nz: "fc_events d OR event \<noteq> 0" using ne ev oe by (auto simp: only_events_zero bit_or_iff)
  have ok: "ctx_ok ?d" using d(2) oe by (auto simp: ctx_ok_def and_READ and_WRITE bit_or_iff)
  obtain rt k where k: "ctl (if fc_events d \<noteq> 0 then EPOLL_CTL_MOD else EPOLL_CTL_ADD) fd ((fc_events d OR event) OR EPOLLET) (io_epoll ?io) = (rt, k)"
    by fastforce
  note m = epoll_more [OF c d(4) nz k]
  let ?io' = "put_ctx fd ?d (?io\<lparr>io_epoll := k\<rparr>)"
  have "io_inv reg (put_ctx fd ?d (?io\<lparr>io_epoll := k, io_sched := io_sched ?io\<rparr>))"
    using r fd ok d(3) m by (intro io_inv_put) simp_all
  moreover have "addEvent ctl t fd event cb io = Inr (0, ?io')"
    using k m d(1) fd ne r by (auto simp: addEvent_def NONE_def and_READ and_WRITE Let_def)
  moreover have "nat fd < length (io_ctxs ?io)" using r fd by (simp add: nat_less_iff)
  then have "ctx_at fd ?io' = Inr ?d" by (simp add: ctx_at_def put_ctx_def)
  moreover have "put_ctx fd ?d (?io\<lparr>io_epoll := k, io_sched := io_sched ?io\<rparr>) = ?io'" by simp
  moreover have "io_sched ?io' = io_sched io" using r by (simp add: put_ctx_def)
  ultimately show ?thesis using d(1) by (metis (no_types, lifting))
qed

lemma only_events_and: "only_events (real_event events)"
proof -
  have "only_events READ" "only_events WRITE" by (auto simp: only_events_bits READ_WRITE_bits)
  then show ?thesis
    by (auto simp: real_event_def Let_def NONE_def intro: only_events_closed)
qed

lemma event_and: "only_events ev \<Longrightarrow> e AND ev = 0 \<longleftrightarrow> \<not> (bit e 0 \<and> bit ev 0) \<and> \<not> (bit e 2 \<and> bit ev 2)"
  using only_events_zero [OF only_events_closed(2), of ev e] by (simp add: bit_and_iff and.commute)

lemma delEvent_ok:
  assumes c: "epoll_contract ctl reg" and inv: "io_inv reg io" and ev: "only_events event" and fd: "fd \<noteq> int (length (io_ctxs io))"
  shows "\<exists>io'. delEvent ctl fd event io = Inr io' \<and> io_inv reg io' \<and> io_sched io' = io_sched io"
proof (cases "event = 0 \<or> fd < 0 \<or> int (length (io_ctxs io)) < fd")
  case True
  then show ?thesis using inv by (auto simp: delEvent_def NONE_def)
next
  case False
  then have f: "0 \<le> fd" "fd < int (length (io_ctxs io))" using fd by auto
  obtain d where d: "ctx_at fd io = Inr d" "ctx_ok d" "fc_fd d = nat fd" "reg (io_epoll io) fd = wanted (fc_events d)"
    using io_inv_ctx [OF inv f] by blast
  show ?thesis
  proof (cases "fc_events d AND event = 0")
    case True
    then show ?thesis using inv False d(1) by (auto simp: delEvent_def NONE_def)
  next
    case ne: False
    let ?n = "fc_events d AND NOT event"
    let ?d = "d\<lparr>fc_read := (if bit event 0 then EventContext_reset else fc_read d),
                 fc_write := (if bit event 2 then EventContext_reset else fc_write d), fc_events := ?n\<rparr>"
    obtain rt k where k: "ctl (if ?n \<noteq> 0 then EPOLL_CTL_MOD else EPOLL_CTL_DEL) fd (?n OR EPOLLET) (io_epoll io) = (rt, k)" by fastforce
    have old: "fc_events d \<noteq> 0" using ne by auto
    note m = epoll_less [OF c d(4) _ k]
    have m: "rt = 0" "reg k = (reg (io_epoll io))(fd := wanted ?n)" using m old by simp_all
    have "ctx_ok ?d" using d(2) only_events_closed(2) by (auto simp: ctx_ok_def and_READ and_WRITE bit_and_iff bit_not_iff)
    then have "io_inv reg (put_ctx fd ?d (io\<lparr>io_epoll := k, io_sched := io_sched io\<rparr>))"
      using inv f d(3) m by (intro io_inv_put) simp_all
    moreover have "delEvent ctl fd event io = Inr (put_ctx fd ?d (io\<lparr>io_epoll := k\<rparr>))"
      using k m(1) ne d(1) False by (auto simp: delEvent_def NONE_def and_READ and_WRITE Let_def)
    ultimately show ?thesis by (simp add: put_ctx_def)
  qed
qed

text \<open>Cancelling: the events that were wanted fire once more, like events of the kernel.\<close>

lemma cancel_fires:
  assumes ok: "ec_sch (fc_read c) \<or> \<not> bit ev 0" "ec_sch (fc_write c) \<or> \<not> bit ev 2"
  shows "\<exists>c'. rbind (cancel_read ev c s) (\<lambda>(c, s). cancel_write ev c s) = Inr (c', enqueue (event_tasks ev c) s) \<and>
    fc_events c' = (if bit ev 2 then (if bit ev 0 then fc_events c AND NOT READ else fc_events c) AND NOT WRITE
                    else (if bit ev 0 then fc_events c AND NOT READ else fc_events c)) \<and>
    fc_fd c' = fc_fd c \<and> fc_read c' = (if bit ev 0 then EventContext_reset else fc_read c) \<and>
    fc_write c' = (if bit ev 2 then EventContext_reset else fc_write c)"
  using assms triggerEvent_ok [of c s] triggerEvent_ok(2) [of "c\<lparr>fc_events := fc_events c AND NOT READ, fc_read := EventContext_reset\<rparr>"]
  by (cases "bit ev 0"; cases "bit ev 2") (auto simp: cancel_read_def cancel_write_def and_READ and_WRITE event_tasks_def)

lemma cancelEvent_ok:
  assumes c: "epoll_contract ctl reg" and inv: "io_inv reg io" and fd: "0 \<le> fd" "fd < int (length (io_ctxs io))"
    and d: "ctx_at fd io = Inr d" and ev: "event AND fc_events d = event" "event \<noteq> 0"
  shows "\<exists>io'. cancelEvent ctl fd event io = Inr (True, io') \<and> io_inv reg io' \<and> io_sched io' = enqueue (event_tasks event d) (io_sched io)"
proof -
  have dd: "ctx_ok d" "fc_fd d = nat fd" "reg (io_epoll io) fd = wanted (fc_events d)"
    using io_inv_ctx [OF inv fd] d by auto
  have sub: "bit event n \<Longrightarrow> bit (fc_events d) n" for n using ev(1) by (metis bit_and_iff)
  have oe: "only_events event" using sub dd(1) by (auto simp: ctx_ok_def only_events_bits)
  let ?n = "fc_events d AND NOT event"
  obtain rt k where k: "ctl (if ?n \<noteq> 0 then EPOLL_CTL_MOD else EPOLL_CTL_DEL) fd (?n OR EPOLLET) (io_epoll io) = (rt, k)" by fastforce
  have ne: "fc_events d AND event \<noteq> 0" using ev by (simp add: and.commute)
  then have old: "fc_events d \<noteq> 0" by auto
  have m: "rt = 0" "reg k = (reg (io_epoll io))(fd := wanted ?n)" using epoll_less [OF c dd(3) _ k] old by simp_all
  let ?c = "d\<lparr>fc_events := ?n\<rparr>"
  have sch: "ec_sch (fc_read ?c) \<or> \<not> bit event 0" "ec_sch (fc_write ?c) \<or> \<not> bit event 2"
    using dd(1) sub by (auto simp: ctx_ok_def and_READ and_WRITE)
  obtain c' where c': "rbind (cancel_read event ?c (io_sched io)) (\<lambda>(c, s). cancel_write event c s) = Inr (c', enqueue (event_tasks event ?c) (io_sched io))"
      "fc_events c' = ?n AND NOT event" "fc_fd c' = fc_fd d"
      "fc_read c' = (if bit event 0 then EventContext_reset else fc_read d)" "fc_write c' = (if bit event 2 then EventContext_reset else fc_write d)"
    using cancel_fires [OF sch, of "io_sched io"] unfolding fired_events [OF oe] by auto
  have n: "?n AND NOT event = ?n" by (simp add: and.assoc)
  have "ctx_ok c'" using dd(1) only_events_closed(2) [of "fc_events d" "NOT event"]
    by (auto simp: ctx_ok_def c'(2,4,5) n and_READ and_WRITE bit_and_iff bit_not_iff)
  then have "io_inv reg (put_ctx fd c' (io\<lparr>io_epoll := k, io_sched := enqueue (event_tasks event ?c) (io_sched io)\<rparr>))"
    using inv fd dd(2) m(2) c'(2,3) n by (intro io_inv_put) simp_all
  moreover have "cancelEvent ctl fd event io = Inr (True, put_ctx fd c' (io\<lparr>io_epoll := k, io_sched := enqueue (event_tasks event ?c) (io_sched io)\<rparr>))"
    using k m(1) ne d fd ev(2) c'(1) by (auto simp: cancelEvent_def NONE_def Let_def rbind_assoc_pair)
  moreover have "event_tasks event ?c = event_tasks event d" by (simp add: event_tasks_def)
  ultimately show ?thesis by (simp add: put_ctx_def)
qed

lemma cancelAllEvent_ok:
  assumes c: "epoll_contract ctl reg" and inv: "io_inv reg io" and fd: "0 \<le> fd" "fd < int (length (io_ctxs io))" and d: "ctx_at fd io = Inr d"
  shows "\<exists>io'. cancelAllEvent ctl fd io = Inr (fc_events d \<noteq> 0, io') \<and> io_inv reg io' \<and>
    io_sched io' = enqueue (event_tasks (fc_events d) d) (io_sched io)"
proof (cases "fc_events d = 0")
  case True
  then show ?thesis using d fd inv by (auto simp: cancelAllEvent_def NONE_def event_tasks_def)
next
  case False
  have dd: "ctx_ok d" "fc_fd d = nat fd" "reg (io_epoll io) fd = wanted (fc_events d)"
    using io_inv_ctx [OF inv fd] d by auto
  have oe: "only_events (fc_events d)" using dd(1) by (simp add: ctx_ok_def)
  obtain rt k where k: "ctl EPOLL_CTL_DEL fd 0 (io_epoll io) = (rt, k)" by fastforce
  have m: "rt = 0" "reg k = (reg (io_epoll io))(fd := wanted 0)" using epoll_less [OF c dd(3), of 0 0 rt k] False k by simp_all
  let ?c = "d\<lparr>fc_events := 0\<rparr>"
  have sch: "ec_sch (fc_read ?c) \<or> \<not> bit (fc_events d) 0" "ec_sch (fc_write ?c) \<or> \<not> bit (fc_events d) 2"
    using dd(1) by (auto simp: ctx_ok_def and_READ and_WRITE)
  obtain c' where c': "rbind (cancel_read (fc_events d) ?c (io_sched io)) (\<lambda>(c, s). cancel_write (fc_events d) c s)
        = Inr (c', enqueue (event_tasks (fc_events d) ?c) (io_sched io))"
      "fc_events c' = 0" "fc_fd c' = fc_fd d"
    using cancel_fires [OF sch, of "io_sched io"] unfolding fired_events [OF oe] by auto
  have "io_inv reg (put_ctx fd c' (io\<lparr>io_epoll := k, io_sched := enqueue (event_tasks (fc_events d) ?c) (io_sched io)\<rparr>))"
    using inv fd dd(2) m(2) c'(2,3) by (intro io_inv_put) (simp_all add: ctx_ok_def only_events_closed(3))
  moreover have "cancelAllEvent ctl fd io = Inr (True, put_ctx fd c' (io\<lparr>io_epoll := k, io_sched := enqueue (event_tasks (fc_events d) ?c) (io_sched io)\<rparr>))"
    using k m(1) d fd False c'(1) by (auto simp: cancelAllEvent_def NONE_def Let_def rbind_assoc_pair)
  moreover have "event_tasks (fc_events d) ?c = event_tasks (fc_events d) d" by (simp add: event_tasks_def)
  ultimately show ?thesis using False by (simp add: put_ctx_def)
qed

lemma handle_event_ok:
  assumes c: "epoll_contract ctl reg" and inv: "io_inv reg io" and i: "i < length (io_ctxs io)" and d: "ctx_at (int i) io = Inr d"
  shows "\<exists>io'. handle_event ctl events i io = Inr io' \<and> io_inv reg io' \<and>
    io_sched io' = enqueue (event_tasks (real_event events AND fc_events d) d) (io_sched io) \<and>
    ctx_at (int i) io' = Inr (d\<lparr>fc_events := fc_events d AND NOT (real_event events)\<rparr>)"
proof -
  have dd: "ctx_ok d" "fc_fd d = i" "reg (io_epoll io) (int i) = wanted (fc_events d)"
    using io_inv_ctx [OF inv, of "int i"] i d by auto
  let ?ev = "real_event events AND fc_events d"
  let ?n = "fc_events d AND NOT ?ev"
  have oe: "only_events ?ev" using only_events_closed(2) [OF only_events_and] .
  obtain rt k where k: "ctl (if ?n \<noteq> 0 then EPOLL_CTL_MOD else EPOLL_CTL_DEL) (int i) (?n OR EPOLLET) (io_epoll io) = (rt, k)" by fastforce
  have p: "?n \<noteq> 0 \<longrightarrow> fc_events d \<noteq> 0" by auto
  have m: "reg k = (reg (io_epoll io))(int i := wanted ?n)" using epoll_less [OF c dd(3) p k] by blast
  have sch: "ec_sch (fc_read d) \<or> \<not> bit ?ev 0" "ec_sch (fc_write d) \<or> \<not> bit ?ev 2"
    using dd(1) by (auto simp: ctx_ok_def and_READ and_WRITE bit_and_iff)
  let ?d = "d\<lparr>fc_events := ?n\<rparr>"
  have fire: "rbind (if ?ev AND READ \<noteq> 0 then triggerEvent READ d (io_sched io) else Inr (d, io_sched io)) (\<lambda>(c, s).
          if ?ev AND WRITE \<noteq> 0 then triggerEvent WRITE c s else Inr (c, s)) = Inr (?d, enqueue (event_tasks ?ev d) (io_sched io))"
    using sch triggerEvent_ok [of d "io_sched io"] triggerEvent_ok(2) [of "d\<lparr>fc_events := fc_events d AND NOT READ\<rparr>"]
      fired_events [OF oe, of "fc_events d", symmetric]
    unfolding and_READ and_WRITE by (cases "bit ?ev 0"; cases "bit ?ev 2") (simp_all add: event_tasks_def)
  have n: "?n = fc_events d AND NOT (real_event events)"
    by (rule bit_word_eqI) (auto simp: bit_and_iff bit_not_iff bit_or_iff)
  have "ctx_ok ?d" using dd(1) only_events_closed(2) [of "fc_events d"] by (auto simp: ctx_ok_def and_READ and_WRITE bit_and_iff)
  then have "io_inv reg (put_ctx (int i) ?d (io\<lparr>io_epoll := k, io_sched := enqueue (event_tasks ?ev d) (io_sched io)\<rparr>))"
    using inv i dd(2) m by (intro io_inv_put) simp_all
  moreover have "handle_event ctl events i io = Inr (put_ctx (int i) ?d (io\<lparr>io_epoll := k, io_sched := enqueue (event_tasks ?ev d) (io_sched io)\<rparr>))"
    unfolding handle_event_def rbind_assoc_pair d rbind_Inr dd(2) Let_def k prod.case fire by simp
  ultimately show ?thesis using i n by (auto simp: put_ctx_def ctx_at_def)
qed

section \<open>Properties\<close>

lemma single_event: "only_events READ" "only_events WRITE" "READ \<noteq> 0" "WRITE \<noteq> 0" "real_event READ = READ" "real_event WRITE = WRITE"
  by (auto simp: only_events_bits READ_WRITE_bits) (simp_all add: real_event_def event_bits Let_def)

lemma io_inv_new:
  assumes "\<forall>fd. reg k fd = None"
  shows "io_inv reg (new_IOManager tm k)"
proof -
  have eq: "new_IOManager tm k = \<lparr>io_sched = new_Scheduler, io_timers = tm, io_ctxs = [], io_epoll = k\<rparr>
      \<lparr>io_ctxs := map (\<lambda>i. Some (new_FdContext i)) [0..<96]\<rparr>"
    unfolding new_IOManager_def resizeFdContext_def by simp
  show ?thesis unfolding eq using assms by (intro io_inv_map) (simp_all add: new_FdContext_ok)
qed

text \<open>A kernel that keeps the contract.\<close>

definition toy_epoll :: "(int \<Rightarrow> u32 option) epoll" where
  "toy_epoll op fd ev k =
     (case op of
        EPOLL_CTL_ADD \<Rightarrow> if k fd = None then (0, k(fd \<mapsto> ev)) else (- 1, k)
      | EPOLL_CTL_MOD \<Rightarrow> if k fd \<noteq> None then (0, k(fd \<mapsto> ev)) else (- 1, k)
      | EPOLL_CTL_DEL \<Rightarrow> if k fd \<noteq> None then (0, k(fd := None)) else (- 1, k))"

lemma toy_epoll_contract: "epoll_contract toy_epoll (\<lambda>k. k)"
  by (auto simp: epoll_contract_def toy_epoll_def)


definition toy_io :: "(nat, int \<Rightarrow> u32 option) iom" where
  "toy_io = new_IOManager (new_TimerManager 0 0 0) (\<lambda>_. None)"

lemma toy_io_inv: "io_inv (\<lambda>k. k) toy_io"
  unfolding toy_io_def by (rule io_inv_new) simp

lemma toy_io_simps: "length (io_ctxs toy_io) = 96" "sc_queue (io_sched toy_io) = []"
  by (simp_all add: toy_io_def new_IOManager_def resizeFdContext_def new_Scheduler_def)


text \<open>
  C17. An event wakes its waiter exactly once. After \<^verbatim>\<open>addEvent\<close> the next event of the kernel for it puts one task into the
  queue: the callback or, without one, the fiber that added it; a second event of the kernel puts none, and
  neither does a cancellation after it. A cancellation that comes first puts the same task there.
\<close>

theorem io_event_once:
  assumes c: "epoll_contract ctl reg" and inv: "io_inv reg io" and fd: "0 \<le> fd" and ev: "event = READ \<or> event = WRITE"
    and add: "addEvent ctl t fd event cb io = Inr (r, io1)"
  defines "tasks \<equiv> ctx_tasks \<lparr>ec_sch = True, ec_cb = cb, ec_fiber = fb_cur (sc_fibers (io_sched io)) t\<rparr>"
  shows "\<exists>io2 io3 io4. handle_event ctl event (nat fd) io1 = Inr io2 \<and> sc_queue (io_sched io2) = sc_queue (io_sched io) @ tasks \<and>
    handle_event ctl event (nat fd) io2 = Inr io3 \<and> sc_queue (io_sched io3) = sc_queue (io_sched io2) \<and>
    cancelEvent ctl fd event io2 = Inr (False, io2) \<and>
    cancelEvent ctl fd event io1 = Inr (True, io4) \<and> sc_queue (io_sched io4) = sc_queue (io_sched io) @ tasks"
proof -
  have e: "only_events event" "event \<noteq> 0" and real: "real_event event = event" using ev single_event by auto
  let ?e = "\<lparr>ec_sch = True, ec_cb = cb, ec_fiber = fb_cur (sc_fibers (io_sched io)) t\<rparr>"
  from addEvent_ok [OF c inv e(1) fd e(2), of t cb] add obtain d0 where
    io1: "io_inv reg io1" "io_sched io1 = io_sched io"
      "ctx_at fd io1 = Inr (d0\<lparr>fc_read := (if bit event 0 then ?e else fc_read d0), fc_write := (if bit event 2 then ?e else fc_write d0),
        fc_events := fc_events d0 OR event\<rparr>)" by (auto simp: Let_def)
  then obtain d where d: "ctx_at fd io1 = Inr d" "bit event 0 \<Longrightarrow> fc_read d = ?e" "bit event 2 \<Longrightarrow> fc_write d = ?e" "fc_events d = fc_events d0 OR event"
    by auto
  have n: "int (nat fd) = fd" "nat fd < length (io_ctxs io1)" using d(1) fd by (auto simp: ctx_at_def split: if_splits)
  have sub: "event AND fc_events d = event" unfolding d(4) by (rule bit_word_eqI) (auto simp: bit_and_iff bit_or_iff)
  have tasks: "event_tasks event d = tasks" using ev d(2,3) by (auto simp: event_tasks_def tasks_def READ_WRITE_bits)
  obtain io2 where io2: "handle_event ctl event (nat fd) io1 = Inr io2" "io_inv reg io2" "io_sched io2 = enqueue tasks (io_sched io1)"
      "ctx_at fd io2 = Inr (d\<lparr>fc_events := fc_events d AND NOT event\<rparr>)"
    using handle_event_ok [OF c io1(1) n(2), of d event] d(1) n(1) real sub tasks by auto
  have n2: "nat fd < length (io_ctxs io2)" using io2(4) by (auto simp: ctx_at_def split: if_splits)
  have gone: "event AND (fc_events d AND NOT event) = 0" by (rule bit_word_eqI) (auto simp: bit_and_iff bit_not_iff)
  let ?d = "d\<lparr>fc_events := fc_events d AND NOT event\<rparr>"
  have d2: "ctx_at (int (nat fd)) io2 = Inr ?d" using io2(4) n(1) by simp
  have none: "event_tasks (real_event event AND fc_events ?d) ?d = []" using gone by (simp add: real event_tasks_def)
  obtain io3 where io3: "handle_event ctl event (nat fd) io2 = Inr io3" "io_sched io3 = enqueue [] (io_sched io2)"
    using handle_event_ok [OF c io2(2) n2 d2, of event] unfolding none by blast
  have gone2: "(fc_events d AND NOT event) AND event = 0" using gone by (simp only: and.commute)
  have "\<not> int (length (io_ctxs io2)) < fd" "\<not> fd < 0" using n(1) n2 fd by linarith+
  then have "cancelEvent ctl fd event io2 = Inr (False, io2)"
    unfolding cancelEvent_def NONE_def io2(4) rbind_Inr Let_def using e(2) gone2 by simp
  moreover obtain io4 where "cancelEvent ctl fd event io1 = Inr (True, io4)" "io_sched io4 = enqueue tasks (io_sched io1)"
    using cancelEvent_ok [OF c io1(1) fd _ d(1) sub e(2)] n tasks by auto
  ultimately show ?thesis using io2(1,3) io3 io1(2) by auto
qed

lemma io_event_once_witness:
  "\<exists>io1 io2. addEvent toy_epoll 1 5 READ (Some 7) toy_io = Inr (0, io1) \<and> handle_event toy_epoll READ (nat 5) io1 = Inr io2 \<and>
     sc_queue (io_sched io2) = [\<lparr>tk_fiber = None, tk_cb = Some 7, tk_thread = - 1\<rparr>]"
proof -
  obtain io1 where io1: "addEvent toy_epoll 1 5 READ (Some 7) toy_io = Inr (0, io1)"
    using addEvent_ok [OF toy_epoll_contract toy_io_inv single_event(1) _ single_event(3), of 5 1 "Some 7"] by auto
  have "(0 :: int) \<le> 5" by simp
  from io_event_once [OF toy_epoll_contract toy_io_inv this disjI1 [OF refl] io1]
  obtain io2 where io2: "handle_event toy_epoll READ (nat 5) io1 = Inr io2"
      "sc_queue (io_sched io2) = sc_queue (io_sched toy_io) @
        ctx_tasks \<lparr>ec_sch = True, ec_cb = Some 7, ec_fiber = fb_cur (sc_fibers (io_sched toy_io)) 1\<rparr>"
    by - (elim exE conjE, rule that, assumption+)
  have "sc_queue (io_sched io2) = [\<lparr>tk_fiber = None, tk_cb = Some 7, tk_thread = - 1\<rparr>]"
    using io2(2) unfolding toy_io_simps(2) by (simp add: ctx_tasks_def)
  then show ?thesis using io1 io2(1) by blast
qed

text \<open>The wait of the idle function is bounded.\<close>

lemma idle_timeout_bound: "idle_timeout now tm \<le> 5000"
  by (simp add: idle_timeout_def)

end
