(* ===== verification/Hook.thy ===== *)
theory Hook imports IOManager FdManager begin

text \<open>
  The hooked system calls (\<^verbatim>\<open>seaice/hook.cpp\<close>): a call on a socket that would block registers an event, yields the
  fiber and tries again when it is resumed. The original calls, the clock and what the rest of the
  process does between a yield and the resumption of the fiber are parameters (\<open>he_resume\<close>); the I/O manager, its timers, the
  table of descriptors and \<^verbatim>\<open>errno\<close> are the state.
\<close>

section \<open>State\<close>

text \<open>The callbacks that the hooks give to timers, among those of other clients.\<close>

datatype 'u hook_cb =
    CancelOn nat int u32
  | ResumeFiber nat
  | UserCb 'u

record ('u, 'k) hworld =
  hw_io :: "('u hook_cb, 'k) iom"
  hw_fds :: fd_table
  hw_tinfo :: "nat \<Rightarrow> int option"
  hw_next :: nat
  hw_errno :: int

record ('u, 'k) hook_env =
  he_enabled :: bool
  he_thread :: int
  he_sys :: "'k fd_sys"
  he_epoll :: "'k epoll"
  he_now :: "('u, 'k) hworld \<Rightarrow> nat"
  he_resume :: "('u, 'k) hworld \<Rightarrow> ('u, 'k) hworld"

type_synonym ('u, 'k) syscall = "('u, 'k) hworld \<Rightarrow> int \<times> ('u, 'k) hworld"

definition EINTR :: int where "EINTR = 4"
definition EBADF :: int where "EBADF = 9"
definition EAGAIN :: int where "EAGAIN = 11"
definition ETIMEDOUT :: int where "ETIMEDOUT = 110"
definition EINPROGRESS :: int where "EINPROGRESS = 115"

lemmas errno_simps = EINTR_def EBADF_def EAGAIN_def ETIMEDOUT_def EINPROGRESS_def

text \<open>What the callbacks do when the scheduler runs them; \<open>CancelOn\<close> holds its record weakly.\<close>

definition run_hook_cb :: "('u, 'k) hook_env \<Rightarrow> 'u hook_cb \<Rightarrow> ('u, 'k) hworld \<Rightarrow> fault + ('u, 'k) hworld" where
  "run_hook_cb env cb w =
     (case cb of
        CancelOn ti fd event \<Rightarrow>
          (case hw_tinfo w ti of
             None \<Rightarrow> Inr w
           | Some cancelled \<Rightarrow>
               if cancelled \<noteq> 0 then Inr w
               else rbind (cancelEvent (he_epoll env) fd event (hw_io w)) (\<lambda>(_, io).
                 Inr (w\<lparr>hw_tinfo := (hw_tinfo w)(ti \<mapsto> ETIMEDOUT), hw_io := io\<rparr>)))
      | ResumeFiber f \<Rightarrow>
          Inr (w\<lparr>hw_io := (hw_io w)\<lparr>io_sched := snd (schedule \<lparr>tk_fiber = Some f, tk_cb = None, tk_thread = - 1\<rparr> (io_sched (hw_io w)))\<rparr>\<rparr>)
      | UserCb u \<Rightarrow> Inr w)"

section \<open>Input and output\<close>

definition hook_addTimer :: "('u, 'k) hook_env \<Rightarrow> nat \<Rightarrow> 'u hook_cb \<Rightarrow> ('u, 'k) hworld \<Rightarrow> fault + nat \<times> ('u, 'k) hworld" where
  "hook_addTimer env ms cb w =
     (let a = hw_next w; io = hw_io w in
      rbind (addTimer ms (Some cb) False (he_now env w) a (io_timers io)) (\<lambda>tm.
        Inr (a, w\<lparr>hw_io := io\<lparr>io_timers := tm\<rparr>, hw_next := Suc a\<rparr>)))"

definition hook_cancelTimer :: "nat option \<Rightarrow> ('u, 'k) hworld \<Rightarrow> ('u, 'k) hworld" where
  "hook_cancelTimer timer w =
     (case timer of None \<Rightarrow> w | Some a \<Rightarrow> w\<lparr>hw_io := (hw_io w)\<lparr>io_timers := cancelTimer a (io_timers (hw_io w))\<rparr>\<rparr>)"

text \<open>A try, repeated while it is interrupted.\<close>

partial_function (option) io_try :: "('u, 'k) syscall \<Rightarrow> ('u, 'k) hworld \<Rightarrow> (int \<times> ('u, 'k) hworld) option" where
  "io_try f w = (let (n, w) = f w in if n = - 1 \<and> hw_errno w = EINTR then io_try f w else Some (n, w))"

declare io_try.simps [code]

text \<open>
  The wait for the event: a timer when there is a timeout, the event, the yield. \<open>None\<close> asks for another try;
  otherwise it is the result of the whole call.
\<close>

definition io_wait :: "('u, 'k) hook_env \<Rightarrow> int \<Rightarrow> u32 \<Rightarrow> u64 \<Rightarrow> nat \<Rightarrow> ('u, 'k) hworld \<Rightarrow> fault + int option \<times> ('u, 'k) hworld" where
  "io_wait env fd event to ti w =
     rbind (if to \<noteq> - 1 then rbind (hook_addTimer env (unat to) (CancelOn ti fd event) w) (\<lambda>(a, w). Inr (Some a, w))
            else Inr (None, w)) (\<lambda>(timer, w).
     rbind (addEvent (he_epoll env) (he_thread env) fd event None (hw_io w)) (\<lambda>(rt, io).
       let w = w\<lparr>hw_io := io\<rparr> in
       if rt \<noteq> 0 then Inr (Some (- 1), hook_cancelTimer timer w)
       else
         let w = hook_cancelTimer timer (he_resume env w) in
         case hw_tinfo w ti of
           Some cancelled \<Rightarrow>
             if cancelled \<noteq> 0 then Inr (Some (- 1), w\<lparr>hw_errno := cancelled\<rparr>) else Inr (None, w)
         | None \<Rightarrow> Inl NullDeref))"

partial_function (option) io_retry :: "('u, 'k) hook_env \<Rightarrow> ('u, 'k) syscall \<Rightarrow> int \<Rightarrow> u32 \<Rightarrow> u64 \<Rightarrow> nat \<Rightarrow> ('u, 'k) hworld \<Rightarrow>
    (fault + int \<times> ('u, 'k) hworld) option" where
  "io_retry env f fd event to ti w =
     (case io_try f w of
        None \<Rightarrow> None
      | Some (n, w) \<Rightarrow>
          if n = - 1 \<and> hw_errno w = EAGAIN then
            (case io_wait env fd event to ti w of
               Inl e \<Rightarrow> Some (Inl e)
             | Inr (Some n, w) \<Rightarrow> Some (Inr (n, w))
             | Inr (None, w) \<Rightarrow> io_retry env f fd event to ti w)
          else Some (Inr (n, w)))"

declare io_retry.simps [code]

definition hook_get :: "('u, 'k) hook_env \<Rightarrow> int \<Rightarrow> bool \<Rightarrow> ('u, 'k) hworld \<Rightarrow> fault + fd_info option \<times> ('u, 'k) hworld" where
  "hook_get env fd create w =
     rbind (fm_get (he_sys env) fd create (hw_fds w) (io_epoll (hw_io w))) (\<lambda>(c, m, k).
       Inr (c, w\<lparr>hw_fds := m, hw_io := (hw_io w)\<lparr>io_epoll := k\<rparr>\<rparr>))"

definition do_io :: "('u, 'k) hook_env \<Rightarrow> int \<Rightarrow> ('u, 'k) syscall \<Rightarrow> u32 \<Rightarrow> int \<Rightarrow> ('u, 'k) hworld \<Rightarrow>
    (fault + int \<times> ('u, 'k) hworld) option" where
  "do_io env fd f event timeout_so w =
     (if \<not> he_enabled env then Some (Inr (f w))
      else case hook_get env fd False w of
        Inl e \<Rightarrow> Some (Inl e)
      | Inr (None, w) \<Rightarrow> Some (Inr (f w))
      | Inr (Some ctx, w) \<Rightarrow>
          if fx_isClosed ctx then Some (Inr (- 1, w\<lparr>hw_errno := EBADF\<rparr>))
          else if \<not> fx_isSocket ctx \<or> fx_userNonBlock ctx then Some (Inr (f w))
          else
            let to = getTimeout timeout_so ctx; ti = hw_next w;
                w = w\<lparr>hw_tinfo := (hw_tinfo w)(ti \<mapsto> 0), hw_next := Suc ti\<rparr> in
            case io_retry env f fd event to ti w of
              None \<Rightarrow> None
            | Some (Inl e) \<Rightarrow> Some (Inl e)
            | Some (Inr (n, w)) \<Rightarrow> Some (Inr (n, w\<lparr>hw_tinfo := (hw_tinfo w)(ti := None)\<rparr>)))"

section \<open>The other hooks\<close>

text \<open>The product is one of unsigned 32-bit integers.\<close>

definition sleep_ms :: "('u, 'k) hook_env \<Rightarrow> nat \<Rightarrow> ('u, 'k) hworld \<Rightarrow> fault + ('u, 'k) hworld" where
  "sleep_ms env ms w =
     (case fb_cur (sc_fibers (io_sched (hw_io w))) (he_thread env) of
        None \<Rightarrow> Inl NullDeref
      | Some f \<Rightarrow> rbind (hook_addTimer env ms (ResumeFiber f) w) (\<lambda>(_, w). Inr (he_resume env w)))"

definition hook_sleep :: "('u, 'k) hook_env \<Rightarrow> ('u, 'k) syscall \<Rightarrow> u32 \<Rightarrow> ('u, 'k) hworld \<Rightarrow> fault + int \<times> ('u, 'k) hworld" where
  "hook_sleep env f seconds w =
     (if \<not> he_enabled env then Inr (f w) else rbind (sleep_ms env (unat (seconds * 1000)) w) (\<lambda>w. Inr (0, w)))"

definition hook_usleep :: "('u, 'k) hook_env \<Rightarrow> ('u, 'k) syscall \<Rightarrow> u32 \<Rightarrow> ('u, 'k) hworld \<Rightarrow> fault + int \<times> ('u, 'k) hworld" where
  "hook_usleep env f usec w =
     (if \<not> he_enabled env then Inr (f w)
      else if usec \<le> 0 then Inr (0, w)
      else rbind (sleep_ms env (unat (usec div 1000)) w) (\<lambda>w. Inr (0, w)))"

definition hook_socket :: "('u, 'k) hook_env \<Rightarrow> ('u, 'k) syscall \<Rightarrow> ('u, 'k) hworld \<Rightarrow> fault + int \<times> ('u, 'k) hworld" where
  "hook_socket env f w =
     (let (fd, w) = f w in
      if \<not> he_enabled env then Inr (fd, w)
      else if fd = - 1 then Inr (fd, w)
      else rbind (hook_get env fd True w) (\<lambda>(_, w). Inr (fd, w)))"

definition hook_accept :: "('u, 'k) hook_env \<Rightarrow> int \<Rightarrow> ('u, 'k) syscall \<Rightarrow> ('u, 'k) hworld \<Rightarrow> (fault + int \<times> ('u, 'k) hworld) option" where
  "hook_accept env sockfd f w =
     map_option (\<lambda>r. rbind r (\<lambda>(fd, w). if fd \<ge> 0 then rbind (hook_get env fd True w) (\<lambda>(_, w). Inr (fd, w)) else Inr (fd, w)))
       (do_io env sockfd f READ SO_RCVTIMEO w)"

definition hook_close :: "('u, 'k) hook_env \<Rightarrow> int \<Rightarrow> ('u, 'k) syscall \<Rightarrow> ('u, 'k) hworld \<Rightarrow> fault + int \<times> ('u, 'k) hworld" where
  "hook_close env fd f w =
     (if \<not> he_enabled env then Inr (f w)
      else rbind (hook_get env fd False w) (\<lambda>(ctx, w).
        case ctx of
          None \<Rightarrow> Inr (f w)
        | Some ctx \<Rightarrow>
            rbind (cancelAllEvent (he_epoll env) fd (hw_io w)) (\<lambda>(_, io).
            rbind (fm_del fd (hw_fds w)) (\<lambda>m. Inr (f (w\<lparr>hw_io := io, hw_fds := m\<rparr>))))))"

definition put_fd :: "int \<Rightarrow> fd_info \<Rightarrow> ('u, 'k) hworld \<Rightarrow> ('u, 'k) hworld" where
  "put_fd fd c w = w\<lparr>hw_fds := (hw_fds w)[nat fd := Some c]\<rparr>"

text \<open>The flags that a caller sees and sets: its own wish, not the kernel's state.\<close>

definition fcntl_getfl :: "('u, 'k) hook_env \<Rightarrow> int \<Rightarrow> ('u, 'k) hworld \<Rightarrow> fault + u32 \<times> ('u, 'k) hworld" where
  "fcntl_getfl env fd w =
     (let arg = sys_getfl (he_sys env) fd (io_epoll (hw_io w)) in
      if \<not> he_enabled env then Inr (arg, w)
      else rbind (hook_get env fd False w) (\<lambda>(ctx, w).
        case ctx of
          None \<Rightarrow> Inr (arg, w)
        | Some ctx \<Rightarrow>
            if fx_isClosed ctx \<or> \<not> fx_isSocket ctx then Inr (arg, w)
            else if fx_userNonBlock ctx then Inr (arg OR O_NONBLOCK, w) else Inr (arg AND NOT O_NONBLOCK, w)))"

definition setfl :: "('u, 'k) hook_env \<Rightarrow> int \<Rightarrow> u32 \<Rightarrow> ('u, 'k) hworld \<Rightarrow> ('u, 'k) hworld" where
  "setfl env fd arg w = w\<lparr>hw_io := (hw_io w)\<lparr>io_epoll := sys_setfl (he_sys env) fd arg (io_epoll (hw_io w))\<rparr>\<rparr>"

definition fcntl_setfl :: "('u, 'k) hook_env \<Rightarrow> int \<Rightarrow> u32 \<Rightarrow> ('u, 'k) hworld \<Rightarrow> fault + ('u, 'k) hworld" where
  "fcntl_setfl env fd arg w =
     (if \<not> he_enabled env then Inr (setfl env fd arg w)
      else rbind (hook_get env fd False w) (\<lambda>(ctx, w).
        case ctx of
          None \<Rightarrow> Inr (setfl env fd arg w)
        | Some ctx \<Rightarrow>
            if fx_isClosed ctx \<or> \<not> fx_isSocket ctx then Inr (setfl env fd arg w)
            else
              let ctx = ctx\<lparr>fx_userNonBlock := (arg AND O_NONBLOCK \<noteq> 0)\<rparr>;
                  arg = (if fx_sysNonBlock ctx then arg OR O_NONBLOCK else arg AND NOT O_NONBLOCK)
              in Inr (setfl env fd arg (put_fd fd ctx w))))"

text \<open>\<^verbatim>\<open>FIONBIO\<close>: the wish is noted and then handed to the kernel unchanged, as \<open>f\<close> does.\<close>

definition ioctl_fionbio :: "('u, 'k) hook_env \<Rightarrow> int \<Rightarrow> bool \<Rightarrow> ('u, 'k) syscall \<Rightarrow> ('u, 'k) hworld \<Rightarrow> fault + int \<times> ('u, 'k) hworld" where
  "ioctl_fionbio env fd user_nonblock f w =
     (if \<not> he_enabled env then Inr (f w)
      else rbind (hook_get env fd False w) (\<lambda>(ctx, w).
        case ctx of
          None \<Rightarrow> Inr (f w)
        | Some ctx \<Rightarrow>
            if fx_isClosed ctx \<or> \<not> fx_isSocket ctx then Inr (f w)
            else Inr (f (put_fd fd (ctx\<lparr>fx_userNonBlock := user_nonblock\<rparr>) w))))"

text \<open>The timeouts of \<^verbatim>\<open>setsockopt\<close> at the level of the socket.\<close>

definition setsockopt_timeout :: "('u, 'k) hook_env \<Rightarrow> int \<Rightarrow> int \<Rightarrow> u64 \<Rightarrow> u64 \<Rightarrow> ('u, 'k) syscall \<Rightarrow> ('u, 'k) hworld \<Rightarrow> fault + int \<times> ('u, 'k) hworld" where
  "setsockopt_timeout env sockfd optname tv_sec tv_usec f w =
     (if \<not> he_enabled env then Inr (f w)
      else if optname = SO_RCVTIMEO \<or> optname = SO_SNDTIMEO then
        rbind (hook_get env sockfd False w) (\<lambda>(ctx, w).
          case ctx of
            None \<Rightarrow> Inr (f w)
          | Some ctx \<Rightarrow> Inr (f (put_fd sockfd (setTimeout optname (tv_sec * 1000 + tv_usec div 1000) ctx) w)))
      else Inr (f w))"

text \<open>\<open>so_error\<close> is \<^verbatim>\<open>getsockopt(SO_ERROR)\<close>: \<open>None\<close> when it fails.\<close>

definition connect_with_timeout ::
  "('u, 'k) hook_env \<Rightarrow> int \<Rightarrow> ('u, 'k) syscall \<Rightarrow> (('u, 'k) hworld \<Rightarrow> int option) \<Rightarrow> u64 \<Rightarrow> ('u, 'k) hworld \<Rightarrow>
     fault + int \<times> ('u, 'k) hworld" where
  "connect_with_timeout env fd f so_error timeout_ms w =
     (if \<not> he_enabled env then Inr (f w)
      else rbind (hook_get env fd False w) (\<lambda>(ctx, w).
        case ctx of
          None \<Rightarrow> Inr (- 1, w\<lparr>hw_errno := EBADF\<rparr>)
        | Some ctx \<Rightarrow>
            if fx_isClosed ctx then Inr (- 1, w\<lparr>hw_errno := EBADF\<rparr>)
            else if \<not> fx_isSocket ctx then Inr (f w)
            else
              let (n, w) = f w in
              if n = 0 then Inr (0, w)
              else if n \<noteq> - 1 \<or> hw_errno w \<noteq> EINPROGRESS then Inr (n, w)
              else
                let ti = hw_next w; w = w\<lparr>hw_tinfo := (hw_tinfo w)(ti \<mapsto> 0), hw_next := Suc ti\<rparr>;
                    done = (\<lambda>(n, w). Inr (n, w\<lparr>hw_tinfo := (hw_tinfo w)(ti := None)\<rparr>));
                    check = (\<lambda>w. case so_error w of
                               None \<Rightarrow> done (- 1, w)
                             | Some err \<Rightarrow> if err \<noteq> 0 then done (- 1, w\<lparr>hw_errno := err\<rparr>) else done (0, w)) in
                rbind (io_wait env fd WRITE timeout_ms ti w) (\<lambda>(r, w).
                  case r of
                    None \<Rightarrow> check w
                  | Some n \<Rightarrow> if hw_tinfo w ti = Some 0 then check w else done (n, w))))"

section \<open>Lemmas\<close>

lemma addEvent_rt: "addEvent ctl t fd event cb io = Inr (rt, io') \<Longrightarrow> event \<noteq> 0 \<Longrightarrow> 0 \<le> fd \<Longrightarrow> rt = 0"
  by (auto simp: addEvent_def NONE_def Let_def split_beta rbind_eq_Inr split: if_splits)

lemma io_try_done: "io_try f w = Some (n, w') \<Longrightarrow> \<not> (n = - 1 \<and> hw_errno w' = EINTR)"
proof -
  assume *: "io_try f w = Some (n, w')"
  have "\<not> (fst (n, w') = - 1 \<and> hw_errno (snd (n, w')) = EINTR)"
  proof (rule io_try.raw_induct [where P = "\<lambda>f w r. \<not> (fst r = - 1 \<and> hw_errno (snd r) = EINTR)", OF _ *], goal_cases)
    case (1 rec f w r)
    obtain n w1 where fw: "f w = (n, w1)" by fastforce
    then show ?case using 1(2) 1(1) [of f w1 r] by (cases "n = - 1 \<and> hw_errno w1 = EINTR") (auto simp: fw)
  qed
  then show ?thesis by simp
qed

text \<open>The calls leave the records of the waits alone, and so does a try.\<close>

lemma io_try_tinfo:
  assumes "\<And>w. hw_tinfo (snd (f w)) = hw_tinfo w"
  shows "io_try f w = Some (n, w') \<Longrightarrow> hw_tinfo w' = hw_tinfo w"
proof -
  assume *: "io_try f w = Some (n, w')"
  have "(\<forall>w. hw_tinfo (snd (f w)) = hw_tinfo w) \<longrightarrow> hw_tinfo (snd (n, w')) = hw_tinfo w"
  proof (rule io_try.raw_induct [where P = "\<lambda>f w r. (\<forall>w. hw_tinfo (snd (f w)) = hw_tinfo w) \<longrightarrow> hw_tinfo (snd r) = hw_tinfo w", OF _ *], goal_cases)
    case (1 rec f w r)
    show ?case
    proof
      assume f: "\<forall>w. hw_tinfo (snd (f w)) = hw_tinfo w"
      obtain n w1 where fw: "f w = (n, w1)" by fastforce
      then have "hw_tinfo w1 = hw_tinfo w" using f by (metis snd_conv)
      then show "hw_tinfo (snd r) = hw_tinfo w" using fw 1(2) 1(1) [of f w1 r] f by (auto split: if_splits)
    qed
  qed
  then show ?thesis using assms by simp
qed

text \<open>What the hooks rely on: the rest of the process ends a wait only through its timer.\<close>

definition resumes_well :: "('u, 'k) hook_env \<Rightarrow> bool" where
  "resumes_well env \<longleftrightarrow> (\<forall>w ti. hw_tinfo w ti = Some 0 \<longrightarrow> hw_tinfo (he_resume env w) ti \<in> {Some 0, Some ETIMEDOUT})"

lemma hook_cancelTimer_tinfo [simp]: "hw_tinfo (hook_cancelTimer timer w) = hw_tinfo w"
  by (simp add: hook_cancelTimer_def split: option.split)

lemma hook_addTimer_tinfo: "hook_addTimer env ms cb w = Inr (a, w') \<Longrightarrow> hw_tinfo w' = hw_tinfo w"
  by (auto simp: hook_addTimer_def Let_def rbind_eq_Inr)

lemma io_wait_result:
  assumes "resumes_well env" and "hw_tinfo w ti = Some 0" and "event \<noteq> 0" and "0 \<le> fd" and "io_wait env fd event to ti w = Inr (r, w')"
  shows "case r of None \<Rightarrow> hw_tinfo w' ti = Some 0 | Some n \<Rightarrow> n = - 1 \<and> hw_errno w' = ETIMEDOUT"
proof -
  let ?t = "if to \<noteq> - 1 then rbind (hook_addTimer env (unat to) (CancelOn ti fd event) w) (\<lambda>(a, w). Inr (Some a, w)) else Inr (None, w)"
  obtain timer w1 where 1: "?t = Inr (timer, w1)" using assms(5) unfolding io_wait_def by (cases ?t) auto
  have "hw_tinfo w1 ti = Some 0"
    using 1 assms(2) hook_addTimer_tinfo [of env "unat to" "CancelOn ti fd event" w] by (auto simp: rbind_eq_Inr split: if_splits)
  obtain rt io where 2: "addEvent (he_epoll env) (he_thread env) fd event None (hw_io w1) = Inr (rt, io)"
    using assms(5) unfolding io_wait_def 1 by (auto simp: rbind_eq_Inr)
  have "rt = 0" using addEvent_rt [OF 2 assms(3,4)] .
  moreover have "hw_tinfo (he_resume env (w1\<lparr>hw_io := io\<rparr>)) ti \<in> {Some 0, Some ETIMEDOUT}"
    using assms(1) \<open>hw_tinfo w1 ti = Some 0\<close> unfolding resumes_well_def by simp
  ultimately show ?thesis using assms(5) unfolding io_wait_def 1 by (auto simp: 2 Let_def errno_simps)
qed

lemma io_retry_result:
  fixes env :: "('u, 'k) hook_env" and w :: "('u, 'k) hworld"
  assumes env: "resumes_well env" and f: "\<And>w. hw_tinfo (snd (f w)) = hw_tinfo w" and ev: "event \<noteq> 0" "0 \<le> fd"
    and r: "io_retry env f fd event to ti w = Some (Inr (n, w'))" and ti: "hw_tinfo w ti = Some 0"
  shows "\<not> (n = - 1 \<and> hw_errno w' \<in> {EAGAIN, EINTR})"
proof -
  define Q :: "('u, 'k) hook_env \<Rightarrow> ('u, 'k) syscall \<Rightarrow> int \<Rightarrow> u32 \<Rightarrow> u64 \<Rightarrow> nat \<Rightarrow> ('u, 'k) hworld \<Rightarrow> fault + int \<times> ('u, 'k) hworld \<Rightarrow> bool" where "Q = (\<lambda>env f fd event to ti w r.
      resumes_well env \<and> (\<forall>w. hw_tinfo (snd (f w)) = hw_tinfo w) \<and> event \<noteq> 0 \<and> 0 \<le> fd \<and> hw_tinfo w ti = Some 0 \<longrightarrow>
      (\<forall>n w'. r = Inr (n, w') \<longrightarrow> \<not> (n = - 1 \<and> hw_errno w' \<in> {EAGAIN, EINTR})))"
  have "Q env f fd event to ti w (Inr (n, w'))"
  proof (rule io_retry.raw_induct [where P = Q, OF _ r], goal_cases)
    case (1 rec env f fd event to ti w r)
    show ?case unfolding Q_def
    proof (intro impI allI, elim conjE)
      fix n w'
      assume env: "resumes_well env" and f: "\<forall>w. hw_tinfo (snd (f w)) = hw_tinfo w" and ev: "event \<noteq> 0" "0 \<le> fd"
        and ti: "hw_tinfo w ti = Some 0" and r: "r = Inr (n, w')"
      obtain n1 w1 where 2: "io_try f w = Some (n1, w1)" using 1(2) by (auto split: option.splits)
      note t = io_try_done [OF 2] and ti1 = io_try_tinfo [OF f [rule_format] 2]
      show "\<not> (n = - 1 \<and> hw_errno w' \<in> {EAGAIN, EINTR})"
      proof (cases "n1 = - 1 \<and> hw_errno w1 = EAGAIN")
        case False
        then show ?thesis using 1(2) 2 t r by auto
      next
        case True
        then obtain r2 w2 where 3: "io_wait env fd event to ti w1 = Inr (r2, w2)" using 1(2) 2 r by (auto split: sum.splits)
        note x = io_wait_result [OF env _ ev 3, unfolded ti1, OF ti]
        show ?thesis
        proof (cases r2)
          case None
          then have "rec env f fd event to ti w2 = Some r" using 1(2) 2 3 True by simp
          from 1(1) [OF this] show ?thesis using env f ev x None r unfolding Q_def by auto
        next
          case (Some m)
          then show ?thesis using 1(2) 2 3 True x r by (auto simp: errno_simps)
        qed
      qed
    qed
  qed
  then show ?thesis using env f ev ti unfolding Q_def by blast
qed

section \<open>When a call returns\<close>

text \<open>The call gets an answer, in the end, from the kernel or from a wait that gives up.\<close>

inductive io_ready :: "('u, 'k) hook_env \<Rightarrow> ('u, 'k) syscall \<Rightarrow> int \<Rightarrow> u32 \<Rightarrow> u64 \<Rightarrow> nat \<Rightarrow> ('u, 'k) hworld \<Rightarrow> bool"
  for env f fd event to ti where
  answers: "f w = (n, w') \<Longrightarrow> n \<noteq> - 1 \<or> hw_errno w' \<notin> {EAGAIN, EINTR} \<Longrightarrow> io_ready env f fd event to ti w"
| interrupted: "f w = (- 1, w') \<Longrightarrow> hw_errno w' = EINTR \<Longrightarrow> io_ready env f fd event to ti w' \<Longrightarrow> io_ready env f fd event to ti w"
| again: "f w = (- 1, w') \<Longrightarrow> hw_errno w' = EAGAIN \<Longrightarrow> io_wait env fd event to ti w' = Inr (None, w'') \<Longrightarrow>
    io_ready env f fd event to ti w'' \<Longrightarrow> io_ready env f fd event to ti w"
| gives_up: "f w = (- 1, w') \<Longrightarrow> hw_errno w' = EAGAIN \<Longrightarrow> \<forall>w''. io_wait env fd event to ti w' \<noteq> Inr (None, w'') \<Longrightarrow>
    io_ready env f fd event to ti w"

lemma io_ready_returns: "io_ready env f fd event to ti w \<Longrightarrow> io_retry env f fd event to ti w \<noteq> None"
proof (induction rule: io_ready.induct)
  case (answers w n w')
  then have "io_try f w = Some (n, w')" by (subst io_try.simps) auto
  then show ?case using answers by (subst io_retry.simps) auto
next
  case (interrupted w w')
  then have "io_try f w = io_try f w'" by (subst io_try.simps) simp
  then have "io_retry env f fd event to ti w = io_retry env f fd event to ti w'"
    by (subst (1 2) io_retry.simps) simp
  then show ?case using interrupted by simp
next
  case (again w w' w'')
  then have "io_try f w = Some (- 1, w')" by (subst io_try.simps) (auto simp: errno_simps)
  then show ?case using again by (subst io_retry.simps) simp
next
  case (gives_up w w')
  then have t: "io_try f w = Some (- 1, w')" by (subst io_try.simps) (auto simp: errno_simps)
  show ?case
    by (subst io_retry.simps) (use t gives_up in \<open>auto split: sum.splits option.splits\<close>)
qed

lemma io_try_ready:
  assumes "io_try f w = Some (n, w1)" and "\<And>w0. f w0 = (n, w1) \<Longrightarrow> io_ready env f fd event to ti w0"
  shows "io_ready env f fd event to ti w"
proof -
  have "(\<forall>w0. f w0 = (n, w1) \<longrightarrow> io_ready env f fd event to ti w0) \<longrightarrow> io_ready env f fd event to ti w"
  proof (rule io_try.raw_induct [where P = "\<lambda>f w r. (\<forall>w0. f w0 = r \<longrightarrow> io_ready env f fd event to ti w0) \<longrightarrow> io_ready env f fd event to ti w", OF _ assms(1)], goal_cases)
    case (1 rec f w r)
    obtain n w1 where fw: "f w = (n, w1)" by fastforce
    show ?case
    proof (cases "n = - 1 \<and> hw_errno w1 = EINTR")
      case True
      then show ?thesis using 1(1) [of f w1 r] 1(2) fw by (auto intro: io_ready.interrupted)
    next
      case False
      then show ?thesis using 1(2) fw by auto
    qed
  qed
  then show ?thesis using assms(2) by blast
qed

lemma io_retry_ready:
  fixes env :: "('u, 'k) hook_env" and w :: "('u, 'k) hworld"
  assumes "io_retry env f fd event to ti w = Some r"
  shows "io_ready env f fd event to ti w"
proof (rule io_retry.raw_induct [where P = "\<lambda>env f fd event to ti w r. io_ready env f fd event to ti w", OF _ assms], goal_cases)
  case (1 rec env f fd event to ti w r)
  obtain n w1 where t: "io_try f w = Some (n, w1)" using 1(2) by (auto split: option.splits)
  note fin = io_try_done [OF t]
  show ?case
  proof (rule io_try_ready [OF t])
    fix w0 assume w0: "f w0 = (n, w1)"
    show "io_ready env f fd event to ti w0"
    proof (cases "n = - 1 \<and> hw_errno w1 = EAGAIN")
      case False
      then show ?thesis using fin w0 by (intro io_ready.answers) auto
    next
      case True
      show ?thesis
      proof (cases "\<exists>w''. io_wait env fd event to ti w1 = Inr (None, w'')")
        case False
        then show ?thesis using w0 True by (intro io_ready.gives_up) auto
      next
        case again: True
        then obtain w'' where w'': "io_wait env fd event to ti w1 = Inr (None, w'')" by blast
        then have "rec env f fd event to ti w'' = Some r" using 1(2) t True by simp
        from 1(1) [OF this] have "io_ready env f fd event to ti w''" .
        with w'' show ?thesis using w0 True by (intro io_ready.again [of f w0 w1]) simp_all
      qed
    qed
  qed
qed

section \<open>Properties\<close>

lemma hook_get_there:
  assumes "0 \<le> fd" and "nat fd < length (hw_fds w)" and "hw_fds w ! nat fd = Some ctx"
  shows "hook_get env fd create w = Inr (Some ctx, w)"
proof -
  have "\<not> int (length (hw_fds w)) < fd" "\<not> int (length (hw_fds w)) \<le> fd" using assms by linarith+
  then show ?thesis using assms by (simp add: hook_get_def fm_get_def)
qed

text \<open>
  C15. A hooked call on a socket that its user did not make non-blocking behaves like a blocking one: whatever the kernel
  answers and whatever happens while the fiber waits, it never returns with \<^verbatim>\<open>EAGAIN\<close> or \<^verbatim>\<open>EINTR\<close>; and it returns
  exactly when the kernel answers in the end, or a wait ends by its timeout.
\<close>

theorem hooked_io_blocks:
  assumes "he_enabled env" and "resumes_well env" and "\<And>w. hw_tinfo (snd (f w)) = hw_tinfo w" and "event = READ \<or> event = WRITE"
    and "0 \<le> fd" and "nat fd < length (hw_fds w)" and "hw_fds w ! nat fd = Some ctx"
    and "fx_isSocket ctx" and "\<not> fx_isClosed ctx" and "\<not> fx_userNonBlock ctx"
  shows "(\<forall>n w'. do_io env fd f event so w = Some (Inr (n, w')) \<longrightarrow> \<not> (n = - 1 \<and> hw_errno w' \<in> {EAGAIN, EINTR})) \<and>
    (do_io env fd f event so w \<noteq> None \<longleftrightarrow>
      io_ready env f fd event (getTimeout so ctx) (hw_next w) (w\<lparr>hw_tinfo := (hw_tinfo w)(hw_next w \<mapsto> 0), hw_next := Suc (hw_next w)\<rparr>))"
proof -
  let ?ti = "hw_next w" and ?w = "w\<lparr>hw_tinfo := (hw_tinfo w)(hw_next w \<mapsto> 0), hw_next := Suc (hw_next w)\<rparr>"
  let ?r = "io_retry env f fd event (getTimeout so ctx) ?ti ?w"
  have d: "do_io env fd f event so w =
      (case ?r of None \<Rightarrow> None | Some (Inl e) \<Rightarrow> Some (Inl e)
       | Some (Inr (n, w)) \<Rightarrow> Some (Inr (n, w\<lparr>hw_tinfo := (hw_tinfo w)(?ti := None)\<rparr>)))"
    using assms by (simp add: do_io_def hook_get_there Let_def)
  have ev: "event \<noteq> 0" using assms(4) single_event by auto
  have ti: "hw_tinfo ?w ?ti = Some 0" by simp
  show ?thesis
  proof (intro conjI allI impI)
    fix n w' assume "do_io env fd f event so w = Some (Inr (n, w'))"
    then obtain w2 where "?r = Some (Inr (n, w2))" "hw_errno w' = hw_errno w2" unfolding d by (auto split: option.splits sum.splits)
    with io_retry_result [OF assms(2,3) ev assms(5) _ ti] show "\<not> (n = - 1 \<and> hw_errno w' \<in> {EAGAIN, EINTR})" by simp
  next
    have "do_io env fd f event so w \<noteq> None \<longleftrightarrow> ?r \<noteq> None" unfolding d by (auto split: option.splits sum.splits)
    also have "\<dots> \<longleftrightarrow> io_ready env f fd event (getTimeout so ctx) ?ti ?w"
      using io_ready_returns io_retry_ready by (metis option.exhaust)
    finally show "do_io env fd f event so w \<noteq> None \<longleftrightarrow> io_ready env f fd event (getTimeout so ctx) ?ti ?w" .
  qed
qed

definition toy_env :: "(nat, int \<Rightarrow> u32 option) hook_env" where
  "toy_env = \<lparr>he_enabled = True, he_thread = 1,
     he_sys = \<lparr>sys_fstat = (\<lambda>_ _. Some True), sys_getfl = (\<lambda>_ _. O_NONBLOCK), sys_setfl = (\<lambda>_ _ k. k)\<rparr>,
     he_epoll = toy_epoll, he_now = (\<lambda>_. 0), he_resume = (\<lambda>w. w)\<rparr>"

definition toy_world :: "(nat, int \<Rightarrow> u32 option) hworld" where
  "toy_world = \<lparr>hw_io = new_IOManager (new_TimerManager 0 0 0) (\<lambda>_. None),
     hw_fds = new_FdManager[5 := Some (fst (new_FdCtx (he_sys toy_env) 5 (\<lambda>_. None)))],
     hw_tinfo = (\<lambda>_. None), hw_next = 1, hw_errno = 0\<rparr>"

text \<open>A read that is interrupted once and then delivers three bytes.\<close>

definition toy_read :: "(nat, int \<Rightarrow> u32 option) syscall" where
  "toy_read w = (if hw_errno w = 0 then (- 1, w\<lparr>hw_errno := EINTR\<rparr>) else (3, w))"

lemma hooked_io_blocks_witness: "do_io toy_env 5 toy_read READ SO_RCVTIMEO toy_world \<noteq> None"
proof -
  have ctx: "hw_fds toy_world ! nat 5 = Some (fst (new_FdCtx (he_sys toy_env) 5 (\<lambda>_. None)))" "nat 5 < length (hw_fds toy_world)"
    by (simp_all add: toy_world_def new_FdManager_def)
  have env: "he_enabled toy_env" "resumes_well toy_env" by (auto simp: toy_env_def resumes_well_def)
  have sock: "fx_isSocket (fst (new_FdCtx (he_sys toy_env) 5 (\<lambda>_. None)))" by (simp add: new_FdCtx_facts toy_env_def)
  let ?w = "toy_world\<lparr>hw_tinfo := (hw_tinfo toy_world)(hw_next toy_world \<mapsto> 0), hw_next := Suc (hw_next toy_world)\<rparr>"
  have "toy_read ?w = (- 1, ?w\<lparr>hw_errno := EINTR\<rparr>)" by (simp add: toy_read_def toy_world_def)
  then have "io_ready toy_env toy_read 5 READ to (hw_next toy_world) ?w" for to
    by (rule io_ready.interrupted) (auto intro!: io_ready.answers simp: toy_read_def errno_simps)
  then show ?thesis
    using hooked_io_blocks [OF env _ _ _ ctx(2,1) sock, where f = toy_read and event = READ and so = SO_RCVTIMEO]
    by (simp add: new_FdCtx_facts toy_read_def)
qed

text \<open>
  The flags of a socket are its user's: what \<^verbatim>\<open>F_SETFL\<close> sets of \<^verbatim>\<open>O_NONBLOCK\<close> is what \<^verbatim>\<open>F_GETFL\<close> shows, and the call
  decides by it whether to wait, while the kernel keeps the socket non-blocking. \<^verbatim>\<open>FIONBIO\<close>, though, hands the wish to the kernel as well: cleared with a
  call that does what it says, the kernel's flag is gone, and the next call blocks the thread.
\<close>

theorem user_flags:
  assumes "he_enabled env" and "0 \<le> fd" and "nat fd < length (hw_fds w)" and "hw_fds w ! nat fd = Some ctx"
    and "fx_isSocket ctx" and "\<not> fx_isClosed ctx" and "fx_sysNonBlock ctx"
    and "\<And>fl k. sys_getfl (he_sys env) fd (sys_setfl (he_sys env) fd fl k) = fl"
  shows "\<exists>w' fl ctx'. fcntl_setfl env fd arg w = Inr w' \<and> fcntl_getfl env fd w' = Inr (fl, w') \<and>
    (fl AND O_NONBLOCK = arg AND O_NONBLOCK) \<and> sys_getfl (he_sys env) fd (io_epoll (hw_io w')) = arg OR O_NONBLOCK \<and>
    hw_fds w' ! nat fd = Some ctx' \<and> fx_userNonBlock ctx' = (arg AND O_NONBLOCK \<noteq> 0) \<and>
    (\<exists>w''. ioctl_fionbio env fd False (\<lambda>w. (0, setfl env fd (arg AND NOT O_NONBLOCK) w)) w = Inr (0, w'') \<and>
       sys_getfl (he_sys env) fd (io_epoll (hw_io w'')) AND O_NONBLOCK = 0)"
proof -
  let ?c = "ctx\<lparr>fx_userNonBlock := (arg AND O_NONBLOCK \<noteq> 0)\<rparr>"
  let ?w = "setfl env fd (arg OR O_NONBLOCK) (put_fd fd ?c w)"
  have s: "fcntl_setfl env fd arg w = Inr ?w" using assms by (simp add: fcntl_setfl_def hook_get_there Let_def)
  have fds: "hw_fds ?w ! nat fd = Some ?c" "nat fd < length (hw_fds ?w)" using assms(3) by (simp_all add: setfl_def put_fd_def)
  have k: "sys_getfl (he_sys env) fd (io_epoll (hw_io ?w)) = arg OR O_NONBLOCK" using assms(8) by (simp add: setfl_def put_fd_def)
  define fl where "fl = (if arg AND O_NONBLOCK \<noteq> 0 then (arg OR O_NONBLOCK) OR O_NONBLOCK else (arg OR O_NONBLOCK) AND NOT O_NONBLOCK)"
  have "fcntl_getfl env fd ?w = Inr (fl, ?w)"
    using assms(1,2,5,6) k hook_get_there [OF assms(2) fds(2,1)] by (simp add: fcntl_getfl_def fl_def Let_def)
  moreover have "fl AND O_NONBLOCK = arg AND O_NONBLOCK"
  proof (cases "arg AND O_NONBLOCK = 0")
    case True
    then show ?thesis by (simp add: fl_def and.assoc)
  next
    case False
    have o: "O_NONBLOCK = push_bit 11 1" by (simp add: O_NONBLOCK_def)
    have b: "bit O_NONBLOCK n \<longleftrightarrow> n = 11" for n unfolding o by (auto simp: bit_push_bit_iff bit_1_iff simp del: push_bit_of_1)
    have "bit arg 11" using False bit_iff_and_push_bit_not_eq_0 [of arg 11] by (simp add: O_NONBLOCK_def)
    then show ?thesis using False b
      by (intro bit_word_eqI) (auto simp: fl_def bit_and_iff bit_or_iff)
  qed
  moreover have "\<exists>w''. ioctl_fionbio env fd False (\<lambda>w. (0, setfl env fd (arg AND NOT O_NONBLOCK) w)) w = Inr (0, w'') \<and>
       sys_getfl (he_sys env) fd (io_epoll (hw_io w'')) AND O_NONBLOCK = 0"
    using assms by (simp add: ioctl_fionbio_def hook_get_there setfl_def and.assoc)
  ultimately show ?thesis using s fds k by auto
qed

definition flag_env :: "(nat, u32) hook_env" where
  "flag_env = \<lparr>he_enabled = True, he_thread = 1, he_sys = toy_sys, he_epoll = (\<lambda>_ _ _ k. (0, k)), he_now = (\<lambda>_. 0), he_resume = (\<lambda>w. w)\<rparr>"

definition flag_world :: "(nat, u32) hworld" where
  "flag_world = \<lparr>hw_io = new_IOManager (new_TimerManager 0 0 0) 0, hw_fds = new_FdManager[5 := Some (fst (new_FdCtx toy_sys 5 0))],
     hw_tinfo = (\<lambda>_. None), hw_next = 1, hw_errno = 0\<rparr>"

lemma user_flags_witness:
  "\<exists>w' fl. fcntl_setfl flag_env 5 O_NONBLOCK flag_world = Inr w' \<and> fcntl_getfl flag_env 5 w' = Inr (fl, w') \<and> fl AND O_NONBLOCK = O_NONBLOCK"
proof -
  have "hw_fds flag_world ! nat 5 = Some (fst (new_FdCtx toy_sys 5 0))" "nat 5 < length (hw_fds flag_world)"
    by (simp_all add: flag_world_def new_FdManager_def)
  then show ?thesis
    using user_flags [of flag_env 5 flag_world "fst (new_FdCtx toy_sys 5 0)" O_NONBLOCK]
    by (auto simp: flag_env_def new_FdCtx_facts toy_sys_def)
qed

end
