(* ===== verification/Worker.thy ===== *)
theory Worker imports FiberSemaphore Env begin

text \<open>
  Workers (\<^verbatim>\<open>seaice/worker.h\<close>, \<^verbatim>\<open>seaice/worker.cpp\<close>): the manager of the named schedulers, and the group that bounds the
  number of jobs in flight by a semaphore for fibers. The steps of a group are those of the fibers that use it and of the
  scheduler that runs the jobs, in any order.
\<close>

section \<open>The manager\<close>

text \<open>A scheduler of the manager, with its name and its number of threads; the constructor does not start it.\<close>

record worker =
  w_name :: string
  w_threads :: int
  w_started :: bool

record worker_mgr =
  wm_datas :: "(string \<times> worker list) list"
  wm_stop :: bool

definition new_WorkerManager :: worker_mgr where
  "new_WorkerManager = \<lparr>wm_datas = [], wm_stop = False\<rparr>"

definition wm_add :: "worker \<Rightarrow> worker_mgr \<Rightarrow> worker_mgr" where
  "wm_add s m =
     m\<lparr>wm_datas := (case map_of (wm_datas m) (w_name s) of
         None \<Rightarrow> tree_insert key_less (w_name s, [s]) (wm_datas m)
       | Some l \<Rightarrow> AList.update (w_name s) (l @ [s]) (wm_datas m))\<rparr>"

text \<open>\<open>r\<close> is the number that \<^verbatim>\<open>rand()\<close> gives.\<close>

definition wm_get :: "nat \<Rightarrow> string \<Rightarrow> worker_mgr \<Rightarrow> fault + worker option" where
  "wm_get r name m =
     (case map_of (wm_datas m) name of
        None \<Rightarrow> Inr None
      | Some l \<Rightarrow>
          if length l = 1 then Inr (Some (l ! 0))
          else if l = [] then Inl DivByZero else Inr (Some (l ! (r mod length l))))"

text \<open>The workers of one entry of the configuration; the test for a single worker is one for none.\<close>

fun new_workers :: "string \<Rightarrow> int \<Rightarrow> int \<Rightarrow> nat \<Rightarrow> worker list" where
  "new_workers name thread_num worker_num 0 = []"
| "new_workers name thread_num worker_num (Suc i) =
     new_workers name thread_num worker_num i @
       [\<lparr>w_name = (if worker_num = 0 then name else name @ ''_'' @ dec i), w_threads = thread_num, w_started = False\<rparr>]"

definition wm_init_entry :: "(string \<Rightarrow> int option) \<Rightarrow> string \<times> (string \<times> string) list \<Rightarrow> worker_mgr \<Rightarrow> worker_mgr" where
  "wm_init_entry cast it m =
     (let name = fst it;
          thread_num = getParamValue cast (snd it) ''thread_num'' 1;
          worker_num = getParamValue cast (snd it) ''worker_num'' 1 in
      fold wm_add (new_workers name thread_num worker_num (nat worker_num)) m)"

definition wm_init :: "(string \<Rightarrow> int option) \<Rightarrow> (string \<times> (string \<times> string) list) list \<Rightarrow> worker_mgr \<Rightarrow> bool \<times> worker_mgr" where
  "wm_init cast v m = (let m = fold (wm_init_entry cast) v m in (True, m\<lparr>wm_stop := (wm_datas m = [])\<rparr>))"

text \<open>The answer of \<open>stop\<close> is the list of the schedulers that get an empty task and are stopped.\<close>

definition wm_stop_all :: "worker_mgr \<Rightarrow> worker list \<times> worker_mgr" where
  "wm_stop_all m =
     (if wm_stop m then ([], m) else (concat (map snd (wm_datas m)), m\<lparr>wm_datas := [], wm_stop := True\<rparr>))"

definition wm_getCount :: "worker_mgr \<Rightarrow> nat" where
  "wm_getCount m = length (wm_datas m)"

section \<open>Groups\<close>

text \<open>What a fiber does once it has passed the semaphore.\<close>

datatype 'job waiting = Submit 'job | Await

text \<open>
  A group: its fields, the fibers that wait with what they do next, those that were woken but did not run yet, the jobs that were given to
  the scheduler, the jobs that run and those that ended; how many units \<open>waitAll\<close> has taken and still needs, and whether it returned
  from its loop.
\<close>

record 'job group =
  wg_batchSize :: nat
  wg_finish :: bool
  wg_sem :: fiber_sem
  wg_waiting :: "(nat \<times> 'job waiting) list"
  wg_woken :: "nat list"
  wg_queue :: "'job list"
  wg_running :: "'job list"
  wg_ended :: "'job list"
  wg_held :: nat
  wg_need :: nat
  wg_drained :: bool

definition new_WorkerGroup :: "nat \<Rightarrow> 'job group" where
  "new_WorkerGroup batch_size =
     \<lparr>wg_batchSize = batch_size, wg_finish = False, wg_sem = new_FiberSemaphore batch_size, wg_waiting = [], wg_woken = [], wg_queue = [],
      wg_running = [], wg_ended = [], wg_held = 0, wg_need = 0, wg_drained = False\<rparr>"

definition enter :: "nat \<Rightarrow> fiber_sem \<Rightarrow> bool \<times> fiber_sem" where
  "enter f fs = (case sem_wait True f fs of Inr r \<Rightarrow> r | Inl e \<Rightarrow> (False, fs))"

definition wg_schedule :: "nat \<Rightarrow> 'job \<Rightarrow> 'job group \<Rightarrow> 'job group" where
  "wg_schedule f job g =
     (case enter f (wg_sem g) of
        (True, fs) \<Rightarrow> g\<lparr>wg_sem := fs, wg_waiting := (f, Submit job) # wg_waiting g\<rparr>
      | (False, fs) \<Rightarrow> g\<lparr>wg_sem := fs, wg_queue := wg_queue g @ [job]\<rparr>)"

text \<open>The loop of \<open>waitAll\<close> over the units it still needs, up to the first wait that blocks.\<close>

fun wait_loop :: "nat \<Rightarrow> nat \<Rightarrow> 'job group \<Rightarrow> 'job group" where
  "wait_loop f 0 g = g\<lparr>wg_need := 0, wg_drained := True\<rparr>"
| "wait_loop f (Suc n) g =
     (case enter f (wg_sem g) of
        (True, fs) \<Rightarrow> g\<lparr>wg_sem := fs, wg_need := Suc n, wg_waiting := (f, Await) # wg_waiting g\<rparr>
      | (False, fs) \<Rightarrow> wait_loop f n (g\<lparr>wg_sem := fs, wg_held := Suc (wg_held g)\<rparr>))"

definition wg_waitAll :: "nat \<Rightarrow> 'job group \<Rightarrow> 'job group" where
  "wg_waitAll f g = (if wg_finish g then g else wait_loop f (wg_batchSize g) (g\<lparr>wg_finish := True\<rparr>))"

text \<open>A job starts; it ends and notifies, which hands the first waiting fiber to the scheduler; a woken fiber goes on.\<close>

definition wg_start :: "'job \<Rightarrow> 'job group \<Rightarrow> 'job group" where
  "wg_start job g = g\<lparr>wg_queue := remove1 job (wg_queue g), wg_running := wg_running g @ [job]\<rparr>"

definition wg_doWork_end :: "'job \<Rightarrow> 'job group \<Rightarrow> 'job group" where
  "wg_doWork_end job g =
     g\<lparr>wg_running := remove1 job (wg_running g), wg_ended := wg_ended g @ [job],
       wg_sem := fst (sem_notify (wg_sem g) (new_Scheduler :: nat sched)), wg_woken := wg_woken g @ take 1 (fs_list (wg_sem g))\<rparr>"

definition wg_resume :: "nat \<Rightarrow> 'job group \<Rightarrow> 'job group" where
  "wg_resume f g =
     (let g' = g\<lparr>wg_woken := remove1 f (wg_woken g), wg_waiting := map_erase f (wg_waiting g)\<rparr> in
      case map_of (wg_waiting g) f of
        None \<Rightarrow> g'
      | Some (Submit job) \<Rightarrow> g'\<lparr>wg_queue := wg_queue g @ [job]\<rparr>
      | Some Await \<Rightarrow> wait_loop f (wg_need g - 1) (g'\<lparr>wg_held := Suc (wg_held g)\<rparr>))"

text \<open>A fiber calls an operation only when it does not wait itself.\<close>

inductive wg_step :: "'job group \<Rightarrow> 'job group \<Rightarrow> bool" where
  schedule: "f \<notin> fst ` set (wg_waiting g) \<Longrightarrow> wg_step g (wg_schedule f job g)"
| waitAll: "f \<notin> fst ` set (wg_waiting g) \<Longrightarrow> wg_step g (wg_waitAll f g)"
| start: "job \<in> set (wg_queue g) \<Longrightarrow> wg_step g (wg_start job g)"
| finish: "job \<in> set (wg_running g) \<Longrightarrow> wg_step g (wg_doWork_end job g)"
| resume: "f \<in> set (wg_woken g) \<Longrightarrow> wg_step g (wg_resume f g)"

inductive wg_reach :: "nat \<Rightarrow> 'job group \<Rightarrow> bool" for n where
  init: "wg_reach n (new_WorkerGroup n)"
| step: "wg_reach n g \<Longrightarrow> wg_step g g' \<Longrightarrow> wg_reach n g'"

section \<open>Invariant of a group\<close>

lemma enter_simps:
  "fs_num fs > 0 \<Longrightarrow> enter f fs = (False, fs\<lparr>fs_num := fs_num fs - 1\<rparr>)"
  "fs_num fs = 0 \<Longrightarrow> enter f fs = (True, fs\<lparr>fs_list := fs_list fs @ [f]\<rparr>)"
  by (simp_all add: enter_def sem_wait_def)

definition awaits :: "'job group \<Rightarrow> nat" where
  "awaits g = length (filter (\<lambda>p. snd p = Await) (wg_waiting g))"

text \<open>The units of the semaphore are free, held by a job, by the loop of \<open>waitAll\<close> or on their way to a woken fiber.\<close>

definition wg_core :: "nat \<Rightarrow> 'job group \<Rightarrow> bool" where
  "wg_core n g \<longleftrightarrow>
     wg_batchSize g = n \<and> distinct (map fst (wg_waiting g)) \<and>
     fst ` set (wg_waiting g) = set (fs_list (wg_sem g)) \<union> set (wg_woken g) \<and> distinct (fs_list (wg_sem g) @ wg_woken g) \<and>
     fs_num (wg_sem g) + length (wg_queue g) + length (wg_running g) + wg_held g + length (wg_woken g) = n \<and>
     (fs_num (wg_sem g) > 0 \<longrightarrow> fs_list (wg_sem g) = [])"

definition wg_loop_inv :: "nat \<Rightarrow> 'job group \<Rightarrow> bool" where
  "wg_loop_inv n g \<longleftrightarrow>
     (if wg_finish g then wg_held g + wg_need g = n \<and> (if wg_drained g then wg_need g = 0 \<and> awaits g = 0 else wg_need g > 0 \<and> awaits g = 1)
      else wg_held g = 0 \<and> \<not> wg_drained g \<and> awaits g = 0)"

lemma wg_core_new: "wg_core n (new_WorkerGroup n)" "wg_loop_inv n (new_WorkerGroup n)"
  by (simp_all add: wg_core_def wg_loop_inv_def new_WorkerGroup_def new_FiberSemaphore_def awaits_def)

lemma wg_core_block:
  assumes "wg_core n g" "f \<notin> fst ` set (wg_waiting g)" "fs_num (wg_sem g) = 0"
  shows "wg_core n (g\<lparr>wg_sem := (wg_sem g)\<lparr>fs_list := fs_list (wg_sem g) @ [f]\<rparr>, wg_waiting := (f, w) # wg_waiting g\<rparr>)"
  using assms by (auto simp: wg_core_def)

lemma wait_loop_inv:
  assumes "wg_core n g" "f \<notin> fst ` set (wg_waiting g)" "wg_finish g" "wg_held g + m = n" "awaits g = 0" "\<not> wg_drained g"
  shows "wg_core n (wait_loop f m g) \<and> wg_loop_inv n (wait_loop f m g) \<and> wg_finish (wait_loop f m g)"
  using assms
proof (induction m arbitrary: g)
  case 0
  then show ?case by (simp add: wg_core_def wg_loop_inv_def awaits_def)
next
  case (Suc m)
  show ?case
  proof (cases "fs_num (wg_sem g) > 0")
    case True
    let ?g = "g\<lparr>wg_sem := (wg_sem g)\<lparr>fs_num := fs_num (wg_sem g) - 1\<rparr>, wg_held := Suc (wg_held g)\<rparr>"
    have "wg_core n ?g" using Suc.prems(1) True by (auto simp: wg_core_def)
    then have "wg_core n (wait_loop f m ?g) \<and> wg_loop_inv n (wait_loop f m ?g) \<and> wg_finish (wait_loop f m ?g)"
      using Suc.prems by (intro Suc.IH) (auto simp: awaits_def)
    then show ?thesis using enter_simps(1) [OF True, of f] by simp
  next
    case False
    then have 0: "fs_num (wg_sem g) = 0" by simp
    let ?g = "g\<lparr>wg_sem := (wg_sem g)\<lparr>fs_list := fs_list (wg_sem g) @ [f]\<rparr>, wg_waiting := (f, Await) # wg_waiting g\<rparr>"
    have "wg_core n ?g" by (rule wg_core_block [OF Suc.prems(1,2) 0])
    then have "wg_core n (g\<lparr>wg_sem := (wg_sem g)\<lparr>fs_list := fs_list (wg_sem g) @ [f]\<rparr>, wg_need := Suc m, wg_waiting := (f, Await) # wg_waiting g\<rparr>)"
      by (simp add: wg_core_def)
    then show ?thesis using enter_simps(2) [OF 0, of f] Suc.prems by (simp add: wg_loop_inv_def awaits_def)
  qed
qed

lemma wg_schedule_inv:
  assumes "wg_core n g" "wg_loop_inv n g" "f \<notin> fst ` set (wg_waiting g)"
  shows "wg_core n (wg_schedule f job g) \<and> wg_loop_inv n (wg_schedule f job g)"
proof (cases "fs_num (wg_sem g) > 0")
  case True
  then have "wg_loop_inv n (wg_schedule f job g) = wg_loop_inv n g"
    using enter_simps(1) [OF True, of f] by (simp add: wg_schedule_def wg_loop_inv_def awaits_def)
  moreover have "wg_core n (wg_schedule f job g)" using assms(1) True enter_simps(1) [OF True, of f] by (auto simp: wg_schedule_def wg_core_def)
  ultimately show ?thesis using assms(2) by simp
next
  case False
  then have 0: "fs_num (wg_sem g) = 0" by simp
  have "wg_loop_inv n (wg_schedule f job g) = wg_loop_inv n g"
    using enter_simps(2) [OF 0, of f] by (simp add: wg_schedule_def wg_loop_inv_def awaits_def)
  moreover have "wg_core n (wg_schedule f job g)" using wg_core_block [OF assms(1,3) 0] enter_simps(2) [OF 0, of f] by (simp add: wg_schedule_def)
  ultimately show ?thesis using assms(2) by simp
qed

lemma length_remove1_in: "x \<in> set xs \<Longrightarrow> Suc (length (remove1 x xs)) = length xs"
  by (simp add: length_remove1) (metis Suc_pred length_pos_if_in_set)

lemma wg_start_inv:
  assumes "wg_core n g" "wg_loop_inv n g" "job \<in> set (wg_queue g)"
  shows "wg_core n (wg_start job g) \<and> wg_loop_inv n (wg_start job g)"
proof
  show "wg_core n (wg_start job g)" using assms(1) length_remove1_in [OF assms(3)] by (simp add: wg_core_def wg_start_def)
  have "wg_loop_inv n (wg_start job g) = wg_loop_inv n g" by (simp add: wg_loop_inv_def wg_start_def awaits_def)
  then show "wg_loop_inv n (wg_start job g)" using assms(2) by simp
qed

lemma wg_end_inv:
  assumes "wg_core n g" "wg_loop_inv n g" "job \<in> set (wg_running g)"
  shows "wg_core n (wg_doWork_end job g) \<and> wg_loop_inv n (wg_doWork_end job g)"
proof
  show "wg_core n (wg_doWork_end job g)" using assms(1) length_remove1_in [OF assms(3)]
    by (cases "fs_list (wg_sem g)") (auto simp: wg_core_def wg_doWork_end_def sem_notify_def)
  have "wg_loop_inv n (wg_doWork_end job g) = wg_loop_inv n g" by (simp add: wg_loop_inv_def wg_doWork_end_def awaits_def)
  then show "wg_loop_inv n (wg_doWork_end job g)" using assms(2) by simp
qed

lemma awaits_erase:
  assumes "distinct (map fst ws)" "map_of ws f = Some w"
  shows "length (filter (\<lambda>p. snd p = Await) (map_erase f ws)) = length (filter (\<lambda>p. snd p = Await) ws) - (if w = Await then 1 else 0)"
  using assms
proof (induction ws)
  case (Cons p ws)
  have "map_erase f ws = ws" if "fst p = f"
    using that Cons.prems(1) by (auto simp: map_erase_def filter_id_conv image_iff)
  moreover have "map_of ws f = Some w \<Longrightarrow> w = Await \<Longrightarrow> length (filter (\<lambda>p. snd p = Await) ws) > 0"
    by (force dest!: map_of_SomeD simp: filter_empty_conv)
  ultimately show ?case using Cons by (cases p) (auto simp: map_erase_def split: if_splits)
qed simp

lemma wg_resume_inv:
  assumes "wg_core n g" "wg_loop_inv n g" "f \<in> set (wg_woken g)"
  shows "wg_core n (wg_resume f g) \<and> wg_loop_inv n (wg_resume f g)"
proof -
  have keys: "distinct (map fst (wg_waiting g))" and d: "distinct (wg_woken g)" using assms(1) by (simp_all add: wg_core_def)
  have "f \<in> fst ` set (wg_waiting g)" using assms(1,3) by (auto simp: wg_core_def)
  then obtain w where w: "map_of (wg_waiting g) f = Some w" by (metis map_of_eq_None_iff option.exhaust)
  let ?g = "g\<lparr>wg_woken := remove1 f (wg_woken g), wg_waiting := map_erase f (wg_waiting g)\<rparr>"
  have len: "Suc (length (remove1 f (wg_woken g))) = length (wg_woken g)" by (rule length_remove1_in [OF assms(3)])
  have sets: "fst ` {p \<in> set (wg_waiting g). fst p \<noteq> f} = set (fs_list (wg_sem g)) \<union> set (remove1 f (wg_woken g))"
  proof -
    have "fst ` {p \<in> set (wg_waiting g). fst p \<noteq> f} = fst ` set (wg_waiting g) - {f}" by auto
    moreover have "f \<notin> set (fs_list (wg_sem g))" using assms(1,3) by (auto simp: wg_core_def)
    ultimately show ?thesis using assms(1) d by (auto simp: wg_core_def)
  qed
  have aw: "awaits ?g = awaits g - (if w = Await then 1 else 0)" using awaits_erase [OF keys w] by (simp add: awaits_def)
  have dist: "distinct (fs_list (wg_sem g) @ remove1 f (wg_woken g))" using assms(1) by (auto simp: wg_core_def dest: notin_set_remove1 [rotated])
  show ?thesis
  proof (cases w)
    case (Submit job)
    then have "wg_core n (?g\<lparr>wg_queue := wg_queue g @ [job]\<rparr>)" using assms(1) keys sets dist len by (simp add: wg_core_def)
    moreover have "awaits (?g\<lparr>wg_queue := wg_queue g @ [job]\<rparr>) = awaits g" using aw Submit by (simp add: awaits_def)
    then have "wg_loop_inv n (?g\<lparr>wg_queue := wg_queue g @ [job]\<rparr>) = wg_loop_inv n g" by (simp add: wg_loop_inv_def)
    ultimately show ?thesis using w Submit assms(2) by (simp add: wg_resume_def)
  next
    case Await
    have "awaits g > 0" using w Await by (force simp: awaits_def filter_empty_conv dest!: map_of_SomeD)
    then have fin: "wg_finish g" "\<not> wg_drained g" "wg_held g + wg_need g = n" "wg_need g > 0" "awaits g = 1"
      using assms(2) by (auto simp: wg_loop_inv_def split: if_splits)
    let ?h = "?g\<lparr>wg_held := Suc (wg_held g)\<rparr>"
    have "wg_core n ?h" using assms(1) keys sets dist len by (simp add: wg_core_def)
    moreover have "f \<notin> fst ` set (wg_waiting ?h)" by auto
    moreover have "awaits ?h = 0" using aw fin(5) Await by (simp add: awaits_def)
    ultimately have "wg_core n (wait_loop f (wg_need g - 1) ?h) \<and> wg_loop_inv n (wait_loop f (wg_need g - 1) ?h)"
      using wait_loop_inv [of n ?h f "wg_need g - 1"] fin by simp
    then show ?thesis using w Await by (simp add: wg_resume_def)
  qed
qed

lemma wg_reach_inv: "wg_reach n g \<Longrightarrow> wg_core n g \<and> wg_loop_inv n g"
proof (induction rule: wg_reach.induct)
  case init
  show ?case using wg_core_new by blast
next
  case (step g g')
  from step.hyps(2) show ?case
  proof cases
    case (schedule f job)
    then show ?thesis using wg_schedule_inv [of n g f job] step.IH by blast
  next
    case (waitAll f)
    show ?thesis
    proof (cases "wg_finish g")
      case True
      then show ?thesis using waitAll step.IH by (simp add: wg_waitAll_def)
    next
      case False
      have "wg_core n (g\<lparr>wg_finish := True\<rparr>)" "wg_batchSize g = n" using step.IH by (simp_all add: wg_core_def)
      then show ?thesis using wait_loop_inv [of n "g\<lparr>wg_finish := True\<rparr>" f n] step.IH False waitAll
        by (auto simp: wg_waitAll_def wg_loop_inv_def awaits_def)
    qed
  next
    case (start job)
    then show ?thesis using wg_start_inv [of n g job] step.IH by blast
  next
    case (finish job)
    then show ?thesis using wg_end_inv [of n g job] step.IH by blast
  next
    case (resume f)
    then show ?thesis using wg_resume_inv [of n g f] step.IH by blast
  qed
qed

section \<open>Properties\<close>

text \<open>Jobs that are in the hands of the scheduler.\<close>

definition in_flight :: "'job group \<Rightarrow> nat" where
  "in_flight g = length (wg_queue g) + length (wg_running g)"



section \<open>The names of the workers\<close>

lemma dec_inj: "dec m = dec n \<longleftrightarrow> m = n"
  by (metis read_dec option.inject)

text \<open>The name of a worker ends behind its last underscore.\<close>

lemma worker_name_inj:
  "name @ ''_'' @ dec i = name' @ ''_'' @ dec j \<longleftrightarrow> name = name' \<and> i = j"
proof
  assume e: "name @ ''_'' @ dec i = name' @ ''_'' @ dec j"
  have no: "CHR ''_'' \<notin> set (dec k)" for k using dec_digits [of k] by auto
  have tw: "takeWhile (\<lambda>c. c \<noteq> CHR ''_'') (rev (dec k) @ CHR ''_'' # r) = rev (dec k)" for k r
    by (rule takeWhile_prefix) (use no in auto)
  have "rev (dec i) @ CHR ''_'' # rev name = rev (dec j) @ CHR ''_'' # rev name'" using arg_cong [OF e, of rev] by simp
  then have "rev (dec i) = rev (dec j)" using tw by metis
  then show "name = name' \<and> i = j" using e by (simp add: dec_inj)
qed simp

definition entry_num :: "(string \<Rightarrow> int option) \<Rightarrow> (string \<times> string) list \<Rightarrow> nat" where
  "entry_num cast ps = nat (getParamValue cast ps ''worker_num'' 1)"

lemma new_workers_names:
  "n \<le> nat k \<Longrightarrow> new_workers name t k n = map (\<lambda>i. \<lparr>w_name = name @ ''_'' @ dec i, w_threads = t, w_started = False\<rparr>) [0..<n]"
  by (induction n) auto

lemma map_of_tree_insert:
  assumes "map_of m k = None"
  shows "map_of (tree_insert key_less (k, v) m) = (map_of m)(k \<mapsto> v)"
  using assms
proof (induction m)
  case (Cons p m)
  then show ?case
    by (cases p) (auto simp: key_less_def fun_eq_iff split: if_splits dest: str_less_total)
qed simp

lemma map_of_wm_add:
  "map_of (wm_datas (wm_add s m)) = (map_of (wm_datas m))(w_name s \<mapsto> (case map_of (wm_datas m) (w_name s) of None \<Rightarrow> [s] | Some l \<Rightarrow> l @ [s]))"
  by (auto simp: wm_add_def map_of_tree_insert update_conv' split: option.split)

lemma map_of_fold_add:
  assumes "distinct (map w_name ws)" "\<forall>w \<in> set ws. map_of (wm_datas m) (w_name w) = None"
  shows "map_of (wm_datas (fold wm_add ws m)) k =
    (case List.find (\<lambda>w. w_name w = k) ws of Some w \<Rightarrow> Some [w] | None \<Rightarrow> map_of (wm_datas m) k)"
  using assms
proof (induction ws arbitrary: m)
  case (Cons w ws)
  have ne: "w_name v \<noteq> w_name w" if "v \<in> set ws" for v
  proof
    assume "w_name v = w_name w"
    then have "w_name w \<in> w_name ` set ws" using imageI [OF that, of w_name] by simp
    then show False using Cons.prems(1) by simp
  qed
  then have "\<forall>v \<in> set ws. map_of (wm_datas (wm_add w m)) (w_name v) = None" using Cons.prems by (auto simp: map_of_wm_add)
  then have "map_of (wm_datas (fold wm_add ws (wm_add w m))) k =
      (case List.find (\<lambda>w. w_name w = k) ws of Some w \<Rightarrow> Some [w] | None \<Rightarrow> map_of (wm_datas (wm_add w m)) k)"
    using Cons.prems(1) by (intro Cons.IH) simp_all
  moreover have "List.find (\<lambda>v. w_name v = w_name w) ws = None" using ne by (auto simp: find_None_iff)
  ultimately show ?case using Cons.prems by (auto simp: map_of_wm_add split: option.split)
qed simp

definition entry_workers :: "(string \<Rightarrow> int option) \<Rightarrow> string \<times> (string \<times> string) list \<Rightarrow> worker list" where
  "entry_workers cast it =
     map (\<lambda>i. \<lparr>w_name = fst it @ ''_'' @ dec i, w_threads = getParamValue cast (snd it) ''thread_num'' 1, w_started = False\<rparr>)
       [0..<entry_num cast (snd it)]"

lemma wm_init_entries: "fold (wm_init_entry cast) v m = fold wm_add (concat (map (entry_workers cast) v)) m"
  by (induction v arbitrary: m) (simp_all add: wm_init_entry_def entry_workers_def entry_num_def new_workers_names Let_def)

lemma entry_workers_distinct:
  "distinct (map fst v) \<Longrightarrow> distinct (map w_name (concat (map (entry_workers cast) v)))"
proof (induction v)
  case (Cons it v)
  have "distinct (map w_name (entry_workers cast it))" by (simp add: entry_workers_def comp_def distinct_map inj_on_def dec_inj)
  moreover have "w_name x \<noteq> w_name y" if "x \<in> set (entry_workers cast it)" "y \<in> set (concat (map (entry_workers cast) v))" for x y
    using that Cons.prems worker_name_inj by (auto simp: entry_workers_def image_iff)
  ultimately show ?case using Cons by (auto simp: disjoint_iff)
qed simp

lemma entry_workers_names:
  "(\<forall>w \<in> set (concat (map (entry_workers cast) v)). w_name w \<noteq> key) \<longleftrightarrow>
     \<not> (\<exists>name ps j. (name, ps) \<in> set v \<and> j < entry_num cast ps \<and> key = name @ ''_'' @ dec j)"
proof -
  have "w \<in> set (entry_workers cast it) \<and> w_name w = key \<Longrightarrow> \<exists>j < entry_num cast (snd it). key = fst it @ ''_'' @ dec j" for w it
    by (auto simp: entry_workers_def)
  moreover have "\<exists>w \<in> set (entry_workers cast (name, ps)). w_name w = name @ ''_'' @ dec j" if "j < entry_num cast ps" for name ps j
    using that by (auto simp: entry_workers_def)
  ultimately show ?thesis by (fastforce simp del: append_Cons)
qed

text \<open>
  The workers of a configuration. The manager has one worker for each number below the count of an entry, under the name of
  the entry, an underscore and the number, with the threads of the entry, none of them started; and it has no other. So a name in the
  configuration is the name of no worker, also when its count is one, unless another entry ends up with it.
\<close>

theorem workers_of_configuration:
  assumes "distinct (map fst v)" "(name, ps) \<in> set v" "i < entry_num cast ps"
  shows "wm_get r (name @ ''_'' @ dec i) (snd (wm_init cast v new_WorkerManager)) =
      Inr (Some \<lparr>w_name = name @ ''_'' @ dec i, w_threads = getParamValue cast ps ''thread_num'' 1, w_started = False\<rparr>) \<and>
    (wm_get r key (snd (wm_init cast v new_WorkerManager)) = Inr None) =
      (\<not> (\<exists>name' ps' j. (name', ps') \<in> set v \<and> j < entry_num cast ps' \<and> key = name' @ ''_'' @ dec j)) \<and>
    \<not> wm_stop (snd (wm_init cast v new_WorkerManager)) \<and>
    fst (wm_stop_all (snd (wm_stop_all (snd (wm_init cast v new_WorkerManager))))) = []"
proof -
  let ?ws = "concat (map (entry_workers cast) v)" and ?m = "snd (wm_init cast v new_WorkerManager)"
  have get: "map_of (wm_datas ?m) k = (case List.find (\<lambda>w. w_name w = k) ?ws of Some w \<Rightarrow> Some [w] | None \<Rightarrow> None)" for k
  proof -
    have "map_of (wm_datas new_WorkerManager) k = None" by (simp add: new_WorkerManager_def)
    moreover have "\<forall>w \<in> set ?ws. map_of (wm_datas new_WorkerManager) (w_name w) = None" by (simp add: new_WorkerManager_def)
    ultimately show ?thesis using map_of_fold_add [OF entry_workers_distinct [OF assms(1)], of cast new_WorkerManager k]
      by (simp add: wm_init_def wm_init_entries Let_def split: option.split)
  qed
  let ?w = "\<lparr>w_name = name @ ''_'' @ dec i, w_threads = getParamValue cast ps ''thread_num'' 1, w_started = False\<rparr>"
  have mem: "?w \<in> set ?ws" using assms(2,3) by (force simp: entry_workers_def)
  have "List.find (\<lambda>w. w_name w = name @ ''_'' @ dec i) ?ws = Some ?w"
  proof (cases "List.find (\<lambda>w. w_name w = name @ ''_'' @ dec i) ?ws")
    case None
    then show ?thesis using mem by (auto simp: find_None_iff)
  next
    case (Some u)
    then have "u \<in> set ?ws" "w_name u = w_name ?w" using find_SomeD by fastforce+
    then have "u = ?w" using entry_workers_distinct [OF assms(1), of cast] mem by (metis distinct_map inj_onD)
    then show ?thesis using Some by simp
  qed
  then have 1: "wm_get r (name @ ''_'' @ dec i) ?m = Inr (Some ?w)" by (simp add: wm_get_def get)
  have "(wm_get r key ?m = Inr None) = (List.find (\<lambda>w. w_name w = key) ?ws = None)"
    by (simp add: wm_get_def get split: option.split)
  also have "\<dots> = (\<forall>w \<in> set ?ws. w_name w \<noteq> key)" by (auto simp: find_None_iff)
  also have "\<dots> = (\<not> (\<exists>name' ps' j. (name', ps') \<in> set v \<and> j < entry_num cast ps' \<and> key = name' @ ''_'' @ dec j))"
    using entry_workers_names [of cast v key] by simp
  finally have 2: "(wm_get r key ?m = Inr None) = (\<not> (\<exists>name' ps' j. (name', ps') \<in> set v \<and> j < entry_num cast ps' \<and> key = name' @ ''_'' @ dec j))" .
  have "wm_datas ?m \<noteq> []" using 1 by (auto simp: wm_get_def)
  then have 3: "\<not> wm_stop ?m" by (simp add: wm_init_def Let_def)
  show ?thesis using 1 2 3 by (simp add: wm_stop_all_def)
qed

theorem workers_of_configuration_witness:
  "let m = snd (wm_init (\<lambda>s. map_option int (read_num 10 s)) [(''io'', [(''thread_num'', ''8'')])] new_WorkerManager) in
   wm_get 0 ''io'' m = Inr None \<and> wm_get 0 ''io_0'' m = Inr (Some \<lparr>w_name = ''io_0'', w_threads = 8, w_started = False\<rparr>)"
proof -
  let ?cast = "\<lambda>s. map_option int (read_num 10 s)" and ?ps = "[(''thread_num'', ''8'')]"
  have n: "entry_num ?cast ?ps = 1" by (simp add: entry_num_def getParamValue_def)
  have r: "read_num 10 ''8'' = Some 8" and d: "dec 0 = ''0''" by code_simp+
  have t: "getParamValue ?cast ?ps ''thread_num'' 1 = 8" by (simp add: getParamValue_def r)
  show ?thesis
    using workers_of_configuration [of "[(''io'', ?ps)]" "''io''" ?ps 0 ?cast 0 "''io''"] by (simp add: n t d Let_def)
qed

end
