(* ===== verification/Spec2Isabelle.thy ===== *)
theory Spec2Isabelle imports RockProtocol WebSocket WebClient TcpServer AsyncStream Uri RunServers Threads HashTimedLruCache HashTimeCache Timer Servlet HttpConnection HashUtil FiberSemaphore Hook Log Worker Application begin

text \<open>
  A verification development for the seaice server framework (C++, \<^verbatim>\<open>src/seaice\<close>): fibers and their scheduler, an I/O manager over
  epoll with timers, system calls that yield instead of blocking, a serialisation buffer, streams and message protocols, HTTP and
  websocket sessions with servlets, their servers and clients, caches with expiry, and the ground of a server process: configuration, log, addresses,
  workers, modules, daemon and application.

  \<^bold>\<open>How the program fits together.\<close> A server process reads its command line and configuration (\<^verbatim>\<open>env\<close>, \<^verbatim>\<open>config2\<close>), whose listeners build
  the loggers (\<^verbatim>\<open>log\<close>), and starts itself again after a crash (\<^verbatim>\<open>daemon\<close>, \<^verbatim>\<open>application\<close>). Work runs on fibers that a scheduler hands to
  worker threads (\<^verbatim>\<open>fiber\<close>, \<^verbatim>\<open>scheduler\<close>, \<^verbatim>\<open>worker\<close>). The I/O manager is such a scheduler: it turns the events of epoll and the due timers
  into tasks (\<^verbatim>\<open>iomanager\<close>, \<^verbatim>\<open>timer\<close>). The hooks make every blocking call of a fiber register an event, yield and try again
  (\<^verbatim>\<open>hook\<close>, \<^verbatim>\<open>fd_manager\<close>). Above them sockets and servers accept connections, streams move bytes between a socket and a buffer
  (\<^verbatim>\<open>socketstream\<close>, \<^verbatim>\<open>bytearray\<close>), and protocols give them meaning: HTTP, websocket, and the rock protocol of requests and responses.

  \<^bold>\<open>The parts of the development.\<close> Each theory opens with what it holds; the operations are named as in the code, where the name is free.

  \<^item> \<open>Prelude\<close>: machine types, the faults that an operation can end in (exceptions of C++ and the undefined behaviours that the
    models make visible), sequencing of fallible operations (\<open>rbind\<close>), lists of blocks and words. \<open>Text\<close>: decimal and
    hexadecimal numbers and separated lists with their readers. \<open>Containers\<close>: the ordered and hashed containers of C++.
  \<^item> \<open>Endian\<close> (\<^verbatim>\<open>endian.h\<close>), \<open>ByteArray\<close>, \<open>ByteArrayCodec\<close>, \<open>ByteArrayViews\<close> (\<^verbatim>\<open>bytearray.cpp\<close>): the chain of nodes as a list with an index
    as cursor; its invariant; the abstract buffer of bytes that each operation refines; typed reads and writes, which the locale
    \<open>ba_codec\<close> puts under one contract; the vectors for scattered input and output and the files.
  \<^item> \<open>StreamIO\<close> (\<^verbatim>\<open>stream.cpp\<close>, \<^verbatim>\<open>socketstream.cpp\<close>), \<open>ZlibStream\<close> (\<^verbatim>\<open>zlib_stream.cpp\<close>), \<open>RockProtocol\<close> (\<^verbatim>\<open>protocol.cpp\<close>, \<^verbatim>\<open>rock/rock_protocol.cpp\<close>): the
    loops over partial transfers, the compression buffers, messages and their frames.
  \<^item> \<open>Http\<close>, \<open>HttpSession\<close>, \<open>Servlet\<close>, \<open>HttpConnection\<close>, \<open>WebSocket\<close> (\<^verbatim>\<open>http/\<close>): messages and their text, receiving and sending over a stream,
    routing, the client with its pool of connections, the websocket frames.
  \<^item> \<open>Socket\<close> (\<^verbatim>\<open>socket.cpp\<close>), \<open>TcpServer\<close> (\<^verbatim>\<open>tcpserver.h\<close>, \<^verbatim>\<open>tcpserver.cpp\<close>), \<open>WebServer\<close> (\<^verbatim>\<open>http/http_server.cpp\<close>, \<^verbatim>\<open>http/ws_server.cpp\<close>, \<^verbatim>\<open>http/ws_session.cpp\<close>),
    \<open>WebClient\<close> (\<^verbatim>\<open>http/http_connection.cpp\<close>, \<^verbatim>\<open>http/ws_connection.cpp\<close>), \<open>AsyncStream\<close> (\<^verbatim>\<open>async_socket_stream.cpp\<close>, \<^verbatim>\<open>rock/\<close>), \<open>RunServers\<close>
    (\<^verbatim>\<open>application.cpp\<close>), \<open>Uri\<close> (\<^verbatim>\<open>uri.cpp\<close>): the socket layer over a system given by its calls and a contract (\<open>net_contract\<close>) that says which descriptors a call opens
    and closes; the servers and clients over it, whose theorems account for every descriptor; the step relations of the accepting worker
    and of the fiber that writes, over all interleavings.
  \<^item> \<open>CacheStatus\<close>, \<open>CacheContract\<close>, \<open>TimedLruCache\<close>, \<open>HashTimedLruCache\<close>, \<open>TimeCache\<close>, \<open>HashTimeCache\<close> (\<^verbatim>\<open>ds/\<close>): caches over nodes with identities, so that a dangling
    iterator is a fault; the locales of \<open>CacheContract\<close> say what a cache promises and give the promise of a cache of buckets.
  \<^item> \<open>Fiber\<close>, \<open>Scheduler\<close>, \<open>FiberSemaphore\<close>, \<open>Worker\<close>, \<open>Timer\<close>, \<open>IOManager\<close>, \<open>FdManager\<close>, \<open>Hook\<close> (files of the same names): the scheduler and the
    worker group are step relations whose steps are the stretches of code between the points where others can come in;
    invariants are proved by rule induction over their reachable states.
  \<^item> \<open>Address\<close> (\<^verbatim>\<open>address.cpp\<close>), \<open>Yaml\<close>, \<open>Config\<close> (\<^verbatim>\<open>config2.h\<close>, \<^verbatim>\<open>config2.cpp\<close>), \<open>Log\<close> (\<^verbatim>\<open>log.cpp\<close>), \<open>Env\<close> (\<^verbatim>\<open>env.cpp\<close>, \<^verbatim>\<open>utils.cpp\<close>), \<open>Application\<close> (\<^verbatim>\<open>module.cpp\<close>,
    \<^verbatim>\<open>library.cpp\<close>, \<^verbatim>\<open>daemon.cpp\<close>, \<^verbatim>\<open>application.cpp\<close>), \<open>HashUtil\<close> (\<^verbatim>\<open>util/hash_util.cpp\<close>): the ground of the process.

  \<^bold>\<open>What the lemmas show.\<close> For data: round trips through every textual and binary form the program writes, and what is lost where one
  fails. For stateful parts: the invariant, its preservation by every operation, and the effect of an operation on each branch,
  with the faults it can end in. For loops: that they end, or exactly when they do. For the concurrent parts: safety and progress over all
  interleavings. Where the code departs from what it means to do, the theorem states what it does.

  \<^bold>\<open>Bounds and fuel.\<close> Loops that may run for ever (the daemon, compression, reception of frames, hooked calls, transfers) are partial functions
  whose result is \<open>None\<close> when they do, with theorems on when they return. The loop of \<open>Mkdir\<close> has the fuel
  \<open>length path + 3\<close> and that of \<open>createFileDir\<close> \<open>length path + 1\<close>: each round moves behind the next slash, so they suffice, as
  \<open>Mkdir_result\<close> shows. The depth in \<open>Log.getInstance\<close> is that of the stack: exhausting it is the fault \<open>StackOverflow\<close>. Machine
  integers are words where they wrap, and natural numbers or integers where the code cannot reach the bound.

  \<^bold>\<open>What is not modelled.\<close> The Ragel machines of \<^verbatim>\<open>uri.cpp\<close>, \<^verbatim>\<open>http11_parser.rl.cpp\<close> and \<^verbatim>\<open>httpclient_parser.rl.cpp\<close> are generated; a parser is a
  parameter of the sessions, whose theorems name what they need of it. Libraries and the system (zlib, OpenSSL, yaml-cpp, boost, epoll, sockets,
  \<^verbatim>\<open>getaddrinfo\<close>, files, processes) are parameters with the laws they document as hypotheses. In the models of the components
  a critical section is one step; \<open>Threads\<close> has the locks themselves, their guards and the start of a thread. The calls of \<^verbatim>\<open>Socket\<close> that cancel events only
  forward to the I/O manager, and printing is left out. \<^verbatim>\<open>config.cpp\<close> and \<^verbatim>\<open>ds/lru_cache.h\<close> are superseded by \<^verbatim>\<open>config2\<close> and
  \<^verbatim>\<open>ds/timed_lru_cache.h\<close>; examples and tests are left aside.
\<close>

end
